(* ===== verification/JS_Prelude.thy ===== *)
theory JS_Prelude
  imports Main "HOL-Library.Word" "HOL-Library.Multiset"
begin

text \<open>
  The vocabulary shared by the component theories: results of JavaScript calls, array access,
  objects with integer keys, ranks in lists, and the arithmetic of packed bit fields.

  A call either returns a value or ends in an error.  \<^verbatim>\<open>Throw\<close> is an exception with the
  message of the source (or the name of the built-in error); \<^verbatim>\<open>Undef\<close> says that the computation
  left the domain of the model, because it used \<^verbatim>\<open>undefined\<close>, \<^verbatim>\<open>NaN\<close> or a negative number where the
  source expects an index; \<^verbatim>\<open>Diverge\<close> says that a loop does not end.  The functional theorems
  show that the last two do not occur.
\<close>

unbundle bit_operations_syntax

section \<open>Shared vocabulary of the model\<close>

type_synonym jsstring = "nat list"

datatype js_error =
    Throw string
  | Undef
  | Diverge

type_synonym 'a js = "js_error + 'a"

definition js_bind :: "'a js \<Rightarrow> ('a \<Rightarrow> 'b js) \<Rightarrow> 'b js" where
  "js_bind m f = (case m of Inl e \<Rightarrow> Inl e | Inr x \<Rightarrow> f x)"

lemma js_bind_simps [simp]:
  "js_bind (Inl e) f = Inl e"
  "js_bind (Inr x) f = f x"
  by (simp_all add: js_bind_def)

lemma js_bind_eq_Inr: "js_bind m f = Inr y \<longleftrightarrow> (\<exists>x. m = Inr x \<and> f x = Inr y)"
  by (cases m) auto

lemma js_bind_cong [fundef_cong]:
  "m = m' \<Longrightarrow> (\<And>x. m' = Inr x \<Longrightarrow> f x = f' x) \<Longrightarrow> js_bind m f = js_bind m' f'"
  by (cases m') auto

definition js_at :: "'a list \<Rightarrow> nat \<Rightarrow> 'a js" where
  "js_at xs i = (if i < length xs then Inr (xs ! i) else Inl Undef)"

definition js_at0 :: "'a::zero list \<Rightarrow> nat \<Rightarrow> 'a" where
  "js_at0 xs i = (if i < length xs then xs ! i else 0)"

lemma js_at_in [simp]: "i < length xs \<Longrightarrow> js_at xs i = Inr (xs ! i)"
  by (simp add: js_at_def)

lemma js_at0_in [simp]: "i < length xs \<Longrightarrow> js_at0 xs i = xs ! i"
  by (simp add: js_at0_def)

text \<open>
  A write within the bounds of an array.  JavaScript would extend the array or set a property
  elsewhere; no caller relies on that, and the model reports it.
\<close>

definition js_put :: "'a list \<Rightarrow> nat \<Rightarrow> 'a \<Rightarrow> 'a list js" where
  "js_put xs i x = (if i < length xs then Inr (xs[i := x]) else Inl Undef)"

lemma js_put_in [simp]: "i < length xs \<Longrightarrow> js_put xs i x = Inr (xs[i := x])"
  by (simp add: js_put_def)

text \<open>A counting loop whose body can fail.\<close>

fun js_fold :: "('b \<Rightarrow> 'a \<Rightarrow> 'b js) \<Rightarrow> 'b \<Rightarrow> 'a list \<Rightarrow> 'b js" where
  "js_fold f acc [] = Inr acc"
| "js_fold f acc (x # xs) = js_bind (f acc x) (\<lambda>acc. js_fold f acc xs)"

lemma js_fold_append: "js_fold f acc (xs @ ys) = js_bind (js_fold f acc xs) (\<lambda>acc. js_fold f acc ys)"
  by (induction xs arbitrary: acc) (auto simp: js_bind_def split: sum.splits)

lemma js_fold_snoc: "js_fold f acc (xs @ [x]) = js_bind (js_fold f acc xs) (\<lambda>acc. f acc x)"
  by (simp add: js_fold_append js_bind_def split: sum.splits)

lemma js_fold_upt_inv:
  assumes "I 0 acc" and "\<And>i acc. i < n \<Longrightarrow> I i acc \<Longrightarrow> \<exists>acc'. f acc i = Inr acc' \<and> I (Suc i) acc'"
  shows "\<exists>acc'. js_fold f acc [0..<n] = Inr acc' \<and> I n acc'"
  using assms
proof (induction n)
  case (Suc n)
  then obtain acc1 where "js_fold f acc [0..<n] = Inr acc1" "I n acc1" by fastforce
  then show ?case using Suc.prems(2) [of n acc1] by (auto simp: js_fold_snoc)
qed simp

subsection \<open>Objects with integer keys\<close>

text \<open>
  An object used as a dictionary with integer keys is the list of its properties in the order
  in which \<^verbatim>\<open>for (k in obj)\<close> visits them: ascending.
\<close>

type_synonym 'a jsobj = "(nat \<times> 'a) list"

fun obj_set :: "nat \<Rightarrow> 'a \<Rightarrow> 'a jsobj \<Rightarrow> 'a jsobj" where
  "obj_set k v [] = [(k, v)]"
| "obj_set k v ((k', v') # xs) =
    (if k < k' then (k, v) # (k', v') # xs
     else if k = k' then (k, v) # xs
     else (k', v') # obj_set k v xs)"

definition obj_get :: "'a jsobj \<Rightarrow> nat \<Rightarrow> 'a option" where
  "obj_get m k = map_of m k"

definition obj_ok :: "'a jsobj \<Rightarrow> bool" where
  "obj_ok m \<longleftrightarrow> sorted_wrt (<) (map fst m)"

lemma obj_get_Nil [simp]: "obj_get [] k = None"
  by (simp add: obj_get_def)

lemma obj_get_set: "obj_get (obj_set k v m) k' = (if k' = k then Some v else obj_get m k')"
  by (induction m) (auto simp: obj_get_def)

lemma set_keys_obj_set: "fst ` set (obj_set k v m) = insert k (fst ` set m)"
  by (induction k v m rule: obj_set.induct) (simp_all add: insert_commute)

lemma obj_ok_Nil [simp]: "obj_ok []"
  by (simp add: obj_ok_def)

lemma obj_ok_set: "obj_ok m \<Longrightarrow> obj_ok (obj_set k v m)"
proof (induction m)
  case (Cons a m)
  obtain k' v' where a: "a = (k', v')" by (cases a)
  have "\<forall>x \<in> fst ` set m. k' < x" and m: "obj_ok m" using Cons.prems by (auto simp: obj_ok_def a)
  then have "k' < k \<Longrightarrow> \<forall>x \<in> fst ` set (obj_set k v m). k' < x"
    by (simp only: set_keys_obj_set) auto
  moreover have "obj_ok (obj_set k v m)" by (rule Cons.IH [OF m])
  ultimately show ?case using Cons.prems by (auto simp: obj_ok_def a)
qed (simp add: obj_ok_def)

lemma obj_ok_distinct: "obj_ok m \<Longrightarrow> distinct (map fst m)"
  by (simp add: obj_ok_def strict_sorted_iff)

lemma obj_ok_mem: "obj_ok m \<Longrightarrow> (k, v) \<in> set m \<longleftrightarrow> obj_get m k = Some v"
  by (simp add: obj_get_def obj_ok_distinct)

lemma obj_ok_eqI:
  assumes "obj_ok m" "obj_ok m'" "\<And>k. obj_get m k = obj_get m' k"
  shows "m = m'"
proof -
  have "set m = set m'" using assms by (auto simp: obj_ok_mem)
  moreover have "sorted_wrt (<) (map fst m)" "sorted_wrt (<) (map fst m')"
    using assms by (simp_all add: obj_ok_def)
  ultimately show ?thesis
    using map_sorted_distinct_set_unique [of fst m m'] assms obj_ok_distinct
    by (metis (no_types, lifting) Un_absorb distinct_map strict_sorted_iff)
qed

subsection \<open>Counting\<close>

abbreviation rank_list :: "'a list \<Rightarrow> 'a \<Rightarrow> nat \<Rightarrow> nat" where
  "rank_list xs x i \<equiv> count_list (take i xs) x"

lemma count_list_True_False: "count_list xs True + count_list xs False = length xs"
  by (induction xs) auto

lemma rank_list_Suc:
  "i < length xs \<Longrightarrow> rank_list xs x (Suc i) = rank_list xs x i + (if xs ! i = x then 1 else 0)"
  by (simp add: take_Suc_conv_app_nth)

lemma rank_list_mono: "i \<le> j \<Longrightarrow> rank_list xs x i \<le> rank_list xs x j"
proof -
  assume "i \<le> j"
  then have "take j xs = take i xs @ take (j - i) (drop i xs)"
    by (metis le_add_diff_inverse take_add)
  then show ?thesis by simp
qed

lemma rank_list_le: "rank_list xs x i \<le> i"
  by (metis count_le_length le_trans length_take min.cobounded2)

lemma rank_list_le_count: "rank_list xs x i \<le> count_list xs x"
  by (metis append_take_drop_id count_list_append le_add1)

lemma count_list_map_eq: "count_list (map f xs) b = length [x \<leftarrow> xs. f x = b]"
  by (induction xs) auto

lemma rank_list_map:
  "rank_list (map f xs) b i = length [x \<leftarrow> take i xs. f x = b]"
  by (simp add: take_map count_list_map_eq)

lemma length_filter_disj:
  "(\<And>x. \<not> (P x \<and> Q x)) \<Longrightarrow> length [x \<leftarrow> xs. P x \<or> Q x] = length (filter P xs) + length (filter Q xs)"
  by (induction xs) auto

subsection \<open>Fields of a number\<close>

fun bit_fields :: "nat \<Rightarrow> nat \<Rightarrow> nat \<Rightarrow> nat list" where
  "bit_fields w 0 x = []"
| "bit_fields w (Suc m) x = take_bit w x # bit_fields w m (drop_bit w x)"

fun join_fields :: "nat \<Rightarrow> nat list \<Rightarrow> nat" where
  "join_fields w [] = 0"
| "join_fields w (d # ds) = d + push_bit w (join_fields w ds)"

fun pair_sums :: "nat list \<Rightarrow> nat list" where
  "pair_sums (a # b # ds) = (a + b) # pair_sums ds"
| "pair_sums ds = ds"

lemma length_bit_fields [simp]: "length (bit_fields w m x) = m"
  by (induction m arbitrary: x) auto

lemma nth_bit_fields: "j < m \<Longrightarrow> bit_fields w m x ! j = take_bit w (drop_bit (w * j) x)"
  by (induction m arbitrary: x j) (auto simp: nth_Cons add.commute split: nat.splits)

lemma join_fields_less: "\<forall>d\<in>set ds. d < 2 ^ w \<Longrightarrow> join_fields w ds < 2 ^ (w * length ds)"
proof (induction ds)
  case (Cons d ds)
  then have d: "d < 2 ^ w" and IH: "join_fields w ds < 2 ^ (w * length ds)" by auto
  have "d + 2 ^ w * join_fields w ds < 2 ^ w * Suc (join_fields w ds)" using d by simp
  also have "\<dots> \<le> 2 ^ w * 2 ^ (w * length ds)" using IH by (intro mult_le_mono2) simp
  finally show ?case by (simp add: push_bit_eq_mult power_add mult.commute)
qed simp

lemma bit_fields_join_fields: "\<forall>d\<in>set ds. d < 2 ^ w \<Longrightarrow> bit_fields w (length ds) (join_fields w ds) = ds"
  by (induction ds) (auto simp: take_bit_eq_mod push_bit_eq_mult drop_bit_eq_div)

lemma and_add_push_bit:
  fixes x a b :: nat
  assumes "a < 2 ^ k"
  shows "x AND (a + push_bit k b) = (take_bit k x AND a) + push_bit k (drop_bit k x AND b)"
proof -
  have a: "bit a n \<Longrightarrow> n < k" for n
    using assms by (metis bit_take_bit_iff take_bit_nat_eq_self)
  have 1: "a + push_bit k b = a OR push_bit k b"
    by (rule disjunctive_add) (auto simp: bit_push_bit_iff dest: a)
  have 2: "(take_bit k x AND a) + push_bit k (drop_bit k x AND b)
      = (take_bit k x AND a) OR push_bit k (drop_bit k x AND b)"
    by (rule disjunctive_add) (auto simp: bit_push_bit_iff bit_and_iff dest: a)
  show ?thesis
    unfolding 1 2
    by (rule bit_eqI)
      (auto simp: bit_simps dest: a)
qed

definition swar_mask :: "nat \<Rightarrow> nat \<Rightarrow> nat" where
  "swar_mask w m = join_fields (2 * w) (replicate m (mask w))"

lemma mask_less_double: "(mask w :: nat) < 2 ^ (2 * w)"
proof -
  have "(2::nat) ^ w \<le> 2 ^ (2 * w)" by (rule power_increasing) auto
  moreover have "(mask w :: nat) < 2 ^ w" by (simp add: mask_eq_exp_minus_1)
  ultimately show ?thesis by linarith
qed

lemma swar_mask_Suc: "swar_mask w (Suc m) = mask w + push_bit (2 * w) (swar_mask w m)"
  by (simp add: swar_mask_def)

lemma swar_mask_eval:
  "swar_mask w 0 = 0"
  "swar_mask w (Suc 0) = 2 ^ w - 1"
  "swar_mask w (numeral k) = (2 ^ w - 1) + 2 ^ (2 * w) * swar_mask w (pred_numeral k)"
proof -
  show 0: "swar_mask w 0 = 0" by (simp add: swar_mask_def)
  show "swar_mask w (Suc 0) = 2 ^ w - 1"
    by (simp add: swar_mask_Suc 0 mask_eq_exp_minus_1)
  have "swar_mask w (numeral k) = swar_mask w (Suc (pred_numeral k))"
    by (simp add: numeral_eq_Suc)
  then show "swar_mask w (numeral k) = (2 ^ w - 1) + 2 ^ (2 * w) * swar_mask w (pred_numeral k)"
    by (simp add: swar_mask_Suc mask_eq_exp_minus_1 push_bit_eq_mult mult.commute)
qed

lemma swar_low:
  "x AND swar_mask w (Suc m) = take_bit w x + push_bit (2 * w) (drop_bit (2 * w) x AND swar_mask w m)"
proof -
  have "x AND swar_mask w (Suc m) =
      (take_bit (2 * w) x AND mask w) + push_bit (2 * w) (drop_bit (2 * w) x AND swar_mask w m)"
    unfolding swar_mask_Suc by (rule and_add_push_bit) (rule mask_less_double)
  also have "take_bit (2 * w) x AND mask w = take_bit w x"
    by (simp add: take_bit_eq_mask [symmetric])
  finally show ?thesis .
qed

lemma swar_high: "drop_bit w (x AND push_bit w (swar_mask w m)) = drop_bit w x AND swar_mask w m"
  by (rule bit_eqI) (auto simp: bit_simps)

lemma swar_step:
  "(drop_bit w x AND swar_mask w m) + (x AND swar_mask w m)
    = join_fields (2 * w) (pair_sums (bit_fields w (2 * m) x))"
proof (induction m arbitrary: x)
  case 0
  then show ?case by (simp add: swar_mask_def)
next
  case (Suc m)
  have f: "bit_fields w (2 * Suc m) x
      = take_bit w x # take_bit w (drop_bit w x) # bit_fields w (2 * m) (drop_bit (2 * w) x)"
    by (simp add: mult_2)
  have IH: "(drop_bit w (drop_bit (2 * w) x) AND swar_mask w m)
      + (drop_bit (2 * w) x AND swar_mask w m)
      = join_fields (2 * w) (pair_sums (bit_fields w (2 * m) (drop_bit (2 * w) x)))"
    by (rule Suc.IH)
  have c: "drop_bit (2 * w) (drop_bit w x) = drop_bit w (drop_bit (2 * w) x)"
    by (simp add: add.commute)
  show ?case
    unfolding swar_low f c pair_sums.simps join_fields.simps IH [symmetric]
    by (simp add: push_bit_add)
qed

lemma length_pair_sums: "length (pair_sums ds) = (length ds + 1) div 2"
  by (induction ds rule: pair_sums.induct) auto

lemma nth_pair_sums:
  "2 * j + 1 < length ds \<Longrightarrow> pair_sums ds ! j = ds ! (2 * j) + ds ! (2 * j + 1)"
  by (induction ds arbitrary: j rule: pair_sums.induct) (auto simp: nth_Cons split: nat.splits)

lemma sum_list_pair_sums [simp]: "sum_list (pair_sums ds) = sum_list ds"
  by (induction ds rule: pair_sums.induct) auto

lemma length_pair_sums_power: "length ds div 2 ^ k \<le> length ((pair_sums ^^ k) ds)"
proof (induction k)
  case (Suc k)
  have "length ds div 2 ^ Suc k = length ds div 2 ^ k div 2"
    by (simp add: div_mult2_eq [symmetric] mult.commute)
  also have "\<dots> \<le> length ((pair_sums ^^ k) ds) div 2"
    by (rule div_le_mono) (rule Suc)
  also have "\<dots> \<le> length ((pair_sums ^^ Suc k) ds)"
    by (simp add: length_pair_sums)
  finally show ?case .
qed simp

lemma nth_pair_sums_power:
  "2 ^ k * (j + 1) \<le> length ds \<Longrightarrow>
    (pair_sums ^^ k) ds ! j = sum_list (take (2 ^ k) (drop (2 ^ k * j) ds))"
proof (induction k arbitrary: j)
  case 0
  then show ?case by (simp add: take_Suc_conv_app_nth hd_drop_conv_nth take_Suc)
next
  case (Suc k)
  let ?n = "2 ^ k :: nat"
  have b: "?n * (2 * j + 2) \<le> length ds" using Suc.prems by (simp add: algebra_simps)
  then have "2 * j + 2 \<le> length ds div ?n"
    by (simp add: less_eq_div_iff_mult_less_eq mult.commute)
  then have "2 * j + 1 < length ((pair_sums ^^ k) ds)" using length_pair_sums_power [of ds k] by linarith
  then have "(pair_sums ^^ Suc k) ds ! j
      = (pair_sums ^^ k) ds ! (2 * j) + (pair_sums ^^ k) ds ! (2 * j + 1)"
    by (simp add: nth_pair_sums)
  also have "\<dots> = sum_list (take ?n (drop (?n * (2 * j)) ds))
      + sum_list (take ?n (drop (?n * (2 * j + 1)) ds))"
    using b by (subst (1 2) Suc.IH) (auto simp: algebra_simps)
  also have "\<dots> = sum_list (take (?n + ?n) (drop (?n * (2 * j)) ds))"
    by (simp add: take_add add.commute algebra_simps)
  finally show ?case by (simp add: mult.assoc mult_2 [symmetric] mult.left_commute mult.commute)
qed

lemma pair_sums_bound:
  "\<forall>d\<in>set ds. d \<le> b \<Longrightarrow> \<forall>d\<in>set (pair_sums ds). d \<le> 2 * b"
  by (induction ds rule: pair_sums.induct) auto

section \<open>Characters\<close>

text \<open>String literals.\<close>

definition js_lit :: "string \<Rightarrow> jsstring" where
  "js_lit s = map of_char s"

text \<open>The character class \<^verbatim>\<open>\s\<close> of regular expressions.\<close>

definition white_space :: "nat \<Rightarrow> bool" where
  "white_space c \<longleftrightarrow> 9 \<le> c \<and> c \<le> 13 \<or> c = 32 \<or> c = 160 \<or> c = 5760 \<or> 8192 \<le> c \<and> c \<le> 8202 \<or>
    c = 8232 \<or> c = 8233 \<or> c = 8239 \<or> c = 8287 \<or> c = 12288 \<or> c = 65279"

text \<open>\<^verbatim>\<open>slice\<close> of a string, which counts negative positions from the end.\<close>

definition slice_index :: "jsstring \<Rightarrow> int \<Rightarrow> nat" where
  "slice_index s i = (if i < 0 then nat (int (length s) + i) else min (nat i) (length s))"

definition js_slice :: "jsstring \<Rightarrow> int \<Rightarrow> int \<Rightarrow> jsstring" where
  "js_slice s i j = take (slice_index s j - slice_index s i) (drop (slice_index s i) s)"

text \<open>The bytes of a Unicode character in UTF-8.\<close>

definition utf8 :: "nat \<Rightarrow> nat list" where
  "utf8 c =
    (if c < 128 then [c]
     else if c < 2048 then [192 + c div 64, 128 + c mod 64]
     else if c < 65536 then [224 + c div 4096, 128 + c div 64 mod 64, 128 + c mod 64]
     else [240 + c div 262144, 128 + c div 4096 mod 64, 128 + c div 64 mod 64, 128 + c mod 64])"

text \<open>Strings in which the surrogates are in pairs.\<close>

fun well_formed :: "jsstring \<Rightarrow> bool" where
  "well_formed [] \<longleftrightarrow> True"
| "well_formed (c # cs) \<longleftrightarrow>
    (if 56320 \<le> c \<and> c \<le> 57343 then False
     else if 55296 \<le> c \<and> c \<le> 56319 then
       (case cs of [] \<Rightarrow> False | d # ds \<Rightarrow> 56320 \<le> d \<and> d \<le> 57343 \<and> well_formed ds)
     else c < 65536 \<and> well_formed cs)"

text \<open>Bit fields of natural numbers put together.\<close>

lemma join_bits: "push_bit n (drop_bit n z) OR take_bit n z = (z :: nat)"
  by (rule bit_eqI) (auto simp: bit_simps)

lemma join_add: "y < 2 ^ n \<Longrightarrow> push_bit n x OR y = x * 2 ^ n + (y :: nat)"
  using join_bits [of n "x * 2 ^ n + y"] by (simp add: drop_bit_eq_div take_bit_eq_mod)

lemma and_63: "x AND 63 = take_bit 6 (x :: nat)"
  using take_bit_eq_mask [of 6 x] by (simp add: mask_eq_exp_minus_1)

end
