(* ===== verification/Bit_Vector.thy ===== *)
theory Bit_Vector
  imports JS_Prelude
begin

text \<open>
  The class \<^verbatim>\<open>BitVector\<close>: a vector of bits in 32-bit words with a directory of cumulative counts
  per 256 bits.  Words are \<^typ>\<open>32 word\<close>: the shift counts of JavaScript are taken modulo 32, and
  reading past the end of an array yields \<^verbatim>\<open>undefined\<close>, which the bit operators treat as 0
  (\<^verbatim>\<open>js_at0\<close>).  Positions are natural numbers below \<^verbatim>\<open>2^31\<close>, on which the truncation \<^verbatim>\<open>x | 0\<close> is
  the identity; \<^verbatim>\<open>set\<close> takes an integer, since callers reach it with -1.

  The lemmas: the masked-shift population count (\<^verbatim>\<open>_rank32\<close>) and selection (\<^verbatim>\<open>_select32\<close>) of one
  word, the effect of \<^verbatim>\<open>set\<close> on the list of bits, the directory made by \<^verbatim>\<open>build\<close>, and from these
  rank and select of the whole vector; then the contract \<^verbatim>\<open>rank_dictionary\<close> that clients use.
\<close>

section \<open>Bit vectors\<close>

record BitVector =
  bv_v :: "32 word list"
  bv_r :: "nat list"
  bv_size :: nat
  bv_size1 :: nat

definition BitVector_new :: BitVector where
  "BitVector_new = \<lparr>bv_v = [], bv_r = [], bv_size = 0, bv_size1 = 0\<rparr>"

definition swar1 :: "32 word \<Rightarrow> 32 word" where
  "swar1 x = drop_bit 1 (x AND 0xaaaaaaaa) + (x AND 0x55555555)"

definition swar2 :: "32 word \<Rightarrow> 32 word" where
  "swar2 x = drop_bit 2 (x AND 0xcccccccc) + (x AND 0x33333333)"

definition swar4 :: "32 word \<Rightarrow> 32 word" where
  "swar4 x = drop_bit 4 (x AND 0xf0f0f0f0) + (x AND 0x0f0f0f0f)"

definition swar8 :: "32 word \<Rightarrow> 32 word" where
  "swar8 x = drop_bit 8 (x AND 0xff00ff00) + (x AND 0x00ff00ff)"

definition swar16 :: "32 word \<Rightarrow> 32 word" where
  "swar16 x = drop_bit 16 (x AND 0xffff0000) + (x AND 0x0000ffff)"

definition BitVector_rank32 :: "32 word \<Rightarrow> nat \<Rightarrow> bool \<Rightarrow> nat" where
  "BitVector_rank32 x i b =
    (let x = (if \<not> b then NOT x else x);
         x = push_bit (nat ((32 - int i) mod 32)) x;
         x = swar1 x;
         x = swar2 x;
         x = swar4 x;
         x = swar8 x;
         x = swar16 x
     in unat x)"

definition select32_step :: "32 word \<Rightarrow> 32 word \<Rightarrow> nat \<Rightarrow> nat \<times> nat \<Rightarrow> nat \<times> nat" where
  "select32_step x m w = (\<lambda>(i, pos).
    let v = unat (drop_bit (pos mod 32) x AND m)
    in if i > v then (i - v, pos + w) else (i, pos))"

definition BitVector_select32 :: "32 word \<Rightarrow> nat \<Rightarrow> bool \<Rightarrow> nat" where
  "BitVector_select32 x i b =
    (let x = (if \<not> b then NOT x else x);
         x1 = swar1 x;
         x2 = swar2 x1;
         x3 = swar4 x2;
         x4 = swar8 x3;
         x5 = swar16 x4;
         s = (i + 1, 0);
         s = select32_step x5 0xffffffff 32 s;
         s = select32_step x4 0x0000ffff 16 s;
         s = select32_step x3 0x000000ff 8 s;
         s = select32_step x2 0x0000000f 4 s;
         s = select32_step x1 0x00000003 2 s;
         s = select32_step x 0x00000001 1 s
     in snd s)"

fun BitVector_build_loop :: "32 word list \<Rightarrow> nat \<Rightarrow> nat list \<Rightarrow> nat \<Rightarrow> nat list \<times> nat" where
  "BitVector_build_loop [] i r size1 = (r, size1)"
| "BitVector_build_loop (x # v) i r size1 =
    BitVector_build_loop v (i + 1) (if i mod 8 = 0 then r @ [size1] else r)
      (size1 + BitVector_rank32 x 32 True)"

definition BitVector_build :: "BitVector \<Rightarrow> BitVector" where
  "BitVector_build bv =
    (let (r, size1) = BitVector_build_loop (bv_v bv) 0 (bv_r bv) 0
     in bv\<lparr>bv_r := r, bv_size1 := size1\<rparr>)"

definition BitVector_clear :: "BitVector \<Rightarrow> BitVector" where
  "BitVector_clear bv = bv\<lparr>bv_v := [], bv_r := [], bv_size := 0, bv_size1 := 0\<rparr>"

definition BitVector_size :: "BitVector \<Rightarrow> nat" where
  "BitVector_size bv = bv_size bv"

definition BitVector_sizeB :: "BitVector \<Rightarrow> bool \<Rightarrow> nat" where
  "BitVector_sizeB bv b = (if b then bv_size1 bv else bv_size bv - bv_size1 bv)"

definition js_quot32 :: "int \<Rightarrow> int" where
  "js_quot32 x = (if 0 \<le> x then x div 32 else - ((- x) div 32))"

definition js_rem32 :: "int \<Rightarrow> int" where
  "js_rem32 x = (if 0 \<le> x then x mod 32 else - ((- x) mod 32))"

text \<open>
  The source writes \<^verbatim>\<open>value + 1 | 0\<close> for the new size.  The model leaves the conversion out, so it is that of
  the source for values below \<^verbatim>\<open>2 ^ 31 - 1\<close>; the next one would make the size negative.
\<close>

definition BitVector_set :: "BitVector \<Rightarrow> int \<Rightarrow> bool \<Rightarrow> BitVector" where
  "BitVector_set bv value flag =
    (let size = (if int (bv_size bv) \<le> value then nat (value + 1) else bv_size bv);
         q = js_quot32 value;
         r = js_rem32 value;
         v = bv_v bv @ replicate (nat (q + 1) - length (bv_v bv)) 0;
         m = push_bit (nat (r mod 32)) 1;
         v' = (if 0 \<le> q
               then v[nat q := (if flag then v ! nat q OR m else v ! nat q AND NOT m)]
               else v)
     in bv\<lparr>bv_size := size, bv_v := v'\<rparr>)"

definition BitVector_get :: "BitVector \<Rightarrow> nat \<Rightarrow> bool js" where
  "BitVector_get bv value =
    (if bv_size bv \<le> value then Inl (Throw ''BitVector.get() : range error'')
     else Inr (js_at0 (bv_v bv) (value div 32) AND push_bit (value mod 32) 1 \<noteq> 0))"

fun rank_blocks :: "32 word list \<Rightarrow> nat \<Rightarrow> nat \<Rightarrow> bool \<Rightarrow> nat" where
  "rank_blocks v j 0 b = 0"
| "rank_blocks v j (Suc k) b = BitVector_rank32 (js_at0 v j) 32 b + rank_blocks v (Suc j) k b"

definition BitVector_rank :: "BitVector \<Rightarrow> nat \<Rightarrow> bool \<Rightarrow> nat js" where
  "BitVector_rank bv i b =
    (if bv_size bv < i then Inl (Throw ''BitVector.rank() : range error'')
     else if i = 0 then Inr 0
     else
       (let i = i - 1;
            q_large = i div 256;
            q_small = i div 32;
            r = i mod 32;
            rank = js_at0 (bv_r bv) q_large;
            rank = (if \<not> b then q_large * 256 - rank else rank);
            begin = q_large * 8
        in Inr (rank + rank_blocks (bv_v bv) begin (q_small - begin) b
                 + BitVector_rank32 (js_at0 (bv_v bv) q_small) (r + 1) b)))"

definition select_rank :: "nat list \<Rightarrow> nat \<Rightarrow> bool \<Rightarrow> nat" where
  "select_rank r pivot b = (if \<not> b then pivot * 256 - js_at0 r pivot else js_at0 r pivot)"

function select_search :: "nat list \<Rightarrow> nat \<Rightarrow> bool \<Rightarrow> nat \<Rightarrow> nat \<Rightarrow> nat" where
  "select_search r i b left right =
    (if left < right
     then (let pivot = (left + right) div 2 in
           if i < select_rank r pivot b then select_search r i b left pivot
           else select_search r i b (pivot + 1) right)
     else right)"
  by pat_completeness auto
termination
  by (relation "measure (\<lambda>(r, i, b, left, right). right - left)") auto

function select_scan :: "32 word list \<Rightarrow> nat \<Rightarrow> nat \<Rightarrow> bool \<Rightarrow> (nat \<times> nat) js" where
  "select_scan v j i b =
    (let rank = BitVector_rank32 (js_at0 v j) 32 b in
     if i < rank then Inr (j, i)
     else if length v \<le> j \<and> rank = 0 then Inl Diverge
     else select_scan v (j + 1) (i - rank) b)"
  by pat_completeness auto
termination
  by (relation "measures [\<lambda>(v, j, i, b). length v - j, \<lambda>(v, j, i, b). i]") (auto simp: js_at0_def)

declare select_search.simps [simp del] select_scan.simps [simp del]

definition BitVector_select :: "BitVector \<Rightarrow> nat \<Rightarrow> bool \<Rightarrow> nat js" where
  "BitVector_select bv i b =
    (if BitVector_sizeB bv b \<le> i then Inl (Throw ''BitVector.select() : range error'')
     else
       (let right = select_search (bv_r bv) i b 0 (length (bv_r bv)) in
        if right = 0 then Inl Undef
        else
          (let right = right - 1;
               i = i - select_rank (bv_r bv) right b
           in js_bind (select_scan (bv_v bv) (right * 8) i b)
                (\<lambda>(j, i). Inr (j * 32 + BitVector_select32 (js_at0 (bv_v bv) j) i b)))))"


subsection \<open>Population count\<close>

definition word_bits :: "32 word \<Rightarrow> bool list" where
  "word_bits x = map (bit x) [0..<32]"

lemma length_word_bits [simp]: "length (word_bits x) = 32"
  by (simp add: word_bits_def)

lemma nth_word_bits [simp]: "i < 32 \<Longrightarrow> word_bits x ! i = bit x i"
  by (simp add: word_bits_def)

lemma word_fields_swar:
  fixes x hi lo :: "32 word"
  assumes wm: "2 * w * m = 32" and lo: "unat lo = swar_mask w m"
    and hi: "unat hi = push_bit w (swar_mask w m)"
    and small: "\<forall>d\<in>set (pair_sums (bit_fields w (2 * m) (unat x))). d < 2 ^ (2 * w)"
  shows "bit_fields (2 * w) m (unat (drop_bit w (x AND hi) + (x AND lo)))
    = pair_sums (bit_fields w (2 * m) (unat x))"
proof -
  let ?ds = "pair_sums (bit_fields w (2 * m) (unat x))"
  have len: "length ?ds = m" by (simp add: length_pair_sums)
  have a: "unat (drop_bit w (x AND hi)) = drop_bit w (unat x) AND swar_mask w m"
    unfolding swar_high [symmetric] hi [symmetric]
    by (metis unsigned_drop_bit_eq unsigned_and_eq unsigned_take_bit_eq take_bit_length_eq)
  have b: "unat (x AND lo) = unat x AND swar_mask w m"
    by (simp add: unsigned_and_eq lo)
  have sum: "unat (drop_bit w (x AND hi)) + unat (x AND lo) = join_fields (2 * w) ?ds"
    unfolding a b by (rule swar_step)
  moreover have "join_fields (2 * w) ?ds < 2 ^ 32"
    using join_fields_less [OF small] wm len by simp
  ultimately have "unat (drop_bit w (x AND hi) + (x AND lo)) = join_fields (2 * w) ?ds"
    by (simp add: unat_word_ariths)
  then show ?thesis using bit_fields_join_fields [OF small] len by simp
qed

lemma bit_fields_1: "bit_fields (Suc 0) 32 (unat (x :: 32 word)) = map of_bool (word_bits x)"
  by (rule nth_equalityI)
    (auto simp: nth_bit_fields take_bit_eq_mod mod_2_eq_odd bit_iff_odd_drop_bit [symmetric]
      bit_unsigned_iff)

lemma swar_masks:
  "unat (0x55555555 :: 32 word) = swar_mask 1 16"
  "unat (0xaaaaaaaa :: 32 word) = push_bit 1 (swar_mask 1 16)"
  "unat (0x33333333 :: 32 word) = swar_mask 2 8"
  "unat (0xcccccccc :: 32 word) = push_bit 2 (swar_mask 2 8)"
  "unat (0x0f0f0f0f :: 32 word) = swar_mask 4 4"
  "unat (0xf0f0f0f0 :: 32 word) = push_bit 4 (swar_mask 4 4)"
  "unat (0x00ff00ff :: 32 word) = swar_mask 8 2"
  "unat (0xff00ff00 :: 32 word) = push_bit 8 (swar_mask 8 2)"
  "unat (0x0000ffff :: 32 word) = swar_mask 16 1"
  "unat (0xffff0000 :: 32 word) = push_bit 16 (swar_mask 16 1)"
  by (simp_all add: swar_mask_eval push_bit_eq_mult)

abbreviation bit_counts :: "32 word \<Rightarrow> nat list" where
  "bit_counts x \<equiv> map of_bool (word_bits x)"

lemma pair_sums_power_bound: "\<forall>d\<in>set ((pair_sums ^^ k) (bit_counts x)). d \<le> 2 ^ k"
proof (induction k)
  case (Suc k)
  then show ?case using pair_sums_bound [OF Suc] by simp
qed auto

lemma swar_stage:
  fixes x hi lo :: "32 word"
  assumes stage: "bit_fields w m2 (unat x) = (pair_sums ^^ k) (bit_counts z)"
    and lo: "unat lo = swar_mask w m" and hi: "unat hi = push_bit w (swar_mask w m)"
    and w: "w = 2 ^ k" and m2: "m2 = 2 * m" and w2: "w2 = 2 * w" and wm: "w2 * m = 32"
    and k2: "k2 = Suc k"
  shows "bit_fields w2 m (unat (drop_bit w (x AND hi) + (x AND lo))) = (pair_sums ^^ k2) (bit_counts z)"
proof -
  have "Suc k < 2 * 2 ^ k" by (induction k) auto
  then have "(2 :: nat) ^ Suc k < 2 ^ (2 * w)" unfolding w by (rule power_strict_increasing) simp
  then have "\<forall>d\<in>set (pair_sums (bit_fields w (2 * m) (unat x))). d < 2 ^ (2 * w)"
    using pair_sums_power_bound [of "Suc k" z] stage m2 by (auto intro: le_less_trans)
  from word_fields_swar [OF _ lo hi this] show ?thesis using stage w2 m2 wm k2 by simp
qed

lemma swar1_fields: "bit_fields 2 16 (unat (swar1 x)) = (pair_sums ^^ 1) (bit_counts x)"
  unfolding swar1_def
  by (rule swar_stage [where k = 0, OF _ swar_masks(1,2)]) (simp_all add: bit_fields_1)

lemma swar2_fields: "bit_fields 4 8 (unat (swar2 (swar1 x))) = (pair_sums ^^ 2) (bit_counts x)"
  unfolding swar2_def by (rule swar_stage [OF swar1_fields swar_masks(3,4)]) simp_all

lemma swar4_fields: "bit_fields 8 4 (unat (swar4 (swar2 (swar1 x)))) = (pair_sums ^^ 3) (bit_counts x)"
  unfolding swar4_def by (rule swar_stage [OF swar2_fields swar_masks(5,6)]) simp_all

lemma swar8_fields:
  "bit_fields 16 2 (unat (swar8 (swar4 (swar2 (swar1 x))))) = (pair_sums ^^ 4) (bit_counts x)"
  unfolding swar8_def by (rule swar_stage [OF swar4_fields swar_masks(7,8)]) simp_all

lemma swar16_fields:
  "bit_fields 32 1 (unat (swar16 (swar8 (swar4 (swar2 (swar1 x)))))) = (pair_sums ^^ 5) (bit_counts x)"
  unfolding swar16_def by (rule swar_stage [OF swar8_fields swar_masks(9,10)]) simp_all

lemma sum_list_pair_sums_power [simp]: "sum_list ((pair_sums ^^ k) ds) = sum_list ds"
  by (induction k) auto

lemma swar_popcount: "unat (swar16 (swar8 (swar4 (swar2 (swar1 x))))) = sum_list (bit_counts x)"
proof -
  let ?y = "swar16 (swar8 (swar4 (swar2 (swar1 x))))"
  have "take_bit 32 (unat ?y) = unat ?y"
    by (rule take_bit_nat_eq_self) (use unsigned_less [of ?y] in simp)
  then have "[unat ?y] = (pair_sums ^^ 5) (bit_counts x)"
    using swar16_fields [of x] by simp
  then have "sum_list [unat ?y] = sum_list (bit_counts x)"
    by (metis sum_list_pair_sums_power)
  then show ?thesis by simp
qed

lemma sum_list_of_bool: "sum_list (map of_bool bs) = count_list bs True"
  by (induction bs) auto

lemma count_list_map_Not: "count_list (map Not bs) b = count_list bs (\<not> b)"
  by (induction bs) auto

lemma word_bits_NOT: "word_bits (NOT x) = map Not (word_bits x)"
  by (rule nth_equalityI) (auto simp: bit_not_iff)

lemma word_bits_push_bit:
  "k \<le> 32 \<Longrightarrow> word_bits (push_bit k x) = replicate k False @ take (32 - k) (word_bits x)"
  by (rule nth_equalityI) (auto simp: bit_push_bit_iff nth_append)

lemma count_word_bits_flip:
  "count_list (take i (word_bits (if \<not> b then NOT x else x))) True = count_list (take i (word_bits x)) b"
  by (simp add: word_bits_NOT take_map count_list_map_Not)

lemma count_list_replicate: "count_list (replicate n x) y = (if x = y then n else 0)"
  by (induction n) auto

theorem BitVector_rank32_spec:
  assumes "1 \<le> i" and "i \<le> 32"
  shows "BitVector_rank32 x i b = rank_list (word_bits x) b i"
proof -
  let ?y = "if \<not> b then NOT x else x"
  have k: "nat ((32 - int i) mod 32) = 32 - i" using assms by (subst mod_pos_pos_trivial) auto
  have "BitVector_rank32 x i b = sum_list (bit_counts (push_bit (32 - i) ?y))"
    unfolding swar_popcount [symmetric] BitVector_rank32_def Let_def k
    by simp
  also have "\<dots> = count_list (take i (word_bits ?y)) True"
    using assms by (simp only: sum_list_of_bool word_bits_push_bit [OF diff_le_self])
      (simp add: count_list_replicate)
  also have "\<dots> = rank_list (word_bits x) b i" by (rule count_word_bits_flip)
  finally show ?thesis .
qed

lemma rank32_full: "BitVector_rank32 x 32 b = count_list (word_bits x) b"
  by (simp add: BitVector_rank32_spec)

subsection \<open>Selection inside a word\<close>

definition sel_inv :: "nat list \<Rightarrow> nat \<Rightarrow> nat \<Rightarrow> nat \<times> nat \<Rightarrow> bool" where
  "sel_inv ds t w = (\<lambda>(i, pos). 1 \<le> i \<and> i \<le> sum_list (take w (drop pos ds)) \<and>
      sum_list (take pos ds) + i = t \<and> w dvd pos \<and> pos + w \<le> length ds)"

lemma unat_field: "unat (drop_bit pos (x :: 32 word) AND mask w) = take_bit w (drop_bit pos (unat x))"
  by (metis unsigned_drop_bit_eq unsigned_and_eq unsigned_take_bit_eq take_bit_length_eq
      take_bit_eq_mask)

lemma select32_step_inv:
  assumes inv: "sel_inv ds t (2 * w) s" and w: "w = 2 ^ k" "0 < m" "length ds = w * m" "w * m = 32"
    and fields: "bit_fields w m (unat x) = (pair_sums ^^ k) ds" and mask: "mk = mask w"
  shows "sel_inv ds t w (select32_step x mk w s)"
proof (cases s)
  case (Pair i pos)
  from inv have d: "2 * w dvd pos" and len: "pos + 2 * w \<le> length ds"
    and i: "1 \<le> i" "i \<le> sum_list (take (2 * w) (drop pos ds))" "sum_list (take pos ds) + i = t"
    by (auto simp: sel_inv_def Pair)
  from d have d': "w dvd pos" by (rule dvd_mult_right)
  then obtain j where j: "pos = w * j" by blast
  have "0 < w" using w by simp
  then have "pos < 32" using len w(3,4) by linarith
  then have "w * j < w * m" using j w(4) by simp
  then have jm: "j < m" by simp
  have "pos mod 32 = pos" using \<open>pos < 32\<close> by simp
  then have "unat (drop_bit (pos mod 32) x AND mk) = bit_fields w m (unat x) ! j"
    using jm by (simp add: mask unat_field nth_bit_fields j)
  also have "\<dots> = (pair_sums ^^ k) ds ! j" by (simp only: fields)
  also have "\<dots> = sum_list (take w (drop pos ds))"
    unfolding w(1) j by (rule nth_pair_sums_power) (use len j w(1) in \<open>simp add: algebra_simps\<close>)
  finally have v: "unat (drop_bit (pos mod 32) x AND mk) = sum_list (take w (drop pos ds))" .
  have "sum_list (take (2 * w) (drop pos ds))
      = sum_list (take w (drop pos ds)) + sum_list (take w (drop (pos + w) ds))"
    by (simp add: mult_2 take_add add.commute)
  moreover have "sum_list (take (pos + w) ds) = sum_list (take pos ds) + sum_list (take w (drop pos ds))"
    by (simp add: take_add)
  ultimately show ?thesis using i d' len
    by (auto simp: Pair select32_step_def sel_inv_def v Let_def)
qed

lemma bit_counts_sum_take: "sum_list (take i (bit_counts x)) = rank_list (word_bits x) True i"
  by (simp add: take_map sum_list_of_bool)

lemma and_all_ones: "(z :: 32 word) AND 0xffffffff = z"
proof -
  have "(0xffffffff :: 32 word) = - 1" by simp
  then show ?thesis by (simp only: and.right_neutral)
qed

lemma select32_core:
  assumes "i < sum_list (bit_counts y)"
  defines "s5 \<equiv> select32_step (swar16 (swar8 (swar4 (swar2 (swar1 y))))) 0xffffffff 32 (i + 1, 0)"
  defines "s4 \<equiv> select32_step (swar8 (swar4 (swar2 (swar1 y)))) 0x0000ffff 16 s5"
  defines "s3 \<equiv> select32_step (swar4 (swar2 (swar1 y))) 0x000000ff 8 s4"
  defines "s2 \<equiv> select32_step (swar2 (swar1 y)) 0x0000000f 4 s3"
  defines "s1 \<equiv> select32_step (swar1 y) 0x00000003 2 s2"
  shows "sel_inv (bit_counts y) (i + 1) 1 (select32_step y 0x00000001 1 s1)"
proof -
  have "s5 = (i + 1, 0)"
    using assms(1) by (simp add: s5_def select32_step_def and_all_ones swar_popcount)
  then have 5: "sel_inv (bit_counts y) (i + 1) (2 * 16) s5"
    using assms(1) by (simp add: sel_inv_def)
  have 4: "sel_inv (bit_counts y) (i + 1) (2 * 8) s4"
    using select32_step_inv [OF 5, where k = 4 and m = 2 and x = "swar8 (swar4 (swar2 (swar1 y)))"]
    by (simp add: swar8_fields mask_eq_exp_minus_1 s4_def)
  have 3: "sel_inv (bit_counts y) (i + 1) (2 * 4) s3"
    using select32_step_inv [OF 4, where k = 3 and m = 4 and x = "swar4 (swar2 (swar1 y))"]
    by (simp add: swar4_fields mask_eq_exp_minus_1 s3_def)
  have 2: "sel_inv (bit_counts y) (i + 1) (2 * 2) s2"
    using select32_step_inv [OF 3, where k = 2 and m = 8 and x = "swar2 (swar1 y)"]
    by (simp add: swar2_fields mask_eq_exp_minus_1 s2_def)
  have 1: "sel_inv (bit_counts y) (i + 1) (2 * 1) s1"
    using select32_step_inv [OF 2, where k = 1 and m = 16 and x = "swar1 y"]
    by (simp add: swar1_fields mask_eq_exp_minus_1 s1_def)
  show ?thesis
    using select32_step_inv [OF 1, where k = 0 and m = 32 and x = y]
    by (simp add: bit_fields_1 mask_eq_exp_minus_1)
qed

theorem BitVector_select32_spec:
  assumes "i < count_list (word_bits x) b"
  shows "BitVector_select32 x i b < 32"
    and "bit x (BitVector_select32 x i b) = b"
    and "rank_list (word_bits x) b (BitVector_select32 x i b) = i"
proof -
  define y where "y = (if \<not> b then NOT x else x)"
  define p where "p = BitVector_select32 x i b"
  have flip: "rank_list (word_bits y) True k = rank_list (word_bits x) b k" for k
    unfolding y_def by (rule count_word_bits_flip)
  have "i < sum_list (bit_counts y)"
    using assms flip [of 32] by (simp add: sum_list_of_bool)
  from select32_core [OF this] have
    "\<exists>k. 1 \<le> k \<and> k \<le> sum_list (take 1 (drop p (bit_counts y))) \<and>
      sum_list (take p (bit_counts y)) + k = i + 1 \<and> p < 32"
    unfolding p_def BitVector_select32_def Let_def sel_inv_def y_def [symmetric] case_prod_beta
    by (intro exI) auto
  then obtain k where k: "1 \<le> k" "k \<le> sum_list (take 1 (drop p (bit_counts y)))"
      "sum_list (take p (bit_counts y)) + k = i + 1" and p: "p < 32"
    by blast
  have "sum_list (take 1 (drop p (bit_counts y))) = of_bool (bit y p)"
    using p by (simp add: take_Suc hd_drop_conv_nth)
  with k(1,2) have "1 \<le> k" "k \<le> of_bool (bit y p)" by simp_all
  then have y: "bit y p" and k1: "k = 1" by (cases "bit y p"; simp)+
  from y have "bit x p = b" using p by (auto simp: y_def bit_not_iff split: if_splits)
  moreover have "rank_list (word_bits x) b p = i"
    using k(3) k1 by (simp only: bit_counts_sum_take flip)
  ultimately show "BitVector_select32 x i b < 32" "bit x (BitVector_select32 x i b) = b"
    "rank_list (word_bits x) b (BitVector_select32 x i b) = i"
    using p by (simp_all add: p_def)
qed

subsection \<open>The bits a vector stores\<close>

definition all_bits :: "32 word list \<Rightarrow> bool list" where
  "all_bits v = concat (map word_bits v)"

definition bits_of :: "BitVector \<Rightarrow> bool list" where
  "bits_of bv = take (bv_size bv) (all_bits (bv_v bv))"

definition bv_inv :: "BitVector \<Rightarrow> bool" where
  "bv_inv bv \<longleftrightarrow> length (bv_v bv) = (bv_size bv + 31) div 32 \<and>
     True \<notin> set (drop (bv_size bv) (all_bits (bv_v bv)))"

definition built :: "BitVector \<Rightarrow> bool" where
  "built bv \<longleftrightarrow> bv_inv bv \<and>
     bv_r bv = map (\<lambda>k. rank_list (all_bits (bv_v bv)) True (256 * k))
       [0..<(length (bv_v bv) + 7) div 8] \<and>
     bv_size1 bv = count_list (all_bits (bv_v bv)) True"

lemma all_bits_simps [simp]:
  "all_bits [] = []"
  "all_bits (x # v) = word_bits x @ all_bits v"
  "all_bits (v @ v') = all_bits v @ all_bits v'"
  by (simp_all add: all_bits_def)

lemma length_all_bits [simp]: "length (all_bits v) = 32 * length v"
  by (induction v) auto

lemma nth_all_bits: "i < 32 * length v \<Longrightarrow> all_bits v ! i = bit (v ! (i div 32)) (i mod 32)"
proof (induction v arbitrary: i)
  case (Cons x v)
  show ?case
  proof (cases "i < 32")
    case False
    then have "(i - 32) div 32 = i div 32 - 1" "(i - 32) mod 32 = i mod 32" "0 < i div 32"
      by (simp_all add: le_mod_geq le_div_geq div_greater_zero_iff)
    with False Cons show ?thesis by (simp add: nth_append nth_Cons')
  qed (simp add: nth_append)
qed simp

lemma take_all_bits: "take (32 * q) (all_bits v) = all_bits (take q v)"
proof (induction q arbitrary: v)
  case (Suc q)
  then show ?case by (cases v) auto
qed simp

lemma all_bits_replicate_0: "all_bits (replicate n 0) = replicate (32 * n) False"
  by (rule nth_equalityI) (auto simp: nth_all_bits less_mult_imp_div_less mult.commute)

lemma bv_inv_size_le: "bv_inv bv \<Longrightarrow> bv_size bv \<le> 32 * length (bv_v bv)"
  by (auto simp: bv_inv_def)

lemma length_bits_of [simp]: "bv_inv bv \<Longrightarrow> length (bits_of bv) = bv_size bv"
  using bv_inv_size_le by (simp add: bits_of_def)

lemma all_bits_conv:
  assumes "bv_inv bv"
  shows "all_bits (bv_v bv) = bits_of bv @ replicate (32 * length (bv_v bv) - bv_size bv) False"
proof -
  let ?d = "drop (bv_size bv) (all_bits (bv_v bv))"
  have "\<forall>x\<in>set ?d. x = False" using assms by (auto simp: bv_inv_def)
  then have "?d = replicate (length ?d) False" by (metis replicate_length_same)
  then show ?thesis
    unfolding bits_of_def by (metis append_take_drop_id length_all_bits length_drop)
qed

lemma bits_of_new [simp]: "bits_of BitVector_new = []" "bv_inv BitVector_new"
  by (simp_all add: bits_of_def BitVector_new_def bv_inv_def)

subsection \<open>Writing and reading one bit\<close>

lemma bit_set_word:
  fixes w :: "32 word"
  assumes "r < 32" "k < 32"
  shows "bit (if f then w OR push_bit r 1 else w AND NOT (push_bit r 1)) k = (if k = r then f else bit w k)"
  using assms by (auto simp: bit_simps)

lemma all_bits_update:
  assumes "i < 32 * length v"
  shows "all_bits (v[i div 32 := (if f then v ! (i div 32) OR push_bit (i mod 32) 1
      else v ! (i div 32) AND NOT (push_bit (i mod 32) 1))]) = (all_bits v)[i := f]"
    (is "all_bits (v[_ := ?w]) = _")
proof (rule nth_equalityI)
  fix k assume "k < length (all_bits (v[i div 32 := ?w]))"
  then have k: "k < 32 * length v" by simp
  have q: "i div 32 < length v" "k div 32 < length v" using assms k by auto
  have eq: "k div 32 = i div 32 \<Longrightarrow> k mod 32 = i mod 32 \<Longrightarrow> k = i"
    by (metis div_mult_mod_eq)
  show "all_bits (v[i div 32 := ?w]) ! k = (all_bits v)[i := f] ! k"
  proof (cases "k div 32 = i div 32")
    case True
    then have "all_bits (v[i div 32 := ?w]) ! k = (if k mod 32 = i mod 32 then f else bit (v ! (i div 32)) (k mod 32))"
      using k q by (simp only: nth_all_bits length_list_update nth_list_update_eq bit_set_word
          mod_less_divisor zero_less_numeral)
    then show ?thesis using True k q assms eq by (auto simp: nth_all_bits nth_list_update)
  next
    case False
    then show ?thesis using k q assms by (auto simp: nth_all_bits nth_list_update)
  qed
qed simp

lemma js_quot_rem_int:
  "js_quot32 (int i) = int (i div 32)" "js_rem32 (int i) = int (i mod 32)"
  by (simp_all add: js_quot32_def js_rem32_def zdiv_int zmod_int)

lemma BitVector_set_v:
  assumes "bv_inv bv"
  shows "all_bits (bv_v (BitVector_set bv (int i) f)) =
    (all_bits (bv_v bv) @ replicate (32 * (i div 32 + 1 - length (bv_v bv))) False)[i := f]"
proof -
  let ?v = "bv_v bv @ replicate (i div 32 + 1 - length (bv_v bv)) 0"
  have q: "nat (int (i div 32) + 1) = i div 32 + 1" "nat (int (i mod 32) mod 32) = i mod 32"
    by (simp_all add: nat_add_distrib flip: zmod_int)
  have "bv_v (BitVector_set bv (int i) f) = ?v[i div 32 := (if f then ?v ! (i div 32) OR push_bit (i mod 32) 1
      else ?v ! (i div 32) AND NOT (push_bit (i mod 32) 1))]"
    unfolding BitVector_set_def Let_def js_quot_rem_int q by simp
  moreover have "i < 32 * length ?v" by simp
  ultimately show ?thesis by (simp only: all_bits_update) (simp add: all_bits_replicate_0)
qed

lemma BitVector_set_size: "bv_size (BitVector_set bv (int i) f) = max (bv_size bv) (i + 1)"
  by (auto simp: BitVector_set_def Let_def)

lemma BitVector_set_length:
  "length (bv_v (BitVector_set bv (int i) f)) = max (length (bv_v bv)) (i div 32 + 1)"
  by (auto simp: BitVector_set_def Let_def js_quot_rem_int nat_add_distrib)

theorem BitVector_set_spec:
  assumes "bv_inv bv"
  shows "bits_of (BitVector_set bv (int i) f) = (bits_of bv @ replicate (i + 1 - bv_size bv) False)[i := f]"
    and "bv_inv (BitVector_set bv (int i) f)"
proof -
  let ?bv = "BitVector_set bv (int i) f"
  let ?n = "max (bv_size bv) (i + 1)"
  define pad where "pad = 32 * max (length (bv_v bv)) (i div 32 + 1) - bv_size bv"
  have size: "bv_size bv \<le> 32 * length (bv_v bv)" by (rule bv_inv_size_le [OF assms])
  have "32 * length (bv_v bv) - bv_size bv + 32 * (i div 32 + 1 - length (bv_v bv)) = pad"
    using size by (auto simp: pad_def max_def)
  then have all: "all_bits (bv_v ?bv) = (bits_of bv @ replicate pad False)[i := f]"
    unfolding BitVector_set_v [OF assms] all_bits_conv [OF assms] append_assoc replicate_add [symmetric]
    by (simp only:)
  have i: "i + 1 \<le> 32 * (i div 32 + 1)" by simp
  have pad: "bv_size bv + pad = 32 * max (length (bv_v bv)) (i div 32 + 1)" using size by (auto simp: pad_def max_def)
  show "bits_of ?bv = (bits_of bv @ replicate (i + 1 - bv_size bv) False)[i := f]"
  proof -
    have "i + 1 \<le> bv_size bv + pad" using pad i by (simp add: max_def split: if_splits)
    then have "?n - bv_size bv = i + 1 - bv_size bv" "min (i + 1 - bv_size bv) pad = i + 1 - bv_size bv"
      by auto
    then show ?thesis
      using assms unfolding bits_of_def [of ?bv] BitVector_set_size all
      by (simp add: take_update_swap)
  qed
  have "True \<notin> set (drop ?n (all_bits (bv_v ?bv)))"
    using assms unfolding all by (simp add: drop_update_cancel set_replicate_conv_if)
  moreover have "length (bv_v ?bv) = (?n + 31) div 32"
  proof -
    have "mono (\<lambda>n::nat. (n + 31) div 32)" by (auto intro!: monoI div_le_mono)
    then have "(?n + 31) div 32 = max ((bv_size bv + 31) div 32) ((i + 1 + 31) div 32)"
      by (simp add: max_of_mono)
    then show ?thesis using assms by (simp add: BitVector_set_length bv_inv_def div_add_self1)
  qed
  ultimately show "bv_inv ?bv" by (simp add: bv_inv_def BitVector_set_size)
qed

lemma bits_of_nth: "bv_inv bv \<Longrightarrow> i < bv_size bv \<Longrightarrow> bits_of bv ! i = bit (bv_v bv ! (i div 32)) (i mod 32)"
  using bv_inv_size_le [of bv] by (simp add: bits_of_def nth_all_bits)

theorem BitVector_get_spec:
  assumes "bv_inv bv" and "i < bv_size bv"
  shows "BitVector_get bv i = Inr (bits_of bv ! i)"
proof -
  have "i div 32 < length (bv_v bv)" using bv_inv_size_le [OF assms(1)] assms(2) by simp
  then show ?thesis
    using assms by (simp add: BitVector_get_def bits_of_nth bit_iff_and_push_bit_not_eq_0)
qed

lemma BitVector_get_range: "bv_size bv \<le> i \<Longrightarrow> BitVector_get bv i = Inl (Throw ''BitVector.get() : range error'')"
  by (simp add: BitVector_get_def)

subsection \<open>Building the rank directory\<close>

abbreviation ones_upto :: "32 word list \<Rightarrow> nat \<Rightarrow> nat" where
  "ones_upto v k \<equiv> count_list (all_bits (take k v)) True"

lemma build_loop:
  assumes "i \<le> length v"
  shows "BitVector_build_loop (drop i v) i (map (\<lambda>k. ones_upto v (8 * k)) [0..<(i + 7) div 8]) (ones_upto v i)
    = (map (\<lambda>k. ones_upto v (8 * k)) [0..<(length v + 7) div 8], ones_upto v (length v))"
  using assms
proof (induction "length v - i" arbitrary: i)
  case 0
  then show ?case by simp
next
  case (Suc n)
  then have i: "i < length v" by simp
  have step: "ones_upto v (i + 1) = ones_upto v i + BitVector_rank32 (v ! i) 32 True"
    using i by (simp add: take_Suc_conv_app_nth rank32_full)
  have r: "(if i mod 8 = 0 then map (\<lambda>k. ones_upto v (8 * k)) [0..<(i + 7) div 8] @ [ones_upto v i]
      else map (\<lambda>k. ones_upto v (8 * k)) [0..<(i + 7) div 8])
      = map (\<lambda>k. ones_upto v (8 * k)) [0..<(i + 1 + 7) div 8]"
  proof (cases "i mod 8 = 0")
    case True
    then obtain k where "i = 8 * k" by auto
    then show ?thesis by simp
  next
    case False
    obtain q r where i: "i = 8 * q + r" "r < 8"
      by (metis mod_less_divisor mult_div_mod_eq zero_less_numeral)
    with False have "0 < r" by (cases r) auto
    with i have "(i + 7) div 8 = Suc q" by (intro div_nat_eqI) auto
    moreover from i \<open>0 < r\<close> have "(i + 1 + 7) div 8 = Suc q" by (intro div_nat_eqI) auto
    ultimately have "(i + 1 + 7) div 8 = (i + 7) div 8" by simp
    with False show ?thesis by simp
  qed
  have "drop i v = v ! i # drop (i + 1) v" using i by (simp add: Cons_nth_drop_Suc)
  then show ?case using Suc.hyps(1) [of "i + 1"] Suc.hyps(2) i r step by simp
qed

theorem BitVector_build_spec:
  assumes "bv_inv bv" and "bv_r bv = []"
  shows "built (BitVector_build bv)" and "bits_of (BitVector_build bv) = bits_of bv"
proof -
  let ?v = "bv_v bv"
  have l: "BitVector_build_loop ?v 0 [] 0
      = (map (\<lambda>k. ones_upto ?v (8 * k)) [0..<(length ?v + 7) div 8], ones_upto ?v (length ?v))"
    using build_loop [of 0 ?v] by simp
  have "ones_upto ?v (8 * k) = rank_list (all_bits ?v) True (256 * k)" for k
    using take_all_bits [of "8 * k" ?v] by simp
  with l assms show "built (BitVector_build bv)"
    by (simp add: built_def BitVector_build_def bv_inv_def)
  show "bits_of (BitVector_build bv) = bits_of bv"
    by (simp add: BitVector_build_def bits_of_def case_prod_beta)
qed

subsection \<open>Rank\<close>

lemma rank_all_bits_block:
  "j < length v \<Longrightarrow> r \<le> 32 \<Longrightarrow>
    rank_list (all_bits v) b (32 * j + r) = rank_list (all_bits v) b (32 * j) + rank_list (word_bits (v ! j)) b r"
proof -
  assume "j < length v" "r \<le> 32"
  then have "all_bits v = all_bits (take j v) @ word_bits (v ! j) @ all_bits (drop (Suc j) v)"
    by (metis all_bits_simps(2,3) id_take_nth_drop)
  then have "take r (drop (32 * j) (all_bits v)) = take r (word_bits (v ! j))"
    using \<open>j < length v\<close> \<open>r \<le> 32\<close> by simp
  then show ?thesis by (simp add: take_add)
qed

lemma rank_blocks_spec:
  "j + k \<le> length v \<Longrightarrow>
    rank_list (all_bits v) b (32 * j) + rank_blocks v j k b = rank_list (all_bits v) b (32 * (j + k))"
proof (induction k arbitrary: j)
  case (Suc k)
  have "rank_list (all_bits v) b (32 * j) + rank_blocks v j (Suc k) b
      = rank_list (all_bits v) b (32 * Suc j) + rank_blocks v (Suc j) k b"
    using Suc.prems rank_all_bits_block [of j v 32 b] by (simp add: rank32_full add.commute)
  also have "\<dots> = rank_list (all_bits v) b (32 * (Suc j + k))"
    using Suc.prems by (intro Suc.IH) simp
  finally show ?case by simp
qed simp

lemma rank_complement: "i \<le> length bs \<Longrightarrow> rank_list bs False i = i - rank_list bs True i"
  using count_list_True_False [of "take i bs"] by simp

lemma built_directory:
  assumes "built bv" and "256 * k \<le> 32 * length (bv_v bv)" and "k < length (bv_r bv)"
  shows "select_rank (bv_r bv) k b = rank_list (all_bits (bv_v bv)) b (256 * k)"
  using assms by (auto simp: select_rank_def built_def rank_complement mult.commute)

lemma rank_bits_of: "i \<le> bv_size bv \<Longrightarrow> rank_list (bits_of bv) b i = rank_list (all_bits (bv_v bv)) b i"
  by (simp add: bits_of_def min_def)

theorem BitVector_rank_spec:
  assumes "built bv" and "i \<le> bv_size bv"
  shows "BitVector_rank bv i b = Inr (rank_list (bits_of bv) b i)"
proof (cases "i = 0")
  case False
  let ?v = "bv_v bv" and ?A = "all_bits (bv_v bv)"
  define m where "m = i - 1"
  have size: "bv_size bv \<le> 32 * length ?v" using assms(1) by (auto simp: built_def bv_inv_size_le)
  have m: "m < 32 * length ?v" "i = m + 1" using assms(2) False size by (auto simp: m_def)
  have ql: "m div 256 = m div 32 div 8" by (simp add: div_mult2_eq [symmetric])
  have qs: "m div 32 < length ?v" using m by auto
  then have le: "m div 256 * 8 \<le> m div 32" by (simp add: ql)
  have "m div 256 < (length ?v + 7) div 8"
    using qs by (simp add: ql less_mult_imp_div_less Suc_le_eq [symmetric] less_eq_div_iff_mult_less_eq)
  then have in_r: "m div 256 < length (bv_r bv)" using assms(1) by (simp add: built_def)
  have "256 * (m div 256) \<le> 32 * length ?v" using m(1) by (metis div_times_less_eq_dividend le_trans less_imp_le mult.commute)
  from built_directory [OF assms(1) this in_r, of b]
  have dir: "(if \<not> b then m div 256 * 256 - js_at0 (bv_r bv) (m div 256) else js_at0 (bv_r bv) (m div 256))
      = rank_list ?A b (32 * (m div 256 * 8))"
    by (simp add: select_rank_def mult.commute)
  have blocks: "rank_list ?A b (32 * (m div 256 * 8)) + rank_blocks ?v (m div 256 * 8) (m div 32 - m div 256 * 8) b
      = rank_list ?A b (32 * (m div 32))"
    using rank_blocks_spec [of "m div 256 * 8" "m div 32 - m div 256 * 8" ?v b] le qs by simp
  have "rank_list ?A b (32 * (m div 32)) + BitVector_rank32 (?v ! (m div 32)) (m mod 32 + 1) b
      = rank_list ?A b (32 * (m div 32) + (m mod 32 + 1))"
    using qs by (subst rank_all_bits_block) (simp_all add: BitVector_rank32_spec Suc_le_eq)
  also have "32 * (m div 32) + (m mod 32 + 1) = i" using m(2) by simp
  finally have last: "rank_list ?A b (32 * (m div 32)) + BitVector_rank32 (?v ! (m div 32)) (m mod 32 + 1) b
      = rank_list ?A b i" .
  have "BitVector_rank bv i b = Inr (rank_list ?A b i)"
    unfolding BitVector_rank_def Let_def m_def [symmetric] dir blocks js_at0_in [OF qs] last
    using False assms(2) by simp
  then show ?thesis using assms(2) by (simp only: rank_bits_of)
qed (simp add: BitVector_rank_def)

subsection \<open>Select\<close>

lemma select_search_bounds:
  assumes "left \<le> right"
    and "\<And>k. k < left \<Longrightarrow> select_rank r k b \<le> i"
    and "\<And>k. right \<le> k \<Longrightarrow> k < n \<Longrightarrow> i < select_rank r k b"
    and "right \<le> n"
    and mono: "\<And>k l. k \<le> l \<Longrightarrow> l < n \<Longrightarrow> select_rank r k b \<le> select_rank r l b"
  shows "select_search r i b left right \<le> n
    \<and> (\<forall>k < select_search r i b left right. select_rank r k b \<le> i)
    \<and> (\<forall>k. select_search r i b left right \<le> k \<longrightarrow> k < n \<longrightarrow> i < select_rank r k b)"
  using assms
proof (induction r i b left right rule: select_search.induct)
  case (1 r i b left right)
  show ?case
  proof (cases "left < right")
    case True
    define p where "p = (left + right) div 2"
    have p: "left \<le> p" "p < right" using True by (auto simp: p_def)
    show ?thesis
    proof (cases "i < select_rank r p b")
      case lt: True
      have above: "i < select_rank r k b" if "p \<le> k" "k < n" for k
        using lt "1.prems"(5) [OF that] by linarith
      have eq: "select_search r i b left right = select_search r i b left p"
        using lt True by (simp add: select_search.simps [of r i b left right] Let_def p_def [symmetric])
      have "p \<le> n" using p "1.prems"(4) by simp
      from "1.IH"(1) [OF True p_def lt p(1) "1.prems"(2) above this "1.prems"(5)]
      show ?thesis unfolding eq .
    next
      case ge: False
      have below: "select_rank r k b \<le> i" if "k < p + 1" for k
        using ge "1.prems"(5) [of k p] that p "1.prems"(4) by linarith
      have eq: "select_search r i b left right = select_search r i b (p + 1) right"
        using ge True by (simp add: select_search.simps [of r i b left right] Let_def p_def [symmetric])
      have "p + 1 \<le> right" using p by simp
      from "1.IH"(2) [OF True p_def ge this below "1.prems"(3,4,5)]
      show ?thesis unfolding eq .
    qed
  next
    case False
    then have eq: "select_search r i b left right = right" by (simp add: select_search.simps)
    from False "1.prems"(1) have "left = right" by simp
    then show ?thesis unfolding eq using "1.prems"(2,3,4) by blast
  qed
qed

lemma select_scan_spec:
  assumes "rank_list (all_bits v) b (32 * j) \<le> t" and "t < count_list (all_bits v) b" and "j \<le> length v"
  shows "\<exists>j' < length v. rank_list (all_bits v) b (32 * j') \<le> t \<and>
      t - rank_list (all_bits v) b (32 * j') < count_list (word_bits (v ! j')) b \<and>
      select_scan v j (t - rank_list (all_bits v) b (32 * j)) b
        = Inr (j', t - rank_list (all_bits v) b (32 * j'))"
  using assms
proof (induction "length v - j" arbitrary: j)
  case 0
  then show ?case by simp
next
  case (Suc n)
  let ?R = "\<lambda>j. rank_list (all_bits v) b (32 * j)"
  have j: "j < length v" using Suc by simp
  have step: "?R (j + 1) = ?R j + count_list (word_bits (v ! j)) b"
    using rank_all_bits_block [OF j, of 32 b] by (simp add: add.commute)
  note unfold = select_scan.simps [of v j]
  show ?case
  proof (cases "t - ?R j < count_list (word_bits (v ! j)) b")
    case True
    with j Suc.prems show ?thesis by (intro exI [of _ j]) (simp add: unfold rank32_full)
  next
    case False
    then have le: "?R (j + 1) \<le> t" using step Suc.prems(1) by linarith
    have "t - ?R j - count_list (word_bits (v ! j)) b = t - ?R (j + 1)" using step by simp
    then have "select_scan v j (t - ?R j) b = select_scan v (j + 1) (t - ?R (j + 1)) b"
      using False j by (simp add: unfold rank32_full)
    then show ?thesis using Suc.hyps(1) [OF _ le Suc.prems(2)] Suc.hyps(2) j by simp
  qed
qed

lemma select_directory:
  assumes "built bv" and "i < count_list (bits_of bv) b"
  defines "right \<equiv> select_search (bv_r bv) i b 0 (length (bv_r bv))"
  shows "0 < right" and "8 * (right - 1) \<le> length (bv_v bv)"
    and "select_rank (bv_r bv) (right - 1) b = rank_list (all_bits (bv_v bv)) b (256 * (right - 1))"
    and "rank_list (all_bits (bv_v bv)) b (256 * (right - 1)) \<le> i"
proof -
  let ?v = "bv_v bv" and ?r = "bv_r bv"
  have len: "length ?r = (length ?v + 7) div 8" using assms(1) by (simp add: built_def)
  have in_v: "8 * k \<le> length ?v" if "k < length ?r" for k
    using that by (simp add: len less_eq_div_iff_mult_less_eq Suc_le_eq [symmetric])
  have dir: "select_rank ?r k b = rank_list (all_bits ?v) b (256 * k)" if "k < length ?r" for k
    using built_directory [OF assms(1) _ that] in_v [OF that] by simp
  have mono: "select_rank ?r k b \<le> select_rank ?r l b" if "k \<le> l" "l < length ?r" for k l
    using that by (simp add: dir rank_list_mono)
  have search: "right \<le> length ?r" "\<forall>k < right. select_rank ?r k b \<le> i"
    "\<forall>k. right \<le> k \<longrightarrow> k < length ?r \<longrightarrow> i < select_rank ?r k b"
    using select_search_bounds [of 0 "length ?r" ?r b i "length ?r"] mono
    by (simp_all add: right_def)
  have "bv_size bv \<noteq> 0" using assms(2) by (cases "bv_size bv") (auto simp: bits_of_def)
  then have "0 < length ?r" using assms(1) bv_inv_size_le [of bv] by (auto simp: built_def)
  show pos: "0 < right"
  proof (rule ccontr)
    assume "\<not> 0 < right"
    then have "i < select_rank ?r 0 b" using search(3) \<open>0 < length ?r\<close> by simp
    then show False using dir [OF \<open>0 < length ?r\<close>] by simp
  qed
  then have k: "right - 1 < length ?r" using search(1) by simp
  show "8 * (right - 1) \<le> length ?v" by (rule in_v [OF k])
  show eq: "select_rank ?r (right - 1) b = rank_list (all_bits ?v) b (256 * (right - 1))" by (rule dir [OF k])
  show "rank_list (all_bits ?v) b (256 * (right - 1)) \<le> i" using search(2) pos eq by (metis diff_less zero_less_one)
qed

theorem BitVector_select_spec:
  assumes "built bv" and "i < count_list (bits_of bv) b"
  shows "\<exists>p. BitVector_select bv i b = Inr p \<and> p < bv_size bv \<and> bits_of bv ! p = b
    \<and> rank_list (bits_of bv) b p = i"
proof -
  let ?v = "bv_v bv" and ?A = "all_bits (bv_v bv)"
  define k where "k = select_search (bv_r bv) i b 0 (length (bv_r bv)) - 1"
  note dir = select_directory [OF assms, folded k_def]
  have size: "bv_size bv \<le> 32 * length ?v" using assms(1) by (auto simp: built_def bv_inv_size_le)
  have inv: "bv_inv bv" using assms(1) by (simp add: built_def)
  have tot: "count_list (bits_of bv) b = rank_list ?A b (bv_size bv)" by (simp add: bits_of_def)
  then have "i < count_list ?A b" using assms(2) rank_list_le_count [of "bv_size bv" ?A b] by simp
  then obtain j where j: "j < length ?v" "rank_list ?A b (32 * j) \<le> i"
      "i - rank_list ?A b (32 * j) < count_list (word_bits (?v ! j)) b"
      "select_scan ?v (8 * k) (i - rank_list ?A b (256 * k)) b = Inr (j, i - rank_list ?A b (32 * j))"
    using select_scan_spec [where v = ?v and j = "8 * k" and t = i and b = b] dir by auto
  define s where "s = BitVector_select32 (?v ! j) (i - rank_list ?A b (32 * j)) b"
  note s = BitVector_select32_spec [OF j(3), folded s_def]
  define p where "p = j * 32 + s"
  have p: "rank_list ?A b p = i"
    using rank_all_bits_block [OF j(1), of s b] s j(2) by (simp add: p_def mult.commute)
  have lt: "p < bv_size bv"
  proof (rule ccontr)
    assume "\<not> p < bv_size bv"
    then have "rank_list ?A b (bv_size bv) \<le> rank_list ?A b p" by (intro rank_list_mono) simp
    then show False using p tot assms(2) by simp
  qed
  have "p div 32 = j" "p mod 32 = s" using s(1) by (simp_all add: p_def)
  then have bit: "bits_of bv ! p = b" using bits_of_nth [OF inv lt] s(2) by simp
  have "\<not> BitVector_sizeB bv b \<le> i"
    using assms inv all_bits_conv [OF inv] rank_complement [of "bv_size bv" "bits_of bv"]
    by (cases b) (auto simp: BitVector_sizeB_def built_def count_list_replicate)
  then have "BitVector_select bv i b = Inr p"
    using dir j s_def unfolding BitVector_select_def Let_def k_def [symmetric]
    by (simp add: p_def mult.commute)
  then show ?thesis using lt bit p by (simp add: rank_bits_of)
qed

subsection \<open>Out-of-range queries\<close>

lemma BitVector_rank_range:
  "bv_size bv < i \<Longrightarrow> BitVector_rank bv i b = Inl (Throw ''BitVector.rank() : range error'')"
  by (simp add: BitVector_rank_def)

lemma BitVector_select_range:
  "BitVector_sizeB bv b \<le> i \<Longrightarrow> BitVector_select bv i b = Inl (Throw ''BitVector.select() : range error'')"
  by (simp add: BitVector_select_def)

lemma built_sizeB: "built bv \<Longrightarrow> BitVector_sizeB bv b = count_list (bits_of bv) b"
proof -
  assume built: "built bv"
  then have inv: "bv_inv bv" by (simp add: built_def)
  show ?thesis
    using built all_bits_conv [OF inv] rank_complement [of "bv_size bv" "bits_of bv"] inv
    by (cases b) (auto simp: BitVector_sizeB_def built_def count_list_replicate)
qed

subsection \<open>The contract of a rank dictionary\<close>

text \<open>
  What the clients of the bit vector rely on: a sequence of bits that answers access, rank and
  select.  The laws give each other's inverse: select is the position of the \<^emph>\<open>i\<close>-th bit, rank
  recovers \<^emph>\<open>i\<close> from it.
\<close>

fun select_list :: "'a list \<Rightarrow> 'a \<Rightarrow> nat \<Rightarrow> nat" where
  "select_list [] b i = 0"
| "select_list (x # xs) b i =
    (if x = b then (if i = 0 then 0 else Suc (select_list xs b (i - 1))) else Suc (select_list xs b i))"

lemma select_list_spec:
  "i < count_list xs b \<Longrightarrow> select_list xs b i < length xs \<and> xs ! select_list xs b i = b
    \<and> rank_list xs b (select_list xs b i) = i"
  by (induction xs b i rule: select_list.induct) (auto split: if_splits)

lemma select_list_rank: "p < length xs \<Longrightarrow> xs ! p = b \<Longrightarrow> select_list xs b (rank_list xs b p) = p"
proof (induction xs arbitrary: p)
  case (Cons x xs)
  show ?case
  proof (cases p)
    case (Suc q)
    then show ?thesis using Cons.IH [of q] Cons.prems by simp
  qed (use Cons.prems in simp)
qed simp

locale rank_dictionary =
  fixes ok :: "'s \<Rightarrow> bool" and bits :: "'s \<Rightarrow> bool list"
    and get_op :: "'s \<Rightarrow> nat \<Rightarrow> bool js"
    and rank_op :: "'s \<Rightarrow> nat \<Rightarrow> bool \<Rightarrow> nat js"
    and select_op :: "'s \<Rightarrow> nat \<Rightarrow> bool \<Rightarrow> nat js"
  assumes get_law: "ok s \<Longrightarrow> i < length (bits s) \<Longrightarrow> get_op s i = Inr (bits s ! i)"
    and rank_law: "ok s \<Longrightarrow> i \<le> length (bits s) \<Longrightarrow> rank_op s i b = Inr (rank_list (bits s) b i)"
    and select_law: "ok s \<Longrightarrow> i < count_list (bits s) b \<Longrightarrow>
      \<exists>p. select_op s i b = Inr p \<and> p < length (bits s) \<and> bits s ! p = b \<and> rank_list (bits s) b p = i"
begin

lemma select_op_eq: "ok s \<Longrightarrow> i < count_list (bits s) b \<Longrightarrow> select_op s i b = Inr (select_list (bits s) b i)"
  using select_law [of s i b] select_list_rank [of _ "bits s" b] by auto

lemma select_of_rank:
  assumes "ok s" and "p < length (bits s)"
  shows "js_bind (get_op s p) (\<lambda>b. js_bind (rank_op s p b) (\<lambda>i. select_op s i b)) = Inr p"
proof -
  have "rank_list (bits s) (bits s ! p) p < count_list (bits s) (bits s ! p)"
    using rank_list_Suc [OF assms(2), of "bits s ! p"] rank_list_le_count [of "Suc p" "bits s" "bits s ! p"]
    by simp
  then show ?thesis
    using assms select_op_eq get_law rank_law by (simp add: select_list_rank)
qed

lemma rank_of_select:
  assumes "ok s" and "i < count_list (bits s) b"
  shows "js_bind (select_op s i b) (\<lambda>p. rank_op s p b) = Inr i"
  using select_law [OF assms] rank_law [OF assms(1)] by auto

lemma rank_both:
  assumes "ok s" and "i \<le> length (bits s)"
  shows "\<exists>r1 r0. rank_op s i True = Inr r1 \<and> rank_op s i False = Inr r0 \<and> r1 + r0 = i"
  using assms rank_law count_list_True_False [of "take i (bits s)"] by auto

end

interpretation bv: rank_dictionary built bits_of BitVector_get BitVector_rank BitVector_select
proof unfold_locales
  fix s i b
  assume s: "built s"
  then have inv: "bv_inv s" by (simp add: built_def)
  show "i < length (bits_of s) \<Longrightarrow> BitVector_get s i = Inr (bits_of s ! i)"
    using inv by (simp add: BitVector_get_spec)
  show "i \<le> length (bits_of s) \<Longrightarrow> BitVector_rank s i b = Inr (rank_list (bits_of s) b i)"
    using s inv by (simp add: BitVector_rank_spec)
  show "i < count_list (bits_of s) b \<Longrightarrow> \<exists>p. BitVector_select s i b = Inr p \<and> p < length (bits_of s)
      \<and> bits_of s ! p = b \<and> rank_list (bits_of s) b p = i"
    using BitVector_select_spec [OF s] inv by simp
qed

subsection \<open>Vectors made by the public operations\<close>

text \<open>
  The reference model of a sequence of writes: a list that grows with \<^const>\<open>False\<close> when a write
  lies past its end.
\<close>

definition write_bit :: "bool list \<Rightarrow> nat \<times> bool \<Rightarrow> bool list" where
  "write_bit bs w = (bs @ replicate (fst w + 1 - length bs) False)[fst w := snd w]"

abbreviation set_all :: "(nat \<times> bool) list \<Rightarrow> BitVector \<Rightarrow> BitVector" where
  "set_all ws bv \<equiv> foldl (\<lambda>bv w. BitVector_set bv (int (fst w)) (snd w)) bv ws"

lemma set_all_spec:
  "bv_inv bv \<Longrightarrow> bits_of (set_all ws bv) = foldl write_bit (bits_of bv) ws \<and> bv_inv (set_all ws bv)
     \<and> bv_r (set_all ws bv) = bv_r bv"
proof (induction ws arbitrary: bv)
  case (Cons w ws)
  have "bv_r (BitVector_set bv (int (fst w)) (snd w)) = bv_r bv"
    by (simp add: BitVector_set_def Let_def)
  then show ?case
    using Cons.IH [of "BitVector_set bv (int (fst w)) (snd w)"] Cons.prems BitVector_set_spec [of bv]
    by (simp add: write_bit_def)
qed simp

lemma built_set_all:
  "built (BitVector_build (set_all ws BitVector_new))"
  "bits_of (BitVector_build (set_all ws BitVector_new)) = foldl write_bit [] ws"
proof -
  let ?bv = "set_all ws BitVector_new"
  have "bv_r BitVector_new = []" by (simp add: BitVector_new_def)
  then have "bits_of ?bv = foldl write_bit [] ws" "bv_inv ?bv" "bv_r ?bv = []"
    using set_all_spec [of BitVector_new ws] by simp_all
  then show "built (BitVector_build ?bv)" "bits_of (BitVector_build ?bv) = foldl write_bit [] ws"
    by (simp_all add: BitVector_build_spec)
qed

text \<open>
  C21.  A vector written bit by bit with \<^verbatim>\<open>set\<close>, in any order and with any gaps, at positions below
  \<^verbatim>\<open>2 ^ 31 - 1\<close>, the largest that the source can count, and then built answers \<^verbatim>\<open>rank(i, b)\<close> with the number of bits equal to \<^verbatim>\<open>b\<close> among the first \<^verbatim>\<open>i\<close>, and throws
  exactly when \<^verbatim>\<open>i\<close> exceeds its size.
\<close>

theorem BitVector_rank_correct:
  assumes "\<forall>w \<in> set ws. fst w < 2 ^ 31 - 1"
  shows "BitVector_rank (BitVector_build (foldl (\<lambda>bv w. BitVector_set bv (int (fst w)) (snd w)) BitVector_new ws)) i b
    = (if i \<le> length (foldl write_bit [] ws) then Inr (rank_list (foldl write_bit [] ws) b i)
       else Inl (Throw ''BitVector.rank() : range error''))"
proof -
  let ?bv = "BitVector_build (set_all ws BitVector_new)"
  have "bv_size ?bv = length (foldl write_bit [] ws)"
    using built_set_all [of ws] length_bits_of [of ?bv] by (simp only: built_def)
  then show ?thesis
    using bv.rank_law [OF built_set_all(1), of i ws b] BitVector_rank_range [of ?bv i b]
    unfolding built_set_all(2) by (cases "i \<le> length (foldl write_bit [] ws)") simp_all
qed

text \<open>
  \<^verbatim>\<open>select(i, b)\<close> on such a vector is the position of the \<^verbatim>\<open>i\<close>-th bit equal to \<^verbatim>\<open>b\<close>: the
  binary search over the block directory, the word scan and the in-word selection always end
  and agree with a left-to-right scan; it throws exactly when there are at most \<^verbatim>\<open>i\<close> such bits.
\<close>

theorem BitVector_select_correct:
  "BitVector_select (BitVector_build (foldl (\<lambda>bv w. BitVector_set bv (int (fst w)) (snd w)) BitVector_new ws)) i b
    = (if i < count_list (foldl write_bit [] ws) b then Inr (select_list (foldl write_bit [] ws) b i)
       else Inl (Throw ''BitVector.select() : range error''))"
  using bv.select_op_eq [OF built_set_all(1), of i ws b] built_sizeB [OF built_set_all(1), of ws b]
  by (simp add: built_set_all(2) BitVector_select_range)

text \<open>
  Reading position \<^verbatim>\<open>p\<close> of such a vector, ranking that bit up to \<^verbatim>\<open>p\<close> and selecting the
  result returns \<^verbatim>\<open>p\<close>: access, rank and select are mutually inverse on every position.
\<close>

theorem BitVector_select_rank_roundtrip:
  assumes "p < length (foldl write_bit [] ws)"
  defines "bv \<equiv> BitVector_build (foldl (\<lambda>bv w. BitVector_set bv (int (fst w)) (snd w)) BitVector_new ws)"
  shows "BitVector_get bv p = Inr (foldl write_bit [] ws ! p) \<and>
    js_bind (BitVector_get bv p) (\<lambda>b. js_bind (BitVector_rank bv p b) (\<lambda>i. BitVector_select bv i b)) = Inr p"
  using bv.select_of_rank [OF built_set_all(1), of p ws] bv.get_law [OF built_set_all(1), of p ws] assms(1)
  by (simp add: built_set_all(2) bv_def)

lemma write_bit_example: "foldl write_bit [] [(3, True), (1, True)] = [False, True, False, True]"
  by code_simp

theorem BitVector_rank_correct_witness:
  "BitVector_rank (BitVector_build (foldl (\<lambda>bv w. BitVector_set bv (int (fst w)) (snd w)) BitVector_new [(3, True), (1, True)])) 3 True = Inr 1"
  using BitVector_rank_correct [of "[(3, True), (1, True)]" 3 True] unfolding write_bit_example by simp

theorem BitVector_select_rank_roundtrip_witness:
  "2 < length (foldl write_bit [] [(3, True), (1, True)]) \<and>
    (let bv = BitVector_build (foldl (\<lambda>bv w. BitVector_set bv (int (fst w)) (snd w)) BitVector_new
                [(3, True), (1, True)])
     in BitVector_get bv 2 = Inr False \<and>
        js_bind (BitVector_get bv 2) (\<lambda>b. js_bind (BitVector_rank bv 2 b) (\<lambda>i. BitVector_select bv i b)) = Inr 2)"
  using BitVector_select_rank_roundtrip [of 2 "[(3, True), (1, True)]"]
  unfolding write_bit_example Let_def by auto

end
