(* ===== verification/Wavelet_Matrix.thy ===== *)
theory Wavelet_Matrix
  imports Bit_Vector
begin

text \<open>
  The class \<^verbatim>\<open>WaveletMatrix\<close>: a sequence of codes of \<^verbatim>\<open>bitsize\<close> bits as one bit vector per bit,
  most significant first, each level being the previous one partitioned stably by its bit.  The
  object \<^verbatim>\<open>_range\<close> maps a code to the place where its block starts in the last level; while the
  matrix is built it maps the code prefixes of the current level.  The number of bits is at most 32
  (16 for character codes), so shift counts stay below 32.

  The lemmas describe the levels abstractly (\<^verbatim>\<open>level\<close>, the blocks \<^verbatim>\<open>grp\<close> of a prefix and their
  starts \<^verbatim>\<open>bstart\<close>), show that \<^verbatim>\<open>build\<close> fills the vectors, separators and ranges with them, and
  follow one code down the levels (\<^verbatim>\<open>spos\<close>) for the three queries; the contract
  \<^verbatim>\<open>symbol_sequence\<close> is what the FM-index uses.
\<close>

section \<open>Wavelet matrices\<close>

record WaveletMatrix =
  wm_range :: "nat jsobj"
  wm_bv :: "BitVector list"
  wm_seps :: "nat list"
  wm_bitsize :: nat
  wm_size :: nat

definition WaveletMatrix_new :: WaveletMatrix where
  "WaveletMatrix_new = \<lparr>wm_range = [], wm_bv = [], wm_seps = [], wm_bitsize = 16, wm_size = 0\<rparr>"

definition WaveletMatrix_bitsize :: "WaveletMatrix \<Rightarrow> nat" where
  "WaveletMatrix_bitsize wm = wm_bitsize wm"

fun ceil_log2 :: "nat \<Rightarrow> nat" where
  "ceil_log2 n = (if n \<le> 1 then 0 else 1 + ceil_log2 ((n + 1) div 2))"

declare ceil_log2.simps [simp del]

definition WaveletMatrix_setMaxCharCode :: "WaveletMatrix \<Rightarrow> nat \<Rightarrow> WaveletMatrix" where
  "WaveletMatrix_setMaxCharCode wm charCode = wm\<lparr>wm_bitsize := ceil_log2 charCode\<rparr>"

definition WaveletMatrix_clear :: "WaveletMatrix \<Rightarrow> WaveletMatrix" where
  "WaveletMatrix_clear wm = wm\<lparr>wm_bv := [], wm_seps := [], wm_size := 0\<rparr>"

definition uint2bit :: "nat \<Rightarrow> nat \<Rightarrow> nat \<Rightarrow> bool" where
  "uint2bit bitsize c i = (drop_bit (bitsize - 1 - i) c AND 1 = 1)"

text \<open>The scan that fills the vector of one level.\<close>

fun fill_level :: "nat \<Rightarrow> nat \<Rightarrow> jsstring \<Rightarrow> nat jsobj \<Rightarrow> BitVector \<Rightarrow> (nat jsobj \<times> BitVector) js" where
  "fill_level bitsize depth [] range_tmp bv = Inr (range_tmp, bv)"
| "fill_level bitsize depth (code # v) range_tmp bv =
    (let bit = uint2bit bitsize code depth;
         key = drop_bit (bitsize - depth) code
     in case obj_get range_tmp key of
          None \<Rightarrow> Inl Undef
        | Some pos \<Rightarrow>
            fill_level bitsize depth v (obj_set key (pos + 1) range_tmp)
              (BitVector_set bv (int pos) bit))"

fun reverse_range :: "nat jsobj \<Rightarrow> nat jsobj \<Rightarrow> nat jsobj \<Rightarrow> nat jsobj" where
  "reverse_range [] range_tmp range_rev = range_rev"
| "reverse_range ((range_key, value) # rs) range_tmp range_rev =
    reverse_range rs range_tmp
      (if Some value \<noteq> obj_get range_tmp range_key then obj_set value range_key range_rev else range_rev)"

fun split_ranges :: "BitVector \<Rightarrow> nat jsobj \<Rightarrow> nat jsobj \<Rightarrow> nat jsobj \<Rightarrow> nat \<Rightarrow> nat \<Rightarrow> nat jsobj js" where
  "split_ranges bv [] range_tmp rng pos0 pos1 = Inr rng"
| "split_ranges bv ((begin, value) # rs) range_tmp rng pos0 pos1 =
    (case obj_get range_tmp value of
       None \<Rightarrow> Inl Undef
     | Some end \<Rightarrow>
         js_bind (BitVector_rank bv end False) (\<lambda>r_end.
         js_bind (BitVector_rank bv begin False) (\<lambda>r_begin.
           let num0 = r_end - r_begin;
               num1 = end - begin - num0;
               (rng, pos0) = (if num0 > 0 then (obj_set (2 * value) pos0 rng, pos0 + num0)
                                else (rng, pos0));
               (rng, pos1) = (if num1 > 0 then (obj_set (2 * value + 1) pos1 rng, pos1 + num1)
                                else (rng, pos1))
           in split_ranges bv rs range_tmp rng pos0 pos1)))"

definition build_level :: "jsstring \<Rightarrow> nat \<Rightarrow> WaveletMatrix \<Rightarrow> WaveletMatrix js" where
  "build_level v depth wm =
    js_bind (fill_level (wm_bitsize wm) depth v (wm_range wm) (wm_bv wm ! depth)) (\<lambda>(range_tmp, bv).
      let bv = BitVector_build bv;
          sep = BitVector_sizeB bv False;
          range_rev = reverse_range (wm_range wm) range_tmp []
      in js_bind (split_ranges bv range_rev range_tmp [] 0 sep) (\<lambda>rng.
           Inr (wm\<lparr>wm_bv := (wm_bv wm)[depth := bv], wm_seps := (wm_seps wm)[depth := sep],
                    wm_range := rng\<rparr>)))"

fun build_levels :: "jsstring \<Rightarrow> nat \<Rightarrow> nat \<Rightarrow> WaveletMatrix \<Rightarrow> WaveletMatrix js" where
  "build_levels v depth 0 wm = Inr wm"
| "build_levels v depth (Suc n) wm =
    js_bind (build_level v depth wm) (\<lambda>wm. build_levels v (depth + 1) n wm)"

fun fill_first :: "nat \<Rightarrow> jsstring \<Rightarrow> nat \<Rightarrow> BitVector \<Rightarrow> BitVector" where
  "fill_first bitsize [] i bv = bv"
| "fill_first bitsize (code # v) i bv =
    fill_first bitsize v (i + 1) (BitVector_set bv (int i) (uint2bit bitsize code 0))"

definition WaveletMatrix_build :: "WaveletMatrix \<Rightarrow> jsstring \<Rightarrow> WaveletMatrix js" where
  "WaveletMatrix_build wm v =
    (let bitsize = wm_bitsize wm;
         wm = wm\<lparr>wm_bv := replicate bitsize BitVector_new, wm_seps := replicate bitsize 0,
                 wm_size := length v\<rparr>
     in if bitsize = 0 then Inl (Throw ''TypeError'')
        else
          (let bv0 = BitVector_build (fill_first bitsize v 0 (wm_bv wm ! 0));
               sep0 = BitVector_sizeB bv0 False;
               wm = wm\<lparr>wm_bv := (wm_bv wm)[0 := bv0], wm_seps := (wm_seps wm)[0 := sep0],
                       wm_range := obj_set 1 sep0 (obj_set 0 0 (wm_range wm))\<rparr>
           in build_levels v 1 (bitsize - 1) wm))"

definition WaveletMatrix_size :: "WaveletMatrix \<Rightarrow> nat" where
  "WaveletMatrix_size wm = wm_size wm"

fun get_loop :: "WaveletMatrix \<Rightarrow> nat \<Rightarrow> nat \<Rightarrow> nat \<Rightarrow> nat \<Rightarrow> nat js" where
  "get_loop wm depth 0 i value = Inr value"
| "get_loop wm depth (Suc n) i value =
    js_bind (js_at (wm_bv wm) depth) (\<lambda>bv.
    js_bind (BitVector_get bv i) (\<lambda>bit.
    js_bind (BitVector_rank bv i bit) (\<lambda>i.
      get_loop wm (depth + 1) n (if bit then i + wm_seps wm ! depth else i)
        (if bit then 2 * value + 1 else 2 * value))))"

definition WaveletMatrix_get :: "WaveletMatrix \<Rightarrow> nat \<Rightarrow> nat js" where
  "WaveletMatrix_get wm i =
    (if wm_size wm \<le> i then Inl (Throw ''WaveletMatrix.get() : range error'')
     else get_loop wm 0 (wm_bitsize wm) i 0)"

fun rank_loop :: "WaveletMatrix \<Rightarrow> nat \<Rightarrow> nat \<Rightarrow> nat \<Rightarrow> nat \<Rightarrow> nat js" where
  "rank_loop wm c depth 0 end = Inr end"
| "rank_loop wm c depth (Suc n) end =
    (let bit = uint2bit (wm_bitsize wm) c depth in
     js_bind (js_at (wm_bv wm) depth) (\<lambda>bv.
     js_bind (BitVector_rank bv end bit) (\<lambda>end.
       rank_loop wm c (depth + 1) n (if bit then end + wm_seps wm ! depth else end))))"

definition WaveletMatrix_rank :: "WaveletMatrix \<Rightarrow> nat \<Rightarrow> nat \<Rightarrow> nat js" where
  "WaveletMatrix_rank wm i c =
    (if wm_size wm < i then Inl (Throw ''WaveletMatrix.rank(): range error'')
     else if i = 0 then Inr 0
     else case obj_get (wm_range wm) c of
            None \<Rightarrow> Inr 0
          | Some begin \<Rightarrow> js_bind (rank_loop wm c 0 (wm_bitsize wm) i) (\<lambda>end.
              if end < begin then Inl Undef else Inr (end - begin)))"

definition WaveletMatrix_sizeC :: "WaveletMatrix \<Rightarrow> nat \<Rightarrow> nat js" where
  "WaveletMatrix_sizeC wm c = WaveletMatrix_rank wm (wm_size wm) c"

fun rank_less_than_loop :: "WaveletMatrix \<Rightarrow> nat \<Rightarrow> nat \<Rightarrow> nat \<Rightarrow> nat \<Rightarrow> nat \<Rightarrow> nat \<Rightarrow> nat js" where
  "rank_less_than_loop wm c depth 0 begin end rlt = Inr rlt"
| "rank_less_than_loop wm c depth (Suc n) begin end rlt =
    js_bind (js_at (wm_bv wm) depth) (\<lambda>bv.
    js_bind (BitVector_rank bv begin False) (\<lambda>rank0_begin.
    js_bind (BitVector_rank bv end False) (\<lambda>rank0_end.
      if uint2bit (wm_bitsize wm) c depth
      then rank_less_than_loop wm c (depth + 1) n (begin + wm_seps wm ! depth - rank0_begin)
             (end + wm_seps wm ! depth - rank0_end) (rlt + (rank0_end - rank0_begin))
      else rank_less_than_loop wm c (depth + 1) n rank0_begin rank0_end rlt)))"

definition WaveletMatrix_rank_less_than :: "WaveletMatrix \<Rightarrow> nat \<Rightarrow> nat \<Rightarrow> nat js" where
  "WaveletMatrix_rank_less_than wm i c =
    (if wm_size wm < i then Inl (Throw ''WaveletMatrix.rank_less_than(): range error'')
     else if i = 0 then Inr 0
     else rank_less_than_loop wm c 0 (wm_bitsize wm) 0 i 0)"


subsection \<open>The levels, abstractly\<close>

definition pre :: "nat \<Rightarrow> nat \<Rightarrow> nat \<Rightarrow> nat" where
  "pre B d c = c div 2 ^ (B - d)"

fun level :: "nat \<Rightarrow> nat list \<Rightarrow> nat \<Rightarrow> nat list" where
  "level B v 0 = v"
| "level B v (Suc d) =
    [c \<leftarrow> level B v d. \<not> uint2bit B c d] @ [c \<leftarrow> level B v d. uint2bit B c d]"

lemma uint2bit_odd: "uint2bit B c d = odd (c div 2 ^ (B - 1 - d))"
  by (auto simp: uint2bit_def and_one_eq drop_bit_eq_div odd_iff_mod_2_eq_one)

lemma pre_0: "c < 2 ^ B \<Longrightarrow> pre B 0 c = 0"
  by (simp add: pre_def)

lemma pre_full [simp]: "pre B B c = c"
  by (simp add: pre_def)

lemma pre_Suc:
  assumes "d < B"
  shows "pre B (Suc d) c = 2 * pre B d c + (if uint2bit B c d then 1 else 0)"
proof -
  let ?x = "c div 2 ^ (B - Suc d)"
  have "B - d = Suc (B - Suc d)" using assms by simp
  then have "pre B d c = ?x div 2" by (simp add: pre_def div_mult2_eq [symmetric] mult.commute)
  moreover have "x = 2 * (x div 2) + (if odd x then 1 else 0)" for x :: nat by presburger
  ultimately show ?thesis by (simp add: pre_def uint2bit_odd)
qed

lemma length_level [simp]: "length (level B v d) = length v"
proof (induction d)
  case (Suc d)
  then show ?case
    using sum_length_filter_compl [of "\<lambda>c. uint2bit B c d" "level B v d"] by simp
qed simp

lemma set_level [simp]: "set (level B v d) = set v"
  by (induction d) auto

definition grp :: "nat \<Rightarrow> nat list \<Rightarrow> nat \<Rightarrow> nat \<Rightarrow> nat list" where
  "grp B v d p = [c \<leftarrow> v. pre B d c = p]"

definition bit_grp :: "nat \<Rightarrow> nat list \<Rightarrow> nat \<Rightarrow> nat \<Rightarrow> bool \<Rightarrow> nat list" where
  "bit_grp B v d p b = [c \<leftarrow> grp B v d p. uint2bit B c d = b]"

lemma bit_grp_Suc:
  "d < B \<Longrightarrow> bit_grp B v d p False = grp B v (Suc d) (2 * p)"
  "d < B \<Longrightarrow> bit_grp B v d p True = grp B v (Suc d) (2 * p + 1)"
  by (auto simp: bit_grp_def grp_def pre_Suc intro!: filter_cong) presburger+

fun prefixes :: "nat \<Rightarrow> nat list \<Rightarrow> nat \<Rightarrow> nat list" where
  "prefixes B v 0 = (if v = [] then [] else [0])"
| "prefixes B v (Suc d) =
    map (\<lambda>p. 2 * p) [p \<leftarrow> prefixes B v d. bit_grp B v d p False \<noteq> []] @
    map (\<lambda>p. 2 * p + 1) [p \<leftarrow> prefixes B v d. bit_grp B v d p True \<noteq> []]"

definition codes_ok :: "nat \<Rightarrow> nat list \<Rightarrow> bool" where
  "codes_ok B v \<longleftrightarrow> (\<forall>c \<in> set v. c < 2 ^ B)"

lemma concat_map_filter: "concat (map f [x \<leftarrow> xs. f x \<noteq> []]) = concat (map f xs)"
  by (induction xs) auto

lemma takeWhile_neq: "x \<notin> set xs \<Longrightarrow> takeWhile (\<lambda>y. y \<noteq> x) (xs @ x # ys) = xs"
  by (induction xs) auto

lemma level_concat:
  "codes_ok B v \<Longrightarrow> d \<le> B \<Longrightarrow> level B v d = concat (map (grp B v d) (prefixes B v d))"
proof (induction d)
  case 0
  then have "[c \<leftarrow> v. pre B 0 c = 0] = v" by (auto simp: filter_id_conv codes_ok_def pre_0)
  then show ?case by (auto simp: grp_def)
next
  case (Suc d)
  let ?ps = "prefixes B v d"
  have d: "d < B" using Suc.prems by simp
  have f: "[c \<leftarrow> level B v d. uint2bit B c d = b] = concat (map (\<lambda>p. bit_grp B v d p b) ?ps)" for b
    using Suc by (simp add: filter_concat bit_grp_def o_def)
  have "level B v (Suc d) = concat (map (\<lambda>p. bit_grp B v d p False) ?ps)
      @ concat (map (\<lambda>p. bit_grp B v d p True) ?ps)"
    using f [of False] f [of True] by simp
  also have "\<dots> = concat (map (grp B v (Suc d)) (prefixes B v (Suc d)))"
    unfolding prefixes.simps map_append concat_append map_map o_def bit_grp_Suc [OF d, symmetric]
    by (simp only: concat_map_filter)
  finally show ?case .
qed

lemma bit_grp_nonempty: "bit_grp B v d p b \<noteq> [] \<Longrightarrow> grp B v d p \<noteq> []"
  by (auto simp: bit_grp_def)

lemma set_prefixes:
  "codes_ok B v \<Longrightarrow> d \<le> B \<Longrightarrow> p \<in> set (prefixes B v d) \<longleftrightarrow> grp B v d p \<noteq> []"
proof (induction d arbitrary: p)
  case 0
  then show ?case by (auto simp: grp_def filter_empty_conv codes_ok_def pre_0 neq_Nil_conv)
next
  case (Suc d)
  then have d: "d < B" and IH: "\<And>p. p \<in> set (prefixes B v d) \<longleftrightarrow> grp B v d p \<noteq> []" by auto
  show ?case
  proof (cases "even p")
    case True
    then obtain q where "p = 2 * q" by blast
    then show ?thesis using bit_grp_Suc(1) [OF d, of v q] bit_grp_nonempty [of B v d q False]
      by (auto simp: IH) presburger+
  next
    case False
    then obtain q where "p = 2 * q + 1" by (metis oddE)
    then show ?thesis using bit_grp_Suc(2) [OF d, of v q] bit_grp_nonempty [of B v d q True]
      by (auto simp: IH) presburger+
  qed
qed

lemma distinct_prefixes: "distinct (prefixes B v d)"
proof (induction d)
  case (Suc d)
  have "2 * p \<noteq> 2 * q + 1" for p q :: nat by presburger
  with Suc show ?case by (auto simp: distinct_map inj_on_def)
qed simp

definition bstart :: "nat \<Rightarrow> nat list \<Rightarrow> nat \<Rightarrow> nat \<Rightarrow> nat" where
  "bstart B v d p = length (concat (map (grp B v d) (takeWhile (\<lambda>q. q \<noteq> p) (prefixes B v d))))"

lemma level_split:
  assumes "codes_ok B v" "d \<le> B" "p \<in> set (prefixes B v d)"
  obtains xs ys where "prefixes B v d = xs @ p # ys" and "p \<notin> set xs"
    and "bstart B v d p = length (concat (map (grp B v d) xs))"
    and "level B v d = concat (map (grp B v d) xs) @ grp B v d p @ concat (map (grp B v d) ys)"
proof -
  obtain xs ys where ps: "prefixes B v d = xs @ p # ys" "p \<notin> set xs"
    using split_list_first [OF assms(3)] by blast
  then have "takeWhile (\<lambda>q. q \<noteq> p) (prefixes B v d) = xs"
    by (simp add: takeWhile_neq)
  with ps level_concat [OF assms(1,2)] that show thesis by (simp add: bstart_def)
qed

lemma level_block:
  assumes "codes_ok B v" "d \<le> B" "p \<in> set (prefixes B v d)"
  shows "take (length (grp B v d p)) (drop (bstart B v d p) (level B v d)) = grp B v d p"
    and "bstart B v d p + length (grp B v d p) \<le> length v"
proof -
  obtain xs ys where x: "bstart B v d p = length (concat (map (grp B v d) xs))"
    and l: "level B v d = concat (map (grp B v d) xs) @ grp B v d p @ concat (map (grp B v d) ys)"
    using level_split [OF assms] by metis
  show "take (length (grp B v d p)) (drop (bstart B v d p) (level B v d)) = grp B v d p"
    unfolding x l by simp
  have "length (level B v d) \<ge> bstart B v d p + length (grp B v d p)"
    unfolding x l by simp
  then show "bstart B v d p + length (grp B v d p) \<le> length v" by simp
qed

lemma level_index:
  assumes "codes_ok B v" "d \<le> B" "k < length v"
  obtains p j where "p \<in> set (prefixes B v d)" and "j < length (grp B v d p)"
    and "k = bstart B v d p + j" and "level B v d ! k = grp B v d p ! j"
proof -
  have conc: "\<exists>xs p ys j. ps = xs @ p # ys \<and> j < length (f p) \<and> k = length (concat (map f xs)) + j
      \<and> concat (map f ps) ! k = f p ! j"
    if "k < length (concat (map f ps))" for f :: "nat \<Rightarrow> nat list" and ps k
    using that
  proof (induction ps arbitrary: k)
    case (Cons q ps)
    show ?case
    proof (cases "k < length (f q)")
      case True
      then show ?thesis by (intro exI [of _ "[]"]) (auto simp: nth_append)
    next
      case False
      then have "k - length (f q) < length (concat (map f ps))" using Cons.prems by auto
      from Cons.IH [OF this] obtain xs p ys j where "ps = xs @ p # ys" "j < length (f p)"
        "k - length (f q) = length (concat (map f xs)) + j" "concat (map f ps) ! (k - length (f q)) = f p ! j"
        by blast
      with False show ?thesis by (intro exI [of _ "q # xs"] exI [of _ p] exI [of _ ys] exI [of _ j])
          (auto simp: nth_append)
    qed
  qed simp
  have "k < length (concat (map (grp B v d) (prefixes B v d)))"
    using assms by (simp add: level_concat [symmetric])
  from conc [OF this] obtain xs p ys j where ps: "prefixes B v d = xs @ p # ys"
    and j: "j < length (grp B v d p)" "k = length (concat (map (grp B v d) xs)) + j"
      "level B v d ! k = grp B v d p ! j"
    using assms level_concat by metis
  have "p \<notin> set xs" using distinct_prefixes [of B v d] by (auto simp: ps)
  then have "bstart B v d p = length (concat (map (grp B v d) xs))"
    by (simp add: bstart_def ps takeWhile_neq)
  then show thesis using that [of p j] ps j by simp
qed

lemma bstart_disjoint:
  assumes "codes_ok B v" "d \<le> B" "p \<in> set (prefixes B v d)" "q \<in> set (prefixes B v d)" "p \<noteq> q"
  shows "bstart B v d p + length (grp B v d p) \<le> bstart B v d q
    \<or> bstart B v d q + length (grp B v d q) \<le> bstart B v d p"
proof -
  let ?L = "\<lambda>ps. length (concat (map (grp B v d) ps))"
  have after: "?L (xs @ [a]) \<le> bstart B v d b"
    if ps: "prefixes B v d = xs @ a # ys" and b: "b \<in> set ys" for xs ys a b
  proof -
    obtain as bs where ys: "ys = as @ b # bs" "b \<notin> set as" using split_list_first [OF b] by blast
    have "b \<notin> set (xs @ a # as)" using distinct_prefixes [of B v d] by (auto simp: ps ys)
    then have "takeWhile (\<lambda>q. q \<noteq> b) (prefixes B v d) = xs @ a # as"
      using takeWhile_neq [of b "xs @ a # as" bs] by (simp add: ps ys)
    then show ?thesis by (simp add: bstart_def)
  qed
  obtain xs ys where p: "prefixes B v d = xs @ p # ys" "bstart B v d p = ?L xs"
    using level_split [OF assms(1,2,3)] by metis
  show ?thesis
  proof (cases "q \<in> set ys")
    case True
    then show ?thesis using after [OF p(1)] p(2) by auto
  next
    case False
    then obtain as bs where xs: "xs = as @ q # bs" using assms(4,5) p(1) by (auto dest: split_list)
    then have ps: "prefixes B v d = as @ q # (bs @ p # ys)" using p(1) by simp
    then have "q \<notin> set as" using distinct_prefixes [of B v d] by auto
    then have "bstart B v d q = ?L as"
      using takeWhile_neq [of q as "bs @ p # ys"] by (simp add: bstart_def ps)
    then show ?thesis using after [OF ps, of p] by simp
  qed
qed

definition fill_inv :: "nat \<Rightarrow> nat list \<Rightarrow> nat \<Rightarrow> nat jsobj \<Rightarrow> nat list \<Rightarrow> nat jsobj \<Rightarrow> BitVector \<Rightarrow> bool" where
  "fill_inv B v d rng u rt bv \<longleftrightarrow>
    bv_inv bv \<and> bv_r bv = [] \<and> bv_size bv \<le> length v \<and>
    (\<forall>p. p \<notin> set (prefixes B v d) \<longrightarrow> obj_get rt p = obj_get rng p) \<and>
    (\<forall>p \<in> set (prefixes B v d). obj_get rt p = Some (bstart B v d p + length (grp B u d p))) \<and>
    (\<forall>p \<in> set (prefixes B v d). \<forall>j < length (grp B u d p).
       bstart B v d p + j < bv_size bv \<and>
       bits_of bv ! (bstart B v d p + j) = uint2bit B (grp B v d p ! j) d)"

lemma BitVector_set_r: "bv_r (BitVector_set bv i f) = bv_r bv"
  by (simp add: BitVector_set_def Let_def)

lemma nth_bits_of_set:
  assumes "bv_inv bv"
  shows "k < bv_size bv \<Longrightarrow> k \<noteq> x \<Longrightarrow> bits_of (BitVector_set bv (int x) f) ! k = bits_of bv ! k"
    and "bits_of (BitVector_set bv (int x) f) ! x = f"
  using assms by (auto simp: BitVector_set_spec nth_append)

lemma fill_inv_step:
  assumes ok: "codes_ok B v" and d: "d \<le> B" and v: "v = u @ c # w"
    and inv: "fill_inv B v d rng u rt bv"
  shows "\<exists>x. obj_get rt (pre B d c) = Some x \<and>
    fill_inv B v d rng (u @ [c]) (obj_set (pre B d c) (x + 1) rt) (BitVector_set bv (int x) (uint2bit B c d))"
proof -
  let ?p = "pre B d c" and ?G = "\<lambda>u p. length (grp B u d p)"
  define x where "x = bstart B v d ?p + ?G u ?p"
  let ?bv = "BitVector_set bv (int x) (uint2bit B c d)"
  have gv: "grp B v d ?p = grp B u d ?p @ c # grp B w d ?p" by (simp add: v grp_def)
  have gu: "grp B (u @ [c]) d p = (if p = ?p then grp B u d p @ [c] else grp B u d p)" for p
    by (simp add: grp_def)
  have p: "?p \<in> set (prefixes B v d)" by (simp add: set_prefixes ok d gv)
  have x: "obj_get rt ?p = Some x" using inv p by (simp add: fill_inv_def x_def)
  have bvi: "bv_inv bv" using inv by (simp add: fill_inv_def)
  have lt: "x < length v" using level_block(2) [OF ok d p] by (simp add: gv x_def)
  have le: "?G u p \<le> ?G v p" for p by (simp add: v grp_def)
  have other: "bstart B v d q + j \<noteq> x" if "q \<in> set (prefixes B v d)" "q \<noteq> ?p" "j < ?G u q" for q j
    using bstart_disjoint [OF ok d p that(1)] that le [of q] gv by (auto simp: x_def)
  have bits: "bstart B v d q + j < bv_size ?bv \<and> bits_of ?bv ! (bstart B v d q + j) = uint2bit B (grp B v d q ! j) d"
    if q: "q \<in> set (prefixes B v d)" and j: "j < ?G (u @ [c]) q" for q j
  proof (cases "q = ?p \<and> j = ?G u ?p")
    case True
    then show ?thesis using bvi gv by (simp add: BitVector_set_size nth_bits_of_set(2) flip: x_def)
  next
    case False
    then have j': "j < ?G u q" using j by (auto simp: gu split: if_splits)
    then have old: "bstart B v d q + j < bv_size bv"
        "bits_of bv ! (bstart B v d q + j) = uint2bit B (grp B v d q ! j) d"
      using inv q by (auto simp: fill_inv_def)
    have "bstart B v d q + j \<noteq> x" using other [OF q _ j'] False j' by (cases "q = ?p") (auto simp: x_def)
    then show ?thesis using old bvi by (simp add: BitVector_set_size nth_bits_of_set(1))
  qed
  have "fill_inv B v d rng (u @ [c]) (obj_set ?p (x + 1) rt) ?bv"
    using inv p bits lt unfolding fill_inv_def
    by (auto simp: BitVector_set_spec BitVector_set_r BitVector_set_size obj_get_set gu x_def [symmetric])
  with x show ?thesis by blast
qed

lemma fill_level_inv:
  assumes "codes_ok B v" "d \<le> B" "v = u @ w" "fill_inv B v d rng u rt bv"
  shows "\<exists>rt' bv'. fill_level B d w rt bv = Inr (rt', bv') \<and> fill_inv B v d rng v rt' bv'"
  using assms(3,4)
proof (induction w arbitrary: u rt bv)
  case Nil
  then show ?case by simp
next
  case (Cons c w)
  obtain x where x: "obj_get rt (pre B d c) = Some x"
    and inv: "fill_inv B v d rng (u @ [c]) (obj_set (pre B d c) (x + 1) rt) (BitVector_set bv (int x) (uint2bit B c d))"
    using fill_inv_step [OF assms(1,2) Cons.prems] by blast
  have "v = (u @ [c]) @ w" using Cons.prems(1) by simp
  from Cons.IH [OF this inv] show ?case using x by (simp add: pre_def drop_bit_eq_div)
qed

lemma fill_level_spec:
  assumes ok: "codes_ok B v" and d: "d \<le> B"
    and rng: "\<forall>p \<in> set (prefixes B v d). obj_get rng p = Some (bstart B v d p)"
  obtains rt bv where "fill_level B d v rng BitVector_new = Inr (rt, bv)"
    and "bv_inv bv" and "bv_r bv = []" and "bits_of bv = map (\<lambda>c. uint2bit B c d) (level B v d)"
    and "\<And>p. p \<in> set (prefixes B v d) \<Longrightarrow> obj_get rt p = Some (bstart B v d p + length (grp B v d p))"
    and "\<And>p. p \<notin> set (prefixes B v d) \<Longrightarrow> obj_get rt p = obj_get rng p"
proof -
  have "fill_inv B v d rng [] rng BitVector_new"
    using rng by (simp add: fill_inv_def grp_def) (simp add: BitVector_new_def)
  then obtain rt bv where f: "fill_level B d v rng BitVector_new = Inr (rt, bv)"
    and inv: "fill_inv B v d rng v rt bv"
    using fill_level_inv [OF ok d, of "[]" v rng rng BitVector_new] by auto
  have idx: "k < bv_size bv \<and> bits_of bv ! k = uint2bit B (level B v d ! k) d" if "k < length v" for k
    using level_index [OF ok d that] inv unfolding fill_inv_def by metis
  then have "length v \<le> bv_size bv" by (metis linorder_not_less order_less_irrefl)
  moreover have "bv_size bv \<le> length v" using inv by (simp add: fill_inv_def)
  ultimately have "bits_of bv = map (\<lambda>c. uint2bit B c d) (level B v d)"
    using inv idx by (intro nth_equalityI) (auto simp: fill_inv_def)
  then show thesis using that [OF f] inv by (simp add: fill_inv_def)
qed

subsection \<open>The ranges of the next level\<close>

lemma reverse_range_foldl:
  "reverse_range rs rt acc =
    foldl (\<lambda>acc (k, p). obj_set k p acc) acc
      (map (\<lambda>(p, k). (k, p)) [(p, k) \<leftarrow> rs. Some k \<noteq> obj_get rt p])"
  by (induction rs rt acc rule: reverse_range.induct) auto

lemma foldl_obj_set:
  "distinct (map fst kvs) \<Longrightarrow> obj_get (foldl (\<lambda>acc (k, p). obj_set k p acc) acc kvs) k
    = (case map_of kvs k of None \<Rightarrow> obj_get acc k | Some p \<Rightarrow> Some p)"
proof (induction kvs arbitrary: acc)
  case (Cons kv kvs)
  then have "fst kv \<notin> fst ` set kvs" by simp
  then have "map_of kvs (fst kv) = None" by (simp add: map_of_eq_None_iff)
  with Cons show ?case by (auto simp: obj_get_set split: option.splits prod.splits)
qed simp

lemma obj_ok_foldl: "obj_ok acc \<Longrightarrow> obj_ok (foldl (\<lambda>acc (k, p). obj_set k p acc) acc kvs)"
  by (induction kvs arbitrary: acc) (auto simp: obj_ok_set split: prod.splits)

lemma map_of_set_eq:
  "distinct (map fst xs) \<Longrightarrow> distinct (map fst ys) \<Longrightarrow> set xs = set ys \<Longrightarrow> map_of xs k = map_of ys k"
  by (metis map_of_eq_Some_iff not_Some_eq)

lemma sorted_bstart:
  assumes "codes_ok B v" "d \<le> B"
  shows "sorted_wrt (<) (map (bstart B v d) (prefixes B v d))"
proof -
  have ne: "\<And>p. p \<in> set (prefixes B v d) \<Longrightarrow> grp B v d p \<noteq> []" using assms by (simp add: set_prefixes)
  have less: "bstart B v d p < bstart B v d q" if ps: "prefixes B v d = xs @ p # ys" and q: "q \<in> set ys" for xs p ys q
  proof -
    obtain as bs where ys: "ys = as @ q # bs" "q \<notin> set as" using split_list_first [OF q] by blast
    have "q \<notin> set (xs @ p # as)" "p \<notin> set xs" using distinct_prefixes [of B v d] by (auto simp: ps ys)
    then have "takeWhile (\<lambda>r. r \<noteq> q) (prefixes B v d) = xs @ p # as" "takeWhile (\<lambda>r. r \<noteq> p) (prefixes B v d) = xs"
      using takeWhile_neq [of q "xs @ p # as" bs] takeWhile_neq [of p xs ys] by (simp_all add: ps ys)
    then show ?thesis using ne [of p] ps by (simp add: bstart_def)
  qed
  have "sorted_wrt (\<lambda>p q. bstart B v d p < bstart B v d q) ys"
    if "prefixes B v d = xs @ ys" for xs ys
    using that
  proof (induction ys arbitrary: xs)
    case (Cons y ys)
    have "sorted_wrt (\<lambda>p q. bstart B v d p < bstart B v d q) ys"
      using Cons.IH [of "xs @ [y]"] Cons.prems by simp
    moreover have "\<forall>q \<in> set ys. bstart B v d y < bstart B v d q" using less [OF Cons.prems] by blast
    ultimately show ?case by simp
  qed simp
  from this [of "[]"] show ?thesis by (simp add: sorted_wrt_map)
qed

lemma reverse_range_spec:
  assumes ok: "codes_ok B v" and d: "d \<le> B" and "obj_ok rng"
    and rng: "\<And>p. p \<in> set (prefixes B v d) \<Longrightarrow> obj_get rng p = Some (bstart B v d p)"
    and rt: "\<And>p. p \<in> set (prefixes B v d) \<Longrightarrow> obj_get rt p = Some (bstart B v d p + length (grp B v d p))"
    and rt': "\<And>p. p \<notin> set (prefixes B v d) \<Longrightarrow> obj_get rt p = obj_get rng p"
  shows "reverse_range rng rt [] = map (\<lambda>p. (bstart B v d p, p)) (prefixes B v d)"
proof -
  let ?ps = "prefixes B v d"
  define F where "F = map (\<lambda>(p, k). (k, p)) [(p, k) \<leftarrow> rng. Some k \<noteq> obj_get rt p]"
  have ne: "p \<in> set ?ps \<Longrightarrow> grp B v d p \<noteq> []" for p using ok d by (simp add: set_prefixes)
  have F: "(k, p) \<in> set F \<longleftrightarrow> p \<in> set ?ps \<and> k = bstart B v d p" for k p
    using obj_ok_mem [OF assms(3)] rng rt rt' ne by (cases "p \<in> set ?ps") (auto simp: F_def)
  have inj: "inj_on (bstart B v d) (set ?ps)"
    using sorted_bstart [OF ok d] by (simp add: strict_sorted_iff distinct_map)
  have "distinct (map fst [(p, k) \<leftarrow> rng. Some k \<noteq> obj_get rt p])"
    using obj_ok_distinct [OF assms(3)] by (simp add: distinct_map_filter)
  then have "distinct (map snd F)" by (simp add: F_def o_def case_prod_beta)
  then have "distinct F" using distinct_map [of snd F] by blast
  then have dist: "distinct (map fst F)"
    unfolding distinct_map using F inj by (auto simp: inj_on_def)
  show ?thesis
  proof (rule obj_ok_eqI)
    show "obj_ok (reverse_range rng rt [])" by (simp add: reverse_range_foldl obj_ok_foldl)
    show "obj_ok (map (\<lambda>p. (bstart B v d p, p)) ?ps)"
      using sorted_bstart [OF ok d] by (simp add: obj_ok_def o_def)
    then have ok': "distinct (map fst (map (\<lambda>p. (bstart B v d p, p)) ?ps))" by (rule obj_ok_distinct)
    fix k
    have "obj_get (reverse_range rng rt []) k = map_of F k"
      using foldl_obj_set [OF dist, of "[]" k] by (simp add: reverse_range_foldl F_def [symmetric] split: option.splits)
    also have "\<dots> = map_of (map (\<lambda>p. (bstart B v d p, p)) ?ps) k"
      using F dist ok' by (intro map_of_set_eq) auto
    finally show "obj_get (reverse_range rng rt []) k = obj_get (map (\<lambda>p. (bstart B v d p, p)) ?ps) k"
      by (simp add: obj_get_def)
  qed
qed

lemma length_bit_grp:
  "length (grp B v d p) = length (bit_grp B v d p False) + length (bit_grp B v d p True)"
  using sum_length_filter_compl [of "\<lambda>c. uint2bit B c d" "grp B v d p"] by (simp add: bit_grp_def)

lemma concat_map_bit_grp:
  "concat (map (\<lambda>q. bit_grp B v d q b) xs) = [c \<leftarrow> concat (map (grp B v d) xs). uint2bit B c d = b]"
  by (induction xs) (auto simp: bit_grp_def)

lemma bstart_Suc:
  assumes ok: "codes_ok B v" and d: "d < B" and ps: "prefixes B v d = xs @ p # ys"
  shows "bit_grp B v d p False \<noteq> [] \<Longrightarrow>
      bstart B v (Suc d) (2 * p) = length (concat (map (\<lambda>q. bit_grp B v d q False) xs))"
    and "bit_grp B v d p True \<noteq> [] \<Longrightarrow>
      bstart B v (Suc d) (2 * p + 1) = length [c \<leftarrow> level B v d. \<not> uint2bit B c d]
        + length (concat (map (\<lambda>q. bit_grp B v d q True) xs))"
proof -
  let ?N = "\<lambda>b ps. [p \<leftarrow> ps. bit_grp B v d p b \<noteq> []]"
  have p: "p \<notin> set xs" using distinct_prefixes [of B v d] by (auto simp: ps)
  have c0: "concat (map (\<lambda>p. grp B v (Suc d) (2 * p)) (?N False qs)) = concat (map (\<lambda>q. bit_grp B v d q False) qs)" for qs
    unfolding bit_grp_Suc(1) [OF d, symmetric] by (simp only: concat_map_filter)
  have c1: "concat (map (\<lambda>p. grp B v (Suc d) (2 * p + 1)) (?N True qs)) = concat (map (\<lambda>q. bit_grp B v d q True) qs)" for qs
    unfolding bit_grp_Suc(2) [OF d, symmetric] by (simp only: concat_map_filter)
  {
    assume "bit_grp B v d p False \<noteq> []"
    then have "prefixes B v (Suc d) = map (\<lambda>p. 2 * p) (?N False xs) @ 2 * p #
        (map (\<lambda>p. 2 * p) (?N False ys) @ map (\<lambda>p. 2 * p + 1) (?N True (prefixes B v d)))"
      by (simp add: ps)
    moreover have "2 * p \<notin> set (map (\<lambda>p. 2 * p) (?N False xs))" using p by auto
    ultimately have "takeWhile (\<lambda>q. q \<noteq> 2 * p) (prefixes B v (Suc d)) = map (\<lambda>p. 2 * p) (?N False xs)"
      by (simp only: takeWhile_neq not_False_eq_True)
    then show "bstart B v (Suc d) (2 * p) = length (concat (map (\<lambda>q. bit_grp B v d q False) xs))"
      unfolding bstart_def by (simp only: map_map o_def c0)
  next
    assume "bit_grp B v d p True \<noteq> []"
    then have "prefixes B v (Suc d) = (map (\<lambda>p. 2 * p) (?N False (prefixes B v d)) @ map (\<lambda>p. 2 * p + 1) (?N True xs))
        @ (2 * p + 1) # map (\<lambda>p. 2 * p + 1) (?N True ys)"
      by (simp add: ps)
    moreover have "2 * p + 1 \<notin> set (map (\<lambda>p. 2 * p) (?N False (prefixes B v d)) @ map (\<lambda>p. 2 * p + 1) (?N True xs))"
      using p by auto presburger
    ultimately have "takeWhile (\<lambda>q. q \<noteq> 2 * p + 1) (prefixes B v (Suc d))
        = map (\<lambda>p. 2 * p) (?N False (prefixes B v d)) @ map (\<lambda>p. 2 * p + 1) (?N True xs)"
      by (simp only: takeWhile_neq not_False_eq_True)
    moreover have "concat (map (\<lambda>q. bit_grp B v d q False) (prefixes B v d)) = [c \<leftarrow> level B v d. \<not> uint2bit B c d]"
      using ok d by (simp add: concat_map_bit_grp level_concat)
    ultimately show "bstart B v (Suc d) (2 * p + 1) = length [c \<leftarrow> level B v d. \<not> uint2bit B c d]
        + length (concat (map (\<lambda>q. bit_grp B v d q True) xs))"
      unfolding bstart_def by (simp only: map_append concat_append map_map o_def c0 c1 length_append)
  }
qed

definition ranges_upto :: "nat \<Rightarrow> nat list \<Rightarrow> nat \<Rightarrow> nat list \<Rightarrow> nat jsobj \<Rightarrow> bool" where
  "ranges_upto B v d xs rng \<longleftrightarrow> obj_ok rng \<and>
    (\<forall>p. obj_get rng p = (if p div 2 \<in> set xs \<and> grp B v d p \<noteq> [] then Some (bstart B v d p) else None))"

definition level_vector :: "nat \<Rightarrow> nat list \<Rightarrow> nat \<Rightarrow> BitVector \<Rightarrow> bool" where
  "level_vector B v d bv \<longleftrightarrow> built bv \<and> bits_of bv = map (\<lambda>c. uint2bit B c d) (level B v d)"

lemma level_vector_size: "level_vector B v d bv \<Longrightarrow> bv_size bv = length v"
  by (metis built_def length_bits_of length_level length_map level_vector_def)

lemma level_vector_rank:
  assumes "level_vector B v d bv" "i \<le> length v"
  shows "BitVector_rank bv i b = Inr (length [c \<leftarrow> take i (level B v d). uint2bit B c d = b])"
  using assms level_vector_size [OF assms(1)]
  by (simp add: BitVector_rank_spec level_vector_def rank_list_map)

lemma level_vector_block_rank:
  assumes "codes_ok B v" "d \<le> B" "level_vector B v d bv" "p \<in> set (prefixes B v d)"
  obtains r where "BitVector_rank bv (bstart B v d p) b = Inr r"
    and "BitVector_rank bv (bstart B v d p + length (grp B v d p)) b = Inr (r + length (bit_grp B v d p b))"
proof -
  let ?s = "bstart B v d p" and ?n = "length (grp B v d p)"
  have le: "?s + ?n \<le> length v" by (rule level_block(2) [OF assms(1,2,4)])
  have "take (?s + ?n) (level B v d) = take ?s (level B v d) @ grp B v d p"
    using level_block(1) [OF assms(1,2,4)] by (simp add: take_add)
  then show thesis
    using that le level_vector_rank [OF assms(3)] by (simp add: bit_grp_def)
qed

lemma ranges_upto_step:
  assumes r: "ranges_upto B v (Suc d) xs rng" and d: "d < B" and p: "p \<notin> set xs"
    and s0: "bit_grp B v d p False \<noteq> [] \<Longrightarrow> bstart B v (Suc d) (2 * p) = pos0"
    and s1: "bit_grp B v d p True \<noteq> [] \<Longrightarrow> bstart B v (Suc d) (2 * p + 1) = pos1"
  defines "rng0 \<equiv> if bit_grp B v d p False \<noteq> [] then obj_set (2 * p) pos0 rng else rng"
  shows "ranges_upto B v (Suc d) (xs @ [p])
    (if bit_grp B v d p True \<noteq> [] then obj_set (2 * p + 1) pos1 rng0 else rng0)"
proof -
  have g: "grp B v (Suc d) (2 * p) = bit_grp B v d p False" "grp B v (Suc d) (Suc (2 * p)) = bit_grp B v d p True"
    by (simp_all add: bit_grp_Suc [OF d])
  have q: "q div 2 = p \<longleftrightarrow> q = 2 * p \<or> q = 2 * p + 1" for q by presburger
  show ?thesis
    using r p s0 s1 unfolding ranges_upto_def rng0_def
    by (auto simp: obj_ok_set obj_get_set g q)
qed

lemma split_ranges_spec:
  assumes ok: "codes_ok B v" and d: "d < B" and bv: "level_vector B v d bv"
    and rt: "\<And>p. p \<in> set (prefixes B v d) \<Longrightarrow> obj_get rt p = Some (bstart B v d p + length (grp B v d p))"
    and ps: "prefixes B v d = xs @ ys" and rng: "ranges_upto B v (Suc d) xs rng"
    and pos0: "pos0 = length (concat (map (\<lambda>q. bit_grp B v d q False) xs))"
    and pos1: "pos1 = length [c \<leftarrow> level B v d. \<not> uint2bit B c d]
      + length (concat (map (\<lambda>q. bit_grp B v d q True) xs))"
  shows "\<exists>rng'. split_ranges bv (map (\<lambda>p. (bstart B v d p, p)) ys) rt rng pos0 pos1 = Inr rng'
    \<and> ranges_upto B v (Suc d) (prefixes B v d) rng'"
  using ps rng pos0 pos1
proof (induction ys arbitrary: xs rng pos0 pos1)
  case Nil
  then show ?case by simp
next
  case (Cons p ys)
  note d' = less_imp_le [OF d]
  have p: "p \<in> set (prefixes B v d)" "p \<notin> set xs"
    using Cons.prems(1) distinct_prefixes [of B v d] by auto
  obtain r where r: "BitVector_rank bv (bstart B v d p) False = Inr r"
    "BitVector_rank bv (bstart B v d p + length (grp B v d p)) False = Inr (r + length (bit_grp B v d p False))"
    using level_vector_block_rank [OF ok d' bv p(1)] by metis
  have num1: "length (grp B v d p) - length (bit_grp B v d p False) = length (bit_grp B v d p True)"
    by (simp add: length_bit_grp)
  define rng0 where "rng0 = (if bit_grp B v d p False \<noteq> [] then obj_set (2 * p) pos0 rng else rng)"
  define rng1 where "rng1 = (if bit_grp B v d p True \<noteq> [] then obj_set (2 * p + 1) pos1 rng0 else rng0)"
  have s0: "bit_grp B v d p False \<noteq> [] \<Longrightarrow> bstart B v (Suc d) (2 * p) = pos0"
    using bstart_Suc(1) [OF ok d Cons.prems(1)] Cons.prems(3) by simp
  have s1: "bit_grp B v d p True \<noteq> [] \<Longrightarrow> bstart B v (Suc d) (2 * p + 1) = pos1"
    using bstart_Suc(2) [OF ok d Cons.prems(1)] Cons.prems(4) by simp
  have step: "ranges_upto B v (Suc d) (xs @ [p]) rng1"
    unfolding rng1_def rng0_def by (rule ranges_upto_step [OF Cons.prems(2) d p(2) s0 s1])
  have "split_ranges bv (map (\<lambda>p. (bstart B v d p, p)) (p # ys)) rt rng pos0 pos1 =
      split_ranges bv (map (\<lambda>p. (bstart B v d p, p)) ys) rt rng1
        (pos0 + length (bit_grp B v d p False)) (pos1 + length (bit_grp B v d p True))"
    using r num1 rt [OF p(1)] by (auto simp: Let_def rng0_def rng1_def)
  then show ?case using Cons.IH [OF _ step] Cons.prems by (simp add: add.assoc)
qed

subsection \<open>Building\<close>

lemma fill_first_spec:
  assumes "bv_inv bv" "bv_size bv = i"
  shows "bits_of (fill_first B v i bv) = bits_of bv @ map (\<lambda>c. uint2bit B c 0) v
    \<and> bv_inv (fill_first B v i bv) \<and> bv_r (fill_first B v i bv) = bv_r bv"
  using assms
proof (induction v arbitrary: i bv)
  case (Cons c v)
  let ?bv = "BitVector_set bv (int i) (uint2bit B c 0)"
  have "bits_of ?bv = bits_of bv @ [uint2bit B c 0]"
    using BitVector_set_spec(1) [OF Cons.prems(1), of i "uint2bit B c 0"] Cons.prems
    by (simp add: list_update_append)
  moreover have "bv_inv ?bv" by (rule BitVector_set_spec(2) [OF Cons.prems(1)])
  moreover have "bv_size ?bv = Suc i" using Cons.prems(2) by (simp add: BitVector_set_size)
  moreover have "bv_r ?bv = bv_r bv" by (simp add: BitVector_set_def Let_def)
  ultimately show ?case using Cons.IH [of ?bv "Suc i"] by simp
qed simp

lemma BitVector_build_level_vector:
  assumes "bv_inv bv" "bv_r bv = []" "bits_of bv = map (\<lambda>c. uint2bit B c d) (level B v d)"
  shows "level_vector B v d (BitVector_build bv)"
  using assms BitVector_build_spec [of bv] by (simp add: level_vector_def)

abbreviation zeros :: "nat \<Rightarrow> nat list \<Rightarrow> nat \<Rightarrow> nat" where
  "zeros B v d \<equiv> length [c \<leftarrow> level B v d. \<not> uint2bit B c d]"

lemma level_vector_zeros: "level_vector B v d bv \<Longrightarrow> BitVector_sizeB bv False = zeros B v d"
  by (simp add: level_vector_def built_sizeB count_list_map_eq)

text \<open>The state after the levels below \<^verbatim>\<open>n\<close> have been built.\<close>

definition wm_levels :: "nat \<Rightarrow> nat list \<Rightarrow> nat \<Rightarrow> WaveletMatrix \<Rightarrow> bool" where
  "wm_levels B v n wm \<longleftrightarrow> wm_bitsize wm = B \<and> wm_size wm = length v
    \<and> length (wm_bv wm) = B \<and> length (wm_seps wm) = B
    \<and> (\<forall>d < n. level_vector B v d (wm_bv wm ! d) \<and> wm_seps wm ! d = zeros B v d)
    \<and> (\<forall>d < B. n \<le> d \<longrightarrow> wm_bv wm ! d = BitVector_new)"

definition wm_ranges :: "nat \<Rightarrow> nat list \<Rightarrow> nat \<Rightarrow> nat jsobj \<Rightarrow> bool" where
  "wm_ranges B v n rng \<longleftrightarrow> obj_ok rng
    \<and> (\<forall>p \<in> set (prefixes B v n). obj_get rng p = Some (bstart B v n p))"

lemma ranges_upto_all:
  assumes "codes_ok B v" "d < B"
  shows "ranges_upto B v (Suc d) (prefixes B v d) rng \<longleftrightarrow> obj_ok rng \<and>
    (\<forall>p. obj_get rng p = (if grp B v (Suc d) p \<noteq> [] then Some (bstart B v (Suc d) p) else None))"
proof -
  have "p div 2 \<in> set (prefixes B v d)" if "grp B v (Suc d) p \<noteq> []" for p
  proof -
    from that obtain c where c: "c \<in> set v" "pre B (Suc d) c = p"
      by (auto simp: grp_def filter_empty_conv)
    then have "pre B d c = p div 2" using pre_Suc [OF assms(2), of c] by auto
    then show ?thesis using c assms by (auto simp: set_prefixes grp_def filter_empty_conv)
  qed
  then show ?thesis by (auto simp: ranges_upto_def)
qed

lemma build_level_spec:
  assumes ok: "codes_ok B v" and d: "0 < d" "d < B"
    and lv: "wm_levels B v d wm" and rng: "wm_ranges B v d (wm_range wm)"
  shows "\<exists>wm'. build_level v d wm = Inr wm' \<and> wm_levels B v (Suc d) wm'
    \<and> ranges_upto B v (Suc d) (prefixes B v d) (wm_range wm')"
proof -
  have new: "wm_bv wm ! d = BitVector_new" and B: "wm_bitsize wm = B"
    and len: "length (wm_bv wm) = B" "length (wm_seps wm) = B"
    using lv d by (auto simp: wm_levels_def)
  have rok: "obj_ok (wm_range wm)" and r: "\<And>p. p \<in> set (prefixes B v d) \<Longrightarrow> obj_get (wm_range wm) p = Some (bstart B v d p)"
    using rng by (auto simp: wm_ranges_def)
  obtain rt bv where f: "fill_level B d v (wm_range wm) BitVector_new = Inr (rt, bv)"
    and bv: "bv_inv bv" "bv_r bv = []" "bits_of bv = map (\<lambda>c. uint2bit B c d) (level B v d)"
    and rt: "\<And>p. p \<in> set (prefixes B v d) \<Longrightarrow> obj_get rt p = Some (bstart B v d p + length (grp B v d p))"
    and rt': "\<And>p. p \<notin> set (prefixes B v d) \<Longrightarrow> obj_get rt p = obj_get (wm_range wm) p"
    using fill_level_spec [OF ok less_imp_le [OF d(2)], of "wm_range wm"] r by blast
  let ?bv = "BitVector_build bv"
  note L = BitVector_build_level_vector [OF bv]
  have rev: "reverse_range (wm_range wm) rt [] = map (\<lambda>p. (bstart B v d p, p)) (prefixes B v d)"
    using reverse_range_spec [OF ok less_imp_le [OF d(2)] rok r rt rt'] by blast
  obtain rng' where s: "split_ranges ?bv (map (\<lambda>p. (bstart B v d p, p)) (prefixes B v d)) rt [] 0 (zeros B v d) = Inr rng'"
    and rng': "ranges_upto B v (Suc d) (prefixes B v d) rng'"
    using split_ranges_spec [OF ok d(2) L rt, of "[]" "prefixes B v d" "[]" 0 "zeros B v d"]
    by (auto simp: ranges_upto_def)
  define wm' where "wm' = wm\<lparr>wm_bv := (wm_bv wm)[d := ?bv], wm_seps := (wm_seps wm)[d := zeros B v d], wm_range := rng'\<rparr>"
  have "build_level v d wm = Inr wm'"
    using f s by (simp add: build_level_def new B rev level_vector_zeros [OF L] Let_def wm'_def)
  moreover have "wm_levels B v (Suc d) wm'"
    using lv L d(2) len by (auto simp: wm_levels_def wm'_def nth_list_update less_Suc_eq)
  ultimately show ?thesis using rng' by (simp add: wm'_def)
qed

text \<open>The ranges at the end: exact, except for a one-level matrix, which keeps both keys.\<close>

lemma build_levels_spec:
  assumes ok: "codes_ok B v" and "0 < d" "d + n = B"
    and "wm_levels B v d wm" "wm_ranges B v d (wm_range wm)"
  shows "\<exists>wm'. build_levels v d n wm = Inr wm' \<and> wm_levels B v B wm'
    \<and> (if n = 0 then wm' = wm
       else obj_ok (wm_range wm') \<and> (\<forall>c. obj_get (wm_range wm') c = (if c \<in> set v then Some (bstart B v B c) else None)))"
  using assms(2-)
proof (induction n arbitrary: d wm)
  case 0
  then show ?case by simp
next
  case (Suc n)
  then have d: "d < B" by simp
  obtain wm1 where wm1: "build_level v d wm = Inr wm1" "wm_levels B v (Suc d) wm1"
    "ranges_upto B v (Suc d) (prefixes B v d) (wm_range wm1)"
    using build_level_spec [OF ok Suc.prems(1) d Suc.prems(3,4)] by blast
  note r = wm1(3) [unfolded ranges_upto_all [OF ok d]]
  have "wm_ranges B v (Suc d) (wm_range wm1)"
    using r ok d by (simp add: wm_ranges_def set_prefixes del: prefixes.simps)
  from Suc.IH [OF _ _ wm1(2) this] Suc.prems
  obtain wm' where wm': "build_levels v (Suc d) n wm1 = Inr wm'" "wm_levels B v B wm'"
    "if n = 0 then wm' = wm1 else obj_ok (wm_range wm') \<and>
      (\<forall>c. obj_get (wm_range wm') c = (if c \<in> set v then Some (bstart B v B c) else None))"
    by auto
  have "grp B v B c \<noteq> [] \<longleftrightarrow> c \<in> set v" for c by (auto simp: grp_def filter_empty_conv)
  then show ?case using wm' wm1(1) r Suc.prems(2) by (cases "n = 0") auto
qed

subsection \<open>Queries\<close>

text \<open>
  All queries follow one code down the levels: \<^verbatim>\<open>spos\<close> is where the block of that code starts,
  and the part of the block that stems from the first \<^verbatim>\<open>i\<close> symbols lies right behind it.
\<close>

fun spos :: "nat \<Rightarrow> nat list \<Rightarrow> nat \<Rightarrow> nat \<Rightarrow> nat" where
  "spos B v c 0 = 0"
| "spos B v c (Suc d) = (if uint2bit B c d then zeros B v d else 0) +
    length [x \<leftarrow> take (spos B v c d) (level B v d). uint2bit B x d = uint2bit B c d]"

definition same :: "nat \<Rightarrow> nat list \<Rightarrow> nat \<Rightarrow> nat \<Rightarrow> nat \<Rightarrow> nat list" where
  "same B v c d i = [x \<leftarrow> take i v. pre B d x = pre B d c]"

lemma same_Suc: "d < B \<Longrightarrow> same B v c (Suc d) i = [x \<leftarrow> same B v c d i. uint2bit B x d = uint2bit B c d]"
  by (auto simp: same_def pre_Suc intro!: filter_cong) presburger+

lemma level_Suc: "level B v (Suc d) = [x \<leftarrow> level B v d. uint2bit B x d = False] @ [x \<leftarrow> level B v d. uint2bit B x d = True]"
  by simp

lemma spos_window:
  assumes "codes_ok B v" "c < 2 ^ B" "d \<le> B"
  shows "\<exists>ys. level B v d = take (spos B v c d) (level B v d) @ same B v c d i @ ys"
    and "spos B v c d + length (same B v c d i) \<le> length v"
proof -
  show ex: "\<exists>ys. level B v d = take (spos B v c d) (level B v d) @ same B v c d i @ ys"
    using assms(3)
  proof (induction d)
    case 0
    have "same B v c 0 i = take i v"
      using assms by (auto simp: same_def filter_id_conv codes_ok_def pre_0 dest: in_set_takeD)
    then show ?case by (metis append_take_drop_id append_Nil level.simps(1) spos.simps(1) take_0)
  next
    case (Suc d)
    let ?L = "level B v d" and ?s = "spos B v c d" and ?b = "uint2bit B c d"
    obtain ys where ys: "?L = take ?s ?L @ same B v c d i @ ys" using Suc by auto
    define xs where "xs = take ?s ?L"
    have f: "[x \<leftarrow> ?L. uint2bit B x d = ?b] = [x \<leftarrow> xs. uint2bit B x d = ?b] @ same B v c (Suc d) i @ [x \<leftarrow> ys. uint2bit B x d = ?b]"
      using Suc.prems by (subst ys) (simp add: xs_def same_Suc)
    show ?case
    proof (cases ?b)
      case True
      then show ?thesis
        using f unfolding level_Suc spos.simps xs_def [symmetric] by auto
    next
      case False
      then show ?thesis
        using f unfolding level_Suc spos.simps xs_def [symmetric] by auto
    qed
  qed
  have s: "spos B v c d \<le> length v" for d
  proof (induction d)
    case (Suc d)
    have "length [x \<leftarrow> take (spos B v c d) (level B v d). uint2bit B x d = True] \<le> length [x \<leftarrow> level B v d. uint2bit B x d = True]"
      by (metis append_take_drop_id filter_append le_add1 length_append)
    moreover have "zeros B v d + length [x \<leftarrow> level B v d. uint2bit B x d] = length v"
      using sum_length_filter_compl [of "\<lambda>x. uint2bit B x d" "level B v d"] by simp
    moreover have "length [x \<leftarrow> take (spos B v c d) (level B v d). \<not> uint2bit B x d] \<le> length v"
      by (rule le_trans [OF length_filter_le]) simp
    ultimately show ?case by auto
  qed simp
  obtain ys where "level B v d = take (spos B v c d) (level B v d) @ same B v c d i @ ys" using ex by blast
  then have "length (level B v d) = length (take (spos B v c d) (level B v d) @ same B v c d i @ ys)" by simp
  then show "spos B v c d + length (same B v c d i) \<le> length v" using s [of d] by simp
qed

lemma spos_bstart:
  assumes "codes_ok B v" "c \<in> set v" "d \<le> B"
  shows "bstart B v d (pre B d c) = spos B v c d"
  using assms(3)
proof (induction d)
  case 0
  have "pre B 0 c = 0" "v \<noteq> []" using assms by (auto simp: codes_ok_def pre_0)
  then show ?case by (simp add: bstart_def)
next
  case (Suc d)
  let ?p = "pre B d c" and ?b = "uint2bit B c d"
  have d: "d < B" using Suc.prems by simp
  have p: "?p \<in> set (prefixes B v d)"
    using assms d by (auto simp: set_prefixes grp_def filter_empty_conv)
  obtain xs ys where xs: "prefixes B v d = xs @ ?p # ys"
      "bstart B v d ?p = length (concat (map (grp B v d) xs))"
      "level B v d = concat (map (grp B v d) xs) @ grp B v d ?p @ concat (map (grp B v d) ys)"
    using level_split [OF assms(1) less_imp_le [OF d] p] by metis
  have t: "take (spos B v c d) (level B v d) = concat (map (grp B v d) xs)"
    using Suc d xs(2) by (subst xs(3)) simp
  have ne: "bit_grp B v d ?p ?b \<noteq> []"
    using assms(2) by (auto simp: bit_grp_def grp_def filter_empty_conv)
  show ?case
  proof (cases ?b)
    case True
    then show ?thesis
      using bstart_Suc(2) [OF assms(1) d xs(1)] ne t by (simp add: pre_Suc [OF d] concat_map_bit_grp)
  next
    case False
    then show ?thesis
      using bstart_Suc(1) [OF assms(1) d xs(1)] ne t by (simp add: pre_Suc [OF d] concat_map_bit_grp)
  qed
qed

text \<open>What a built matrix promises about the symbols it was built from.\<close>

definition wm_repr :: "WaveletMatrix \<Rightarrow> nat list \<Rightarrow> bool" where
  "wm_repr wm v \<longleftrightarrow> (let B = wm_bitsize wm in 0 < B \<and> codes_ok B v \<and> wm_levels B v B wm
    \<and> obj_ok (wm_range wm)
    \<and> (\<forall>c \<in> set v. obj_get (wm_range wm) c = Some (spos B v c B))
    \<and> (\<forall>c r. obj_get (wm_range wm) c = Some r \<longrightarrow> c < 2 ^ B \<and> r = spos B v c B))"

lemma wm_repr_vector:
  assumes "wm_repr wm v" "d < wm_bitsize wm"
  shows "js_at (wm_bv wm) d = Inr (wm_bv wm ! d)"
    and "level_vector (wm_bitsize wm) v d (wm_bv wm ! d)"
    and "wm_seps wm ! d = zeros (wm_bitsize wm) v d"
  using assms by (auto simp: wm_repr_def wm_levels_def Let_def)

lemma wm_repr_size: "wm_repr wm v \<Longrightarrow> wm_size wm = length v"
  by (simp add: wm_repr_def wm_levels_def Let_def)

lemma wm_repr_codes: "wm_repr wm v \<Longrightarrow> codes_ok (wm_bitsize wm) v"
  by (simp add: wm_repr_def Let_def)

lemma wm_repr_range:
  "wm_repr wm v \<Longrightarrow> c \<in> set v \<Longrightarrow> obj_get (wm_range wm) c = Some (spos (wm_bitsize wm) v c (wm_bitsize wm))"
  "wm_repr wm v \<Longrightarrow> obj_get (wm_range wm) c = Some r \<Longrightarrow>
    c < 2 ^ wm_bitsize wm \<and> r = spos (wm_bitsize wm) v c (wm_bitsize wm)"
  unfolding wm_repr_def Let_def by blast+

text \<open>One rank query at level \<^verbatim>\<open>d\<close> from the end of the window of \<^verbatim>\<open>c\<close>.\<close>

lemma window_rank:
  assumes "wm_repr wm v" "d < wm_bitsize wm" "c < 2 ^ wm_bitsize wm"
  shows "BitVector_rank (wm_bv wm ! d) (spos (wm_bitsize wm) v c d + length (same (wm_bitsize wm) v c d i)) b
    = Inr (length [x \<leftarrow> take (spos (wm_bitsize wm) v c d) (level (wm_bitsize wm) v d). uint2bit (wm_bitsize wm) x d = b]
        + length [x \<leftarrow> same (wm_bitsize wm) v c d i. uint2bit (wm_bitsize wm) x d = b])"
proof -
  let ?B = "wm_bitsize wm"
  let ?s = "spos ?B v c d" and ?W = "same ?B v c d i"
  note w = spos_window [OF wm_repr_codes [OF assms(1)] assms(3) less_imp_le [OF assms(2)]]
  obtain ys where ys: "level ?B v d = take ?s (level ?B v d) @ ?W @ ys" using w(1) by blast
  have "?s \<le> length (level ?B v d)" using w(2) [of i] by simp
  then have "take (?s + length ?W) (level ?B v d) = take ?s (level ?B v d) @ ?W"
    by (subst ys) simp
  then show ?thesis
    using level_vector_rank [OF wm_repr_vector(2) [OF assms(1,2)] w(2)] by simp
qed

lemma rank_loop_spec:
  assumes "wm_repr wm v" "c < 2 ^ wm_bitsize wm" "d + n = wm_bitsize wm"
  shows "rank_loop wm c d n (spos (wm_bitsize wm) v c d + length (same (wm_bitsize wm) v c d i))
    = Inr (spos (wm_bitsize wm) v c (wm_bitsize wm) + length (same (wm_bitsize wm) v c (wm_bitsize wm) i))"
  using assms(3)
proof (induction n arbitrary: d)
  case (Suc n)
  have d: "d < wm_bitsize wm" using Suc.prems by simp
  show ?case
    using Suc.IH [of "Suc d"] Suc.prems window_rank [OF assms(1) d assms(2)] wm_repr_vector [OF assms(1) d]
    by (cases "uint2bit (wm_bitsize wm) c d") (simp_all add: Let_def same_Suc [OF d] ac_simps)
qed simp

lemma filter_eq_replicate: "[x \<leftarrow> xs. x = c] = replicate (count_list xs c) c"
  by (induction xs) auto

lemma same_full: "same B v c B i = replicate (rank_list v c i) c"
  unfolding same_def pre_full by (rule filter_eq_replicate)

theorem WaveletMatrix_rank_spec:
  assumes "wm_repr wm v" "i \<le> length v"
  shows "WaveletMatrix_rank wm i c = Inr (rank_list v c i)"
proof (cases "obj_get (wm_range wm) c")
  case None
  then have "c \<notin> set v" using wm_repr_range(1) [OF assms(1), of c] by (cases "c \<in> set v") simp_all
  then have "c \<notin> set (take i v)" by (auto dest: in_set_takeD)
  then have "rank_list v c i = 0" by (simp add: count_list_0_iff)
  then show ?thesis using None assms by (simp add: WaveletMatrix_rank_def wm_repr_size)
next
  case (Some r)
  let ?B = "wm_bitsize wm"
  have c: "c < 2 ^ ?B" and r: "r = spos ?B v c ?B" using wm_repr_range(2) [OF assms(1) Some] by simp_all
  have "same ?B v c 0 i = take i v"
    using wm_repr_codes [OF assms(1)] c by (auto simp: same_def filter_id_conv codes_ok_def pre_0 dest: in_set_takeD)
  then have "rank_loop wm c 0 ?B i = Inr (r + rank_list v c i)"
    using rank_loop_spec [OF assms(1) c, of 0 ?B i] assms(2) by (simp add: same_full r min_absorb2)
  then show ?thesis using Some assms by (simp add: WaveletMatrix_rank_def wm_repr_size)
qed

lemma nth_filter_rank: "i < length xs \<Longrightarrow> P (xs ! i) \<Longrightarrow> filter P xs ! length (filter P (take i xs)) = xs ! i
    \<and> length (filter P (take i xs)) < length (filter P xs)"
proof -
  assume i: "i < length xs" and P: "P (xs ! i)"
  have "filter P xs = filter P (take i xs) @ xs ! i # filter P (drop (Suc i) xs)"
    using id_take_nth_drop [OF i] P by (metis filter.simps(2) filter_append)
  then show ?thesis by (simp add: nth_append)
qed

lemma level_step:
  fixes B d :: nat
  assumes "i < length v"
  defines "x \<equiv> level B v d ! i"
  defines "j \<equiv> length [y \<leftarrow> take i (level B v d). uint2bit B y d = uint2bit B x d]"
  defines "k \<equiv> (if uint2bit B x d then j + zeros B v d else j)"
  shows "k < length v \<and> level B v (Suc d) ! k = x"
proof -
  have n: "length (filter (\<lambda>y. \<not> uint2bit B y d) (level B v d)) + length (filter (\<lambda>y. uint2bit B y d) (level B v d)) = length v"
    using sum_length_filter_compl [of "\<lambda>y. uint2bit B y d" "level B v d"] by simp
  have "i < length (level B v d)" using assms(1) by simp
  note f = nth_filter_rank [OF this, of "\<lambda>y. uint2bit B y d = uint2bit B x d", folded x_def j_def]
  show ?thesis
    using f n unfolding k_def by (cases "uint2bit B x d") (auto simp: nth_append)
qed

lemma get_loop_spec:
  assumes "wm_repr wm v" "d + n = wm_bitsize wm" "i < length v"
  shows "get_loop wm d n i (pre (wm_bitsize wm) d (level (wm_bitsize wm) v d ! i)) = Inr (level (wm_bitsize wm) v d ! i)"
  using assms(2,3)
proof (induction n arbitrary: d i)
  case 0
  then show ?case by simp
next
  case (Suc n)
  let ?B = "wm_bitsize wm"
  define x where "x = level ?B v d ! i"
  have d: "d < ?B" using Suc.prems by simp
  note V = wm_repr_vector [OF assms(1) d]
  have get: "BitVector_get (wm_bv wm ! d) i = Inr (uint2bit ?B x d)"
    using V(2) Suc.prems bv.get_law [of "wm_bv wm ! d" i] by (simp add: level_vector_def x_def)
  note rank = level_vector_rank [OF V(2) less_imp_le [OF Suc.prems(2)], of "uint2bit ?B x d"]
  note step = level_step [OF Suc.prems(2), of ?B d, folded x_def]
  note IH = Suc.IH [of "Suc d", OF _ conjunct1 [OF step]]
  show ?case
    using IH step Suc.prems(1) get rank V
    by (cases "uint2bit ?B x d") (simp_all add: x_def [symmetric] pre_Suc [OF d] del: level.simps)
qed

theorem WaveletMatrix_get_spec:
  assumes "wm_repr wm v" "i < length v"
  shows "WaveletMatrix_get wm i = Inr (v ! i)"
proof -
  have "pre (wm_bitsize wm) 0 (v ! i) = 0"
    using wm_repr_codes [OF assms(1)] assms(2) by (simp add: codes_ok_def pre_0)
  then show ?thesis
    using get_loop_spec [OF assms(1), of 0 "wm_bitsize wm" i] assms
    by (simp add: WaveletMatrix_get_def wm_repr_size)
qed

definition below :: "nat \<Rightarrow> nat list \<Rightarrow> nat \<Rightarrow> nat \<Rightarrow> nat \<Rightarrow> nat" where
  "below B v c d i = length [x \<leftarrow> take i v. pre B d x < pre B d c]"

lemma below_Suc:
  assumes "d < B"
  shows "below B v c (Suc d) i = below B v c d i +
    (if uint2bit B c d then length [x \<leftarrow> same B v c d i. \<not> uint2bit B x d] else 0)"
proof -
  have lt: "pre B (Suc d) x < pre B (Suc d) c \<longleftrightarrow>
      pre B d x < pre B d c \<or> (pre B d x = pre B d c \<and> uint2bit B c d \<and> \<not> uint2bit B x d)" for x
    by (auto simp: pre_Suc [OF assms])
  show ?thesis
    unfolding below_def lt same_def
    by (subst length_filter_disj) (auto simp: conj_commute)
qed

lemma rank_less_than_loop_spec:
  assumes "wm_repr wm v" "c < 2 ^ wm_bitsize wm" "d + n = wm_bitsize wm"
  shows "rank_less_than_loop wm c d n (spos (wm_bitsize wm) v c d)
      (spos (wm_bitsize wm) v c d + length (same (wm_bitsize wm) v c d i)) (below (wm_bitsize wm) v c d i)
    = Inr (below (wm_bitsize wm) v c (wm_bitsize wm) i)"
  using assms(3)
proof (induction n arbitrary: d)
  case (Suc n)
  let ?B = "wm_bitsize wm"
  have d: "d < ?B" using Suc.prems by simp
  let ?s = "spos ?B v c d" and ?W = "same ?B v c d i" and ?L = "level ?B v d"
  let ?r = "\<lambda>b. length [x \<leftarrow> take ?s ?L. uint2bit ?B x d = b]" and ?w = "\<lambda>b. length [x \<leftarrow> ?W. uint2bit ?B x d = b]"
  have le: "?s \<le> length ?L" using spos_window(2) [OF wm_repr_codes [OF assms(1)] assms(2) less_imp_le [OF d], of 0] by simp
  have s: "?r False + ?r True = ?s" using le sum_length_filter_compl [of "\<lambda>x. uint2bit ?B x d" "take ?s ?L"] by simp
  have w: "?w False + ?w True = length ?W" using sum_length_filter_compl [of "\<lambda>x. uint2bit ?B x d" ?W] by simp
  have r0: "BitVector_rank (wm_bv wm ! d) ?s False = Inr (?r False)"
    using window_rank [OF assms(1) d assms(2), of 0 False] by (simp add: same_def)
  note r1 = window_rank [OF assms(1) d assms(2), of i False]
  have b: "?s + zeros ?B v d - ?r False = zeros ?B v d + ?r True"
    "?s + length ?W + zeros ?B v d - (?r False + ?w False) = zeros ?B v d + ?r True + ?w True"
    using s w by linarith+
  note V = wm_repr_vector [OF assms(1) d]
  show ?case
  proof (cases "uint2bit ?B c d")
    case True
    have "rank_less_than_loop wm c d (Suc n) ?s (?s + length ?W) (below ?B v c d i)
      = rank_less_than_loop wm c (Suc d) n (spos ?B v c (Suc d)) (spos ?B v c (Suc d) + length (same ?B v c (Suc d) i))
          (below ?B v c (Suc d) i)"
      using r0 r1 V b True by (simp add: same_Suc [OF d] below_Suc [OF d])
    then show ?thesis using Suc.IH [of "Suc d"] Suc.prems by simp
  next
    case False
    have "rank_less_than_loop wm c d (Suc n) ?s (?s + length ?W) (below ?B v c d i)
      = rank_less_than_loop wm c (Suc d) n (spos ?B v c (Suc d)) (spos ?B v c (Suc d) + length (same ?B v c (Suc d) i))
          (below ?B v c (Suc d) i)"
      using r0 r1 V False by (simp add: same_Suc [OF d] below_Suc [OF d])
    then show ?thesis using Suc.IH [of "Suc d"] Suc.prems by simp
  qed
qed simp

theorem WaveletMatrix_rank_less_than_spec:
  assumes "wm_repr wm v" "i \<le> length v" "c < 2 ^ wm_bitsize wm"
  shows "WaveletMatrix_rank_less_than wm i c = Inr (length [x \<leftarrow> take i v. x < c])"
proof -
  let ?B = "wm_bitsize wm"
  have small: "\<And>x. x \<in> set (take i v) \<Longrightarrow> pre ?B 0 x = 0"
    using wm_repr_codes [OF assms(1)] by (auto simp: codes_ok_def pre_0 dest: in_set_takeD)
  then have "same ?B v c 0 i = take i v" "below ?B v c 0 i = 0"
    using assms(3) by (auto simp: same_def below_def filter_id_conv filter_empty_conv pre_0)
  then have "rank_less_than_loop wm c 0 ?B 0 i 0 = Inr (below ?B v c ?B i)"
    using rank_less_than_loop_spec [OF assms(1,3), of 0 ?B i] assms(2) by (simp add: min_absorb2)
  then show ?thesis
    using assms by (simp add: WaveletMatrix_rank_less_than_def wm_repr_size below_def)
qed

subsection \<open>A built matrix represents its input\<close>

lemma spos_1: "0 < B \<Longrightarrow> spos B v c 1 = (if uint2bit B c 0 then zeros B v 0 else 0)"
  by simp

lemma WaveletMatrix_build_repr:
  assumes "codes_ok (wm_bitsize wm) v" "0 < wm_bitsize wm" and "wm_range wm = [] \<or> 2 \<le> wm_bitsize wm"
    and "obj_ok (wm_range wm)"
  obtains wm' where "WaveletMatrix_build wm v = Inr wm'" "wm_repr wm' v" "wm_bitsize wm' = wm_bitsize wm"
proof -
  let ?B = "wm_bitsize wm"
  define f where "f = fill_first ?B v 0 BitVector_new"
  have f: "bits_of f = map (\<lambda>c. uint2bit ?B c 0) v" "bv_inv f" "bv_r f = []"
    using fill_first_spec [of BitVector_new 0 ?B v] bits_of_new by (simp_all add: f_def BitVector_new_def)
  have L: "level_vector ?B v 0 (BitVector_build f)" using f by (intro BitVector_build_level_vector) simp_all
  define wm1 where "wm1 = wm\<lparr>wm_size := length v, wm_bv := (replicate ?B BitVector_new)[0 := BitVector_build f],
      wm_seps := (replicate ?B 0)[0 := zeros ?B v 0],
      wm_range := obj_set 1 (zeros ?B v 0) (obj_set 0 0 (wm_range wm))\<rparr>"
  have build: "WaveletMatrix_build wm v = build_levels v 1 (?B - 1) wm1"
    using assms(2) level_vector_zeros [OF L] by (simp add: WaveletMatrix_build_def Let_def wm1_def f_def)
  have lv: "wm_levels ?B v 1 wm1"
    using L assms(2) by (auto simp: wm_levels_def wm1_def nth_list_update)
  have s1: "obj_get (wm_range wm1) p = Some (spos ?B v c 1)" if "p = pre ?B 1 c" "c < 2 ^ ?B" for p c
    using pre_Suc [OF assms(2), of c] that assms(2) by (auto simp: wm1_def obj_get_set spos_1 pre_0)
  have rng: "wm_ranges ?B v 1 (wm_range wm1)"
  proof -
    have "obj_get (wm_range wm1) p = Some (bstart ?B v 1 p)" if "p \<in> set (prefixes ?B v 1)" for p
    proof -
      have "grp ?B v 1 p \<noteq> []" using that set_prefixes [OF assms(1), of 1 p] assms(2) by simp
      then obtain c where "c \<in> set v" "pre ?B 1 c = p" by (auto simp: grp_def filter_empty_conv)
      then show ?thesis using s1 [of p c] spos_bstart [OF assms(1), of c 1] assms(1,2) by (simp add: codes_ok_def)
    qed
    then show ?thesis using assms(4) by (simp add: wm_ranges_def wm1_def obj_ok_set)
  qed
  from build_levels_spec [OF assms(1) _ _ lv rng, of "?B - 1"] assms(2)
  obtain wm' where wm': "build_levels v 1 (?B - 1) wm1 = Inr wm'" "wm_levels ?B v ?B wm'"
    "if ?B - 1 = 0 then wm' = wm1 else obj_ok (wm_range wm') \<and>
       (\<forall>c. obj_get (wm_range wm') c = (if c \<in> set v then Some (bstart ?B v ?B c) else None))"
    by auto
  have B: "wm_bitsize wm' = ?B" using wm'(2) by (simp add: wm_levels_def)
  have ranges: "obj_ok (wm_range wm') \<and> (\<forall>c \<in> set v. obj_get (wm_range wm') c = Some (spos ?B v c ?B))
    \<and> (\<forall>c r. obj_get (wm_range wm') c = Some r \<longrightarrow> c < 2 ^ ?B \<and> r = spos ?B v c ?B)"
  proof (cases "?B = 1")
    case True
    have one: "obj_get (wm_range wm1) c = Some (spos 1 v c 1)" if "c < 2" for c
      using s1 [of c c] that True by simp
    have "c < 2" if "obj_get (wm_range wm1) c \<noteq> None" for c
      using that assms(3) True by (auto simp: wm1_def obj_get_set obj_get_def split: if_splits)
    then have "\<forall>c r. obj_get (wm_range wm1) c = Some r \<longrightarrow> c < 2 \<and> r = spos 1 v c 1"
      using one by (metis option.distinct(1) option.inject)
    moreover have "\<forall>c \<in> set v. obj_get (wm_range wm1) c = Some (spos 1 v c 1)"
      using one assms(1) True by (simp add: codes_ok_def)
    moreover have "obj_ok (wm_range wm1)" using rng by (simp add: wm_ranges_def)
    ultimately show ?thesis using wm'(3) True by (simp only: power_one_right diff_self_eq_0 if_True)
  next
    case False
    then show ?thesis
      using wm'(3) assms(1,2) spos_bstart [OF assms(1), of _ ?B] by (auto simp: codes_ok_def split: if_splits)
  qed
  have "wm_repr wm' v"
    using wm'(2) assms(1,2) ranges unfolding wm_repr_def Let_def B by blast
  then show thesis using that wm'(1) B by (simp add: build)
qed

subsection \<open>The contract of a symbol sequence\<close>

lemma sort_three_way:
  fixes c :: "'a::linorder"
  shows "sort v = sort [x \<leftarrow> v. x < c] @ [x \<leftarrow> v. x = c] @ sort [x \<leftarrow> v. x > c]"
proof (rule properties_for_sort)
  show "mset (sort [x \<leftarrow> v. x < c] @ [x \<leftarrow> v. x = c] @ sort [x \<leftarrow> v. x > c]) = mset v"
    by (induction v) auto
  show "sorted (sort [x \<leftarrow> v. x < c] @ [x \<leftarrow> v. x = c] @ sort [x \<leftarrow> v. x > c])"
    by (auto simp: sorted_append filter_eq_replicate)
qed

text \<open>
  What the FM-index relies on: a sequence of codes with access, rank of a code in a prefix, and
  the number of smaller codes in a prefix.
\<close>

locale symbol_sequence =
  fixes repr :: "'s \<Rightarrow> nat list \<Rightarrow> bool" and width :: "'s \<Rightarrow> nat"
    and get_op :: "'s \<Rightarrow> nat \<Rightarrow> nat js"
    and rank_op :: "'s \<Rightarrow> nat \<Rightarrow> nat \<Rightarrow> nat js"
    and rank_less_op :: "'s \<Rightarrow> nat \<Rightarrow> nat \<Rightarrow> nat js"
  assumes width_law: "repr s v \<Longrightarrow> x \<in> set v \<Longrightarrow> x < 2 ^ width s"
    and get_law: "repr s v \<Longrightarrow> i < length v \<Longrightarrow> get_op s i = Inr (v ! i)"
    and rank_law: "repr s v \<Longrightarrow> i \<le> length v \<Longrightarrow> rank_op s i c = Inr (rank_list v c i)"
    and rank_less_law: "repr s v \<Longrightarrow> i \<le> length v \<Longrightarrow> c < 2 ^ width s \<Longrightarrow>
      rank_less_op s i c = Inr (length [x \<leftarrow> take i v. x < c])"
begin

text \<open>Ranks of a code and of the smaller codes place every occurrence in the sorted sequence.\<close>

lemma sorted_position:
  assumes s: "repr s v" and i: "i < length v"
  shows "\<exists>l r. rank_less_op s (length v) (v ! i) = Inr l \<and> rank_op s i (v ! i) = Inr r
    \<and> l + r < length v \<and> sort v ! (l + r) = v ! i"
proof -
  let ?c = "v ! i"
  let ?l = "length [x \<leftarrow> v. x < ?c]" and ?r = "rank_list v ?c i"
  have c: "?c < 2 ^ width s" using width_law [OF s] i by simp
  have split: "sort v = sort [x \<leftarrow> v. x < ?c] @ [x \<leftarrow> v. x = ?c] @ sort [x \<leftarrow> v. x > ?c]"
    by (rule sort_three_way)
  have "?r < length [x \<leftarrow> v. x = ?c]"
  proof -
    have "rank_list v ?c (Suc i) = ?r + 1" using i by (simp add: rank_list_Suc)
    moreover have "rank_list v ?c (Suc i) \<le> count_list v ?c" by (rule rank_list_le_count)
    moreover have "count_list v ?c = length [x \<leftarrow> v. x = ?c]" by (simp add: filter_eq_replicate)
    ultimately show ?thesis by simp
  qed
  then have "sort v ! (?l + ?r) = [x \<leftarrow> v. x = ?c] ! ?r" "?l + ?r < length (sort v)"
    by (simp_all only: split nth_append) (simp_all add: nth_append)
  moreover have "[x \<leftarrow> v. x = ?c] ! ?r = ?c"
    using nth_mem [OF \<open>?r < length [x \<leftarrow> v. x = ?c]\<close>] by simp
  ultimately show ?thesis
    using rank_law [OF s, of i ?c] rank_less_law [OF s _ c, of "length v"] i by simp
qed

end

interpretation wm: symbol_sequence wm_repr wm_bitsize WaveletMatrix_get WaveletMatrix_rank WaveletMatrix_rank_less_than
proof unfold_locales
  fix s v x i c
  assume s: "wm_repr s v"
  show "x \<in> set v \<Longrightarrow> x < 2 ^ wm_bitsize s" using wm_repr_codes [OF s] by (simp add: codes_ok_def)
  show "i < length v \<Longrightarrow> WaveletMatrix_get s i = Inr (v ! i)" by (rule WaveletMatrix_get_spec [OF s])
  show "i \<le> length v \<Longrightarrow> WaveletMatrix_rank s i c = Inr (rank_list v c i)" by (rule WaveletMatrix_rank_spec [OF s])
  show "i \<le> length v \<Longrightarrow> c < 2 ^ wm_bitsize s \<Longrightarrow>
      WaveletMatrix_rank_less_than s i c = Inr (length [x \<leftarrow> take i v. x < c])"
    by (rule WaveletMatrix_rank_less_than_spec [OF s])
qed

subsection \<open>Matrices made by the public operations\<close>

lemma ceil_log2_upper: "n \<le> 2 ^ ceil_log2 n"
proof (induction n rule: ceil_log2.induct)
  case (1 n)
  show ?case
  proof (cases "n \<le> 1")
    case False
    then have "(n + 1) div 2 \<le> 2 ^ ceil_log2 ((n + 1) div 2)" by (rule "1.IH")
    then have "n \<le> 2 * 2 ^ ceil_log2 ((n + 1) div 2)" by linarith
    then show ?thesis using False by (simp add: ceil_log2.simps [of n])
  qed (simp add: ceil_log2.simps [of n])
qed

lemma ceil_log2_pos: "2 \<le> n \<Longrightarrow> 0 < ceil_log2 n"
  by (simp add: ceil_log2.simps [of n])

lemma ceil_log2_lower: "2 \<le> n \<Longrightarrow> 2 ^ (ceil_log2 n - 1) < n"
proof (induction n rule: ceil_log2.induct)
  case (1 n)
  show ?case
  proof (cases "n = 2")
    case False
    let ?m = "(n + 1) div 2"
    have m: "2 \<le> ?m" using "1.prems" False by simp
    have n: "\<not> n \<le> 1" using "1.prems" by simp
    have IH: "2 ^ (ceil_log2 ?m - 1) < ?m" by (rule "1.IH" [OF n m])
    have "0 < ceil_log2 ?m" using m by (rule ceil_log2_pos)
    then have "2 ^ ceil_log2 ?m = 2 * 2 ^ (ceil_log2 ?m - 1)" by (metis Suc_pred' power_Suc)
    also have "\<dots> < n" using IH by linarith
    finally show ?thesis using n by (simp add: ceil_log2.simps [of n])
  qed (simp add: ceil_log2.simps)
qed

lemma fresh_matrix:
  assumes "2 \<le> m" and "\<forall>c \<in> set v. c < m"
  obtains wm where "WaveletMatrix_build (WaveletMatrix_setMaxCharCode WaveletMatrix_new m) v = Inr wm"
    and "wm_repr wm v" and "wm_bitsize wm = ceil_log2 m" and "wm_size wm = length v"
proof -
  let ?w = "WaveletMatrix_setMaxCharCode WaveletMatrix_new m"
  have w: "wm_bitsize ?w = ceil_log2 m" "wm_range ?w = []"
    by (simp_all add: WaveletMatrix_setMaxCharCode_def WaveletMatrix_new_def)
  have "0 < ceil_log2 m" using assms(1) by (rule ceil_log2_pos)
  moreover have "codes_ok (ceil_log2 m) v"
    using assms(2) ceil_log2_upper [of m] unfolding codes_ok_def by (meson order_less_le_trans)
  ultimately obtain wm where "WaveletMatrix_build ?w v = Inr wm" "wm_repr wm v" "wm_bitsize wm = ceil_log2 m"
    using WaveletMatrix_build_repr [of ?w v] w by auto
  then show thesis using that wm_repr_size by blast
qed

text \<open>
  A matrix built from a text whose codes are all below the declared maximal code returns, at
  every position, the code that was there: the path through the levels is invertible; positions
  past the end throw.
\<close>

theorem WaveletMatrix_get_correct:
  assumes "2 \<le> m" and "\<forall>c \<in> set v. c < m"
  shows "js_bind (WaveletMatrix_build (WaveletMatrix_setMaxCharCode WaveletMatrix_new m) v) (\<lambda>wm. WaveletMatrix_get wm i)
    = (if i < length v then Inr (v ! i) else Inl (Throw ''WaveletMatrix.get() : range error''))"
proof -
  obtain wm where "WaveletMatrix_build (WaveletMatrix_setMaxCharCode WaveletMatrix_new m) v = Inr wm"
    "wm_repr wm v" "wm_size wm = length v" using fresh_matrix [OF assms] by metis
  then show ?thesis using wm.get_law [of wm v i] by (simp add: WaveletMatrix_get_def)
qed

theorem WaveletMatrix_get_correct_witness:
  "js_bind (WaveletMatrix_build (WaveletMatrix_setMaxCharCode WaveletMatrix_new 6) [5, 0, 3, 5]) (\<lambda>wm. WaveletMatrix_get wm 2) = Inr 3"
  using WaveletMatrix_get_correct [of 6 "[5, 0, 3, 5]" 2] by simp

text \<open>
  C22.  On such a matrix \<^verbatim>\<open>rank(i, c)\<close> is the number of occurrences of the code \<^verbatim>\<open>c\<close>, whether it
  occurs in the text or not, among the first \<^verbatim>\<open>i\<close> positions; larger positions throw.
\<close>

theorem WaveletMatrix_rank_correct:
  assumes "2 \<le> m" and "\<forall>c \<in> set v. c < m"
  shows "js_bind (WaveletMatrix_build (WaveletMatrix_setMaxCharCode WaveletMatrix_new m) v) (\<lambda>wm. WaveletMatrix_rank wm i c)
    = (if i \<le> length v then Inr (rank_list v c i) else Inl (Throw ''WaveletMatrix.rank(): range error''))"
proof -
  obtain wm where "WaveletMatrix_build (WaveletMatrix_setMaxCharCode WaveletMatrix_new m) v = Inr wm"
    "wm_repr wm v" "wm_size wm = length v" using fresh_matrix [OF assms] by metis
  then show ?thesis using wm.rank_law [of wm v i c] by (simp add: WaveletMatrix_rank_def)
qed

theorem WaveletMatrix_rank_correct_witness:
  "js_bind (WaveletMatrix_build (WaveletMatrix_setMaxCharCode WaveletMatrix_new 6) [5, 0, 3, 5]) (\<lambda>wm. WaveletMatrix_rank wm 4 5) = Inr 2"
  using WaveletMatrix_rank_correct [of 6 "[5, 0, 3, 5]" 4 5] by simp

text \<open>
  \<^verbatim>\<open>rank_less_than(i, c)\<close> is the number of codes smaller than \<^verbatim>\<open>c\<close> among the first \<^verbatim>\<open>i\<close>
  positions, for every \<^verbatim>\<open>c\<close> below the declared maximum.
\<close>

theorem WaveletMatrix_rank_less_than_correct:
  assumes "2 \<le> m" and "\<forall>c \<in> set v. c < m" and "c < m"
  shows "js_bind (WaveletMatrix_build (WaveletMatrix_setMaxCharCode WaveletMatrix_new m) v) (\<lambda>wm. WaveletMatrix_rank_less_than wm i c)
    = (if i \<le> length v then Inr (length [x \<leftarrow> take i v. x < c])
       else Inl (Throw ''WaveletMatrix.rank_less_than(): range error''))"
proof -
  obtain wm where "WaveletMatrix_build (WaveletMatrix_setMaxCharCode WaveletMatrix_new m) v = Inr wm"
    "wm_repr wm v" "wm_bitsize wm = ceil_log2 m" "wm_size wm = length v" using fresh_matrix [OF assms(1,2)] by metis
  moreover have "c < 2 ^ ceil_log2 m" using assms(3) ceil_log2_upper [of m] by simp
  ultimately show ?thesis
    using wm.rank_less_law [of wm v i c] by (simp add: WaveletMatrix_rank_less_than_def)
qed

theorem WaveletMatrix_rank_less_than_correct_witness:
  "js_bind (WaveletMatrix_build (WaveletMatrix_setMaxCharCode WaveletMatrix_new 6) [5, 0, 3, 5]) (\<lambda>wm. WaveletMatrix_rank_less_than wm 4 5) = Inr 2"
  using WaveletMatrix_rank_less_than_correct [of 6 "[5, 0, 3, 5]" 5 4] by simp

end
