(* ===== verification/Suffix_Array.thy ===== *)
theory Suffix_Array
  imports Bit_Vector
begin

text \<open>
  The classes \<^verbatim>\<open>OArray\<close>, \<^verbatim>\<open>SAIS\<close> and \<^verbatim>\<open>BurrowsWheelerTransform\<close>: suffix sorting by induced sorting
  and the transform read off the suffix array.

  \<^verbatim>\<open>SAIS._make\<close> keeps the names of the reduced problem in the back of the array \<^verbatim>\<open>SA\<close> it is filling
  and recurses on a view of it, so the sequence being sorted and the result share memory.  The
  model keeps that aliasing: an \<^verbatim>\<open>oarray\<close> is either the separate array of character codes or an
  offset into the current \<^verbatim>\<open>SA\<close>, and every read goes through the \<^verbatim>\<open>SA\<close> of that moment.
\<close>

section \<open>Suffix sorting\<close>

datatype oarray =
    Chars "nat list"
  | View nat

fun OArray_at :: "oarray \<Rightarrow> int list \<Rightarrow> nat \<Rightarrow> int option" where
  "OArray_at (Chars cs) SA i = (if i < length cs then Some (int (cs ! i)) else None)"
| "OArray_at (View offset) SA i = (if i + offset < length SA then Some (SA ! (i + offset)) else None)"

definition OArray_get :: "oarray \<Rightarrow> int list \<Rightarrow> nat \<Rightarrow> nat js" where
  "OArray_get s SA i = (case OArray_at s SA i of
     None \<Rightarrow> Inl Undef
   | Some x \<Rightarrow> if x < 0 then Inl Undef else Inr (nat x))"

definition OArray_set :: "nat \<Rightarrow> int list \<Rightarrow> nat \<Rightarrow> int \<Rightarrow> int list js" where
  "OArray_set offset SA index value = js_put SA (index + offset) value"

definition OArray_isS :: "oarray \<Rightarrow> int list \<Rightarrow> nat \<Rightarrow> bool" where
  "OArray_isS s SA index = (case (OArray_at s SA index, OArray_at s SA (index + 1)) of
     (Some a, Some b) \<Rightarrow> a < b | _ \<Rightarrow> False)"

definition OArray_compare :: "oarray \<Rightarrow> int list \<Rightarrow> nat \<Rightarrow> nat \<Rightarrow> bool" where
  "OArray_compare s SA index1 index2 = (OArray_at s SA index1 = OArray_at s SA index2)"

definition SAIS_isLMS :: "BitVector \<Rightarrow> nat \<Rightarrow> bool js" where
  "SAIS_isLMS t i =
    (if i = 0 then Inr False
     else js_bind (BitVector_get t i) (\<lambda>a.
       if \<not> a then Inr False else js_bind (BitVector_get t (i - 1)) (\<lambda>b. Inr (\<not> b))))"

definition bump :: "nat list \<Rightarrow> nat \<Rightarrow> nat list js" where
  "bump bkt x = js_bind (js_at bkt x) (\<lambda>b. js_put bkt x (b + 1))"

fun bucket_sums :: "bool \<Rightarrow> nat \<Rightarrow> nat list \<Rightarrow> nat list" where
  "bucket_sums end acc [] = []"
| "bucket_sums end acc (b # bs) = (if end then acc + b else acc) # bucket_sums end (acc + b) bs"

definition SAIS_getBuckets :: "oarray \<Rightarrow> int list \<Rightarrow> nat \<Rightarrow> nat \<Rightarrow> bool \<Rightarrow> nat list js" where
  "SAIS_getBuckets s SA n K end =
    js_bind (js_fold (\<lambda>bkt i. js_bind (OArray_get s SA i) (bump bkt)) (replicate (K + 1) 0) [0..<n])
      (\<lambda>bkt. Inr (bucket_sums end 0 bkt))"

text \<open>The writes \<^verbatim>\<open>SA[bkt[x]++] = j\<close> and \<^verbatim>\<open>SA[--bkt[x]] = j\<close>.\<close>

definition put_front :: "oarray \<Rightarrow> int list \<times> nat list \<Rightarrow> nat \<Rightarrow> (int list \<times> nat list) js" where
  "put_front s st j = (case st of (SA, bkt) \<Rightarrow>
    js_bind (OArray_get s SA j) (\<lambda>x.
    js_bind (js_at bkt x) (\<lambda>b.
    js_bind (js_put SA b (int j)) (\<lambda>SA. Inr (SA, bkt[x := b + 1])))))"

definition put_back :: "oarray \<Rightarrow> int list \<times> nat list \<Rightarrow> nat \<Rightarrow> (int list \<times> nat list) js" where
  "put_back s st j = (case st of (SA, bkt) \<Rightarrow>
    js_bind (OArray_get s SA j) (\<lambda>x.
    js_bind (js_at bkt x) (\<lambda>b.
    if b = 0 then Inl Undef
    else js_bind (js_put SA (b - 1) (int j)) (\<lambda>SA. Inr (SA, bkt[x := b - 1])))))"

definition SAIS_induceSAl :: "BitVector \<Rightarrow> int list \<Rightarrow> oarray \<Rightarrow> nat \<Rightarrow> nat \<Rightarrow> bool \<Rightarrow> int list js" where
  "SAIS_induceSAl t SA s n K end =
    js_bind (SAIS_getBuckets s SA n K end) (\<lambda>bkt.
    js_bind (js_fold (\<lambda>st i.
        js_bind (js_at (fst st) i) (\<lambda>x.
          let j = x - 1 in
          if j < 0 then Inr st
          else js_bind (BitVector_get t (nat j)) (\<lambda>b.
            if b then Inr st else put_front s st (nat j)))) (SA, bkt) [0..<n])
      (\<lambda>st. Inr (fst st)))"

definition SAIS_induceSAs :: "BitVector \<Rightarrow> int list \<Rightarrow> oarray \<Rightarrow> nat \<Rightarrow> nat \<Rightarrow> bool \<Rightarrow> int list js" where
  "SAIS_induceSAs t SA s n K end =
    js_bind (SAIS_getBuckets s SA n K end) (\<lambda>bkt.
    js_bind (js_fold (\<lambda>st i.
        js_bind (js_at (fst st) i) (\<lambda>x.
          let j = x - 1 in
          if j < 0 then Inr st
          else js_bind (BitVector_get t (nat j)) (\<lambda>b.
            if \<not> b then Inr st else put_back s st (nat j)))) (SA, bkt) (rev [0..<n]))
      (\<lambda>st. Inr (fst st)))"

text \<open>The steps of \<^verbatim>\<open>_make\<close>, in the order of the source.\<close>

definition classify :: "oarray \<Rightarrow> int list \<Rightarrow> nat \<Rightarrow> BitVector js" where
  "classify s SA n =
    (let t = BitVector_set BitVector_new (int n - 2) False;
         t = BitVector_set t (int n - 1) True
     in js_fold (\<lambda>t i.
          if OArray_isS s SA i then Inr (BitVector_set t (int i) True)
          else if OArray_compare s SA i (i + 1)
          then js_bind (BitVector_get t (i + 1)) (\<lambda>b. Inr (BitVector_set t (int i) b))
          else Inr (BitVector_set t (int i) False)) t (rev [0..<n - 2]))"

definition fill_from :: "int list \<Rightarrow> nat \<Rightarrow> nat \<Rightarrow> int list js" where
  "fill_from SA m n = js_fold (\<lambda>SA i. js_put SA i (- 1)) SA [m..<n]"

definition place_lms :: "BitVector \<Rightarrow> oarray \<Rightarrow> int list \<Rightarrow> nat list \<Rightarrow> nat \<Rightarrow> int list js" where
  "place_lms t s SA bkt n =
    js_bind (js_fold (\<lambda>st i. js_bind (SAIS_isLMS t i) (\<lambda>b. if b then put_back s st i else Inr st))
      (SA, bkt) [1..<n]) (\<lambda>st. Inr (fst st))"

definition collect_lms :: "BitVector \<Rightarrow> int list \<Rightarrow> nat \<Rightarrow> (int list \<times> nat) js" where
  "collect_lms t SA n =
    js_fold (\<lambda>(SA, n1) i.
      js_bind (js_at SA i) (\<lambda>x.
        if x \<le> 0 then Inr (SA, n1)
        else js_bind (SAIS_isLMS t (nat x)) (\<lambda>b.
          if b then js_bind (js_put SA n1 x) (\<lambda>SA. Inr (SA, n1 + 1)) else Inr (SA, n1)))) (SA, 0) [0..<n]"

function diff_lms :: "BitVector \<Rightarrow> oarray \<Rightarrow> int list \<Rightarrow> nat \<Rightarrow> nat \<Rightarrow> int \<Rightarrow> nat \<Rightarrow> bool js" where
  "diff_lms t s SA n pos prev d =
    (if d < n
     then if prev = - 1 then Inr True
       else if prev < 0 then Inl Undef
       else if \<not> OArray_compare s SA (pos + d) (nat prev + d) then Inr True
       else js_bind (BitVector_get t (pos + d)) (\<lambda>a.
            js_bind (BitVector_get t (nat prev + d)) (\<lambda>b.
              if a \<noteq> b then Inr True
              else if 0 < d
              then js_bind (SAIS_isLMS t (pos + d)) (\<lambda>a.
                   if a then Inr False
                   else js_bind (SAIS_isLMS t (nat prev + d)) (\<lambda>b.
                     if b then Inr False else diff_lms t s SA n pos prev (d + 1)))
              else diff_lms t s SA n pos prev (d + 1)))
     else Inr False)"
  by pat_completeness auto
termination
  by (relation "measure (\<lambda>(t, s, SA, n, pos, prev, d). n - d)") auto

declare diff_lms.simps [simp del]

definition name_lms :: "BitVector \<Rightarrow> oarray \<Rightarrow> int list \<Rightarrow> nat \<Rightarrow> nat \<Rightarrow> (int list \<times> nat) js" where
  "name_lms t s SA n n1 =
    js_bind (js_fold (\<lambda>(SA, name, prev) i.
      js_bind (js_at SA i) (\<lambda>pos.
        if pos < 0 then Inl Undef
        else js_bind (diff_lms t s SA n (nat pos) prev 0) (\<lambda>diff.
          let name = (if diff then name + 1 else name);
              prev = (if diff then pos else prev)
          in js_bind (js_put SA (n1 + nat pos div 2) (int name - 1)) (\<lambda>SA. Inr (SA, name, prev)))))
      (SA, 0, - 1) [0..<n1]) (\<lambda>(SA, name, prev). Inr (SA, name))"

definition pack_names :: "int list \<Rightarrow> nat \<Rightarrow> nat \<Rightarrow> int list js" where
  "pack_names SA n n1 =
    js_bind (js_fold (\<lambda>(SA, j) i.
      js_bind (js_at SA i) (\<lambda>x.
        if x < 0 then Inr (SA, j)
        else js_bind (js_put SA (j - 1) x) (\<lambda>SA. Inr (SA, j - 1)))) (SA, n) (rev [n1..<n]))
      (\<lambda>st. Inr (fst st))"

definition order_names :: "int list \<Rightarrow> nat \<Rightarrow> nat \<Rightarrow> int list js" where
  "order_names SA offset n1 =
    js_fold (\<lambda>SA i. js_bind (OArray_get (View offset) SA i) (\<lambda>x. js_put SA x (int i))) SA [0..<n1]"

definition list_lms :: "BitVector \<Rightarrow> int list \<Rightarrow> nat \<Rightarrow> nat \<Rightarrow> int list js" where
  "list_lms t SA offset n =
    js_bind (js_fold (\<lambda>(SA, j) i.
      js_bind (SAIS_isLMS t i) (\<lambda>b.
        if b then js_bind (OArray_set offset SA j (int i)) (\<lambda>SA. Inr (SA, j + 1)) else Inr (SA, j)))
      (SA, 0) [1..<n]) (\<lambda>st. Inr (fst st))"

definition lookup_lms :: "int list \<Rightarrow> nat \<Rightarrow> nat \<Rightarrow> int list js" where
  "lookup_lms SA offset n1 =
    js_fold (\<lambda>SA i. js_bind (js_at SA i) (\<lambda>x.
      if x < 0 then Inl Undef
      else js_bind (js_at SA (nat x + offset)) (\<lambda>y. js_put SA i y))) SA [0..<n1]"

definition place_sorted :: "oarray \<Rightarrow> int list \<Rightarrow> nat list \<Rightarrow> nat \<Rightarrow> int list js" where
  "place_sorted s SA bkt n1 =
    js_bind (js_fold (\<lambda>(SA, bkt) i.
      js_bind (js_at SA i) (\<lambda>j.
        if j < 0 then Inl Undef
        else js_bind (js_put SA i (- 1)) (\<lambda>SA. put_back s (SA, bkt) (nat j)))) (SA, bkt) (rev [0..<n1]))
      (\<lambda>st. Inr (fst st))"

text \<open>
  The recursion strictly shrinks the problem on every input it is meant for; the fuel makes the
  function total.
\<close>

fun SAIS_make_rec :: "nat \<Rightarrow> oarray \<Rightarrow> int list \<Rightarrow> nat \<Rightarrow> nat \<Rightarrow> int list js" where
  "SAIS_make_rec 0 s SA n K = Inl Diverge"
| "SAIS_make_rec (Suc fuel) s SA n K =
    js_bind (classify s SA n) (\<lambda>t.
    js_bind (SAIS_getBuckets s SA n K True) (\<lambda>bkt.
    js_bind (fill_from SA 0 n) (\<lambda>SA.
    js_bind (place_lms t s SA bkt n) (\<lambda>SA.
    js_bind (SAIS_induceSAl t SA s n K False) (\<lambda>SA.
    js_bind (SAIS_induceSAs t SA s n K True) (\<lambda>SA.
    js_bind (collect_lms t SA n) (\<lambda>(SA, n1).
    js_bind (fill_from SA n1 n) (\<lambda>SA.
    js_bind (name_lms t s SA n n1) (\<lambda>(SA, name).
    js_bind (pack_names SA n n1) (\<lambda>SA.
    js_bind (if name < n1 then SAIS_make_rec fuel (View (n - n1)) SA n1 (name - 1)
             else order_names SA (n - n1) n1) (\<lambda>SA.
    js_bind (SAIS_getBuckets s SA n K True) (\<lambda>bkt.
    js_bind (list_lms t SA (n - n1) n) (\<lambda>SA.
    js_bind (lookup_lms SA (n - n1) n1) (\<lambda>SA.
    js_bind (fill_from SA n1 n) (\<lambda>SA.
    js_bind (place_sorted s SA bkt n1) (\<lambda>SA.
    js_bind (SAIS_induceSAl t SA s n K False) (\<lambda>SA.
    SAIS_induceSAs t SA s n K True)))))))))))))))))"

definition SAIS_make :: "jsstring \<Rightarrow> int list js" where
  "SAIS_make source =
    SAIS_make_rec (length source + 1) (Chars source) (replicate (length source) 0) (length source)
      (foldl max 0 source)"

section \<open>The Burrows-Wheeler transform\<close>

record BurrowsWheelerTransform =
  bwt_str :: jsstring
  bwt_size :: nat
  bwt_head :: int
  bwt_suffixarray :: "int list"

definition BurrowsWheelerTransform_new :: BurrowsWheelerTransform where
  "BurrowsWheelerTransform_new = \<lparr>bwt_str = [], bwt_size = 0, bwt_head = 0, bwt_suffixarray = []\<rparr>"

definition BurrowsWheelerTransform_clear :: "BurrowsWheelerTransform \<Rightarrow> BurrowsWheelerTransform" where
  "BurrowsWheelerTransform_clear b =
    b\<lparr>bwt_str := [], bwt_size := 0, bwt_head := 0, bwt_suffixarray := []\<rparr>"

fun indexOf :: "int list \<Rightarrow> int \<Rightarrow> int" where
  "indexOf [] x = - 1"
| "indexOf (y # ys) x = (if y = x then 0 else let k = indexOf ys x in if k = - 1 then - 1 else k + 1)"

definition BurrowsWheelerTransform_build :: "BurrowsWheelerTransform \<Rightarrow> jsstring \<Rightarrow> BurrowsWheelerTransform js" where
  "BurrowsWheelerTransform_build b str =
    js_bind (SAIS_make str) (\<lambda>sa.
      Inr (b\<lparr>bwt_str := str, bwt_size := length str, bwt_suffixarray := sa, bwt_head := indexOf sa 0\<rparr>))"

text \<open>\<^verbatim>\<open>charAt\<close> of an index outside the string is the empty string; \<^verbatim>\<open>%\<close> keeps the sign of the dividend.\<close>

definition BurrowsWheelerTransform_getI :: "BurrowsWheelerTransform \<Rightarrow> nat \<Rightarrow> jsstring js" where
  "BurrowsWheelerTransform_getI b i =
    (let size = bwt_size b in
     if size \<le> i then Inl (Throw ''BurrowsWheelerTransform.get() : range error'')
     else js_bind (js_at (bwt_suffixarray b) i) (\<lambda>x.
       let y = x + int size - 1 in
       if y < 0 then Inl Undef
       else (let index = nat y mod size in
             Inr (if index < length (bwt_str b) then [bwt_str b ! index] else []))))"

definition BurrowsWheelerTransform_get :: "BurrowsWheelerTransform \<Rightarrow> jsstring js" where
  "BurrowsWheelerTransform_get b =
    js_fold (\<lambda>str i. js_bind (BurrowsWheelerTransform_getI b i) (\<lambda>c. Inr (str @ c))) [] [0..<bwt_size b]"

end
