(* ===== verification/Backward_Search.thy ===== *)
theory Backward_Search
  imports JS_Prelude
begin

text \<open>
  The specification behind the index: suffixes in lexicographic order, the suffix array of a text,
  its Burrows-Wheeler transform, and the two facts that make the index work.  Prepending a
  character to a bound in the sorted suffixes is one rank query on the transform (backward
  search), and applied to one row it leads to the row of the preceding position (last-to-first
  mapping).  A text is a list of codes that ends in a marker smaller than all others.
\<close>

section \<open>Sorted suffixes\<close>

fun lex_less :: "nat list \<Rightarrow> nat list \<Rightarrow> bool" where
  "lex_less xs [] = False"
| "lex_less [] (y # ys) = True"
| "lex_less (x # xs) (y # ys) = (x < y \<or> x = y \<and> lex_less xs ys)"

text \<open>A list is below all extensions of a key or starts with it.\<close>

fun leq_key :: "nat list \<Rightarrow> nat list \<Rightarrow> bool" where
  "leq_key xs [] = True"
| "leq_key [] (y # ys) = True"
| "leq_key (x # xs) (y # ys) = (x < y \<or> x = y \<and> leq_key xs ys)"

definition starts_with :: "nat list \<Rightarrow> nat list \<Rightarrow> bool" where
  "starts_with key xs \<longleftrightarrow> take (length key) xs = key"

lemma lex_less_irrefl [simp]: "\<not> lex_less xs xs"
  by (induction xs) auto

lemma lex_less_trans: "lex_less xs ys \<Longrightarrow> lex_less ys zs \<Longrightarrow> lex_less xs zs"
proof (induction xs ys arbitrary: zs rule: lex_less.induct)
  case (3 x xs y ys)
  then show ?case by (cases zs) auto
next
  case (2 y ys)
  then show ?case by (cases zs) auto
qed auto

lemma lex_less_asym: "lex_less xs ys \<Longrightarrow> \<not> lex_less ys xs"
  using lex_less_trans [of xs ys xs] by auto

lemma lex_total: "xs = ys \<or> lex_less xs ys \<or> lex_less ys xs"
proof (induction xs ys rule: lex_less.induct)
  case (1 xs)
  then show ?case by (cases xs) auto
qed auto

lemma lex_less_leq_key: "lex_less xs key \<Longrightarrow> leq_key xs key"
  by (induction xs key rule: lex_less.induct) auto

lemma leq_key_trans: "lex_less xs ys \<Longrightarrow> leq_key ys key \<Longrightarrow> leq_key xs key"
proof (induction xs ys arbitrary: key rule: lex_less.induct)
  case (3 x xs y ys)
  then show ?case by (cases key) auto
next
  case (2 y ys)
  then show ?case by (cases key) auto
qed auto

lemma starts_with_iff: "starts_with key xs \<longleftrightarrow> leq_key xs key \<and> \<not> lex_less xs key"
proof (induction xs key rule: leq_key.induct)
  case (3 x xs y ys)
  then show ?case by (auto simp: starts_with_def)
qed (auto simp: starts_with_def)

subsection \<open>Bounds in a sorted list\<close>

definition down_closed :: "('a \<Rightarrow> 'a \<Rightarrow> bool) \<Rightarrow> 'a list \<Rightarrow> ('a \<Rightarrow> bool) \<Rightarrow> bool" where
  "down_closed R xs P \<longleftrightarrow> (\<forall>x \<in> set xs. \<forall>y \<in> set xs. R x y \<longrightarrow> P y \<longrightarrow> P x)"

lemma sorted_wrt_split:
  assumes "sorted_wrt R xs" "down_closed R xs P"
  shows "xs = filter P xs @ filter (\<lambda>x. \<not> P x) xs"
  using assms
proof (induction xs)
  case (Cons x xs)
  then have IH: "xs = filter P xs @ filter (\<lambda>x. \<not> P x) xs" by (auto simp: down_closed_def)
  show ?case
  proof (cases "P x")
    case False
    then have "\<forall>y \<in> set xs. \<not> P y" using Cons.prems by (auto simp: down_closed_def)
    then show ?thesis using False by simp
  qed (use IH in simp)
qed simp

lemma take_bound:
  assumes "sorted_wrt R xs" "down_closed R xs P"
  shows "take (length (filter P xs)) xs = filter P xs"
  by (subst (2) sorted_wrt_split [OF assms]) simp

lemma drop_bound:
  assumes "sorted_wrt R xs" "down_closed R xs P"
  shows "drop (length (filter P xs)) xs = filter (\<lambda>x. \<not> P x) xs"
  by (subst (2) sorted_wrt_split [OF assms]) simp

subsection \<open>The suffix array and its transform\<close>

abbreviation suffix_less :: "nat list \<Rightarrow> nat \<Rightarrow> nat \<Rightarrow> bool" where
  "suffix_less s i j \<equiv> lex_less (drop i s) (drop j s)"

definition is_suffix_array :: "nat list \<Rightarrow> nat list \<Rightarrow> bool" where
  "is_suffix_array s sa \<longleftrightarrow> length sa = length s \<and> distinct sa \<and> (\<forall>i \<in> set sa. i < length s)
    \<and> sorted_wrt (suffix_less s) sa"

definition bwt_of :: "nat list \<Rightarrow> nat list \<Rightarrow> nat list" where
  "bwt_of s sa = map (\<lambda>j. s ! ((j + length s - 1) mod length s)) sa"

definition marked :: "nat list \<Rightarrow> bool" where
  "marked s \<longleftrightarrow> s \<noteq> [] \<and> (\<forall>x \<in> set (butlast s). last s < x)"

abbreviation count_below :: "nat list \<Rightarrow> nat \<Rightarrow> nat" where
  "count_below s c \<equiv> length [x \<leftarrow> s. x < c]"

lemma length_bwt_of [simp]: "length (bwt_of s sa) = length sa"
  by (simp add: bwt_of_def)

lemma suffix_array_set: "is_suffix_array s sa \<Longrightarrow> set sa = {..<length s}"
  unfolding is_suffix_array_def
  by (intro card_subset_eq) (auto simp: distinct_card)

lemma suffix_array_mset: "is_suffix_array s sa \<Longrightarrow> mset sa = mset [0..<length s]"
proof -
  assume sa: "is_suffix_array s sa"
  then have "distinct sa" by (simp add: is_suffix_array_def)
  moreover have "set sa = set [0..<length s]" using suffix_array_set [OF sa] atLeast_upt by metis
  ultimately show ?thesis using set_eq_iff_mset_eq_distinct [OF _ distinct_upt] by blast
qed

lemma suffix_array_filter: "is_suffix_array s sa \<Longrightarrow> length (filter P sa) = length (filter P [0..<length s])"
  using suffix_array_mset [of s sa] by (metis mset_eq_length mset_filter)

lemma marked_nth: "marked s \<Longrightarrow> i < length s \<Longrightarrow> s ! i = last s \<longleftrightarrow> i = length s - 1"
proof
  assume m: "marked s" and i: "i < length s" and eq: "s ! i = last s"
  show "i = length s - 1"
  proof (rule ccontr)
    assume "i \<noteq> length s - 1"
    then have "i < length (butlast s)" using i by simp
    then have "s ! i \<in> set (butlast s)" by (metis nth_butlast nth_mem)
    then show False using m eq by (auto simp: marked_def)
  qed
qed (auto simp: marked_def last_conv_nth)

lemma marked_least: "marked s \<Longrightarrow> x \<in> set s \<Longrightarrow> last s \<le> x"
  by (metis append_butlast_last_id in_set_conv_decomp less_imp_le marked_def rotate1.simps(2)
      set_ConsD set_rotate1 order_refl)

lemma marked_below: "marked s \<Longrightarrow> count_below s (last s) = 0"
  by (auto simp: filter_empty_conv dest: marked_least)

lemma set_bwt_of: "is_suffix_array s sa \<Longrightarrow> set (bwt_of s sa) \<subseteq> set s"
  by (cases "s = []") (auto simp: bwt_of_def is_suffix_array_def intro!: nth_mem)

lemma mset_bwt_of:
  assumes "is_suffix_array s sa"
  shows "mset (bwt_of s sa) = mset s"
proof (cases "s = []")
  case False
  let ?n = "length s" and ?f = "\<lambda>j. (j + length s - 1) mod length s"
  have n: "0 < ?n" using False by simp
  have f: "?f j = (if j = 0 then ?n - 1 else j - 1)" if "j < ?n" for j
    using that by (cases j) auto
  have "map (\<lambda>j. s ! ?f j) [0..<?n] = s ! (?n - 1) # map (\<lambda>j. s ! ?f j) [1..<?n]"
    using n f by (simp add: upt_conv_Cons)
  also have "map (\<lambda>j. s ! ?f j) [1..<?n] = map ((!) s) [0..<?n - 1]"
    using f by (intro nth_equalityI) auto
  also have "\<dots> = butlast s" using False by (intro nth_equalityI) (auto simp: nth_butlast)
  finally have "mset (map (\<lambda>j. s ! ?f j) [0..<?n]) = mset (last s # butlast s)"
    using False by (simp add: last_conv_nth)
  also have "\<dots> = mset (butlast s @ [last s])" by simp
  also have "\<dots> = mset s" by (simp only: append_butlast_last_id [OF False])
  finally show ?thesis using suffix_array_mset [OF assms] by (simp add: bwt_of_def mset_map)
qed (use assms in \<open>simp add: is_suffix_array_def bwt_of_def\<close>)

lemma below_bwt_of: "is_suffix_array s sa \<Longrightarrow> count_below (bwt_of s sa) c = count_below s c"
  using mset_bwt_of [of s sa] by (metis mset_eq_length mset_filter)

subsection \<open>Prepending a character\<close>

text \<open>The bound \<^verbatim>\<open>P\<close> in the sorted suffixes, moved to the suffixes that start with \<^verbatim>\<open>c\<close>.\<close>

definition prepend :: "nat list \<Rightarrow> nat \<Rightarrow> (nat \<Rightarrow> bool) \<Rightarrow> nat \<Rightarrow> bool" where
  "prepend s c P k \<longleftrightarrow> s ! k < c \<or> (s ! k = c \<and> Suc k < length s \<and> P (Suc k))"

lemma below_filter: "count_below s c = length [k \<leftarrow> [0..<length s]. s ! k < c]"
proof -
  have "count_below s c = length [x \<leftarrow> map ((!) s) [0..<length s]. x < c]" by (simp add: map_nth)
  then show ?thesis by (simp add: filter_map o_def)
qed

lemma shift_filter:
  assumes c: "c \<noteq> last s" and s: "s \<noteq> []"
  shows "length [j \<leftarrow> [0..<length s]. P j \<and> s ! ((j + length s - 1) mod length s) = c]
    = length [k \<leftarrow> [0..<length s]. s ! k = c \<and> Suc k < length s \<and> P (Suc k)]"
proof -
  let ?n = "length s"
  have n: "[0..<?n] = 0 # map Suc [0..<?n - 1]" "[0..<?n] = [0..<?n - 1] @ [?n - 1]"
    using s by (cases "?n"; simp add: map_Suc_upt upt_conv_Cons)+
  have last: "s ! (?n - 1) = last s" using s by (simp add: last_conv_nth)
  have "length [j \<leftarrow> [0..<?n]. P j \<and> s ! ((j + ?n - 1) mod ?n) = c]
      = length [k \<leftarrow> [0..<?n - 1]. P (Suc k) \<and> s ! ((Suc k + ?n - 1) mod ?n) = c]"
    using c last s by (subst n(1)) (simp add: filter_map o_def)
  also have "[k \<leftarrow> [0..<?n - 1]. P (Suc k) \<and> s ! ((Suc k + ?n - 1) mod ?n) = c]
      = [k \<leftarrow> [0..<?n - 1]. s ! k = c \<and> Suc k < ?n \<and> P (Suc k)]"
    by (intro filter_cong) auto
  also have "length \<dots> = length [k \<leftarrow> [0..<?n]. s ! k = c \<and> Suc k < ?n \<and> P (Suc k)]"
    using c last by (subst n(2)) simp
  finally show ?thesis .
qed

theorem prepend_bound:
  assumes sa: "is_suffix_array s sa" and P: "down_closed (suffix_less s) sa P"
    and c: "c \<noteq> last s" and s: "s \<noteq> []"
  shows "length (filter (prepend s c P) sa) = count_below s c + rank_list (bwt_of s sa) c (length (filter P sa))"
proof -
  have sorted: "sorted_wrt (suffix_less s) sa" using sa by (simp add: is_suffix_array_def)
  have "rank_list (bwt_of s sa) c (length (filter P sa))
      = length [j \<leftarrow> filter P sa. s ! ((j + length s - 1) mod length s) = c]"
    by (simp only: bwt_of_def rank_list_map take_bound [OF sorted P])
  also have "\<dots> = length [j \<leftarrow> sa. P j \<and> s ! ((j + length s - 1) mod length s) = c]"
    by (simp add: conj_commute)
  also have "\<dots> = length [k \<leftarrow> [0..<length s]. s ! k = c \<and> Suc k < length s \<and> P (Suc k)]"
    using suffix_array_filter [OF sa] shift_filter [OF c s] by simp
  finally show ?thesis
    unfolding suffix_array_filter [OF sa] below_filter prepend_def
    by (subst length_filter_disj) auto
qed

subsection \<open>Backward search\<close>

text \<open>The rows below a key, and the rows below its extensions.\<close>

definition lower :: "nat list \<Rightarrow> nat list \<Rightarrow> nat list \<Rightarrow> nat" where
  "lower s sa key = length [j \<leftarrow> sa. lex_less (drop j s) key]"

definition upper :: "nat list \<Rightarrow> nat list \<Rightarrow> nat list \<Rightarrow> nat" where
  "upper s sa key = length [j \<leftarrow> sa. leq_key (drop j s) key]"

lemma down_closed_less: "down_closed (suffix_less s) sa (\<lambda>j. lex_less (drop j s) key)"
  by (auto simp: down_closed_def intro: lex_less_trans)

lemma down_closed_leq: "down_closed (suffix_less s) sa (\<lambda>j. leq_key (drop j s) key)"
  by (auto simp: down_closed_def intro: leq_key_trans)

lemma suffix_Cons:
  assumes "k < length s" and "c \<noteq> last s"
  shows "lex_less (drop k s) (c # key) \<longleftrightarrow> prepend s c (\<lambda>j. lex_less (drop j s) key) k"
    and "leq_key (drop k s) (c # key) \<longleftrightarrow> prepend s c (\<lambda>j. leq_key (drop j s) key) k"
proof -
  have d: "drop k s = s ! k # drop (Suc k) s" by (rule Cons_nth_drop_Suc [OF assms(1), symmetric])
  have "s ! k = c \<Longrightarrow> Suc k < length s"
  proof (rule ccontr)
    assume "s ! k = c" and "\<not> Suc k < length s"
    moreover from this have "k = length s - 1" using assms(1) by simp
    moreover have "s \<noteq> []" using assms(1) by auto
    ultimately show False using assms(2) by (simp add: last_conv_nth)
  qed
  then show "lex_less (drop k s) (c # key) \<longleftrightarrow> prepend s c (\<lambda>j. lex_less (drop j s) key) k"
    "leq_key (drop k s) (c # key) \<longleftrightarrow> prepend s c (\<lambda>j. leq_key (drop j s) key) k"
    unfolding d by (auto simp: prepend_def)
qed

lemma suffix_array_filter_cong:
  "is_suffix_array s sa \<Longrightarrow> (\<And>k. k < length s \<Longrightarrow> P k = Q k) \<Longrightarrow> filter P sa = filter Q sa"
  by (intro filter_cong) (auto simp: is_suffix_array_def)

theorem backward_step:
  assumes "is_suffix_array s sa" "c \<noteq> last s" "s \<noteq> []"
  shows "lower s sa (c # key) = count_below s c + rank_list (bwt_of s sa) c (lower s sa key)"
    and "upper s sa (c # key) = count_below s c + rank_list (bwt_of s sa) c (upper s sa key)"
  using prepend_bound [OF assms(1) down_closed_less assms(2,3), of key]
    prepend_bound [OF assms(1) down_closed_leq assms(2,3), of key]
    suffix_array_filter_cong [OF assms(1) suffix_Cons(1) [where key = key, OF _ assms(2)]]
    suffix_array_filter_cong [OF assms(1) suffix_Cons(2) [where key = key, OF _ assms(2)]]
  by (simp_all add: lower_def upper_def)

lemma backward_start:
  assumes "is_suffix_array s sa"
  shows "lower s sa [c] = count_below s c" and "upper s sa [c] = count_below s (c + 1)"
proof -
  have d: "drop k s = s ! k # drop (Suc k) s" if "k < length s" for k
    by (rule Cons_nth_drop_Suc [OF that, symmetric])
  have eq: "lex_less (drop k s) [c] \<longleftrightarrow> s ! k < c" "leq_key (drop k s) [c] \<longleftrightarrow> s ! k < c + 1" if "k < length s" for k
    using d [OF that] by auto
  show "lower s sa [c] = count_below s c" "upper s sa [c] = count_below s (c + 1)"
    unfolding lower_def upper_def suffix_array_filter [OF assms] below_filter
    by (rule arg_cong [of _ _ length], rule filter_cong, simp, use eq in simp)+
qed

theorem rows_of_key:
  assumes "is_suffix_array s sa"
  shows "drop (lower s sa key) (take (upper s sa key) sa) = [j \<leftarrow> sa. starts_with key (drop j s)]"
proof -
  let ?Q = "\<lambda>j. leq_key (drop j s) key" and ?P = "\<lambda>j. lex_less (drop j s) key"
  have sorted: "sorted_wrt (suffix_less s) sa" using assms by (simp add: is_suffix_array_def)
  have t: "take (upper s sa key) sa = filter ?Q sa"
    unfolding upper_def by (rule take_bound [OF sorted down_closed_leq])
  have "filter ?P (filter ?Q sa) = filter ?P sa" by (auto intro!: filter_cong dest: lex_less_leq_key)
  then have "drop (lower s sa key) (filter ?Q sa) = filter (\<lambda>j. \<not> ?P j) (filter ?Q sa)"
    using drop_bound [OF sorted_wrt_filter [OF sorted, of ?Q] down_closed_less [of s _ key]] by (simp add: lower_def)
  then show ?thesis unfolding t by (simp add: starts_with_iff conj_commute)
qed

lemma lower_upper_le:
  assumes "is_suffix_array s sa"
  shows "lower s sa key \<le> upper s sa key" and "upper s sa key \<le> length s"
proof -
  have "length (filter (\<lambda>j. lex_less (drop j s) key) sa) \<le> length (filter (\<lambda>j. leq_key (drop j s) key) sa)"
    by (induction sa) (auto dest: lex_less_leq_key)
  then show "lower s sa key \<le> upper s sa key" by (simp add: lower_def upper_def)
  show "upper s sa key \<le> length s"
    unfolding upper_def using assms
    by (auto simp: is_suffix_array_def intro: order_trans [OF length_filter_le])
qed

subsection \<open>The last-to-first mapping\<close>

definition lf :: "nat list \<Rightarrow> nat list \<Rightarrow> nat \<Rightarrow> nat" where
  "lf s sa i = count_below s (bwt_of s sa ! i) + rank_list (bwt_of s sa) (bwt_of s sa ! i) i"

lemma rows_before:
  assumes sa: "is_suffix_array s sa" and i: "i < length s"
  shows "[j \<leftarrow> sa. suffix_less s j (sa ! i)] = take i sa"
proof -
  have len: "length sa = length s" and sorted: "sorted_wrt (suffix_less s) sa"
    using sa by (auto simp: is_suffix_array_def)
  have split: "sa = take i sa @ drop i sa" by simp
  have "\<forall>j \<in> set (take i sa). suffix_less s j (sa ! i)"
    using sorted i len by (auto simp: in_set_conv_nth sorted_wrt_iff_nth_less)
  moreover have "\<forall>j \<in> set (drop i sa). \<not> suffix_less s j (sa ! i)"
  proof
    fix j assume "j \<in> set (drop i sa)"
    then obtain k where k: "i + k < length sa" "j = sa ! (i + k)"
      using i len by (auto simp: in_set_conv_nth less_diff_conv add.commute)
    show "\<not> suffix_less s j (sa ! i)"
    proof (cases k)
      case (Suc m)
      then have "suffix_less s (sa ! i) j" using sorted k by (simp add: sorted_wrt_iff_nth_less)
      then show ?thesis by (rule lex_less_asym)
    qed (use k in simp)
  qed
  ultimately show ?thesis
    by (subst split) (simp only: filter_append filter_True filter_False append_Nil2)
qed

lemma row_unique:
  assumes sa: "is_suffix_array s sa" and j: "j < length s"
  shows "length [k \<leftarrow> sa. suffix_less s k j] < length s"
    and "sa ! length [k \<leftarrow> sa. suffix_less s k j] = j"
proof -
  have "j \<in> set sa" using j by (simp add: suffix_array_set [OF sa])
  then obtain i where i: "i < length s" "sa ! i = j"
    using sa by (auto simp: in_set_conv_nth is_suffix_array_def)
  then have "length [k \<leftarrow> sa. suffix_less s k j] = i"
    using rows_before [OF sa i(1)] sa by (simp add: is_suffix_array_def)
  then show "length [k \<leftarrow> sa. suffix_less s k j] < length s" "sa ! length [k \<leftarrow> sa. suffix_less s k j] = j"
    using i by simp_all
qed

theorem lf_step:
  assumes sa: "is_suffix_array s sa" and m: "marked s" and i: "i < length s"
  shows "lf s sa i < length s" and "sa ! lf s sa i = (sa ! i + length s - 1) mod length s"
proof -
  let ?n = "length s" and ?j = "sa ! i"
  have s: "s \<noteq> []" using i by auto
  have len: "length sa = ?n" using sa by (simp add: is_suffix_array_def)
  have j: "?j < ?n" using sa i len by (simp add: is_suffix_array_def)
  have c: "bwt_of s sa ! i = s ! ((?j + ?n - 1) mod ?n)" using i len by (simp add: bwt_of_def)
  have "lf s sa i < ?n \<and> sa ! lf s sa i = (?j + ?n - 1) mod ?n"
  proof (cases "?j = 0")
    case True
    have c0: "bwt_of s sa ! i = last s" using c True s by (simp add: last_conv_nth)
    have "last s \<notin> set (take i (bwt_of s sa))"
    proof
      assume "last s \<in> set (take i (bwt_of s sa))"
      then obtain k where k: "k < i" "bwt_of s sa ! k = last s" using len i by (auto simp: in_set_conv_nth)
      have sk: "sa ! k < ?n" using sa k(1) i len by (simp add: is_suffix_array_def)
      have "s ! ((sa ! k + ?n - 1) mod ?n) = last s" using k i len by (simp add: bwt_of_def)
      then have "(sa ! k + ?n - 1) mod ?n = ?n - 1" using marked_nth [OF m] s by simp
      then have "sa ! k = 0" using sk by (cases "sa ! k") auto
      then show False
        using True k(1) i sa len nth_eq_iff_index_eq [of sa k i] by (simp add: is_suffix_array_def)
    qed
    then have lf0: "lf s sa i = 0" by (simp add: lf_def c0 marked_below [OF m] count_list_0_iff)
    have "[k \<leftarrow> sa. suffix_less s k (?n - 1)] = []"
    proof -
      have "\<not> suffix_less s k (?n - 1)" if "k < ?n" for k
      proof -
        have "drop (?n - 1) s = [last s]" using s by (metis append_butlast_last_id append_eq_conv_conj length_butlast)
        moreover have "drop k s = s ! k # drop (Suc k) s" by (rule Cons_nth_drop_Suc [OF that, symmetric])
        moreover have "last s \<le> s ! k" using marked_least [OF m] that by simp
        ultimately show ?thesis by simp
      qed
      then show ?thesis using sa by (auto simp: filter_empty_conv is_suffix_array_def)
    qed
    then show ?thesis using row_unique [OF sa, of "?n - 1"] lf0 True s by simp
  next
    case False
    define p where "p = ?j - 1"
    have p: "p < ?n" "Suc p = ?j" using False j by (auto simp: p_def)
    have p3: "(?j + ?n - 1) mod ?n = p" using p by (simp add: p(2) [symmetric])
    have cp: "bwt_of s sa ! i = s ! p" using c p3 by simp
    have "s ! p \<noteq> last s" using marked_nth [OF m p(1)] p(2) j by simp
    then have "length (filter (prepend s (s ! p) (\<lambda>k. suffix_less s k ?j)) sa)
        = count_below s (s ! p) + rank_list (bwt_of s sa) (s ! p) i"
      using prepend_bound [OF sa down_closed_less _ s, of "s ! p" "drop ?j s"] rows_before [OF sa i] i len by simp
    moreover have "drop p s = s ! p # drop ?j s" using Cons_nth_drop_Suc [OF p(1)] p(2) by simp
    ultimately have "lf s sa i = length [k \<leftarrow> sa. suffix_less s k p]"
      using suffix_array_filter_cong [OF sa suffix_Cons(1) [where key = "drop ?j s", OF _ \<open>s ! p \<noteq> last s\<close>]]
      by (simp add: lf_def cp)
    then show ?thesis using row_unique [OF sa p(1)] p3 by simp
  qed
  then show "lf s sa i < length s" "sa ! lf s sa i = (sa ! i + length s - 1) mod length s" by simp_all
qed

end
