(* ===== verification/Induced_Sorting.thy ===== *)
theory Induced_Sorting
  imports Backward_Search
begin

text \<open>
  Why induced sorting sorts: the mathematics behind the class \<^verbatim>\<open>SAIS\<close>, without its arrays and
  arithmetic.  The first part is one pass over an array whose slots are divided into regions: every
  entry that is scanned puts its predecessor into the next free slot of the predecessor's region.
  Both passes of the algorithm are instances, the second one on the reversed array.  The second
  part is about the text: its types, the keys that the two rounds sort by, and the reduced text.
\<close>

section \<open>One pass\<close>

text \<open>The first slot of a region, when positions are grouped by their region.\<close>

definition region_start :: "nat \<Rightarrow> (nat \<Rightarrow> nat) \<Rightarrow> nat \<Rightarrow> nat" where
  "region_start n reg r = card {i. i < n \<and> reg i < r}"

definition slice_of :: "nat \<Rightarrow> nat \<Rightarrow> 'a list \<Rightarrow> 'a list" where
  "slice_of a b xs = take (b - a) (drop a xs)"

lemma slice_of_nth:
  assumes "a \<le> b" "b \<le> length xs"
  shows "length (slice_of a b xs) = b - a" "i < b - a \<Longrightarrow> slice_of a b xs ! i = xs ! (a + i)"
  using assms by (simp_all add: slice_of_def)

lemma slice_of_mem:
  assumes "a \<le> q" "q < b" "b \<le> length xs"
  shows "xs ! q \<in> set (slice_of a b xs)"
  unfolding in_set_conv_nth using assms slice_of_nth [of a b xs] by (intro exI [of _ "q - a"]) simp

lemma slice_of_memD:
  assumes "x \<in> set (slice_of a b xs)" "a \<le> b" "b \<le> length xs"
  obtains q where "a \<le> q" "q < b" "xs ! q = x"
proof -
  obtain i where "i < b - a" "xs ! (a + i) = x" using assms slice_of_nth [OF assms(2,3)] by (auto simp: in_set_conv_nth)
  then show thesis using assms by (intro that [of "a + i"]) simp_all
qed

lemma slice_of_snoc:
  assumes "a \<le> b" "b < length xs"
  shows "slice_of a (Suc b) (xs[b := x]) = slice_of a b xs @ [x]"
proof (rule nth_equalityI)
  show "length (slice_of a (Suc b) (xs[b := x])) = length (slice_of a b xs @ [x])" using assms by (simp add: slice_of_def)
next
  fix i assume "i < length (slice_of a (Suc b) (xs[b := x]))"
  then have "i < Suc b - a" using assms by (simp add: slice_of_def)
  then show "slice_of a (Suc b) (xs[b := x]) ! i = (slice_of a b xs @ [x]) ! i"
    using assms by (cases "i < b - a") (auto simp: slice_of_def nth_append less_Suc_eq Suc_diff_le)
qed

lemma slice_of_other:
  assumes "q < a \<or> b \<le> q"
  shows "slice_of a b (xs[q := x]) = slice_of a b xs"
proof (rule nth_equalityI)
  show "length (slice_of a b (xs[q := x])) = length (slice_of a b xs)" by (simp add: slice_of_def)
next
  fix i assume "i < length (slice_of a b (xs[q := x]))"
  then show "slice_of a b (xs[q := x]) ! i = slice_of a b xs ! i" using assms by (auto simp: slice_of_def nth_list_update)
qed

text \<open>The elements of a filtered list keep their order.\<close>

definition in_order :: "'a list \<Rightarrow> 'a \<Rightarrow> 'a \<Rightarrow> bool" where
  "in_order xs x y \<longleftrightarrow> (\<exists>a b. a < b \<and> b < length xs \<and> xs ! a = x \<and> xs ! b = y)"

lemma in_order_filter: "in_order (filter P xs) x y \<Longrightarrow> in_order xs x y"
proof -
  have "sorted_wrt (in_order xs) xs" by (auto simp: sorted_wrt_iff_nth_less in_order_def)
  then have "sorted_wrt (in_order xs) (filter P xs)" by (rule sorted_wrt_filter)
  then show "in_order (filter P xs) x y \<Longrightarrow> in_order xs x y"
    by (auto simp: sorted_wrt_iff_nth_less in_order_def [of "filter P xs"])
qed

lemma nat_Suc_int [simp]: "nat (1 + int i) = Suc i"
  by simp

locale induced_pass =
  fixes n :: nat and reg :: "nat \<Rightarrow> nat" and target :: "nat \<Rightarrow> bool"
  assumes source: "i < n \<Longrightarrow> target i \<Longrightarrow> Suc i < n \<and> reg (Suc i) \<le> reg i"
    and uniform: "i < n \<Longrightarrow> j < n \<Longrightarrow> reg i = reg j \<Longrightarrow> target i = target j"
begin

abbreviation lo :: "nat \<Rightarrow> nat" where
  "lo \<equiv> region_start n reg"

definition members :: "nat \<Rightarrow> nat set" where
  "members r = {i. i < n \<and> reg i = r}"

definition in_region :: "nat \<Rightarrow> nat \<Rightarrow> bool" where
  "in_region r q \<longleftrightarrow> lo r \<le> q \<and> q < lo (Suc r)"

lemma lo_Suc: "lo (Suc r) = lo r + card (members r)"
proof -
  have "{i. i < n \<and> reg i < Suc r} = {i. i < n \<and> reg i < r} \<union> members r" by (auto simp: members_def)
  then show ?thesis unfolding region_start_def by (simp add: members_def card_Un_disjoint disjoint_iff)
qed

lemma lo_mono: "r \<le> r' \<Longrightarrow> lo r \<le> lo r'"
  unfolding region_start_def by (intro card_mono) auto

lemma lo_le: "lo r \<le> n"
proof -
  have "lo r \<le> card {..<n}" unfolding region_start_def by (intro card_mono) auto
  then show ?thesis by simp
qed

lemma region_unique: "in_region r q \<Longrightarrow> in_region r' q \<Longrightarrow> r = r'"
  using lo_mono [of "Suc r" r'] lo_mono [of "Suc r'" r] unfolding in_region_def by (cases r r' rule: linorder_cases) auto

lemma region_less: "in_region r q \<Longrightarrow> in_region r' q' \<Longrightarrow> r < r' \<Longrightarrow> q < q'"
  using lo_mono [of "Suc r" r'] unfolding in_region_def by auto

lemma region_le: "in_region r q \<Longrightarrow> in_region r' q' \<Longrightarrow> q < q' \<Longrightarrow> r \<le> r'"
  using region_less [of r' q' r q] by (cases "r \<le> r'") auto

text \<open>A slot holds nothing, or a position of its region.\<close>

definition valid :: "int list \<Rightarrow> nat \<Rightarrow> bool" where
  "valid A q \<longleftrightarrow> A ! q = - 1 \<or> (\<exists>i < n. A ! q = int i \<and> in_region (reg i) q)"

definition fixed_slot :: "nat \<Rightarrow> bool" where
  "fixed_slot q \<longleftrightarrow> (\<forall>i < n. target i \<longrightarrow> \<not> in_region (reg i) q)"

lemma valid_int: "valid A q \<Longrightarrow> A ! q = int i \<Longrightarrow> i < n \<and> in_region (reg i) q"
  by (auto simp: valid_def)

text \<open>The array before the pass: the slots of the other regions hold the positions the pass starts from.\<close>

definition start_ok :: "int list \<Rightarrow> bool" where
  "start_ok A \<longleftrightarrow> length A = n \<and> (\<forall>q < n. fixed_slot q \<longrightarrow> valid A q)
    \<and> (\<forall>q < n. \<forall>q' < n. fixed_slot q \<longrightarrow> fixed_slot q' \<longrightarrow> A ! q = A ! q' \<longrightarrow> 0 \<le> A ! q \<longrightarrow> q = q')
    \<and> (\<forall>i < n. target i \<longrightarrow> \<not> target (Suc i) \<longrightarrow> (\<exists>q < n. fixed_slot q \<and> A ! q = int (Suc i)))"

text \<open>The entries whose predecessors go into a region, and the predecessors.\<close>

definition induces :: "nat \<Rightarrow> int \<Rightarrow> bool" where
  "induces r x \<longleftrightarrow> 0 < x \<and> nat x \<le> n \<and> target (nat x - 1) \<and> reg (nat x - 1) = r"

definition induced :: "nat \<Rightarrow> int list \<Rightarrow> int list" where
  "induced r xs = map (\<lambda>x. x - 1) (filter (induces r) xs)"

definition step :: "int list \<times> (nat \<Rightarrow> nat) \<Rightarrow> nat \<Rightarrow> int list \<times> (nat \<Rightarrow> nat)" where
  "step = (\<lambda>(A, fr) p. if 0 < A ! p \<and> target (nat (A ! p) - 1)
    then (let r = reg (nat (A ! p) - 1) in (A[fr r := A ! p - 1], fr(r := Suc (fr r)))) else (A, fr))"

definition inv :: "int list \<Rightarrow> nat \<Rightarrow> int list \<times> (nat \<Rightarrow> nat) \<Rightarrow> bool" where
  "inv A0 p = (\<lambda>(A, fr). length A = n \<and> (\<forall>r. lo r \<le> fr r \<and> fr r \<le> lo (Suc r))
    \<and> (\<forall>r. slice_of (lo r) (fr r) A = induced r (take p A))
    \<and> (\<forall>q < n. fixed_slot q \<longrightarrow> A ! q = A0 ! q)
    \<and> distinct (filter (\<lambda>x. 0 \<le> x) (take p A))
    \<and> (\<forall>q < p. valid A q \<and> (\<forall>i < n. target i \<longrightarrow> in_region (reg i) q \<longrightarrow> q < fr (reg i))))"

lemma inv_start: "length A = n \<Longrightarrow> inv A 0 (A, lo)"
  by (simp add: inv_def slice_of_def induced_def lo_mono)

lemma induced_mem: "y \<in> set (induced r xs) \<longleftrightarrow> (\<exists>i. y = int i \<and> i < n \<and> target i \<and> reg i = r \<and> int (Suc i) \<in> set xs)"
proof -
  have "(\<exists>x \<in> set xs. induces r x \<and> y = x - 1) \<longleftrightarrow> (\<exists>i. y = int i \<and> i < n \<and> target i \<and> reg i = r \<and> int (Suc i) \<in> set xs)"
  proof safe
    fix x assume "x \<in> set xs" "induces r x"
    then show "\<exists>i. x - 1 = int i \<and> i < n \<and> target i \<and> reg i = r \<and> int (Suc i) \<in> set xs"
      by (intro exI [of _ "nat x - 1"]) (auto simp: induces_def)
  next
    fix i assume "i < n" "target i" "int (Suc i) \<in> set xs"
    then show "\<exists>x \<in> set xs. induces (reg i) x \<and> int i = x - 1" by (intro bexI [of _ "int (Suc i)"]) (auto simp: induces_def)
  qed
  then show ?thesis by (auto simp: induced_def)
qed

lemma induced_distinct: "distinct (filter (\<lambda>x. 0 \<le> x) xs) \<Longrightarrow> distinct (induced r xs)"
proof -
  assume "distinct (filter (\<lambda>x. 0 \<le> x) xs)"
  then have "distinct (filter (induces r) (filter (\<lambda>x. 0 \<le> x) xs))" by (rule distinct_filter)
  moreover have "filter (induces r) (filter (\<lambda>x. 0 \<le> x) xs) = filter (induces r) xs" by (auto simp: induces_def intro: filter_cong)
  ultimately show ?thesis by (simp add: induced_def distinct_map inj_on_def)
qed

lemma invD:
  assumes "inv A0 p (A, fr)"
  shows "length A = n" "lo r \<le> fr r" "fr r \<le> lo (Suc r)" "slice_of (lo r) (fr r) A = induced r (take p A)"
    "q < n \<Longrightarrow> fixed_slot q \<Longrightarrow> A ! q = A0 ! q" "distinct (filter (\<lambda>x. 0 \<le> x) (take p A))"
    "q < p \<Longrightarrow> valid A q" "q < p \<Longrightarrow> i < n \<Longrightarrow> target i \<Longrightarrow> in_region (reg i) q \<Longrightarrow> q < fr (reg i)"
  using assms unfolding inv_def by auto

lemma slice_length:
  assumes "inv A0 p (A, fr)"
  shows "fr r \<le> length A" "length (slice_of (lo r) (fr r) A) = fr r - lo r"
proof -
  note I = invD [OF assms]
  show "fr r \<le> length A" using I(1) I(3) [of r] lo_le [of "Suc r"] by simp
  then show "length (slice_of (lo r) (fr r) A) = fr r - lo r" using slice_of_nth(1) [OF I(2)] by blast
qed

lemma slice_mem:
  assumes "inv A0 p (A, fr)"
  shows "int i \<in> set (slice_of (lo r) (fr r) A) \<longleftrightarrow> i < n \<and> target i \<and> reg i = r \<and> int (Suc i) \<in> set (take p A)"
  using invD(4) [OF assms, of r] induced_mem [of "int i" r "take p A"] by auto

lemma slice_take:
  assumes "inv A0 p (A, fr)" "x \<in> set (slice_of (lo r) (fr r) A)" "fr r \<le> p" "p \<le> n"
  shows "x \<in> set (take p A)"
proof -
  note I = invD [OF assms(1)]
  obtain q where "q < fr r" "A ! q = x" using slice_of_memD [OF assms(2) I(2) slice_length(1) [OF assms(1)]] by blast
  then show ?thesis using assms(3,4) I(1) by (auto simp: in_set_conv_nth intro!: exI [of _ q])
qed

text \<open>A region whose slots are all taken holds all its positions.\<close>

lemma full_region:
  assumes inv: "inv A0 p (A, fr)" and fr: "fr (reg i) = lo (Suc (reg i))" and i: "i < n" "target i"
  shows "int i \<in> set (slice_of (lo (reg i)) (fr (reg i)) A)"
proof -
  note I = invD [OF inv] let ?r = "reg i" let ?xs = "slice_of (lo (reg i)) (fr (reg i)) A"
  have "set ?xs \<subseteq> int ` members ?r" using induced_mem [of _ ?r "take p A"] unfolding I(4) by (auto simp: members_def)
  moreover have "distinct ?xs" unfolding I(4) by (rule induced_distinct [OF I(6)])
  then have "card (set ?xs) = length ?xs" by (rule distinct_card)
  moreover have "length ?xs = card (members ?r)" using slice_length(2) [OF inv, of ?r] lo_Suc [of ?r] fr by linarith
  moreover have "finite (int ` members ?r)" "card (int ` members ?r) = card (members ?r)" by (auto simp: members_def card_image)
  ultimately have "set ?xs = int ` members ?r" by (intro card_subset_eq) auto
  then show ?thesis using i by (auto simp: members_def)
qed

lemma past_region:
  assumes inv: "inv A0 p (A, fr)" "p \<le> n" and i: "i < n" "target i" "lo (Suc (reg i)) \<le> p"
  shows "int i \<in> set (take p A)"
proof -
  note I = invD [OF inv(1)]
  have "i \<in> members (reg i)" using i(1) by (simp add: members_def)
  then have "0 < card (members (reg i))" by (intro card_gt_0_iff [THEN iffD2]) (auto simp: members_def)
  then have "in_region (reg i) (lo (Suc (reg i)) - 1)" by (auto simp: in_region_def lo_Suc)
  moreover have "lo (Suc (reg i)) - 1 < p" using \<open>0 < card (members (reg i))\<close> i(3) lo_Suc [of "reg i"] by linarith
  ultimately have "lo (Suc (reg i)) - 1 < fr (reg i)" using I(8) i(1,2) by blast
  then have "fr (reg i) = lo (Suc (reg i))" using I(3) [of "reg i"] by simp
  then show ?thesis using slice_take [OF inv(1) full_region [OF inv(1) _ i(1,2)] _ inv(2)] i(3) by simp
qed

text \<open>When the scan reaches a slot of a target region, the slot is taken.\<close>

lemma slot_taken:
  assumes inv: "inv A0 p (A, fr)" and st: "start_ok A0" and p: "p < n" "i < n" "target i" "in_region (reg i) p"
  shows "p < fr (reg i)"
proof (rule ccontr)
  note I = invD [OF inv] let ?r = "reg i" let ?xs = "slice_of (lo (reg i)) (fr (reg i)) A"
  assume "\<not> p < fr ?r"
  then have fr: "fr ?r \<le> p" by simp
  define M where "M = {j \<in> members ?r. int j \<notin> set ?xs}"
  note len = slice_length(2) [OF inv, of ?r]
  have "fr ?r < lo (Suc ?r)" using fr p(4) by (simp add: in_region_def)
  then have "length ?xs < card (members ?r)" using len I(2) [of ?r] lo_Suc [of ?r] by simp
  moreover have "card (set ?xs) \<le> length ?xs" by (rule card_length)
  moreover have "card (members ?r) \<le> card (set ?xs)" if "M = {}"
  proof -
    have "int ` members ?r \<subseteq> set ?xs" using that by (auto simp: M_def)
    then have "card (int ` members ?r) \<le> card (set ?xs)" by (intro card_mono) auto
    then show ?thesis by (simp add: card_image)
  qed
  ultimately have "M \<noteq> {}" by linarith
  have "finite M" by (simp add: M_def members_def)
  define j where "j = Max M"
  have "j \<in> M" unfolding j_def using \<open>finite M\<close> \<open>M \<noteq> {}\<close> by (rule Max_in)
  then have j: "j < n" "reg j = ?r" "target j" "int j \<notin> set ?xs"
    using uniform [of j i] p(2,3) by (auto simp: M_def members_def)
  have max: "k \<in> M \<Longrightarrow> k \<le> j" for k unfolding j_def using \<open>finite M\<close> by simp
  have src: "Suc j < n" "reg (Suc j) \<le> ?r" using source [OF j(1,3)] j(2) by simp_all
  have lop: "lo ?r \<le> p" using p(4) by (simp add: in_region_def)
  have "int (Suc j) \<in> set (take p A)"
  proof (cases "reg (Suc j) = ?r")
    case True
    then have "int (Suc j) \<in> set ?xs" using max [of "Suc j"] src by (auto simp: M_def members_def)
    then show ?thesis using slice_take [OF inv _ fr] p(1) by simp
  next
    case False
    then have below: "lo (Suc (reg (Suc j))) \<le> p" using src(2) lo_mono [of "Suc (reg (Suc j))" ?r] lop by simp
    show ?thesis
    proof (cases "target (Suc j)")
      case True
      then show ?thesis using past_region [OF inv _ src(1) _ below] p(1) by simp
    next
      case False
      then obtain q where q: "q < n" "fixed_slot q" "A0 ! q = int (Suc j)" using st j(1,3) unfolding start_ok_def by blast
      then have "valid A0 q" using st by (simp add: start_ok_def)
      then have "in_region (reg (Suc j)) q" using valid_int q(3) by blast
      then have "q < p" using below by (simp add: in_region_def)
      then show ?thesis using I(5) [OF q(1,2)] q(3) I(1) p(1) by (auto simp: in_set_conv_nth intro!: exI [of _ q])
    qed
  qed
  then show False using slice_mem [OF inv, of j ?r] j by simp
qed

lemma same_slot:
  assumes "in_region r p" "in_region r q"
  shows "fixed_slot p \<longleftrightarrow> fixed_slot q"
proof -
  have "in_region r' p \<longleftrightarrow> in_region r' q" for r' using assms region_unique [of r' p r] region_unique [of r' q r] by auto
  then show ?thesis by (simp add: fixed_slot_def)
qed

lemma slot_of:
  assumes "i < n" "in_region (reg i) q"
  shows "fixed_slot q \<longleftrightarrow> \<not> target i"
proof
  assume "fixed_slot q"
  then show "\<not> target i" using assms by (auto simp: fixed_slot_def)
next
  assume i: "\<not> target i"
  show "fixed_slot q" unfolding fixed_slot_def
  proof (intro allI impI notI)
    fix j assume j: "j < n" "target j" "in_region (reg j) q"
    then have "reg j = reg i" using region_unique assms(2) by blast
    then show False using uniform [OF j(1) assms(1)] j(2) i by simp
  qed
qed

lemma scanned_valid:
  assumes inv: "inv A0 p (A, fr)" and st: "start_ok A0" and p: "p < n"
  shows "valid A p"
proof (cases "fixed_slot p")
  case True
  then show ?thesis using invD(5) [OF inv p True] st p by (simp add: start_ok_def valid_def)
next
  case False
  then obtain i where i: "i < n" "target i" "in_region (reg i) p" by (auto simp: fixed_slot_def)
  have "p < fr (reg i)" by (rule slot_taken [OF inv st p i])
  then have "A ! p \<in> set (slice_of (lo (reg i)) (fr (reg i)) A)"
    using slice_of_mem [OF _ _ slice_length(1) [OF inv]] i(3) by (simp add: in_region_def)
  then show ?thesis using i(3) by (auto simp: invD(4) [OF inv] induced_mem valid_def)
qed

lemma scanned_new:
  assumes inv: "inv A0 p (A, fr)" and st: "start_ok A0" and p: "p < n" "0 \<le> A ! p"
  shows "A ! p \<notin> set (take p A)"
proof
  note I = invD [OF inv]
  assume "A ! p \<in> set (take p A)"
  then obtain q where q: "q < p" "A ! q = A ! p" using p(1) I(1) by (auto simp: in_set_conv_nth)
  obtain i where i: "A ! p = int i" "i < n" "in_region (reg i) p"
    using scanned_valid [OF inv st p(1)] p(2) by (auto simp: valid_def)
  have qr: "in_region (reg i) q" using valid_int [OF I(7) [OF q(1)]] q(2) i(1) by simp
  show False
  proof (cases "fixed_slot p")
    case True
    then have "fixed_slot q" using same_slot [OF i(3) qr] by blast
    then have "A0 ! q = A0 ! p" "0 \<le> A0 ! q" using I(5) [OF p(1) True] I(5) [of q] p q by simp_all
    then have "q = p" using st True \<open>fixed_slot q\<close> p(1) q(1) unfolding start_ok_def by (meson less_trans)
    then show False using q(1) by simp
  next
    case False
    then obtain j where j: "j < n" "target j" "in_region (reg j) p" by (auto simp: fixed_slot_def)
    have r: "reg j = reg i" using region_unique j(3) i(3) by blast
    have "p < fr (reg i)" using slot_taken [OF inv st p(1) j] r by simp
    then have pq: "p - lo (reg i) < fr (reg i) - lo (reg i)" "q - lo (reg i) < fr (reg i) - lo (reg i)" "lo (reg i) \<le> q" "lo (reg i) \<le> p"
      using q(1) qr i(3) by (auto simp: in_region_def)
    have "distinct (slice_of (lo (reg i)) (fr (reg i)) A)" unfolding I(4) by (rule induced_distinct [OF I(6)])
    moreover have "slice_of (lo (reg i)) (fr (reg i)) A ! (p - lo (reg i)) = slice_of (lo (reg i)) (fr (reg i)) A ! (q - lo (reg i))"
      using pq q(2) by (simp add: slice_of_nth(2) [OF I(2) slice_length(1) [OF inv]])
    ultimately have "p - lo (reg i) = q - lo (reg i)"
      using pq slice_length(2) [OF inv, of "reg i"] by (simp add: nth_eq_iff_index_eq)
    then show False using pq q(1) by simp
  qed
qed

text \<open>The slot for the predecessor of a scanned entry is free and lies ahead.\<close>

lemma slot_free:
  assumes inv: "inv A0 p (A, fr)" and st: "start_ok A0" and p: "p < n" "A ! p = int (Suc j)" "target j"
  shows "j < n" "p < fr (reg j)" "fr (reg j) < lo (Suc (reg j))"
proof -
  note I = invD [OF inv] let ?r = "reg j"
  have valid: "Suc j < n" "in_region (reg (Suc j)) p" using valid_int [OF scanned_valid [OF inv st p(1)] p(2)] by simp_all
  then show j: "j < n" by simp
  have src: "reg (Suc j) \<le> ?r" using source [OF j p(3)] by simp
  show "p < fr ?r"
  proof (cases "reg (Suc j) = ?r")
    case True
    then have "target (Suc j)" using uniform [OF valid(1) j] p(3) by simp
    then show ?thesis using slot_taken [OF inv st p(1) valid(1) _ valid(2)] True by simp
  next
    case False
    then have "lo (Suc (reg (Suc j))) \<le> lo ?r" using src by (intro lo_mono) simp
    then show ?thesis using valid(2) I(2) [of ?r] by (simp add: in_region_def)
  qed
  have "int (Suc j) \<notin> set (take p A)" using scanned_new [OF inv st p(1)] p(2) by simp
  then have "int j \<notin> set (slice_of (lo ?r) (fr ?r) A)" using slice_mem [OF inv] by simp
  moreover have "int j \<in> set (slice_of (lo ?r) (fr ?r) A)" if "fr ?r = lo (Suc ?r)"
    by (rule full_region [OF inv that j p(3)])
  ultimately show "fr ?r < lo (Suc ?r)" using I(3) [of ?r] by (cases "fr ?r = lo (Suc ?r)") auto
qed

lemma step_inv:
  assumes inv: "inv A0 p (A, fr)" and st: "start_ok A0" and p: "p < n"
  shows "inv A0 (Suc p) (step (A, fr) p)"
proof -
  note I = invD [OF inv]
  have take: "take (Suc p) A = take p A @ [A ! p]" using p I(1) by (simp add: take_Suc_conv_app_nth)
  have valid: "valid A p" by (rule scanned_valid [OF inv st p])
  have dist: "distinct (filter (\<lambda>x. 0 \<le> x) (take (Suc p) A))" using I(6) scanned_new [OF inv st p] by (auto simp: take)
  have taken: "\<And>q i. q < Suc p \<Longrightarrow> i < n \<Longrightarrow> target i \<Longrightarrow> in_region (reg i) q \<Longrightarrow> q < fr (reg i)"
    using I(8) slot_taken [OF inv st p] less_Suc_eq by auto
  show ?thesis
  proof (cases "0 < A ! p \<and> target (nat (A ! p) - 1)")
    case False
    then have "induced r (take (Suc p) A) = induced r (take p A)" for r by (auto simp: take induced_def induces_def)
    then show ?thesis using False I(1-5,7) valid dist taken by (auto simp: inv_def step_def less_Suc_eq)
  next
    case True
    define j where "j = nat (A ! p) - 1"
    have j: "A ! p = int (Suc j)" "target j" using True by (auto simp: j_def)
    let ?r = "reg j" let ?A = "A[fr ?r := int j]" let ?fr = "fr(?r := Suc (fr ?r))"
    note slot = slot_free [OF inv st p j]
    have run: "step (A, fr) p = (?A, ?fr)" using True by (simp add: step_def Let_def j(1) flip: j_def)
    have b: "fr ?r < length A" using slot(3) lo_le [of "Suc ?r"] I(1) by simp
    have takeA: "take (Suc p) ?A = take (Suc p) A" using slot(2) by simp
    have sl: "slice_of (lo r) (?fr r) ?A = induced r (take (Suc p) ?A)" for r
    proof (cases "r = ?r")
      case True
      have "induces ?r (A ! p)" using j slot(1) valid_int [OF valid j(1)] by (simp add: induces_def)
      then show ?thesis unfolding takeA take using True slice_of_snoc [OF I(2) b] I(4) [of ?r] j(1) by (simp add: induced_def)
    next
      case False
      then have "\<not> induces r (A ! p)" using j by (simp add: induces_def)
      moreover have "fr ?r < lo r \<or> fr r \<le> fr ?r"
        using False slot(3) I(2) [of ?r] I(3) [of r] lo_mono [of "Suc ?r" r] lo_mono [of "Suc r" ?r] by (cases r ?r rule: linorder_cases) auto
      ultimately show ?thesis unfolding takeA take using False I(4) [of r] by (simp add: induced_def slice_of_other)
    qed
    have fixed: "?A ! q = A0 ! q" if "q < n" "fixed_slot q" for q
    proof -
      have "in_region ?r (fr ?r)" using slot(3) I(2) by (simp add: in_region_def)
      then have "q \<noteq> fr ?r" using that(2) slot(1) j(2) by (auto simp: fixed_slot_def)
      then show ?thesis using I(5) [OF that] by simp
    qed
    have "valid ?A q" if "q < Suc p" for q
      using that I(7) [of q] valid slot(2) by (cases "q = p") (auto simp: valid_def less_Suc_eq)
    moreover have "q < ?fr (reg i)" if "q < Suc p" "i < n" "target i" "in_region (reg i) q" for q i
      using taken [OF that] by (cases "reg i = ?r") simp_all
    moreover have "lo r \<le> ?fr r \<and> ?fr r \<le> lo (Suc r)" for r using I(2,3) [of r] slot(3) by auto
    ultimately show ?thesis unfolding run inv_def using I(1) sl fixed dist takeA by auto
  qed
qed

text \<open>What a finished pass leaves.\<close>

definition passed :: "int list \<Rightarrow> int list \<Rightarrow> bool" where
  "passed A0 A \<longleftrightarrow> length A = n \<and> (\<forall>q < n. valid A q) \<and> (\<forall>q < n. fixed_slot q \<longrightarrow> A ! q = A0 ! q)
    \<and> distinct (filter (\<lambda>x. 0 \<le> x) A) \<and> (\<forall>i < n. target i \<longrightarrow> int i \<in> set A)
    \<and> (\<forall>i < n. target i \<longrightarrow> slice_of (lo (reg i)) (lo (Suc (reg i))) A = induced (reg i) A)"

lemma inv_passed:
  assumes inv: "inv A0 n (A, fr)"
  shows "passed A0 A"
proof -
  note I = invD [OF inv]
  have mem: "int i \<in> set A" if "i < n" "target i" for i
    using past_region [OF inv order_refl that lo_le] by (auto dest: in_set_takeD)
  have "fr (reg i) = lo (Suc (reg i))" if i: "i < n" "target i" for i
  proof -
    have "i \<in> members (reg i)" using i(1) by (simp add: members_def)
    then have "0 < card (members (reg i))" by (intro card_gt_0_iff [THEN iffD2]) (auto simp: members_def)
    then have "in_region (reg i) (lo (Suc (reg i)) - 1)" "lo (Suc (reg i)) - 1 < n"
      using lo_Suc [of "reg i"] lo_le [of "Suc (reg i)"] by (auto simp: in_region_def)
    then show ?thesis using I(8) [of "lo (Suc (reg i)) - 1" i] i I(3) [of "reg i"] by simp
  qed
  then have "slice_of (lo (reg i)) (lo (Suc (reg i))) A = induced (reg i) A" if "i < n" "target i" for i
    using I(1) I(4) [of "reg i"] that by simp
  then show ?thesis using I mem by (simp add: passed_def)
qed

text \<open>
  An order is respected by the finished array if it is respected by the regions, by the entries the
  pass started from, and by the step from the successors to the positions.
\<close>

theorem passed_order:
  assumes A: "passed A0 A"
    and reg: "\<And>i j. i < n \<Longrightarrow> j < n \<Longrightarrow> reg i < reg j \<Longrightarrow> R i j"
    and fixed: "\<And>i j. i < n \<Longrightarrow> j < n \<Longrightarrow> \<not> target i \<Longrightarrow> reg i = reg j \<Longrightarrow> in_order A0 (int i) (int j) \<Longrightarrow> R i j"
    and ind: "\<And>i j. Suc i < n \<Longrightarrow> Suc j < n \<Longrightarrow> target i \<Longrightarrow> target j \<Longrightarrow> reg i = reg j \<Longrightarrow> R (Suc i) (Suc j) \<Longrightarrow> R i j"
    and ij: "in_order A (int i) (int j)" "length A0 = n"
  shows "R i j"
  using ij(1)
proof (induction "n - i" arbitrary: i j rule: less_induct)
  case less
  obtain a b where ab: "a < b" "b < n" "A ! a = int i" "A ! b = int j" using less.prems A by (auto simp: in_order_def passed_def)
  have i: "i < n" "in_region (reg i) a" and j: "j < n" "in_region (reg j) b"
    using valid_int [of A a i] valid_int [of A b j] A ab by (auto simp: passed_def)
  consider (less) "reg i < reg j" | (other) "reg i = reg j" "\<not> target i" | (tgt) "reg i = reg j" "target i"
    using region_le [OF i(2) j(2) ab(1)] by linarith
  then show ?case
  proof cases
    case less
    then show ?thesis using reg i j by blast
  next
    case other
    have "fixed_slot a" "fixed_slot b"
      using other slot_of [OF i] slot_of [OF j] uniform [OF i(1) j(1)] by simp_all
    then have "A0 ! a = int i" "A0 ! b = int j" using A ab by (auto simp: passed_def)
    then have "in_order A0 (int i) (int j)" using ab ij(2) by (auto simp: in_order_def)
    then show ?thesis using fixed other i(1) j(1) by blast
  next
    case tgt
    have tj: "target j" using uniform [OF i(1) j(1) tgt(1)] tgt(2) by simp
    let ?r = "reg i"
    have sl: "slice_of (lo ?r) (lo (Suc ?r)) A = induced ?r A" using A i(1) tgt(2) by (simp add: passed_def)
    have len: "lo ?r \<le> lo (Suc ?r)" "lo (Suc ?r) \<le> length A" using lo_mono [of ?r "Suc ?r"] lo_le A by (simp_all add: passed_def)
    have pos: "a - lo ?r < b - lo ?r" "b - lo ?r < lo (Suc ?r) - lo ?r" "lo ?r \<le> a" "lo ?r \<le> b"
      using ab(1) i(2) j(2) tgt(1) by (auto simp: in_region_def)
    have "in_order (induced ?r A) (int i) (int j)"
      unfolding in_order_def sl [symmetric] using pos ab(3,4) slice_of_nth [OF len]
      by (intro exI [of _ "a - lo ?r"] exI [of _ "b - lo ?r"]) simp
    then have "in_order (filter (induces ?r) A) (int (Suc i)) (int (Suc j))" unfolding in_order_def induced_def by fastforce
    then have "in_order A (int (Suc i)) (int (Suc j))" by (rule in_order_filter)
    moreover have "Suc i < n" "Suc j < n" using source i(1) j(1) tgt(2) tj by blast+
    ultimately show ?thesis using less.hyps [of "Suc i" "Suc j"] ind tgt tj by simp
  qed
qed

end

section \<open>The text\<close>

text \<open>The type of a position says whether its suffix is smaller than the next one; the last position counts as such.\<close>

fun stypes :: "nat list \<Rightarrow> bool list" where
  "stypes [] = []"
| "stypes [x] = [True]"
| "stypes (x # y # xs) = (x < y \<or> x = y \<and> hd (stypes (y # xs))) # stypes (y # xs)"

lemma length_stypes [simp]: "length (stypes s) = length s"
  by (induction s rule: stypes.induct) auto

lemma stypes_nth: "Suc i < length s \<Longrightarrow> stypes s ! i \<longleftrightarrow> s ! i < s ! Suc i \<or> s ! i = s ! Suc i \<and> stypes s ! Suc i"
proof (induction s arbitrary: i rule: stypes.induct)
  case (3 x y xs)
  have "hd (stypes (y # xs)) = stypes (y # xs) ! 0" by (rule hd_conv_nth) (metis length_stypes length_greater_0_conv list.size(3) list.distinct(1))
  then show ?case using 3 by (cases i) auto
qed auto

lemma stypes_last: "s \<noteq> [] \<Longrightarrow> stypes s ! (length s - 1)"
  by (induction s rule: stypes.induct) auto

definition symbol :: "nat list \<Rightarrow> nat \<Rightarrow> nat" where
  "symbol s i = 2 * s ! i + of_bool (stypes s ! i)"

definition is_lms :: "nat list \<Rightarrow> nat \<Rightarrow> bool" where
  "is_lms s i \<longleftrightarrow> 0 < i \<and> i < length s \<and> stypes s ! i \<and> \<not> stypes s ! (i - 1)"

definition sortable :: "nat list \<Rightarrow> bool" where
  "sortable s \<longleftrightarrow> marked s \<and> 2 \<le> length s"

definition text_size :: "nat list \<Rightarrow> nat" where
  "text_size s = (if sortable s then length s else 0)"

lemma text_size_sortable: "sortable s \<Longrightarrow> text_size s = length s"
  by (simp add: text_size_def)

lemma sortable_last:
  assumes "sortable s"
  shows "Suc i < length s \<Longrightarrow> s ! (length s - 1) < s ! i" "i < length s \<Longrightarrow> s ! i = s ! (length s - 1) \<longleftrightarrow> Suc i = length s"
proof -
  have s: "marked s" "s \<noteq> []" using assms by (auto simp: sortable_def)
  show less: "s ! (length s - 1) < s ! i" if "Suc i < length s" for i
  proof -
    have "s ! i \<in> set (butlast s)" using that by (auto simp: in_set_conv_nth nth_butlast intro!: exI [of _ i])
    then show ?thesis using s by (auto simp: marked_def last_conv_nth)
  qed
  show "s ! i = s ! (length s - 1) \<longleftrightarrow> Suc i = length s" if "i < length s"
    using less [of i] that by (metis Suc_lessI diff_Suc_1 less_irrefl)
qed

lemma symbol_le:
  "symbol s i < symbol s j \<Longrightarrow> s ! i \<le> s ! j" "symbol s i = symbol s j \<Longrightarrow> s ! i = s ! j \<and> stypes s ! i = stypes s ! j"
  unfolding symbol_def by (auto simp: of_bool_def split: if_splits, presburger+)

lemma symbol_less: "symbol s i < symbol s j \<longleftrightarrow> s ! i < s ! j \<or> s ! i = s ! j \<and> \<not> stypes s ! i \<and> stypes s ! j"
  unfolding symbol_def of_bool_def by (cases "stypes s ! i"; cases "stypes s ! j"; simp; presburger)

lemma symbol_last:
  assumes "sortable s" "i < length s"
  shows "symbol s i = symbol s (length s - 1) \<longleftrightarrow> Suc i = length s"
  using symbol_le(2) [of s i "length s - 1"] sortable_last(2) [OF assms] by (metis diff_Suc_1)

lemma left_step:
  assumes "i < length s" "\<not> stypes s ! i"
  shows "Suc i < length s" "symbol s (Suc i) \<le> symbol s i" "is_lms s (Suc i) \<longleftrightarrow> stypes s ! Suc i"
proof -
  have "s \<noteq> []" using assms(1) by auto
  then have "i \<noteq> length s - 1" using assms stypes_last by auto
  then show lt: "Suc i < length s" using assms(1) by simp
  show "symbol s (Suc i) \<le> symbol s i" using stypes_nth [OF lt] assms(2) unfolding symbol_def by (auto simp: of_bool_def not_less le_less)
  show "is_lms s (Suc i) \<longleftrightarrow> stypes s ! Suc i" using lt assms(2) by (simp add: is_lms_def)
qed

lemma right_step:
  assumes "Suc i < length s" "stypes s ! i"
  shows "symbol s i \<le> symbol s (Suc i)" "\<not> is_lms s (Suc i)"
  using stypes_nth [OF assms(1)] assms(2) unfolding symbol_def is_lms_def by (auto simp: of_bool_def)

text \<open>The two passes: positions of the first type from the left, the others, but the last, from the right.\<close>

definition top_symbol :: "nat list \<Rightarrow> nat" where
  "top_symbol s = 2 * Max (set s) + 1"

definition left_target :: "nat list \<Rightarrow> nat \<Rightarrow> bool" where
  "left_target s i \<longleftrightarrow> \<not> stypes s ! i"

definition right_target :: "nat list \<Rightarrow> nat \<Rightarrow> bool" where
  "right_target s i \<longleftrightarrow> stypes s ! i \<and> Suc i < length s"

definition mirrored :: "nat list \<Rightarrow> nat \<Rightarrow> nat" where
  "mirrored s i = top_symbol s - symbol s i"

lemma symbol_top: "i < length s \<Longrightarrow> symbol s i \<le> top_symbol s"
proof -
  assume "i < length s"
  then have "s ! i \<le> Max (set s)" by simp
  then show ?thesis by (simp add: symbol_def top_symbol_def of_bool_def)
qed

lemma mirrored_less:
  assumes "i < length s" "j < length s"
  shows "mirrored s i < mirrored s j \<longleftrightarrow> symbol s j < symbol s i" "mirrored s i = mirrored s j \<longleftrightarrow> symbol s i = symbol s j"
  unfolding mirrored_def using symbol_top [OF assms(1)] symbol_top [OF assms(2)] by auto

interpretation left: induced_pass "text_size s" "symbol s" "left_target s" for s
proof
  fix i assume "i < text_size s" "left_target s i"
  then have s: "sortable s" "i < length s" "\<not> stypes s ! i" by (cases "sortable s"; simp add: left_target_def text_size_def)+
  then show "Suc i < text_size s \<and> symbol s (Suc i) \<le> symbol s i" using left_step(1,2) [OF s(2,3)] by (simp add: text_size_sortable)
next
  fix i j assume "symbol s i = symbol s j"
  then show "left_target s i = left_target s j" unfolding left_target_def by (blast dest: symbol_le(2))
qed

interpretation right: induced_pass "text_size s" "mirrored s" "right_target s" for s
proof
  fix i assume "i < text_size s" "right_target s i"
  then have s: "sortable s" "Suc i < length s" "stypes s ! i" by (cases "sortable s"; simp add: right_target_def text_size_def)+
  then show "Suc i < text_size s \<and> mirrored s (Suc i) \<le> mirrored s i" using right_step(1) [OF s(2,3)] by (simp add: mirrored_def text_size_sortable)
next
  fix i j assume ij: "i < text_size s" "j < text_size s" "mirrored s i = mirrored s j"
  then have s: "sortable s" "i < length s" "j < length s" by (auto simp: text_size_def split: if_splits)
  then have eq: "symbol s i = symbol s j" using ij(3) mirrored_less by blast
  then have "Suc i = length s \<longleftrightarrow> Suc j = length s" using symbol_last [OF s(1,2)] symbol_last [OF s(1,3)] by simp
  then show "right_target s i = right_target s j" using symbol_le(2) [OF eq] s by (auto simp: right_target_def)
qed

section \<open>The keys of the two rounds\<close>

text \<open>
  The first round sorts by the symbols up to the next left-most position of the second type, the
  second round by all symbols.
\<close>

abbreviation lex_le :: "nat list \<Rightarrow> nat list \<Rightarrow> bool" where
  "lex_le xs ys \<equiv> xs = ys \<or> lex_less xs ys"

lemma lex_less_le_trans: "lex_less xs ys \<Longrightarrow> lex_le ys zs \<Longrightarrow> lex_less xs zs" "lex_le xs ys \<Longrightarrow> lex_less ys zs \<Longrightarrow> lex_less xs zs"
  using lex_less_trans by blast+

definition suffix_key :: "nat list \<Rightarrow> nat \<Rightarrow> nat list" where
  "suffix_key s i = map (symbol s) [i..<length s]"

lemma suffix_key_rec: "i < length s \<Longrightarrow> suffix_key s i = symbol s i # suffix_key s (Suc i)"
  by (simp add: suffix_key_def upt_conv_Cons)

function lms_key :: "nat list \<Rightarrow> nat \<Rightarrow> nat list" where
  "lms_key s i = (if Suc i < length s
    then if is_lms s (Suc i) then [symbol s i, symbol s (Suc i)] else symbol s i # lms_key s (Suc i)
    else [symbol s i])"
  by pat_completeness auto
termination by (relation "measure (\<lambda>(s, i). length s - i)") auto

function next_lms :: "nat list \<Rightarrow> nat \<Rightarrow> nat" where
  "next_lms s i = (if Suc i < length s \<and> \<not> is_lms s (Suc i) then next_lms s (Suc i) else Suc i)"
  by pat_completeness auto
termination by (relation "measure (\<lambda>(s, i). length s - i)") auto

declare lms_key.simps [simp del] next_lms.simps [simp del]

definition first_key :: "nat list \<Rightarrow> nat \<Rightarrow> nat list" where
  "first_key s i = (if is_lms s i then [symbol s i] else lms_key s i)"

lemma lms_key_rec:
  "\<exists>r. lms_key s i = symbol s i # r"
  "Suc i < length s \<Longrightarrow> lms_key s i = symbol s i # first_key s (Suc i)"
  by (auto simp: lms_key.simps [of s i] first_key_def)

lemma first_key_cases: "\<exists>r. first_key s i = symbol s i # r"
  using lms_key_rec(1) by (auto simp: first_key_def)

text \<open>Symbols of two positions agree up to where one of them ends its key.\<close>

lemma same_lms:
  assumes "Suc i < length s" "Suc j < length s" "symbol s i = symbol s j" "symbol s (Suc i) = symbol s (Suc j)"
  shows "is_lms s (Suc i) \<longleftrightarrow> is_lms s (Suc j)"
  using assms(1,2) symbol_le(2) [OF assms(3)] symbol_le(2) [OF assms(4)] by (simp add: is_lms_def)

lemma same_end:
  assumes "sortable s" "i < length s" "j < length s" "symbol s i = symbol s j"
  shows "Suc i < length s \<longleftrightarrow> Suc j < length s"
  using symbol_last [OF assms(1,2)] symbol_last [OF assms(1,3)] assms(2-4) by auto

lemma first_key_less:
  assumes s: "sortable s" and ij: "Suc i < length s" "Suc j < length s" "symbol s i = symbol s j"
  shows "lex_less (first_key s (Suc i)) (first_key s (Suc j)) \<longleftrightarrow>
      symbol s (Suc i) < symbol s (Suc j) \<or> \<not> is_lms s (Suc i) \<and> \<not> is_lms s (Suc j) \<and> lex_less (lms_key s (Suc i)) (lms_key s (Suc j))"
    and "first_key s (Suc i) = first_key s (Suc j) \<longleftrightarrow> symbol s (Suc i) = symbol s (Suc j) \<and>
      (is_lms s (Suc i) \<and> is_lms s (Suc j) \<or> \<not> is_lms s (Suc i) \<and> \<not> is_lms s (Suc j) \<and> lms_key s (Suc i) = lms_key s (Suc j))"
proof -
  obtain r1 r2 where r: "lms_key s (Suc i) = symbol s (Suc i) # r1" "lms_key s (Suc j) = symbol s (Suc j) # r2"
    using lms_key_rec(1) by meson
  note same = same_lms [OF ij]
  show "lex_less (first_key s (Suc i)) (first_key s (Suc j)) \<longleftrightarrow>
      symbol s (Suc i) < symbol s (Suc j) \<or> \<not> is_lms s (Suc i) \<and> \<not> is_lms s (Suc j) \<and> lex_less (lms_key s (Suc i)) (lms_key s (Suc j))"
    using same by (auto simp: first_key_def r)
  show "first_key s (Suc i) = first_key s (Suc j) \<longleftrightarrow> symbol s (Suc i) = symbol s (Suc j) \<and>
      (is_lms s (Suc i) \<and> is_lms s (Suc j) \<or> \<not> is_lms s (Suc i) \<and> \<not> is_lms s (Suc j) \<and> lms_key s (Suc i) = lms_key s (Suc j))"
    using same by (auto simp: first_key_def r)
qed

lemma key_order:
  assumes s: "sortable s"
  shows "i < length s \<Longrightarrow> j < length s \<Longrightarrow> lex_less (lms_key s i) (lms_key s j) \<Longrightarrow> lex_less (suffix_key s i) (suffix_key s j)"
proof (induction "length s - i" arbitrary: i j rule: less_induct)
  case less
  obtain r1 r2 where r: "lms_key s i = symbol s i # r1" "lms_key s j = symbol s j # r2" using lms_key_rec(1) by meson
  show ?case
  proof (cases "symbol s i = symbol s j")
    case False
    then show ?thesis using less.prems by (simp add: r suffix_key_rec)
  next
    case True
    note same = same_end [OF s less.prems(1,2) True]
    show ?thesis
    proof (cases "Suc i < length s")
      case False
      then show ?thesis using less.prems(3) True same by (simp add: lms_key.simps)
    next
      case ij: True
      then have j: "Suc j < length s" using same by simp
      have "lex_less (first_key s (Suc i)) (first_key s (Suc j))"
        using less.prems(3) True lms_key_rec(2) [OF ij] lms_key_rec(2) [OF j] by simp
      then have "lex_less (suffix_key s (Suc i)) (suffix_key s (Suc j))"
        using first_key_less(1) [OF s ij j True] less.hyps [of "Suc i" "Suc j"] ij j by (auto simp: suffix_key_rec)
      then show ?thesis using True less.prems by (simp add: suffix_key_rec)
    qed
  qed
qed

lemma last_lms:
  assumes "sortable s"
  shows "is_lms s (length s - 1)"
proof -
  let ?k = "length s - 2"
  have k: "Suc ?k = length s - 1" "Suc ?k < length s" using assms by (auto simp: sortable_def)
  have "s ! (length s - 1) < s ! ?k" by (rule sortable_last(1) [OF assms k(2)])
  then have "\<not> stypes s ! ?k" using stypes_nth [OF k(2)] unfolding k(1) by simp
  moreover have "stypes s ! (length s - 1)" by (rule stypes_last) (use k(2) in auto)
  moreover have "length s - 1 - 1 = ?k" by simp
  ultimately show ?thesis using k unfolding is_lms_def by simp
qed

lemma key_equal:
  assumes s: "sortable s"
  shows "i < length s \<Longrightarrow> j < length s \<Longrightarrow> Suc i < length s \<Longrightarrow> lms_key s i = lms_key s j \<Longrightarrow>
    lex_less (suffix_key s (next_lms s i)) (suffix_key s (next_lms s j)) \<Longrightarrow> lex_less (suffix_key s i) (suffix_key s j)"
proof (induction "length s - i" arbitrary: i j rule: less_induct)
  case less
  obtain r1 r2 where r: "lms_key s i = symbol s i # r1" "lms_key s j = symbol s j # r2" using lms_key_rec(1) by meson
  then have eq: "symbol s i = symbol s j" using less.prems(4) by simp
  have j: "Suc j < length s" using same_end [OF s less.prems(1,2) eq] less.prems(3) by simp
  have "first_key s (Suc i) = first_key s (Suc j)"
    using less.prems(4) lms_key_rec(2) [OF less.prems(3)] lms_key_rec(2) [OF j] by simp
  then consider (lms) "is_lms s (Suc i)" "is_lms s (Suc j)" | (other) "\<not> is_lms s (Suc i)" "\<not> is_lms s (Suc j)" "lms_key s (Suc i) = lms_key s (Suc j)"
    using first_key_less(2) [OF s less.prems(3) j eq] by blast
  then have "lex_less (suffix_key s (Suc i)) (suffix_key s (Suc j))"
  proof cases
    case lms
    then show ?thesis using less.prems(3,5) j by (simp add: next_lms.simps [of s i] next_lms.simps [of s j])
  next
    case other
    then have nx: "lex_less (suffix_key s (next_lms s (Suc i))) (suffix_key s (next_lms s (Suc j)))"
      using less.prems(3,5) j by (simp add: next_lms.simps [of s i] next_lms.simps [of s j])
    have "Suc (Suc i) < length s"
    proof (rule ccontr)
      assume "\<not> ?thesis"
      then have "Suc (Suc i) = length s" using less.prems(3) by simp
      then show False using last_lms [OF s] other(1) by (metis diff_Suc_1)
    qed
    then show ?thesis using less.hyps [of "Suc i" "Suc j"] other(3) nx less.prems(3) j by simp
  qed
  then show ?case using eq less.prems(1,2) by (simp add: suffix_key_rec)
qed

text \<open>Sorting by symbols is sorting the suffixes.\<close>

lemma left_before_right:
  assumes s: "sortable s"
  shows "i < length s \<Longrightarrow> j < length s \<Longrightarrow> s ! i = s ! j \<Longrightarrow> \<not> stypes s ! i \<Longrightarrow> stypes s ! j \<Longrightarrow> suffix_less s i j"
proof (induction "length s - i" arbitrary: i j rule: less_induct)
  case less
  have i: "Suc i < length s" by (rule left_step(1) [OF less.prems(1,4)])
  have "Suc j \<noteq> length s" using sortable_last(2) [OF s less.prems(2)] sortable_last(2) [OF s less.prems(1)] less.prems(3) i by auto
  then have j: "Suc j < length s" using less.prems(2) by simp
  note t = stypes_nth [OF i] stypes_nth [OF j]
  have "lex_less (drop (Suc i) s) (drop (Suc j) s)"
  proof (cases "s ! Suc i < s ! Suc j")
    case True
    then show ?thesis using i j by (simp add: Cons_nth_drop_Suc [symmetric])
  next
    case False
    then have "s ! Suc i = s ! i" "s ! Suc j = s ! j" "\<not> stypes s ! Suc i" "stypes s ! Suc j" using t less.prems(3-5) by auto
    then show ?thesis using less.hyps [of "Suc i" "Suc j"] i j less.prems(3) by simp
  qed
  then show ?case using less.prems(1-3) by (simp add: Cons_nth_drop_Suc [symmetric])
qed

lemma suffix_key_less:
  assumes s: "sortable s"
  shows "i < length s \<Longrightarrow> j < length s \<Longrightarrow> lex_less (suffix_key s i) (suffix_key s j) \<Longrightarrow> suffix_less s i j"
proof (induction "length s - i" arbitrary: i j rule: less_induct)
  case less
  show ?case
  proof (cases "symbol s i = symbol s j")
    case False
    then have "symbol s i < symbol s j" using less.prems by (simp add: suffix_key_rec)
    then consider "s ! i < s ! j" | "s ! i = s ! j" "\<not> stypes s ! i" "stypes s ! j"
      unfolding symbol_less by blast
    then show ?thesis
    proof cases
      case 1
      then show ?thesis using less.prems by (simp add: Cons_nth_drop_Suc [symmetric])
    next
      case 2
      then show ?thesis using left_before_right [OF s] less.prems by blast
    qed
  next
    case True
    then have tail: "lex_less (suffix_key s (Suc i)) (suffix_key s (Suc j))" using less.prems by (simp add: suffix_key_rec)
    have "Suc i < length s" "Suc j < length s"
      using same_end [OF s less.prems(1,2) True] tail by (auto simp: suffix_key_def)
    then show ?thesis
      using less.hyps [of "Suc i" "Suc j"] tail symbol_le(2) [OF True] less.prems by (simp add: Cons_nth_drop_Suc [symmetric])
  qed
qed

lemma suffix_key_inj:
  assumes "i < length s" "j < length s" "suffix_key s i = suffix_key s j"
  shows "i = j"
  using arg_cong [OF assms(3), of length] assms(1,2) by (simp add: suffix_key_def)

section \<open>One round\<close>

text \<open>The regions of the second pass are those of the first one, from the right.\<close>

lemma mirrored_start:
  assumes s: "sortable s" and k: "k < length s"
  shows "region_start (length s) (mirrored s) (mirrored s k) = length s - region_start (length s) (symbol s) (Suc (symbol s k))"
    "region_start (length s) (mirrored s) (Suc (mirrored s k)) = length s - region_start (length s) (symbol s) (symbol s k)"
proof -
  have compl: "card {i. i < n \<and> \<not> P i} = n - card {i. i < n \<and> P i}" for n and P :: "nat \<Rightarrow> bool"
  proof -
    have "{i. i < n \<and> \<not> P i} = {..<n} - {i. i < n \<and> P i}" by auto
    then show ?thesis by (simp add: card_Diff_subset subset_eq)
  qed
  have "{i. i < length s \<and> mirrored s i < mirrored s k} = {i. i < length s \<and> \<not> symbol s i < Suc (symbol s k)}"
    using mirrored_less(1) k by auto
  then show "region_start (length s) (mirrored s) (mirrored s k) = length s - region_start (length s) (symbol s) (Suc (symbol s k))"
    by (simp add: region_start_def compl)
  have "mirrored s i < Suc (mirrored s k) \<longleftrightarrow> \<not> symbol s i < symbol s k" if "i < length s" for i
    using mirrored_less [OF that k] by (auto simp: less_Suc_eq)
  then have "{i. i < length s \<and> mirrored s i < Suc (mirrored s k)} = {i. i < length s \<and> \<not> symbol s i < symbol s k}" by auto
  then show "region_start (length s) (mirrored s) (Suc (mirrored s k)) = length s - region_start (length s) (symbol s) (symbol s k)"
    by (simp add: region_start_def compl)
qed

lemma mirrored_region:
  assumes s: "sortable s" and k: "k < length s" "q < length s"
  shows "right.in_region s (mirrored s k) q \<longleftrightarrow> left.in_region s (symbol s k) (length s - Suc q)"
proof -
  have "region_start (length s) (symbol s) r \<le> length s" for r using left.lo_le [of s r] s by (simp add: text_size_sortable)
  from this [of "symbol s k"] this [of "Suc (symbol s k)"] show ?thesis
    unfolding right.in_region_def left.in_region_def unfolding text_size_sortable [OF s] mirrored_start [OF s k(1)] using k(2) by linarith
qed

lemma distinct_filter_nth:
  assumes "distinct (filter P xs)" "a < length xs" "b < length xs" "xs ! a = xs ! b" "P (xs ! a)"
  shows "a = b"
proof -
  have False if "a < b" "b < length xs" "xs ! a = xs ! b" "P (xs ! a)" for a b
  proof -
    have "filter P xs = filter P (take b xs) @ filter P (xs ! b # drop (Suc b) xs)"
      by (metis Cons_nth_drop_Suc append_take_drop_id filter_append that(2))
    then have "xs ! b \<notin> set (filter P (take b xs))" using assms(1) that(3,4) by auto
    moreover have "xs ! a \<in> set (take b xs)" using that(1,2) by (auto simp: in_set_conv_nth intro!: exI [of _ a])
    ultimately show False using that(3,4) by auto
  qed
  from this [of a b] this [of b a] show ?thesis using assms(2-5) by (cases a b rule: linorder_cases) auto
qed

lemma right_start:
  assumes s: "sortable s" and A: "left.passed s A0 A1"
  shows "right.start_ok s (rev A1)"
proof -
  note n = text_size_sortable [OF s]
  have A1: "length A1 = length s" "\<And>q. q < length s \<Longrightarrow> left.valid s A1 q" "distinct (filter (\<lambda>x. 0 \<le> x) A1)"
    "\<And>i. i < length s \<Longrightarrow> left_target s i \<Longrightarrow> int i \<in> set A1"
    using A by (auto simp: left.passed_def simp flip: n)
  have rev: "rev A1 ! q = A1 ! (length s - Suc q)" if "q < length s" for q using that A1(1) by (simp add: rev_nth)
  have valid: "right.valid s (rev A1) q" if q: "q < length s" for q
  proof -
    have "left.valid s A1 (length s - Suc q)" using q by (intro A1(2)) auto
    then show ?thesis unfolding left.valid_def right.valid_def rev [OF q] using mirrored_region [OF s _ q] by (auto simp flip: n)
  qed
  have "q = q'" if q: "q < length s" "q' < length s" "rev A1 ! q = rev A1 ! q'" "0 \<le> rev A1 ! q" for q q'
  proof -
    have "length s - Suc q = length s - Suc q'"
      using distinct_filter_nth [OF A1(3), of "length s - Suc q" "length s - Suc q'"] q A1(1) rev by auto
    then show ?thesis using q by simp
  qed
  moreover have "\<exists>q < length s. right.fixed_slot s q \<and> rev A1 ! q = int (Suc i)" if i: "i < length s" "right_target s i" "\<not> right_target s (Suc i)" for i
  proof -
    have T: "stypes s ! i" "Suc i < length s" using i(2) by (auto simp: right_target_def)
    have "Suc (Suc i) \<noteq> length s"
    proof
      assume "Suc (Suc i) = length s"
      then have "s ! Suc i < s ! i" using sortable_last(1) [OF s T(2)] by (metis diff_Suc_1)
      then show False using stypes_nth [OF T(2)] T(1) by simp
    qed
    then have "left_target s (Suc i)" using i(3) T(2) by (auto simp: right_target_def left_target_def)
    then have "int (Suc i) \<in> set (rev A1)" using A1(4) [OF T(2)] by simp
    then obtain q where q: "q < length s" "rev A1 ! q = int (Suc i)" using A1(1) by (metis in_set_conv_nth length_rev)
    then have "right.in_region s (mirrored s (Suc i)) q" using right.valid_int [OF valid [OF q(1)]] by blast
    then show ?thesis using right.slot_of [of "Suc i" s q] T(2) i(3) q by (auto simp flip: n)
  qed
  ultimately show ?thesis using valid A1(1) by (simp add: right.start_ok_def flip: n)
qed

text \<open>A round sorts all positions by a key, if the keys extend those of the successors.\<close>

definition sorted_by :: "nat list \<Rightarrow> (nat \<Rightarrow> nat list) \<Rightarrow> nat list \<Rightarrow> bool" where
  "sorted_by s key sa \<longleftrightarrow> distinct sa \<and> set sa = {..<length s} \<and> sorted_wrt (\<lambda>i j. lex_le (key i) (key j)) sa"

lemma in_order_rev: "in_order (rev xs) x y \<longleftrightarrow> in_order xs y x"
proof -
  have "in_order (rev xs) x y \<Longrightarrow> in_order xs y x" for xs :: "'a list" and x y
  proof -
    assume "in_order (rev xs) x y"
    then obtain a b where "a < b" "b < length xs" "rev xs ! a = x" "rev xs ! b = y" by (auto simp: in_order_def)
    then show "in_order xs y x" unfolding in_order_def
      by (intro exI [of _ "length xs - Suc b"] exI [of _ "length xs - Suc a"]) (auto simp: rev_nth)
  qed
  from this [of xs x y] this [of "rev xs" y x] show ?thesis by auto
qed

lemma round_complete:
  assumes s: "sortable s" and A: "left.passed s A0 A1" "right.passed s (rev A1) A2"
    and last: "\<exists>q < length s. left.fixed_slot s q \<and> A0 ! q = int (length s - 1)"
  shows "\<exists>sa. rev A2 = map int sa \<and> distinct sa \<and> set sa = {..<length s}"
proof -
  note n = text_size_sortable [OF s]
  have A1: "length A1 = length s" "\<And>i. i < length s \<Longrightarrow> left_target s i \<Longrightarrow> int i \<in> set A1"
      "\<And>q. q < length s \<Longrightarrow> left.fixed_slot s q \<Longrightarrow> A1 ! q = A0 ! q"
    and A2: "length A2 = length s" "\<And>i. i < length s \<Longrightarrow> right_target s i \<Longrightarrow> int i \<in> set A2"
      "\<And>q. q < length s \<Longrightarrow> right.fixed_slot s q \<Longrightarrow> A2 ! q = rev A1 ! q"
    using A by (auto simp: left.passed_def right.passed_def simp flip: n)
  have valid: "right.valid s (rev A1) q" if "q < length s" "right.fixed_slot s q" for q
    using right_start [OF s A(1)] that by (simp add: right.start_ok_def flip: n)
  have last1: "int (length s - 1) \<in> set A1" using last A1(1,3) by (metis nth_mem)
  have "int i \<in> set A2" if i: "i < length s" for i
  proof (cases "right_target s i")
    case False
    then have "left_target s i \<or> i = length s - 1" using i by (auto simp: right_target_def left_target_def)
    then have "int i \<in> set (rev A1)" using A1(2) [OF i] last1 by auto
    then obtain q where q: "q < length s" "rev A1 ! q = int i" using A1(1) by (metis in_set_conv_nth length_rev)
    have "left.valid s A1 (length s - Suc q)" using A(1) q(1) by (simp add: left.passed_def flip: n)
    then have "left.in_region s (symbol s i) (length s - Suc q)" using left.valid_int [of s A1 _ i] q A1(1) by (simp add: rev_nth)
    then have "right.in_region s (mirrored s i) q" using mirrored_region [OF s i q(1)] by simp
    then have "right.fixed_slot s q" using right.slot_of [of i s q] i False by (simp flip: n)
    then show ?thesis using A2(1) A2(3) [OF q(1)] q by (metis nth_mem)
  qed (use A2(2) i in blast)
  then have sub: "int ` {..<length s} \<subseteq> set A2" by auto
  have "card (int ` {..<length s}) = length s" by (simp add: card_image)
  then have "length s \<le> card (set A2)" using card_mono [OF _ sub] by simp
  then have card: "card (set A2) = length A2" using card_length [of A2] A2(1) by simp
  have set: "set A2 = int ` {..<length s}"
    by (rule card_subset_eq [symmetric, OF _ sub]) (simp_all add: card A2(1) card_image)
  let ?sa = "map nat (rev A2)"
  have "map (int \<circ> nat) (rev A2) = rev A2" using set by (intro map_idI) auto
  then have "rev A2 = map int ?sa" by simp
  moreover have "distinct ?sa"
    using card_distinct [OF card] set by (auto simp: distinct_map inj_on_def)
  moreover have "set ?sa = {..<length s}" using set by force
  ultimately show ?thesis by blast
qed

theorem round_sorted:
  assumes s: "sortable s" and A: "left.passed s A0 A1" "right.passed s (rev A1) A2" "length A0 = length s"
    and last: "\<exists>q < length s. left.fixed_slot s q \<and> A0 ! q = int (length s - 1)"
    and heads: "\<And>i. i < length s \<Longrightarrow> \<exists>r. f i = symbol s i # r" "\<And>i. i < length s \<Longrightarrow> \<exists>r. key i = symbol s i # r"
    and left: "\<And>i. i < length s \<Longrightarrow> \<not> stypes s ! i \<Longrightarrow> key i = f i \<and> f i = symbol s i # f (Suc i)"
    and right: "\<And>i. Suc i < length s \<Longrightarrow> stypes s ! i \<Longrightarrow> key i = symbol s i # key (Suc i)"
    and start: "\<And>i j. i < length s \<Longrightarrow> j < length s \<Longrightarrow> stypes s ! i \<Longrightarrow> in_order A0 (int i) (int j) \<Longrightarrow> symbol s i = symbol s j \<Longrightarrow> lex_le (f i) (f j)"
  shows "\<exists>sa. rev A2 = map int sa \<and> sorted_by s key sa"
proof -
  note n = text_size_sortable [OF s]
  obtain sa where sa: "rev A2 = map int sa" "distinct sa" "set sa = {..<length s}"
    using round_complete [OF s A(1,2) last] by blast
  have first: "lex_le (f i) (f j)" if "in_order A1 (int i) (int j)" for i j
  proof (rule left.passed_order [OF A(1) _ _ _ that])
    fix i j assume "i < text_size s" "j < text_size s" "symbol s i < symbol s j"
    then show "lex_le (f i) (f j)" using heads(1) [of i] heads(1) [of j] by (auto simp: n)
  next
    fix i j assume "i < text_size s" "j < text_size s" "\<not> left_target s i" "symbol s i = symbol s j" "in_order A0 (int i) (int j)"
    then show "lex_le (f i) (f j)" using start [of i j] by (simp add: left_target_def n)
  next
    fix i j assume "Suc i < text_size s" "Suc j < text_size s" "left_target s i" "left_target s j" "symbol s i = symbol s j" "lex_le (f (Suc i)) (f (Suc j))"
    then show "lex_le (f i) (f j)" using left [of i] left [of j] by (auto simp: left_target_def n)
  qed (simp add: A(3) n)
  have "lex_le (key j) (key i)" if "in_order A2 (int i) (int j)" for i j
  proof (rule right.passed_order [OF A(2) _ _ _ that])
    fix i j assume ij: "i < text_size s" "j < text_size s" "mirrored s i < mirrored s j"
    then have "symbol s j < symbol s i" using mirrored_less by (simp add: n)
    then show "lex_le (key j) (key i)" using heads(2) [of i] heads(2) [of j] ij by (auto simp: n)
  next
    fix i j assume ij: "i < text_size s" "j < text_size s" "\<not> right_target s i" "mirrored s i = mirrored s j" "in_order (rev A1) (int i) (int j)"
    then have lt: "i < length s" "j < length s" by (simp_all add: n)
    have eq: "symbol s i = symbol s j" using mirrored_less(2) [OF lt] ij(4) by simp
    show "lex_le (key j) (key i)"
    proof (cases "stypes s ! i")
      case True
      then have "Suc i = length s" using ij(3) lt by (auto simp: right_target_def)
      then have "i = j" using eq symbol_last [OF s lt(1)] symbol_last [OF s lt(2)] by simp
      then show ?thesis by simp
    next
      case False
      then have "\<not> stypes s ! j" using symbol_le(2) [OF eq] by simp
      then show ?thesis using first [of j i] ij(5) left False lt by (simp add: in_order_rev)
    qed
  next
    fix i j assume "Suc i < text_size s" "Suc j < text_size s" "right_target s i" "right_target s j" "mirrored s i = mirrored s j" "lex_le (key (Suc j)) (key (Suc i))"
    then show "lex_le (key j) (key i)" using right [of i] right [of j] mirrored_less(2) [of i s j] by (auto simp: right_target_def n)
  qed (use A in \<open>simp add: left.passed_def flip: n\<close>)
  then have "lex_le (key i) (key j)" if "in_order (map int sa) (int i) (int j)" for i j
    using that by (simp add: in_order_rev flip: sa(1))
  then have "sorted_wrt (\<lambda>i j. lex_le (key i) (key j)) sa"
    unfolding sorted_wrt_iff_nth_less in_order_def by fastforce
  then show ?thesis using sa by (auto simp: sorted_by_def)
qed

text \<open>The two rounds.\<close>

theorem first_round:
  assumes "sortable s" "left.passed s A0 A1" "right.passed s (rev A1) A2" "length A0 = length s"
    "\<exists>q < length s. left.fixed_slot s q \<and> A0 ! q = int (length s - 1)"
    and lms: "\<And>i j. i < length s \<Longrightarrow> j < length s \<Longrightarrow> stypes s ! i \<Longrightarrow> in_order A0 (int i) (int j) \<Longrightarrow> symbol s i = symbol s j \<Longrightarrow> is_lms s i \<and> is_lms s j"
  shows "\<exists>sa. rev A2 = map int sa \<and> sorted_by s (lms_key s) sa"
proof (rule round_sorted [OF assms(1-5)])
  fix i assume i: "i < length s" "\<not> stypes s ! i"
  then have f: "first_key s i = lms_key s i" by (simp add: first_key_def is_lms_def)
  then show "lms_key s i = first_key s i \<and> first_key s i = symbol s i # first_key s (Suc i)"
    using lms_key_rec(2) [of i s] left_step(1) [OF i] by simp
next
  fix i assume "Suc i < length s" "stypes s ! i"
  then show "lms_key s i = symbol s i # lms_key s (Suc i)" using right_step(2) [of i s] by (simp add: lms_key.simps [of s i])
next
  fix i j assume "i < length s" "j < length s" "stypes s ! i" "in_order A0 (int i) (int j)" "symbol s i = symbol s j"
  then show "lex_le (first_key s i) (first_key s j)" using lms by (simp add: first_key_def)
qed (use first_key_cases lms_key_rec(1) in blast)+

theorem second_round:
  assumes "sortable s" "left.passed s A0 A1" "right.passed s (rev A1) A2" "length A0 = length s"
    "\<exists>q < length s. left.fixed_slot s q \<and> A0 ! q = int (length s - 1)"
    and sorted: "\<And>i j. i < length s \<Longrightarrow> j < length s \<Longrightarrow> stypes s ! i \<Longrightarrow> in_order A0 (int i) (int j) \<Longrightarrow> symbol s i = symbol s j \<Longrightarrow> lex_le (suffix_key s i) (suffix_key s j)"
  shows "\<exists>sa. rev A2 = map int sa \<and> is_suffix_array s sa"
proof -
  have "\<exists>sa. rev A2 = map int sa \<and> sorted_by s (suffix_key s) sa"
    by (rule round_sorted [OF assms(1-5), where f = "suffix_key s"]) (use suffix_key_rec sorted in auto)
  then obtain sa where sa: "rev A2 = map int sa" "sorted_by s (suffix_key s) sa" by blast
  have "length sa = length s" using sa(2) distinct_card [of sa] by (simp add: sorted_by_def)
  moreover have "sorted_wrt (suffix_less s) sa"
  proof -
    have "suffix_less s i j" if "i \<in> set sa" "j \<in> set sa" "i \<noteq> j" "lex_le (suffix_key s i) (suffix_key s j)" for i j
      using that sa(2) suffix_key_less [OF assms(1)] suffix_key_inj [of i s j] by (auto simp: sorted_by_def)
    moreover have "distinct sa" "\<And>i j. i < j \<Longrightarrow> j < length sa \<Longrightarrow> lex_le (suffix_key s (sa ! i)) (suffix_key s (sa ! j))"
      using sa(2) by (auto simp: sorted_by_def sorted_wrt_iff_nth_less)
    ultimately show ?thesis by (simp add: sorted_wrt_iff_nth_less nth_eq_iff_index_eq)
  qed
  ultimately show ?thesis using sa by (auto simp: is_suffix_array_def sorted_by_def)
qed

section \<open>The reduced text\<close>

definition lms_list :: "nat list \<Rightarrow> nat list" where
  "lms_list s = filter (is_lms s) [0..<length s]"

definition lms_name :: "nat list \<Rightarrow> nat \<Rightarrow> nat" where
  "lms_name s i = card (lms_key s ` {j. is_lms s j \<and> lex_less (lms_key s j) (lms_key s i)})"

definition reduced :: "nat list \<Rightarrow> nat list" where
  "reduced s = map (lms_name s) (lms_list s)"

lemma lms_list_facts: "set (lms_list s) = {i. is_lms s i}" "sorted_wrt (<) (lms_list s)" "distinct (lms_list s)"
  by (auto simp: lms_list_def is_lms_def sorted_wrt_filter)

lemma finite_lms [simp]: "finite {j. is_lms s j \<and> P j}"
  by (rule finite_subset [of _ "{..<length s}"]) (auto simp: is_lms_def)

lemma lms_name_mono:
  assumes "is_lms s i" "lex_less (lms_key s i) (lms_key s j)"
  shows "lms_name s i < lms_name s j"
  unfolding lms_name_def
proof (rule psubset_card_mono)
  let ?S = "\<lambda>i. lms_key s ` {j. is_lms s j \<and> lex_less (lms_key s j) (lms_key s i)}"
  have "?S i \<subseteq> ?S j" using assms(2) lex_less_trans by blast
  moreover have "lms_key s i \<in> ?S j" "lms_key s i \<notin> ?S i" using assms by auto
  ultimately show "?S i \<subset> ?S j" by blast
qed simp

lemma lms_name_iff:
  assumes "is_lms s i" "is_lms s j"
  shows "lms_name s i < lms_name s j \<longleftrightarrow> lex_less (lms_key s i) (lms_key s j)"
    and "lms_name s i = lms_name s j \<longleftrightarrow> lms_key s i = lms_key s j"
proof -
  have eq: "lms_key s i = lms_key s j \<Longrightarrow> lms_name s i = lms_name s j" by (simp add: lms_name_def)
  show "lms_name s i < lms_name s j \<longleftrightarrow> lex_less (lms_key s i) (lms_key s j)"
    and "lms_name s i = lms_name s j \<longleftrightarrow> lms_key s i = lms_key s j"
    using lex_total [of "lms_key s i" "lms_key s j"] lms_name_mono [OF assms(1), of j] lms_name_mono [OF assms(2), of i] eq by auto
qed

lemma next_lms_spec:
  assumes "sortable s"
  shows "Suc i < length s \<Longrightarrow> is_lms s (next_lms s i) \<and> i < next_lms s i \<and> (\<forall>k. i < k \<longrightarrow> k < next_lms s i \<longrightarrow> \<not> is_lms s k)"
proof (induction "length s - i" arbitrary: i rule: less_induct)
  case less
  show ?case
  proof (cases "is_lms s (Suc i)")
    case True
    then show ?thesis by (simp add: next_lms.simps [of s i])
  next
    case False
    then have "Suc (Suc i) \<noteq> length s" using last_lms [OF assms] by (metis diff_Suc_1)
    then have IH: "is_lms s (next_lms s (Suc i)) \<and> Suc i < next_lms s (Suc i) \<and> (\<forall>k. Suc i < k \<longrightarrow> k < next_lms s (Suc i) \<longrightarrow> \<not> is_lms s k)"
      using less.hyps [of "Suc i"] less.prems by simp
    have "next_lms s i = next_lms s (Suc i)" using False less.prems by (simp add: next_lms.simps [of s i])
    then show ?thesis using IH False by (metis Suc_lessD Suc_lessI)
  qed
qed

lemma lms_list_next:
  assumes s: "sortable s" and a: "a < length (lms_list s)" "Suc (lms_list s ! a) < length s"
  shows "Suc a < length (lms_list s)" "next_lms s (lms_list s ! a) = lms_list s ! Suc a"
proof -
  let ?xs = "lms_list s" let ?y = "next_lms s (lms_list s ! a)"
  note nx = next_lms_spec [OF s a(2)]
  have mono: "?xs ! i < ?xs ! j" if "i < j" "j < length ?xs" for i j using lms_list_facts(2) [of s] that by (simp add: sorted_wrt_iff_nth_less)
  have "?y \<in> set ?xs" using nx lms_list_facts(1) by simp
  then obtain b where b: "b < length ?xs" "?xs ! b = ?y" by (auto simp: in_set_conv_nth)
  have "?xs ! a < ?xs ! b" using nx b(2) by simp
  then have "a < b" using mono [of b a] a(1) by (metis less_asym linorder_neqE_nat less_irrefl)
  then show l: "Suc a < length ?xs" using b(1) by simp
  have "is_lms s (?xs ! Suc a)" using nth_mem [OF l] lms_list_facts(1) by blast
  then have "\<not> ?xs ! Suc a < ?y" using nx mono [of a "Suc a"] l by blast
  then have "\<not> Suc a < b" using mono [of "Suc a" b] b by auto
  then show "?y = ?xs ! Suc a" using \<open>a < b\<close> b by (metis Suc_lessI)
qed

lemma lms_list_last:
  assumes "sortable s"
  shows "lms_list s \<noteq> []" "last (lms_list s) = length s - 1" "a < length (lms_list s) \<Longrightarrow> lms_list s ! a = length s - 1 \<longleftrightarrow> Suc a = length (lms_list s)"
proof -
  let ?xs = "lms_list s"
  have mem: "length s - 1 \<in> set ?xs" using last_lms [OF assms] lms_list_facts(1) by simp
  then show ne: "?xs \<noteq> []" by auto
  obtain b where b: "b < length ?xs" "?xs ! b = length s - 1" using mem by (auto simp: in_set_conv_nth)
  have le: "?xs ! a \<le> length s - 1" if "a < length ?xs" for a
  proof -
    have "is_lms s (?xs ! a)" using nth_mem [OF that] lms_list_facts(1) by blast
    then have "?xs ! a < length s" by (simp add: is_lms_def)
    then show ?thesis by linarith
  qed
  have mono: "?xs ! i < ?xs ! j" if "i < j" "j < length ?xs" for i j using lms_list_facts(2) [of s] that by (simp add: sorted_wrt_iff_nth_less)
  have "\<not> Suc b < length ?xs"
  proof
    assume "Suc b < length ?xs"
    then show False using mono [of b "Suc b"] le [of "Suc b"] b(2) by linarith
  qed
  then have "Suc b = length ?xs" using b(1) by simp
  then show "last ?xs = length s - 1" using b(2) ne by (metis diff_Suc_1 last_conv_nth)
  show "?xs ! a = length s - 1 \<longleftrightarrow> Suc a = length ?xs" if "a < length ?xs"
    using that b \<open>Suc b = length ?xs\<close> lms_list_facts(3) by (metis nat.inject nth_eq_iff_index_eq)
qed

lemma lms_key_last: "sortable s \<Longrightarrow> lms_key s (length s - 1) = [symbol s (length s - 1)]"
  by (subst lms_key.simps) (auto simp: sortable_def)

lemma last_name_least:
  assumes s: "sortable s" and i: "is_lms s i" "i \<noteq> length s - 1"
  shows "lex_less (lms_key s (length s - 1)) (lms_key s i)"
proof -
  have lt: "Suc i < length s" using i by (auto simp: is_lms_def)
  then have "symbol s (length s - 1) < symbol s i" using sortable_last(1) [OF s lt] by (simp add: symbol_less)
  moreover obtain r where "lms_key s i = symbol s i # r" using lms_key_rec(1) by blast
  ultimately show ?thesis unfolding lms_key_last [OF s] by simp
qed

lemma reduced_marked:
  assumes s: "sortable s"
  shows "marked (reduced s)" "length (reduced s) = length (lms_list s)"
proof -
  let ?xs = "lms_list s"
  show len: "length (reduced s) = length ?xs" by (simp add: reduced_def)
  have "last (reduced s) = lms_name s (length s - 1)" using lms_list_last [OF s] by (simp add: reduced_def last_map)
  moreover have "lms_name s (length s - 1) < x" if x: "x \<in> set (butlast (reduced s))" for x
  proof -
    obtain a where a: "a < length (butlast ?xs)" "x = lms_name s (?xs ! a)"
      using x by (auto simp: reduced_def map_butlast [symmetric] in_set_conv_nth nth_butlast)
    then have "a < length ?xs" "?xs ! a \<noteq> length s - 1" using lms_list_last(3) [OF s, of a] by auto
    moreover have "is_lms s (?xs ! a)" using nth_mem [of a ?xs] lms_list_facts(1) [of s] calculation(1) by blast
    ultimately show ?thesis using lms_name_mono [OF last_lms [OF s]] last_name_least [OF s] a(2) by blast
  qed
  ultimately show "marked (reduced s)" using lms_list_last(1) [OF s] by (auto simp: marked_def reduced_def)
qed

lemma reduced_order:
  assumes s: "sortable s"
  shows "a < length (lms_list s) \<Longrightarrow> b < length (lms_list s) \<Longrightarrow> suffix_less (reduced s) a b \<Longrightarrow>
    lex_less (suffix_key s (lms_list s ! a)) (suffix_key s (lms_list s ! b))"
proof (induction "length (lms_list s) - a" arbitrary: a b rule: less_induct)
  case less
  let ?xs = "lms_list s" let ?i = "lms_list s ! a" and ?j = "lms_list s ! b"
  have lms: "is_lms s ?i" "is_lms s ?j" using nth_mem less.prems(1,2) lms_list_facts(1) [of s] by blast+
  then have lt: "?i < length s" "?j < length s" by (auto simp: is_lms_def)
  have drop: "drop a (reduced s) = lms_name s ?i # drop (Suc a) (reduced s)" "drop b (reduced s) = lms_name s ?j # drop (Suc b) (reduced s)"
    using less.prems(1,2) by (simp_all add: reduced_def drop_map Cons_nth_drop_Suc [symmetric])
  show ?case
  proof (cases "lms_name s ?i = lms_name s ?j")
    case False
    then show ?thesis using less.prems(3) drop lms_name_iff(1) [OF lms] key_order [OF s lt] by simp
  next
    case True
    then have key: "lms_key s ?i = lms_key s ?j" using lms_name_iff(2) [OF lms] by simp
    then have sym: "symbol s ?i = symbol s ?j" using lms_key_rec(1) [of s ?i] lms_key_rec(1) [of s ?j] by auto
    have tail: "suffix_less (reduced s) (Suc a) (Suc b)" using less.prems(3) drop True by simp
    then have "Suc b \<noteq> length ?xs" using reduced_marked(2) [OF s] by auto
    then have "Suc ?j < length s" using lms_list_last(3) [OF s less.prems(2)] lt(2) by auto
    then have ij: "Suc ?i < length s" "Suc ?j < length s" using same_end [OF s lt sym] by simp_all
    note nx = lms_list_next [OF s less.prems(1) ij(1)] lms_list_next [OF s less.prems(2) ij(2)]
    have "lex_less (suffix_key s (?xs ! Suc a)) (suffix_key s (?xs ! Suc b))" using less.hyps [OF _ nx(1,3) tail] less.prems(1) by simp
    then show ?thesis using key_equal [OF s lt ij(1) key] nx(2,4) by simp
  qed
qed

text \<open>At most every second position is in the list.\<close>

lemma lms_div_inj: "inj_on (\<lambda>i. i div 2) {i. is_lms s i}" "inj_on (\<lambda>i. (i - 1) div 2) {i. is_lms s i}"
proof -
  have adj: "\<not> (is_lms s i \<and> is_lms s (Suc i))" for i by (simp add: is_lms_def)
  have close: "i = j" if "is_lms s i" "is_lms s j" "i \<le> Suc j" "j \<le> Suc i" for i j
    using adj [of i] adj [of j] that by (cases i j rule: linorder_cases) (auto simp: le_Suc_eq)
  have pos: "is_lms s i \<Longrightarrow> 0 < i" for i by (simp add: is_lms_def)
  have half: "x \<le> Suc y" if "x div 2 = y div 2" for x y :: nat using that by presburger
  show "inj_on (\<lambda>i. i div 2) {i. is_lms s i}"
  proof (rule inj_onI)
    fix x y assume "x \<in> {i. is_lms s i}" "y \<in> {i. is_lms s i}" "x div 2 = y div 2"
    then show "x = y" using close [of x y] half [of x y] half [of y x] by simp
  qed
  show "inj_on (\<lambda>i. (i - 1) div 2) {i. is_lms s i}"
  proof (rule inj_onI)
    fix x y assume "x \<in> {i. is_lms s i}" "y \<in> {i. is_lms s i}" "(x - 1) div 2 = (y - 1) div 2"
    then show "x = y" using close [of x y] half [of "x - 1" "y - 1"] half [of "y - 1" "x - 1"] pos [of x] pos [of y] by simp
  qed
qed

lemma lms_list_length: "length (lms_list s) \<le> length s div 2"
proof -
  have "length (lms_list s) = card {i. is_lms s i}" using distinct_card [OF lms_list_facts(3)] lms_list_facts(1) by metis
  also have "\<dots> = card ((\<lambda>i. (i - 1) div 2) ` {i. is_lms s i})" by (rule card_image [symmetric, OF lms_div_inj(2)])
  also have "\<dots> \<le> card {..<length s div 2}" by (rule card_mono) (auto simp: is_lms_def)
  finally show ?thesis by simp
qed

end
