(* ===== verification/Suffix_Sorting.thy ===== *)
theory Suffix_Sorting
  imports Suffix_Array Induced_Sorting
begin

text \<open>
  The class \<^verbatim>\<open>SAIS\<close> returns the suffix array.  Each loop of \<^verbatim>\<open>_make\<close> is shown to compute what the
  theory of induced sorting says about it; the recursion is an induction over the reduced texts.

  \<^verbatim>\<open>_make\<close> works on the front of the array \<^verbatim>\<open>SA\<close>; behind it lie the parts that the calling
  instances still need, among them, in a recursive call, the text that is being sorted.  So every
  loop is described on an array split into the part it owns and a rest it leaves alone.
\<close>

section \<open>Reading and writing\<close>

lemma js_fold_range_inv:
  assumes "a \<le> b" "I a acc" and "\<And>i acc. a \<le> i \<Longrightarrow> i < b \<Longrightarrow> I i acc \<Longrightarrow> \<exists>acc'. f acc i = Inr acc' \<and> I (Suc i) acc'"
  shows "\<exists>acc'. js_fold f acc [a..<b] = Inr acc' \<and> I b acc'"
  using assms
proof (induction b rule: nat_induct_at_least [of a, case_names base step])
  case (step b)
  then obtain acc1 where "js_fold f acc [a..<b] = Inr acc1" "I b acc1" by fastforce
  then show ?case using step.prems(2) [of b acc1] step.hyps by (auto simp: js_fold_snoc)
qed simp

lemma js_fold_down_range_inv:
  assumes "a \<le> b" "I b acc" and "\<And>i acc. a \<le> i \<Longrightarrow> i < b \<Longrightarrow> I (Suc i) acc \<Longrightarrow> \<exists>acc'. f acc i = Inr acc' \<and> I i acc'"
  shows "\<exists>acc'. js_fold f acc (rev [a..<b]) = Inr acc' \<and> I a acc'"
  using assms
proof (induction b arbitrary: acc rule: nat_induct_at_least [of a, case_names base step])
  case (step b)
  then obtain acc1 where acc1: "f acc b = Inr acc1" "I b acc1" by blast
  then have "\<exists>acc'. js_fold f acc1 (rev [a..<b]) = Inr acc' \<and> I a acc'" using step.IH [of acc1] step.prems(2) by simp
  then show ?case using acc1 step.hyps by simp
qed simp

lemma js_fold_down_inv:
  assumes "I m acc" and "\<And>i acc. i < m \<Longrightarrow> I (Suc i) acc \<Longrightarrow> \<exists>acc'. f acc i = Inr acc' \<and> I i acc'"
  shows "\<exists>acc'. js_fold f acc (rev [0..<m]) = Inr acc' \<and> I 0 acc'"
  using js_fold_down_range_inv [of 0 m I acc f] assms by simp

text \<open>The text is read from outside the front of the array.\<close>

definition source_ok :: "oarray \<Rightarrow> int list \<Rightarrow> nat list \<Rightarrow> bool" where
  "source_ok src Z s \<longleftrightarrow> (\<forall>A i. length A = length s \<longrightarrow> i < length s \<longrightarrow> OArray_at src (A @ Z) i = Some (int (s ! i)))"

lemma source_at: "source_ok src Z s \<Longrightarrow> length A = length s \<Longrightarrow> i < length s \<Longrightarrow> OArray_at src (A @ Z) i = Some (int (s ! i))"
  by (simp add: source_ok_def)

lemma source_get: "source_ok src Z s \<Longrightarrow> length A = length s \<Longrightarrow> i < length s \<Longrightarrow> OArray_get src (A @ Z) i = Inr (s ! i)"
  by (simp add: OArray_get_def source_at)

lemma front_at [simp]: "i < length A \<Longrightarrow> js_at (A @ Z) i = Inr (A ! i)"
  by (simp add: js_at_def nth_append)

lemma front_put [simp]: "i < length A \<Longrightarrow> js_put (A @ Z) i x = Inr (A[i := x] @ Z)"
  by (simp add: js_put_def list_update_append1)

lemma fill_from_spec: "m \<le> length A \<Longrightarrow> fill_from (A @ Z) m (length A) = Inr (take m A @ replicate (length A - m) (- 1) @ Z)"
proof -
  assume m: "m \<le> length A"
  have "\<exists>SA. js_fold (\<lambda>SA i. js_put SA i (- 1)) (A @ Z) [m..<length A] = Inr SA
      \<and> SA = take m A @ replicate (length A - m) (- 1) @ drop (length A) A @ Z"
    by (rule js_fold_range_inv [OF m, where I = "\<lambda>i SA. SA = take m A @ replicate (i - m) (- 1) @ drop i A @ Z"])
      (auto simp: nth_append Suc_diff_le list_update_append replicate_append_same js_put_def
        Cons_nth_drop_Suc [symmetric] simp flip: replicate_append_same)
  then show ?thesis by (simp add: fill_from_def)
qed

section \<open>Types and buckets\<close>

lemma classify_spec:
  assumes s: "sortable s" and src: "source_ok src Z s" and A: "length A = length s"
  shows "\<exists>t. classify src (A @ Z) (length s) = Inr t \<and> bv_inv t \<and> bits_of t = stypes s"
proof -
  let ?n = "length s" let ?t = "BitVector_set (BitVector_set BitVector_new (int (?n - 2)) False) (int (?n - 1)) True"
  let ?f = "\<lambda>t i.
          if OArray_isS src (A @ Z) i then Inr (BitVector_set t (int i) True)
          else if OArray_compare src (A @ Z) i (i + 1)
          then js_bind (BitVector_get t (i + 1)) (\<lambda>b. Inr (BitVector_set t (int i) b))
          else Inr (BitVector_set t (int i) False)"
  define I where "I = (\<lambda>i t. bv_inv t \<and> length (bits_of t) = ?n \<and> (\<forall>k. i \<le> k \<longrightarrow> k < ?n \<longrightarrow> bits_of t ! k = stypes s ! k))"
  have n: "2 \<le> ?n" "int ?n - 2 = int (?n - 2)" "int ?n - 1 = int (?n - 1)" using s by (auto simp: sortable_def)
  have lms: "stypes s ! (?n - 1)" "\<not> stypes s ! (?n - 2)" using last_lms [OF s] n(1) by (simp_all add: is_lms_def numeral_2_eq_2)
  have t0: "bv_inv BitVector_new" "bits_of BitVector_new = []" by (simp_all add: bits_of_new)
  note t1 = BitVector_set_spec [OF t0(1), of "?n - 2" False] note t2 = BitVector_set_spec [OF t1(2), of "?n - 1" True]
  obtain m where m: "?n = Suc (Suc m)" using n(1) by (metis Suc_le_D numeral_2_eq_2 Suc_le_mono)
  have "(replicate (Suc m) False)[m := False] = replicate (Suc m) False"
    by (subst list_update_same_conv) (simp_all del: replicate.simps)
  moreover have "bv_size BitVector_new = 0" by (simp add: BitVector_new_def)
  ultimately have "bits_of (BitVector_set BitVector_new (int (?n - 2)) False) = replicate (Suc m) False"
    using t1(1) t0 by (simp add: m del: replicate.simps)
  moreover from this have "bv_size (BitVector_set BitVector_new (int (?n - 2)) False) = Suc m" using t1(2) length_bits_of by fastforce
  ultimately have "bits_of ?t = replicate (Suc m) False @ [True]"
    using t2(1) by (simp add: m list_update_append)
  then have "I (?n - 2) ?t"
    using t2(2) lms unfolding I_def m by (auto simp: nth_append le_Suc_eq less_Suc_eq simp del: replicate.simps)
  moreover have "\<exists>t'. ?f t i = Inr t' \<and> I i t'" if i: "i < ?n - 2" and t: "I (Suc i) t" for i t
  proof -
    have lt: "Suc i < ?n" using i by simp
    have inv: "bv_inv t" "length (bits_of t) = ?n" "\<And>k. Suc i \<le> k \<Longrightarrow> k < ?n \<Longrightarrow> bits_of t ! k = stypes s ! k"
      using t by (auto simp: I_def)
    have "bv_size t = ?n" using inv(1,2) by (simp add: length_bits_of)
    then have get: "BitVector_get t (Suc i) = Inr (stypes s ! Suc i)" using BitVector_get_spec [OF inv(1)] inv(3) lt by simp
    have put: "I i (BitVector_set t (int i) (stypes s ! i))"
      using BitVector_set_spec [OF inv(1), of i "stypes s ! i"] \<open>bv_size t = ?n\<close> inv lt by (auto simp: I_def nth_list_update)
    show ?thesis
      using put get source_at [OF src A, of i] source_at [OF src A, of "Suc i"] lt stypes_nth [OF lt]
      by (auto simp: OArray_isS_def OArray_compare_def)
  qed
  ultimately obtain t where "js_fold ?f ?t (rev [0..<?n - 2]) = Inr t" "I 0 t"
    using js_fold_down_inv [of I "?n - 2" ?t ?f] by blast
  moreover have "bits_of t = stypes s" using \<open>I 0 t\<close> by (intro nth_equalityI) (auto simp: I_def)
  moreover have "classify src (A @ Z) ?n = js_fold ?f ?t (rev [0..<?n - 2])" by (simp add: classify_def n(2,3))
  ultimately show ?thesis using \<open>I 0 t\<close> by (simp add: I_def)
qed

lemma isLMS_spec:
  assumes "bv_inv t" "bits_of t = stypes s" "i < length s"
  shows "SAIS_isLMS t i = Inr (is_lms s i)" "BitVector_get t i = Inr (stypes s ! i)"
proof -
  have "bv_size t = length s" using length_bits_of [OF assms(1)] assms(2) by simp
  then have "BitVector_get t k = Inr (stypes s ! k)" if "k < length s" for k using BitVector_get_spec [OF assms(1)] assms(2) that by simp
  then show "SAIS_isLMS t i = Inr (is_lms s i)" "BitVector_get t i = Inr (stypes s ! i)"
    using assms(3) by (auto simp: SAIS_isLMS_def is_lms_def)
qed

lemma bucket_sums_nth:
  "c < length bs \<Longrightarrow> bucket_sums e acc bs ! c = acc + sum_list (take c bs) + (if e then bs ! c else 0)"
proof (induction bs arbitrary: acc c)
  case (Cons b bs)
  then show ?case by (cases c) auto
qed simp

lemma length_bucket_sums [simp]: "length (bucket_sums e acc bs) = length bs"
  by (induction bs arbitrary: acc) auto

definition bucket :: "nat list \<Rightarrow> bool \<Rightarrow> nat \<Rightarrow> nat" where
  "bucket s e c = region_start (length s) (symbol s) (if e then 2 * c + 2 else 2 * c)"

lemma card_positions: "card {i. i < length s \<and> P (s ! i)} = length (filter P s)"
  by (simp add: length_filter_conv_card)

lemma bucket_count:
  "bucket s False c = length (filter (\<lambda>x. x < c) s)" "bucket s True c = length (filter (\<lambda>x. x \<le> c) s)"
proof -
  have "symbol s i < 2 * c \<longleftrightarrow> s ! i < c" "symbol s i < 2 * c + 2 \<longleftrightarrow> s ! i \<le> c" for i by (auto simp: symbol_def of_bool_def)
  then show "bucket s False c = length (filter (\<lambda>x. x < c) s)" "bucket s True c = length (filter (\<lambda>x. x \<le> c) s)"
    using card_positions [of s "\<lambda>x. x < c"] card_positions [of s "\<lambda>x. x \<le> c"] by (simp_all add: bucket_def region_start_def)
qed

lemma sum_counts: "sum_list (map (count_list s) [0..<c]) = length (filter (\<lambda>x. x < c) s)"
proof (induction c)
  case (Suc c)
  have "length (filter (\<lambda>x. x < Suc c) s) = length (filter (\<lambda>x. x < c) s) + count_list s c"
    by (induction s) auto
  then show ?case using Suc by simp
qed simp

lemma getBuckets_spec:
  assumes src: "source_ok src Z s" "length A = length s" and K: "\<forall>x \<in> set s. x \<le> K"
  shows "SAIS_getBuckets src (A @ Z) (length s) K e = Inr (map (bucket s e) [0..<Suc K])"
proof -
  let ?f = "\<lambda>bkt i. js_bind (OArray_get src (A @ Z) i) (bump bkt)"
  have "\<exists>bkt. js_fold ?f (replicate (K + 1) 0) [0..<length s] = Inr bkt \<and> bkt = map (count_list (take (length s) s)) [0..<Suc K]"
  proof (rule js_fold_upt_inv)
    show "replicate (K + 1) 0 = map (count_list (take 0 s)) [0..<Suc K]" by (intro nth_equalityI) (simp_all del: upt_Suc replicate.simps)
  next
    fix i bkt assume i: "i < length s" "bkt = map (count_list (take i s)) [0..<Suc K]"
    have "s ! i \<le> K" using K i(1) by simp
    then have "?f bkt i = Inr (bkt[s ! i := count_list (take i s) (s ! i) + 1])"
      using i source_get [OF src i(1)] by (simp add: bump_def del: upt_Suc)
    moreover have "bkt[s ! i := count_list (take i s) (s ! i) + 1] = map (count_list (take (Suc i) s)) [0..<Suc K]"
      using i by (intro nth_equalityI) (auto simp: nth_list_update take_Suc_conv_app_nth simp del: upt_Suc)
    ultimately show "\<exists>bkt'. ?f bkt i = Inr bkt' \<and> bkt' = map (count_list (take (Suc i) s)) [0..<Suc K]" by simp
  qed
  then have run: "SAIS_getBuckets src (A @ Z) (length s) K e = Inr (bucket_sums e 0 (map (count_list s) [0..<Suc K]))"
    by (simp add: SAIS_getBuckets_def del: upt_Suc)
  have "bucket_sums e 0 (map (count_list s) [0..<Suc K]) ! c = bucket s e c" if "c < Suc K" for c
  proof -
    have "take c [0..<Suc K] = [0..<c]" using that by (metis add_0 less_or_eq_imp_le take_upt)
    then have "bucket_sums e 0 (map (count_list s) [0..<Suc K]) ! c = sum_list (map (count_list s) [0..<c]) + (if e then count_list s c else 0)"
      using that by (simp add: bucket_sums_nth take_map del: upt_Suc)
    also have "\<dots> = bucket s e c"
      using sum_counts [of s c] sum_counts [of s "Suc c"] by (cases e) (simp_all add: bucket_count less_Suc_eq_le)
    finally show ?thesis .
  qed
  then have "bucket_sums e 0 (map (count_list s) [0..<Suc K]) = map (bucket s e) [0..<Suc K]"
    by (intro nth_equalityI) (simp_all del: upt_Suc)
  then show ?thesis using run by simp
qed

section \<open>The passes\<close>

lemma left_pass:
  assumes s: "sortable s" and src: "source_ok src Z s" and K: "\<forall>x \<in> set s. x \<le> K" and t: "bv_inv t" "bits_of t = stypes s"
    and A0: "left.start_ok s A0"
  shows "\<exists>A1. SAIS_induceSAl t (A0 @ Z) src (length s) K False = Inr (A1 @ Z) \<and> left.passed s A0 A1"
proof -
  let ?n = "length s" note n = text_size_sortable [OF s]
  let ?f = "\<lambda>st i. js_bind (js_at (fst st) i) (\<lambda>x.
          let j = x - 1 in
          if j < 0 then Inr st
          else js_bind (BitVector_get t (nat j)) (\<lambda>b.
            if b then Inr st else put_front src st (nat j)))"
  define I where "I = (\<lambda>p (SA, bkt). \<exists>A fr. SA = A @ Z \<and> left.inv s A0 p (A, fr) \<and> length bkt = Suc K \<and> (\<forall>c \<le> K. bkt ! c = fr (2 * c)))"
  have len0: "length A0 = ?n" using A0 by (simp add: left.start_ok_def flip: n)
  have "I 0 (A0 @ Z, map (bucket s False) [0..<Suc K])"
    using left.inv_start [of A0 s] len0 by (auto simp: I_def bucket_def n simp del: upt_Suc)
  moreover have "\<exists>st'. ?f st i = Inr st' \<and> I (Suc i) st'" if i: "i < ?n" and st: "I i st" for i st
  proof -
    obtain SA bkt where stp: "st = (SA, bkt)" by (cases st)
    then obtain A fr where SA: "SA = A @ Z" and inv: "left.inv s A0 i (A, fr)"
      and bkt: "length bkt = Suc K" "\<And>c. c \<le> K \<Longrightarrow> bkt ! c = fr (2 * c)" using st by (auto simp: I_def)
    have len: "length A = ?n" using left.invD(1) [OF inv] n by simp
    have i': "i < text_size s" using i n by simp
    note next_inv = left.step_inv [OF inv A0 i']
    have valid: "left.valid s A i" by (rule left.scanned_valid [OF inv A0 i'])
    show ?thesis
    proof (cases "0 < A ! i")
      case False
      then have "left.step s (A, fr) i = (A, fr)" by (simp add: left.step_def)
      then have "I (Suc i) st" using next_inv SA bkt by (auto simp: I_def stp)
      moreover have "?f st i = Inr st" using False i len by (simp add: stp SA nth_append Let_def)
      ultimately show ?thesis by blast
    next
      case True
      define j where "j = nat (A ! i) - 1"
      have Ai: "A ! i = int (Suc j)" using True by (simp add: j_def)
      then have j: "Suc j < ?n" using left.valid_int [OF valid] n by simp
      have get: "BitVector_get t j = Inr (stypes s ! j)" using isLMS_spec(2) [OF t] j by simp
      show ?thesis
      proof (cases "stypes s ! j")
        case T: True
        then have "left.step s (A, fr) i = (A, fr)" using Ai by (simp add: left.step_def left_target_def)
        then have "I (Suc i) st" using next_inv SA bkt by (auto simp: I_def stp)
        moreover have "?f st i = Inr st" using Ai i len get T by (simp add: stp SA nth_append Let_def)
        ultimately show ?thesis by blast
      next
        case L: False
        have sym: "symbol s j = 2 * s ! j" using L by (simp add: symbol_def)
        have "s ! j \<le> K" using K j by simp
        have "left_target s j" using L by (simp add: left_target_def)
        note slot = left.slot_free [OF inv A0 i' Ai this]
        have fr: "fr (2 * s ! j) < length A" using slot(3) left.lo_le [of s "Suc (symbol s j)"] n len sym by simp
        have "left.step s (A, fr) i = (A[fr (2 * s ! j) := int j], fr(2 * s ! j := Suc (fr (2 * s ! j))))"
          using Ai L by (simp add: left.step_def left_target_def sym Let_def)
        then have "I (Suc i) (A[fr (2 * s ! j) := int j] @ Z, bkt[s ! j := fr (2 * s ! j) + 1])"
          using next_inv bkt \<open>s ! j \<le> K\<close> by (auto simp: I_def nth_list_update)
        moreover have "?f st i = Inr (A[fr (2 * s ! j) := int j] @ Z, bkt[s ! j := fr (2 * s ! j) + 1])"
          using Ai i len get L bkt \<open>s ! j \<le> K\<close> fr source_get [OF src len, of j] j by (simp add: stp SA put_front_def nth_append Let_def list_update_append1)
        ultimately show ?thesis by blast
      qed
    qed
  qed
  ultimately obtain st where st: "js_fold ?f (A0 @ Z, map (bucket s False) [0..<Suc K]) [0..<?n] = Inr st" "I ?n st"
    using js_fold_upt_inv [of I _ ?n ?f] by blast
  then obtain A1 fr where A1: "fst st = A1 @ Z" "left.inv s A0 ?n (A1, fr)" by (auto simp: I_def)
  have "left.passed s A0 A1" using left.inv_passed [of s A0 A1 fr] A1(2) n by simp
  then show ?thesis using st(1) A1(1) getBuckets_spec [OF src len0 K, of False] by (simp add: SAIS_induceSAl_def del: upt_Suc)
qed

text \<open>The second pass scans from the right: on the reversed array it is a pass of the same kind.\<close>

lemma right_bucket:
  assumes "sortable s" "c \<le> Max (set s)"
  shows "bucket s True c = length s - region_start (length s) (mirrored s) (top_symbol s - (2 * c + 1))"
proof -
  have "mirrored s i < top_symbol s - (2 * c + 1) \<longleftrightarrow> \<not> symbol s i < 2 * c + 2" if "i < length s" for i
    using symbol_top [OF that] assms(2) unfolding mirrored_def top_symbol_def by linarith
  then have "{i. i < length s \<and> mirrored s i < top_symbol s - (2 * c + 1)} = {..<length s} - {i. i < length s \<and> symbol s i < 2 * c + 2}" by auto
  then have "region_start (length s) (mirrored s) (top_symbol s - (2 * c + 1)) = length s - bucket s True c"
    by (simp add: region_start_def bucket_def card_Diff_subset subset_eq)
  moreover have "bucket s True c \<le> length s" using left.lo_le [of s "2 * c + 2"] text_size_sortable [OF assms(1)] by (simp add: bucket_def)
  ultimately show ?thesis by simp
qed

lemma right_pass:
  assumes s: "sortable s" and src: "source_ok src Z s" and K: "\<forall>x \<in> set s. x \<le> K" and t: "bv_inv t" "bits_of t = stypes s"
    and A0: "right.start_ok s (rev A0)"
  shows "\<exists>A1. SAIS_induceSAs t (A0 @ Z) src (length s) K True = Inr (rev A1 @ Z) \<and> right.passed s (rev A0) A1"
proof -
  let ?n = "length s" note n = text_size_sortable [OF s]
  let ?m = "Max (set s)"
  let ?f = "\<lambda>st i. js_bind (js_at (fst st) i) (\<lambda>x.
          let j = x - 1 in
          if j < 0 then Inr st
          else js_bind (BitVector_get t (nat j)) (\<lambda>b.
            if \<not> b then Inr st else put_back src st (nat j)))"
  let ?r = "\<lambda>c. top_symbol s - (2 * c + 1)"
  have ne: "s \<noteq> []" using s by (auto simp: sortable_def)
  have max: "s ! j \<le> ?m" if "j < ?n" for j using that by simp
  have mK: "?m \<le> K" using K Max_in [of "set s"] ne by auto
  have r_inj: "c = c'" if "?r c = ?r c'" "c \<le> ?m" "c' \<le> ?m" for c c' using that by (simp add: top_symbol_def)
  define I where "I = (\<lambda>i (SA, bkt). \<exists>A fr. SA = rev A @ Z \<and> right.inv s (rev A0) (?n - i) (A, fr) \<and> length bkt = Suc K
    \<and> (\<forall>c \<le> ?m. bkt ! c = ?n - fr (?r c)))"
  have len0: "length A0 = ?n" using A0 by (simp add: right.start_ok_def flip: n)
  have start: "I ?n (A0 @ Z, map (bucket s True) [0..<Suc K])"
    using right.inv_start [of "rev A0" s] len0 right_bucket [OF s] mK unfolding I_def
    by (auto simp: n simp del: upt_Suc intro!: exI [of _ "rev A0"])
  moreover have "\<exists>st'. ?f st i = Inr st' \<and> I i st'" if i: "i < ?n" and st: "I (Suc i) st" for i st
  proof -
    obtain SA bkt where stp: "st = (SA, bkt)" by (cases st)
    then obtain A fr where SA: "SA = rev A @ Z" and inv: "right.inv s (rev A0) (?n - Suc i) (A, fr)"
      and bkt: "length bkt = Suc K" "\<And>c. c \<le> ?m \<Longrightarrow> bkt ! c = ?n - fr (?r c)" using st by (auto simp: I_def)
    let ?p = "?n - Suc i"
    have len: "length A = ?n" using right.invD(1) [OF inv] n by simp
    have p: "?p < text_size s" "Suc ?p = ?n - i" using i n by auto
    have Ap: "rev A ! i = A ! ?p" using i len by (simp add: rev_nth)
    note next_inv = right.step_inv [OF inv A0 p(1), unfolded p(2)]
    have valid: "right.valid s A ?p" by (rule right.scanned_valid [OF inv A0 p(1)])
    show ?thesis
    proof (cases "0 < A ! ?p")
      case False
      then have "right.step s (A, fr) ?p = (A, fr)" by (simp add: right.step_def)
      then have "I i st" using next_inv SA bkt by (auto simp: I_def stp)
      moreover have "?f st i = Inr st" using False i len Ap by (simp add: stp SA nth_append Let_def)
      ultimately show ?thesis by blast
    next
      case True
      define j where "j = nat (A ! ?p) - 1"
      have Ai: "A ! ?p = int (Suc j)" using True by (simp add: j_def)
      then have j: "Suc j < ?n" using right.valid_int [OF valid] n by simp
      have get: "BitVector_get t j = Inr (stypes s ! j)" using isLMS_spec(2) [OF t] j by simp
      show ?thesis
      proof (cases "stypes s ! j")
        case L: False
        then have "right.step s (A, fr) ?p = (A, fr)" using Ai by (simp add: right.step_def right_target_def)
        then have "I i st" using next_inv SA bkt by (auto simp: I_def stp)
        moreover have "?f st i = Inr st" using Ai i len get L Ap by (simp add: stp SA nth_append Let_def)
        ultimately show ?thesis by blast
      next
        case T: True
        have mir: "mirrored s j = ?r (s ! j)" using T by (simp add: mirrored_def symbol_def)
        have c: "s ! j \<le> ?m" using max [of j] j by simp
        have "s ! j \<in> set s" using j by simp
        then have cK: "s ! j < Suc K" using K by (simp add: less_Suc_eq_le)
        have tgt: "right_target s j" using T j by (simp add: right_target_def)
        note slot = right.slot_free [OF inv A0 p(1) Ai tgt]
        let ?b = "fr (?r (s ! j))"
        have fr: "?b < ?n" using slot(3) right.lo_le [of s "Suc (mirrored s j)"] n mir by simp
        have "right.step s (A, fr) ?p = (A[?b := int j], fr(?r (s ! j) := Suc ?b))"
          using Ai tgt by (simp add: right.step_def mir Let_def)
        moreover have "(bkt[s ! j := ?n - ?b - 1]) ! c' = ?n - (fr(?r (s ! j) := Suc ?b)) (?r c')" if "c' \<le> ?m" for c'
          using bkt c mK that r_inj [of c' "s ! j"] by (cases "c' = s ! j") auto
        ultimately have "I i (rev (A[?b := int j]) @ Z, bkt[s ! j := ?n - ?b - 1])"
          using next_inv bkt(1) unfolding I_def by auto
        moreover have "?f st i = Inr (rev (A[?b := int j]) @ Z, bkt[s ! j := ?n - ?b - 1])"
          using Ai i len get T bkt(1) bkt(2) [OF c] cK fr source_get [OF src, of "rev A" j] j Ap
          by (simp add: stp SA put_back_def nth_append Let_def rev_update list_update_append1)
        ultimately show ?thesis by blast
      qed
    qed
  qed
  ultimately obtain st where st: "js_fold ?f (A0 @ Z, map (bucket s True) [0..<Suc K]) (rev [0..<?n]) = Inr st" "I 0 st"
    using js_fold_down_inv [of I ?n _ ?f] by blast
  then obtain A1 fr where A1: "fst st = rev A1 @ Z" "right.inv s (rev A0) ?n (A1, fr)" by (auto simp: I_def)
  have "right.passed s (rev A0) A1" using right.inv_passed [of s "rev A0" A1 fr] A1(2) n by simp
  then show ?thesis using st(1) A1(1) getBuckets_spec [OF src len0 K, of True] by (simp add: SAIS_induceSAs_def del: upt_Suc)
qed

section \<open>Seeding the buckets\<close>

definition of_char_code :: "nat list \<Rightarrow> nat \<Rightarrow> nat list \<Rightarrow> nat list" where
  "of_char_code s c E = filter (\<lambda>i. s ! i = c) E"

abbreviation seed_start :: "nat list \<Rightarrow> nat list \<Rightarrow> nat \<Rightarrow> nat" where
  "seed_start s E c \<equiv> bucket s True c - length (of_char_code s c E)"

text \<open>The positions of a list lie at the ends of their buckets, the last ones first; the other slots have a default.\<close>

definition seeded :: "nat list \<Rightarrow> nat list \<Rightarrow> (nat \<Rightarrow> int) \<Rightarrow> int list \<Rightarrow> bool" where
  "seeded s E D A \<longleftrightarrow> length A = length s \<and> (\<forall>c. slice_of (seed_start s E c) (bucket s True c) A = map int (rev (of_char_code s c E)))
    \<and> (\<forall>q < length s. (\<forall>c. \<not> (seed_start s E c \<le> q \<and> q < bucket s True c)) \<longrightarrow> A ! q = D q)"

definition lms_subset :: "nat list \<Rightarrow> nat list \<Rightarrow> bool" where
  "lms_subset s E \<longleftrightarrow> distinct E \<and> (\<forall>i \<in> set E. is_lms s i)"

lemma bucket_bounds:
  assumes "sortable s"
  shows "bucket s True c \<le> length s" "c < c' \<Longrightarrow> bucket s True c \<le> region_start (length s) (symbol s) (2 * c' + 1)"
    "region_start (length s) (symbol s) (2 * c + 1) \<le> bucket s True c"
  using left.lo_le [of s "2 * c + 2"] left.lo_mono [of "2 * c + 2" "2 * c' + 1" s] left.lo_mono [of "2 * c + 1" "2 * c + 2" s]
  by (simp_all add: bucket_def text_size_sortable [OF assms])

lemma seed_count:
  assumes s: "sortable s" and E: "lms_subset s E"
  shows "region_start (length s) (symbol s) (2 * c + 1) + length (of_char_code s c E) \<le> bucket s True c"
    "is_lms s i \<Longrightarrow> i \<notin> set E \<Longrightarrow> region_start (length s) (symbol s) (2 * s ! i + 1) + length (of_char_code s (s ! i) E) < bucket s True (s ! i)"
proof -
  have room: "region_start (length s) (symbol s) (2 * c + 1) + length (of_char_code s c E) \<le> bucket s True c" if E: "lms_subset s E" for c E
  proof -
    have "distinct (of_char_code s c E)" using E by (simp add: lms_subset_def of_char_code_def)
    then have "length (of_char_code s c E) = card (set (of_char_code s c E))" by (simp only: distinct_card)
    also have "set (of_char_code s c E) \<subseteq> left.members s (2 * c + 1)"
      using E by (auto simp: of_char_code_def lms_subset_def left.members_def is_lms_def symbol_def simp flip: text_size_sortable [OF s])
    then have "card (set (of_char_code s c E)) \<le> card (left.members s (2 * c + 1))" by (intro card_mono) (auto simp: left.members_def)
    finally show ?thesis using left.lo_Suc [of s "2 * c + 1"] by (simp add: bucket_def text_size_sortable [OF s])
  qed
  show "region_start (length s) (symbol s) (2 * c + 1) + length (of_char_code s c E) \<le> bucket s True c" by (rule room [OF E])
  assume "is_lms s i" "i \<notin> set E"
  then have "lms_subset s (E @ [i])" using E by (auto simp: lms_subset_def)
  from room [OF this, of "s ! i"] show "region_start (length s) (symbol s) (2 * s ! i + 1) + length (of_char_code s (s ! i) E) < bucket s True (s ! i)"
    by (simp add: of_char_code_def)
qed

lemma seeded_at:
  assumes s: "sortable s" and E: "lms_subset s E" and A: "seeded s E D A" and q: "seed_start s E c \<le> q" "q < bucket s True c"
  shows "\<exists>i \<in> set E. A ! q = int i \<and> s ! i = c"
proof -
  have "A ! q \<in> set (slice_of (seed_start s E c) (bucket s True c) A)"
    by (rule slice_of_mem [OF q]) (use A bucket_bounds(1) [OF s] in \<open>simp add: seeded_def\<close>)
  then show ?thesis using A by (auto simp: seeded_def of_char_code_def)
qed

lemma slices_apart:
  assumes s: "sortable s" and E: "lms_subset s E" and q: "seed_start s E c \<le> q" "q < bucket s True c" "seed_start s E c' \<le> q" "q < bucket s True c'"
  shows "c = c'"
proof -
  have "region_start (length s) (symbol s) (2 * c + 1) \<le> q" "region_start (length s) (symbol s) (2 * c' + 1) \<le> q"
    using seed_count(1) [OF s E, of c] seed_count(1) [OF s E, of c'] q by linarith+
  then show ?thesis using bucket_bounds(2) [OF s, of c c'] bucket_bounds(2) [OF s, of c' c] q by (cases c c' rule: linorder_cases) auto
qed

lemma seeded_snoc:
  assumes s: "sortable s" and E: "lms_subset s E" and A: "seeded s E D A" and i: "is_lms s i" "i \<notin> set E"
  shows "seeded s (E @ [i]) D (A[seed_start s E (s ! i) - 1 := int i])" "seed_start s E (s ! i) - 1 < length s"
    "0 < seed_start s E (s ! i)" "lms_subset s (E @ [i])" "seed_start s (E @ [i]) c = (if c = s ! i then seed_start s E c - 1 else seed_start s E c)"
proof -
  let ?c = "s ! i" let ?b = "seed_start s E ?c - 1"
  have room: "region_start (length s) (symbol s) (2 * ?c + 1) + length (of_char_code s ?c E) < bucket s True ?c" by (rule seed_count(2) [OF s E i])
  then show pos: "0 < seed_start s E ?c" by simp
  show b: "?b < length s" using bucket_bounds(1) [OF s, of ?c] pos by linarith
  show E': "lms_subset s (E @ [i])" using E i by (auto simp: lms_subset_def)
  show st: "seed_start s (E @ [i]) c = (if c = ?c then seed_start s E c - 1 else seed_start s E c)" for c by (simp add: of_char_code_def)
  have len: "length A = length s" using A by (simp add: seeded_def)
  have sl: "slice_of (seed_start s (E @ [i]) c) (bucket s True c) (A[?b := int i]) = map int (rev (of_char_code s c (E @ [i])))" for c
  proof (cases "c = ?c")
    case True
    have "slice_of ?b (bucket s True ?c) (A[?b := int i]) = int i # slice_of (Suc ?b) (bucket s True ?c) (A[?b := int i])"
      unfolding slice_of_def using b len pos room by (subst Cons_nth_drop_Suc [symmetric]) (auto simp: Suc_diff_Suc take_Cons')
    also have "slice_of (Suc ?b) (bucket s True ?c) (A[?b := int i]) = slice_of (seed_start s E ?c) (bucket s True ?c) A"
      using slice_of_other [of ?b "Suc ?b" "bucket s True ?c" A "int i"] pos
      by (simp only: Suc_diff_1 diff_less zero_less_one simp_thms)
    also have "\<dots> = map int (rev (of_char_code s ?c E))" using A by (simp add: seeded_def)
    finally show ?thesis using True st by (simp add: of_char_code_def)
  next
    case False
    have "\<not> (seed_start s E c \<le> ?b \<and> ?b < bucket s True c)"
      using slices_apart [OF s E', of c ?b ?c] False pos st [of c] st [of ?c] by auto
    then show ?thesis using False A st slice_of_other [of ?b "seed_start s E c" "bucket s True c" A "int i"]
      by (auto simp: seeded_def of_char_code_def)
  qed
  have "A[?b := int i] ! q = D q" if q: "q < length s" "\<forall>c. \<not> (seed_start s (E @ [i]) c \<le> q \<and> q < bucket s True c)" for q
  proof -
    have "q \<noteq> ?b" using q(2) [rule_format, of ?c] st [of ?c] pos by auto
    moreover have "\<not> (seed_start s E c \<le> q \<and> q < bucket s True c)" for c using q(2) [rule_format, of c] st [of c] by (auto split: if_splits)
    ultimately show ?thesis using A q(1) by (auto simp: seeded_def)
  qed
  then show "seeded s (E @ [i]) D (A[?b := int i])" using sl len by (simp add: seeded_def)
qed

lemma put_back_seeded:
  assumes s: "sortable s" and src: "source_ok src Z s" and K: "\<forall>x \<in> set s. x \<le> K" and E: "lms_subset s E" and A: "seeded s E D A"
    and i: "is_lms s i" "i \<notin> set E" and bkt: "bkt = map (seed_start s E) [0..<Suc K]"
  shows "\<exists>A'. put_back src (A @ Z, bkt) i = Inr (A' @ Z, map (seed_start s (E @ [i])) [0..<Suc K]) \<and> seeded s (E @ [i]) D A'"
proof -
  note n = seeded_snoc [OF s E A i]
  have len: "length A = length s" "i < length s" using A i by (simp_all add: seeded_def is_lms_def)
  have c: "s ! i < Suc K" using K len(2) by (simp add: less_Suc_eq_le)
  have "map (seed_start s (E @ [i])) [0..<Suc K] = bkt[s ! i := seed_start s E (s ! i) - 1]"
    unfolding bkt by (rule nth_equalityI) (auto simp: n(5) nth_list_update simp del: upt_Suc)
  moreover have "js_at bkt (s ! i) = Inr (seed_start s E (s ! i))" using c by (simp add: bkt js_at_def del: upt_Suc)
  ultimately have "put_back src (A @ Z, bkt) i = Inr (A[seed_start s E (s ! i) - 1 := int i] @ Z, map (seed_start s (E @ [i])) [0..<Suc K])"
    using source_get [OF src len] n(2,3) len(1) by (simp add: put_back_def list_update_append1)
  then show ?thesis using n(1) by blast
qed

text \<open>An array seeded with all such positions is what the first pass starts from.\<close>

lemma seeded_index:
  assumes s: "sortable s" and E: "lms_subset s E" and A: "seeded s E (\<lambda>_. - 1) A" and q: "q < length s" "0 \<le> A ! q"
  obtains i where "i \<in> set E" "A ! q = int i" "seed_start s E (s ! i) \<le> q" "q < bucket s True (s ! i)"
proof -
  have "\<exists>c. seed_start s E c \<le> q \<and> q < bucket s True c"
  proof (rule ccontr)
    assume "\<not> ?thesis"
    then have "A ! q = - 1" using A q(1) unfolding seeded_def by blast
    then show False using q(2) by simp
  qed
  then obtain c where c: "seed_start s E c \<le> q" "q < bucket s True c" by blast
  then show thesis using seeded_at [OF s E A c] that by blast
qed

lemma seeded_nth:
  assumes s: "sortable s" and A: "seeded s E D A" and k: "k < length (of_char_code s c E)" "length (of_char_code s c E) \<le> bucket s True c"
  shows "A ! (seed_start s E c + k) = int (rev (of_char_code s c E) ! k)"
proof -
  have "slice_of (seed_start s E c) (bucket s True c) A ! k = A ! (seed_start s E c + k)"
    using A bucket_bounds(1) [OF s, of c] k by (intro slice_of_nth(2)) (auto simp: seeded_def)
  then show ?thesis using A k(1) by (simp add: seeded_def)
qed

lemma seeded_region:
  assumes s: "sortable s" and E: "lms_subset s E" and q: "i \<in> set E" "seed_start s E (s ! i) \<le> q" "q < bucket s True (s ! i)"
  shows "left.in_region s (symbol s i) q" "left.fixed_slot s q"
proof -
  note n = text_size_sortable [OF s]
  have i: "stypes s ! i" "i < length s" using q(1) E by (auto simp: lms_subset_def is_lms_def)
  then have "symbol s i = 2 * s ! i + 1" by (simp add: symbol_def)
  moreover have "region_start (length s) (symbol s) (2 * s ! i + 1) \<le> q" using seed_count(1) [OF s E, of "s ! i"] q(2) by linarith
  ultimately show "left.in_region s (symbol s i) q" using q(3) by (simp add: left.in_region_def bucket_def flip: n)
  then show "left.fixed_slot s q" using left.slot_of [of i s q] i by (simp add: left_target_def n)
qed

lemma seeded_valid:
  assumes s: "sortable s" and E: "lms_subset s E" and A: "seeded s E (\<lambda>_. - 1) A" and q: "q < length s"
  shows "left.valid s A q"
proof (cases "\<exists>c. seed_start s E c \<le> q \<and> q < bucket s True c")
  case True
  then obtain c where c: "seed_start s E c \<le> q" "q < bucket s True c" by blast
  obtain i where i: "i \<in> set E" "A ! q = int i" "s ! i = c" using seeded_at [OF s E A c] by blast
  then have "left.in_region s (symbol s i) q" "i < text_size s"
    using seeded_region(1) [OF s E i(1)] c E by (auto simp: lms_subset_def is_lms_def text_size_sortable [OF s])
  then show ?thesis using i(2) unfolding left.valid_def by blast
next
  case False
  then have "A ! q = - 1" using A q by (simp add: seeded_def)
  then show ?thesis by (simp add: left.valid_def)
qed

lemma seeded_present:
  assumes s: "sortable s" and E: "lms_subset s E" and A: "seeded s E (\<lambda>_. - 1) A" and i: "i \<in> set E"
  shows "\<exists>q < length s. left.fixed_slot s q \<and> A ! q = int i"
proof -
  have room: "length (of_char_code s c E) \<le> bucket s True c" for c using seed_count(1) [OF s E, of c] by simp
  have "i \<in> set (rev (of_char_code s (s ! i) E))" using i by (simp add: of_char_code_def)
  then obtain k where k: "k < length (of_char_code s (s ! i) E)" "rev (of_char_code s (s ! i) E) ! k = i"
    by (metis in_set_conv_nth length_rev)
  let ?q = "seed_start s E (s ! i) + k"
  have q: "?q < bucket s True (s ! i)" using k(1) room [of "s ! i"] by linarith
  then have "left.fixed_slot s ?q" by (intro seeded_region(2) [OF s E i]) auto
  moreover have "?q < length s" using q bucket_bounds(1) [OF s, of "s ! i"] by linarith
  ultimately show ?thesis using seeded_nth [OF s A k(1) room] k(2) by metis
qed

text \<open>Two entries with the same character are found in the reversed list, in the same order.\<close>

lemma seeded_pair:
  assumes s: "sortable s" and E: "lms_subset s E" and A: "seeded s E (\<lambda>_. - 1) A"
    and q: "q < length s" "q' < length s" "A ! q = int i" "A ! q' = int j" "s ! i = s ! j"
  obtains k k' where "seed_start s E (s ! i) + k = q" "seed_start s E (s ! i) + k' = q'" "k < length (of_char_code s (s ! i) E)"
    "k' < length (of_char_code s (s ! i) E)" "rev (of_char_code s (s ! i) E) ! k = i" "rev (of_char_code s (s ! i) E) ! k' = j"
    "i \<in> set E" "j \<in> set E"
proof -
  have room: "length (of_char_code s c E) \<le> bucket s True c" for c using seed_count(1) [OF s E, of c] by simp
  have i: "i \<in> set E" "seed_start s E (s ! i) \<le> q" "q < bucket s True (s ! i)"
    using seeded_index [OF s E A q(1)] q(3) by (metis int_ops(1) nat_int of_nat_0_le_iff)+
  have j: "j \<in> set E" "seed_start s E (s ! i) \<le> q'" "q' < bucket s True (s ! i)"
    using seeded_index [OF s E A q(2)] q(4,5) by (metis int_ops(1) nat_int of_nat_0_le_iff)+
  have k: "q - seed_start s E (s ! i) < length (of_char_code s (s ! i) E)" "q' - seed_start s E (s ! i) < length (of_char_code s (s ! i) E)"
    using i j room [of "s ! i"] by linarith+
  show thesis
    using that [of "q - seed_start s E (s ! i)" "q' - seed_start s E (s ! i)"] i j k q(3,4)
      seeded_nth [OF s A k(1) room] seeded_nth [OF s A k(2) room] by simp
qed

lemma seeded_start:
  assumes s: "sortable s" and E: "lms_subset s E" "\<And>i. is_lms s i \<Longrightarrow> i \<in> set E" and A: "seeded s E (\<lambda>_. - 1) A"
  shows "left.start_ok s A" "\<exists>q < length s. left.fixed_slot s q \<and> A ! q = int (length s - 1)" "length A = length s"
proof -
  note n = text_size_sortable [OF s]
  show len: "length A = length s" using A by (simp add: seeded_def)
  have "q = q'" if q: "q < length s" "q' < length s" "A ! q = A ! q'" "0 \<le> A ! q" for q q'
  proof -
    obtain i where i: "A ! q = int i" using q(4) by (metis nat_eq_iff2)
    then have i': "A ! q' = int i" using q(3) by simp
    have "distinct (rev (of_char_code s (s ! i) E))" using E(1) by (simp add: of_char_code_def lms_subset_def)
    then show ?thesis using seeded_pair [OF s E(1) A q(1,2) i i' refl] nth_eq_iff_index_eq by (metis length_rev)
  qed
  moreover have "\<exists>q < length s. left.fixed_slot s q \<and> A ! q = int (Suc i)" if "i < length s" "left_target s i" "\<not> left_target s (Suc i)" for i
    by (rule seeded_present [OF s E(1) A E(2)]) (use left_step(3) [of i s] that in \<open>simp add: left_target_def\<close>)
  ultimately show "left.start_ok s A" unfolding left.start_ok_def using seeded_valid [OF s E(1) A] len by (auto simp flip: n)
  show "\<exists>q < length s. left.fixed_slot s q \<and> A ! q = int (length s - 1)" by (rule seeded_present [OF s E(1) A E(2) [OF last_lms [OF s]]])
qed

lemma seeded_order:
  assumes s: "sortable s" and E: "lms_subset s E" and A: "seeded s E (\<lambda>_. - 1) A"
    and ij: "in_order A (int i) (int j)" "symbol s i = symbol s j"
  shows "is_lms s i" "is_lms s j" "in_order (rev E) i j"
proof -
  obtain q q' where q: "q < q'" "q' < length s" "A ! q = int i" "A ! q' = int j" using ij(1) A by (auto simp: in_order_def seeded_def)
  obtain k k' where k: "seed_start s E (s ! i) + k = q" "seed_start s E (s ! i) + k' = q'" "k < length (of_char_code s (s ! i) E)"
      "k' < length (of_char_code s (s ! i) E)" "rev (of_char_code s (s ! i) E) ! k = i" "rev (of_char_code s (s ! i) E) ! k' = j" "i \<in> set E" "j \<in> set E"
    using seeded_pair [OF s E A less_trans [OF q(1,2)] q(2-4)] symbol_le(2) [OF ij(2)] by blast
  then have "in_order (filter (\<lambda>k. s ! k = s ! i) (rev E)) i j" unfolding in_order_def rev_filter [symmetric]
    using q(1) by (intro exI [of _ k] exI [of _ k']) (simp add: of_char_code_def)
  then show "in_order (rev E) i j" by (rule in_order_filter)
  show "is_lms s i" "is_lms s j" using k(7,8) E by (auto simp: lms_subset_def)
qed

text \<open>The first seeding: all such positions in the order of the text.\<close>

lemma seeded_Nil: "seeded s [] D A \<longleftrightarrow> length A = length s \<and> (\<forall>q < length s. A ! q = D q)"
  by (auto simp: seeded_def of_char_code_def slice_of_def)

lemma place_lms_spec:
  assumes s: "sortable s" and src: "source_ok src Z s" and K: "\<forall>x \<in> set s. x \<le> K" and t: "bv_inv t" "bits_of t = stypes s"
  shows "\<exists>A. place_lms t src (replicate (length s) (- 1) @ Z) (map (bucket s True) [0..<Suc K]) (length s) = Inr (A @ Z)
    \<and> seeded s (lms_list s) (\<lambda>_. - 1) A"
proof -
  let ?E = "\<lambda>i. filter (is_lms s) [0..<i]"
  define I where "I = (\<lambda>i (SA, bkt). \<exists>A. SA = A @ Z \<and> seeded s (?E i) (\<lambda>_. - 1) A \<and> bkt = map (seed_start s (?E i)) [0..<Suc K])"
  let ?f = "\<lambda>st i. js_bind (SAIS_isLMS t i) (\<lambda>b. if b then put_back src st i else Inr st)"
  have sub: "lms_subset s (?E i)" for i by (auto simp: lms_subset_def)
  have E1: "?E 1 = []" by (simp add: is_lms_def)
  have "I 1 (replicate (length s) (- 1) @ Z, map (bucket s True) [0..<Suc K])"
    unfolding I_def prod.case E1 by (intro exI [of _ "replicate (length s) (- 1)"]) (simp add: seeded_Nil of_char_code_def del: upt_Suc)
  moreover have "1 \<le> length s" using s by (simp add: sortable_def)
  moreover have "\<exists>st'. ?f st i = Inr st' \<and> I (Suc i) st'" if i: "i < length s" and st: "I i st" for i st
  proof -
    obtain A where A: "st = (A @ Z, map (seed_start s (?E i)) [0..<Suc K])" "seeded s (?E i) (\<lambda>_. - 1) A" using st by (cases st) (auto simp: I_def)
    show ?thesis
    proof (cases "is_lms s i")
      case True
      then have "?E (Suc i) = ?E i @ [i]" by simp
      then show ?thesis using put_back_seeded [OF s src K sub A(2) True _ refl] isLMS_spec(1) [OF t i] True A(1)
        by (auto simp: I_def simp del: upt_Suc)
    next
      case False
      then show ?thesis using st isLMS_spec(1) [OF t i] by (simp add: I_def split: prod.splits)
    qed
  qed
  ultimately obtain st where "js_fold ?f (replicate (length s) (- 1) @ Z, map (bucket s True) [0..<Suc K]) [1..<length s] = Inr st" "I (length s) st"
    using js_fold_range_inv [of 1 "length s" I _ ?f] by blast
  then show ?thesis by (auto simp: place_lms_def I_def lms_list_def simp del: upt_Suc)
qed

text \<open>The second seeding takes its positions from the front of the array that it fills.\<close>

lemma sorted_seed_bound:
  assumes s: "sortable s" and P: "lms_subset s P" "sorted_wrt (\<lambda>i j. s ! i \<le> s ! j) P" and k: "k \<le> length P"
    and q: "seed_start s (rev (drop k P)) c \<le> q" "q < bucket s True c"
  shows "k \<le> q"
proof -
  let ?le = "\<lambda>i. s ! i \<le> c"
  have len: "length (of_char_code s c (rev (drop k P))) = length (filter (\<lambda>i. s ! i = c) (drop k P))"
    by (simp add: of_char_code_def rev_filter [symmetric])
  have "0 < length (filter (\<lambda>i. s ! i = c) (drop k P))" using q len by linarith
  then obtain m where m: "m \<in> set (drop k P)" "s ! m = c" by (auto simp: filter_empty_conv)
  then have low: "\<forall>i \<in> set (take k P). ?le i" using P(2) by (metis append_take_drop_id sorted_wrt_append)
  have "k + length (filter (\<lambda>i. s ! i = c) (drop k P)) \<le> length (filter ?le (take k P)) + length (filter ?le (drop k P))"
  proof (rule add_mono)
    show "k \<le> length (filter ?le (take k P))" using low k by simp
    have "length (filter (\<lambda>i. s ! i = c) xs) \<le> length (filter ?le xs)" for xs by (induction xs) auto
    then show "length (filter (\<lambda>i. s ! i = c) (drop k P)) \<le> length (filter ?le (drop k P))" .
  qed
  also have "\<dots> = length (filter ?le P)" by (metis append_take_drop_id filter_append length_append)
  also have "\<dots> = card (set (filter ?le P))" using P(1) by (simp add: lms_subset_def distinct_card [symmetric] del: set_filter)
  also have "\<dots> \<le> card {i. i < length s \<and> s ! i \<le> c}" using P(1) by (intro card_mono) (auto simp: lms_subset_def is_lms_def)
  also have "\<dots> = bucket s True c" using card_positions [of s "\<lambda>x. x \<le> c"] by (simp add: bucket_count)
  finally show ?thesis using q(1) len by linarith
qed

lemma place_sorted_spec:
  assumes s: "sortable s" and src: "source_ok src Z s" and K: "\<forall>x \<in> set s. x \<le> K"
    and P: "lms_subset s P" "sorted_wrt (\<lambda>i j. s ! i \<le> s ! j) P" "length P \<le> length s"
  shows "\<exists>A. place_sorted src ((map int P @ replicate (length s - length P) (- 1)) @ Z) (map (bucket s True) [0..<Suc K]) (length P) = Inr (A @ Z)
    \<and> seeded s (rev P) (\<lambda>_. - 1) A"
proof -
  let ?E = "\<lambda>k. rev (drop k P)" let ?D = "\<lambda>k q. if q < k then int (P ! q) else - 1"
  define I where "I = (\<lambda>k (SA, bkt). \<exists>A. SA = A @ Z \<and> seeded s (?E k) (?D k) A \<and> bkt = map (seed_start s (?E k)) [0..<Suc K])"
  let ?f = "\<lambda>(SA, bkt) i. js_bind (js_at SA i) (\<lambda>j. if j < 0 then Inl Undef else js_bind (js_put SA i (- 1)) (\<lambda>SA. put_back src (SA, bkt) (nat j)))"
  let ?A0 = "map int P @ replicate (length s - length P) (- 1)"
  have sub: "lms_subset s (?E k)" for k using P(1) by (auto simp: lms_subset_def dest: in_set_dropD)
  have "I (length P) (?A0 @ Z, map (bucket s True) [0..<Suc K])"
    using P(3) unfolding I_def prod.case by (intro exI [of _ ?A0]) (simp add: seeded_Nil of_char_code_def nth_append del: upt_Suc)
  moreover have "\<exists>st'. ?f st i = Inr st' \<and> I i st'" if i: "i < length P" and st: "I (Suc i) st" for i st
  proof -
    obtain A where A: "st = (A @ Z, map (seed_start s (?E (Suc i))) [0..<Suc K])" "seeded s (?E (Suc i)) (?D (Suc i)) A"
      using st by (cases st) (auto simp: I_def)
    have len: "length A = length s" "i < length s" using A(2) i P(3) by (simp_all add: seeded_def)
    have out: "\<not> (seed_start s (?E (Suc i)) c \<le> i \<and> i < bucket s True c)" for c
      using sorted_seed_bound [OF s P(1,2), of "Suc i" c i] i by auto
    then have Ai: "A ! i = int (P ! i)" using A(2) len(2) by (auto simp: seeded_def)
    have "seeded s (?E (Suc i)) (?D i) (A[i := - 1])" unfolding seeded_def
    proof (intro conjI allI impI)
      show "slice_of (seed_start s (?E (Suc i)) c) (bucket s True c) (A[i := - 1]) = map int (rev (of_char_code s c (?E (Suc i))))" for c
        using slice_of_other [of i "seed_start s (?E (Suc i)) c" "bucket s True c" A "- 1"] out [of c] A(2) by (simp add: seeded_def) linarith
    next
      fix q assume "q < length s" "\<forall>c. \<not> (seed_start s (?E (Suc i)) c \<le> q \<and> q < bucket s True c)"
      then show "A[i := - 1] ! q = ?D i q" using A(2) len(1) by (cases "q = i") (auto simp: seeded_def)
    qed (use len in simp)
    moreover have "?E i = ?E (Suc i) @ [P ! i]" using i by (simp add: Cons_nth_drop_Suc [symmetric])
    moreover have "is_lms s (P ! i)" using P(1) nth_mem [OF i] by (auto simp: lms_subset_def)
    moreover have "P ! i \<notin> set (?E (Suc i))" using P(1) i by (auto simp: lms_subset_def in_set_conv_nth nth_eq_iff_index_eq)
    ultimately show ?thesis
      using put_back_seeded [OF s src K sub, of "Suc i" "?D i" "A[i := - 1]" "P ! i"] A(1) Ai len
      by (auto simp: I_def nth_append list_update_append1 simp del: upt_Suc)
  qed
  ultimately obtain st where "js_fold ?f (?A0 @ Z, map (bucket s True) [0..<Suc K]) (rev [0..<length P]) = Inr st" "I 0 st"
    using js_fold_down_inv [of I "length P" _ ?f] by blast
  then show ?thesis by (auto simp: place_sorted_def I_def simp del: upt_Suc)
qed

section \<open>Naming\<close>

lemma collect_lms_spec:
  assumes t: "bv_inv t" "bits_of t = stypes s" and sa: "set sa = {..<length s}" "length sa = length s"
  shows "\<exists>A. collect_lms t (map int sa @ Z) (length s) = Inr (A @ Z, length (filter (is_lms s) sa)) \<and> length A = length s
    \<and> take (length (filter (is_lms s) sa)) A = map int (filter (is_lms s) sa)"
proof -
  let ?C = "\<lambda>i. filter (is_lms s) (take i sa)"
  define I where "I = (\<lambda>i (SA, n1). \<exists>A. SA = A @ Z \<and> length A = length s \<and> n1 = length (?C i) \<and> take n1 A = map int (?C i) \<and> drop i A = drop i (map int sa))"
  let ?f = "\<lambda>(SA, n1) i. js_bind (js_at SA i) (\<lambda>x. if x \<le> 0 then Inr (SA, n1)
        else js_bind (SAIS_isLMS t (nat x)) (\<lambda>b. if b then js_bind (js_put SA n1 x) (\<lambda>SA. Inr (SA, n1 + 1)) else Inr (SA, n1)))"
  have "I 0 (map int sa @ Z, 0)" by (simp add: I_def sa(2))
  moreover have "\<exists>st'. ?f st i = Inr st' \<and> I (Suc i) st'" if i: "i < length s" and st: "I i st" for i st
  proof -
    obtain A where A: "st = (A @ Z, length (?C i))" "length A = length s" "take (length (?C i)) A = map int (?C i)" "drop i A = drop i (map int sa)"
      using st by (cases st) (auto simp: I_def)
    have Ai: "A ! i = int (sa ! i)" "drop (Suc i) A = drop (Suc i) (map int sa)"
      using A(4) i A(2) sa(2) by (auto simp: Cons_nth_drop_Suc [symmetric])
    have lt: "sa ! i < length s" using sa i by (metis lessThan_iff nth_mem)
    have k: "length (?C i) \<le> i" using length_filter_le [of "is_lms s" "take i sa"] by simp
    show ?thesis
    proof (cases "is_lms s (sa ! i)")
      case True
      have pos: "0 < sa ! i" using True by (simp add: is_lms_def)
      have C: "?C (Suc i) = ?C i @ [sa ! i]" using True i sa(2) by (simp add: take_Suc_conv_app_nth)
      have "?f st i = Inr (A[length (?C i) := int (sa ! i)] @ Z, length (?C i) + 1)"
        using A(1,2) Ai(1) i k pos isLMS_spec(1) [OF t lt] True by (simp add: nth_append list_update_append1)
      moreover have "take (length (?C i) + 1) (A[length (?C i) := int (sa ! i)]) = map int (?C (Suc i))"
        using A(2,3) k i C by (simp add: take_Suc_conv_app_nth)
      ultimately show ?thesis using A(2) Ai(2) k C by (simp add: I_def)
    next
      case False
      have "?f st i = Inr st" using A(1,2) Ai(1) i isLMS_spec(1) [OF t lt] False by (simp add: nth_append)
      moreover have "?C (Suc i) = ?C i" using False i sa(2) by (simp add: take_Suc_conv_app_nth)
      ultimately show ?thesis using A Ai(2) by (simp add: I_def)
    qed
  qed
  ultimately obtain st where "js_fold ?f (map int sa @ Z, 0) [0..<length s] = Inr st" "I (length s) st"
    using js_fold_upt_inv [of I _ "length s" ?f] by blast
  then show ?thesis using sa(2) by (auto simp: collect_lms_def I_def)
qed

lemma diff_lms_step:
  assumes s: "sortable s" and src: "source_ok src Z s" "length A = length s" and t: "bv_inv t" "bits_of t = stypes s"
    and ij: "pos + d < length s" "prev + d < length s"
  shows "diff_lms t src (A @ Z) (length s) pos (int prev) d =
    (if symbol s (pos + d) \<noteq> symbol s (prev + d) then Inr True
     else if 0 < d \<and> (is_lms s (pos + d) \<or> is_lms s (prev + d)) then Inr False
     else diff_lms t src (A @ Z) (length s) pos (int prev) (d + 1))"
proof -
  have "OArray_compare src (A @ Z) (pos + d) (prev + d) \<longleftrightarrow> s ! (pos + d) = s ! (prev + d)"
    using source_at [OF src] ij by (simp add: OArray_compare_def)
  moreover have "symbol s (pos + d) = symbol s (prev + d) \<longleftrightarrow> s ! (pos + d) = s ! (prev + d) \<and> stypes s ! (pos + d) = stypes s ! (prev + d)"
    by (rule iffI, erule symbol_le(2)) (simp add: symbol_def)
  ultimately show ?thesis
    using isLMS_spec [OF t ij(1)] isLMS_spec [OF t ij(2)] ij by (subst diff_lms.simps) auto
qed

lemma diff_lms_first:
  assumes s: "sortable s" and src: "source_ok src Z s" "length A = length s" and t: "bv_inv t" "bits_of t = stypes s"
  shows "Suc (pos + d) < length s \<Longrightarrow> Suc (prev + d) < length s \<Longrightarrow> symbol s (pos + d) = symbol s (prev + d) \<Longrightarrow>
    diff_lms t src (A @ Z) (length s) pos (int prev) (Suc d) = Inr (first_key s (Suc (pos + d)) \<noteq> first_key s (Suc (prev + d)))"
proof (induction "length s - d" arbitrary: d rule: less_induct)
  case less
  let ?i = "Suc (pos + d)" and ?j = "Suc (prev + d)"
  have run: "diff_lms t src (A @ Z) (length s) pos (int prev) (Suc d) = (if symbol s ?i \<noteq> symbol s ?j then Inr True
     else if is_lms s ?i \<or> is_lms s ?j then Inr False else diff_lms t src (A @ Z) (length s) pos (int prev) (Suc (Suc d)))"
    using diff_lms_step [OF s src t, of pos "Suc d" prev] less.prems by simp
  note eq = first_key_less(2) [OF s less.prems]
  show ?case
  proof (cases "symbol s ?i = symbol s ?j")
    case True
    note same = same_lms [OF less.prems True]
    show ?thesis
    proof (cases "is_lms s ?i")
      case lms: True
      then show ?thesis using run True same eq by simp
    next
      case False
      then have "Suc ?i \<noteq> length s" using last_lms [OF s] by (metis diff_Suc_1)
      then have ij: "Suc ?i < length s" "Suc ?j < length s" using less.prems(1,2) same_end [OF s less.prems(1,2) True] by auto
      have "first_key s ?i = symbol s ?i # first_key s (Suc ?i)" "first_key s ?j = symbol s ?j # first_key s (Suc ?j)"
        using False same lms_key_rec(2) [OF ij(1)] lms_key_rec(2) [OF ij(2)] by (simp_all add: first_key_def)
      then show ?thesis using run True same False less.hyps [of "Suc d"] ij less.prems(1) by simp
    qed
  qed (use run eq in simp)
qed

lemma diff_lms_spec:
  assumes s: "sortable s" and src: "source_ok src Z s" "length A = length s" and t: "bv_inv t" "bits_of t = stypes s"
    and ij: "pos < length s" "prev < length s" "pos \<noteq> prev"
  shows "diff_lms t src (A @ Z) (length s) pos (int prev) 0 = Inr (lms_key s pos \<noteq> lms_key s prev)"
proof -
  have run: "diff_lms t src (A @ Z) (length s) pos (int prev) 0 = (if symbol s pos \<noteq> symbol s prev then Inr True
      else diff_lms t src (A @ Z) (length s) pos (int prev) (Suc 0))"
    using diff_lms_step [OF s src t, of pos 0 prev] ij by simp
  show ?thesis
  proof (cases "symbol s pos = symbol s prev")
    case False
    then have "lms_key s pos \<noteq> lms_key s prev" using lms_key_rec(1) [of s pos] lms_key_rec(1) [of s prev] by auto
    then show ?thesis using run False by simp
  next
    case True
    note same = same_end [OF s ij(1,2) True]
    have "Suc pos < length s" using same ij by (cases "Suc pos < length s") auto
    then show ?thesis using run True diff_lms_first [OF s src t, of pos 0 prev] same lms_key_rec(2) by simp
  qed
qed

text \<open>The sorted list of these positions after the first round.\<close>

definition lms_sorted :: "nat list \<Rightarrow> nat list \<Rightarrow> bool" where
  "lms_sorted s C \<longleftrightarrow> distinct C \<and> set C = {i. is_lms s i} \<and> sorted_wrt (\<lambda>i j. lex_le (lms_key s i) (lms_key s j)) C"

lemma lms_sorted_length: "lms_sorted s C \<Longrightarrow> length C = length (lms_list s)"
  using distinct_card [of C] distinct_card [OF lms_list_facts(3), of s] lms_list_facts(1) [of s] by (simp add: lms_sorted_def)

lemma lms_slot:
  assumes "is_lms s i"
  shows "length (lms_list s) + i div 2 < length s"
proof -
  have "i < length s" using assms by (simp add: is_lms_def)
  then show ?thesis using lms_list_length [of s] by linarith
qed

text \<open>The names given so far count the different keys seen so far.\<close>

lemma names_step:
  assumes C: "lms_sorted s C" and k: "k < length C"
  shows "int (lms_name s (C ! k)) = int (card (lms_key s ` set (take (Suc k) C))) - 1"
    "0 < k \<Longrightarrow> lms_key s (C ! k) \<in> lms_key s ` set (take k C) \<longleftrightarrow> lms_key s (C ! k) = lms_key s (C ! (k - 1))"
proof -
  have sorted: "lex_le (lms_key s (C ! i)) (lms_key s (C ! j))" if "i \<le> j" "j < length C" for i j
    using C that by (cases "i = j") (auto simp: lms_sorted_def sorted_wrt_iff_nth_less)
  have mem: "x \<in> set (take m C) \<longleftrightarrow> (\<exists>i < m. i < length C \<and> C ! i = x)" for x m by (auto simp: in_set_conv_nth)
  have "lms_key s ` {j. is_lms s j \<and> lex_less (lms_key s j) (lms_key s (C ! k))} = lms_key s ` set (take (Suc k) C) - {lms_key s (C ! k)}"
  proof (intro equalityI subsetI)
    fix x assume "x \<in> lms_key s ` {j. is_lms s j \<and> lex_less (lms_key s j) (lms_key s (C ! k))}"
    then obtain j where j: "is_lms s j" "lex_less (lms_key s j) (lms_key s (C ! k))" "x = lms_key s j" by blast
    then have "j \<in> set C" using C by (simp add: lms_sorted_def)
    then obtain i where i: "i < length C" "C ! i = j" by (auto simp: in_set_conv_nth)
    have "i < k" using sorted [of k i] i j(2) lex_less_asym lex_less_irrefl by (metis not_less)
    then have "j \<in> set (take (Suc k) C)" using i unfolding mem by (intro exI [of _ i]) simp
    then show "x \<in> lms_key s ` set (take (Suc k) C) - {lms_key s (C ! k)}" using j lex_less_irrefl by force
  next
    fix x assume "x \<in> lms_key s ` set (take (Suc k) C) - {lms_key s (C ! k)}"
    then obtain i where i: "i < Suc k" "x = lms_key s (C ! i)" "x \<noteq> lms_key s (C ! k)" by (auto simp: mem)
    moreover have "is_lms s (C ! i)" using C i(1) k nth_mem [of i C] by (auto simp: lms_sorted_def)
    ultimately show "x \<in> lms_key s ` {j. is_lms s j \<and> lex_less (lms_key s j) (lms_key s (C ! k))}" using sorted [of i k] k by auto
  qed
  moreover have "lms_key s (C ! k) \<in> lms_key s ` set (take (Suc k) C)" using k by (simp add: take_Suc_conv_app_nth)
  ultimately have "lms_name s (C ! k) = card (lms_key s ` set (take (Suc k) C)) - 1"
    unfolding lms_name_def by (simp add: card_Diff_singleton)
  moreover have "0 < card (lms_key s ` set (take (Suc k) C))" using \<open>lms_key s (C ! k) \<in> _\<close> by (auto simp: card_gt_0_iff)
  ultimately show "int (lms_name s (C ! k)) = int (card (lms_key s ` set (take (Suc k) C))) - 1" by simp
  assume "0 < k"
  then have "C ! (k - 1) \<in> set (take k C)" using k unfolding mem by (intro exI [of _ "k - 1"]) simp
  moreover have "lms_key s (C ! k) = lms_key s (C ! (k - 1))" if "i < k" "lms_key s (C ! i) = lms_key s (C ! k)" for i
  proof -
    have "lex_le (lms_key s (C ! k)) (lms_key s (C ! (k - 1)))" "lex_le (lms_key s (C ! (k - 1))) (lms_key s (C ! k))"
      using sorted [of i "k - 1"] sorted [of "k - 1" k] that k by auto
    then show ?thesis by (metis lex_less_asym)
  qed
  ultimately show "lms_key s (C ! k) \<in> lms_key s ` set (take k C) \<longleftrightarrow> lms_key s (C ! k) = lms_key s (C ! (k - 1))"
  proof (intro iffI)
    assume "lms_key s (C ! k) \<in> lms_key s ` set (take k C)"
    then obtain i where "i < k" "lms_key s (C ! i) = lms_key s (C ! k)" by (auto simp: mem)
    then show "lms_key s (C ! k) = lms_key s (C ! (k - 1))"
      using \<open>\<And>i. i < k \<Longrightarrow> lms_key s (C ! i) = lms_key s (C ! k) \<Longrightarrow> lms_key s (C ! k) = lms_key s (C ! (k - 1))\<close> by blast
  qed simp
qed

text \<open>Where the names go: next to each other in the order of the text, with gaps.\<close>

definition named :: "nat list \<Rightarrow> nat list \<Rightarrow> nat \<Rightarrow> int list \<Rightarrow> bool" where
  "named s C k A \<longleftrightarrow> length A = length s \<and> take (length C) A = map int C
    \<and> (\<forall>m < k. A ! (length C + C ! m div 2) = int (lms_name s (C ! m)))
    \<and> (\<forall>q. length C \<le> q \<longrightarrow> q < length s \<longrightarrow> (\<forall>m < k. q \<noteq> length C + C ! m div 2) \<longrightarrow> A ! q = - 1)"

lemma named_Suc:
  assumes C: "lms_sorted s C" and k: "k < length C" and A: "named s C k A"
  shows "named s C (Suc k) (A[length C + C ! k div 2 := int (lms_name s (C ! k))])" "length C + C ! k div 2 < length s" "A ! k = int (C ! k)"
proof -
  have lms: "is_lms s (C ! m)" if "m < length C" for m using C nth_mem [OF that] by (auto simp: lms_sorted_def)
  show slot: "length C + C ! k div 2 < length s" using lms_slot [OF lms [OF k]] lms_sorted_length [OF C] by simp
  have other: "C ! k div 2 \<noteq> C ! m div 2" if "m < k" for m
  proof
    assume "C ! k div 2 = C ! m div 2"
    then have "C ! m = C ! k" using inj_onD [OF lms_div_inj(1), of "C ! m" "C ! k" s] lms [of m] lms [of k] that k by simp
    then show False using C that k by (simp add: lms_sorted_def nth_eq_iff_index_eq)
  qed
  show "named s C (Suc k) (A[length C + C ! k div 2 := int (lms_name s (C ! k))])"
    using A slot other by (auto simp: named_def less_Suc_eq nth_list_update)
  have "take (length C) A ! k = map int C ! k" using A by (simp add: named_def)
  then show "A ! k = int (C ! k)" using k by simp
qed

lemma name_lms_spec:
  assumes s: "sortable s" and src: "source_ok src Z s" and t: "bv_inv t" "bits_of t = stypes s" and C: "lms_sorted s C"
  shows "\<exists>A. name_lms t src ((map int C @ replicate (length s - length C) (- 1)) @ Z) (length s) (length C) = Inr (A @ Z, card (lms_key s ` set C))
    \<and> named s C (length C) A"
proof -
  let ?A0 = "map int C @ replicate (length s - length C) (- 1)"
  define I where "I = (\<lambda>k (SA, name, prev). \<exists>A. SA = A @ Z \<and> named s C k A \<and> name = card (lms_key s ` set (take k C))
    \<and> (if k = 0 then prev = - 1 else \<exists>p \<in> set (take k C). prev = int p \<and> lms_key s p = lms_key s (C ! (k - 1))))"
  let ?f = "\<lambda>(SA, name, prev) i. js_bind (js_at SA i) (\<lambda>pos.
        if pos < 0 then Inl Undef
        else js_bind (diff_lms t src SA (length s) (nat pos) prev 0) (\<lambda>diff.
          let name = (if diff then name + 1 else name);
              prev = (if diff then pos else prev)
          in js_bind (js_put SA (length C + nat pos div 2) (int name - 1)) (\<lambda>SA. Inr (SA, name, prev))))"
  have lms: "is_lms s (C ! m)" "C ! m < length s" if "m < length C" for m using C nth_mem [OF that] by (auto simp: lms_sorted_def is_lms_def)
  have "length C \<le> length s" using lms_sorted_length [OF C] lms_list_length [of s] by linarith
  then have "I 0 (?A0 @ Z, 0, - 1)" by (simp add: I_def named_def nth_append)
  moreover have "\<exists>st'. ?f st k = Inr st' \<and> I (Suc k) st'" if k: "k < length C" and st: "I k st" for k st
  proof -
    obtain A prev where A: "st = (A @ Z, card (lms_key s ` set (take k C)), prev)" "named s C k A"
      "if k = 0 then prev = - 1 else \<exists>p \<in> set (take k C). prev = int p \<and> lms_key s p = lms_key s (C ! (k - 1))"
      using st by (cases st) (auto simp: I_def)
    note step = named_Suc [OF C k A(2)] names_step [OF C k]
    have len: "length A = length s" using A(2) by (simp add: named_def)
    define new where "new \<longleftrightarrow> lms_key s (C ! k) \<notin> lms_key s ` set (take k C)"
    have diff: "diff_lms t src (A @ Z) (length s) (C ! k) prev 0 = Inr new"
    proof (cases "k = 0")
      case True
      then show ?thesis using A(3) lms(2) [OF k] by (subst diff_lms.simps) (auto simp: new_def)
    next
      case False
      then obtain p where p: "p \<in> set (take k C)" "prev = int p" "lms_key s p = lms_key s (C ! (k - 1))" using A(3) by auto
      have "p \<in> set C" using p(1) by (rule in_set_takeD)
      then have "p < length s" using C by (auto simp: lms_sorted_def is_lms_def)
      moreover have "C ! k \<noteq> p" using p(1) C k by (auto simp: lms_sorted_def in_set_conv_nth nth_eq_iff_index_eq)
      ultimately show ?thesis using diff_lms_spec [OF s src len t lms(2) [OF k]] p(2,3) step(5) False by (simp add: new_def)
    qed
    let ?name = "card (lms_key s ` set (take (Suc k) C))"
    have take: "set (take (Suc k) C) = insert (C ! k) (set (take k C))" using k by (simp add: take_Suc_conv_app_nth)
    have name: "?name = (if new then card (lms_key s ` set (take k C)) + 1 else card (lms_key s ` set (take k C)))"
      by (simp add: take new_def card_insert_if)
    have run: "?f st k = Inr (A[length C + C ! k div 2 := int (lms_name s (C ! k))] @ Z, ?name, if new then int (C ! k) else prev)"
      using A(1) step(3) k len diff step(2) name step(4) \<open>length C \<le> length s\<close> by (simp add: nth_append Let_def list_update_append1)
    have "\<exists>p \<in> set (take (Suc k) C). (if new then int (C ! k) else prev) = int p \<and> lms_key s p = lms_key s (C ! k)"
    proof (cases new)
      case False
      then have "k \<noteq> 0" by (cases k) (auto simp: new_def)
      then have "k \<noteq> 0" "lms_key s (C ! k) = lms_key s (C ! (k - 1))" using step(5) False by (simp_all add: new_def)
      then show ?thesis using A(3) False take by auto
    qed (use take in auto)
    then have "I (Suc k) (A[length C + C ! k div 2 := int (lms_name s (C ! k))] @ Z, ?name, if new then int (C ! k) else prev)"
      using step(1) unfolding I_def by auto
    then show ?thesis using run by blast
  qed
  ultimately obtain st where "js_fold ?f (?A0 @ Z, 0, - 1) [0..<length C] = Inr st" "I (length C) st"
    using js_fold_upt_inv [of I _ "length C" ?f] by blast
  then show ?thesis by (auto simp: name_lms_def I_def)
qed

lemma drop_list_update: "b < length xs \<Longrightarrow> drop b (xs[b := x]) = x # drop (Suc b) xs"
  using Cons_nth_drop_Suc [of b "xs[b := x]"] by simp

text \<open>Packing moves the names to the end of the array: there lies the reduced text.\<close>

lemma pack_names_spec:
  assumes n1: "n1 \<le> length A"
  shows "\<exists>A'. pack_names (A @ Z) (length A) n1 = Inr (A' @ Z) \<and> length A' = length A \<and> take n1 A' = take n1 A
    \<and> drop (length A - length (filter (\<lambda>x. 0 \<le> x) (drop n1 A))) A' = filter (\<lambda>x. 0 \<le> x) (drop n1 A)"
proof -
  let ?F = "\<lambda>i. filter (\<lambda>x. 0 \<le> x) (drop i A)" let ?n = "length A"
  define I where "I = (\<lambda>i (SA, j). \<exists>A'. SA = A' @ Z \<and> length A' = ?n \<and> j = ?n - length (?F i) \<and> take i A' = take i A \<and> drop j A' = ?F i)"
  let ?f = "\<lambda>(SA, j) i. js_bind (js_at SA i) (\<lambda>x. if x < 0 then Inr (SA, j) else js_bind (js_put SA (j - 1) x) (\<lambda>SA. Inr (SA, j - 1)))"
  have "I ?n (A @ Z, ?n)" by (simp add: I_def)
  moreover have "\<exists>st'. ?f st i = Inr st' \<and> I i st'" if i: "i < ?n" and st: "I (Suc i) st" for i st
  proof -
    let ?j = "?n - length (?F (Suc i))"
    obtain A' where A': "st = (A' @ Z, ?j)" "length A' = ?n" "take (Suc i) A' = take (Suc i) A" "drop ?j A' = ?F (Suc i)"
      using st by (cases st) (auto simp: I_def)
    have Ai: "A' ! i = A ! i" "take i A' = take i A" using A'(2,3) i by (auto simp: take_Suc_conv_app_nth)
    have drop: "drop i A = A ! i # drop (Suc i) A" using i by (simp add: Cons_nth_drop_Suc)
    have "length (?F (Suc i)) \<le> length (drop (Suc i) A)" by (rule length_filter_le)
    then have j: "i < ?j" using i by simp
    show ?thesis
    proof (cases "A ! i < 0")
      case True
      then show ?thesis using A' Ai i drop by (simp add: I_def nth_append)
    next
      case False
      have F: "?F i = A ! i # ?F (Suc i)" using False drop by simp
      have "?f st i = Inr (A'[?j - 1 := A ! i] @ Z, ?j - 1)"
        using A'(1,2) Ai(1) i False j by (simp add: nth_append list_update_append1)
      moreover have "drop (?j - 1) (A'[?j - 1 := A ! i]) = ?F i"
        unfolding F using A'(2,4) j drop_list_update [of "?j - 1" A' "A ! i"] by (simp only: Suc_diff_1)
      ultimately show ?thesis using A'(2) Ai(2) j F by (simp add: I_def)
    qed
  qed
  ultimately obtain st where "js_fold ?f (A @ Z, ?n) (rev [n1..<?n]) = Inr st" "I n1 st"
    using js_fold_down_range_inv [of n1 ?n I _ ?f] n1 by blast
  then show ?thesis by (auto simp: pack_names_def I_def)
qed

lemma named_filter:
  assumes C: "lms_sorted s C" and A: "named s C (length C) A"
  shows "filter (\<lambda>x. 0 \<le> x) (drop (length C) A) = map int (reduced s)"
proof -
  let ?m = "length C" let ?f = "\<lambda>q. A ! (length C + q)"
  have len: "length A = length s" using A by (simp add: named_def)
  have mem: "is_lms s i \<longleftrightarrow> (\<exists>k < ?m. C ! k = i)" for i using C by (auto simp: lms_sorted_def in_set_conv_nth set_eq_iff)
  have at: "?f (i div 2) = int (lms_name s i)" if "is_lms s i" for i using A that by (auto simp: named_def mem)
  have other: "?f q = - 1" if "q < length s - ?m" "\<forall>i. is_lms s i \<longrightarrow> i div 2 \<noteq> q" for q
  proof -
    have "\<forall>m < ?m. ?m + q \<noteq> ?m + C ! m div 2" using that(2) mem by auto
    then show ?thesis using A that(1) by (simp add: named_def)
  qed
  have "drop ?m A = map ?f [0..<length s - ?m]" using len by (intro nth_equalityI) auto
  moreover have "filter (\<lambda>q. 0 \<le> ?f q) [0..<length s - ?m] = map (\<lambda>i. i div 2) (lms_list s)"
  proof (rule sorted_distinct_set_unique)
    have "inj_on (\<lambda>i. i div 2) (set (lms_list s))" using lms_div_inj(1) lms_list_facts(1) by simp
    then show "distinct (map (\<lambda>i. i div 2) (lms_list s))" using lms_list_facts(3) by (simp add: distinct_map)
    show "sorted (map (\<lambda>i. i div 2) (lms_list s))"
      unfolding sorted_map by (rule sorted_wrt_mono_rel [OF _ lms_list_facts(2)]) (simp add: div_le_mono)
    have iff: "0 \<le> ?f q \<and> q < length s - ?m \<longleftrightarrow> (\<exists>i. is_lms s i \<and> i div 2 = q)" for q
    proof
      assume "0 \<le> ?f q \<and> q < length s - ?m"
      then show "\<exists>i. is_lms s i \<and> i div 2 = q" using other [of q] by force
    next
      assume "\<exists>i. is_lms s i \<and> i div 2 = q"
      then obtain i where i: "is_lms s i" "i div 2 = q" by blast
      then show "0 \<le> ?f q \<and> q < length s - ?m" using at [OF i(1)] lms_slot [OF i(1)] lms_sorted_length [OF C] by auto
    qed
    have "set (filter (\<lambda>q. 0 \<le> ?f q) [0..<length s - ?m]) = {q. 0 \<le> ?f q \<and> q < length s - ?m}" by auto
    then show "set (filter (\<lambda>q. 0 \<le> ?f q) [0..<length s - ?m]) = set (map (\<lambda>i. i div 2) (lms_list s))"
      unfolding iff using lms_list_facts(1) [of s] by auto
  qed (auto intro: sorted_wrt_filter)
  ultimately have "filter (\<lambda>x. 0 \<le> x) (drop ?m A) = map ?f (map (\<lambda>i. i div 2) (lms_list s))" by (simp add: filter_map o_def)
  also have "\<dots> = map int (reduced s)" using at lms_list_facts(1) [of s] by (simp add: reduced_def)
  finally show ?thesis .
qed

section \<open>Back from the reduced text\<close>

lemma order_names_spec:
  assumes sa: "length A = m" and n: "m \<le> off" "length Y = off - m" "length r = m"
    and perm: "distinct r" "\<forall>x \<in> set r. x < m"
  shows "\<exists>sa. order_names (A @ Y @ map int r @ Z) off m = Inr (map int sa @ Y @ map int r @ Z) \<and> is_suffix_array r sa"
proof -
  let ?Z = "Y @ map int r @ Z"
  define I where "I = (\<lambda>i SA. \<exists>A'. SA = A' @ ?Z \<and> length A' = m \<and> (\<forall>k < i. A' ! (r ! k) = int k))"
  let ?f = "\<lambda>SA i. js_bind (OArray_get (View off) SA i) (\<lambda>x. js_put SA x (int i))"
  have "I 0 (A @ ?Z)" by (simp add: I_def sa)
  moreover have "\<exists>SA'. ?f SA i = Inr SA' \<and> I (Suc i) SA'" if i: "i < m" and SA: "I i SA" for i SA
  proof -
    obtain A' where A': "SA = A' @ ?Z" "length A' = m" "\<forall>k < i. A' ! (r ! k) = int k" using SA by (auto simp: I_def)
    have ri: "r ! i < m" using perm(2) i n(3) by simp
    have "\<not> i + off < m" "\<not> i + off - m < off - m" "i + off - m - (off - m) = i" using n(1) by linarith+
    then have "SA ! (i + off) = int (r ! i)" "i + off < length SA" using A'(1,2) i n by (simp_all add: nth_append)
    then have "?f SA i = Inr (A'[r ! i := int i] @ ?Z)"
      using A'(1,2) ri by (simp add: OArray_get_def list_update_append1)
    moreover have "r ! i \<noteq> r ! k" if "k < i" for k using perm(1) that i n(3) by (simp add: nth_eq_iff_index_eq)
    ultimately show ?thesis using A'(2,3) ri unfolding I_def
      by (intro exI [of _ "A'[r ! i := int i] @ ?Z"]) (auto simp: less_Suc_eq nth_list_update)
  qed
  ultimately obtain SA where SA: "js_fold ?f (A @ ?Z) [0..<m] = Inr SA" "I m SA" using js_fold_upt_inv [of I _ m ?f] by blast
  then obtain A' where A': "SA = A' @ ?Z" "length A' = m" "\<forall>k < m. A' ! (r ! k) = int k" by (auto simp: I_def)
  have "card (set r) = m" using distinct_card [OF perm(1)] n(3) by simp
  then have set: "set r = {..<m}" using perm(2) by (intro card_subset_eq) auto
  define sa where "sa = map nat A'"
  have ex: "\<exists>k < m. r ! k = x \<and> A' ! x = int k" if "x < m" for x
  proof -
    have "x \<in> set r" using that set by simp
    then show ?thesis using A'(3) n(3) by (auto simp: in_set_conv_nth)
  qed
  then have inv: "r ! (sa ! x) = x" "sa ! x < m" "A' ! x = int (sa ! x)" if "x < m" for x using that A'(2) by (fastforce simp: sa_def)+
  have eq: "A' = map int sa" using inv(3) A'(2) by (intro nth_equalityI) (auto simp: sa_def)
  have "suffix_less r (sa ! i) (sa ! j)" if "i < j" "j < m" for i j
    using that inv(1,2) [of i] inv(1,2) [of j] n(3) by (simp add: Cons_nth_drop_Suc [symmetric])
  moreover have "distinct sa" unfolding distinct_conv_nth using inv(1) A'(2) by (metis length_map sa_def)
  ultimately have "is_suffix_array r sa" using A'(2) inv(2) n(3)
    by (auto simp: is_suffix_array_def sorted_wrt_iff_nth_less in_set_conv_nth sa_def)
  then show ?thesis using SA(1) A'(1) eq by (auto simp: order_names_def)
qed

lemma list_lms_spec:
  assumes t: "bv_inv t" "bits_of t = stypes s" and s: "sortable s" and r: "length r = length (lms_list s)" "length P = off"
  shows "list_lms t (P @ r @ Z) off (length s) = Inr (P @ map int (lms_list s) @ Z)"
proof -
  let ?E = "\<lambda>i. filter (is_lms s) [0..<i]"
  define I where "I = (\<lambda>i (SA, j). SA = P @ map int (?E i) @ drop (length (?E i)) r @ Z \<and> j = length (?E i))"
  let ?f = "\<lambda>(SA, j) i. js_bind (SAIS_isLMS t i) (\<lambda>b. if b then js_bind (OArray_set off SA j (int i)) (\<lambda>SA. Inr (SA, j + 1)) else Inr (SA, j))"
  have bound: "length (?E i) \<le> length r" if "i \<le> length s" for i
  proof -
    have "lms_list s = ?E i @ filter (is_lms s) [i..<length s]" using upt_add_eq_append [of 0 i "length s - i"] that by (simp add: lms_list_def)
    then show ?thesis using r(1) by simp
  qed
  have one: "1 \<le> length s" using s by (simp add: sortable_def)
  have "I 1 (P @ r @ Z, 0)" by (simp add: I_def is_lms_def)
  moreover have "\<exists>st'. ?f st i = Inr st' \<and> I (Suc i) st'" if i: "i < length s" and st: "I i st" for i st
  proof (cases "is_lms s i")
    case False
    then show ?thesis using st isLMS_spec(1) [OF t i] by (cases st) (auto simp: I_def)
  next
    case True
    have "length (?E i) < length r" using bound [of "Suc i"] i True by simp
    then show ?thesis using st isLMS_spec(1) [OF t i] True r(2)
      by (cases st) (auto simp: I_def OArray_set_def js_put_def list_update_append Cons_nth_drop_Suc [symmetric])
  qed
  ultimately obtain st where "js_fold ?f (P @ r @ Z, 0) [1..<length s] = Inr st" "I (length s) st"
    using js_fold_range_inv [of 1 "length s" I _ ?f] one by blast
  then show ?thesis using r(1) by (cases st) (simp add: list_lms_def I_def lms_list_def)
qed

lemma lookup_lms_spec:
  assumes sa: "\<forall>k \<in> set sa. k < length L" and off: "length sa + length Y = off"
  shows "lookup_lms (map int sa @ Y @ map int L @ Z) off (length sa) = Inr (map int (map (nth L) sa) @ Y @ map int L @ Z)"
proof -
  define I where "I = (\<lambda>i SA. SA = map int (map (nth L) (take i sa)) @ map int (drop i sa) @ Y @ map int L @ Z)"
  let ?f = "\<lambda>SA i. js_bind (js_at SA i) (\<lambda>x. if x < 0 then Inl Undef else js_bind (js_at SA (nat x + off)) (\<lambda>y. js_put SA i y))"
  have "I 0 (map int sa @ Y @ map int L @ Z)" by (simp add: I_def)
  moreover have "\<exists>SA'. ?f SA i = Inr SA' \<and> I (Suc i) SA'" if i: "i < length sa" and SA: "I i SA" for i SA
  proof -
    have k: "sa ! i < length L" using sa i by simp
    have len: "length SA = off + length L + length Z" using SA off i by (simp add: I_def)
    have "SA ! i = int (sa ! i)" using SA i by (simp add: I_def nth_append)
    moreover have "SA ! (sa ! i + off) = int (L ! (sa ! i))"
    proof -
      obtain W where W: "SA = W @ map int L @ Z" "length W = off"
        using SA off i that [of "map int (map (nth L) (take i sa)) @ map int (drop i sa) @ Y"] by (simp add: I_def)
      then show ?thesis using k nth_append_length_plus [of W "map int L @ Z" "sa ! i"] by (simp add: nth_append add.commute)
    qed
    moreover have "SA[i := int (L ! (sa ! i))] = map int (map (nth L) (take (Suc i) sa)) @ map int (drop (Suc i) sa) @ Y @ map int L @ Z"
      using SA i by (simp add: I_def list_update_append take_Suc_conv_app_nth Cons_nth_drop_Suc [symmetric])
    ultimately show ?thesis using len i k off by (simp add: I_def)
  qed
  ultimately have "\<exists>SA. js_fold ?f (map int sa @ Y @ map int L @ Z) [0..<length sa] = Inr SA \<and> I (length sa) SA"
    using js_fold_upt_inv [of I _ "length sa" ?f] by blast
  then show ?thesis by (simp add: lookup_lms_def I_def)
qed

lemma sorted_lms:
  assumes s: "sortable s" and sa: "is_suffix_array (reduced s) sa"
  defines "P \<equiv> map (nth (lms_list s)) sa"
  shows "lms_subset s P" "set P = {i. is_lms s i}" "sorted_wrt (\<lambda>i j. lex_less (suffix_key s i) (suffix_key s j)) P"
    "sorted_wrt (\<lambda>i j. s ! i \<le> s ! j) P" "length P = length (lms_list s)" "\<forall>k \<in> set sa. k < length (lms_list s)"
proof -
  let ?L = "lms_list s"
  have len: "length (reduced s) = length ?L" by (rule reduced_marked(2) [OF s])
  have set: "set sa = {..<length ?L}" using suffix_array_set [OF sa] len by simp
  have sa': "distinct sa" "length sa = length ?L" using sa len by (simp_all add: is_suffix_array_def)
  show "\<forall>k \<in> set sa. k < length ?L" using set by simp
  show "length P = length ?L" using sa'(2) by (simp add: P_def)
  have "nth ?L ` {..<length ?L} = set ?L" by (metis atLeast_upt list.set_map map_nth)
  then have "set P = set ?L" using set by (simp add: P_def)
  then show setP: "set P = {i. is_lms s i}" using lms_list_facts(1) by simp
  have "distinct P" unfolding P_def using sa'(1) set lms_list_facts(3) [of s] by (auto simp: distinct_map inj_on_def nth_eq_iff_index_eq)
  then show "lms_subset s P" using setP by (simp add: lms_subset_def)
  have "lex_less (suffix_key s (P ! i)) (suffix_key s (P ! j))" if "i < j" "j < length sa" for i j
  proof -
    have "suffix_less (reduced s) (sa ! i) (sa ! j)" using sa that by (auto simp: is_suffix_array_def sorted_wrt_iff_nth_less)
    moreover have "sa ! i < length ?L" "sa ! j < length ?L" using set nth_mem that by (metis lessThan_iff less_trans)+
    ultimately show ?thesis using reduced_order [OF s] that by (simp add: P_def)
  qed
  then show less: "sorted_wrt (\<lambda>i j. lex_less (suffix_key s i) (suffix_key s j)) P" by (simp add: sorted_wrt_iff_nth_less P_def)
  have "s ! i \<le> s ! j" if "i \<in> set P" "j \<in> set P" "lex_less (suffix_key s i) (suffix_key s j)" for i j
  proof -
    have "i < length s" "j < length s" using that(1,2) setP by (auto simp: is_lms_def)
    then have "symbol s i < symbol s j \<or> symbol s i = symbol s j" using that(3) by (auto simp: suffix_key_rec)
    then show ?thesis by (metis order_refl symbol_le)
  qed
  then show "sorted_wrt (\<lambda>i j. s ! i \<le> s ! j) P" using less by (intro sorted_wrt_mono_rel [OF _ less])
qed

section \<open>The algorithm\<close>

lemma lms_list_subset: "lms_subset s (lms_list s)" "is_lms s i \<Longrightarrow> i \<in> set (lms_list s)"
  using lms_list_facts [of s] by (auto simp: lms_subset_def)

lemma sort_lms_substrings:
  assumes s: "sortable s" and src: "source_ok src Z s" and K: "\<forall>x \<in> set s. x \<le> K" and t: "bv_inv t" "bits_of t = stypes s"
  obtains A1 A2 A3 A4 C where
    "place_lms t src (replicate (length s) (- 1) @ Z) (map (bucket s True) [0..<Suc K]) (length s) = Inr (A1 @ Z)"
    "SAIS_induceSAl t (A1 @ Z) src (length s) K False = Inr (A2 @ Z)" "SAIS_induceSAs t (A2 @ Z) src (length s) K True = Inr (A3 @ Z)"
    "collect_lms t (A3 @ Z) (length s) = Inr (A4 @ Z, length C)"
    "fill_from (A4 @ Z) (length C) (length s) = Inr ((map int C @ replicate (length s - length C) (- 1)) @ Z)" "lms_sorted s C"
proof -
  obtain A1 where A1: "place_lms t src (replicate (length s) (- 1) @ Z) (map (bucket s True) [0..<Suc K]) (length s) = Inr (A1 @ Z)"
    "seeded s (lms_list s) (\<lambda>_. - 1) A1" using place_lms_spec [OF s src K t] by blast
  note st = seeded_start [OF s lms_list_subset A1(2)]
  obtain A2 where A2: "SAIS_induceSAl t (A1 @ Z) src (length s) K False = Inr (A2 @ Z)" "left.passed s A1 A2"
    using left_pass [OF s src K t st(1)] by blast
  obtain A3 where A3: "SAIS_induceSAs t (A2 @ Z) src (length s) K True = Inr (rev A3 @ Z)" "right.passed s (rev A2) A3"
    using right_pass [OF s src K t right_start [OF s A2(2)]] by blast
  obtain sa where sa: "rev A3 = map int sa" "sorted_by s (lms_key s) sa"
    using first_round [OF s A2(2) A3(2) st(3,2)] seeded_order(1,2) [OF s lms_list_subset(1) A1(2)] by blast
  let ?C = "filter (is_lms s) sa"
  have sa': "distinct sa" "set sa = {..<length s}" "length sa = length s"
    using sa(2) distinct_card [of sa] by (simp_all add: sorted_by_def)
  have C: "lms_sorted s ?C" using sa(2) by (auto simp: lms_sorted_def sorted_by_def sorted_wrt_filter is_lms_def)
  obtain A4 where A4: "collect_lms t (map int sa @ Z) (length s) = Inr (A4 @ Z, length ?C)" "length A4 = length s" "take (length ?C) A4 = map int ?C"
    using collect_lms_spec [OF t sa'(2,3), of Z] by blast
  have "length ?C \<le> length A4" using length_filter_le [of "is_lms s" sa] A4(2) sa'(3) by linarith
  then have "fill_from (A4 @ Z) (length ?C) (length s) = Inr ((map int ?C @ replicate (length s - length ?C) (- 1)) @ Z)"
    using fill_from_spec [of "length ?C" A4 Z] A4(2,3) by simp
  then show thesis using that [OF A1(1) A2(1) A3(1)] A4(1) sa(1) C by simp
qed

lemma name_and_pack:
  assumes s: "sortable s" and src: "source_ok src Z s" and t: "bv_inv t" "bits_of t = stypes s" and C: "lms_sorted s C"
  obtains A Y where
    "name_lms t src ((map int C @ replicate (length s - length C) (- 1)) @ Z) (length s) (length C) = Inr (A @ Z, card (lms_key s ` set C))"
    "pack_names (A @ Z) (length s) (length C) = Inr (map int C @ Y @ map int (reduced s) @ Z)"
    "length C + length Y = length s - length C"
proof -
  let ?m = "length C"
  have m: "?m = length (lms_list s)" "?m + ?m \<le> length s" using lms_sorted_length [OF C] lms_list_length [of s] by linarith+
  obtain A where A: "name_lms t src ((map int C @ replicate (length s - ?m) (- 1)) @ Z) (length s) ?m = Inr (A @ Z, card (lms_key s ` set C))"
    "named s C ?m A" using name_lms_spec [OF s src t C] by blast
  have len: "length A = length s" "take ?m A = map int C" using A(2) by (simp_all add: named_def)
  have F: "filter (\<lambda>x. 0 \<le> x) (drop ?m A) = map int (reduced s)" "length (reduced s) = ?m"
    using named_filter [OF C A(2)] reduced_marked(2) [OF s] m(1) by simp_all
  have "?m \<le> length A" using m len(1) by linarith
  then obtain A' where A': "pack_names (A @ Z) (length s) ?m = Inr (A' @ Z)" "length A' = length s" "take ?m A' = map int C"
    "drop (length s - ?m) A' = map int (reduced s)" using pack_names_spec [of ?m A Z] F len by auto
  define Y where "Y = drop ?m (take (length s - ?m) A')"
  have "take (length s - ?m) A' = map int C @ Y"
  proof -
    have "min ?m (length s - ?m) = ?m" using m(2) by linarith
    then show ?thesis using append_take_drop_id [of ?m "take (length s - ?m) A'"] A'(3) by (simp add: Y_def)
  qed
  then have "A' = map int C @ Y @ map int (reduced s)" using append_take_drop_id [of "length s - ?m" A'] A'(4) by simp
  moreover have "?m + length Y = length s - ?m" using A'(2) m(2) by (simp add: Y_def)
  ultimately show thesis using that [OF A(1)] A'(1) by simp
qed

lemma names_bound:
  assumes C: "lms_sorted s C" and s: "sortable s"
  shows "\<forall>x \<in> set (reduced s). x \<le> card (lms_key s ` set C) - 1" "card (lms_key s ` set C) \<le> length C" "0 < card (lms_key s ` set C)"
    "card (lms_key s ` set C) = length C \<Longrightarrow> distinct (reduced s)"
proof -
  have set: "set C = {i. is_lms s i}" using C by (simp add: lms_sorted_def)
  have "lms_name s i < card (lms_key s ` set C)" if "is_lms s i" for i
    unfolding lms_name_def
  proof (rule psubset_card_mono)
    let ?S = "lms_key s ` {j. is_lms s j \<and> lex_less (lms_key s j) (lms_key s i)}"
    have "lms_key s i \<in> lms_key s ` set C" "lms_key s i \<notin> ?S" using that set by auto
    then show "?S \<subset> lms_key s ` set C" using set by auto
  qed simp
  then show "\<forall>x \<in> set (reduced s). x \<le> card (lms_key s ` set C) - 1" using lms_list_facts(1) [of s] by (fastforce simp: reduced_def)
  show "card (lms_key s ` set C) \<le> length C" using card_image_le [of "set C" "lms_key s"] card_length [of C] by simp
  show "0 < card (lms_key s ` set C)" 
  proof (rule card_gt_0_iff [THEN iffD2], intro conjI)
    show "lms_key s ` set C \<noteq> {}" using last_lms [OF s] set by auto
  qed simp
  assume card: "card (lms_key s ` set C) = length C"
  have "card (set C) = length C" using C distinct_card [of C] unfolding lms_sorted_def by blast
  then have "inj_on (lms_key s) (set C)"  using card by (intro eq_card_imp_inj_on finite_set) (simp only:)
  then have "inj_on (lms_name s) (set (lms_list s))" using set lms_list_facts(1) [of s] lms_name_iff(2) [of s] by (auto simp: inj_on_def)
  then show "distinct (reduced s)" using lms_list_facts(3) [of s] by (simp add: reduced_def distinct_map)
qed

lemma sort_suffixes:
  assumes s: "sortable s" and src: "source_ok src Z s" and K: "\<forall>x \<in> set s. x \<le> K" and t: "bv_inv t" "bits_of t = stypes s"
    and sa1: "is_suffix_array (reduced s) sa1" and Y: "length (lms_list s) + length Y = length s - length (lms_list s)"
  defines "m \<equiv> length (lms_list s)"
  obtains A1 A2 A3 A4 A5 sa where
    "list_lms t (map int sa1 @ Y @ map int (reduced s) @ Z) (length s - m) (length s) = Inr (A1 @ Z)"
    "lookup_lms (A1 @ Z) (length s - m) m = Inr (A2 @ Z)" "fill_from (A2 @ Z) m (length s) = Inr (A3 @ Z)"
    "place_sorted src (A3 @ Z) (map (bucket s True) [0..<Suc K]) m = Inr (A4 @ Z)"
    "SAIS_induceSAl t (A4 @ Z) src (length s) K False = Inr (A5 @ Z)"
    "SAIS_induceSAs t (A5 @ Z) src (length s) K True = Inr (map int sa @ Z)" "is_suffix_array s sa"
proof -
  let ?L = "lms_list s" let ?P = "map (nth (lms_list s)) sa1"
  note P = sorted_lms [OF s sa1]
  have len: "length sa1 = m" using P(5) by (simp add: m_def)
  have m2: "m + m \<le> length s" using lms_list_length [of s] by (simp add: m_def)
  have l1: "list_lms t (map int sa1 @ Y @ map int (reduced s) @ Z) (length s - m) (length s) = Inr ((map int sa1 @ Y @ map int ?L) @ Z)"
    using list_lms_spec [OF t s, of "map int (reduced s)" "map int sa1 @ Y" "length s - m" Z] reduced_marked(2) [OF s] len Y
    by (simp add: m_def)
  have l2: "lookup_lms ((map int sa1 @ Y @ map int ?L) @ Z) (length s - m) m = Inr ((map int ?P @ Y @ map int ?L) @ Z)"
    using lookup_lms_spec [OF P(6), of Y "length s - m" Z] len Y by (simp add: m_def)
  have l3: "fill_from ((map int ?P @ Y @ map int ?L) @ Z) m (length s) = Inr ((map int ?P @ replicate (length s - length ?P) (- 1)) @ Z)"
  proof -
    have "length (map int ?P @ Y @ map int ?L) = length s" "length ?P = m" using len m2 Y by (simp_all add: m_def)
    then show ?thesis using fill_from_spec [of m "map int ?P @ Y @ map int ?L" Z] m2 by (simp del: map_map length_append)
  qed
  obtain A4 where A4: "place_sorted src ((map int ?P @ replicate (length s - length ?P) (- 1)) @ Z) (map (bucket s True) [0..<Suc K]) m = Inr (A4 @ Z)"
    "seeded s (rev ?P) (\<lambda>_. - 1) A4" using place_sorted_spec [OF s src K P(1,4)] P(5) m2 by (auto simp: m_def)
  have E: "lms_subset s (rev ?P)" "\<And>i. is_lms s i \<Longrightarrow> i \<in> set (rev ?P)" using P(1,2) by (auto simp: lms_subset_def)
  note st = seeded_start [OF s E A4(2)]
  obtain A5 where A5: "SAIS_induceSAl t (A4 @ Z) src (length s) K False = Inr (A5 @ Z)" "left.passed s A4 A5"
    using left_pass [OF s src K t st(1)] by blast
  obtain A6 where A6: "SAIS_induceSAs t (A5 @ Z) src (length s) K True = Inr (rev A6 @ Z)" "right.passed s (rev A5) A6"
    using right_pass [OF s src K t right_start [OF s A5(2)]] by blast
  have "lex_le (suffix_key s i) (suffix_key s j)" if "in_order A4 (int i) (int j)" "symbol s i = symbol s j" for i j
  proof -
    have "in_order ?P i j" using seeded_order(3) [OF s E(1) A4(2) that] by simp
    then show ?thesis using P(3) by (auto simp: in_order_def sorted_wrt_iff_nth_less)
  qed
  then obtain sa where "rev A6 = map int sa" "is_suffix_array s sa" using second_round [OF s A5(2) A6(2) st(3,2)] by blast
  then show thesis using that [OF l1 l2 l3 A4(1) A5(1)] A6(1) by simp
qed

lemma reduced_source:
  assumes "length Y + m = off" "m \<le> off" "length r = m"
  shows "source_ok (View off) (Y @ map int r @ Z) r"
  unfolding source_ok_def
proof (intro allI impI)
  fix A :: "int list" and i assume i: "length A = length r" "i < length r"
  then have "\<not> i + off < m" "\<not> i + off - m < length Y" "i + off - m - length Y = i" using assms by linarith+
  then show "OArray_at (View off) (A @ Y @ map int r @ Z) i = Some (int (r ! i))"
    using i assms by (simp add: nth_append)
qed

theorem SAIS_make_rec_correct:
  "sortable s \<Longrightarrow> source_ok src Z s \<Longrightarrow> \<forall>x \<in> set s. x \<le> K \<Longrightarrow> length A = length s \<Longrightarrow> length s < fuel \<Longrightarrow>
    \<exists>sa. SAIS_make_rec fuel src (A @ Z) (length s) K = Inr (map int sa @ Z) \<and> is_suffix_array s sa"
proof (induction fuel arbitrary: s src Z K A)
  case (Suc fuel)
  note s = Suc.prems(1) and src = Suc.prems(2) and K = Suc.prems(3) and A = Suc.prems(4)
  let ?n = "length s" and ?m = "length (lms_list s)" and ?r = "reduced s"
  obtain t where t: "classify src (A @ Z) ?n = Inr t" "bv_inv t" "bits_of t = stypes s" using classify_spec [OF s src A] by blast
  have fill: "fill_from (A @ Z) 0 ?n = Inr (replicate ?n (- 1) @ Z)" using fill_from_spec [of 0 A Z] A by simp
  obtain A1 A2 A3 A4 C where first:
    "place_lms t src (replicate (length s) (- 1) @ Z) (map (bucket s True) [0..<Suc K]) (length s) = Inr (A1 @ Z)"
    "SAIS_induceSAl t (A1 @ Z) src (length s) K False = Inr (A2 @ Z)" "SAIS_induceSAs t (A2 @ Z) src (length s) K True = Inr (A3 @ Z)"
    "collect_lms t (A3 @ Z) (length s) = Inr (A4 @ Z, length C)"
    "fill_from (A4 @ Z) (length C) (length s) = Inr ((map int C @ replicate (length s - length C) (- 1)) @ Z)" "lms_sorted s C"
    by (rule sort_lms_substrings [OF s src K t(2,3)])
  obtain A5 Y where pack:
    "name_lms t src ((map int C @ replicate (length s - length C) (- 1)) @ Z) (length s) (length C) = Inr (A5 @ Z, card (lms_key s ` set C))"
    "pack_names (A5 @ Z) (length s) (length C) = Inr (map int C @ Y @ map int (reduced s) @ Z)" "length C + length Y = length s - length C"
    by (rule name_and_pack [OF s src t(2,3) first(6)])
  let ?name = "card (lms_key s ` set C)"
  note nb = names_bound [OF first(6) s]
  have C: "length C = ?m" "length ?r = ?m" using lms_sorted_length [OF first(6)] reduced_marked(2) [OF s] by simp_all
  obtain sa1 where sa1: "(if ?name < ?m then SAIS_make_rec fuel (View (?n - ?m)) (map int C @ Y @ map int ?r @ Z) ?m (?name - 1)
      else order_names (map int C @ Y @ map int ?r @ Z) (?n - ?m) ?m) = Inr (map int sa1 @ Y @ map int ?r @ Z)" "is_suffix_array ?r sa1"
  proof (cases "?name < ?m")
    case True
    have "sortable ?r" using reduced_marked(1) [OF s] C(2) True nb(3) by (simp add: sortable_def)
    moreover have "source_ok (View (?n - ?m)) (Y @ map int ?r @ Z) ?r" by (rule reduced_source) (use pack(3) C in simp_all)
    moreover have "length ?r < fuel" using C(2) lms_list_length [of s] Suc.prems(5) s by (auto simp: sortable_def)
    ultimately have "\<exists>sa. SAIS_make_rec fuel (View (?n - ?m)) (map int C @ Y @ map int ?r @ Z) ?m (?name - 1)
        = Inr (map int sa @ Y @ map int ?r @ Z) \<and> is_suffix_array ?r sa"
      using Suc.IH [of ?r "View (?n - ?m)" "Y @ map int ?r @ Z" "?name - 1" "map int C"] nb(1) C by simp
    then show thesis using that True by auto
  next
    case False
    then have "?name = length C" using nb(2) C(1) by simp
    then have "distinct ?r" using nb(4) by simp
    moreover have "\<forall>x \<in> set ?r. x < ?m"
    proof
      fix x assume "x \<in> set ?r"
      then have "x \<le> ?name - 1" using nb(1) by blast
      then show "x < ?m" using \<open>?name = length C\<close> nb(3) C(1) by linarith
    qed
    moreover have "length Y = ?n - ?m - ?m" "?m \<le> ?n - ?m" using pack(3) C(1) by linarith+
    ultimately show thesis using order_names_spec [of "map int C" ?m "?n - ?m" Y ?r Z] that False C by auto
  qed
  obtain B1 B2 B3 B4 B5 sa where second:
    "list_lms t (map int sa1 @ Y @ map int (reduced s) @ Z) (length s - ?m) (length s) = Inr (B1 @ Z)"
    "lookup_lms (B1 @ Z) (length s - ?m) ?m = Inr (B2 @ Z)" "fill_from (B2 @ Z) ?m (length s) = Inr (B3 @ Z)"
    "place_sorted src (B3 @ Z) (map (bucket s True) [0..<Suc K]) ?m = Inr (B4 @ Z)"
    "SAIS_induceSAl t (B4 @ Z) src (length s) K False = Inr (B5 @ Z)"
    "SAIS_induceSAs t (B5 @ Z) src (length s) K True = Inr (map int sa @ Z)" "is_suffix_array s sa"
    by (rule sort_suffixes [OF s src K t(2,3) sa1(2)]) (use pack(3) C in simp)
  have bkt: "SAIS_getBuckets src (X @ Z) ?n K True = Inr (map (bucket s True) [0..<Suc K])" if "length X = ?n" for X
    by (rule getBuckets_spec [OF src that K])
  have "length (map int sa1 @ Y @ map int ?r) = ?n"
    using sa1(2) C pack(3) lms_list_length [of s] by (simp add: is_suffix_array_def)
  from bkt [OF this] have bkt2: "SAIS_getBuckets src (map int sa1 @ Y @ map int ?r @ Z) ?n K True = Inr (map (bucket s True) [0..<Suc K])" by simp
  have "SAIS_make_rec (Suc fuel) src (A @ Z) ?n K = Inr (map int sa @ Z)"
    using t(1) bkt [OF A] fill first(1-5) pack(1,2) sa1(1) bkt2 second(1-6) C(1)
    by (simp del: upt_Suc)
  then show ?case using second(7) by blast
qed simp

text \<open>The fuel of the recursion, one more than the length, is never used up: each reduced text is shorter.\<close>

lemma SAIS_make_suffix_array:
  assumes "marked s" "2 \<le> length s"
  shows "\<exists>sa. SAIS_make s = Inr (map int sa) \<and> is_suffix_array s sa"
proof -
  have "a \<le> foldl max a xs \<and> (\<forall>x \<in> set xs. x \<le> foldl max a xs)" for a :: nat and xs
  proof (induction xs arbitrary: a)
    case (Cons y ys)
    from Cons.IH [of "max a y"] show ?case by auto
  qed simp
  then have "\<forall>x \<in> set s. x \<le> foldl max 0 s" by blast
  moreover have "source_ok (Chars s) [] s" by (simp add: source_ok_def)
  ultimately show ?thesis
    using SAIS_make_rec_correct [of s "Chars s" "[]" "foldl max 0 s" "replicate (length s) 0" "length s + 1"] assms
    by (simp add: SAIS_make_def sortable_def)
qed

section \<open>Equivalence with sorting by insertion\<close>

text \<open>The reference: the positions of a text, inserted one by one where their suffix belongs.\<close>

fun insert_suffix :: "nat list \<Rightarrow> nat \<Rightarrow> nat list \<Rightarrow> nat list" where
  "insert_suffix s i [] = [i]"
| "insert_suffix s i (j # js) = (if suffix_less s i j then i # j # js else j # insert_suffix s i js)"

definition suffix_sort :: "nat list \<Rightarrow> nat list" where
  "suffix_sort s = foldr (insert_suffix s) [0..<length s] []"

lemma suffix_less_linear:
  assumes "i \<noteq> j" "i < length s" "j < length s"
  shows "suffix_less s i j \<or> suffix_less s j i"
proof -
  have "length (drop i s) \<noteq> length (drop j s)" using assms by auto
  then show ?thesis using lex_total [of "drop i s" "drop j s"] by metis
qed

lemma set_insert_suffix [simp]: "set (insert_suffix s i js) = insert i (set js)"
  by (induction js) auto

lemma sorted_insert_suffix:
  assumes "sorted_wrt (suffix_less s) js" "\<forall>j \<in> set js. i \<noteq> j" "\<forall>j \<in> set js. j < length s" "i < length s"
  shows "sorted_wrt (suffix_less s) (insert_suffix s i js)"
  using assms
proof (induction js)
  case (Cons j js)
  show ?case
  proof (cases "suffix_less s i j")
    case True
    then show ?thesis using Cons.prems(1) by (auto intro: lex_less_trans)
  next
    case False
    then have "suffix_less s j i" using Cons.prems(2-4) suffix_less_linear [of i j s] by auto
    then show ?thesis using False Cons by auto
  qed
qed simp

lemma suffix_sort_sorted:
  assumes "distinct is" "\<forall>i \<in> set is. i < length s"
  shows "sorted_wrt (suffix_less s) (foldr (insert_suffix s) is []) \<and> set (foldr (insert_suffix s) is []) = set is"
  using assms
proof (induction "is")
  case (Cons i "is")
  then show ?case using sorted_insert_suffix [of s "foldr (insert_suffix s) is []" i] by auto
qed simp

lemma sorted_wrt_unique:
  assumes "\<And>x y. P x y \<Longrightarrow> \<not> P y x"
  shows "sorted_wrt P xs \<Longrightarrow> sorted_wrt P ys \<Longrightarrow> set xs = set ys \<Longrightarrow> xs = ys"
proof (induction xs arbitrary: ys)
  case (Cons x xs)
  then obtain y ys' where ys: "ys = y # ys'" by (cases ys) auto
  have "x = y" using Cons.prems assms by (force simp: ys)
  moreover have "x \<notin> set xs" "y \<notin> set ys'" using Cons.prems assms unfolding ys sorted_wrt.simps by blast+
  ultimately show ?case using Cons.IH [of ys'] Cons.prems by (auto simp: ys insert_eq_iff)
qed simp

lemma suffix_array_unique:
  assumes "is_suffix_array s sa"
  shows "sa = suffix_sort s"
proof (rule sorted_wrt_unique [of "suffix_less s"])
  show "sorted_wrt (suffix_less s) sa" using assms by (simp add: is_suffix_array_def)
  show "sorted_wrt (suffix_less s) (suffix_sort s)" "set sa = set (suffix_sort s)"
    using suffix_sort_sorted [of "[0..<length s]" s] suffix_array_set [OF assms] by (auto simp: suffix_sort_def)
qed (rule lex_less_asym)

text \<open>
  C5.  The induced sorting of \<^verbatim>\<open>SAIS.make\<close> is a suffix sort: on every text of at least two characters
  whose last character is its unique least one, all loops and the recursion end, no access leaves
  the arrays, and the result is the list of positions in the order of their suffixes, the same that
  sorting by insertion gives.
\<close>

theorem SAIS_make_sorts:
  assumes "marked s" and "2 \<le> length s"
  shows "SAIS_make s = Inr (map int (suffix_sort s))"
  using SAIS_make_suffix_array [OF assms] suffix_array_unique by blast

theorem SAIS_make_sorts_witness: "SAIS_make [2, 1, 3, 1, 3, 1, 0] = Inr [6, 5, 3, 1, 0, 4, 2]"
proof -
  have "suffix_sort [2, 1, 3, 1, 3, 1, 0] = [6, 5, 3, 1, 0, 4, 2]" by code_simp
  then show ?thesis using SAIS_make_sorts [of "[2, 1, 3, 1, 3, 1, 0]"] by (simp add: marked_def)
qed

end
