(* ===== verification/FM_Index.thy ===== *)
theory FM_Index
  imports Wavelet_Matrix Suffix_Sorting Backward_Search
begin

text \<open>
  The class \<^verbatim>\<open>FMIndex\<close>: a text is pushed piece by piece, sorted and transformed, and stored as a
  wavelet matrix with the cumulative counts \<^verbatim>\<open>_rlt\<close> and two sampled dictionaries; a keyword is
  found by backward search, its rows are turned into positions by walking the last-to-first
  mapping to a sample, and the text is recovered by the same walk.

  The array \<^verbatim>\<open>_rlt\<close> is sparse (65536 slots, filled below the maximal character): it is an object
  with integer keys, and an unset slot makes the comparison of the search loop false, as
  \<^verbatim>\<open>NaN\<close> does.  A walk visits each row at most once before it repeats, so the size of the index is
  fuel enough: running out of it means that the loop does not end.  Printing (\<^verbatim>\<open>verbose\<close>) is left
  out.
\<close>

section \<open>The FM-index\<close>

record FMIndex =
  fm_ssize :: nat
  fm_ddic :: nat
  fm_head :: nat
  fm_substr :: jsstring
  fm_sv :: WaveletMatrix
  fm_posdic :: "nat list"
  fm_idic :: "nat list"
  fm_rlt :: "nat jsobj"

definition FMIndex_new :: FMIndex where
  "FMIndex_new = \<lparr>fm_ssize = 0, fm_ddic = 0, fm_head = 0, fm_substr = [], fm_sv = WaveletMatrix_new,
     fm_posdic = [], fm_idic = [], fm_rlt = []\<rparr>"

definition FMIndex_clear :: "FMIndex \<Rightarrow> FMIndex" where
  "FMIndex_clear fm = fm\<lparr>fm_sv := WaveletMatrix_clear (fm_sv fm), fm_posdic := [], fm_idic := [],
     fm_ddic := 0, fm_head := 0, fm_substr := []\<rparr>"

definition FMIndex_size :: "FMIndex \<Rightarrow> nat" where
  "FMIndex_size fm = WaveletMatrix_size (fm_sv fm)"

definition FMIndex_contentSize :: "FMIndex \<Rightarrow> nat" where
  "FMIndex_contentSize fm = length (fm_substr fm)"

text \<open>
  The loop of \<^verbatim>\<open>getRows\<close>; the key is consumed from its end, so the argument holds the remaining
  characters in reverse.
\<close>

fun getRows_loop :: "FMIndex \<Rightarrow> nat \<Rightarrow> nat \<Rightarrow> jsstring \<Rightarrow> (nat \<times> (nat \<times> nat) option) js" where
  "getRows_loop fm first_row last_row [] =
    (if first_row \<le> last_row then Inr (last_row - 1 - (first_row - 1) + 1, Some (first_row - 1, last_row - 1)) else Inr (0, None))"
| "getRows_loop fm first_row last_row (c # cs) =
    (if first_row \<le> last_row
     then js_bind (WaveletMatrix_rank (fm_sv fm) (first_row - 1) c) (\<lambda>r1.
          js_bind (WaveletMatrix_rank (fm_sv fm) last_row c) (\<lambda>r2.
            case obj_get (fm_rlt fm) c of
              None \<Rightarrow> Inr (0, None)
            | Some r \<Rightarrow> getRows_loop fm (r + r1 + 1) (r + r2) cs))
     else Inr (0, None))"

definition FMIndex_getRows :: "FMIndex \<Rightarrow> jsstring \<Rightarrow> (nat \<times> (nat \<times> nat) option) js" where
  "FMIndex_getRows fm key = (case rev key of
     [] \<Rightarrow> Inr (0, None)
   | code # cs \<Rightarrow> (case (obj_get (fm_rlt fm) code, obj_get (fm_rlt fm) (code + 1)) of
       (Some r, Some r') \<Rightarrow> getRows_loop fm (r + 1) r' cs
     | _ \<Rightarrow> Inr (0, None)))"

text \<open>One step of the walk: \<^verbatim>\<open>i = this._rlt[c] + this._sv.rank(i, c)\<close> with \<^verbatim>\<open>c = this._sv.get(i)\<close>.\<close>

definition walk_step :: "FMIndex \<Rightarrow> nat \<Rightarrow> (nat \<times> nat) js" where
  "walk_step fm i =
    js_bind (WaveletMatrix_get (fm_sv fm) i) (\<lambda>c.
    js_bind (WaveletMatrix_rank (fm_sv fm) i c) (\<lambda>r.
      case obj_get (fm_rlt fm) c of None \<Rightarrow> Inl Undef | Some l \<Rightarrow> Inr (c, l + r)))"

fun getPosition_loop :: "FMIndex \<Rightarrow> nat \<Rightarrow> nat \<Rightarrow> nat \<Rightarrow> nat js" where
  "getPosition_loop fm 0 i pos = Inl Diverge"
| "getPosition_loop fm (Suc fuel) i pos =
    (if i = fm_head fm then Inr pos
     else if fm_ddic fm \<noteq> 0 \<and> i mod fm_ddic fm = 0
     then js_bind (js_at (fm_posdic fm) (i div fm_ddic fm)) (\<lambda>p. Inr (pos + (p + 1)))
     else js_bind (walk_step fm i) (\<lambda>(c, i). getPosition_loop fm fuel i (pos + 1)))"

definition FMIndex_getPosition :: "FMIndex \<Rightarrow> nat \<Rightarrow> nat js" where
  "FMIndex_getPosition fm i =
    (if FMIndex_size fm \<le> i then Inl (Throw ''FMIndex.getPosition() : range error'')
     else js_bind (getPosition_loop fm (FMIndex_size fm + 1) i 0) (\<lambda>pos. Inr (pos mod FMIndex_size fm)))"

fun getSubstring_loop :: "FMIndex \<Rightarrow> nat \<Rightarrow> nat \<Rightarrow> nat \<Rightarrow> nat \<Rightarrow> jsstring \<Rightarrow> jsstring js" where
  "getSubstring_loop fm pos pos_end 0 i substr =
    (if pos \<le> 0
     then js_bind (walk_step fm i) (\<lambda>(c, i). Inr (if 0 < pos_end then c # substr else substr))
     else Inr substr)"
| "getSubstring_loop fm pos pos_end (Suc pos_tmp) i substr =
    (if pos \<le> Suc pos_tmp
     then js_bind (walk_step fm i) (\<lambda>(c, i).
       getSubstring_loop fm pos pos_end pos_tmp i (if Suc pos_tmp < pos_end then c # substr else substr))
     else Inr substr)"

definition FMIndex_getSubstring :: "FMIndex \<Rightarrow> nat \<Rightarrow> nat \<Rightarrow> jsstring js" where
  "FMIndex_getSubstring fm pos len =
    (let size = FMIndex_size fm; ddic = fm_ddic fm in
     if size \<le> pos then Inl (Throw ''FMIndex.getSubstring() : range error'')
     else
       (let pos_end = min (pos + len) size;
            pos_idic = (int pos_end + int ddic - 2) div int ddic
        in if ddic \<noteq> 0 \<and> pos_idic < int (length (fm_idic fm))
           then if pos_idic < 0 then Inr []
             else js_bind (js_at (fm_idic fm) (nat pos_idic)) (\<lambda>i.
               getSubstring_loop fm pos pos_end (nat pos_idic * ddic) i [])
           else getSubstring_loop fm pos pos_end (size - 1) (fm_head fm) []))"

text \<open>The two samples taken at row \<^verbatim>\<open>i\<close>, which stands for the position after \<^verbatim>\<open>pos\<close>.\<close>

definition dict_update :: "FMIndex \<Rightarrow> nat \<Rightarrow> nat \<Rightarrow> FMIndex" where
  "dict_update fm i pos =
    (let ddic = fm_ddic fm;
         fm = (if i mod ddic = 0 then fm\<lparr>fm_posdic := (fm_posdic fm)[i div ddic := pos]\<rparr> else fm)
     in if pos mod ddic = 0 then fm\<lparr>fm_idic := (fm_idic fm)[pos div ddic := i]\<rparr> else fm)"

fun buildDictionaries_loop :: "FMIndex \<Rightarrow> nat \<Rightarrow> nat \<Rightarrow> nat \<Rightarrow> FMIndex js" where
  "buildDictionaries_loop fm 0 i pos = Inl Diverge"
| "buildDictionaries_loop fm (Suc fuel) i pos =
    (let fm = dict_update fm i pos
     in js_bind (walk_step fm i) (\<lambda>(c, i).
          if i = fm_head fm then Inr fm else buildDictionaries_loop fm fuel i (pos - 1)))"

definition FMIndex_buildDictionaries :: "FMIndex \<Rightarrow> FMIndex js" where
  "FMIndex_buildDictionaries fm =
    (if fm_ddic fm = 0 then Inl Diverge
     else
       (let k = (fm_ssize fm + fm_ddic fm - 1) div fm_ddic fm + 1;
            fm = fm\<lparr>fm_posdic := fm_posdic fm @ replicate k 0, fm_idic := fm_idic fm @ replicate k 0\<rparr>
        in buildDictionaries_loop fm (FMIndex_size fm) (fm_head fm) (FMIndex_size fm - 1)))"

definition build_rlt :: "WaveletMatrix \<Rightarrow> nat \<Rightarrow> nat jsobj \<Rightarrow> nat jsobj js" where
  "build_rlt sv maxChar rlt =
    js_fold (\<lambda>rlt c. js_bind (WaveletMatrix_rank_less_than sv (WaveletMatrix_size sv) c)
      (\<lambda>r. Inr (obj_set c r rlt))) rlt [0..<maxChar]"

definition FMIndex_build :: "FMIndex \<Rightarrow> jsstring \<Rightarrow> nat \<Rightarrow> nat \<Rightarrow> FMIndex js" where
  "FMIndex_build fm end_marker maxChar ddic =
    js_bind (BurrowsWheelerTransform_build BurrowsWheelerTransform_new (fm_substr fm @ end_marker)) (\<lambda>b.
    js_bind (BurrowsWheelerTransform_get b) (\<lambda>s.
    if bwt_head b < 0 then Inl Undef
    else js_bind (WaveletMatrix_build (WaveletMatrix_setMaxCharCode (fm_sv fm) maxChar) s) (\<lambda>sv.
    js_bind (build_rlt sv maxChar (fm_rlt fm)) (\<lambda>rlt.
      FMIndex_buildDictionaries (fm\<lparr>fm_ssize := length s, fm_head := nat (bwt_head b), fm_substr := [],
        fm_sv := sv, fm_rlt := rlt, fm_ddic := ddic\<rparr>)))))"

definition FMIndex_build0 :: "FMIndex \<Rightarrow> FMIndex js" where
  "FMIndex_build0 fm = FMIndex_build fm [0] 65535 20"

definition FMIndex_build_marker :: "FMIndex \<Rightarrow> jsstring \<Rightarrow> nat \<Rightarrow> FMIndex js" where
  "FMIndex_build_marker fm end_marker ddic = FMIndex_build fm end_marker 65535 ddic"

definition FMIndex_push :: "FMIndex \<Rightarrow> jsstring \<Rightarrow> FMIndex js" where
  "FMIndex_push fm doc =
    (if doc = [] then Inl (Throw ''FMIndex::push(): empty string'')
     else Inr (fm\<lparr>fm_substr := fm_substr fm @ doc\<rparr>))"

definition FMIndex_search :: "FMIndex \<Rightarrow> jsstring \<Rightarrow> nat list js" where
  "FMIndex_search fm keyword =
    js_bind (FMIndex_getRows fm keyword) (\<lambda>(rows, position).
      case position of
        None \<Rightarrow> Inr []
      | Some (first_row, last_row) \<Rightarrow>
          if 0 < rows
          then js_fold (\<lambda>result i. js_bind (FMIndex_getPosition fm i) (\<lambda>p. Inr (result @ [p]))) [] [first_row..<last_row + 1]
          else Inr [])"

subsection \<open>Backward search on a stored index\<close>

text \<open>
  The state of an index for the marked text \<^verbatim>\<open>s\<close> with suffix array \<^verbatim>\<open>sa\<close>, whose counts are cached
  for the codes below \<^verbatim>\<open>M\<close>.
\<close>

definition fm_core :: "FMIndex \<Rightarrow> nat list \<Rightarrow> nat list \<Rightarrow> nat \<Rightarrow> bool" where
  "fm_core fm s sa M \<longleftrightarrow> is_suffix_array s sa \<and> marked s \<and> wm_repr (fm_sv fm) (bwt_of s sa)
    \<and> (\<forall>x \<in> set s. x < M) \<and> (\<forall>c < M. obj_get (fm_rlt fm) c = Some (count_below s c))
    \<and> fm_head fm < length s \<and> sa ! fm_head fm = 0"

lemma fm_coreD:
  assumes "fm_core fm s sa M"
  shows "is_suffix_array s sa" and "marked s" and "wm_repr (fm_sv fm) (bwt_of s sa)"
    and "x \<in> set s \<Longrightarrow> x < M" and "c < M \<Longrightarrow> obj_get (fm_rlt fm) c = Some (count_below s c)"
    and "fm_head fm < length s" and "sa ! fm_head fm = 0" and "length sa = length s"
    and "i < length s \<Longrightarrow> sa ! i < length s" and "s \<noteq> []" and "distinct sa"
  using assms unfolding fm_core_def by (auto simp: is_suffix_array_def)

lemma fm_core_size: "fm_core fm s sa M \<Longrightarrow> FMIndex_size fm = length s"
  using wm_repr_size [of "fm_sv fm" "bwt_of s sa"]
  by (simp add: FMIndex_size_def WaveletMatrix_size_def fm_coreD)

lemma fm_core_rank:
  "fm_core fm s sa M \<Longrightarrow> i \<le> length s \<Longrightarrow> WaveletMatrix_rank (fm_sv fm) i c = Inr (rank_list (bwt_of s sa) c i)"
  using wm.rank_law [of "fm_sv fm" "bwt_of s sa"] by (simp add: fm_coreD)

lemma getRows_loop_spec:
  assumes fm: "fm_core fm s sa M" and "\<forall>c \<in> set cs. c < M \<and> c \<noteq> last s"
  shows "getRows_loop fm (lower s sa key + 1) (upper s sa key) cs =
    (if lower s sa (rev cs @ key) < upper s sa (rev cs @ key)
     then Inr (upper s sa (rev cs @ key) - lower s sa (rev cs @ key),
               Some (lower s sa (rev cs @ key), upper s sa (rev cs @ key) - 1))
     else Inr (0, None))"
  using assms(2)
proof (induction cs arbitrary: key)
  case Nil
  then show ?case by auto
next
  case (Cons c cs)
  note sa = fm_coreD(1) [OF fm] and le = lower_upper_le [OF fm_coreD(1) [OF fm]]
  have c: "c < M" "c \<noteq> last s" using Cons.prems by simp_all
  note step = backward_step [OF sa c(2) fm_coreD(10) [OF fm], of key]
  have IH: "getRows_loop fm (lower s sa (c # key) + 1) (upper s sa (c # key)) cs =
    (if lower s sa (rev (c # cs) @ key) < upper s sa (rev (c # cs) @ key)
     then Inr (upper s sa (rev (c # cs) @ key) - lower s sa (rev (c # cs) @ key),
               Some (lower s sa (rev (c # cs) @ key), upper s sa (rev (c # cs) @ key) - 1))
     else Inr (0, None))"
    using Cons.IH [of "c # key"] Cons.prems by simp
  show ?case
  proof (cases "lower s sa key < upper s sa key")
    case True
    then have "getRows_loop fm (lower s sa key + 1) (upper s sa key) (c # cs)
        = getRows_loop fm (lower s sa (c # key) + 1) (upper s sa (c # key)) cs"
      using fm_core_rank [OF fm] le [of key] step c(1) by (simp add: fm_coreD(5) [OF fm])
    then show ?thesis using IH by simp
  next
    case False
    then have eq: "lower s sa key = upper s sa key" using le(1) [of key] by simp
    have "lower s sa (c # key) = upper s sa (c # key)" using step eq by simp
    then have "\<not> lower s sa (c # key) + 1 \<le> upper s sa (c # key)" by simp
    then have "getRows_loop fm (lower s sa (c # key) + 1) (upper s sa (c # key)) cs = Inr (0, None)"
      by (cases cs) simp_all
    then show ?thesis using IH False by simp
  qed
qed

definition keyword_ok :: "nat list \<Rightarrow> nat \<Rightarrow> nat list \<Rightarrow> bool" where
  "keyword_ok s M key \<longleftrightarrow> key \<noteq> [] \<and> (\<forall>c \<in> set key. c < M \<and> c \<noteq> last s) \<and> last key + 1 < M"

theorem FMIndex_getRows_spec:
  assumes fm: "fm_core fm s sa M" and key: "keyword_ok s M key"
  shows "FMIndex_getRows fm key =
    (if lower s sa key < upper s sa key
     then Inr (upper s sa key - lower s sa key, Some (lower s sa key, upper s sa key - 1))
     else Inr (0, None))"
proof -
  obtain c cs where r: "rev key = c # cs" using key by (cases "rev key") (auto simp: keyword_ok_def)
  then have k: "key = rev cs @ [c]" by (metis rev.simps(2) rev_rev_ident)
  have cs: "\<forall>c \<in> set cs. c < M \<and> c \<noteq> last s" and c: "c < M" "c + 1 < M"
    using key by (auto simp: keyword_ok_def k)
  show ?thesis
    using getRows_loop_spec [OF fm cs, of "[c]"] fm_coreD(5) [OF fm c(1)] fm_coreD(5) [OF fm c(2)]
      backward_start [OF fm_coreD(1) [OF fm], of c]
    by (simp add: FMIndex_getRows_def r k)
qed

subsection \<open>Walking\<close>

lemma walk_step_spec:
  assumes fm: "fm_core fm s sa M" and i: "i < length s"
  shows "walk_step fm i = Inr (s ! ((sa ! i + length s - 1) mod length s), lf s sa i)"
proof -
  let ?c = "bwt_of s sa ! i"
  have c: "?c = s ! ((sa ! i + length s - 1) mod length s)"
    using i fm_coreD(8) [OF fm] by (simp add: bwt_of_def)
  have "?c < M" unfolding c by (rule fm_coreD(4) [OF fm]) (intro nth_mem mod_less_divisor, use i in linarith)
  moreover have "WaveletMatrix_get (fm_sv fm) i = Inr ?c"
    using wm.get_law [OF fm_coreD(3) [OF fm], of i] i fm_coreD(8) [OF fm] by simp
  ultimately show ?thesis
    using fm_core_rank [OF fm, of i ?c] i fm_coreD(5) [OF fm] by (simp add: walk_step_def lf_def c)
qed

definition fm_posdic_ok :: "FMIndex \<Rightarrow> nat list \<Rightarrow> nat list \<Rightarrow> bool" where
  "fm_posdic_ok fm s sa \<longleftrightarrow> 0 < fm_ddic fm \<and> (\<forall>i < length s. i mod fm_ddic fm = 0 \<longrightarrow>
    i div fm_ddic fm < length (fm_posdic fm)
    \<and> fm_posdic fm ! (i div fm_ddic fm) = (sa ! i + length s - 1) mod length s)"

definition fm_idic_ok :: "FMIndex \<Rightarrow> nat list \<Rightarrow> nat list \<Rightarrow> bool" where
  "fm_idic_ok fm s sa \<longleftrightarrow> (\<forall>pos < length s. pos mod fm_ddic fm = 0 \<longrightarrow>
    pos div fm_ddic fm < length (fm_idic fm) \<and> fm_idic fm ! (pos div fm_ddic fm) < length s
    \<and> sa ! (fm_idic fm ! (pos div fm_ddic fm)) = (pos + 1) mod length s)"

lemma pred_mod: "0 < j \<Longrightarrow> j < n \<Longrightarrow> (j + n - 1) mod n = j - (1::nat)"
  by (cases j) simp_all

lemma pred_succ_mod: "j < n \<Longrightarrow> ((j + n - 1) mod n + 1) mod n = (j::nat)"
  by (cases j) simp_all

lemma succ_pred_mod: "p < n \<Longrightarrow> ((p + 1) mod n + n - 1) mod n = (p::nat)"
proof (cases "p + 1 = n")
  case False
  assume "p < n"
  with False have "(p + 1) mod n = p + 1" by simp
  then show ?thesis using \<open>p < n\<close> by simp
qed auto

lemma getPosition_loop_spec:
  assumes fm: "fm_core fm s sa M" and dic: "fm_posdic_ok fm s sa"
    and "i < length s" and "sa ! i < fuel"
  shows "\<exists>p. getPosition_loop fm fuel i pos = Inr p \<and> p mod length s = (pos + sa ! i) mod length s"
  using assms(3,4)
proof (induction fuel arbitrary: i pos)
  case (Suc fuel)
  let ?n = "length s"
  have j: "sa ! i < ?n" by (rule fm_coreD(9) [OF fm Suc.prems(1)])
  show ?case
  proof (cases "i = fm_head fm")
    case True
    then show ?thesis by (simp add: fm_coreD(7) [OF fm])
  next
    case head: False
    have j0: "0 < sa ! i"
    proof (rule ccontr)
      assume "\<not> 0 < sa ! i"
      then have "sa ! i = sa ! fm_head fm" using fm_coreD(7) [OF fm] by simp
      then show False
        using head Suc.prems(1) fm_coreD(6,8,11) [OF fm] nth_eq_iff_index_eq [of sa i "fm_head fm"] by simp
    qed
    have pred: "(sa ! i + ?n - 1) mod ?n = sa ! i - 1" by (rule pred_mod [OF j0 j])
    show ?thesis
    proof (cases "i mod fm_ddic fm = 0")
      case True
      then have "js_at (fm_posdic fm) (i div fm_ddic fm) = Inr (sa ! i - 1)" "fm_ddic fm \<noteq> 0"
        using dic Suc.prems(1) pred by (auto simp: fm_posdic_ok_def)
      then show ?thesis using True head j0 by simp
    next
      case False
      have lf: "lf s sa i < ?n" "sa ! lf s sa i = sa ! i - 1"
        using lf_step [OF fm_coreD(1,2) [OF fm] Suc.prems(1)] pred by simp_all
      have "getPosition_loop fm (Suc fuel) i pos = getPosition_loop fm fuel (lf s sa i) (pos + 1)"
        using False head walk_step_spec [OF fm Suc.prems(1)] by simp
      moreover have "pos + 1 + (sa ! i - 1) = pos + sa ! i" using j0 by simp
      ultimately show ?thesis using Suc.IH [OF lf(1), of "pos + 1"] lf(2) Suc.prems(2) j0 by auto
    qed
  qed
qed simp

theorem FMIndex_getPosition_spec:
  assumes fm: "fm_core fm s sa M" and dic: "fm_posdic_ok fm s sa" and i: "i < length s"
  shows "FMIndex_getPosition fm i = Inr (sa ! i)"
proof -
  have j: "sa ! i < length s" by (rule fm_coreD(9) [OF fm i])
  obtain p where p: "getPosition_loop fm (length s + 1) i 0 = Inr p" "p mod length s = (0 + sa ! i) mod length s"
    using getPosition_loop_spec [OF fm dic i, of "length s + 1" 0] j by auto
  then show ?thesis using i j by (simp add: FMIndex_getPosition_def fm_core_size [OF fm])
qed

lemma getPosition_rows:
  assumes fm: "fm_core fm s sa M" and dic: "fm_posdic_ok fm s sa" and "b \<le> length s"
  shows "js_fold (\<lambda>result i. js_bind (FMIndex_getPosition fm i) (\<lambda>p. Inr (result @ [p]))) acc [a..<b]
    = Inr (acc @ drop a (take b sa))"
  using assms(3)
proof (induction "b - a" arbitrary: a acc)
  case (Suc n)
  have a: "a < b" using Suc by simp
  then have "[a..<b] = a # [Suc a..<b]" by (simp add: upt_conv_Cons)
  moreover have "drop a (take b sa) = sa ! a # drop (Suc a) (take b sa)"
    using a Suc.prems fm_coreD(8) [OF fm] Cons_nth_drop_Suc [of a "take b sa"] by simp
  ultimately show ?case
    using Suc.hyps(1) [of "Suc a" "acc @ [sa ! a]"] Suc.hyps(2) Suc.prems a FMIndex_getPosition_spec [OF fm dic, of a]
    by simp
qed simp

theorem FMIndex_search_spec:
  assumes fm: "fm_core fm s sa M" and dic: "fm_posdic_ok fm s sa" and key: "keyword_ok s M key"
  shows "FMIndex_search fm key = Inr [j \<leftarrow> sa. starts_with key (drop j s)]"
proof (cases "lower s sa key < upper s sa key")
  case True
  then have "upper s sa key - 1 + 1 = upper s sa key" by simp
  then show ?thesis
    using FMIndex_getRows_spec [OF fm key] True rows_of_key [OF fm_coreD(1) [OF fm], of key]
      getPosition_rows [OF fm dic lower_upper_le(2) [OF fm_coreD(1) [OF fm]], of "[]" "lower s sa key"]
    by (simp add: FMIndex_search_def del: upt_Suc)
next
  case False
  then have "drop (lower s sa key) (take (upper s sa key) sa) = []" by simp
  then show ?thesis
    using FMIndex_getRows_spec [OF fm key] False rows_of_key [OF fm_coreD(1) [OF fm], of key]
    by (simp add: FMIndex_search_def)
qed

subsection \<open>Recovering the text\<close>

lemma getSubstring_loop_spec:
  assumes fm: "fm_core fm s sa M"
    and "i < length s" and "sa ! i = (pos_tmp + 1) mod length s" and "pos_tmp < length s"
    and "pos \<le> pos_tmp + 1"
  shows "getSubstring_loop fm pos pos_end pos_tmp i acc
    = Inr (drop pos (take (min (pos_tmp + 1) pos_end) s) @ acc)"
  using assms(2-)
proof (induction pos_tmp arbitrary: i acc)
  case 0
  have pred: "(sa ! i + length s - 1) mod length s = 0" using succ_pred_mod [OF 0(3)] 0(2) by simp
  show ?case
  proof (cases "pos = 0")
    case True
    have "take 1 s = [s ! 0]" using 0 by (simp add: take_Suc_conv_app_nth)
    then show ?thesis
      using True walk_step_spec [OF fm 0(1)] pred by (cases pos_end) (simp_all add: min_def)
  next
    case False
    then have "drop pos (take (min 1 pos_end) s) = []" by simp
    then show ?thesis using False by simp
  qed
next
  case (Suc p)
  have pred: "(sa ! i + length s - 1) mod length s = Suc p"
    using succ_pred_mod [OF Suc.prems(3)] Suc.prems(2) by simp
  note lf = lf_step [OF fm_coreD(1,2) [OF fm] Suc.prems(1), unfolded pred]
  have lf': "sa ! lf s sa i = (p + 1) mod length s" using lf(2) Suc.prems(3) by simp
  show ?case
  proof (cases "pos \<le> Suc p")
    case True
    have t: "drop pos (take (Suc (Suc p)) s) = drop pos (take (Suc p) s) @ [s ! Suc p]"
      using True Suc.prems(3) take_Suc_conv_app_nth [of "Suc p" s] by simp
    have "getSubstring_loop fm pos pos_end (Suc p) i acc
        = getSubstring_loop fm pos pos_end p (lf s sa i) (if Suc p < pos_end then s ! Suc p # acc else acc)"
      using True walk_step_spec [OF fm Suc.prems(1)] pred by simp
    also have "\<dots> = Inr (drop pos (take (min (p + 1) pos_end) s) @ (if Suc p < pos_end then s ! Suc p # acc else acc))"
      using True Suc.prems(3) by (intro Suc.IH [OF lf(1) lf']) simp_all
    also have "\<dots> = Inr (drop pos (take (min (Suc p + 1) pos_end) s) @ acc)"
      using t by (cases "Suc p < pos_end") (simp_all add: min_def)
    finally show ?thesis .
  next
    case False
    then have "pos = Suc (Suc p)" using Suc.prems(4) by simp
    then show ?thesis by simp
  qed
qed

text \<open>
  The sample that \<^verbatim>\<open>getSubstring\<close> starts from: the first multiple of \<^verbatim>\<open>ddic\<close> at or after the last
  wanted position.
\<close>

definition sample :: "nat \<Rightarrow> nat \<Rightarrow> nat" where
  "sample ddic pos_end = nat ((int pos_end + int ddic - 2) div int ddic)"

lemma sample_bound:
  assumes "0 < d" and "0 < pos_end"
  shows "0 \<le> (int pos_end + int d - 2) div int d" and "pos_end \<le> sample d pos_end * d + 1"
proof -
  have "- 1 < (int pos_end + int d - 2) div int d"
  proof -
    have "0 \<le> int pos_end + int d - 2" using assms by linarith
    then show ?thesis using assms(1) by (simp add: pos_imp_zdiv_nonneg_iff order_less_le_trans [of _ 0])
  qed
  then show n: "0 \<le> (int pos_end + int d - 2) div int d" by simp
  let ?q = "(int pos_end + int d - 2) div int d"
  have "int pos_end + int d - 2 = ?q * int d + (int pos_end + int d - 2) mod int d" by simp
  moreover have "(int pos_end + int d - 2) mod int d < int d" using assms(1) by simp
  ultimately have "int pos_end \<le> ?q * int d + 1" by linarith
  moreover have "int (sample d pos_end * d) = ?q * int d" using n by (simp add: sample_def)
  ultimately show "pos_end \<le> sample d pos_end * d + 1" by linarith
qed

theorem FMIndex_getSubstring_spec:
  assumes fm: "fm_core fm s sa M" and dic: "fm_idic_ok fm s sa" and d: "0 < fm_ddic fm"
    and pos: "pos < length s" and len: "0 < len"
    and sampled: "sample (fm_ddic fm) (min (pos + len) (length s)) * fm_ddic fm < length s
      \<or> length (fm_idic fm) \<le> sample (fm_ddic fm) (min (pos + len) (length s))"
  shows "FMIndex_getSubstring fm pos len = Inr (take len (drop pos s))"
proof -
  let ?n = "length s" and ?e = "min (pos + len) (length s)" and ?d = "fm_ddic fm"
  let ?k = "sample ?d ?e"
  have e: "0 < ?e" "pos < ?e" using pos len by auto
  note b = sample_bound [OF d e(1)]
  have result: "drop pos (take ?e s) = take len (drop pos s)" by (simp add: drop_take min_def)
  have k: "(int ?e + int ?d - 2) div int ?d = int ?k" using b(1) by (simp add: sample_def)
  show ?thesis
  proof (cases "?k < length (fm_idic fm)")
    case True
    then have lt: "?k * ?d < ?n" using sampled by simp
    define i where "i = fm_idic fm ! ?k"
    have i: "i < ?n" "sa ! i = (?k * ?d + 1) mod ?n"
      using dic lt d by (auto simp: fm_idic_ok_def i_def)
    have "FMIndex_getSubstring fm pos len = getSubstring_loop fm pos ?e (?k * ?d) i []"
      using True pos d k by (simp add: FMIndex_getSubstring_def fm_core_size [OF fm] Let_def i_def)
    also have "\<dots> = Inr (drop pos (take (min (?k * ?d + 1) ?e) s) @ [])"
      using b(2) e by (intro getSubstring_loop_spec [OF fm i lt]) linarith
    finally show ?thesis using b(2) result by (simp add: min_absorb2)
  next
    case False
    have n: "?n - 1 + 1 = ?n" using pos by simp
    have "FMIndex_getSubstring fm pos len = getSubstring_loop fm pos ?e (?n - 1) (fm_head fm) []"
      using False pos d k by (simp add: FMIndex_getSubstring_def fm_core_size [OF fm] Let_def)
    also have "\<dots> = Inr (drop pos (take (min (?n - 1 + 1) ?e) s) @ [])"
      using pos fm_coreD(6,7) [OF fm] n by (intro getSubstring_loop_spec [OF fm]) (simp_all add: n)
    finally show ?thesis using pos result by (simp add: min_absorb2)
  qed
qed

subsection \<open>Building\<close>

text \<open>The dictionary entries of the positions from \<^verbatim>\<open>k\<close> on are in place.\<close>

definition dict_from :: "FMIndex \<Rightarrow> nat list \<Rightarrow> nat list \<Rightarrow> nat \<Rightarrow> bool" where
  "dict_from fm s sa k \<longleftrightarrow> 0 < fm_ddic fm \<and> length (fm_posdic fm) = length (fm_idic fm)
    \<and> (\<forall>x \<in> set (fm_posdic fm). x < length s) \<and> (\<forall>x \<in> set (fm_idic fm). x < length s)
    \<and> length s \<le> length (fm_posdic fm) * fm_ddic fm \<and> length s \<le> length (fm_idic fm) * fm_ddic fm
    \<and> (\<forall>i < length s. i mod fm_ddic fm = 0 \<longrightarrow> k \<le> (sa ! i + length s - 1) mod length s \<longrightarrow>
         fm_posdic fm ! (i div fm_ddic fm) = (sa ! i + length s - 1) mod length s)
    \<and> (\<forall>pos < length s. pos mod fm_ddic fm = 0 \<longrightarrow> k \<le> pos \<longrightarrow> fm_idic fm ! (pos div fm_ddic fm) < length s
         \<and> sa ! (fm_idic fm ! (pos div fm_ddic fm)) = (pos + 1) mod length s)"

lemma dict_from_0:
  assumes "dict_from fm s sa 0"
  shows "fm_posdic_ok fm s sa" and "fm_idic_ok fm s sa"
proof -
  have "i div fm_ddic fm < length (fm_posdic fm)" "i div fm_ddic fm < length (fm_idic fm)" if "i < length s" for i
    using assms that by (auto simp: dict_from_def less_mult_imp_div_less)
  then show "fm_posdic_ok fm s sa" "fm_idic_ok fm s sa"
    using assms by (auto simp: dict_from_def fm_posdic_ok_def fm_idic_ok_def)
qed

lemma dict_update_core: "fm_core (dict_update fm i pos) s sa M = fm_core fm s sa M"
  by (simp add: dict_update_def Let_def fm_core_def)

lemma dict_update_simps:
  "fm_ddic (dict_update fm i pos) = fm_ddic fm"
  "fm_head (dict_update fm i pos) = fm_head fm"
  "fm_rlt (dict_update fm i pos) = fm_rlt fm"
  "fm_ssize (dict_update fm i pos) = fm_ssize fm"
  "fm_sv (dict_update fm i pos) = fm_sv fm"
  "fm_posdic (dict_update fm i pos) = (if i mod fm_ddic fm = 0 then (fm_posdic fm)[i div fm_ddic fm := pos] else fm_posdic fm)"
  "fm_idic (dict_update fm i pos) = (if pos mod fm_ddic fm = 0 then (fm_idic fm)[pos div fm_ddic fm := i] else fm_idic fm)"
  by (simp_all add: dict_update_def Let_def)

lemma length_dict_update: "length (fm_idic (dict_update fm i pos)) = length (fm_idic fm)"
  by (simp add: dict_update_simps)

lemma div_mod_eq: "i mod d = 0 \<Longrightarrow> j mod d = 0 \<Longrightarrow> i div d = j div d \<Longrightarrow> i = (j::nat)"
  by (metis div_mult_mod_eq)

lemma dict_update_from:
  assumes fm: "fm_core fm s sa M" and dic: "dict_from fm s sa (Suc pos)"
    and i: "i < length s" "sa ! i = (pos + 1) mod length s" and pos: "pos < length s"
  shows "dict_from (dict_update fm i pos) s sa pos"
proof -
  let ?n = "length s" and ?d = "fm_ddic fm" and ?g = "\<lambda>i. (sa ! i + length s - 1) mod length s"
  have len: "i div ?d < length (fm_posdic fm)" "pos div ?d < length (fm_idic fm)"
    using dic i pos by (auto simp: dict_from_def less_mult_imp_div_less)
  have g: "?g i = pos" using succ_pred_mod [OF pos] i(2) by simp
  have uniq: "j = i" if "j < ?n" "?g j = pos" for j
  proof -
    have "sa ! j < ?n" by (rule fm_coreD(9) [OF fm that(1)])
    then have "(?g j + 1) mod ?n = sa ! j" by (rule pred_succ_mod)
    then have "sa ! j = sa ! i" using that(2) i(2) by simp
    then show ?thesis using that(1) i(1) fm_coreD(8,11) [OF fm] by (simp add: nth_eq_iff_index_eq)
  qed
  have p: "(fm_posdic (dict_update fm i pos)) ! (j div ?d) = ?g j"
    if "j < ?n" "j mod ?d = 0" "pos \<le> ?g j" for j
  proof (cases "?g j = pos")
    case True
    then have "j = i" using uniq that by simp
    then show ?thesis using that len(1) g by (simp add: dict_update_simps)
  next
    case False
    have "j div ?d \<noteq> i div ?d" if "i mod ?d = 0"
      using div_mod_eq [OF \<open>j mod ?d = 0\<close> that] False g by auto
    then show ?thesis using dic that False by (auto simp: dict_update_simps dict_from_def)
  qed
  have q: "(fm_idic (dict_update fm i pos)) ! (j div ?d) < ?n \<and>
      sa ! ((fm_idic (dict_update fm i pos)) ! (j div ?d)) = (j + 1) mod ?n"
    if "j < ?n" "j mod ?d = 0" "pos \<le> j" for j
  proof (cases "j = pos")
    case True
    then show ?thesis using that len(2) i by (simp add: dict_update_simps)
  next
    case False
    have "j div ?d \<noteq> pos div ?d" if "pos mod ?d = 0"
      using div_mod_eq [OF \<open>j mod ?d = 0\<close> that] False by auto
    then show ?thesis using dic that False by (auto simp: dict_update_simps dict_from_def)
  qed
  have small: "\<forall>x \<in> set (xs[j := y]). x < ?n" if "\<forall>x \<in> set xs. x < ?n" "y < ?n" for xs j and y :: nat
    using that set_update_subset_insert [of xs j y] by auto
  have old: "\<forall>x \<in> set (fm_posdic fm). x < ?n" "\<forall>x \<in> set (fm_idic fm). x < ?n"
    using dic unfolding dict_from_def by blast+
  have "\<forall>x \<in> set (fm_posdic (dict_update fm i pos)). x < ?n" "\<forall>x \<in> set (fm_idic (dict_update fm i pos)). x < ?n"
    unfolding dict_update_simps using old small [OF old(1) pos] small [OF old(2) i(1)] by presburger+
  then show ?thesis
    using dic p q unfolding dict_from_def by (simp add: dict_update_simps)
qed

lemma buildDictionaries_loop_spec:
  assumes "fm_core fm s sa M" "dict_from fm s sa (Suc pos)" "i < length s"
    "sa ! i = (pos + 1) mod length s" "pos < length s"
  shows "\<exists>fm'. buildDictionaries_loop fm (Suc pos) i pos = Inr fm' \<and> fm_core fm' s sa M
    \<and> dict_from fm' s sa 0 \<and> fm_ddic fm' = fm_ddic fm \<and> length (fm_idic fm') = length (fm_idic fm)
    \<and> fm_rlt fm' = fm_rlt fm \<and> fm_ssize fm' = fm_ssize fm \<and> fm_sv fm' = fm_sv fm"
  using assms
proof (induction pos arbitrary: fm i)
  case 0
  let ?fm = "dict_update fm i 0"
  have core: "fm_core ?fm s sa M" using 0(1) by (simp add: dict_update_core)
  have "sa ! lf s sa i = 0" "lf s sa i < length s"
    using lf_step [OF fm_coreD(1,2) [OF 0(1)] 0(3)] succ_pred_mod [OF 0(5)] 0(4) by simp_all
  then have "lf s sa i = fm_head fm"
    using fm_coreD(6,7,8,11) [OF 0(1)] nth_eq_iff_index_eq [of sa "lf s sa i" "fm_head fm"] by simp
  then have "buildDictionaries_loop fm (Suc 0) i 0 = Inr ?fm"
    using walk_step_spec [OF core 0(3)] by (simp add: dict_update_simps)
  then show ?case using core dict_update_from [OF 0] length_dict_update [of fm i 0]
    by (simp add: dict_update_simps(1-5))
next
  case (Suc pos)
  let ?fm = "dict_update fm i (Suc pos)"
  have core: "fm_core ?fm s sa M" using Suc.prems(1) by (simp add: dict_update_core)
  have lf: "sa ! lf s sa i = Suc pos" "lf s sa i < length s"
    using lf_step [OF fm_coreD(1,2) [OF Suc.prems(1)] Suc.prems(3)] succ_pred_mod [OF Suc.prems(5)] Suc.prems(4)
    by simp_all
  then have "lf s sa i \<noteq> fm_head fm" using fm_coreD(7) [OF Suc.prems(1)] by auto
  then have "buildDictionaries_loop fm (Suc (Suc pos)) i (Suc pos) = buildDictionaries_loop ?fm (Suc pos) (lf s sa i) pos"
    using walk_step_spec [OF core Suc.prems(3)] by (simp add: dict_update_simps)
  moreover have "sa ! lf s sa i = (pos + 1) mod length s" using lf(1) Suc.prems(5) by simp
  ultimately show ?case
    using Suc.IH [OF core dict_update_from [OF Suc.prems] lf(2)] Suc.prems(5)
    unfolding length_dict_update by (simp add: dict_update_simps del: buildDictionaries_loop.simps)
qed

lemma build_rlt_spec:
  assumes "wm_repr sv v" and "m \<le> 2 ^ wm_bitsize sv"
  shows "\<exists>rlt'. build_rlt sv m rlt = Inr rlt' \<and> (\<forall>c < m. obj_get rlt' c = Some (count_below v c))
    \<and> (\<forall>c \<ge> m. obj_get rlt' c = obj_get rlt c)"
proof -
  let ?I = "\<lambda>i r. (\<forall>c < i. obj_get r c = Some (count_below v c)) \<and> (\<forall>c \<ge> i. obj_get r c = obj_get rlt c)"
  have "\<exists>acc'. js_fold (\<lambda>rlt c. js_bind (WaveletMatrix_rank_less_than sv (WaveletMatrix_size sv) c)
      (\<lambda>r. Inr (obj_set c r rlt))) rlt [0..<m] = Inr acc' \<and> ?I m acc'"
  proof (rule js_fold_upt_inv)
    fix i acc assume "i < m" and I: "?I i acc"
    then have "WaveletMatrix_rank_less_than sv (WaveletMatrix_size sv) i = Inr (count_below v i)"
      using wm.rank_less_law [OF assms(1), of "length v" i] assms(2) wm_repr_size [OF assms(1)]
      by (simp add: WaveletMatrix_size_def)
    then show "\<exists>acc'. js_bind (WaveletMatrix_rank_less_than sv (WaveletMatrix_size sv) i) (\<lambda>r. Inr (obj_set i r acc)) = Inr acc'
        \<and> ?I (Suc i) acc'"
      using I by (auto simp: obj_get_set less_Suc_eq)
  qed simp
  then show ?thesis by (simp add: build_rlt_def)
qed

lemma js_fold_concat:
  "\<forall>i \<in> set xs. f i = Inr (g i) \<Longrightarrow>
    js_fold (\<lambda>str i. js_bind (f i) (\<lambda>c. Inr (str @ c))) acc xs = Inr (acc @ concat (map g xs))"
  by (induction xs arbitrary: acc) auto

lemma indexOf_spec: "0 \<in> set sa \<Longrightarrow> \<exists>h < length sa. indexOf (map int sa) 0 = int h \<and> sa ! h = 0"
proof (induction sa)
  case (Cons j sa)
  show ?case
  proof (cases "j = 0")
    case False
    then obtain h where "h < length sa" "indexOf (map int sa) 0 = int h" "sa ! h = 0" using Cons by auto
    then show ?thesis using False by (intro exI [of _ "Suc h"]) (simp add: Let_def)
  qed auto
qed simp

lemma BurrowsWheelerTransform_spec:
  assumes sais: "SAIS_make s = Inr (map int sa)" and sa: "is_suffix_array s sa" and s: "s \<noteq> []"
  shows "\<exists>b h. BurrowsWheelerTransform_build BurrowsWheelerTransform_new s = Inr b
    \<and> BurrowsWheelerTransform_get b = Inr (bwt_of s sa) \<and> bwt_head b = int h \<and> h < length s \<and> sa ! h = 0"
proof -
  let ?n = "length s"
  have len: "length sa = ?n" using sa by (simp add: is_suffix_array_def)
  have "0 \<in> set sa" using s by (simp add: suffix_array_set [OF sa])
  then obtain h where h: "h < ?n" "indexOf (map int sa) 0 = int h" "sa ! h = 0"
    using indexOf_spec [of sa] len by auto
  define b where "b = BurrowsWheelerTransform_new\<lparr>bwt_str := s, bwt_size := ?n,
      bwt_suffixarray := map int sa, bwt_head := int h\<rparr>"
  have build: "BurrowsWheelerTransform_build BurrowsWheelerTransform_new s = Inr b"
    by (simp add: BurrowsWheelerTransform_build_def sais b_def h(2))
  have get: "BurrowsWheelerTransform_getI b i = Inr [s ! ((sa ! i + ?n - 1) mod ?n)]" if "i < ?n" for i
  proof -
    have "nat (int (sa ! i) + int ?n - 1) = sa ! i + ?n - 1" using that by linarith
    moreover have "(sa ! i + ?n - 1) mod ?n < ?n" using that by (intro mod_less_divisor) linarith
    ultimately show ?thesis
      using that len by (simp add: BurrowsWheelerTransform_getI_def b_def Let_def)
  qed
  have "map (\<lambda>i. [s ! ((sa ! i + ?n - 1) mod ?n)]) [0..<?n] = map (\<lambda>j. [s ! ((j + ?n - 1) mod ?n)]) sa"
    using len by (intro nth_equalityI) simp_all
  then have "concat (map (\<lambda>i. [s ! ((sa ! i + ?n - 1) mod ?n)]) [0..<?n]) = bwt_of s sa"
    by (simp add: bwt_of_def concat_map_singleton)
  then have "BurrowsWheelerTransform_get b = Inr (bwt_of s sa)"
    using js_fold_concat [of "[0..<?n]" "BurrowsWheelerTransform_getI b"
        "\<lambda>i. [s ! ((sa ! i + ?n - 1) mod ?n)]" "[]"] get
    by (simp add: BurrowsWheelerTransform_get_def b_def)
  then show ?thesis using build h by (auto simp: b_def)
qed

theorem FMIndex_build_spec:
  assumes fresh: "fm_sv fm = WaveletMatrix_new" "fm_posdic fm = []" "fm_idic fm = []"
    and s: "s = fm_substr fm @ [e]" "marked s" "\<forall>x \<in> set s. x < M" and M: "2 \<le> M" and d: "0 < d"
    and sais: "SAIS_make s = Inr (map int sa)" "is_suffix_array s sa"
  shows "\<exists>fm'. FMIndex_build fm [e] M d = Inr fm' \<and> fm_core fm' s sa M
    \<and> dict_from fm' s sa 0 \<and> fm_ddic fm' = d \<and> length (fm_idic fm') = (length s + d - 1) div d + 1
    \<and> (\<forall>c \<ge> M. obj_get (fm_rlt fm') c = obj_get (fm_rlt fm) c) \<and> fm_ssize fm' = length s
    \<and> wm_bitsize (fm_sv fm') = ceil_log2 M"
proof -
  let ?n = "length s"
  have ne: "s \<noteq> []" using s(1) by simp
  obtain b h where b: "BurrowsWheelerTransform_build BurrowsWheelerTransform_new s = Inr b"
    "BurrowsWheelerTransform_get b = Inr (bwt_of s sa)" "bwt_head b = int h" "h < ?n" "sa ! h = 0"
    using BurrowsWheelerTransform_spec [OF sais ne] by blast
  have "\<forall>x \<in> set (bwt_of s sa). x < M" using set_bwt_of [OF sais(2)] s(3) by auto
  then obtain sv where sv: "WaveletMatrix_build (WaveletMatrix_setMaxCharCode WaveletMatrix_new M) (bwt_of s sa) = Inr sv"
    "wm_repr sv (bwt_of s sa)" "wm_bitsize sv = ceil_log2 M"
    using fresh_matrix [OF M] by metis
  obtain rlt where rlt: "build_rlt sv M (fm_rlt fm) = Inr rlt" "\<forall>c < M. obj_get rlt c = Some (count_below s c)"
      "\<forall>c \<ge> M. obj_get rlt c = obj_get (fm_rlt fm) c"
    using build_rlt_spec [OF sv(2), of M "fm_rlt fm"] ceil_log2_upper [of M] sv(3) below_bwt_of [OF sais(2)] by auto
  have len: "length (bwt_of s sa) = ?n" using sais(2) by (simp add: is_suffix_array_def)
  have no: "\<not> ?n \<le> x mod ?n" for x using ne by (simp add: not_le)
  define k where "k = (?n + d - 1) div d + 1"
  define fm1 where "fm1 = fm\<lparr>fm_ssize := ?n, fm_head := h, fm_substr := [], fm_sv := sv, fm_rlt := rlt, fm_ddic := d,
      fm_posdic := replicate k 0, fm_idic := replicate k 0\<rparr>"
  have core: "fm_core fm1 s sa M"
    using sais(2) s(2,3) sv(2) rlt(2) b(4,5) by (simp add: fm_core_def fm1_def)
  have "FMIndex_build fm [e] M d = buildDictionaries_loop fm1 ?n h (?n - 1)"
    using b sv(1) rlt(1) d fresh fm_core_size [OF core] len s(1)
    by (simp add: FMIndex_build_def FMIndex_buildDictionaries_def fm1_def Let_def k_def
        FMIndex_size_def)
  moreover have "?n \<le> k * d"
  proof -
    have "?n + d - 1 = (?n + d - 1) div d * d + (?n + d - 1) mod d" by simp
    moreover have "(?n + d - 1) mod d < d" using d by simp
    ultimately have "?n \<le> (?n + d - 1) div d * d + d" by linarith
    then show ?thesis by (simp add: k_def algebra_simps)
  qed
  then have "dict_from fm1 s sa ?n"
    using d no ne by (auto simp: dict_from_def fm1_def)
  moreover have "Suc (?n - 1) = ?n" using ne by simp
  ultimately show ?thesis
    using buildDictionaries_loop_spec [OF core, of "?n - 1" h] b(4,5) ne rlt(3) sv(3) by (auto simp: fm1_def k_def)
qed

subsection \<open>An index made by the public operations\<close>

text \<open>An index of the pushed documents, built with the marker \<^verbatim>\<open>e\<close>.\<close>

definition indexed :: "jsstring list \<Rightarrow> nat \<Rightarrow> nat \<Rightarrow> nat \<Rightarrow> FMIndex js" where
  "indexed docs e M d = js_bind (js_fold FMIndex_push FMIndex_new docs) (\<lambda>fm. FMIndex_build fm [e] M d)"

text \<open>
  The inputs the index is meant for: a nonempty text of codes between the marker and the maximal
  code.
\<close>

definition index_input :: "jsstring list \<Rightarrow> nat \<Rightarrow> nat \<Rightarrow> nat \<Rightarrow> bool" where
  "index_input docs e M d \<longleftrightarrow> docs \<noteq> [] \<and> [] \<notin> set docs \<and> (\<forall>x \<in> set (concat docs). e < x \<and> x < M) \<and> 0 < d"

lemma push_all:
  "[] \<notin> set docs \<Longrightarrow> js_fold FMIndex_push fm docs = Inr (fm\<lparr>fm_substr := fm_substr fm @ concat docs\<rparr>)"
  by (induction docs arbitrary: fm) (auto simp: FMIndex_push_def)

lemma indexed_spec:
  assumes "index_input docs e M d"
  obtains fm sa where "indexed docs e M d = Inr fm" and "fm_core fm (concat docs @ [e]) sa M"
    and "fm_posdic_ok fm (concat docs @ [e]) sa" and "fm_idic_ok fm (concat docs @ [e]) sa" and "fm_ddic fm = d"
    and "dict_from fm (concat docs @ [e]) sa 0" and "length (fm_idic fm) = (length (concat docs @ [e]) + d - 1) div d + 1"
    and "\<And>c. M \<le> c \<Longrightarrow> obj_get (fm_rlt fm) c = None" and "fm_ssize fm = length (concat docs @ [e])"
    and "wm_bitsize (fm_sv fm) = ceil_log2 M"
proof -
  let ?s = "concat docs @ [e]" and ?fm = "FMIndex_new\<lparr>fm_substr := concat docs\<rparr>"
  have in_range: "\<forall>x \<in> set (concat docs). e < x \<and> x < M"
    using assms unfolding index_input_def by blast
  have ne: "concat docs \<noteq> []" using assms by (cases docs) (auto simp: index_input_def)
  then have "hd (concat docs) \<in> set (concat docs)" by (intro hd_in_set)
  then have "e < hd (concat docs)" "hd (concat docs) < M" using in_range by blast+
  then have M: "2 \<le> M" "e < M" by linarith+
  have s: "marked ?s" using in_range by (simp add: marked_def butlast_append)
  moreover have "2 \<le> length ?s" using ne by (cases "concat docs") simp_all
  ultimately obtain sa where "SAIS_make ?s = Inr (map int sa)" "is_suffix_array ?s sa"
    using SAIS_make_suffix_array by blast
  moreover note s
  moreover have "\<forall>x \<in> set ?s. x < M" using in_range M by auto
  moreover have "js_fold FMIndex_push FMIndex_new docs = Inr ?fm"
    using assms push_all [of docs FMIndex_new] by (simp add: index_input_def FMIndex_new_def)
  moreover have "0 < d" using assms by (simp add: index_input_def)
  moreover have "fm_sv ?fm = WaveletMatrix_new" "fm_posdic ?fm = []" "fm_idic ?fm = []" "fm_substr ?fm = concat docs"
    "fm_rlt ?fm = []"
    by (simp_all add: FMIndex_new_def)
  ultimately show thesis
    using FMIndex_build_spec [of ?fm ?s e M d sa] M dict_from_0 that by (auto simp: indexed_def)
qed

lemma occurrence_in_text:
  assumes "key \<noteq> []" "e \<notin> set key" "p < length (t @ [e])"
  shows "starts_with key (drop p (t @ [e])) \<longleftrightarrow> p + length key \<le> length t \<and> take (length key) (drop p t) = key"
proof
  assume st: "starts_with key (drop p (t @ [e]))"
  then have "length key \<le> length t + 1 - p"
    unfolding starts_with_def by (metis add.commute length_append length_drop length_take list.size(3) min.cobounded1 min.commute One_nat_def length_Cons plus_1_eq_Suc)
  moreover have "length key \<noteq> length t + 1 - p"
  proof
    assume len: "length key = length t + 1 - p"
    then have "key = drop p t @ [e]" using st assms(3) by (simp add: starts_with_def)
    then show False using assms(2) by simp
  qed
  ultimately have le: "p + length key \<le> length t" using assms(3) by simp
  then show "p + length key \<le> length t \<and> take (length key) (drop p t) = key"
    using st by (simp add: starts_with_def)
qed (simp add: starts_with_def)

lemma occurrences_set:
  assumes sa: "is_suffix_array (t @ [e]) sa" and key: "key \<noteq> []" "e \<notin> set key"
  shows "set [j \<leftarrow> sa. starts_with key (drop j (t @ [e]))]
    = {p. p + length key \<le> length t \<and> take (length key) (drop p t) = key}"
proof -
  have "p < length (t @ [e]) \<and> starts_with key (drop p (t @ [e])) \<longleftrightarrow>
      p + length key \<le> length t \<and> take (length key) (drop p t) = key" for p
    using occurrence_in_text [OF key, of p t] by auto
  then show ?thesis using suffix_array_set [OF sa] by auto
qed

text \<open>
  C18.  Searching a built index for a keyword whose characters lie between the marker and the
  maximal character returns exactly the positions at which the keyword occurs in the pushed
  text, each once: backward search finds the rows, every walk to a sample ends, and its result is
  the position.  (The last character must lie two below the bound; see below.)
\<close>

theorem FMIndex_search_correct:
  assumes "index_input docs e M d"
    and "key \<noteq> []" and "\<forall>c \<in> set key. e < c \<and> c < M" and "last key + 1 < M"
  shows "\<exists>ps. js_bind (indexed docs e M d) (\<lambda>fm. FMIndex_search fm key) = Inr ps \<and> distinct ps \<and>
    set ps = {p. p + length key \<le> length (concat docs) \<and> take (length key) (drop p (concat docs)) = key}"
proof -
  let ?t = "concat docs" and ?s = "concat docs @ [e]"
  obtain fm sa where fm: "indexed docs e M d = Inr fm" "fm_core fm ?s sa M" "fm_posdic_ok fm ?s sa"
    using indexed_spec [OF assms(1)] by metis
  have "keyword_ok ?s M key" using assms(2-4) by (auto simp: keyword_ok_def)
  then have search: "FMIndex_search fm key = Inr [j \<leftarrow> sa. starts_with key (drop j ?s)]"
    by (rule FMIndex_search_spec [OF fm(2,3)])
  have e: "e \<notin> set key" using assms(3) by auto
  note occurrences_set [OF fm_coreD(1) [OF fm(2)] assms(2) e]
  then show ?thesis using fm(1) search fm_coreD(11) [OF fm(2)] by auto
qed

lemma index_input_example: "index_input [[1, 2], [1, 2]] 0 4 2"
  unfolding index_input_def by simp

lemma occurrences_example:
  "{p. p + length [1, 2] \<le> length (concat [[1, 2], [1, 2 :: nat]])
    \<and> take (length [1, 2]) (drop p (concat [[1, 2], [1, 2]])) = [1, 2 :: nat]} = {0, 2}"
  by (auto simp: le_Suc_eq numeral_2_eq_2)

theorem FMIndex_search_correct_witness:
  "\<exists>ps. js_bind (indexed [[1, 2], [1, 2]] 0 4 2) (\<lambda>fm. FMIndex_search fm [1, 2]) = Inr ps \<and> distinct ps \<and>
    set ps = {0, 2}"
  using FMIndex_search_correct [OF index_input_example, of "[1, 2]"] unfolding occurrences_example by simp

text \<open>
  \<^verbatim>\<open>getRows\<close> on such an index returns the number of occurrences of the keyword.
\<close>

theorem FMIndex_getRows_counts:
  assumes "index_input docs e M d"
    and "key \<noteq> []" and "\<forall>c \<in> set key. e < c \<and> c < M" and "last key + 1 < M"
  shows "\<exists>pos. js_bind (indexed docs e M d) (\<lambda>fm. FMIndex_getRows fm key)
    = Inr (card {p. p + length key \<le> length (concat docs) \<and> take (length key) (drop p (concat docs)) = key}, pos)"
proof -
  let ?t = "concat docs" and ?s = "concat docs @ [e]"
  obtain fm sa where fm: "indexed docs e M d = Inr fm" "fm_core fm ?s sa M"
    using indexed_spec [OF assms(1)] by metis
  note sa = fm_coreD(1) [OF fm(2)]
  have key: "keyword_ok ?s M key" using assms(2-4) by (auto simp: keyword_ok_def)
  have e: "e \<notin> set key" using assms(3) by auto
  note set_eq = occurrences_set [OF sa assms(2) e]
  have "card (set [j \<leftarrow> sa. starts_with key (drop j ?s)]) = length [j \<leftarrow> sa. starts_with key (drop j ?s)]"
    using fm_coreD(11) [OF fm(2)] by (intro distinct_card) simp
  also have "\<dots> = upper ?s sa key - lower ?s sa key"
    using rows_of_key [OF sa, of key, symmetric] lower_upper_le(2) [OF sa, of key] fm_coreD(8) [OF fm(2)]
    by simp
  finally show ?thesis
    using FMIndex_getRows_spec [OF fm(2) key] fm(1) unfolding set_eq [symmetric] by auto
qed

theorem FMIndex_getRows_counts_witness:
  "\<exists>pos. js_bind (indexed [[1, 2], [1, 2]] 0 4 2) (\<lambda>fm. FMIndex_getRows fm [1, 2]) = Inr (2, pos)"
  using FMIndex_getRows_counts [OF index_input_example, of "[1, 2]"] unfolding occurrences_example
  by (simp add: numeral_2_eq_2)

text \<open>
  \<^verbatim>\<open>getSubstring(pos, len)\<close> recovers the text from the index, whenever the sample it starts
  from lies within the text: the last position wanted is in a block of \<^verbatim>\<open>ddic\<close> positions that the
  text fills.
\<close>

theorem FMIndex_getSubstring_correct:
  assumes "index_input docs e M d" and "0 < len" and "pos + len \<le> length (concat docs) + 1"
    and "(pos + len + d - 2) div d * d \<le> length (concat docs)"
  shows "js_bind (indexed docs e M d) (\<lambda>fm. FMIndex_getSubstring fm pos len) = Inr (take len (drop pos (concat docs @ [e])))"
proof -
  let ?s = "concat docs @ [e]"
  obtain fm sa where fm: "indexed docs e M d = Inr fm" "fm_core fm ?s sa M" "fm_idic_ok fm ?s sa" "fm_ddic fm = d"
    using indexed_spec [OF assms(1)] by metis
  have d: "0 < d" using assms(1) by (simp add: index_input_def)
  have "int (pos + len) + int d - 2 = int (pos + len + d - 2)" using assms(2) d by linarith
  then have "sample d (pos + len) = (pos + len + d - 2) div d"
    by (simp only: sample_def zdiv_int [symmetric] nat_int)
  moreover have "min (pos + len) (length ?s) = pos + len" using assms(3) by simp
  ultimately have "sample d (min (pos + len) (length ?s)) * d < length ?s" using assms(4) by simp
  moreover have "pos < length ?s" using assms(2,3) by simp
  ultimately show ?thesis
    using FMIndex_getSubstring_spec [OF fm(2,3), of pos len] fm(1,4) d assms(2) by simp
qed

theorem FMIndex_getSubstring_correct_witness:
  "js_bind (indexed [[1, 2], [1, 2]] 0 4 2) (\<lambda>fm. FMIndex_getSubstring fm 1 2) = Inr [2, 1]"
  using FMIndex_getSubstring_correct [OF index_input_example, of 2 1] by simp

text \<open>
  Outside that region the code reads a dictionary slot that was never filled, because
  \<^verbatim>\<open>_buildDictionaries\<close> pushes one entry more than there are sampled positions (the bound
  \<^verbatim>\<open>ssize / ddic + 1\<close> is a fraction): for the text of two characters and a sampling distance of
  three the first two characters come back as the second one and the marker.
\<close>

theorem FMIndex_getSubstring_tail:
  "js_bind (indexed [[1, 2]] 0 4 3) (\<lambda>fm. FMIndex_getSubstring fm 0 2) = Inr [2, 0]"
  by code_simp

text \<open>
  C34.  A keyword that ends in the largest character admitted by \<^verbatim>\<open>build\<close> is never found, however
  often it occurs: the counts are cached below \<^verbatim>\<open>maxChar\<close> only, and \<^verbatim>\<open>getRows\<close> starts from the
  count of the next character.
\<close>

theorem FMIndex_search_largest_character:
  assumes "index_input docs e M d" and "last key + 1 = M"
  shows "js_bind (indexed docs e M d) (\<lambda>fm. FMIndex_search fm key) = Inr []"
proof -
  obtain fm where fm: "indexed docs e M d = Inr fm" "obj_get (fm_rlt fm) M = None"
    using indexed_spec [OF assms(1)] by (metis order_refl)
  have "FMIndex_getRows fm key = Inr (0, None)"
  proof (cases "rev key")
    case (Cons c cs)
    then have "c = last key" by (metis hd_rev list.sel(1))
    then have "obj_get (fm_rlt fm) (c + 1) = None" using fm(2) assms(2) by simp
    then show ?thesis
      using Cons by (cases "obj_get (fm_rlt fm) c") (simp_all add: FMIndex_getRows_def)
  qed (simp add: FMIndex_getRows_def)
  then show ?thesis using fm(1) by (simp add: FMIndex_search_def)
qed

lemma index_input_example_tight: "index_input [[1, 2], [1, 2]] 0 3 2"
  unfolding index_input_def by simp

theorem FMIndex_search_largest_character_witness:
  "js_bind (indexed [[1, 2], [1, 2]] 0 3 2) (\<lambda>fm. FMIndex_search fm [1, 2]) = Inr []"
  using FMIndex_search_largest_character [OF index_input_example_tight, of "[1, 2]"] by simp

text \<open>
  C19.  The walk of \<^verbatim>\<open>getPosition\<close> ends from every row of a built index, and the positions it finds are
  those of the sorted suffixes in order, so every position of the text is found from exactly one row.
\<close>

theorem FMIndex_getPosition_ends:
  assumes "index_input docs e M d"
  shows "\<exists>fm. indexed docs e M d = Inr fm \<and>
    map (FMIndex_getPosition fm) [0..<FMIndex_size fm] = map Inr (suffix_sort (concat docs @ [e]))"
proof -
  let ?s = "concat docs @ [e]"
  obtain fm sa where fm: "indexed docs e M d = Inr fm" "fm_core fm ?s sa M" "fm_posdic_ok fm ?s sa"
    using indexed_spec [OF assms] by metis
  have "length sa = length ?s" by (rule fm_coreD(8) [OF fm(2)])
  then have "map (FMIndex_getPosition fm) [0..<FMIndex_size fm] = map (\<lambda>i. Inr (sa ! i)) [0..<length sa]"
    using FMIndex_getPosition_spec [OF fm(2,3)] by (intro map_cong) (auto simp: fm_core_size [OF fm(2)])
  also have "\<dots> = map Inr sa" by (rule nth_equalityI) simp_all
  finally show ?thesis using fm(1) suffix_array_unique [OF fm_coreD(1) [OF fm(2)]] by simp
qed

theorem FMIndex_getPosition_ends_witness:
  "\<exists>fm. indexed [[1, 2], [1, 2]] 0 4 2 = Inr fm \<and>
    map (FMIndex_getPosition fm) [0..<FMIndex_size fm] = map Inr [4, 2, 0, 3, 1]"
proof -
  have "suffix_sort (concat [[1, 2], [1, 2]] @ [0]) = [4, 2, 0, 3, 1]" by code_simp
  then show ?thesis using FMIndex_getPosition_ends [OF index_input_example] by simp
qed

end
