(* ===== verification/Binary_Util.thy ===== *)
theory Binary_Util
  imports JS_Prelude
begin

text \<open>
  The class \<^verbatim>\<open>Binary\<close> with its loaders and the compression report: numbers, strings, string lists,
  string-list maps and number lists as strings of 16-bit character codes, and base64 over them.

  A string is the list of its character codes.  Reading a character code past the end gives
  \<^verbatim>\<open>NaN\<close>, which leaves the domain of the model except where the source masks it.  Numbers are
  integers: the words of a bit vector are signed in JavaScript, and \<^verbatim>\<open>String.fromCharCode\<close> reduces
  modulo 65536.  An object with string keys is the association list in the order in which
  \<^verbatim>\<open>for (key in obj)\<close> visits it.

  Every dumper and its loader form a \<^verbatim>\<open>codec\<close>: loading at the offset where a dump starts returns the
  value and the offset behind it, whatever precedes and follows.  The contract composes: it holds
  of a sequence if it holds of the elements.
\<close>

section \<open>Binary format\<close>

record CompressionReport =
  cr_source :: nat
  cr_result :: nat

definition CompressionReport_new :: CompressionReport where
  "CompressionReport_new = \<lparr>cr_source = 0, cr_result = 0\<rparr>"

definition CompressionReport_add :: "CompressionReport \<Rightarrow> nat \<Rightarrow> nat \<Rightarrow> CompressionReport" where
  "CompressionReport_add r source result =
    r\<lparr>cr_source := cr_source r + source, cr_result := cr_result r + result\<rparr>"

definition report_add :: "CompressionReport option \<Rightarrow> nat \<Rightarrow> nat \<Rightarrow> CompressionReport option" where
  "report_add report source result = (case report of
     None \<Rightarrow> None | Some r \<Rightarrow> Some (CompressionReport_add r source result))"

text \<open>\<^verbatim>\<open>Math.round\<close> rounds halves up; an empty report divides by zero.\<close>

definition CompressionReport_rate :: "CompressionReport \<Rightarrow> nat" where
  "CompressionReport_rate r =
    (if cr_source r = 0 then 0 else (2 * cr_result r * 100 + cr_source r) div (2 * cr_source r))"

subsection \<open>Numbers\<close>

definition Binary_dump32bitNumber :: "int \<Rightarrow> jsstring" where
  "Binary_dump32bitNumber num = [nat ((num div 65536) mod 65536), nat (num mod 65536)]"

definition Binary_load32bitNumber :: "jsstring \<Rightarrow> nat \<Rightarrow> nat js" where
  "Binary_load32bitNumber buffer offset =
    js_bind (js_at buffer offset) (\<lambda>h. js_bind (js_at buffer (offset + 1)) (\<lambda>l. Inr (h * 65536 + l)))"

definition Binary_dump16bitNumber :: "nat \<Rightarrow> jsstring" where
  "Binary_dump16bitNumber num = [num mod 65536]"

definition Binary_load16bitNumber :: "jsstring \<Rightarrow> nat \<Rightarrow> nat" where
  "Binary_load16bitNumber buffer offset = js_at0 buffer offset"

subsection \<open>Strings\<close>

fun pack_bytes :: "nat list \<Rightarrow> jsstring" where
  "pack_bytes [] = []"
| "pack_bytes [a] = [a mod 65536]"
| "pack_bytes (a # b # cs) = (a + push_bit 8 b) mod 65536 # pack_bytes cs"

definition Binary_dumpString :: "jsstring \<Rightarrow> CompressionReport option \<Rightarrow> jsstring \<times> CompressionReport option" where
  "Binary_dumpString str report =
    (let str = (if 32768 < length str then take 32768 str else str);
         length' = length str
     in if list_all (\<lambda>c. \<not> 255 < c) str
        then (Binary_dump16bitNumber (length' + 32768) @ pack_bytes str,
              report_add report length' ((length' + 1) div 2))
        else (Binary_dump16bitNumber length' @ str, report_add report length' length'))"

fun unpack_bytes :: "jsstring \<Rightarrow> nat \<Rightarrow> nat \<Rightarrow> (jsstring \<times> nat) js" where
  "unpack_bytes data offset 0 = Inr ([], offset)"
| "unpack_bytes data offset (Suc 0) =
    js_bind (js_at data offset) (\<lambda>code. Inr ([code AND 0x00ff], offset + 1))"
| "unpack_bytes data offset (Suc (Suc n)) =
    js_bind (js_at data offset) (\<lambda>code.
    js_bind (unpack_bytes data (offset + 1) n) (\<lambda>(cs, offset).
      Inr ((code AND 0x00ff) # drop_bit 8 code # cs, offset)))"

definition Binary_loadString :: "jsstring \<Rightarrow> nat \<Rightarrow> (jsstring \<times> nat) js" where
  "Binary_loadString data offset =
    js_bind (js_at data offset) (\<lambda>strLength.
      let offset = offset + 1 in
      if 32767 < strLength then unpack_bytes data offset (strLength - 32768)
      else Inr (take strLength (drop offset data), offset + strLength))"

text \<open>\<^verbatim>\<open>n\<close> values in a row.\<close>

fun load_seq :: "(jsstring \<Rightarrow> nat \<Rightarrow> ('a \<times> nat) js) \<Rightarrow> jsstring \<Rightarrow> nat \<Rightarrow> nat \<Rightarrow> ('a list \<times> nat) js" where
  "load_seq load data offset 0 = Inr ([], offset)"
| "load_seq load data offset (Suc n) =
    js_bind (load data offset) (\<lambda>(x, offset).
    js_bind (load_seq load data offset n) (\<lambda>(xs, offset). Inr (x # xs, offset)))"

fun dump_seq :: "('a \<Rightarrow> CompressionReport option \<Rightarrow> jsstring \<times> CompressionReport option) \<Rightarrow> 'a list
    \<Rightarrow> CompressionReport option \<Rightarrow> jsstring \<times> CompressionReport option" where
  "dump_seq dump [] report = ([], report)"
| "dump_seq dump (x # xs) report =
    (let (d, report) = dump x report; (ds, report) = dump_seq dump xs report in (d @ ds, report))"

definition Binary_dumpStringList :: "jsstring list \<Rightarrow> CompressionReport option \<Rightarrow> jsstring \<times> CompressionReport option" where
  "Binary_dumpStringList strList report =
    (let (ds, report) = dump_seq Binary_dumpString strList report
     in (Binary_dump32bitNumber (int (length strList)) @ ds, report))"

definition Binary_loadStringList :: "jsstring \<Rightarrow> nat \<Rightarrow> (jsstring list \<times> nat) js" where
  "Binary_loadStringList data offset =
    js_bind (Binary_load32bitNumber data offset) (\<lambda>n. load_seq Binary_loadString data (offset + 2) n)"

type_synonym strmap = "(jsstring \<times> jsstring list) list"

text \<open>
  Objects with strings as keys, in the order of insertion.  An engine lists keys that are decimal numbers
  first; the order only decides in which order the entries are written to a file, and reading them
  back gives the same object.
\<close>

fun str_set :: "jsstring \<Rightarrow> 'a \<Rightarrow> (jsstring \<times> 'a) list \<Rightarrow> (jsstring \<times> 'a) list" where
  "str_set k v [] = [(k, v)]"
| "str_set k v ((k', v') # m) = (if k = k' then (k, v) # m else (k', v') # str_set k v m)"

definition dump_entry :: "jsstring \<times> jsstring list \<Rightarrow> CompressionReport option \<Rightarrow> jsstring \<times> CompressionReport option" where
  "dump_entry kv report =
    (let (d1, report) = Binary_dumpString (fst kv) report;
         (d2, report) = Binary_dumpStringList (snd kv) report
     in (d1 @ d2, report))"

definition Binary_dumpStringListMap :: "strmap \<Rightarrow> CompressionReport option \<Rightarrow> jsstring \<times> CompressionReport option" where
  "Binary_dumpStringListMap strMap report =
    (let (ds, report) = dump_seq dump_entry strMap report
     in (Binary_dump32bitNumber (int (length strMap)) @ ds, report))"

definition load_entry :: "jsstring \<Rightarrow> nat \<Rightarrow> ((jsstring \<times> jsstring list) \<times> nat) js" where
  "load_entry data offset =
    js_bind (Binary_loadString data offset) (\<lambda>(k, offset).
    js_bind (Binary_loadStringList data offset) (\<lambda>(v, offset). Inr ((k, v), offset)))"

definition Binary_loadStringListMap :: "jsstring \<Rightarrow> nat \<Rightarrow> (strmap \<times> nat) js" where
  "Binary_loadStringListMap data offset =
    js_bind (Binary_load32bitNumber data offset) (\<lambda>n.
    js_bind (load_seq load_entry data (offset + 2) n) (\<lambda>(kvs, offset).
      Inr (foldl (\<lambda>m kv. str_set (fst kv) (snd kv) m) [] kvs, offset)))"

subsection \<open>Number lists\<close>

text \<open>The scans start at an offset of the array; the model hands them the rest of the array.\<close>

fun Binary_countZero :: "int list \<Rightarrow> nat" where
  "Binary_countZero [] = 0"
| "Binary_countZero (x # xs) = (if x \<noteq> 0 then 0 else Suc (Binary_countZero xs))"

function Binary_zeroBlock :: "nat \<Rightarrow> jsstring" where
  "Binary_zeroBlock length' =
    (if 0 < length'
     then if 16384 < length' then Binary_dump16bitNumber 16383 @ Binary_zeroBlock (length' - 16384)
       else Binary_dump16bitNumber (length' - 1)
     else [])"
  by pat_completeness auto
termination by (relation "measure id") auto

declare Binary_zeroBlock.simps [simp del]

fun zebra_changes :: "bool \<Rightarrow> nat \<Rightarrow> int list \<Rightarrow> nat" where
  "zebra_changes isLastZero change [] = change"
| "zebra_changes isLastZero change (x # xs) =
    (if x = 0
     then if \<not> isLastZero then zebra_changes True (change + 1) xs else zebra_changes isLastZero change xs
     else if isLastZero then zebra_changes False (change + 1) xs else zebra_changes isLastZero change xs)"

definition Binary_shouldZebraCode :: "int list \<Rightarrow> bool" where
  "Binary_shouldZebraCode xs = (if length xs < 16 then True else 2 < zebra_changes False 0 (take 15 xs))"

fun search_double :: "bool \<Rightarrow> nat \<Rightarrow> int list \<Rightarrow> nat" where
  "search_double isLastZero i [] = i"
| "search_double isLastZero i (x # xs) =
    (if x = 0 then if isLastZero then i - 1 else search_double True (i + 1) xs
     else search_double False (i + 1) xs)"

definition Binary_searchDoubleZero :: "int list \<Rightarrow> nat" where
  "Binary_searchDoubleZero xs = search_double False 0 xs"

function Binary_nonZeroBlock :: "int list \<Rightarrow> nat \<Rightarrow> jsstring" where
  "Binary_nonZeroBlock xs length' =
    (if 0 < length'
     then (let blockLength = (if 16384 < length' then 16384 else length')
           in Binary_dump16bitNumber (blockLength - 1 + 0x4000)
              @ concat (map Binary_dump32bitNumber (take blockLength xs))
              @ Binary_nonZeroBlock (drop blockLength xs) (length' - blockLength))
     else [])"
  by pat_completeness auto
termination by (relation "measure snd") (auto simp: Let_def)

declare Binary_nonZeroBlock.simps [simp del]

fun zebra_code :: "nat \<Rightarrow> int list \<Rightarrow> nat \<times> jsstring" where
  "zebra_code i [] = (0, [])"
| "zebra_code i (x # xs) =
    (let (code, ds) = zebra_code (i + 1) xs
     in if x \<noteq> 0 then (push_bit i 1 + code, Binary_dump32bitNumber x @ ds) else (code, ds))"

definition Binary_createZebraCode :: "int list \<Rightarrow> jsstring" where
  "Binary_createZebraCode xs =
    (let (code, ds) = zebra_code 0 (take 15 xs) in (0x8000 + code) mod 65536 # ds)"

lemma countZero_pos: "xs \<noteq> [] \<Longrightarrow> hd xs = 0 \<Longrightarrow> 0 < Binary_countZero xs"
  by (cases xs) auto

function dump_blocks :: "int list \<Rightarrow> jsstring js" where
  "dump_blocks [] = Inr []"
| "dump_blocks (x # xs) =
    (if x = 0
     then (let n = Binary_countZero (x # xs) in
           js_bind (dump_blocks (drop n (x # xs))) (\<lambda>ds. Inr (Binary_zeroBlock n @ ds)))
     else if Binary_shouldZebraCode (x # xs)
     then js_bind (dump_blocks (drop 15 (x # xs))) (\<lambda>ds. Inr (Binary_createZebraCode (x # xs) @ ds))
     else (let n = Binary_searchDoubleZero (x # xs) in
           if n = 0 then Inl (Throw '''')
           else js_bind (dump_blocks (drop n (x # xs))) (\<lambda>ds. Inr (Binary_nonZeroBlock (x # xs) n @ ds))))"
  by pat_completeness auto
termination by (relation "measure length") (auto simp: Let_def countZero_pos)

declare dump_blocks.simps(2) [simp del]

definition Binary_dump32bitNumberList :: "int list \<Rightarrow> CompressionReport option \<Rightarrow> (jsstring \<times> CompressionReport option) js" where
  "Binary_dump32bitNumberList array report =
    js_bind (dump_blocks array) (\<lambda>ds.
      let resultString = Binary_dump32bitNumber (int (length array)) @ ds
      in Inr (resultString, report_add report (length array * 2 + 2) (length resultString)))"

fun load_zebra :: "jsstring \<Rightarrow> nat \<Rightarrow> nat \<Rightarrow> nat \<Rightarrow> nat \<Rightarrow> (nat list \<times> nat) js" where
  "load_zebra data offset tag i 0 = Inr ([], offset)"
| "load_zebra data offset tag i (Suc n) =
    (if drop_bit i tag AND 1 \<noteq> 0
     then js_bind (Binary_load32bitNumber data offset) (\<lambda>x.
          js_bind (load_zebra data (offset + 2) tag (i + 1) n) (\<lambda>(xs, offset). Inr (x # xs, offset)))
     else js_bind (load_zebra data offset tag (i + 1) n) (\<lambda>(xs, offset). Inr (0 # xs, offset)))"

fun load_numbers :: "jsstring \<Rightarrow> nat \<Rightarrow> nat \<Rightarrow> (nat list \<times> nat) js" where
  "load_numbers data offset 0 = Inr ([], offset)"
| "load_numbers data offset (Suc n) =
    js_bind (Binary_load32bitNumber data offset) (\<lambda>x.
    js_bind (load_numbers data (offset + 2) n) (\<lambda>(xs, offset). Inr (x # xs, offset)))"

definition load_block :: "jsstring \<Rightarrow> nat \<Rightarrow> nat \<Rightarrow> (nat list \<times> nat) js" where
  "load_block data offset remaining =
    js_bind (js_at data offset) (\<lambda>tag.
      if drop_bit 15 tag = 1 then load_zebra data (offset + 1) tag 0 (min remaining 15)
      else if drop_bit 14 tag = 1 then load_numbers data (offset + 1) (tag - 0x4000 + 1)
      else Inr (replicate (tag + 1) 0, offset + 1))"

lemma load_zebra_length: "load_zebra data offset tag i n = Inr (xs, o') \<Longrightarrow> length xs = n"
  by (induction n arbitrary: offset i xs o') (auto simp: js_bind_eq_Inr split: if_splits)

lemma load_numbers_length: "load_numbers data offset n = Inr (xs, o') \<Longrightarrow> length xs = n"
  by (induction n arbitrary: offset xs o') (auto simp: js_bind_eq_Inr)

lemma load_block_progress: "load_block data offset remaining = Inr (xs, o') \<Longrightarrow> 0 < remaining \<Longrightarrow> 0 < length xs"
  by (auto simp: load_block_def js_bind_eq_Inr dest: load_zebra_length load_numbers_length split: if_splits)

function load_blocks :: "jsstring \<Rightarrow> nat \<Rightarrow> nat list \<Rightarrow> nat \<Rightarrow> (nat list \<times> nat) js" where
  "load_blocks data offset result resultLength =
    (if length result < resultLength
     then js_bind (load_block data offset (resultLength - length result)) (\<lambda>(xs, offset).
            load_blocks data offset (result @ xs) resultLength)
     else Inr (result, offset))"
  by pat_completeness auto
termination
proof (relation "measure (\<lambda>(data, offset, result, resultLength). resultLength - length result)")
  fix data offset resultLength x o' and result xs :: "nat list"
  assume less: "length result < resultLength"
    and block: "load_block data offset (resultLength - length result) = Inr x" "(xs, o') = x"
  have "0 < length xs" using load_block_progress [of data offset _ xs o'] block less by simp
  then show "((data, o', result @ xs, resultLength), data, offset, result, resultLength)
      \<in> measure (\<lambda>(data, offset, result, resultLength). resultLength - length result)"
    using less by (simp del: length_greater_0_conv)
qed simp

declare load_blocks.simps [simp del]

definition Binary_load32bitNumberList :: "jsstring \<Rightarrow> nat \<Rightarrow> (nat list \<times> nat) js" where
  "Binary_load32bitNumberList data offset =
    js_bind (Binary_load32bitNumber data offset) (\<lambda>resultLength. load_blocks data (offset + 2) [] resultLength)"

subsection \<open>The contract of a dumper and its loader\<close>

lemma js_at_append [simp]: "js_at (pre @ x # post) (length pre) = Inr x"
  by (simp add: nth_append)

lemma js_at_append_Suc [simp]: "js_at (pre @ x # y # post) (Suc (length pre)) = Inr y"
  by (simp add: nth_append)

locale codec =
  fixes valid :: "'a \<Rightarrow> bool" and dump :: "'a \<Rightarrow> jsstring" and canon :: "'a \<Rightarrow> 'b"
    and load :: "jsstring \<Rightarrow> nat \<Rightarrow> ('b \<times> nat) js"
  assumes load_dump: "valid x \<Longrightarrow> load (pre @ dump x @ post) (length pre) = Inr (canon x, length pre + length (dump x))"
begin

lemma load_whole: "valid x \<Longrightarrow> load (dump x) 0 = Inr (canon x, length (dump x))"
  using load_dump [of x "[]" "[]"] by simp

lemma load_seq_dump:
  "\<forall>x \<in> set xs. valid x \<Longrightarrow> load_seq load (pre @ concat (map dump xs) @ post) (length pre) (length xs)
    = Inr (map canon xs, length pre + length (concat (map dump xs)))"
proof (induction xs arbitrary: pre)
  case (Cons x xs)
  have "load (pre @ dump x @ concat (map dump xs) @ post) (length pre) = Inr (canon x, length pre + length (dump x))"
    using Cons.prems by (intro load_dump) simp
  then show ?case using Cons.IH [of "pre @ dump x"] Cons.prems by simp
qed simp

lemma dump_unambiguous: "valid x \<Longrightarrow> valid y \<Longrightarrow> dump x @ p = dump y @ q \<Longrightarrow> canon x = canon y \<and> p = q"
  using load_dump [of x "[]" p] load_dump [of y "[]" q] by auto

end

lemma fst_dump_seq:
  "(\<And>x r. fst (dump x r) = d x) \<Longrightarrow> fst (dump_seq dump xs r) = concat (map d xs)"
  by (induction xs arbitrary: r) (auto simp: Let_def split: prod.splits, metis fst_conv)

subsection \<open>Numbers and strings\<close>

definition word32 :: "int \<Rightarrow> nat" where
  "word32 x = nat (x mod 4294967296)"

lemma word32_parts: "nat ((x div 65536) mod 65536) * 65536 + nat (x mod 65536) = word32 x"
proof -
  have "x mod 4294967296 = x mod (65536 * 65536)" by simp
  also have "\<dots> = 65536 * (x div 65536 mod 65536) + x mod 65536" by (rule zmod_zmult2_eq) simp
  finally have "int (word32 x) = 65536 * (x div 65536 mod 65536) + x mod 65536" by (simp add: word32_def)
  then show ?thesis by (simp add: nat_eq_iff [symmetric] nat_add_distrib flip: of_nat_eq_iff [where 'a = int])
qed

lemma word32_id: "0 \<le> x \<Longrightarrow> x < 4294967296 \<Longrightarrow> int (word32 x) = x"
  by (simp add: word32_def)

lemma word32_of_nat: "x < 4294967296 \<Longrightarrow> word32 (int x) = x"
  by (simp add: word32_def nat_mod_distrib)

abbreviation load_number :: "jsstring \<Rightarrow> nat \<Rightarrow> (nat \<times> nat) js" where
  "load_number data offset \<equiv> js_bind (Binary_load32bitNumber data offset) (\<lambda>x. Inr (x, offset + 2))"

lemma load32_dump [simp]:
  "Binary_load32bitNumber (pre @ Binary_dump32bitNumber x @ post) (length pre) = Inr (word32 x)"
  by (simp add: Binary_load32bitNumber_def Binary_dump32bitNumber_def word32_parts)

lemma length_dump32 [simp]: "length (Binary_dump32bitNumber x) = 2"
  by (simp add: Binary_dump32bitNumber_def)

interpretation number: codec "\<lambda>_. True" Binary_dump32bitNumber word32 load_number
  by unfold_locales simp

definition string_ok :: "jsstring \<Rightarrow> bool" where
  "string_ok s \<longleftrightarrow> length s \<le> 32767 \<and> (\<forall>c \<in> set s. c < 65536)"

definition string_dump :: "jsstring \<Rightarrow> jsstring" where
  "string_dump s = fst (Binary_dumpString s None)"

lemma fst_dumpString: "fst (Binary_dumpString s r) = string_dump s"
  by (simp add: string_dump_def Binary_dumpString_def Let_def)

lemma and_255: "c AND 255 = (c::nat) mod 256"
  using take_bit_eq_mask [of 8 c] by (simp add: take_bit_eq_mod mask_eq_exp_minus_1)

lemma unpack_pack:
  "\<forall>c \<in> set cs. c < 256 \<Longrightarrow> unpack_bytes (pre @ pack_bytes cs @ post) (length pre) (length cs)
    = Inr (cs, length pre + length (pack_bytes cs))"
proof (induction cs arbitrary: pre rule: pack_bytes.induct)
  case (3 a b cs)
  let ?x = "(a + push_bit 8 b) mod 65536"
  have x: "?x = a + 256 * b" using "3.prems" by (simp add: push_bit_eq_mult)
  have "?x AND 255 = a" "drop_bit 8 ?x = b"
    unfolding x and_255 drop_bit_eq_div using "3.prems" by simp_all
  then show ?case using "3.IH" [of "pre @ [?x]"] "3.prems" by simp
qed (auto simp: and_255)

lemma string_codec:
  assumes "string_ok s"
  shows "Binary_loadString (pre @ string_dump s @ post) (length pre) = Inr (s, length pre + length (string_dump s))"
proof (cases "list_all (\<lambda>c. \<not> 255 < c) s")
  case True
  then have d: "string_dump s = (length s + 32768) # pack_bytes s"
    using assms by (simp add: string_dump_def Binary_dumpString_def Let_def Binary_dump16bitNumber_def string_ok_def)
  have "\<forall>c \<in> set s. c < 256" using True by (auto simp: list_all_iff)
  from unpack_pack [OF this, of "pre @ [length s + 32768]" post] show ?thesis
    by (simp add: d Binary_loadString_def Let_def)
next
  case False
  then have d: "string_dump s = length s # s"
    using assms by (auto simp: string_dump_def Binary_dumpString_def Let_def Binary_dump16bitNumber_def string_ok_def)
  show ?thesis using assms by (simp add: d Binary_loadString_def Let_def string_ok_def)
qed

interpretation str: codec string_ok string_dump "\<lambda>s. s" Binary_loadString
  by unfold_locales (rule string_codec)

definition list_ok :: "jsstring list \<Rightarrow> bool" where
  "list_ok ss \<longleftrightarrow> length ss < 4294967296 \<and> (\<forall>s \<in> set ss. string_ok s)"

definition list_dump :: "jsstring list \<Rightarrow> jsstring" where
  "list_dump ss = Binary_dump32bitNumber (int (length ss)) @ concat (map string_dump ss)"

lemma fst_dumpStringList: "fst (Binary_dumpStringList ss r) = list_dump ss"
  using fst_dump_seq [of Binary_dumpString string_dump ss r, OF fst_dumpString]
  by (simp add: Binary_dumpStringList_def list_dump_def split_beta)

lemma counted_seq:
  assumes "codec valid dump canon load" and "\<forall>x \<in> set xs. valid x" and "length xs < 4294967296"
  shows "js_bind (Binary_load32bitNumber (pre @ (Binary_dump32bitNumber (int (length xs)) @ concat (map dump xs)) @ post) (length pre))
      (\<lambda>n. load_seq load (pre @ (Binary_dump32bitNumber (int (length xs)) @ concat (map dump xs)) @ post) (length pre + 2) n)
    = Inr (map canon xs, length pre + (2 + length (concat (map dump xs))))"
  using codec.load_seq_dump [OF assms(1,2), of "pre @ Binary_dump32bitNumber (int (length xs))" post] assms(3)
  by (simp add: word32_of_nat)

interpretation strlist: codec list_ok list_dump "\<lambda>ss. ss" Binary_loadStringList
proof
  fix ss pre post assume ok: "list_ok ss"
  show "Binary_loadStringList (pre @ list_dump ss @ post) (length pre) = Inr (ss, length pre + length (list_dump ss))"
    using counted_seq [OF str.codec_axioms, of ss pre post] ok
    by (simp add: Binary_loadStringList_def list_dump_def list_ok_def)
qed

definition entry_dump :: "jsstring \<times> jsstring list \<Rightarrow> jsstring" where
  "entry_dump kv = string_dump (fst kv) @ list_dump (snd kv)"

interpretation entry: codec "\<lambda>kv. string_ok (fst kv) \<and> list_ok (snd kv)" entry_dump "\<lambda>kv. kv" load_entry
proof
  fix kv pre post assume ok: "string_ok (fst kv) \<and> list_ok (snd kv)"
  show "load_entry (pre @ entry_dump kv @ post) (length pre) = Inr (kv, length pre + length (entry_dump kv))"
    using str.load_dump [of "fst kv" pre "list_dump (snd kv) @ post"]
      strlist.load_dump [of "snd kv" "pre @ string_dump (fst kv)" post] ok
    by (simp add: load_entry_def entry_dump_def)
qed

lemma fst_dump_entry: "fst (dump_entry kv r) = entry_dump kv"
proof -
  have "fst (dump_entry kv r) = fst (Binary_dumpString (fst kv) r)
      @ fst (Binary_dumpStringList (snd kv) (snd (Binary_dumpString (fst kv) r)))"
    by (simp add: dump_entry_def Let_def split_beta)
  then show ?thesis by (simp add: fst_dumpString fst_dumpStringList entry_dump_def)
qed

definition map_ok :: "strmap \<Rightarrow> bool" where
  "map_ok m \<longleftrightarrow> length m < 4294967296 \<and> distinct (map fst m) \<and> (\<forall>kv \<in> set m. string_ok (fst kv) \<and> list_ok (snd kv))"

definition map_dump :: "strmap \<Rightarrow> jsstring" where
  "map_dump m = Binary_dump32bitNumber (int (length m)) @ concat (map entry_dump m)"

lemma fst_dumpStringListMap: "fst (Binary_dumpStringListMap m r) = map_dump m"
  using fst_dump_seq [of dump_entry entry_dump m r, OF fst_dump_entry]
  by (simp add: Binary_dumpStringListMap_def map_dump_def split_beta)

lemma str_set_new: "k \<notin> fst ` set m \<Longrightarrow> str_set k v m = m @ [(k, v)]"
  by (induction m) auto

lemma foldl_str_set:
  "distinct (map fst (acc @ m)) \<Longrightarrow> foldl (\<lambda>m kv. str_set (fst kv) (snd kv) m) acc m = acc @ m"
  by (induction m arbitrary: acc) (auto simp: str_set_new)

interpretation strmap: codec map_ok map_dump "\<lambda>m. m" Binary_loadStringListMap
proof
  fix m pre post assume ok: "map_ok m"
  have "js_bind (Binary_load32bitNumber (pre @ map_dump m @ post) (length pre))
      (\<lambda>n. load_seq load_entry (pre @ map_dump m @ post) (length pre + 2) n) = Inr (m, length pre + length (map_dump m))"
    using counted_seq [OF entry.codec_axioms, of m pre post] ok by (simp add: map_dump_def map_ok_def)
  moreover have "foldl (\<lambda>m kv. str_set (fst kv) (snd kv) m) [] m = m"
    using foldl_str_set [of "[]" m] ok by (simp add: map_ok_def)
  ultimately show "Binary_loadStringListMap (pre @ map_dump m @ post) (length pre) = Inr (m, length pre + length (map_dump m))"
    by (auto simp: Binary_loadStringListMap_def js_bind_eq_Inr)
qed

subsection \<open>Number lists\<close>

lemma load_blocks_step:
  assumes "length result < n" and "load_block data offset (n - length result) = Inr (xs, offset')"
  shows "load_blocks data offset result n = load_blocks data offset' (result @ xs) n"
  using assms by (simp add: load_blocks.simps [of data offset result n])

lemma load_blocks_zero:
  "length result + k \<le> n \<Longrightarrow> load_blocks (pre @ Binary_zeroBlock k @ post) (length pre) result n
    = load_blocks (pre @ Binary_zeroBlock k @ post) (length pre + length (Binary_zeroBlock k)) (result @ replicate k 0) n"
proof (induction k arbitrary: pre result rule: less_induct)
  case (less k)
  note unfold = Binary_zeroBlock.simps [of k]
  show ?case
  proof (cases "16384 < k")
    case True
    then have z: "Binary_zeroBlock k = 16383 # Binary_zeroBlock (k - 16384)"
      by (simp add: unfold Binary_dump16bitNumber_def)
    have "load_block (pre @ Binary_zeroBlock k @ post) (length pre) (n - length result) = Inr (replicate 16384 0, length pre + 1)"
      by (simp add: z load_block_def drop_bit_eq_div)
    from load_blocks_step [OF _ this] less.prems True
    have "load_blocks (pre @ Binary_zeroBlock k @ post) (length pre) result n
        = load_blocks ((pre @ [16383]) @ Binary_zeroBlock (k - 16384) @ post) (length (pre @ [16383])) (result @ replicate 16384 0) n"
      by (simp add: z)
    also have "\<dots> = load_blocks ((pre @ [16383]) @ Binary_zeroBlock (k - 16384) @ post)
        (length (pre @ [16383]) + length (Binary_zeroBlock (k - 16384))) ((result @ replicate 16384 0) @ replicate (k - 16384) 0) n"
      using less.prems True by (intro less.IH) simp_all
    also have "(result @ replicate 16384 0) @ replicate (k - 16384) 0 = result @ replicate k 0"
      using True replicate_add [of 16384 "k - 16384" "0 :: nat"] by simp
    finally show ?thesis by (simp add: z)
  next
    case small: False
    show ?thesis
    proof (cases "k = 0")
      case False
      then have z: "Binary_zeroBlock k = [k - 1]" using small by (simp add: unfold Binary_dump16bitNumber_def)
      have "drop_bit 15 (k - 1) = 0" "drop_bit 14 (k - 1) = 0" using small False by (simp_all add: drop_bit_eq_div)
      then have "load_block (pre @ Binary_zeroBlock k @ post) (length pre) (n - length result) = Inr (replicate k 0, length pre + 1)"
        using False by (simp add: z load_block_def)
      from load_blocks_step [OF _ this] show ?thesis using less.prems False by (simp add: z)
    qed (simp add: Binary_zeroBlock.simps [of 0])
  qed
qed

lemma load_numbers_dump:
  "load_numbers (pre @ concat (map Binary_dump32bitNumber xs) @ post) (length pre) (length xs)
    = Inr (map word32 xs, length pre + length (concat (map Binary_dump32bitNumber xs)))"
proof (induction xs arbitrary: pre)
  case (Cons x xs)
  show ?case using Cons [of "pre @ Binary_dump32bitNumber x"] by simp
qed simp

lemma load_blocks_nonzero:
  "k \<le> length xs \<Longrightarrow> length result + k \<le> n \<Longrightarrow>
    load_blocks (pre @ Binary_nonZeroBlock xs k @ post) (length pre) result n
    = load_blocks (pre @ Binary_nonZeroBlock xs k @ post) (length pre + length (Binary_nonZeroBlock xs k))
        (result @ map word32 (take k xs)) n"
proof (induction k arbitrary: xs pre result rule: less_induct)
  case (less k)
  note unfold = Binary_nonZeroBlock.simps [of xs k]
  show ?case
  proof (cases "k = 0")
    case False
    define m where "m = (if 16384 < k then 16384 else k)"
    have m: "0 < m" "m \<le> k" "m \<le> 16384" "k - m < k" using False by (auto simp: m_def)
    let ?ds = "concat (map Binary_dump32bitNumber (take m xs))"
    let ?b = "Binary_nonZeroBlock (drop m xs) (k - m)"
    have z: "Binary_nonZeroBlock xs k = (m - 1 + 16384) # ?ds @ ?b"
      using False m by (simp add: unfold Let_def m_def [symmetric] Binary_dump16bitNumber_def)
    have len: "min (length xs) m = m" using m less.prems by simp
    have tag: "drop_bit 15 (m - 1 + 16384) = 0" "drop_bit 14 (m - 1 + 16384) = 1"
      using m by (simp_all add: drop_bit_eq_div)
    have "load_block (pre @ Binary_nonZeroBlock xs k @ post) (length pre) (n - length result)
        = load_numbers ((pre @ [m - 1 + 16384]) @ ?ds @ ?b @ post) (length (pre @ [m - 1 + 16384])) (length (take m xs))"
      using tag m by (simp add: z load_block_def len)
    also have "\<dots> = Inr (map word32 (take m xs), length pre + 1 + length ?ds)"
      by (subst load_numbers_dump) simp
    finally have "load_blocks (pre @ Binary_nonZeroBlock xs k @ post) (length pre) result n
        = load_blocks ((pre @ (m - 1 + 16384) # ?ds) @ ?b @ post) (length (pre @ (m - 1 + 16384) # ?ds))
            (result @ map word32 (take m xs)) n"
      using load_blocks_step [of result n] less.prems m by (simp add: z)
    also have "\<dots> = load_blocks ((pre @ (m - 1 + 16384) # ?ds) @ ?b @ post)
        (length (pre @ (m - 1 + 16384) # ?ds) + length ?b) ((result @ map word32 (take m xs)) @ map word32 (take (k - m) (drop m xs))) n"
      using less.prems m len by (intro less.IH) simp_all
    also have "(result @ map word32 (take m xs)) @ map word32 (take (k - m) (drop m xs)) = result @ map word32 (take k xs)"
      using take_add [of m "k - m" xs] m by (simp flip: map_append)
    finally show ?thesis by (simp add: z add.assoc)
  qed (simp add: Binary_nonZeroBlock.simps [of xs 0])
qed

lemma zebra_bits: "bit (fst (zebra_code i xs)) k \<longleftrightarrow> i \<le> k \<and> k < i + length xs \<and> xs ! (k - i) \<noteq> 0"
proof (induction xs arbitrary: i k)
  case (Cons x xs)
  have low: "bit (fst (zebra_code (Suc i) xs)) k \<Longrightarrow> i < k" for k using Cons [of "i + 1" k] by auto
  have "push_bit i 1 + fst (zebra_code (i + 1) xs) = push_bit i 1 OR fst (zebra_code (i + 1) xs)"
    by (rule disjunctive_add) (auto simp: bit_push_bit_iff bit_1_iff bit_exp_iff dest: low)
  then have "bit (fst (zebra_code i (x # xs))) k \<longleftrightarrow> (k = i \<and> x \<noteq> 0) \<or> bit (fst (zebra_code (i + 1) xs)) k"
    by (auto simp: Let_def split_beta bit_or_iff bit_push_bit_iff bit_1_iff bit_exp_iff)
  also have "\<dots> \<longleftrightarrow> i \<le> k \<and> k < i + length (x # xs) \<and> (x # xs) ! (k - i) \<noteq> 0"
    using Cons [of "i + 1" k] by (auto simp: nth_Cons' Suc_diff_le)
  finally show ?case .
qed simp

lemma zebra_small: "fst (zebra_code 0 xs) < 2 ^ length xs"
proof -
  have "take_bit (length xs) (fst (zebra_code 0 xs)) = fst (zebra_code 0 xs)"
    by (rule bit_eqI) (auto simp: bit_take_bit_iff zebra_bits)
  then show ?thesis by (metis take_bit_nat_less_exp)
qed

lemma word32_0 [simp]: "word32 0 = 0"
  by (simp add: word32_def)

lemma load_zebra_dump:
  "\<forall>j < length xs. bit tag (i + j) \<longleftrightarrow> xs ! j \<noteq> 0 \<Longrightarrow>
    load_zebra (pre @ snd (zebra_code i xs) @ post) (length pre) tag i (length xs)
    = Inr (map word32 xs, length pre + length (snd (zebra_code i xs)))"
proof (induction xs arbitrary: i pre)
  case (Cons x xs)
  have x: "drop_bit i tag AND 1 \<noteq> 0 \<longleftrightarrow> x \<noteq> 0"
  proof -
    have "bit tag i \<longleftrightarrow> x \<noteq> 0" using Cons.prems by (auto dest: spec [of _ 0])
    then show ?thesis by (simp add: and_one_eq bit_iff_odd_drop_bit odd_iff_mod_2_eq_one)
  qed
  have rest: "\<forall>j < length xs. bit tag (i + 1 + j) \<longleftrightarrow> xs ! j \<noteq> 0"
    using Cons.prems by force
  show ?case
  proof (cases "x = 0")
    case True
    then show ?thesis using x Cons.IH [OF rest, of pre] by (simp add: Let_def split_beta)
  next
    case False
    then show ?thesis
      using x Cons.IH [OF rest, of "pre @ Binary_dump32bitNumber x"] by (simp add: Let_def split_beta)
  qed
qed simp

lemma load_block_zebra:
  assumes "ys = take 15 xs" and "length xs = remaining"
  shows "load_block (pre @ Binary_createZebraCode xs @ post) (length pre) remaining
    = Inr (map word32 ys, length pre + length (Binary_createZebraCode xs))"
proof -
  define code where "code = fst (zebra_code 0 ys)"
  have "code < 2 ^ length ys" unfolding code_def by (rule zebra_small)
  moreover have "(2::nat) ^ length ys \<le> 2 ^ 15" using assms(1) by (intro power_increasing) auto
  ultimately have code: "code < 32768" by simp
  define tag where "tag = 32768 + code"
  have z: "Binary_createZebraCode xs = tag # snd (zebra_code 0 ys)"
    using code by (simp add: Binary_createZebraCode_def assms(1) [symmetric] code_def tag_def split_beta)
  have "take_bit 15 tag = code" using code by (simp add: tag_def take_bit_eq_mod)
  then have "bit tag j \<longleftrightarrow> ys ! j \<noteq> 0" if "j < length ys" for j
    using that assms(1) zebra_bits [of 0 ys j] bit_take_bit_iff [of 15 tag j] by (auto simp: code_def)
  then have "load_zebra ((pre @ [tag]) @ snd (zebra_code 0 ys) @ post) (length (pre @ [tag])) tag 0 (length ys)
      = Inr (map word32 ys, length (pre @ [tag]) + length (snd (zebra_code 0 ys)))"
    by (intro load_zebra_dump) simp
  moreover have "drop_bit 15 tag = 1" using code by (simp add: tag_def drop_bit_eq_div)
  moreover have "length ys = min remaining 15" using assms by simp
  ultimately show ?thesis by (simp add: load_block_def z)
qed

lemma countZero_le: "Binary_countZero xs \<le> length xs"
  by (induction xs) auto

lemma countZero_take: "take (Binary_countZero xs) xs = replicate (Binary_countZero xs) 0"
  by (induction xs) auto

lemma search_double_le: "search_double z i xs \<le> i + length xs"
  by (induction z i xs rule: search_double.induct) auto

lemma search_double_ge: "(if z then i - 1 else i) \<le> search_double z i xs"
  by (induction z i xs rule: search_double.induct) auto

lemma searchDoubleZero_bounds:
  assumes "x \<noteq> 0"
  shows "0 < Binary_searchDoubleZero (x # xs)" and "Binary_searchDoubleZero (x # xs) \<le> length (x # xs)"
  using assms search_double_le [of False 1 xs] search_double_ge [of False 1 xs]
  by (auto simp: Binary_searchDoubleZero_def)

lemma dump_blocks_codec:
  "\<exists>ds. dump_blocks xs = Inr ds \<and> (\<forall>pre post result. load_blocks (pre @ ds @ post) (length pre) result (length result + length xs)
    = Inr (result @ map word32 xs, length pre + length ds))"
proof (induction xs rule: dump_blocks.induct)
  case 1
  then show ?case by (simp add: load_blocks.simps)
next
  case (2 x xs)
  let ?xs = "x # xs"
  have combine: "\<exists>ds. js_bind (dump_blocks (drop k ?xs)) (\<lambda>ds. Inr (b @ ds)) = Inr ds \<and>
      (\<forall>pre post result. load_blocks (pre @ ds @ post) (length pre) result (length result + length ?xs)
        = Inr (result @ map word32 ?xs, length pre + length ds))"
    if IH: "\<exists>ds. dump_blocks (drop k ?xs) = Inr ds \<and> (\<forall>pre post result.
          load_blocks (pre @ ds @ post) (length pre) result (length result + length (drop k ?xs))
          = Inr (result @ map word32 (drop k ?xs), length pre + length ds))"
      and head: "\<And>pre post result. load_blocks (pre @ b @ post) (length pre) result (length result + length ?xs)
          = load_blocks (pre @ b @ post) (length pre + length b) (result @ map word32 (take k ?xs)) (length result + length ?xs)"
    for k b
  proof -
    obtain ds where ds: "dump_blocks (drop k ?xs) = Inr ds" "\<And>pre post result.
          load_blocks (pre @ ds @ post) (length pre) result (length result + length (drop k ?xs))
          = Inr (result @ map word32 (drop k ?xs), length pre + length ds)"
      using IH by blast
    have "load_blocks (pre @ (b @ ds) @ post) (length pre) result (length result + length ?xs)
        = Inr (result @ map word32 ?xs, length pre + length (b @ ds))" for pre post result
    proof -
      have "length (result @ map word32 (take k ?xs)) + length (drop k ?xs) = length result + length ?xs" by simp
      note total = this
      have "load_blocks (pre @ b @ ds @ post) (length pre) result (length result + length ?xs)
          = Inr ((result @ map word32 (take k ?xs)) @ map word32 (drop k ?xs), length (pre @ b) + length ds)"
        using head [of pre "ds @ post" result] ds(2) [of "pre @ b" post "result @ map word32 (take k ?xs)"]
        unfolding total by (simp only: append_assoc length_append)
      then show ?thesis by (simp flip: map_append del: list.map)
    qed
    then show ?thesis using ds(1) by simp
  qed
  consider "x = 0" | "x \<noteq> 0" "Binary_shouldZebraCode ?xs" | "x \<noteq> 0" "\<not> Binary_shouldZebraCode ?xs" by blast
  then show ?case
  proof cases
    case 1
    let ?k = "Binary_countZero ?xs"
    have "map word32 (take ?k ?xs) = replicate ?k 0" by (simp only: countZero_take map_replicate word32_0)
    then have head: "load_blocks (pre @ Binary_zeroBlock ?k @ post) (length pre) result (length result + length ?xs)
        = load_blocks (pre @ Binary_zeroBlock ?k @ post) (length pre + length (Binary_zeroBlock ?k))
            (result @ map word32 (take ?k ?xs)) (length result + length ?xs)" for pre post result
      using load_blocks_zero [of result ?k "length result + length ?xs" pre post] countZero_le [of ?xs] by simp
    have "dump_blocks ?xs = js_bind (dump_blocks (drop ?k ?xs)) (\<lambda>ds. Inr (Binary_zeroBlock ?k @ ds))"
      using 1 by (simp add: dump_blocks.simps(2) Let_def)
    then show ?thesis using combine [OF "2.IH"(1) [OF 1 refl] head] by (simp only:)
  next
    case 2
    have head: "load_blocks (pre @ Binary_createZebraCode ?xs @ post) (length pre) result (length result + length ?xs)
        = load_blocks (pre @ Binary_createZebraCode ?xs @ post) (length pre + length (Binary_createZebraCode ?xs))
            (result @ map word32 (take 15 ?xs)) (length result + length ?xs)" for pre post result
      by (rule load_blocks_step) (simp, subst load_block_zebra [OF refl], simp_all)
    have "dump_blocks ?xs = js_bind (dump_blocks (drop 15 ?xs)) (\<lambda>ds. Inr (Binary_createZebraCode ?xs @ ds))"
      using 2 by (simp only: dump_blocks.simps(2) if_False if_True)
    then show ?thesis using combine [OF "2.IH"(2) [OF 2] head] by (simp only:)
  next
    case 3
    let ?k = "Binary_searchDoubleZero ?xs"
    note k = searchDoubleZero_bounds [OF 3(1), of xs]
    have head: "load_blocks (pre @ Binary_nonZeroBlock ?xs ?k @ post) (length pre) result (length result + length ?xs)
        = load_blocks (pre @ Binary_nonZeroBlock ?xs ?k @ post) (length pre + length (Binary_nonZeroBlock ?xs ?k))
            (result @ map word32 (take ?k ?xs)) (length result + length ?xs)" for pre post result
      using load_blocks_nonzero [OF k(2), of result "length result + length ?xs" pre post] k(2) by simp
    have nz: "?k \<noteq> 0" using k(1) by simp
    have "dump_blocks ?xs = js_bind (dump_blocks (drop ?k ?xs)) (\<lambda>ds. Inr (Binary_nonZeroBlock ?xs ?k @ ds))"
      using 3 nz by (simp only: dump_blocks.simps(2) if_False Let_def)
    then show ?thesis using combine [OF "2.IH"(3) [OF 3 refl nz] head] by (simp only:)
  qed
qed

definition numbers_dump :: "int list \<Rightarrow> jsstring" where
  "numbers_dump xs = (case Binary_dump32bitNumberList xs None of Inl _ \<Rightarrow> [] | Inr (d, _) \<Rightarrow> d)"

lemma dump32bitNumberList_returns:
  "\<exists>r'. Binary_dump32bitNumberList xs r = Inr (numbers_dump xs, r')"
  using dump_blocks_codec [of xs] by (auto simp: Binary_dump32bitNumberList_def numbers_dump_def Let_def)

interpretation numbers: codec "\<lambda>xs. length xs < 4294967296" numbers_dump "map word32" Binary_load32bitNumberList
proof
  fix xs :: "int list" and pre post assume len: "length xs < 4294967296"
  obtain ds where ds: "dump_blocks xs = Inr ds" "\<And>pre post result.
      load_blocks (pre @ ds @ post) (length pre) result (length result + length xs) = Inr (result @ map word32 xs, length pre + length ds)"
    using dump_blocks_codec [of xs] by blast
  have d: "numbers_dump xs = Binary_dump32bitNumber (int (length xs)) @ ds"
    by (simp add: numbers_dump_def Binary_dump32bitNumberList_def ds(1) Let_def)
  show "Binary_load32bitNumberList (pre @ numbers_dump xs @ post) (length pre)
      = Inr (map word32 xs, length pre + length (numbers_dump xs))"
    using ds(2) [of "pre @ Binary_dump32bitNumber (int (length xs))" post "[]"] len
    by (simp add: Binary_load32bitNumberList_def d word32_of_nat)
qed

section \<open>Base64\<close>

definition base64EncodeChars :: jsstring where
  "base64EncodeChars = [65..<91] @ [97..<123] @ [48..<58] @ [43, 47]"

definition base64DecodeChars :: "int list" where
  "base64DecodeChars = replicate 43 (- 1) @ [62, - 1, - 1, - 1, 63] @ map int [52..<62] @ replicate 7 (- 1)
    @ map int [0..<26] @ replicate 6 (- 1) @ map int [26..<52] @ replicate 5 (- 1)"

definition split_codes :: "jsstring \<Rightarrow> nat list" where
  "split_codes str = concat (map (\<lambda>code. [code AND 0x00ff, drop_bit 8 code]) str)"

definition enc_char :: "nat \<Rightarrow> nat" where
  "enc_char i = base64EncodeChars ! i"

fun encode_bytes :: "nat list \<Rightarrow> jsstring" where
  "encode_bytes [] = []"
| "encode_bytes [b1] =
    (let c1 = b1 AND 0xff in [enc_char (drop_bit 2 c1), enc_char (push_bit 4 (c1 AND 0x3)), 61, 61])"
| "encode_bytes [b1, c2] =
    (let c1 = b1 AND 0xff in
     [enc_char (drop_bit 2 c1), enc_char (push_bit 4 (c1 AND 0x3) OR drop_bit 4 (c2 AND 0xF0)),
      enc_char (push_bit 2 (c2 AND 0xF)), 61])"
| "encode_bytes (b1 # c2 # c3 # bs) =
    (let c1 = b1 AND 0xff in
     enc_char (drop_bit 2 c1) # enc_char (push_bit 4 (c1 AND 0x3) OR drop_bit 4 (c2 AND 0xF0)) #
     enc_char (push_bit 2 (c2 AND 0xF) OR drop_bit 6 (c3 AND 0xC0)) # enc_char (c3 AND 0x3F) #
     encode_bytes bs)"

definition Binary_base64encode :: "jsstring \<Rightarrow> jsstring" where
  "Binary_base64encode str = encode_bytes (split_codes str)"

fun Binary_mergeCharCode :: "nat list \<Rightarrow> jsstring" where
  "Binary_mergeCharCode [] = []"
| "Binary_mergeCharCode [a] = [a mod 65536]"
| "Binary_mergeCharCode (a # b # bs) = (a + push_bit 8 b) mod 65536 # Binary_mergeCharCode bs"

text \<open>
  A slot of the table past its 128 entries is \<^verbatim>\<open>undefined\<close>: different from -1, and 0 in the bit
  operations.  A code past the end of the string is \<^verbatim>\<open>NaN\<close>, and masked 0.
\<close>

definition dec_char :: "nat \<Rightarrow> int" where
  "dec_char c = js_at0 base64DecodeChars c"

text \<open>
  The loops that skip foreign characters; with \<^verbatim>\<open>stop\<close> they also end at the padding character,
  which the result \<^const>\<open>None\<close> reports.
\<close>

function read_symbol :: "bool \<Rightarrow> jsstring \<Rightarrow> nat \<Rightarrow> int option \<times> nat" where
  "read_symbol stop str i =
    (let c = js_at0 str i AND 0xff in
     if stop \<and> c = 61 then (None, i + 1)
     else if i + 1 < length str \<and> dec_char c = - 1 then read_symbol stop str (i + 1)
     else (Some (dec_char c), i + 1))"
  by pat_completeness auto
termination by (relation "measure (\<lambda>(stop, str, i). length str - i)") auto

declare read_symbol.simps [simp del]

lemma read_symbol_progress: "read_symbol stop str i = (r, j) \<Longrightarrow> i < j"
  by (induction stop str i arbitrary: r j rule: read_symbol.induct)
    (subst (asm) read_symbol.simps, fastforce simp: Let_def split: if_splits)

function decode_loop :: "jsstring \<Rightarrow> nat \<Rightarrow> nat list \<Rightarrow> nat list" where
  "decode_loop str i out =
    (if i < length str then
       (case read_symbol False str i of
          (None, i1) \<Rightarrow> out
        | (Some c1, i1) \<Rightarrow>
       if c1 = - 1 then out
       else (case read_symbol False str i1 of
          (None, i2) \<Rightarrow> out
        | (Some c2, i2) \<Rightarrow>
       if c2 = - 1 then out
       else (let out = out @ [push_bit 2 (nat c1) OR drop_bit 4 (nat c2 AND 0x30)] in
         (case read_symbol True str i2 of
          (None, i3) \<Rightarrow> out
        | (Some c3, i3) \<Rightarrow>
       if c3 = - 1 then out
       else (let out = out @ [push_bit 4 (nat c2 AND 0xF) OR drop_bit 2 (nat c3 AND 0x3C)] in
         (case read_symbol True str i3 of
          (None, i4) \<Rightarrow> out
        | (Some c4, i4) \<Rightarrow>
       if c4 = - 1 then out
       else decode_loop str i4 (out @ [push_bit 6 (nat c3 AND 0x03) OR nat c4])))))))
     else out)"
  by pat_completeness auto
termination
  by (relation "measure (\<lambda>(str, i, out). length str - i)")
    (auto dest!: read_symbol_progress [OF sym])

declare decode_loop.simps [simp del]

definition Binary_base64decode :: "jsstring \<Rightarrow> jsstring" where
  "Binary_base64decode str = Binary_mergeCharCode (decode_loop str 0 [])"

subsection \<open>Decoding an encoding\<close>

lemma alphabet_table: "list_all (\<lambda>i. enc_char i < 128 \<and> enc_char i \<noteq> 61 \<and> dec_char (enc_char i) = int i) [0..<64]"
  by code_simp

lemma alphabet: "i < 64 \<Longrightarrow> enc_char i < 128 \<and> enc_char i \<noteq> 61 \<and> dec_char (enc_char i) = int i"
  using alphabet_table by (auto simp: list_all_iff)

lemma js_at0_append [simp]: "js_at0 (pre @ x # post) (length pre) = x"
  by (simp add: nth_append)

lemma read_symbol_alphabet:
  "i < 64 \<Longrightarrow> read_symbol stop (pre @ enc_char i # post) (length pre) = (Some (int i), length pre + 1)"
  using alphabet [of i] by (subst read_symbol.simps) (auto simp: Let_def and_255)

lemma read_symbol_padding: "read_symbol True (pre @ 61 # post) (length pre) = (None, length pre + 1)"
  by (subst read_symbol.simps) (simp add: Let_def and_255)

lemma or_push: "b < 2 ^ k \<Longrightarrow> push_bit k a OR b = a * 2 ^ k + (b::nat)"
proof -
  assume b: "b < 2 ^ k"
  have "bit b n \<Longrightarrow> n < k" for n using b by (metis bit_take_bit_iff take_bit_nat_eq_self)
  then have "push_bit k a + b = push_bit k a OR b"
    by (intro disjunctive_add) (force simp: bit_push_bit_iff)
  then show ?thesis by (simp add: push_bit_eq_mult)
qed

lemma and_low: "c AND 3 = c mod (4::nat)" "c AND 15 = c mod (16::nat)" "c AND 63 = c mod (64::nat)"
  using take_bit_eq_mask [of 2 c] take_bit_eq_mask [of 4 c] take_bit_eq_mask [of 6 c]
  by (simp_all add: take_bit_eq_mod mask_eq_exp_minus_1)

lemma and_high:
  "drop_bit 4 (c AND 240) = c div 16 mod (16::nat)"
  "drop_bit 6 (c AND 192) = c div 64 mod (4::nat)"
  "drop_bit 4 (c AND 48) = c div 16 mod (4::nat)"
  "drop_bit 2 (c AND 60) = c div 4 mod (16::nat)"
proof -
  have a: "drop_bit k (c AND m) = c div 2 ^ k AND drop_bit k m" for k m :: nat
    by (simp add: drop_bit_and drop_bit_eq_div [symmetric])
  show "drop_bit 4 (c AND 240) = c div 16 mod 16" "drop_bit 6 (c AND 192) = c div 64 mod 4"
    "drop_bit 4 (c AND 48) = c div 16 mod 4" "drop_bit 2 (c AND 60) = c div 4 mod 16"
    unfolding a by (simp_all add: and_low)
qed

lemma encode_group:
  assumes "c1 < 256" "c2 < 256" "c3 < (256::nat)"
  defines "k2 \<equiv> c1 mod 4 * 16 + c2 div 16" and "k3 \<equiv> c2 mod 16 * 4 + c3 div 64"
  shows "c1 div 4 < 64" "k2 < 64" "k3 < 64" "c3 mod 64 < 64"
    and "push_bit 2 (c1 div 4) OR drop_bit 4 (k2 AND 48) = c1"
    and "push_bit 4 (k2 AND 15) OR drop_bit 2 (k3 AND 60) = c2"
    and "push_bit 6 (k3 AND 3) OR (c3 mod 64) = c3"
proof -
  have d: "c1 div 4 < 64" "c2 div 16 < 16" "c3 div 64 < 4" using assms by auto
  have m: "c1 mod 4 < 4" "c2 mod 16 < 16" "c3 mod 64 < 64" by auto
  show "c1 div 4 < 64" "k2 < 64" "k3 < 64" "c3 mod 64 < 64"
    using d m unfolding k2_def k3_def by linarith+
  have k: "k2 div 16 = c1 mod 4" "k2 mod 16 = c2 div 16" "k3 div 4 = c2 mod 16" "k3 mod 4 = c3 div 64"
    using d by (simp_all add: k2_def k3_def)
  show "push_bit 2 (c1 div 4) OR drop_bit 4 (k2 AND 48) = c1"
    unfolding and_high k by (subst or_push) simp_all
  show "push_bit 4 (k2 AND 15) OR drop_bit 2 (k3 AND 60) = c2"
    unfolding and_high and_low k by (subst or_push) simp_all
  show "push_bit 6 (k3 AND 3) OR (c3 mod 64) = c3"
    unfolding and_low k by (subst or_push) simp_all
qed

lemma encode_fields:
  assumes "c1 < 256" "c2 < 256" "c3 < (256::nat)"
  shows "drop_bit 2 (c1 AND 255) = c1 div 4" "push_bit 4 ((c1 AND 255) AND 3) = c1 mod 4 * 16 + 0 div 16"
    and "push_bit 4 ((c1 AND 255) AND 3) OR drop_bit 4 (c2 AND 240) = c1 mod 4 * 16 + c2 div 16"
    and "push_bit 2 (c2 AND 15) = c2 mod 16 * 4 + 0 div 64"
    and "push_bit 2 (c2 AND 15) OR drop_bit 6 (c3 AND 192) = c2 mod 16 * 4 + c3 div 64"
    and "c3 AND 63 = c3 mod 64"
proof -
  have d: "c2 div 16 < 16" "c3 div 64 < 4" using assms by auto
  show "drop_bit 2 (c1 AND 255) = c1 div 4" "push_bit 4 ((c1 AND 255) AND 3) = c1 mod 4 * 16 + 0 div 16"
    "push_bit 2 (c2 AND 15) = c2 mod 16 * 4 + 0 div 64" "c3 AND 63 = c3 mod 64"
    unfolding and_255 and_low drop_bit_eq_div push_bit_eq_mult using assms by simp_all
  show "push_bit 4 ((c1 AND 255) AND 3) OR drop_bit 4 (c2 AND 240) = c1 mod 4 * 16 + c2 div 16"
    unfolding and_255 and_low and_high using assms d by (subst or_push) simp_all
  show "push_bit 2 (c2 AND 15) OR drop_bit 6 (c3 AND 192) = c2 mod 16 * 4 + c3 div 64"
    unfolding and_low and_high using assms d by (subst or_push) simp_all
qed

lemma decode_encode:
  "\<forall>c \<in> set bs. c < 256 \<Longrightarrow> decode_loop (pre @ encode_bytes bs) (length pre) out = out @ bs"
proof (induction bs arbitrary: pre out rule: encode_bytes.induct)
  case 1
  then show ?case by (simp add: decode_loop.simps)
next
  case (2 c1)
  then have b: "c1 < 256" "0 < (256::nat)" by auto
  define k1 k2 where "k1 = c1 div 4" and "k2 = c1 mod 4 * 16 + 0 div (16::nat)"
  note g = encode_group [OF b b(2), folded k1_def k2_def]
  have e: "encode_bytes [c1] = [enc_char k1, enc_char k2, 61, 61]"
    by (simp only: encode_bytes.simps Let_def encode_fields(1,2) [OF b b(2), folded k1_def k2_def])
  show ?case
    unfolding e
    using read_symbol_alphabet [OF g(1), of False pre] read_symbol_alphabet [OF g(2), of False "pre @ [enc_char k1]"]
      read_symbol_padding [of "pre @ [enc_char k1, enc_char k2]"] g(5)
    by (subst decode_loop.simps) (simp add: Let_def)
next
  case (3 c1 c2)
  then have b: "c1 < 256" "c2 < 256" "0 < (256::nat)" by auto
  define k1 k2 k3 where "k1 = c1 div 4" and "k2 = c1 mod 4 * 16 + c2 div 16" and "k3 = c2 mod 16 * 4 + 0 div (64::nat)"
  note g = encode_group [OF b, folded k1_def k2_def k3_def]
  have e: "encode_bytes [c1, c2] = [enc_char k1, enc_char k2, enc_char k3, 61]"
    by (simp only: encode_bytes.simps Let_def encode_fields(1,3,4) [OF b, folded k1_def k2_def k3_def])
  show ?case
    unfolding e
    using read_symbol_alphabet [OF g(1), of False pre] read_symbol_alphabet [OF g(2), of False "pre @ [enc_char k1]"]
      read_symbol_alphabet [OF g(3), of True "pre @ [enc_char k1, enc_char k2]"]
      read_symbol_padding [of "pre @ [enc_char k1, enc_char k2, enc_char k3]"] g(5,6)
    by (subst decode_loop.simps) (simp add: Let_def)
next
  case (4 c1 c2 c3 bs)
  then have b: "c1 < 256" "c2 < 256" "c3 < 256" by auto
  define k1 k2 k3 k4 where "k1 = c1 div 4" and "k2 = c1 mod 4 * 16 + c2 div 16" and "k3 = c2 mod 16 * 4 + c3 div 64"
    and "k4 = c3 mod 64"
  note g = encode_group [OF b, folded k1_def k2_def k3_def k4_def]
  have e: "encode_bytes (c1 # c2 # c3 # bs) = enc_char k1 # enc_char k2 # enc_char k3 # enc_char k4 # encode_bytes bs"
    by (simp only: encode_bytes.simps Let_def encode_fields(1,3,5,6) [OF b, folded k1_def k2_def k3_def k4_def])
  have "decode_loop (pre @ encode_bytes (c1 # c2 # c3 # bs)) (length pre) out
      = decode_loop ((pre @ [enc_char k1, enc_char k2, enc_char k3, enc_char k4]) @ encode_bytes bs)
          (length (pre @ [enc_char k1, enc_char k2, enc_char k3, enc_char k4])) (out @ [c1, c2, c3])"
    unfolding e
    using read_symbol_alphabet [OF g(1), of False pre] read_symbol_alphabet [OF g(2), of False "pre @ [enc_char k1]"]
      read_symbol_alphabet [OF g(3), of True "pre @ [enc_char k1, enc_char k2]"]
      read_symbol_alphabet [OF g(4), of True "pre @ [enc_char k1, enc_char k2, enc_char k3]"] g(5-7)
    by (subst decode_loop.simps) (simp add: Let_def)
  also have "\<dots> = (out @ [c1, c2, c3]) @ bs" using "4.prems" by (intro "4.IH") simp_all
  finally show ?case by simp
qed

lemma merge_split: "\<forall>c \<in> set s. c < 65536 \<Longrightarrow> Binary_mergeCharCode (split_codes s) = s"
proof (induction s)
  case (Cons c s)
  have "c mod 256 + 256 * (c div 256) = c" by simp
  then show ?case using Cons by (simp add: split_codes_def and_255 push_bit_eq_mult drop_bit_eq_div mult.commute)
qed (simp add: split_codes_def)

lemma split_codes_bytes: "\<forall>c \<in> set s. c < 65536 \<Longrightarrow> \<forall>b \<in> set (split_codes s). b < 256"
  by (auto simp: split_codes_def and_255 drop_bit_eq_div)

subsection \<open>What the format promises\<close>

text \<open>
  Loading a dumped string returns the string and the offset behind it, in any
  context, for strings of at most 32767 characters, packed or not.
\<close>

theorem Binary_string_roundtrip:
  assumes "length s \<le> 32767" and "\<forall>c \<in> set s. c < 65536"
  shows "Binary_loadString (pre @ fst (Binary_dumpString s report) @ post) (length pre)
    = Inr (s, length pre + length (fst (Binary_dumpString s report)))"
  using str.load_dump [of s pre post] assms by (simp add: fst_dumpString string_ok_def)

theorem Binary_string_roundtrip_witness:
  "Binary_loadString ([7] @ fst (Binary_dumpString [104, 105, 33] None) @ [9]) 1 = Inr ([104, 105, 33], 4)"
proof -
  have "fst (Binary_dumpString [104, 105, 33] None) = [32771, 26984, 33]"
    by (simp add: Binary_dumpString_def Let_def Binary_dump16bitNumber_def push_bit_eq_mult)
  then show ?thesis using Binary_string_roundtrip [of "[104, 105, 33]" "[7]" None "[9]"] by simp
qed

text \<open>
  A string of 32768 characters, the length to which \<^verbatim>\<open>dumpString\<close> cuts longer ones, does not
  survive: whether packed or not, its length tag makes it load as the empty string, with an
  offset in the middle of the dump.
\<close>

theorem Binary_string_cut_length:
  assumes "length s = 32768"
  shows "Binary_loadString (fst (Binary_dumpString s report)) 0 = Inr ([], 1)"
  using assms by (simp add: Binary_loadString_def Binary_dumpString_def Let_def Binary_dump16bitNumber_def js_at_def)

theorem Binary_string_cut_length_witness:
  "Binary_loadString (fst (Binary_dumpString (replicate 32768 97) None)) 0 = Inr ([], 1)"
  by (rule Binary_string_cut_length) (rule length_replicate)

text \<open>
  Loading a dumped map of string lists returns the map, entry by entry in the same
  order, and the offset behind it.
\<close>

theorem Binary_map_roundtrip:
  assumes "length m < 4294967296" and "distinct (map fst m)"
    and "\<forall>kv \<in> set m. string_ok (fst kv) \<and> list_ok (snd kv)"
  shows "Binary_loadStringListMap (pre @ fst (Binary_dumpStringListMap m report) @ post) (length pre)
    = Inr (m, length pre + length (fst (Binary_dumpStringListMap m report)))"
  using strmap.load_dump [of m pre post] assms by (simp add: fst_dumpStringListMap map_ok_def)

theorem Binary_map_roundtrip_witness:
  "Binary_loadStringListMap ([] @ fst (Binary_dumpStringListMap [([107], [[118], []])] None) @ []) 0
    = Inr ([([107], [[118], []])], length (fst (Binary_dumpStringListMap [([107], [[118], []])] None)))"
  using Binary_map_roundtrip [of "[([107], [[118], []])]" "[]" None "[]"]
  by (simp add: string_ok_def list_ok_def)

text \<open>
  C23.  The block compression of number lists (runs of zeros, bitmap blocks, literal blocks)
  always succeeds, and loading it returns the numbers modulo \<^verbatim>\<open>2^32\<close> and the offset behind them.
\<close>

theorem Binary_numbers_roundtrip:
  assumes "length xs < 4294967296"
  shows "\<exists>d report'. Binary_dump32bitNumberList xs report = Inr (d, report') \<and>
    Binary_load32bitNumberList (pre @ d @ post) (length pre)
      = Inr (map (\<lambda>x. nat (x mod 4294967296)) xs, length pre + length d)"
  using dump32bitNumberList_returns [of xs report] numbers.load_dump [OF assms, of pre post]
  by (auto simp: word32_def [abs_def])

theorem Binary_numbers_roundtrip_witness:
  "\<exists>d report'. Binary_dump32bitNumberList [0, 0, - 1, 5] None = Inr (d, report') \<and>
    Binary_load32bitNumberList ([8] @ d @ []) 1 = Inr ([0, 0, 4294967295, 5], 1 + length d)"
  using Binary_numbers_roundtrip [of "[0, 0, - 1, 5]" None "[8]" "[]"] by simp

text \<open>
  C24.  Decoding the base64 text of any string of 16-bit codes returns the string.
\<close>

theorem Binary_base64_roundtrip:
  assumes "\<forall>c \<in> set s. c < 65536"
  shows "Binary_base64decode (Binary_base64encode s) = s"
  using decode_encode [OF split_codes_bytes [OF assms], of "[]" "[]"] merge_split [OF assms]
  by (simp add: Binary_base64decode_def Binary_base64encode_def)

theorem Binary_base64_roundtrip_witness:
  "Binary_base64decode (Binary_base64encode [0, 1, 65535, 12354]) = [0, 1, 65535, 12354]"
  using Binary_base64_roundtrip [of "[0, 1, 65535, 12354]"] by simp

end
