(* ===== verification/Index_Storage.thy ===== *)
theory Index_Storage
  imports FM_Index Binary_Util
begin

text \<open>
  Storing an index: \<^verbatim>\<open>dump\<close> and \<^verbatim>\<open>load\<close> of \<^verbatim>\<open>BitVector\<close>, \<^verbatim>\<open>WaveletMatrix\<close> and \<^verbatim>\<open>FMIndex\<close>.  A word of a bit
  vector is a signed number while the vector is written and an unsigned one after it is loaded;
  the dump is the same.  The dumpers with and without a compression report are one definition with
  an optional report.

  The bit vector and the wavelet matrix are codecs: loading into a fresh object rebuilds the
  dumped one.  An index loaded into a fresh object answers every search like the original, and
  also finds keywords that end in the largest character, since \<^verbatim>\<open>load\<close> caches the counts for all
  codes of the bit width.
\<close>

section \<open>Stored bit vectors\<close>

definition BitVector_dump :: "BitVector \<Rightarrow> CompressionReport option \<Rightarrow> (jsstring \<times> CompressionReport option) js" where
  "BitVector_dump bv report =
    js_bind (Binary_dump32bitNumberList (map sint (bv_v bv)) (report_add report 2 2)) (\<lambda>(d, report).
      Inr (Binary_dump32bitNumber (int (bv_size bv)) @ d, report))"

definition BitVector_load :: "jsstring \<Rightarrow> nat \<Rightarrow> (BitVector \<times> nat) js" where
  "BitVector_load data offset =
    js_bind (Binary_load32bitNumber data offset) (\<lambda>size.
    js_bind (Binary_load32bitNumberList data (offset + 2)) (\<lambda>(v, offset).
      Inr (BitVector_build \<lparr>bv_v = map of_nat v, bv_r = [], bv_size = size, bv_size1 = 0\<rparr>, offset)))"

section \<open>Stored wavelet matrices\<close>

fun dump_vectors :: "BitVector list \<Rightarrow> CompressionReport option \<Rightarrow> (jsstring \<times> CompressionReport option) js" where
  "dump_vectors [] report = Inr ([], report)"
| "dump_vectors (bv # bvs) report =
    js_bind (BitVector_dump bv report) (\<lambda>(d, report).
    js_bind (dump_vectors bvs report) (\<lambda>(ds, report). Inr (d @ ds, report)))"

definition dump_range :: "nat jsobj \<Rightarrow> jsstring" where
  "dump_range rng = Binary_dump32bitNumber (int (length rng))
    @ concat (map (\<lambda>(k, v). Binary_dump32bitNumber (int k) @ Binary_dump32bitNumber (int v)) rng)"

definition WaveletMatrix_dump :: "WaveletMatrix \<Rightarrow> CompressionReport option \<Rightarrow> (jsstring \<times> CompressionReport option) js" where
  "WaveletMatrix_dump wm report =
    (if length (wm_bv wm) < wm_bitsize wm \<or> length (wm_seps wm) < wm_bitsize wm then Inl Undef
     else js_bind (dump_vectors (take (wm_bitsize wm) (wm_bv wm)) (report_add report 3 3)) (\<lambda>(ds, report).
      Inr (Binary_dump16bitNumber (wm_bitsize wm) @ Binary_dump32bitNumber (int (wm_size wm)) @ ds
           @ concat (map (\<lambda>x. Binary_dump32bitNumber (int x)) (take (wm_bitsize wm) (wm_seps wm)))
           @ dump_range (wm_range wm),
           report_add report (2 * wm_bitsize wm + 4 * length (wm_range wm) + 2)
             (2 * wm_bitsize wm + 4 * length (wm_range wm) + 2))))"

definition load_pair :: "jsstring \<Rightarrow> nat \<Rightarrow> ((nat \<times> nat) \<times> nat) js" where
  "load_pair data offset =
    js_bind (Binary_load32bitNumber data offset) (\<lambda>k.
    js_bind (Binary_load32bitNumber data (offset + 2)) (\<lambda>v. Inr ((k, v), offset + 4)))"

definition WaveletMatrix_load :: "WaveletMatrix \<Rightarrow> jsstring \<Rightarrow> nat \<Rightarrow> (WaveletMatrix \<times> nat) js" where
  "WaveletMatrix_load wm data offset =
    (let bitsize = js_at0 data offset in
     js_bind (Binary_load32bitNumber data (offset + 1)) (\<lambda>size.
     js_bind (load_seq BitVector_load data (offset + 3) bitsize) (\<lambda>(bvs, offset).
     js_bind (load_seq load_number data offset bitsize) (\<lambda>(seps, offset).
     js_bind (Binary_load32bitNumber data offset) (\<lambda>range_size.
     js_bind (load_seq load_pair data (offset + 2) range_size) (\<lambda>(kvs, offset).
       Inr (\<lparr>wm_range = foldl (\<lambda>rng kv. obj_set (fst kv) (snd kv) rng) (wm_range wm) kvs,
             wm_bv = bvs, wm_seps = seps, wm_bitsize = bitsize, wm_size = size\<rparr>, offset)))))))"

section \<open>Stored indexes\<close>

definition FMIndex_dump :: "FMIndex \<Rightarrow> jsstring js" where
  "FMIndex_dump fm =
    js_bind (WaveletMatrix_dump (fm_sv fm) (Some (CompressionReport_add CompressionReport_new 6 6))) (\<lambda>(d, report).
      Inr (Binary_dump32bitNumber (int (fm_ddic fm)) @ Binary_dump32bitNumber (int (fm_ssize fm))
           @ Binary_dump32bitNumber (int (fm_head fm)) @ d
           @ Binary_dump32bitNumber (int (length (fm_posdic fm)))
           @ concat (map (\<lambda>x. Binary_dump32bitNumber (int x)) (fm_posdic fm))
           @ concat (map (\<lambda>x. Binary_dump32bitNumber (int x)) (fm_idic fm))))"

definition FMIndex_load :: "FMIndex \<Rightarrow> jsstring \<Rightarrow> nat \<Rightarrow> (FMIndex \<times> nat) js" where
  "FMIndex_load fm data offset =
    js_bind (Binary_load32bitNumber data offset) (\<lambda>ddic.
    js_bind (Binary_load32bitNumber data (offset + 2)) (\<lambda>ssize.
    js_bind (Binary_load32bitNumber data (offset + 4)) (\<lambda>head.
    js_bind (WaveletMatrix_load (fm_sv fm) data (offset + 6)) (\<lambda>(sv, offset).
    js_bind (build_rlt sv (2 ^ wm_bitsize sv) (fm_rlt fm)) (\<lambda>rlt.
    js_bind (Binary_load32bitNumber data offset) (\<lambda>size.
    js_bind (load_seq load_number data (offset + 2) size) (\<lambda>(posdic, offset).
    js_bind (load_seq load_number data offset size) (\<lambda>(idic, offset).
      Inr (fm\<lparr>fm_ddic := ddic, fm_ssize := ssize, fm_head := head, fm_sv := sv, fm_rlt := rlt,
             fm_posdic := fm_posdic fm @ posdic, fm_idic := fm_idic fm @ idic\<rparr>, offset)))))))))"

subsection \<open>Bit vectors\<close>

lemma word32_sint: "word32 (sint (w :: 32 word)) = unat w"
proof -
  have "sint w mod 4294967296 = uint w"
    using uint_sint [of w] by (simp add: take_bit_eq_mod)
  then show ?thesis by (simp add: word32_def)
qed

lemma reload_words: "map of_nat (map word32 (map sint v)) = (v :: 32 word list)"
  by (simp add: word32_sint o_def map_idI)

definition stored_vector :: "BitVector \<Rightarrow> bool" where
  "stored_vector bv \<longleftrightarrow> built bv \<and> bv_size bv < 4294967296 \<and> length (bv_v bv) < 4294967296"

definition vector_dump :: "BitVector \<Rightarrow> jsstring" where
  "vector_dump bv = Binary_dump32bitNumber (int (bv_size bv)) @ numbers_dump (map sint (bv_v bv))"

lemma BitVector_dump_returns: "\<exists>r'. BitVector_dump bv r = Inr (vector_dump bv, r')"
  using dump32bitNumberList_returns [of "map sint (bv_v bv)" "report_add r 2 2"]
  by (auto simp: BitVector_dump_def vector_dump_def)

lemma rebuild:
  assumes "built bv"
  shows "BitVector_build \<lparr>bv_v = bv_v bv, bv_r = [], bv_size = bv_size bv, bv_size1 = 0\<rparr> = bv"
proof -
  let ?b = "\<lparr>bv_v = bv_v bv, bv_r = [], bv_size = bv_size bv, bv_size1 = 0\<rparr>"
  have "bv_inv ?b" using assms by (simp add: built_def bv_inv_def)
  then have "built (BitVector_build ?b)" by (intro BitVector_build_spec(1)) simp_all
  moreover have "bv_v (BitVector_build ?b) = bv_v bv" "bv_size (BitVector_build ?b) = bv_size bv"
    by (simp_all add: BitVector_build_def split_beta)
  ultimately show ?thesis using assms by (intro BitVector.equality) (simp_all add: built_def)
qed

interpretation vector: codec stored_vector vector_dump "\<lambda>bv. bv" BitVector_load
proof
  fix bv pre post assume ok: "stored_vector bv"
  let ?d = "Binary_dump32bitNumber (int (bv_size bv))" and ?v = "map sint (bv_v bv)"
  have "Binary_load32bitNumberList ((pre @ ?d) @ numbers_dump ?v @ post) (length (pre @ ?d))
      = Inr (map word32 ?v, length (pre @ ?d) + length (numbers_dump ?v))"
    using ok by (intro numbers.load_dump) (simp add: stored_vector_def)
  then show "BitVector_load (pre @ vector_dump bv @ post) (length pre) = Inr (bv, length pre + length (vector_dump bv))"
    using ok rebuild [of bv] reload_words [of "bv_v bv"]
    by (simp add: BitVector_load_def vector_dump_def word32_of_nat stored_vector_def del: map_map)
qed

subsection \<open>Wavelet matrices\<close>

lemma dump_vectors_returns: "\<exists>r'. dump_vectors bvs r = Inr (concat (map vector_dump bvs), r')"
proof (induction bvs arbitrary: r)
  case (Cons bv bvs)
  obtain r1 where "BitVector_dump bv r = Inr (vector_dump bv, r1)" using BitVector_dump_returns by blast
  moreover obtain r2 where "dump_vectors bvs r1 = Inr (concat (map vector_dump bvs), r2)" using Cons by blast
  ultimately show ?case by simp
qed simp

abbreviation nat_dump :: "nat \<Rightarrow> jsstring" where
  "nat_dump x \<equiv> Binary_dump32bitNumber (int x)"

interpretation natural: codec "\<lambda>x. x < 4294967296" nat_dump "\<lambda>x. x" load_number
  by unfold_locales (simp add: word32_of_nat)

definition pair_dump :: "nat \<times> nat \<Rightarrow> jsstring" where
  "pair_dump kv = nat_dump (fst kv) @ nat_dump (snd kv)"

interpretation pair: codec "\<lambda>kv. fst kv < 4294967296 \<and> snd kv < 4294967296" pair_dump "\<lambda>kv. kv" load_pair
proof
  fix kv :: "nat \<times> nat" and pre post assume ok: "fst kv < 4294967296 \<and> snd kv < 4294967296"
  show "load_pair (pre @ pair_dump kv @ post) (length pre) = Inr (kv, length pre + length (pair_dump kv))"
    using load32_dump [of "pre @ nat_dump (fst kv)" "int (snd kv)" post] ok
    by (simp add: load_pair_def pair_dump_def word32_of_nat)
qed

definition stored_matrix :: "WaveletMatrix \<Rightarrow> bool" where
  "stored_matrix wm \<longleftrightarrow> wm_bitsize wm < 65536 \<and> wm_size wm < 4294967296
    \<and> length (wm_bv wm) = wm_bitsize wm \<and> length (wm_seps wm) = wm_bitsize wm
    \<and> (\<forall>bv \<in> set (wm_bv wm). stored_vector bv) \<and> (\<forall>x \<in> set (wm_seps wm). x < 4294967296)
    \<and> obj_ok (wm_range wm) \<and> length (wm_range wm) < 4294967296
    \<and> (\<forall>kv \<in> set (wm_range wm). fst kv < 4294967296 \<and> snd kv < 4294967296)"

definition matrix_dump :: "WaveletMatrix \<Rightarrow> jsstring" where
  "matrix_dump wm = [wm_bitsize wm mod 65536] @ nat_dump (wm_size wm) @ concat (map vector_dump (wm_bv wm))
    @ concat (map nat_dump (wm_seps wm)) @ nat_dump (length (wm_range wm)) @ concat (map pair_dump (wm_range wm))"

lemma WaveletMatrix_dump_returns:
  assumes "stored_matrix wm"
  shows "\<exists>r'. WaveletMatrix_dump wm r = Inr (matrix_dump wm, r')"
proof -
  obtain r1 where "dump_vectors (wm_bv wm) (report_add r 3 3) = Inr (concat (map vector_dump (wm_bv wm)), r1)"
    using dump_vectors_returns by blast
  then show ?thesis
    using assms by (simp add: WaveletMatrix_dump_def matrix_dump_def stored_matrix_def dump_range_def
        pair_dump_def [abs_def] case_prod_unfold Binary_dump16bitNumber_def)
qed

lemma obj_set_append: "obj_ok (m @ [(k, v)]) \<Longrightarrow> obj_set k v m = m @ [(k, v)]"
  by (induction k v m rule: obj_set.induct) (auto simp: obj_ok_def)

lemma foldl_obj_set_append:
  "obj_ok (acc @ m) \<Longrightarrow> foldl (\<lambda>rng kv. obj_set (fst kv) (snd kv) rng) acc m = acc @ m"
proof (induction m arbitrary: acc)
  case (Cons kv m)
  have "obj_ok (acc @ [kv])" using Cons.prems by (auto simp: obj_ok_def sorted_wrt_append)
  then show ?case using Cons.IH [of "acc @ [kv]"] Cons.prems obj_set_append [of acc "fst kv" "snd kv"] by simp
qed simp

interpretation matrix: codec stored_matrix matrix_dump "\<lambda>wm. wm" "WaveletMatrix_load WaveletMatrix_new"
proof
  fix wm pre post assume ok: "stored_matrix wm"
  let ?B = "wm_bitsize wm"
  let ?p1 = "pre @ [?B]" let ?p2 = "?p1 @ nat_dump (wm_size wm)"
  let ?d2 = "concat (map vector_dump (wm_bv wm))" let ?p3 = "?p2 @ ?d2"
  let ?d3 = "concat (map nat_dump (wm_seps wm))" let ?p4 = "?p3 @ ?d3"
  let ?p5 = "?p4 @ nat_dump (length (wm_range wm))" let ?d5 = "concat (map pair_dump (wm_range wm))"
  let ?data = "pre @ matrix_dump wm @ post"
  have B: "?B mod 65536 = ?B" using ok by (simp add: stored_matrix_def)
  have data: "?data = ?p1 @ nat_dump (wm_size wm) @ ?d2 @ ?d3 @ nat_dump (length (wm_range wm)) @ ?d5 @ post"
    "?data = ?p2 @ ?d2 @ ?d3 @ nat_dump (length (wm_range wm)) @ ?d5 @ post"
    "?data = ?p3 @ ?d3 @ nat_dump (length (wm_range wm)) @ ?d5 @ post"
    "?data = ?p4 @ nat_dump (length (wm_range wm)) @ ?d5 @ post" "?data = ?p5 @ ?d5 @ post"
    by (simp_all add: matrix_dump_def B)
  have 1: "js_at0 ?data (length pre) = ?B" by (simp add: matrix_dump_def B)
  have 2: "Binary_load32bitNumber ?data (length ?p1) = Inr (wm_size wm)"
    unfolding data(1) using ok by (simp only: load32_dump) (simp add: word32_of_nat stored_matrix_def)
  have 3: "load_seq BitVector_load ?data (length ?p2) ?B = Inr (wm_bv wm, length ?p3)"
    using vector.load_seq_dump [of "wm_bv wm" ?p2] ok unfolding data(2) by (simp add: stored_matrix_def)
  have 4: "load_seq load_number ?data (length ?p3) ?B = Inr (wm_seps wm, length ?p4)"
    using natural.load_seq_dump [of "wm_seps wm" ?p3] ok unfolding data(3) by (simp add: stored_matrix_def)
  have 5: "Binary_load32bitNumber ?data (length ?p4) = Inr (length (wm_range wm))"
    unfolding data(4) using ok by (simp only: load32_dump) (simp add: word32_of_nat stored_matrix_def)
  have 6: "load_seq load_pair ?data (length ?p5) (length (wm_range wm)) = Inr (wm_range wm, length ?p5 + length ?d5)"
    using pair.load_seq_dump [of "wm_range wm" ?p5] ok unfolding data(5) by (simp add: stored_matrix_def)
  have 7: "foldl (\<lambda>rng kv. obj_set (fst kv) (snd kv) rng) [] (wm_range wm) = wm_range wm"
    using foldl_obj_set_append [of "[]" "wm_range wm"] ok by (simp add: stored_matrix_def)
  have len: "length ?p1 = length pre + 1" "length ?p2 = length pre + 3" "length ?p5 = length ?p4 + 2"
    "length pre + length (matrix_dump wm) = length ?p5 + length ?d5" by (simp_all add: matrix_dump_def)
  show "WaveletMatrix_load WaveletMatrix_new ?data (length pre) = Inr (wm, length pre + length (matrix_dump wm))"
    unfolding WaveletMatrix_load_def Let_def 1 len(4)
    by (simp only: 2 [unfolded len] 3 [unfolded len] 4 5 6 [unfolded len(3)] 7 js_bind_simps prod.case
        len(3) WaveletMatrix_new_def WaveletMatrix.select_convs) simp
qed

subsection \<open>Indexes\<close>

lemma wm_repr_stored:
  assumes wm: "wm_repr wm v" and B: "wm_bitsize wm < 32" and n: "length v < 4294967264"
  shows "stored_matrix wm"
proof -
  let ?B = "wm_bitsize wm"
  have lv: "wm_levels ?B v ?B wm" and ok: "obj_ok (wm_range wm)" using wm by (simp_all add: wm_repr_def Let_def)
  have "stored_vector bv" if mem: "bv \<in> set (wm_bv wm)" for bv
  proof -
    obtain d where "d < ?B" "bv = wm_bv wm ! d" using mem lv by (auto simp: in_set_conv_nth wm_levels_def)
    then have "level_vector ?B v d bv" using wm_repr_vector(2) [OF wm] by simp
    moreover from this have "bv_size bv = length v" by (rule level_vector_size)
    ultimately show ?thesis using n by (simp add: stored_vector_def level_vector_def built_def bv_inv_def)
  qed
  moreover have "x < 4294967296" if mem: "x \<in> set (wm_seps wm)" for x
  proof -
    obtain d where "d < ?B" "x = wm_seps wm ! d" using mem lv by (auto simp: in_set_conv_nth wm_levels_def)
    then have "x \<le> length (level ?B v d)" using wm_repr_vector(3) [OF wm] by (simp only: length_filter_le)
    then show ?thesis using n by simp
  qed
  moreover have pow: "(2::nat) ^ ?B < 4294967296"
    using power_strict_increasing [OF B, of "2 :: nat"] by simp
  moreover have kv: "fst kv < 2 ^ ?B \<and> snd kv < 4294967296" if "kv \<in> set (wm_range wm)" for kv
  proof -
    have "obj_get (wm_range wm) (fst kv) = Some (snd kv)" using obj_ok_mem [OF ok] that by (metis prod.collapse)
    then have "fst kv < 2 ^ ?B" "snd kv = spos ?B v (fst kv) ?B" using wm_repr_range(2) [OF wm] by blast+
    then show ?thesis using spos_window(2) [OF wm_repr_codes [OF wm], of "fst kv" ?B 0] n by simp
  qed
  moreover have "length (wm_range wm) < 4294967296"
  proof -
    have "card (fst ` set (wm_range wm)) \<le> card {..<(2::nat) ^ ?B}" using kv by (intro card_mono) auto
    moreover have "card (fst ` set (wm_range wm)) = length (wm_range wm)"
      using obj_ok_distinct [OF ok] by (metis distinct_card length_map set_map)
    ultimately show ?thesis using pow by simp
  qed
  ultimately show ?thesis
    using lv ok B n by (fastforce simp: stored_matrix_def wm_levels_def)
qed

theorem FMIndex_load_spec:
  fixes pre post :: jsstring
  assumes fm: "fm_core fm s sa M" and dic: "dict_from fm s sa 0" and B: "wm_bitsize (fm_sv fm) < 32"
    and n: "length s < 4294967264" "fm_ssize fm = length s" "fm_ddic fm < 4294967296" "length (fm_idic fm) < 4294967296"
  shows "\<exists>d fm'. FMIndex_dump fm = Inr d \<and> FMIndex_load FMIndex_new (pre @ d @ post) (length pre) = Inr (fm', length pre + length d)
    \<and> fm_core fm' s sa (2 ^ wm_bitsize (fm_sv fm)) \<and> dict_from fm' s sa 0 \<and> fm_ddic fm' = fm_ddic fm"
proof -
  let ?sv = "fm_sv fm" and ?dd = "nat_dump (fm_ddic fm)" and ?ds = "nat_dump (fm_ssize fm)" and ?dh = "nat_dump (fm_head fm)"
  let ?dm = "matrix_dump ?sv" and ?dl = "nat_dump (length (fm_posdic fm))"
  let ?dp = "concat (map nat_dump (fm_posdic fm))" and ?di = "concat (map nat_dump (fm_idic fm))"
  define d where "d = ?dd @ ?ds @ ?dh @ ?dm @ ?dl @ ?dp @ ?di"
  let ?p1 = "pre @ ?dd" let ?p2 = "?p1 @ ?ds" let ?p3 = "?p2 @ ?dh" let ?p4 = "?p3 @ ?dm" let ?p5 = "?p4 @ ?dl" let ?p6 = "?p5 @ ?dp"
  let ?data = "pre @ d @ post"
  have len: "length (bwt_of s sa) = length s" by (simp add: fm_coreD(8) [OF fm])
  have stored: "stored_matrix ?sv" using wm_repr_stored [OF fm_coreD(3) [OF fm] B] n(1) len by simp
  have eq: "length (fm_posdic fm) = length (fm_idic fm)" and small: "\<forall>x \<in> set (fm_posdic fm). x < length s" "\<forall>x \<in> set (fm_idic fm). x < length s"
    using dic unfolding dict_from_def by blast+
  have bounds: "\<forall>x \<in> set (fm_posdic fm). x < 4294967296" "\<forall>x \<in> set (fm_idic fm). x < 4294967296" "fm_head fm < 4294967296"
    using small n(1) fm_coreD(6) [OF fm] by force+
  have data: "?data = ?p1 @ ?ds @ ?dh @ ?dm @ ?dl @ ?dp @ ?di @ post" "?data = ?p2 @ ?dh @ ?dm @ ?dl @ ?dp @ ?di @ post"
    "?data = ?p3 @ ?dm @ ?dl @ ?dp @ ?di @ post" "?data = ?p4 @ ?dl @ ?dp @ ?di @ post" "?data = ?p5 @ ?dp @ ?di @ post"
    "?data = ?p6 @ ?di @ post" "?data = pre @ ?dd @ ?ds @ ?dh @ ?dm @ ?dl @ ?dp @ ?di @ post" by (simp_all add: d_def)
  have 0: "Binary_load32bitNumber ?data (length pre) = Inr (fm_ddic fm)"
    unfolding data(7) using n by (simp only: load32_dump) (simp add: word32_of_nat)
  have 1: "Binary_load32bitNumber ?data (length ?p1) = Inr (fm_ssize fm)"
    unfolding data(1) using n by (simp only: load32_dump) (simp add: word32_of_nat)
  have 2: "Binary_load32bitNumber ?data (length ?p2) = Inr (fm_head fm)"
    unfolding data(2) using bounds by (simp only: load32_dump) (simp add: word32_of_nat)
  have 3: "WaveletMatrix_load (fm_sv FMIndex_new) ?data (length ?p3) = Inr (?sv, length ?p4)"
    using matrix.load_dump [OF stored, of ?p3] unfolding data(3) by (simp add: FMIndex_new_def)
  have 4: "Binary_load32bitNumber ?data (length ?p4) = Inr (length (fm_posdic fm))"
    unfolding data(4) using n eq by (simp only: load32_dump) (simp add: word32_of_nat)
  have 5: "load_seq load_number ?data (length ?p5) (length (fm_posdic fm)) = Inr (fm_posdic fm, length ?p6)"
    using natural.load_seq_dump [of "fm_posdic fm" ?p5] bounds unfolding data(5) by simp
  have 6: "load_seq load_number ?data (length ?p6) (length (fm_posdic fm)) = Inr (fm_idic fm, length pre + length d)"
    using natural.load_seq_dump [of "fm_idic fm" ?p6] bounds eq unfolding data(6) by (simp add: d_def)
  obtain rlt where rlt: "build_rlt ?sv (2 ^ wm_bitsize ?sv) (fm_rlt FMIndex_new) = Inr rlt"
    "\<forall>c < 2 ^ wm_bitsize ?sv. obj_get rlt c = Some (count_below s c)"
    using build_rlt_spec [OF fm_coreD(3) [OF fm] order_refl, of "fm_rlt FMIndex_new"] below_bwt_of [OF fm_coreD(1) [OF fm]] by auto
  define fm' where "fm' = FMIndex_new\<lparr>fm_ddic := fm_ddic fm, fm_ssize := fm_ssize fm, fm_head := fm_head fm, fm_sv := ?sv,
      fm_rlt := rlt, fm_posdic := fm_posdic fm, fm_idic := fm_idic fm\<rparr>"
  have len': "length ?p1 = length pre + 2" "length ?p2 = length pre + 4" "length ?p3 = length pre + 6" "length ?p5 = length ?p4 + 2"
    by simp_all
  have new: "fm_posdic FMIndex_new = []" "fm_idic FMIndex_new = []" by (simp_all add: FMIndex_new_def)
  have load: "FMIndex_load FMIndex_new ?data (length pre) = Inr (fm', length pre + length d)"
    unfolding FMIndex_load_def fm'_def
    by (simp only: 0 1 [unfolded len'] 2 [unfolded len'] 3 [unfolded len'(3)] rlt(1) 4 5 [unfolded len'(4)] 6 js_bind_simps prod.case new append_Nil)
  have dump: "FMIndex_dump fm = Inr d"
    using WaveletMatrix_dump_returns [OF stored, of "Some (CompressionReport_add CompressionReport_new 6 6)"]
    by (auto simp: FMIndex_dump_def d_def)
  have "\<forall>x \<in> set s. x < 2 ^ wm_bitsize ?sv"
    using wm.width_law [OF fm_coreD(3) [OF fm]] mset_bwt_of [OF fm_coreD(1) [OF fm]] by (metis set_mset_mset)
  then have "fm_core fm' s sa (2 ^ wm_bitsize ?sv)" using fm rlt(2) by (simp add: fm_core_def fm'_def)
  moreover have "dict_from fm' s sa 0" using dic by (simp add: dict_from_def fm'_def)
  moreover have "fm_ddic fm' = fm_ddic fm" by (simp add: fm'_def)
  ultimately show ?thesis using dump load by blast
qed

subsection \<open>What storing preserves\<close>

text \<open>
  Dumping a built bit vector and loading the dump, wherever it stands in the data, gives the
  same vector, directory included, and the offset behind the dump.
\<close>

theorem BitVector_dump_load:
  fixes before after :: jsstring
  assumes "length (foldl write_bit [] ws) < 4294967264"
  defines "bv \<equiv> BitVector_build (foldl (\<lambda>bv w. BitVector_set bv (int (fst w)) (snd w)) BitVector_new ws)"
  shows "\<exists>d report'. BitVector_dump bv report = Inr (d, report') \<and>
    BitVector_load (before @ d @ after) (length before) = Inr (bv, length before + length d)"
proof -
  have built: "built bv" unfolding bv_def by (rule built_set_all)
  have "bv_size bv = length (foldl write_bit [] ws)"
    using built_set_all [of ws] length_bits_of [of bv] by (simp add: built_def bv_def)
  then have "stored_vector bv" using built assms(1) by (simp add: stored_vector_def built_def bv_inv_def)
  then show ?thesis
    using BitVector_dump_returns [of bv report] vector.load_dump [of bv before after] by auto
qed

theorem BitVector_dump_load_witness:
  "\<exists>d report'. BitVector_dump (BitVector_build (foldl (\<lambda>bv w. BitVector_set bv (int (fst w)) (snd w)) BitVector_new
        [(3, True), (1, True)])) None = Inr (d, report') \<and>
    BitVector_load ([1, 2] @ d @ []) (length [1, 2 :: nat]) = Inr (BitVector_build (foldl (\<lambda>bv w. BitVector_set bv (int (fst w)) (snd w))
        BitVector_new [(3, True), (1, True)]), length [1, 2 :: nat] + length d)"
  by (rule BitVector_dump_load) (simp only: write_bit_example, simp)

lemma ceil_log2_16: "2 \<le> m \<Longrightarrow> m \<le> 65536 \<Longrightarrow> ceil_log2 m \<le> 16"
proof -
  assume m: "2 \<le> m" "m \<le> 65536"
  then have "(2::nat) ^ (ceil_log2 m - 1) < 2 ^ 16" using ceil_log2_lower [of m] by simp
  then have "ceil_log2 m - 1 < 16" by (rule power_less_imp_less_exp [rotated]) simp
  then show ?thesis by simp
qed

text \<open>
  A wavelet matrix built from codes below a 16-bit maximum survives dumping and loading into a
  fresh matrix unchanged.
\<close>

theorem WaveletMatrix_dump_load:
  fixes before after :: jsstring
  assumes "2 \<le> m" and "m \<le> 65536" and "\<forall>c \<in> set v. c < m" and "length v < 4294967264"
  shows "\<exists>wm d report'. WaveletMatrix_build (WaveletMatrix_setMaxCharCode WaveletMatrix_new m) v = Inr wm \<and>
    WaveletMatrix_dump wm report = Inr (d, report') \<and>
    WaveletMatrix_load WaveletMatrix_new (before @ d @ after) (length before) = Inr (wm, length before + length d)"
proof -
  obtain wm where wm: "WaveletMatrix_build (WaveletMatrix_setMaxCharCode WaveletMatrix_new m) v = Inr wm"
    "wm_repr wm v" "wm_bitsize wm = ceil_log2 m" using fresh_matrix [OF assms(1,3)] by metis
  have "stored_matrix wm" using wm_repr_stored [OF wm(2)] wm(3) ceil_log2_16 [OF assms(1,2)] assms(4) by simp
  then show ?thesis
    using wm(1) WaveletMatrix_dump_returns [of wm report] matrix.load_dump [of wm before after] by blast
qed

theorem WaveletMatrix_dump_load_witness:
  "\<exists>wm d report'. WaveletMatrix_build (WaveletMatrix_setMaxCharCode WaveletMatrix_new 6) [5, 0, 3, 5] = Inr wm \<and>
    WaveletMatrix_dump wm None = Inr (d, report') \<and>
    WaveletMatrix_load WaveletMatrix_new ([7] @ d @ []) (length [7 :: nat]) = Inr (wm, length [7 :: nat] + length d)"
  by (rule WaveletMatrix_dump_load) simp_all

text \<open>
  An index that was dumped and loaded into a fresh object finds exactly the occurrences of a
  keyword, like the original; its counts reach up to the bit width, so keywords that end in the
  largest character of the original are found too.
\<close>

theorem FMIndex_dump_load_search:
  assumes "index_input docs e M d" and "M \<le> 65536" and "length (concat docs) < 4294967263" and "d < 4294967296"
    and "key \<noteq> []" and "\<forall>c \<in> set key. e < c \<and> c < 2 ^ ceil_log2 M" and "last key + 1 < 2 ^ ceil_log2 M"
  shows "\<exists>ps. js_bind (indexed docs e M d) (\<lambda>fm. js_bind (FMIndex_dump fm) (\<lambda>data.
      js_bind (FMIndex_load FMIndex_new data 0) (\<lambda>(fm', offset). FMIndex_search fm' key))) = Inr ps \<and> distinct ps \<and>
    set ps = {p. p + length key \<le> length (concat docs) \<and> take (length key) (drop p (concat docs)) = key}"
proof -
  let ?s = "concat docs @ [e]"
  obtain fm sa where fm: "indexed docs e M d = Inr fm" "fm_core fm ?s sa M" "dict_from fm ?s sa 0" "fm_ddic fm = d"
    "length (fm_idic fm) = (length ?s + d - 1) div d + 1" "fm_ssize fm = length ?s" "wm_bitsize (fm_sv fm) = ceil_log2 M"
    using indexed_spec [OF assms(1)] by metis
  have d: "0 < d" using assms(1) by (simp add: index_input_def)
  have "e < M" using fm_coreD(4) [OF fm(2), of e] by simp
  have "ceil_log2 M \<le> 16"
  proof (cases "2 \<le> M")
    case False
    then show ?thesis by (simp add: ceil_log2.simps [of M])
  qed (use ceil_log2_16 assms(2) in blast)
  moreover have "(length ?s + d - 1) div d \<le> length ?s"
  proof -
    have "length ?s + d - 1 < (length ?s + 1) * d" using d by (cases d) simp_all
    then have "(length ?s + d - 1) div d < length ?s + 1" by (rule less_mult_imp_div_less)
    then show ?thesis by (simp only: Suc_eq_plus1 [symmetric] less_Suc_eq_le)
  qed
  ultimately obtain data fm' where fm': "FMIndex_dump fm = Inr data" "FMIndex_load FMIndex_new data 0 = Inr (fm', length data)"
    "fm_core fm' ?s sa (2 ^ ceil_log2 M)" "dict_from fm' ?s sa 0"
    using FMIndex_load_spec [OF fm(2,3), of "[]" "[]"] fm(4-7) assms(3,4) by fastforce
  have "keyword_ok ?s (2 ^ ceil_log2 M) key" using assms(5-7) by (auto simp: keyword_ok_def)
  then have search: "FMIndex_search fm' key = Inr [j \<leftarrow> sa. starts_with key (drop j ?s)]"
    by (rule FMIndex_search_spec [OF fm'(3) dict_from_0(1) [OF fm'(4)]])
  have e: "e \<notin> set key" using assms(6) by auto
  note occurrences_set [OF fm_coreD(1) [OF fm(2)] assms(5) e]
  then show ?thesis using fm(1) fm'(1,2) search fm_coreD(11) [OF fm(2)] by auto
qed

lemma ceil_log2_3: "ceil_log2 3 = 2"
  by (simp add: ceil_log2.simps)

theorem FMIndex_dump_load_search_witness:
  "\<exists>ps. js_bind (indexed [[1, 2], [1, 2]] 0 3 2) (\<lambda>fm. js_bind (FMIndex_dump fm) (\<lambda>data.
      js_bind (FMIndex_load FMIndex_new data 0) (\<lambda>(fm', offset). FMIndex_search fm' [1, 2]))) = Inr ps \<and> distinct ps \<and>
    set ps = {0, 2}"
  using FMIndex_dump_load_search [OF index_input_example_tight, of "[1, 2]"]
  unfolding occurrences_example ceil_log2_3 by simp

end
