(* ===== verification/Code_Table.thy ===== *)
theory Code_Table
  imports Index_Storage
begin

text \<open>
  The text side of the class \<^verbatim>\<open>Oktavia\<close>: the characters of the indexed text are renumbered densely
  before they go into the FM-index.  \<^verbatim>\<open>_compressCode2utf16\<close> lists the character of each code,
  \<^verbatim>\<open>_utf162compressCode\<close> is a sparse array with the code of each character.

  The record holds the fields that the metadata classes reach through \<^verbatim>\<open>_parent\<close>; the theory of
  the engine extends it.  The main lemmas: the two tables stay inverse to each other, so decoding
  inverts encoding, and encoding is injective on the characters of the text.
\<close>

section \<open>Tables and text\<close>

record OktaviaCore =
  ok_fmindex :: FMIndex
  ok_utf162compressCode :: "nat jsobj"
  ok_compressCode2utf16 :: "nat list"

definition Oktavia_eof :: nat where
  "Oktavia_eof = 0"

definition Oktavia_eob :: nat where
  "Oktavia_eob = 1"

definition Oktavia_unknown :: nat where
  "Oktavia_unknown = 3"

definition initial_codes :: "nat jsobj" where
  "initial_codes = [(0, Oktavia_eof), (1, Oktavia_eob), (2, Oktavia_unknown)]"

definition initial_chars :: "nat list" where
  "initial_chars = [Oktavia_eof, Oktavia_eob, Oktavia_unknown]"

definition OktaviaCore_new :: OktaviaCore where
  "OktaviaCore_new = \<lparr>ok_fmindex = FMIndex_new, ok_utf162compressCode = initial_codes, ok_compressCode2utf16 = initial_chars\<rparr>"

definition add_char :: "'a OktaviaCore_scheme \<times> jsstring \<Rightarrow> nat \<Rightarrow> 'a OktaviaCore_scheme \<times> jsstring" where
  "add_char = (\<lambda>(okt, str) charCode.
    case obj_get (ok_utf162compressCode okt) charCode of
      Some newCharCode \<Rightarrow> (okt, str @ [newCharCode])
    | None \<Rightarrow>
        (let newCharCode = length (ok_compressCode2utf16 okt) mod 65536
         in (okt\<lparr>ok_utf162compressCode := obj_set charCode newCharCode (ok_utf162compressCode okt),
                ok_compressCode2utf16 := ok_compressCode2utf16 okt @ [charCode]\<rparr>, str @ [newCharCode])))"

definition push_text :: "'a OktaviaCore_scheme \<Rightarrow> jsstring \<Rightarrow> 'a OktaviaCore_scheme js" where
  "push_text okt str = js_bind (FMIndex_push (ok_fmindex okt) str) (\<lambda>fm. Inr (okt\<lparr>ok_fmindex := fm\<rparr>))"

definition Oktavia_addWord :: "'a OktaviaCore_scheme \<Rightarrow> jsstring \<Rightarrow> 'a OktaviaCore_scheme js" where
  "Oktavia_addWord okt words =
    (let (okt, str) = foldl add_char (okt, []) words in push_text okt str)"

definition Oktavia_addEndOfBlock :: "'a OktaviaCore_scheme \<Rightarrow> 'a OktaviaCore_scheme js" where
  "Oktavia_addEndOfBlock okt = push_text okt [Oktavia_eob]"

definition Oktavia_convertToCompressionCode :: "'a OktaviaCore_scheme \<Rightarrow> jsstring \<Rightarrow> jsstring" where
  "Oktavia_convertToCompressionCode okt keyword =
    map (\<lambda>c. case obj_get (ok_utf162compressCode okt) c of None \<Rightarrow> Oktavia_unknown | Some chr \<Rightarrow> chr) keyword"

definition Oktavia_contentSize :: "'a OktaviaCore_scheme \<Rightarrow> nat" where
  "Oktavia_contentSize okt = FMIndex_contentSize (ok_fmindex okt)"

text \<open>A code without a character decodes to \<^verbatim>\<open>undefined\<close>, which \<^verbatim>\<open>join\<close> prints as the empty string.\<close>

definition decode :: "nat list \<Rightarrow> jsstring \<Rightarrow> jsstring" where
  "decode chars str = concat (map (\<lambda>c. if c < length chars then [chars ! c] else []) str)"

definition Oktavia_getSubstring :: "'a OktaviaCore_scheme \<Rightarrow> nat \<Rightarrow> nat \<Rightarrow> jsstring js" where
  "Oktavia_getSubstring okt position len =
    js_bind (FMIndex_getSubstring (ok_fmindex okt) position len) (\<lambda>result. Inr (decode (ok_compressCode2utf16 okt) result))"

text \<open>The character class \<^verbatim>\<open>\W\<close> is the complement of this one; the empty string matches neither it nor \<^verbatim>\<open>\s\<close>.\<close>

definition word_char :: "nat \<Rightarrow> bool" where
  "word_char c \<longleftrightarrow> 48 \<le> c \<and> c \<le> 57 \<or> 65 \<le> c \<and> c \<le> 90 \<or> c = 95 \<or> 97 \<le> c \<and> c \<le> 122"

definition Oktavia_wordPositionType :: "'a OktaviaCore_scheme \<Rightarrow> nat \<Rightarrow> nat js" where
  "Oktavia_wordPositionType okt position =
    (if position = 0 then Inr 4
     else js_bind (FMIndex_getSubstring (ok_fmindex okt) (position - 1) 1) (\<lambda>ahead.
       if \<exists>c \<in> set ahead. white_space c then Inr 2
       else if \<exists>c \<in> set ahead. \<not> word_char c then Inr 1
       else if [Oktavia_eob] = ahead then Inr 3
       else Inr 0))"

section \<open>The tables are inverse to each other\<close>

text \<open>
  The characters 0, 1 and 2 are reserved.  Every other character with a code has the code under
  which it is listed, and every code from 3 on has its character.
\<close>

definition tables_ok :: "nat jsobj \<Rightarrow> nat list \<Rightarrow> bool" where
  "tables_ok codes chars \<longleftrightarrow> obj_ok codes \<and> (\<exists>rest. chars = initial_chars @ rest \<and> distinct rest \<and> (\<forall>c \<in> set rest. 3 \<le> c \<and> c < 65536)
    \<and> length chars \<le> 65536
    \<and> (\<forall>c k. 3 \<le> c \<longrightarrow> (obj_get codes c = Some k \<longleftrightarrow> 3 \<le> k \<and> k < length chars \<and> chars ! k = c))
    \<and> (\<forall>c < 3. obj_get codes c = obj_get initial_codes c))"

abbreviation core_ok :: "'a OktaviaCore_scheme \<Rightarrow> bool" where
  "core_ok okt \<equiv> tables_ok (ok_utf162compressCode okt) (ok_compressCode2utf16 okt)"

lemma obj_ok_initial: "obj_ok initial_codes"
  by (simp add: obj_ok_def initial_codes_def)

lemma tables_ok_initial: "tables_ok initial_codes initial_chars"
proof -
  have "obj_get initial_codes c \<noteq> Some k" if "3 \<le> c" for c k
    using that by (auto simp: initial_codes_def obj_get_def)
  then show ?thesis using obj_ok_initial
    unfolding tables_ok_def by (intro conjI exI [of _ "[]"]) (auto simp: initial_chars_def less_Suc_eq numeral_3_eq_3)
qed

text \<open>At most 65533 different characters from 3 to 65535 fit, so the code never wraps.\<close>

lemma tables_room:
  assumes "tables_ok codes chars" "obj_get codes c = None" "3 \<le> c" "c < 65536"
  shows "length chars < 65536"
proof -
  obtain rest where rest: "chars = initial_chars @ rest" "distinct rest" "\<forall>c \<in> set rest. 3 \<le> c \<and> c < 65536"
    "\<And>k. obj_get codes c = Some k \<longleftrightarrow> 3 \<le> k \<and> k < length chars \<and> chars ! k = c"
    using assms(1,3) by (auto simp: tables_ok_def)
  have "c \<notin> set rest"
  proof
    assume "c \<in> set rest"
    then obtain i where "i < length rest" "rest ! i = c" by (auto simp: in_set_conv_nth)
    then have "chars ! (i + 3) = c" "i + 3 < length chars" by (simp_all add: rest(1) initial_chars_def)
    then show False using rest(4) [of "i + 3"] assms(2) by simp
  qed
  then have "set rest \<subseteq> {3..<65536} - {c}" using rest(3) by auto
  then have "card (set rest) \<le> card ({3..<65536::nat} - {c})" by (intro card_mono) auto
  also have "\<dots> = 65532" using assms(3,4) by simp
  finally show ?thesis using distinct_card [OF rest(2)] by (simp add: rest(1) initial_chars_def)
qed

lemma tables_extend:
  assumes ok: "tables_ok codes chars" and c: "obj_get codes c = None" "c < 65536"
  shows "tables_ok (obj_set c (length chars) codes) (chars @ [c])" and "length chars < 65536" and "3 \<le> c"
proof -
  obtain rest where rest: "obj_ok codes" "chars = initial_chars @ rest" "distinct rest" "\<forall>c \<in> set rest. 3 \<le> c \<and> c < 65536"
    "\<And>c k. 3 \<le> c \<Longrightarrow> obj_get codes c = Some k \<longleftrightarrow> 3 \<le> k \<and> k < length chars \<and> chars ! k = c"
    "\<forall>c < 3. obj_get codes c = obj_get initial_codes c"
    using ok by (auto simp: tables_ok_def)
  show c3: "3 \<le> c"
  proof (rule ccontr)
    assume "\<not> 3 \<le> c"
    then have "c = 0 \<or> c = 1 \<or> c = 2" by auto
    then show False using c(1) rest(6) by (auto simp: initial_codes_def obj_get_def)
  qed
  show room: "length chars < 65536" by (rule tables_room [OF ok c(1) c3 c(2)])
  have len: "length chars = length rest + 3" by (simp add: rest(2) initial_chars_def)
  have new: "c \<notin> set rest"
  proof
    assume "c \<in> set rest"
    then obtain i where "i < length rest" "rest ! i = c" by (auto simp: in_set_conv_nth)
    then have "chars ! (i + 3) = c" "i + 3 < length chars" by (simp_all add: rest(2) initial_chars_def)
    then show False using rest(5) [OF c3, of "i + 3"] c(1) by simp
  qed
  have "obj_get (obj_set c (length chars) codes) a = Some k \<longleftrightarrow> 3 \<le> k \<and> k < length (chars @ [c]) \<and> (chars @ [c]) ! k = a"
    if "3 \<le> a" for a k
    using rest(5) [OF that, of k] rest(5) [OF c3, of k] c(1) len by (auto simp: obj_get_set nth_append less_Suc_eq)
  then show "tables_ok (obj_set c (length chars) codes) (chars @ [c])"
    unfolding tables_ok_def using rest c c3 new room
    by (intro conjI exI [of _ "rest @ [c]"]) (auto simp: obj_ok_set obj_get_set)
qed

section \<open>Encoding text\<close>

definition encode :: "nat jsobj \<Rightarrow> jsstring \<Rightarrow> jsstring" where
  "encode codes text = map (\<lambda>c. the (obj_get codes c)) text"

lemma encode_simps [simp]:
  "encode codes [] = []" "encode codes (c # text) = the (obj_get codes c) # encode codes text"
  "encode codes (text @ text') = encode codes text @ encode codes text'" "length (encode codes text) = length text"
  by (simp_all add: encode_def)

text \<open>Characters a text may contain: those of words, and the block separator.\<close>

definition text_char :: "nat \<Rightarrow> bool" where
  "text_char c \<longleftrightarrow> c = Oktavia_eob \<or> 3 \<le> c \<and> c < 65536"

definition covers :: "nat jsobj \<Rightarrow> jsstring \<Rightarrow> bool" where
  "covers codes text \<longleftrightarrow> (\<forall>c \<in> set text. text_char c \<and> obj_get codes c \<noteq> None)"

definition extends :: "nat jsobj \<Rightarrow> nat list \<Rightarrow> nat jsobj \<Rightarrow> nat list \<Rightarrow> bool" where
  "extends codes chars codes' chars' \<longleftrightarrow> (\<forall>c k. obj_get codes c = Some k \<longrightarrow> obj_get codes' c = Some k) \<and> (\<exists>new. chars' = chars @ new)"

lemma covers_simps [simp]:
  "covers codes []" "covers codes (c # text) \<longleftrightarrow> text_char c \<and> obj_get codes c \<noteq> None \<and> covers codes text"
  "covers codes (text @ text') \<longleftrightarrow> covers codes text \<and> covers codes text'"
  by (auto simp: covers_def)

lemma extends_refl [simp]: "extends codes chars codes chars"
  by (simp add: extends_def)

lemma extends_trans: "extends a b c d \<Longrightarrow> extends c d e f \<Longrightarrow> extends a b e f"
  by (auto simp: extends_def)

lemma extends_encode:
  assumes "extends codes chars codes' chars'" "covers codes text"
  shows "encode codes' text = encode codes text" "covers codes' text"
  using assms by (induction "text") (auto simp: extends_def)

lemma text_char_code:
  assumes "tables_ok codes chars" "text_char c" "obj_get codes c = Some k"
  shows "k < length chars" "chars ! k = c" "0 < k" "k < 65536"
proof -
  have len: "length chars \<le> 65536" "3 \<le> length chars" "chars ! 1 = Oktavia_eob"
    using assms(1) by (auto simp: tables_ok_def initial_chars_def)
  have "k < length chars \<and> chars ! k = c \<and> 0 < k"
  proof (cases "c = Oktavia_eob")
    case True
    then have "obj_get codes c = obj_get initial_codes c" using assms(1) by (auto simp: tables_ok_def Oktavia_eob_def)
    then have "k = 1" using assms(3) True by (simp add: initial_codes_def obj_get_def Oktavia_eob_def)
    then show ?thesis using len True by simp
  next
    case False
    then have "3 \<le> c" using assms(2) by (simp add: text_char_def)
    then show ?thesis using assms(1,3) by (auto simp: tables_ok_def)
  qed
  then show "k < length chars" "chars ! k = c" "0 < k" "k < 65536" using len by auto
qed

lemma decode_text:
  assumes "tables_ok codes chars" "covers codes text"
  shows "decode chars (encode codes text) = text"
  using assms(2) by (induction "text") (auto simp: decode_def text_char_code [OF assms(1)])

lemma encode_bounds:
  assumes "tables_ok codes chars" "covers codes text"
  shows "\<forall>k \<in> set (encode codes text). 0 < k \<and> k < length chars"
  using assms(2) by (induction "text") (auto simp: text_char_code [OF assms(1)])

lemma encode_inj:
  assumes "tables_ok codes chars" "covers codes text" "covers codes text'" "encode codes text = encode codes text'"
  shows "text = text'"
  using assms decode_text by metis

lemma encode_infix:
  "take n (drop p (encode codes text)) = encode codes (take n (drop p text))"
  by (simp add: encode_def take_map drop_map)

lemma covers_infix: "covers codes text \<Longrightarrow> covers codes (take n (drop p text))"
  by (auto simp: covers_def dest: in_set_takeD in_set_dropD)

lemma convert_encode: "covers codes text \<Longrightarrow> codes = ok_utf162compressCode okt \<Longrightarrow> Oktavia_convertToCompressionCode okt text = encode codes text"
  by (auto simp: Oktavia_convertToCompressionCode_def encode_def covers_def)

section \<open>Adding text\<close>

text \<open>The characters of a text get codes in the order in which they first appear.\<close>

definition add_new :: "nat list \<Rightarrow> nat \<Rightarrow> nat list" where
  "add_new chars c = (if c = Oktavia_eob \<or> c \<in> set (drop 3 chars) then chars else chars @ [c])"

lemma known_char:
  assumes "tables_ok codes chars" "text_char c"
  shows "obj_get codes c = None \<longleftrightarrow> c \<noteq> Oktavia_eob \<and> c \<notin> set (drop 3 chars)"
proof (cases "c = Oktavia_eob")
  case True
  then show ?thesis using assms(1) by (auto simp: tables_ok_def Oktavia_eob_def initial_codes_def obj_get_def)
next
  case False
  then have c: "3 \<le> c" using assms(2) by (simp add: text_char_def)
  have "c \<in> set (drop 3 chars) \<longleftrightarrow> (\<exists>k. 3 \<le> k \<and> k < length chars \<and> chars ! k = c)"
  proof
    assume "c \<in> set (drop 3 chars)"
    then obtain i where "i < length (drop 3 chars)" "drop 3 chars ! i = c" by (auto simp: in_set_conv_nth)
    then show "\<exists>k. 3 \<le> k \<and> k < length chars \<and> chars ! k = c" by (intro exI [of _ "i + 3"]) (auto simp: add.commute)
  next
    assume "\<exists>k. 3 \<le> k \<and> k < length chars \<and> chars ! k = c"
    then obtain k where "3 \<le> k" "k < length chars" "chars ! k = c" by blast
    then show "c \<in> set (drop 3 chars)" unfolding in_set_conv_nth by (intro exI [of _ "k - 3"]) simp
  qed
  moreover have "\<And>k. obj_get codes c = Some k \<longleftrightarrow> 3 \<le> k \<and> k < length chars \<and> chars ! k = c"
    using assms(1) c unfolding tables_ok_def by blast
  ultimately show ?thesis using False by (metis not_Some_eq)
qed

lemma add_char_ok:
  assumes "core_ok okt" "text_char c"
  obtains okt' k where "add_char (okt, str) c = (okt', str @ [k])" "core_ok okt'" "obj_get (ok_utf162compressCode okt') c = Some k"
    "extends (ok_utf162compressCode okt) (ok_compressCode2utf16 okt) (ok_utf162compressCode okt') (ok_compressCode2utf16 okt')"
    "okt' = okt\<lparr>ok_utf162compressCode := ok_utf162compressCode okt', ok_compressCode2utf16 := ok_compressCode2utf16 okt'\<rparr>"
    "ok_compressCode2utf16 okt' = add_new (ok_compressCode2utf16 okt) c"
proof (cases "obj_get (ok_utf162compressCode okt) c")
  case (Some k)
  then show thesis using assms(1) known_char [OF assms]
    by (intro that [of okt k]) (simp_all add: add_char_def, auto simp: add_new_def)
next
  case None
  let ?okt = "okt\<lparr>ok_utf162compressCode := obj_set c (length (ok_compressCode2utf16 okt)) (ok_utf162compressCode okt),
                ok_compressCode2utf16 := ok_compressCode2utf16 okt @ [c]\<rparr>"
  have "c < 65536" using assms(2) by (auto simp: text_char_def Oktavia_eob_def)
  note ext = tables_extend [OF assms(1) None this]
  then have "add_char (okt, str) c = (?okt, str @ [length (ok_compressCode2utf16 okt)])"
    by (simp add: add_char_def None Let_def)
  then show thesis using ext None known_char [OF assms]
    by (intro that [of ?okt "length (ok_compressCode2utf16 okt)"]) (auto simp: obj_get_set extends_def add_new_def)
qed

lemma add_chars_ok:
  assumes "core_ok okt" "\<forall>c \<in> set words. text_char c"
  obtains okt' where "foldl add_char (okt, str) words = (okt', str @ encode (ok_utf162compressCode okt') words)" "core_ok okt'"
    "covers (ok_utf162compressCode okt') words"
    "extends (ok_utf162compressCode okt) (ok_compressCode2utf16 okt) (ok_utf162compressCode okt') (ok_compressCode2utf16 okt')"
    "okt' = okt\<lparr>ok_utf162compressCode := ok_utf162compressCode okt', ok_compressCode2utf16 := ok_compressCode2utf16 okt'\<rparr>"
    "ok_compressCode2utf16 okt' = foldl add_new (ok_compressCode2utf16 okt) words"
  using assms
proof (induction words arbitrary: okt str thesis)
  case Nil
  show ?case by (rule Nil.prems(1) [of okt]) (use Nil.prems(2) in simp_all)
next
  case (Cons c words)
  obtain okt1 k where 1: "add_char (okt, str) c = (okt1, str @ [k])" "core_ok okt1" "obj_get (ok_utf162compressCode okt1) c = Some k"
    "extends (ok_utf162compressCode okt) (ok_compressCode2utf16 okt) (ok_utf162compressCode okt1) (ok_compressCode2utf16 okt1)"
    "okt1 = okt\<lparr>ok_utf162compressCode := ok_utf162compressCode okt1, ok_compressCode2utf16 := ok_compressCode2utf16 okt1\<rparr>"
    "ok_compressCode2utf16 okt1 = add_new (ok_compressCode2utf16 okt) c"
    using add_char_ok [OF Cons.prems(2), of c str] Cons.prems(3) by (metis list.set_intros(1))
  obtain okt2 where 2: "foldl add_char (okt1, str @ [k]) words = (okt2, (str @ [k]) @ encode (ok_utf162compressCode okt2) words)" "core_ok okt2"
    "covers (ok_utf162compressCode okt2) words"
    "extends (ok_utf162compressCode okt1) (ok_compressCode2utf16 okt1) (ok_utf162compressCode okt2) (ok_compressCode2utf16 okt2)"
    "okt2 = okt1\<lparr>ok_utf162compressCode := ok_utf162compressCode okt2, ok_compressCode2utf16 := ok_compressCode2utf16 okt2\<rparr>"
    "ok_compressCode2utf16 okt2 = foldl add_new (ok_compressCode2utf16 okt1) words"
    using Cons.IH [OF _ 1(2)] Cons.prems(3) by (metis list.set_intros(2))
  have k: "obj_get (ok_utf162compressCode okt2) c = Some k" using 1(3) 2(4) by (simp add: extends_def)
  show ?case
  proof (rule Cons.prems(1) [of okt2])
    show "okt2 = okt\<lparr>ok_utf162compressCode := ok_utf162compressCode okt2, ok_compressCode2utf16 := ok_compressCode2utf16 okt2\<rparr>"
      by (subst 2(5), subst 1(5)) simp
  qed (use 1 2 k Cons.prems(3) extends_trans in auto)
qed

text \<open>The pushed text is the encoding of a given text.\<close>

definition holds_text :: "'a OktaviaCore_scheme \<Rightarrow> jsstring \<Rightarrow> bool" where
  "holds_text okt text \<longleftrightarrow> core_ok okt \<and> covers (ok_utf162compressCode okt) text
    \<and> fm_substr (ok_fmindex okt) = encode (ok_utf162compressCode okt) text
    \<and> foldl add_new initial_chars text = ok_compressCode2utf16 okt"

lemma holds_text_new: "holds_text OktaviaCore_new []"
  by (simp add: holds_text_def OktaviaCore_new_def tables_ok_initial FMIndex_new_def)

lemma holds_contentSize: "holds_text okt text \<Longrightarrow> Oktavia_contentSize okt = length text"
  by (simp add: holds_text_def Oktavia_contentSize_def FMIndex_contentSize_def)

text \<open>What adding text leaves alone: the other parts of the index.\<close>

definition same_index :: "'a OktaviaCore_scheme \<Rightarrow> 'a OktaviaCore_scheme \<Rightarrow> bool" where
  "same_index okt okt' \<longleftrightarrow> okt' = okt\<lparr>ok_fmindex := (ok_fmindex okt)\<lparr>fm_substr := fm_substr (ok_fmindex okt')\<rparr>,
     ok_utf162compressCode := ok_utf162compressCode okt', ok_compressCode2utf16 := ok_compressCode2utf16 okt'\<rparr>"

lemma addWord_holds:
  assumes "holds_text okt text" "words \<noteq> []" "\<forall>c \<in> set words. 3 \<le> c \<and> c < 65536"
  obtains okt' where "Oktavia_addWord okt words = Inr okt'" "holds_text okt' (text @ words)" "same_index okt okt'"
    "extends (ok_utf162compressCode okt) (ok_compressCode2utf16 okt) (ok_utf162compressCode okt') (ok_compressCode2utf16 okt')"
proof -
  have "core_ok okt" "\<forall>c \<in> set words. text_char c" using assms by (auto simp: holds_text_def text_char_def)
  from add_chars_ok [OF this, of "[]"] obtain okt1 where 1:
    "foldl add_char (okt, []) words = (okt1, encode (ok_utf162compressCode okt1) words)" "core_ok okt1"
    "covers (ok_utf162compressCode okt1) words"
    "extends (ok_utf162compressCode okt) (ok_compressCode2utf16 okt) (ok_utf162compressCode okt1) (ok_compressCode2utf16 okt1)"
    "okt1 = okt\<lparr>ok_utf162compressCode := ok_utf162compressCode okt1, ok_compressCode2utf16 := ok_compressCode2utf16 okt1\<rparr>"
    "ok_compressCode2utf16 okt1 = foldl add_new (ok_compressCode2utf16 okt) words"
    by auto
  have fm: "ok_fmindex okt1 = ok_fmindex okt" by (subst 1(5)) simp
  have "encode (ok_utf162compressCode okt1) words \<noteq> []" using assms(2) by (cases words) simp_all
  then have run: "Oktavia_addWord okt words = Inr (okt1\<lparr>ok_fmindex := (ok_fmindex okt)\<lparr>fm_substr := fm_substr (ok_fmindex okt)
      @ encode (ok_utf162compressCode okt1) words\<rparr>\<rparr>)"
    by (simp add: Oktavia_addWord_def 1(1) push_text_def FMIndex_push_def fm)
  show thesis
  proof (rule that [OF run])
    show "holds_text (okt1\<lparr>ok_fmindex := (ok_fmindex okt)\<lparr>fm_substr := fm_substr (ok_fmindex okt)
        @ encode (ok_utf162compressCode okt1) words\<rparr>\<rparr>) (text @ words)"
      using assms(1) 1(2,3,6) extends_encode [OF 1(4)] by (simp add: holds_text_def)
    show "same_index okt (okt1\<lparr>ok_fmindex := (ok_fmindex okt)\<lparr>fm_substr := fm_substr (ok_fmindex okt)
        @ encode (ok_utf162compressCode okt1) words\<rparr>\<rparr>)"
      unfolding same_index_def by (subst 1(5)) simp
  qed (use 1(4) in simp)
qed

lemma addEndOfBlock_holds:
  assumes "holds_text okt text"
  obtains okt' where "Oktavia_addEndOfBlock okt = Inr okt'" "holds_text okt' (text @ [Oktavia_eob])" "same_index okt okt'"
proof -
  have "obj_get (ok_utf162compressCode okt) Oktavia_eob = Some Oktavia_eob"
    using assms by (auto simp: holds_text_def tables_ok_def Oktavia_eob_def initial_codes_def obj_get_def)
  then show thesis using assms
    by (intro that) (auto simp: Oktavia_addEndOfBlock_def push_text_def FMIndex_push_def holds_text_def text_char_def same_index_def add_new_def)
qed

end
