(* ===== verification/Search_Result.thy ===== *)
theory Search_Result
  imports JS_Prelude
begin

text \<open>
  The result classes of a search: \<^verbatim>\<open>Position\<close>, \<^verbatim>\<open>SearchUnit\<close> (the hits inside one document),
  \<^verbatim>\<open>SingleResult\<close> (the documents found by one query) and \<^verbatim>\<open>SearchSummary\<close> (all queries of a search).

  Search units are objects shared between results: merging two results puts references to the
  units of both into a new result and, for a disjunction, adds the hits of one unit to the other in
  place.  The model keeps the units in a store, a list indexed by addresses, and a result holds
  addresses.  The meaning of a result in a store is a map from document numbers to units; the
  refinement lemmas show that merging implements intersection, union with the hits merged, and
  difference on these maps, for any sharing between the two results.
\<close>

section \<open>Positions and search units\<close>

record Position =
  p_word :: jsstring
  p_position :: nat
  p_stemmed :: bool

record SearchUnit =
  su_positions :: "Position jsobj"
  su_id :: nat
  su_size :: nat
  su_score :: int
  su_startPosition :: int

definition SearchUnit_new :: "nat \<Rightarrow> SearchUnit" where
  "SearchUnit_new unitId =
    \<lparr>su_positions = [], su_id = unitId, su_size = 0, su_score = 0, su_startPosition = - 1\<rparr>"

definition SearchUnit_addPosition :: "SearchUnit \<Rightarrow> jsstring \<Rightarrow> nat \<Rightarrow> bool \<Rightarrow> SearchUnit" where
  "SearchUnit_addPosition u word position stemmed =
    (case obj_get (su_positions u) position of
       None \<Rightarrow> u\<lparr>su_size := su_size u + 1,
                su_positions := obj_set position \<lparr>p_word = word, p_position = position, p_stemmed = stemmed\<rparr> (su_positions u)\<rparr>
     | Some positionObj \<Rightarrow>
         (let positionObj = (if length (p_word positionObj) < length word then positionObj\<lparr>p_word := word\<rparr> else positionObj);
              positionObj = positionObj\<lparr>p_stemmed := p_stemmed positionObj \<and> stemmed\<rparr>
          in u\<lparr>su_positions := obj_set position positionObj (su_positions u)\<rparr>))"

definition SearchUnit_get :: "SearchUnit \<Rightarrow> nat \<Rightarrow> Position option" where
  "SearchUnit_get u position = obj_get (su_positions u) position"

definition SearchUnit_size :: "SearchUnit \<Rightarrow> nat" where
  "SearchUnit_size u = su_size u"

definition SearchUnit_merge :: "SearchUnit \<Rightarrow> SearchUnit \<Rightarrow> SearchUnit" where
  "SearchUnit_merge u rhs =
    foldl (\<lambda>u (k, pos). SearchUnit_addPosition u (p_word pos) (p_position pos) (p_stemmed pos)) u (su_positions rhs)"

text \<open>\<^verbatim>\<open>Array.prototype.sort\<close> is the stable sort of the library.\<close>

definition SearchUnit_getPositions :: "SearchUnit \<Rightarrow> Position list" where
  "SearchUnit_getPositions u = sort_key p_position (map snd (su_positions u))"

section \<open>Results of one query\<close>

type_synonym unit_store = "SearchUnit list"

record SingleResult =
  r_units :: "nat list"
  r_unitIds :: "nat list"
  r_or :: bool
  r_not :: bool
  r_searchWord :: jsstring

definition SingleResult_new :: SingleResult where
  "SingleResult_new = \<lparr>r_units = [], r_unitIds = [], r_or = False, r_not = False, r_searchWord = []\<rparr>"

definition SingleResult_query :: "jsstring \<Rightarrow> bool \<Rightarrow> bool \<Rightarrow> SingleResult" where
  "SingleResult_query searchWord isOr isNot =
    \<lparr>r_units = [], r_unitIds = [], r_or = isOr, r_not = isNot, r_searchWord = searchWord\<rparr>"

fun index_of :: "nat list \<Rightarrow> nat \<Rightarrow> nat option" where
  "index_of [] x = None"
| "index_of (y # ys) x = (if y = x then Some 0 else map_option Suc (index_of ys x))"

definition SingleResult_getSearchUnit ::
  "unit_store \<Rightarrow> SingleResult \<Rightarrow> nat \<Rightarrow> (unit_store \<times> SingleResult \<times> nat) js" where
  "SingleResult_getSearchUnit h r unitId =
    (case index_of (r_unitIds r) unitId of
       None \<Rightarrow> Inr (h @ [SearchUnit_new unitId],
                  r\<lparr>r_units := r_units r @ [length h], r_unitIds := r_unitIds r @ [unitId]\<rparr>, length h)
     | Some existing \<Rightarrow> js_bind (js_at (r_units r) existing) (\<lambda>u. Inr (h, r, u)))"

definition SingleResult_size :: "SingleResult \<Rightarrow> nat" where
  "SingleResult_size r = length (r_units r)"

definition push_unit :: "SingleResult \<Rightarrow> nat \<Rightarrow> nat \<Rightarrow> SingleResult" where
  "push_unit r unitId u = r\<lparr>r_unitIds := r_unitIds r @ [unitId], r_units := r_units r @ [u]\<rparr>"

definition SingleResult_andMerge :: "SingleResult \<Rightarrow> SingleResult \<Rightarrow> SingleResult \<Rightarrow> SingleResult js" where
  "SingleResult_andMerge this result rhs =
    js_fold (\<lambda>result i.
        js_bind (js_at (r_unitIds this) i) (\<lambda>id.
          if index_of (r_unitIds rhs) id \<noteq> None
          then js_bind (js_at (r_units this) i) (\<lambda>lhsSection. Inr (push_unit result id lhsSection))
          else Inr result))
      result [0..<length (r_unitIds this)]"

definition SingleResult_notMerge :: "SingleResult \<Rightarrow> SingleResult \<Rightarrow> SingleResult \<Rightarrow> SingleResult js" where
  "SingleResult_notMerge this result rhs =
    js_fold (\<lambda>result i.
        js_bind (js_at (r_unitIds this) i) (\<lambda>id.
          if index_of (r_unitIds rhs) id = None
          then js_bind (js_at (r_units this) i) (\<lambda>lhsSection. Inr (push_unit result id lhsSection))
          else Inr result))
      result [0..<length (r_unitIds this)]"

definition merge_units :: "unit_store \<Rightarrow> nat \<Rightarrow> nat \<Rightarrow> unit_store js" where
  "merge_units h lhsSection rhsSection =
    js_bind (js_at h lhsSection) (\<lambda>l. js_bind (js_at h rhsSection) (\<lambda>r. js_put h lhsSection (SearchUnit_merge l r)))"

definition SingleResult_orMerge ::
  "unit_store \<Rightarrow> SingleResult \<Rightarrow> SingleResult \<Rightarrow> SingleResult \<Rightarrow> (unit_store \<times> SingleResult) js" where
  "SingleResult_orMerge h this result rhs =
    js_fold (\<lambda>(h, result) i.
        js_bind (js_at (r_unitIds rhs) i) (\<lambda>id. js_bind (js_at (r_units rhs) i) (\<lambda>rhsSection.
          case index_of (r_unitIds result) id of
            Some k \<Rightarrow> js_bind (js_at (r_units result) k) (\<lambda>lhsSection.
                js_bind (merge_units h lhsSection rhsSection) (\<lambda>h. Inr (h, result)))
          | None \<Rightarrow> Inr (h, push_unit result id rhsSection))))
      (h, result\<lparr>r_unitIds := r_unitIds this, r_units := r_units this\<rparr>) [0..<length (r_unitIds rhs)]"

definition SingleResult_merge :: "unit_store \<Rightarrow> SingleResult \<Rightarrow> SingleResult \<Rightarrow> (unit_store \<times> SingleResult) js" where
  "SingleResult_merge h this rhs =
    (let result = SingleResult_new in
     if r_or rhs then SingleResult_orMerge h this result rhs
     else if r_not rhs then js_bind (SingleResult_notMerge this result rhs) (\<lambda>result. Inr (h, result))
     else js_bind (SingleResult_andMerge this result rhs) (\<lambda>result. Inr (h, result)))"

section \<open>The summary of a search\<close>

record Proposal =
  pr_omit :: nat
  pr_expect :: nat

text \<open>The back reference to the search engine, which no operation reads, is left out.\<close>

record SearchSummary =
  s_sourceResults :: "SingleResult list"
  s_result :: "SingleResult option"

definition SearchSummary_new :: SearchSummary where
  "SearchSummary_new = \<lparr>s_sourceResults = [], s_result = None\<rparr>"

definition SearchSummary_addQuery :: "SearchSummary \<Rightarrow> SingleResult \<Rightarrow> SearchSummary" where
  "SearchSummary_addQuery s r = s\<lparr>s_sourceResults := s_sourceResults s @ [r]\<rparr>"

definition SearchSummary_add :: "SearchSummary \<Rightarrow> SingleResult \<Rightarrow> SearchSummary" where
  "SearchSummary_add s r = s\<lparr>s_sourceResults := s_sourceResults s @ [r]\<rparr>"

text \<open>Without results, \<^verbatim>\<open>results[0]\<close> is \<^verbatim>\<open>undefined\<close>: the value None.\<close>

definition mergeResults :: "unit_store \<Rightarrow> SingleResult list \<Rightarrow> (unit_store \<times> SingleResult option) js" where
  "mergeResults h results =
    (case results of
       [] \<Rightarrow> Inr (h, None)
     | rhs # rest \<Rightarrow> js_bind (js_fold (\<lambda>(h, rhs) r. SingleResult_merge h rhs r) (h, rhs) rest)
         (\<lambda>(h, rhs). Inr (h, Some rhs)))"

definition SearchSummary_mergeResult :: "unit_store \<Rightarrow> SearchSummary \<Rightarrow> (unit_store \<times> SearchSummary) js" where
  "SearchSummary_mergeResult h s =
    js_bind (mergeResults h (s_sourceResults s)) (\<lambda>(h, result). Inr (h, s\<lparr>s_result := result\<rparr>))"

definition omit_nth :: "nat \<Rightarrow> 'a list \<Rightarrow> 'a list" where
  "omit_nth i xs = map ((!) xs) (filter (\<lambda>j. i \<noteq> j) [0..<length xs])"

definition SearchSummary_getProposal :: "unit_store \<Rightarrow> SearchSummary \<Rightarrow> (unit_store \<times> Proposal list) js" where
  "SearchSummary_getProposal h s =
    js_bind (js_fold (\<lambda>(h, proposals) i.
        js_bind (mergeResults h (omit_nth i (s_sourceResults s))) (\<lambda>(h, result).
          case result of
            None \<Rightarrow> Inl (Throw ''TypeError'')
          | Some result \<Rightarrow> Inr (h, proposals @ [\<lparr>pr_omit = i, pr_expect = length (r_units result)\<rparr>])))
      (h, []) [0..<length (s_sourceResults s)])
      (\<lambda>(h, proposals). Inr (h, sort_key (\<lambda>p. - int (pr_expect p)) proposals))"

definition SearchSummary_getSortedResult :: "unit_store \<Rightarrow> SearchSummary \<Rightarrow> nat list js" where
  "SearchSummary_getSortedResult h s =
    (case s_result s of
       None \<Rightarrow> Inl (Throw ''TypeError'')
     | Some r \<Rightarrow> Inr (sort_key (\<lambda>u. - su_score (h ! u)) (r_units r)))"

definition SearchSummary_size :: "SearchSummary \<Rightarrow> nat js" where
  "SearchSummary_size s =
    (case s_result s of None \<Rightarrow> Inl (Throw ''TypeError'') | Some r \<Rightarrow> Inr (length (r_units r)))"

section \<open>The hits of a unit\<close>

text \<open>
  The invariant of a unit: its size is the number of its positions, and a position is stored
  under its own number.
\<close>

definition unit_ok :: "SearchUnit \<Rightarrow> bool" where
  "unit_ok u \<longleftrightarrow> obj_ok (su_positions u) \<and> su_size u = length (su_positions u) \<and>
    (\<forall>k p. obj_get (su_positions u) k = Some p \<longrightarrow> p_position p = k)"

text \<open>Two hits at one position: the longer word wins, and a hit is exact if one of them is.\<close>

definition join_position :: "Position \<Rightarrow> Position \<Rightarrow> Position" where
  "join_position p p' = \<lparr>p_word = (if length (p_word p) < length (p_word p') then p_word p' else p_word p),
     p_position = p_position p, p_stemmed = p_stemmed p \<and> p_stemmed p'\<rparr>"

definition join_option :: "('a \<Rightarrow> 'a \<Rightarrow> 'a) \<Rightarrow> 'a option \<Rightarrow> 'a option \<Rightarrow> 'a option" where
  "join_option f x y = (case (x, y) of (Some a, Some b) \<Rightarrow> Some (f a b) | (Some a, None) \<Rightarrow> Some a | (None, y) \<Rightarrow> y)"

lemma join_option_simps [simp]:
  "join_option f None y = y" "join_option f x None = x" "join_option f (Some a) (Some b) = Some (f a b)"
  by (simp_all add: join_option_def split: option.splits)

lemma length_obj_set:
  "obj_ok m \<Longrightarrow> length (obj_set k v m) = (if obj_get m k = None then Suc (length m) else length m)"
proof (induction m)
  case (Cons a m)
  obtain k' v' where a: "a = (k', v')" by (cases a)
  have m: "obj_ok m" "\<forall>x \<in> fst ` set m. k' < x" using Cons.prems by (auto simp: obj_ok_def a)
  then have "k < k' \<Longrightarrow> map_of m k = None" by (force simp: map_of_eq_None_iff)
  then show ?case using Cons.IH [OF m(1)] by (auto simp: a obj_get_def)
qed (simp add: obj_get_def)

lemma addPosition_get:
  "obj_get (su_positions (SearchUnit_addPosition u word position stemmed)) k =
    (if k = position
     then join_option join_position (obj_get (su_positions u) k)
            (Some \<lparr>p_word = word, p_position = position, p_stemmed = stemmed\<rparr>)
     else obj_get (su_positions u) k)"
  by (simp add: SearchUnit_addPosition_def obj_get_set join_position_def Let_def split: option.splits)

lemma addPosition_ok: "unit_ok u \<Longrightarrow> unit_ok (SearchUnit_addPosition u word position stemmed)"
  by (auto simp: unit_ok_def SearchUnit_addPosition_def obj_get_set obj_ok_set length_obj_set Let_def
      split: option.splits if_splits)

lemma addPosition_frame [simp]:
  "su_id (SearchUnit_addPosition u w p s) = su_id u"
  "su_score (SearchUnit_addPosition u w p s) = su_score u"
  "su_startPosition (SearchUnit_addPosition u w p s) = su_startPosition u"
  by (simp_all add: SearchUnit_addPosition_def Let_def split: option.splits)

lemma merge_frame [simp]:
  "su_id (SearchUnit_merge u v) = su_id u"
  "su_score (SearchUnit_merge u v) = su_score u"
  "su_startPosition (SearchUnit_merge u v) = su_startPosition u"
proof -
  have "su_id (foldl (\<lambda>u (k, pos). SearchUnit_addPosition u (p_word pos) (p_position pos) (p_stemmed pos)) u ps) = su_id u"
    "su_score (foldl (\<lambda>u (k, pos). SearchUnit_addPosition u (p_word pos) (p_position pos) (p_stemmed pos)) u ps) = su_score u"
    "su_startPosition (foldl (\<lambda>u (k, pos). SearchUnit_addPosition u (p_word pos) (p_position pos) (p_stemmed pos)) u ps) = su_startPosition u"
    for ps by (induction ps arbitrary: u) (simp_all add: split_beta)
  then show "su_id (SearchUnit_merge u v) = su_id u" "su_score (SearchUnit_merge u v) = su_score u"
    "su_startPosition (SearchUnit_merge u v) = su_startPosition u" by (simp_all add: SearchUnit_merge_def)
qed

lemma Position_eta: "\<lparr>p_word = p_word p, p_position = p_position p, p_stemmed = p_stemmed p\<rparr> = (p :: Position)"
  by (cases p) simp

lemma merge_positions:
  assumes "unit_ok u" "distinct (map fst ps)" "\<forall>(k, p) \<in> set ps. p_position p = k"
  shows "unit_ok (foldl (\<lambda>u (k, pos). SearchUnit_addPosition u (p_word pos) (p_position pos) (p_stemmed pos)) u ps)
    \<and> obj_get (su_positions (foldl (\<lambda>u (k, pos). SearchUnit_addPosition u (p_word pos) (p_position pos) (p_stemmed pos)) u ps)) k
      = join_option join_position (obj_get (su_positions u) k) (map_of ps k)"
  using assms
proof (induction ps arbitrary: u)
  case (Cons a ps)
  obtain k' p where a: "a = (k', p)" by (cases a)
  have p: "p_position p = k'" using Cons.prems(3) by (simp add: a)
  have "map_of ps k' = None" using Cons.prems(2) by (force simp: a map_of_eq_None_iff)
  then show ?case
    using Cons.IH [OF addPosition_ok [OF Cons.prems(1)], of "p_word p" "p_position p" "p_stemmed p"] Cons.prems p
    by (auto simp: a addPosition_get Position_eta)
qed simp

lemma merge_get:
  assumes "unit_ok u" "unit_ok v"
  shows "obj_get (su_positions (SearchUnit_merge u v)) k
      = join_option join_position (obj_get (su_positions u) k) (obj_get (su_positions v) k)"
    and "unit_ok (SearchUnit_merge u v)"
proof -
  have ok: "obj_ok (su_positions v)" using assms(2) by (simp add: unit_ok_def)
  then have "\<forall>(k, p) \<in> set (su_positions v). p_position p = k"
    using assms(2) by (auto simp: unit_ok_def obj_ok_mem)
  from merge_positions [OF assms(1) obj_ok_distinct [OF ok] this]
  show "obj_get (su_positions (SearchUnit_merge u v)) k
      = join_option join_position (obj_get (su_positions u) k) (obj_get (su_positions v) k)"
    and "unit_ok (SearchUnit_merge u v)"
    by (simp_all add: SearchUnit_merge_def obj_get_def [of "su_positions v"])
qed

lemma unit_eqI:
  assumes "unit_ok u" "unit_ok v" "\<And>k. obj_get (su_positions u) k = obj_get (su_positions v) k"
    and "su_id u = su_id v" "su_score u = su_score v" "su_startPosition u = su_startPosition v"
  shows "u = v"
proof -
  have "su_positions u = su_positions v" using assms by (intro obj_ok_eqI) (simp_all add: unit_ok_def)
  moreover have "su_size u = su_size v" using assms(1,2) calculation by (simp add: unit_ok_def)
  ultimately show ?thesis using assms(4-6) by simp
qed

lemma merge_self: "unit_ok u \<Longrightarrow> SearchUnit_merge u u = u"
  by (rule unit_eqI) (simp_all add: merge_get join_option_def join_position_def split: option.splits)

section \<open>Merging results\<close>

subsection \<open>Looking up numbers\<close>

lemma index_of_None [simp]: "index_of xs x = None \<longleftrightarrow> x \<notin> set xs"
  by (induction xs) auto

lemma index_of_Some: "index_of xs x = Some i \<Longrightarrow> i < length xs \<and> xs ! i = x"
  by (induction xs arbitrary: i) (auto split: if_splits)

lemma index_of_append: "x \<in> set xs \<Longrightarrow> index_of (xs @ ys) x = index_of xs x"
  by (induction xs) auto

lemma index_of_map_of:
  "index_of ks k = Some i \<Longrightarrow> length vs = length ks \<Longrightarrow> map_of (zip ks vs) k = Some (vs ! i)"
proof (induction ks arbitrary: vs i)
  case (Cons a ks)
  then show ?case by (cases vs) (auto split: if_splits)
qed simp

lemma map_of_filter_fst: "map_of (filter (P \<circ> fst) zs) k = (if P k then map_of zs k else None)"
  by (induction zs) auto

lemma zip_filter_fst: "zip (filter P ks) (map snd (filter (P \<circ> fst) (zip ks vs))) = filter (P \<circ> fst) (zip ks vs)"
  if "length vs = length ks" for ks :: "'a list" and vs :: "'b list"
  using that
proof (induction ks arbitrary: vs)
  case (Cons a ks)
  then show ?case by (cases vs) auto
qed simp

lemma length_filter_fst: "length vs = length ks \<Longrightarrow> length (filter (P \<circ> fst) (zip ks vs)) = length (filter P ks)"
proof (induction ks arbitrary: vs)
  case (Cons a ks)
  then show ?case by (cases vs) auto
qed simp

subsection \<open>The meaning of a result\<close>

text \<open>
  A result is well formed in a store if its numbers are distinct and each goes with the address
  of a unit of that number.
\<close>

definition result_ok :: "unit_store \<Rightarrow> SingleResult \<Rightarrow> bool" where
  "result_ok h r \<longleftrightarrow> length (r_units r) = length (r_unitIds r) \<and> distinct (r_unitIds r) \<and>
    (\<forall>(k, a) \<in> set (zip (r_unitIds r) (r_units r)). a < length h \<and> su_id (h ! a) = k)"

definition store_ok :: "unit_store \<Rightarrow> bool" where
  "store_ok h \<longleftrightarrow> (\<forall>u \<in> set h. unit_ok u)"

definition found :: "unit_store \<Rightarrow> SingleResult \<Rightarrow> nat \<Rightarrow> SearchUnit option" where
  "found h r k = map_option ((!) h) (map_of (zip (r_unitIds r) (r_units r)) k)"

definition merge_found :: "bool \<Rightarrow> bool \<Rightarrow> (nat \<Rightarrow> SearchUnit option) \<Rightarrow> (nat \<Rightarrow> SearchUnit option) \<Rightarrow> nat \<Rightarrow> SearchUnit option" where
  "merge_found isOr isNot f g k =
    (if isOr then join_option SearchUnit_merge (f k) (g k)
     else if isNot then (if g k = None then f k else None)
     else (if g k = None then None else f k))"

definition merge_ids :: "bool \<Rightarrow> bool \<Rightarrow> nat list \<Rightarrow> nat list \<Rightarrow> nat list" where
  "merge_ids isOr isNot ks ks' =
    (if isOr then ks @ filter (\<lambda>k. k \<notin> set ks) ks'
     else if isNot then filter (\<lambda>k. k \<notin> set ks') ks
     else filter (\<lambda>k. k \<in> set ks') ks)"

lemma result_okD:
  assumes "result_ok h r" "map_of (zip (r_unitIds r) (r_units r)) k = Some a"
  shows "a < length h" "su_id (h ! a) = k" "a \<in> set (r_units r)"
  using assms map_of_SomeD [OF assms(2)] by (auto simp: result_ok_def dest: set_zip_rightD)

lemma found_None: "result_ok h r \<Longrightarrow> found h r k = None \<longleftrightarrow> k \<notin> set (r_unitIds r)"
  by (simp add: found_def result_ok_def)

lemma result_ok_cong:
  "result_ok h r \<Longrightarrow> map su_id h' = map su_id h \<Longrightarrow> result_ok h' r"
  unfolding result_ok_def by (metis (no_types, lifting) case_prodD case_prodI2 length_map nth_map)

lemma found_cong:
  assumes "result_ok h r" "\<And>a. a \<in> set (r_units r) \<Longrightarrow> h' ! a = h ! a"
  shows "found h' r = found h r"
proof
  fix k
  show "found h' r k = found h r k"
    using assms result_okD(3) [OF assms(1), of k]
    by (cases "map_of (zip (r_unitIds r) (r_units r)) k") (simp_all add: found_def)
qed

subsection \<open>Conjunction and exclusion\<close>

definition select_units :: "(nat \<Rightarrow> bool) \<Rightarrow> SingleResult \<Rightarrow> SingleResult \<Rightarrow> SingleResult" where
  "select_units P this result = result
    \<lparr>r_unitIds := r_unitIds result @ filter P (r_unitIds this),
     r_units := r_units result @ map snd (filter (P \<circ> fst) (zip (r_unitIds this) (r_units this)))\<rparr>"

lemma select_loop:
  assumes len: "length (r_units this) = length (r_unitIds this)"
  shows "js_fold (\<lambda>result i.
        js_bind (js_at (r_unitIds this) i) (\<lambda>id.
          if P id then js_bind (js_at (r_units this) i) (\<lambda>l. Inr (push_unit result id l)) else Inr result))
      result [0..<length (r_unitIds this)] = Inr (select_units P this result)"
    (is "js_fold ?f result [0..<?n] = _")
proof -
  define part where "part i = select_units P (this\<lparr>r_unitIds := take i (r_unitIds this), r_units := take i (r_units this)\<rparr>) result" for i
  have "\<exists>acc'. js_fold ?f result [0..<?n] = Inr acc' \<and> acc' = part ?n"
  proof (rule js_fold_upt_inv [where I = "\<lambda>i acc. acc = part i"])
    show "result = part 0" by (simp add: part_def select_units_def)
    fix i acc
    assume "i < ?n" "acc = part i"
    then show "\<exists>acc'. ?f acc i = Inr acc' \<and> acc' = part (Suc i)"
      using len by (auto simp: part_def select_units_def push_unit_def take_Suc_conv_app_nth)
  qed
  then show ?thesis using len by (simp add: part_def)
qed

lemma select_ok:
  assumes "result_ok h this"
  shows "result_ok h (select_units P this SingleResult_new)"
    "found h (select_units P this SingleResult_new) k = (if P k then found h this k else None)"
proof -
  have len: "length (r_units this) = length (r_unitIds this)" using assms by (simp add: result_ok_def)
  let ?r = "select_units P this SingleResult_new"
  have zip: "zip (r_unitIds ?r) (r_units ?r) = filter (P \<circ> fst) (zip (r_unitIds this) (r_units this))"
    by (simp add: select_units_def SingleResult_new_def zip_filter_fst [OF len])
  have "length (r_units ?r) = length (r_unitIds ?r)"
    by (simp add: select_units_def SingleResult_new_def length_filter_fst [OF len])
  then show "result_ok h ?r"
    using assms unfolding result_ok_def zip by (auto simp: select_units_def SingleResult_new_def)
  show "found h ?r k = (if P k then found h this k else None)"
    by (simp add: found_def zip map_of_filter_fst)
qed

subsection \<open>Disjunction\<close>

text \<open>The numbers and addresses of a result, as a map.\<close>

definition addresses :: "SingleResult \<Rightarrow> nat \<Rightarrow> nat option" where
  "addresses r = map_of (zip (r_unitIds r) (r_units r))"

definition first_units :: "nat \<Rightarrow> SingleResult \<Rightarrow> SingleResult" where
  "first_units i r = r\<lparr>r_unitIds := take i (r_unitIds r), r_units := take i (r_units r)\<rparr>"

text \<open>The unit at an address after the hits of a result were added to the units of another.\<close>

definition joined :: "unit_store \<Rightarrow> SingleResult \<Rightarrow> SingleResult \<Rightarrow> nat \<Rightarrow> SearchUnit" where
  "joined h this rhs a =
    (if addresses this (su_id (h ! a)) = Some a
     then (case addresses rhs (su_id (h ! a)) of Some b \<Rightarrow> SearchUnit_merge (h ! a) (h ! b) | None \<Rightarrow> h ! a)
     else h ! a)"

definition or_result :: "SingleResult \<Rightarrow> SingleResult \<Rightarrow> SingleResult" where
  "or_result this rhs = select_units (\<lambda>k. k \<notin> set (r_unitIds this)) rhs
     (SingleResult_new\<lparr>r_unitIds := r_unitIds this, r_units := r_units this\<rparr>)"

lemma map_of_snoc: "map_of xs k = None \<Longrightarrow> map_of (xs @ [(k, v)]) = (map_of xs)(k \<mapsto> v)"
  by (auto simp: map_add_def fun_eq_iff split: option.split)

lemma addresses_first:
  assumes "result_ok h r" "i < length (r_unitIds r)"
  shows "addresses (first_units (Suc i) r) = (addresses (first_units i r))(r_unitIds r ! i \<mapsto> r_units r ! i)"
    "addresses (first_units i r) (r_unitIds r ! i) = None"
proof -
  have len: "length (r_units r) = length (r_unitIds r)" "distinct (r_unitIds r)" using assms(1) by (simp_all add: result_ok_def)
  have "r_unitIds r ! i \<notin> set (take i (r_unitIds r))"
    using len(2) assms(2) by (simp add: in_set_conv_nth nth_eq_iff_index_eq)
  then show none: "addresses (first_units i r) (r_unitIds r ! i) = None"
    by (simp add: addresses_def first_units_def len)
  show "addresses (first_units (Suc i) r) = (addresses (first_units i r))(r_unitIds r ! i \<mapsto> r_units r ! i)"
    using map_of_snoc [of "zip (take i (r_unitIds r)) (take i (r_units r))"] assms(2) len none
    by (simp add: addresses_def first_units_def take_Suc_conv_app_nth del: map_of_append)
qed

lemma result_ok_nth:
  assumes "result_ok h r" "i < length (r_unitIds r)"
  shows "i < length (r_units r)" "r_units r ! i < length h" "su_id (h ! (r_units r ! i)) = r_unitIds r ! i"
proof -
  show "i < length (r_units r)" using assms by (simp add: result_ok_def)
  then have "(r_unitIds r ! i, r_units r ! i) \<in> set (zip (r_unitIds r) (r_units r))"
    using assms(2) by (force simp: set_zip)
  then show "r_units r ! i < length h" "su_id (h ! (r_units r ! i)) = r_unitIds r ! i"
    using assms(1) by (auto simp: result_ok_def)
qed

lemma su_id_joined: "su_id (joined h this rhs a) = su_id (h ! a)"
  by (simp add: joined_def split: option.splits)

lemma or_step:
  assumes ok: "result_ok h this" "result_ok h rhs" and i: "i < length (r_unitIds rhs)"
    and h': "h' = map (joined h this (first_units i rhs)) [0..<length h]"
    and res: "result = or_result this (first_units i rhs)"
  shows "(case index_of (r_unitIds result) (r_unitIds rhs ! i) of
            Some k \<Rightarrow> js_bind (js_at (r_units result) k) (\<lambda>l. js_bind (merge_units h' l (r_units rhs ! i)) (\<lambda>h. Inr (h, result)))
          | None \<Rightarrow> Inr (h', push_unit result (r_unitIds rhs ! i) (r_units rhs ! i)))
    = Inr (map (joined h this (first_units (Suc i) rhs)) [0..<length h], or_result this (first_units (Suc i) rhs))"
proof -
  let ?k = "r_unitIds rhs ! i" and ?b = "r_units rhs ! i"
  note b = result_ok_nth [OF ok(2) i]
  note first = addresses_first [OF ok(2) i]
  have len: "length (r_units this) = length (r_unitIds this)" using ok by (simp add: result_ok_def)
  have ids: "r_unitIds result = r_unitIds this @ filter (\<lambda>k. k \<notin> set (r_unitIds this)) (take i (r_unitIds rhs))"
    by (simp add: res or_result_def select_units_def first_units_def)
  have new: "?k \<notin> set (take i (r_unitIds rhs))"
    using ok(2) i by (simp add: result_ok_def in_set_conv_nth nth_eq_iff_index_eq)
  show ?thesis
  proof (cases "?k \<in> set (r_unitIds this)")
    case True
    then obtain k where k: "index_of (r_unitIds this) ?k = Some k" by fastforce
    have kth: "k < length (r_unitIds this)" "r_unitIds this ! k = ?k" using index_of_Some [OF k] by simp_all
    let ?a = "r_units this ! k"
    have a: "addresses this ?k = Some ?a" using index_of_map_of [OF k len] by (simp add: addresses_def)
    then have a': "?a < length h" "su_id (h ! ?a) = ?k" using result_okD [OF ok(1), of ?k ?a] by (simp_all add: addresses_def)
    have "r_units result ! k = ?a" "k < length (r_units result)"
      using kth len by (simp_all add: res or_result_def select_units_def nth_append)
    moreover have "joined h this (first_units i rhs) ?a = h ! ?a" "joined h this (first_units i rhs) ?b = h ! ?b"
      using first(2) a' b(3) by (simp_all add: joined_def)
    ultimately have run: "(case index_of (r_unitIds result) ?k of
            Some k \<Rightarrow> js_bind (js_at (r_units result) k) (\<lambda>l. js_bind (merge_units h' l ?b) (\<lambda>h. Inr (h, result)))
          | None \<Rightarrow> Inr (h', push_unit result ?k ?b)) = Inr (h'[?a := SearchUnit_merge (h ! ?a) (h ! ?b)], result)"
      using a'(1) b(2) by (simp add: ids index_of_append [OF True] k merge_units_def h')
    have "h'[?a := SearchUnit_merge (h ! ?a) (h ! ?b)] = map (joined h this (first_units (Suc i) rhs)) [0..<length h]"
    proof (rule nth_equalityI)
      fix c assume "c < length (h'[?a := SearchUnit_merge (h ! ?a) (h ! ?b)])"
      then show "h'[?a := SearchUnit_merge (h ! ?a) (h ! ?b)] ! c = map (joined h this (first_units (Suc i) rhs)) [0..<length h] ! c"
        using a a' by (auto simp: h' joined_def first nth_list_update)
    qed (simp add: h')
    moreover have "or_result this (first_units (Suc i) rhs) = result"
      using True i b(1) by (simp add: res or_result_def select_units_def first_units_def take_Suc_conv_app_nth)
    ultimately show ?thesis using run by simp
  next
    case False
    then have "addresses this ?k = None" using len by (simp add: addresses_def)
    then have "joined h this (first_units (Suc i) rhs) = joined h this (first_units i rhs)"
      by (auto simp: joined_def first fun_eq_iff)
    moreover have "or_result this (first_units (Suc i) rhs) = push_unit result ?k ?b"
      using False i b(1) by (simp add: res or_result_def select_units_def first_units_def push_unit_def take_Suc_conv_app_nth)
    moreover have "index_of (r_unitIds result) ?k = None" using False new by (auto simp: ids)
    ultimately show ?thesis by (simp add: h' del: index_of_None)
  qed
qed

lemma orMerge_run:
  assumes ok: "result_ok h this" "result_ok h rhs"
  shows "SingleResult_orMerge h this SingleResult_new rhs = Inr (map (joined h this rhs) [0..<length h], or_result this rhs)"
proof -
  let ?n = "length (r_unitIds rhs)"
  let ?I = "\<lambda>i acc. acc = (map (joined h this (first_units i rhs)) [0..<length h], or_result this (first_units i rhs))"
  have "joined h this (first_units 0 rhs) = (!) h" by (simp add: fun_eq_iff joined_def addresses_def first_units_def)
  then have "?I 0 (h, SingleResult_new\<lparr>r_unitIds := r_unitIds this, r_units := r_units this\<rparr>)"
    by (simp only: map_nth) (simp add: or_result_def select_units_def first_units_def)
  then have "\<exists>acc'. SingleResult_orMerge h this SingleResult_new rhs = Inr acc' \<and> ?I ?n acc'"
    unfolding SingleResult_orMerge_def
    by (rule js_fold_upt_inv) (use or_step [OF ok] result_ok_nth [OF ok(2)] in auto)
  moreover have "first_units ?n rhs = rhs" using ok(2) by (simp add: first_units_def result_ok_def)
  ultimately show ?thesis by simp
qed

lemma or_result_ok:
  assumes "result_ok h this" "result_ok h rhs"
  shows "zip (r_unitIds (or_result this rhs)) (r_units (or_result this rhs))
      = zip (r_unitIds this) (r_units this) @ filter ((\<lambda>k. k \<notin> set (r_unitIds this)) \<circ> fst) (zip (r_unitIds rhs) (r_units rhs))"
    and "result_ok h (or_result this rhs)"
proof -
  have len: "length (r_units this) = length (r_unitIds this)" "length (r_units rhs) = length (r_unitIds rhs)"
    using assms by (simp_all add: result_ok_def)
  show zip: "zip (r_unitIds (or_result this rhs)) (r_units (or_result this rhs))
      = zip (r_unitIds this) (r_units this) @ filter ((\<lambda>k. k \<notin> set (r_unitIds this)) \<circ> fst) (zip (r_unitIds rhs) (r_units rhs))"
    by (simp add: or_result_def select_units_def zip_append len(1) zip_filter_fst [OF len(2)])
  show "result_ok h (or_result this rhs)"
    unfolding result_ok_def zip using assms len
    by (auto simp: result_ok_def or_result_def select_units_def length_filter_fst [OF len(2)])
qed

lemma found_or:
  assumes "result_ok h this" "result_ok h rhs"
  shows "found (map (joined h this rhs) [0..<length h]) (or_result this rhs) k
      = join_option SearchUnit_merge (found h this k) (found h rhs k)"
proof -
  let ?T = "map_of (zip (r_unitIds this) (r_units this)) k" and ?R = "map_of (zip (r_unitIds rhs) (r_units rhs)) k"
  have none: "?T = None \<longleftrightarrow> k \<notin> set (r_unitIds this)" using assms(1) by (simp add: result_ok_def)
  have look: "map_of (zip (r_unitIds (or_result this rhs)) (r_units (or_result this rhs))) k
      = (case ?T of Some a \<Rightarrow> Some a | None \<Rightarrow> ?R)"
    using none by (cases ?T) (auto simp: or_result_ok [OF assms] map_add_def map_of_filter_fst split: option.split)
  note T = result_okD [OF assms(1), of k] and R = result_okD [OF assms(2), of k]
  show ?thesis
  proof (cases ?T)
    case (Some a)
    then show ?thesis using T [OF Some]
      by (cases ?R) (simp_all add: found_def look joined_def addresses_def)
  next
    case None
    then show ?thesis using R by (cases ?R) (simp_all add: found_def look joined_def addresses_def)
  qed
qed

text \<open>
  Merging two results of a store: it returns; the numbers are the intersection, union or
  difference; the units are as the abstract merge says; the store changes only at units of the
  first result, and no unit changes its number or loses its invariant.
\<close>

definition merge_post :: "unit_store \<Rightarrow> SingleResult \<Rightarrow> SingleResult \<Rightarrow> unit_store \<Rightarrow> SingleResult \<Rightarrow> bool" where
  "merge_post h this rhs h' r \<longleftrightarrow>
    r_unitIds r = merge_ids (r_or rhs) (r_not rhs) (r_unitIds this) (r_unitIds rhs) \<and>
    (\<forall>k. found h' r k = merge_found (r_or rhs) (r_not rhs) (found h this) (found h rhs) k) \<and>
    result_ok h' r \<and> store_ok h' \<and> map su_id h' = map su_id h \<and>
    (\<forall>a < length h. a \<notin> set (r_units this) \<longrightarrow> h' ! a = h ! a) \<and>
    set (r_units r) \<subseteq> set (r_units this) \<union> set (r_units rhs)"

lemma select_units_subset: "set (r_units (select_units P this result)) \<subseteq> set (r_units result) \<union> set (r_units this)"
  by (auto simp: select_units_def dest: set_zip_rightD)

lemma select_units_new: "set (r_units (select_units P this SingleResult_new)) \<subseteq> set (r_units this) \<union> B"
  by (auto simp: select_units_def SingleResult_new_def dest: set_zip_rightD)

lemma select_ids [simp]: "r_unitIds (select_units P this SingleResult_new) = filter P (r_unitIds this)"
  by (simp add: select_units_def SingleResult_new_def)

lemma or_post:
  assumes "result_ok h this" "result_ok h rhs" "store_ok h" "r_or rhs"
  shows "merge_post h this rhs (map (joined h this rhs) [0..<length h]) (or_result this rhs)"
proof -
  let ?h = "map (joined h this rhs) [0..<length h]"
  have ids: "map su_id ?h = map su_id h"
    by (rule nth_equalityI) (simp_all add: su_id_joined)
  have "unit_ok (joined h this rhs a)" if "a < length h" for a
    using that assms(3) result_okD(1) [OF assms(2), of "su_id (h ! a)"]
    by (auto simp: joined_def store_ok_def addresses_def intro!: merge_get split: option.split)
  then have "store_ok ?h" by (auto simp: store_ok_def)
  moreover have "joined h this rhs a = h ! a" if "a \<notin> set (r_units this)" for a
    using that result_okD(3) [OF assms(1), of "su_id (h ! a)" a] by (auto simp: joined_def addresses_def)
  moreover have "set (r_units (or_result this rhs)) \<subseteq> set (r_units this) \<union> set (r_units rhs)"
    using select_units_subset [of _ rhs] by (simp add: or_result_def) (metis (no_types, lifting) SingleResult.select_convs(1) SingleResult.surjective SingleResult.update_convs(1,2))
  ultimately show ?thesis
    using assms found_or [OF assms(1,2)] result_ok_cong [OF or_result_ok(2) [OF assms(1,2)] ids] ids
    by (simp add: merge_post_def merge_found_def merge_ids_def or_result_def select_units_def)
qed

lemma merge_correct:
  assumes "result_ok h this" "result_ok h rhs" "store_ok h"
  obtains h' r where "SingleResult_merge h this rhs = Inr (h', r)" "merge_post h this rhs h' r"
proof -
  have len: "length (r_units this) = length (r_unitIds this)" using assms(1) by (simp add: result_ok_def)
  note sel = select_ok [OF assms(1)] select_units_new [of _ this] found_None [OF assms(2)]
  consider (disj) "r_or rhs" | (excl) "\<not> r_or rhs" "r_not rhs" | (conj) "\<not> r_or rhs" "\<not> r_not rhs" by blast
  then show thesis
  proof cases
    case disj
    then show thesis using orMerge_run [OF assms(1,2)] or_post [OF assms]
      by (intro that) (simp_all add: SingleResult_merge_def)
  next
    case excl
    show thesis
    proof (rule that)
      show "SingleResult_merge h this rhs = Inr (h, select_units (\<lambda>k. k \<notin> set (r_unitIds rhs)) this SingleResult_new)"
        using excl select_loop [OF len, of "\<lambda>k. k \<notin> set (r_unitIds rhs)"]
        by (simp add: SingleResult_merge_def SingleResult_notMerge_def)
      show "merge_post h this rhs h (select_units (\<lambda>k. k \<notin> set (r_unitIds rhs)) this SingleResult_new)"
        using excl assms sel by (simp add: merge_post_def merge_ids_def merge_found_def)
    qed
  next
    case conj
    show thesis
    proof (rule that)
      show "SingleResult_merge h this rhs = Inr (h, select_units (\<lambda>k. k \<in> set (r_unitIds rhs)) this SingleResult_new)"
        using conj select_loop [OF len, of "\<lambda>k. k \<in> set (r_unitIds rhs)"]
        by (simp add: SingleResult_merge_def SingleResult_andMerge_def)
      show "merge_post h this rhs h (select_units (\<lambda>k. k \<in> set (r_unitIds rhs)) this SingleResult_new)"
        using conj assms sel by (simp add: merge_post_def merge_ids_def merge_found_def)
    qed
  qed
qed

section \<open>Folding the results of a search\<close>

text \<open>The reference semantics of a sequence of results, on numbers and on units: the first, then one by one.\<close>

definition eval_ids :: "SingleResult list \<Rightarrow> nat list" where
  "eval_ids rs = foldl (\<lambda>ks r. merge_ids (r_or r) (r_not r) ks (r_unitIds r)) (r_unitIds (hd rs)) (tl rs)"

definition eval_found :: "unit_store \<Rightarrow> SingleResult list \<Rightarrow> nat \<Rightarrow> SearchUnit option" where
  "eval_found h rs = foldl (\<lambda>f r. merge_found (r_or r) (r_not r) f (found h r)) (found h (hd rs)) (tl rs)"

text \<open>Results that share no unit, as those of different queries of one search.\<close>

definition apart :: "SingleResult list \<Rightarrow> bool" where
  "apart = sorted_wrt (\<lambda>r s. set (r_units r) \<inter> set (r_units s) = {})"

lemma found_nth_cong:
  assumes "result_ok h r" "\<forall>a < length h. a \<in> set (r_units r) \<longrightarrow> h' ! a = h ! a"
  shows "found h' r = found h r"
proof (rule found_cong [OF assms(1)])
  fix a assume a: "a \<in> set (r_units r)"
  then obtain i where "i < length (r_unitIds r)" "r_units r ! i = a"
    using assms(1) by (auto simp: in_set_conv_nth result_ok_def)
  then have "a < length h" using result_ok_nth(2) [OF assms(1)] by auto
  then show "h' ! a = h ! a" using assms(2) a by simp
qed

lemma merge_fold:
  assumes "result_ok h acc" "\<forall>r \<in> set rs. result_ok h r" "store_ok h"
  shows "\<exists>h' r'. js_fold (\<lambda>(h, rhs) r. SingleResult_merge h rhs r) (h, acc) rs = Inr (h', r')
    \<and> result_ok h' r' \<and> store_ok h' \<and> map su_id h' = map su_id h
    \<and> r_unitIds r' = foldl (\<lambda>ks r. merge_ids (r_or r) (r_not r) ks (r_unitIds r)) (r_unitIds acc) rs
    \<and> (apart (acc # rs) \<longrightarrow> found h' r' = foldl (\<lambda>f r. merge_found (r_or r) (r_not r) f (found h r)) (found h acc) rs)"
  using assms
proof (induction rs arbitrary: h acc)
  case (Cons r rs)
  have r: "result_ok h r" and rs: "\<forall>s \<in> set rs. result_ok h s" using Cons.prems by simp_all
  obtain h1 acc1 where m: "SingleResult_merge h acc r = Inr (h1, acc1)" and post: "merge_post h acc r h1 acc1"
    using merge_correct [OF Cons.prems(1) r Cons.prems(3)] by blast
  have rs1: "\<forall>s \<in> set rs. result_ok h1 s" using rs post by (auto simp: merge_post_def intro: result_ok_cong)
  obtain h' r' where IH: "js_fold (\<lambda>(h, rhs) r. SingleResult_merge h rhs r) (h1, acc1) rs = Inr (h', r')"
      "result_ok h' r'" "store_ok h'" "map su_id h' = map su_id h1"
      "r_unitIds r' = foldl (\<lambda>ks r. merge_ids (r_or r) (r_not r) ks (r_unitIds r)) (r_unitIds acc1) rs"
      "apart (acc1 # rs) \<longrightarrow> found h' r' = foldl (\<lambda>f r. merge_found (r_or r) (r_not r) f (found h1 r)) (found h1 acc1) rs"
    using Cons.IH [of h1 acc1] rs1 post by (auto simp: merge_post_def)
  have "found h' r' = foldl (\<lambda>f r. merge_found (r_or r) (r_not r) f (found h r)) (found h acc) (r # rs)"
    if ap: "apart (acc # r # rs)"
  proof -
    have "apart (acc1 # rs)" using ap post by (fastforce simp: apart_def merge_post_def)
    moreover have "found h1 s = found h s" if "s \<in> set rs" for s
    proof (rule found_nth_cong)
      have "set (r_units acc) \<inter> set (r_units s) = {}" using ap that by (auto simp: apart_def)
      then show "\<forall>a < length h. a \<in> set (r_units s) \<longrightarrow> h1 ! a = h ! a" using post by (auto simp: merge_post_def)
    qed (use that rs in simp)
    then have "foldl (\<lambda>f r. merge_found (r_or r) (r_not r) f (found h1 r)) a rs
        = foldl (\<lambda>f r. merge_found (r_or r) (r_not r) f (found h r)) a rs" for a
      by (intro foldl_cong) simp_all
    moreover have "found h1 acc1 = merge_found (r_or r) (r_not r) (found h acc) (found h r)"
      using post by (simp add: merge_post_def fun_eq_iff)
    ultimately show ?thesis using IH(6) by simp
  qed
  then show ?case using m IH post by (intro exI [of _ h'] exI [of _ r']) (simp add: merge_post_def)
qed simp

lemma mergeResults_correct:
  assumes "rs \<noteq> []" "\<forall>r \<in> set rs. result_ok h r" "store_ok h"
  shows "\<exists>h' r. mergeResults h rs = Inr (h', Some r) \<and> result_ok h' r \<and> store_ok h' \<and> map su_id h' = map su_id h
    \<and> r_unitIds r = eval_ids rs \<and> (apart rs \<longrightarrow> found h' r = eval_found h rs)"
proof -
  obtain r rest where "rs = r # rest" using assms(1) by (cases rs) auto
  then show ?thesis
    using merge_fold [of h r rest] assms(2,3) by (auto simp: mergeResults_def eval_ids_def eval_found_def)
qed

lemma getProposal_fold:
  assumes ok: "\<forall>r \<in> set rs. result_ok h r" "store_ok h" and n: "2 \<le> length rs"
  shows "\<exists>h'. js_fold (\<lambda>(h, proposals) i.
        js_bind (mergeResults h (omit_nth i rs)) (\<lambda>(h, result).
          case result of
            None \<Rightarrow> Inl (Throw ''TypeError'')
          | Some result \<Rightarrow> Inr (h, proposals @ [\<lparr>pr_omit = i, pr_expect = length (r_units result)\<rparr>])))
      (h, []) [0..<length rs]
    = Inr (h', map (\<lambda>i. \<lparr>pr_omit = i, pr_expect = length (eval_ids (omit_nth i rs))\<rparr>) [0..<length rs])
    \<and> store_ok h' \<and> map su_id h' = map su_id h"
proof -
  let ?f = "\<lambda>(h, proposals) i.
        js_bind (mergeResults h (omit_nth i rs)) (\<lambda>(h, result).
          case result of
            None \<Rightarrow> Inl (Throw ''TypeError'')
          | Some result \<Rightarrow> Inr (h, proposals @ [\<lparr>pr_omit = i, pr_expect = length (r_units result)\<rparr>]))"
  let ?p = "\<lambda>n. map (\<lambda>i. \<lparr>pr_omit = i, pr_expect = length (eval_ids (omit_nth i rs))\<rparr>) [0..<n]"
  let ?I = "\<lambda>n acc. snd acc = ?p n \<and> store_ok (fst acc) \<and> map su_id (fst acc) = map su_id h"
  have "?I 0 (h, [])" using ok(2) by simp
  then have "\<exists>acc'. js_fold ?f (h, []) [0..<length rs] = Inr acc' \<and> ?I (length rs) acc'"
  proof (rule js_fold_upt_inv)
    fix i acc
    assume i: "i < length rs" and "?I i acc"
    then obtain h1 where acc: "acc = (h1, ?p i)" "store_ok h1" "map su_id h1 = map su_id h" by (cases acc) auto
    have "(if i = 0 then 1 else 0) \<in> {j \<in> set [0..<length rs]. i \<noteq> j}" using n by auto
    then have "filter (\<lambda>j. i \<noteq> j) [0..<length rs] \<noteq> []" by (metis empty_iff set_filter list.set(1))
    then have ne: "omit_nth i rs \<noteq> []" by (simp add: omit_nth_def)
    have "set (omit_nth i rs) \<subseteq> set rs" by (auto simp: omit_nth_def)
    then have "\<forall>r \<in> set (omit_nth i rs). result_ok h1 r" using ok(1) acc(3) result_ok_cong by blast
    from mergeResults_correct [OF ne this acc(2)] obtain h' r where
      "mergeResults h1 (omit_nth i rs) = Inr (h', Some r)" "result_ok h' r" "store_ok h'" "map su_id h' = map su_id h1"
      "r_unitIds r = eval_ids (omit_nth i rs)" by blast
    moreover have "length (r_units r) = length (r_unitIds r)" using calculation(2) by (simp add: result_ok_def)
    ultimately show "\<exists>acc'. ?f acc i = Inr acc' \<and> ?I (Suc i) acc'" using acc by simp
  qed
  then show ?thesis by auto
qed

section \<open>Hits collected in a unit\<close>

text \<open>A sequence of hits, each a word, a position and whether it was found through its stem.\<close>

definition add_hits :: "SearchUnit \<Rightarrow> (jsstring \<times> nat \<times> bool) list \<Rightarrow> SearchUnit" where
  "add_hits = foldl (\<lambda>u (w, p, s). SearchUnit_addPosition u w p s)"

lemma unit_ok_new: "unit_ok (SearchUnit_new k)"
  by (simp add: unit_ok_def SearchUnit_new_def)

lemma add_hits_ok: "unit_ok u \<Longrightarrow> unit_ok (add_hits u hits)"
  by (induction hits rule: rev_induct) (auto simp: add_hits_def addPosition_ok)

text \<open>What the hits at one position leave there.\<close>

definition hits_at :: "(jsstring \<times> nat \<times> bool) list \<Rightarrow> nat \<Rightarrow> (jsstring \<times> nat \<times> bool) set" where
  "hits_at hits p = {hit \<in> set hits. fst (snd hit) = p}"

definition describes :: "(jsstring \<times> nat \<times> bool) list \<Rightarrow> nat \<Rightarrow> Position option \<Rightarrow> bool" where
  "describes hits p x \<longleftrightarrow> (case x of
      None \<Rightarrow> hits_at hits p = {}
    | Some pos \<Rightarrow> p_position pos = p \<and> p_word pos \<in> fst ` hits_at hits p
        \<and> (\<forall>hit \<in> hits_at hits p. length (fst hit) \<le> length (p_word pos))
        \<and> (p_stemmed pos \<longleftrightarrow> (\<forall>hit \<in> hits_at hits p. snd (snd hit))))"

lemma hits_at_snoc: "hits_at (hits @ [(w, q, s)]) p = hits_at hits p \<union> (if p = q then {(w, q, s)} else {})"
  by (auto simp: hits_at_def)

lemma describes_None: "describes hits p x \<Longrightarrow> x = None \<longleftrightarrow> hits_at hits p = {}"
  by (auto simp: describes_def split: option.splits)

lemma describes_snoc:
  assumes "describes hits p x"
  shows "describes (hits @ [(w, p, s)]) p (join_option join_position x (Some \<lparr>p_word = w, p_position = p, p_stemmed = s\<rparr>))"
proof (cases x)
  case None
  then show ?thesis using assms by (simp add: describes_def hits_at_snoc)
next
  case (Some pos)
  then have pos: "p_position pos = p" "p_word pos \<in> fst ` hits_at hits p"
    "\<forall>hit \<in> hits_at hits p. length (fst hit) \<le> length (p_word pos)"
    "p_stemmed pos \<longleftrightarrow> (\<forall>hit \<in> hits_at hits p. snd (snd hit))"
    using assms by (simp_all add: describes_def)
  show ?thesis
  proof (cases "length (p_word pos) < length w")
    case True
    then have "\<forall>hit \<in> hits_at hits p. length (fst hit) \<le> length w" using pos(3) by fastforce
    then show ?thesis using True Some pos(1,4) by (simp add: describes_def hits_at_snoc join_position_def conj_commute)
  next
    case False
    then show ?thesis using Some pos by (simp add: describes_def hits_at_snoc join_position_def conj_commute)
  qed
qed

lemma describes_other: "describes hits p x \<Longrightarrow> p \<noteq> q \<Longrightarrow> describes (hits @ [(w, q, s)]) p x"
  by (simp add: describes_def hits_at_snoc split: option.splits)

lemma add_hits_describes: "describes hits p (obj_get (su_positions (add_hits (SearchUnit_new k) hits)) p)"
proof (induction hits rule: rev_induct)
  case Nil
  then show ?case by (simp add: describes_def add_hits_def SearchUnit_new_def hits_at_def)
next
  case (snoc hit hits)
  obtain w q s where hit: "hit = (w, q, s)" by (cases hit)
  have "add_hits (SearchUnit_new k) (hits @ [hit]) = SearchUnit_addPosition (add_hits (SearchUnit_new k) hits) w q s"
    by (simp add: add_hits_def hit)
  then show ?case using describes_snoc [OF snoc.IH] describes_other [OF snoc.IH] by (cases "p = q") (simp_all add: hit addPosition_get)
qed

lemma getPositions_ok:
  assumes "unit_ok u"
  shows "SearchUnit_getPositions u = map snd (su_positions u)" "map p_position (SearchUnit_getPositions u) = map fst (su_positions u)"
proof -
  have pos: "map p_position (map snd (su_positions u)) = map fst (su_positions u)"
    using assms by (auto simp: unit_ok_def obj_ok_mem)
  have "sorted (map fst (su_positions u))" using assms by (simp add: unit_ok_def obj_ok_def strict_sorted_iff)
  then show "SearchUnit_getPositions u = map snd (su_positions u)"
    unfolding SearchUnit_getPositions_def by (intro sort_key_id_if_sorted) (simp only: pos)
  then show "map p_position (SearchUnit_getPositions u) = map fst (su_positions u)" using pos by simp
qed

subsection \<open>A store for the witnesses\<close>

text \<open>Three units for the documents 0, 1 and 0; the first result has documents 0 and 1, the second 0.\<close>

definition sample_store :: unit_store where
  "sample_store = [add_hits (SearchUnit_new 0) [([97], 3, True)], SearchUnit_new 1, add_hits (SearchUnit_new 0) [([98, 99], 3, False)]]"

definition sample_result :: "bool \<Rightarrow> bool \<Rightarrow> nat list \<Rightarrow> nat list \<Rightarrow> SingleResult" where
  "sample_result isOr isNot ids addrs = \<lparr>r_units = addrs, r_unitIds = ids, r_or = isOr, r_not = isNot, r_searchWord = [97]\<rparr>"

lemma sample_ok:
  "store_ok sample_store" "result_ok sample_store (sample_result o1 n1 [0, 1] [0, 1])" "result_ok sample_store (sample_result o2 n2 [0] [2])"
proof -
  show "store_ok sample_store" by (simp add: store_ok_def sample_store_def add_hits_ok unit_ok_new)
  have "su_id (add_hits u hits) = su_id u" for u hits
    by (induction hits rule: rev_induct) (auto simp: add_hits_def)
  then show "result_ok sample_store (sample_result o1 n1 [0, 1] [0, 1])" "result_ok sample_store (sample_result o2 n2 [0] [2])"
    by (simp_all add: result_ok_def sample_result_def sample_store_def SearchUnit_new_def)
qed

section \<open>Properties\<close>

text \<open>
  Collecting hits in a unit: whatever hits are added to a fresh unit, in any order and with
  repetitions, its size is the number of different positions hit; at each position it keeps one of
  the words found there, a longest one, and counts it as found through the stem only if every hit
  there was; \<^verbatim>\<open>getPositions\<close> lists exactly the stored positions in ascending order.
\<close>

theorem SearchUnit_hits_correct:
  fixes hits :: "(jsstring \<times> nat \<times> bool) list" and unitId :: nat
  defines "u \<equiv> add_hits (SearchUnit_new unitId) hits"
  shows "SearchUnit_size u = card ((\<lambda>(w, p, s). p) ` set hits)
    \<and> (\<forall>p. describes hits p (SearchUnit_get u p))
    \<and> sorted_wrt (<) (map p_position (SearchUnit_getPositions u))
    \<and> set (SearchUnit_getPositions u) = {pos. \<exists>p. SearchUnit_get u p = Some pos}"
proof -
  have ok: "unit_ok u" by (simp add: u_def add_hits_ok unit_ok_new)
  then have obj: "obj_ok (su_positions u)" by (simp add: unit_ok_def)
  have "fst ` set (su_positions u) = {p. hits_at hits p \<noteq> {}}"
    using describes_None [OF add_hits_describes [of hits _ unitId]] map_of_eq_None_iff [of "su_positions u"]
    unfolding u_def [symmetric] obj_get_def by blast
  then have "fst ` set (su_positions u) = (\<lambda>(w, p, s). p) ` set hits"
    by (force simp: hits_at_def image_iff split_beta)
  then have "SearchUnit_size u = card ((\<lambda>(w, p, s). p) ` set hits)"
    using ok distinct_card [OF obj_ok_distinct [OF obj]] by (simp add: SearchUnit_size_def unit_ok_def)
  moreover have "set (SearchUnit_getPositions u) = {pos. \<exists>p. SearchUnit_get u p = Some pos}"
    by (force simp: getPositions_ok [OF ok] SearchUnit_get_def obj_ok_mem [OF obj, symmetric] image_iff)
  ultimately show ?thesis
    using add_hits_describes [of hits _ unitId] obj
    by (simp add: SearchUnit_get_def u_def [symmetric] getPositions_ok(2) [OF ok] obj_ok_def)
qed

text \<open>
  C28.  Merging two results, whatever units they share: in a store whose units satisfy their
  invariant, merging well-formed results returns a well-formed result; its documents are those of
  both for a plain query, those of either for a disjunction, those of the first only for an
  exclusion, without repetition; a document found by both sides of a disjunction gets the hits of
  both; every other well-formed result stays well formed.
\<close>

theorem SingleResult_merge_correct:
  assumes "result_ok h this" "result_ok h rhs" "store_ok h"
  shows "\<exists>h' r. SingleResult_merge h this rhs = Inr (h', r)
    \<and> set (r_unitIds r) =
        (if r_or rhs then set (r_unitIds this) \<union> set (r_unitIds rhs)
         else if r_not rhs then set (r_unitIds this) - set (r_unitIds rhs)
         else set (r_unitIds this) \<inter> set (r_unitIds rhs))
    \<and> distinct (r_unitIds r)
    \<and> (\<forall>k. found h' r k = merge_found (r_or rhs) (r_not rhs) (found h this) (found h rhs) k)
    \<and> store_ok h' \<and> (\<forall>r0. result_ok h r0 \<longrightarrow> result_ok h' r0)"
proof -
  obtain h' r where m: "SingleResult_merge h this rhs = Inr (h', r)" "merge_post h this rhs h' r"
    using merge_correct [OF assms] .
  moreover have "distinct (r_unitIds r)" using m(2) unfolding merge_post_def result_ok_def by blast
  moreover have "\<forall>r0. result_ok h r0 \<longrightarrow> result_ok h' r0" using m(2) result_ok_cong by (auto simp: merge_post_def)
  ultimately show ?thesis by (auto simp: merge_post_def merge_ids_def)
qed

theorem SingleResult_merge_correct_witness:
  "\<exists>h' r. SingleResult_merge sample_store (sample_result False False [0, 1] [0, 1]) (sample_result True False [0] [2]) = Inr (h', r)
    \<and> set (r_unitIds r) = {0, 1} \<and> distinct (r_unitIds r)"
  using SingleResult_merge_correct [of sample_store "sample_result False False [0, 1] [0, 1]" "sample_result True False [0] [2]"]
    sample_ok by (auto simp: sample_result_def)

text \<open>
  C27.  The summary of a search implements the reference semantics: for a non-empty sequence of
  well-formed results that share no units, \<^verbatim>\<open>mergeResult\<close> stores the documents and hits obtained by
  combining the results from left to right with the abstract operations.
\<close>

theorem SearchSummary_mergeResult_correct:
  assumes "s_sourceResults s \<noteq> []" "\<forall>r \<in> set (s_sourceResults s). result_ok h r" "store_ok h" "apart (s_sourceResults s)"
  shows "\<exists>h' r. SearchSummary_mergeResult h s = Inr (h', s\<lparr>s_result := Some r\<rparr>)
    \<and> r_unitIds r = eval_ids (s_sourceResults s) \<and> (\<forall>k. found h' r k = eval_found h (s_sourceResults s) k)
    \<and> result_ok h' r \<and> SearchSummary_size (s\<lparr>s_result := Some r\<rparr>) = Inr (length (eval_ids (s_sourceResults s)))"
proof -
  obtain h' r where r: "mergeResults h (s_sourceResults s) = Inr (h', Some r)" "result_ok h' r"
      "r_unitIds r = eval_ids (s_sourceResults s)" "found h' r = eval_found h (s_sourceResults s)"
    using mergeResults_correct [OF assms(1,2,3)] assms(4) by blast
  moreover have "length (r_units r) = length (eval_ids (s_sourceResults s))" using r(2,3) by (simp add: result_ok_def)
  ultimately show ?thesis
    by (intro exI [of _ h'] exI [of _ r]) (simp add: SearchSummary_mergeResult_def SearchSummary_size_def)
qed

theorem SearchSummary_mergeResult_correct_witness:
  "\<exists>h' r. SearchSummary_mergeResult sample_store \<lparr>s_sourceResults = [sample_result False False [0, 1] [0, 1], sample_result False True [0] [2]], s_result = None\<rparr>
      = Inr (h', \<lparr>s_sourceResults = [sample_result False False [0, 1] [0, 1], sample_result False True [0] [2]], s_result = Some r\<rparr>)
    \<and> r_unitIds r = [1]"
  using SearchSummary_mergeResult_correct [of "\<lparr>s_sourceResults = [sample_result False False [0, 1] [0, 1], sample_result False True [0] [2]], s_result = None\<rparr>" sample_store]
    sample_ok by (auto simp: sample_result_def apart_def eval_ids_def merge_ids_def)

text \<open>
  The proposals of a search with at least two queries: one for each query left out, announcing
  the number of documents the other queries find, in descending order of these numbers.
\<close>

theorem SearchSummary_getProposal_correct:
  assumes "2 \<le> length (s_sourceResults s)" "\<forall>r \<in> set (s_sourceResults s). result_ok h r" "store_ok h"
  shows "\<exists>h' ps. SearchSummary_getProposal h s = Inr (h', ps)
    \<and> mset ps = mset (map (\<lambda>i. \<lparr>pr_omit = i, pr_expect = length (eval_ids (omit_nth i (s_sourceResults s)))\<rparr>)
                     [0..<length (s_sourceResults s)])
    \<and> sorted_wrt (\<lambda>p q. pr_expect q \<le> pr_expect p) ps"
proof -
  obtain h' where "SearchSummary_getProposal h s = Inr (h', sort_key (\<lambda>p. - int (pr_expect p))
      (map (\<lambda>i. \<lparr>pr_omit = i, pr_expect = length (eval_ids (omit_nth i (s_sourceResults s)))\<rparr>) [0..<length (s_sourceResults s)]))"
    using getProposal_fold [OF assms(2,3,1)] by (auto simp: SearchSummary_getProposal_def)
  moreover have "sorted_wrt (\<lambda>p q. pr_expect q \<le> pr_expect p) (sort_key (\<lambda>p. - int (pr_expect p)) ps)" for ps
    using sorted_sort_key [of "\<lambda>p. - int (pr_expect p)" ps] by (simp add: sorted_wrt_map)
  ultimately show ?thesis by (simp add: mset_sort)
qed

theorem SearchSummary_getProposal_correct_witness:
  "\<exists>h' ps. SearchSummary_getProposal sample_store \<lparr>s_sourceResults = [sample_result False False [0, 1] [0, 1], sample_result False True [0] [2]], s_result = None\<rparr>
      = Inr (h', ps) \<and> mset ps = {#\<lparr>pr_omit = 0, pr_expect = 1\<rparr>, \<lparr>pr_omit = 1, pr_expect = 2\<rparr>#}"
  using SearchSummary_getProposal_correct [of "\<lparr>s_sourceResults = [sample_result False False [0, 1] [0, 1], sample_result False True [0] [2]], s_result = None\<rparr>" sample_store]
    sample_ok by (auto simp: sample_result_def eval_ids_def merge_ids_def omit_nth_def upt_rec numeral_2_eq_2)

text \<open>
  Searching for nothing: without queries the merged result is \<^verbatim>\<open>undefined\<close>, and asking for its
  size, as every search does next, throws a TypeError.  Likewise proposals for a single query throw.
\<close>

theorem SearchSummary_empty_throws:
  "js_bind (SearchSummary_mergeResult h SearchSummary_new) (\<lambda>(h, s). SearchSummary_size s) = Inl (Throw ''TypeError'')
    \<and> SearchSummary_getProposal h (SearchSummary_addQuery SearchSummary_new r) = Inl (Throw ''TypeError'')"
  by (simp add: SearchSummary_mergeResult_def SearchSummary_new_def SearchSummary_addQuery_def SearchSummary_size_def
      mergeResults_def SearchSummary_getProposal_def omit_nth_def)

text \<open>
  A leading exclusion is not an exclusion: the flags of the first query are ignored, so the
  query \<^verbatim>\<open>-a b\<close> finds the documents that contain both words.
\<close>

theorem SearchSummary_leading_not:
  assumes "result_ok h a" "r_not a" "result_ok h b" "\<not> r_or b" "\<not> r_not b" "store_ok h"
  shows "\<exists>h' r. mergeResults h [a, b] = Inr (h', Some r) \<and> set (r_unitIds r) = set (r_unitIds a) \<inter> set (r_unitIds b)"
  using mergeResults_correct [of "[a, b]" h] assms by (auto simp: eval_ids_def merge_ids_def)

theorem SearchSummary_leading_not_witness:
  "\<exists>h' r. mergeResults sample_store [sample_result False True [0, 1] [0, 1], sample_result False False [0] [2]] = Inr (h', Some r)
    \<and> set (r_unitIds r) = {0}"
  using SearchSummary_leading_not [of sample_store "sample_result False True [0, 1] [0, 1]" "sample_result False False [0] [2]"]
    sample_ok by (auto simp: sample_result_def)

text \<open>
  The sorted result: the units of the merged result, each as often as there, in descending
  order of score.
\<close>

theorem SearchSummary_getSortedResult_correct:
  assumes "s_result s = Some r"
  shows "\<exists>us. SearchSummary_getSortedResult h s = Inr us \<and> mset us = mset (r_units r)
    \<and> sorted_wrt (\<lambda>u v. su_score (h ! v) \<le> su_score (h ! u)) us"
  using assms sorted_sort_key [of "\<lambda>u. - su_score (h ! u)" "r_units r"]
  by (simp add: SearchSummary_getSortedResult_def mset_sort sorted_wrt_map)

theorem SearchSummary_getSortedResult_correct_witness:
  "\<exists>us. SearchSummary_getSortedResult sample_store \<lparr>s_sourceResults = [], s_result = Some (sample_result False False [0, 1] [0, 1])\<rparr> = Inr us
    \<and> mset us = {#0, 1#} \<and> sorted_wrt (\<lambda>u v. su_score (sample_store ! v) \<le> su_score (sample_store ! u)) us"
  using SearchSummary_getSortedResult_correct [of "\<lparr>s_sourceResults = [], s_result = Some (sample_result False False [0, 1] [0, 1])\<rparr>"
      "sample_result False False [0, 1] [0, 1]" sample_store]
  by (auto simp: sample_result_def)

end
