(* ===== verification/Metadata.thy ===== *)
theory Metadata
  imports Code_Table Search_Result
begin

text \<open>
  The metadata classes: \<^verbatim>\<open>Metadata\<close> and its subclasses \<^verbatim>\<open>Section\<close>, \<^verbatim>\<open>Splitter\<close>, \<^verbatim>\<open>Table\<close> and \<^verbatim>\<open>Block\<close>.
  Each marks the last characters of stretches of the indexed text in a bit vector and answers
  which stretch a position lies in, where it starts and what it contains.

  A subclass is a record that extends the record of the base class, whose methods take the
  record scheme.  The engine a method reaches through \<^verbatim>\<open>_parent\<close> is an argument; a method that
  pushes text returns it.  Registering loaded metadata with the parent is part of the engine.
\<close>

section \<open>The base class\<close>

text \<open>Decimal numerals, as \<^verbatim>\<open>n + ""\<close> prints them.\<close>

fun decimal :: "nat \<Rightarrow> jsstring" where
  "decimal n = (if n < 10 then [48 + n] else decimal (n div 10) @ [48 + n mod 10])"

declare decimal.simps [simp del]

definition decimal_int :: "int \<Rightarrow> jsstring" where
  "decimal_int i = (if i < 0 then 45 # decimal (nat (- i)) else decimal (nat i))"

definition throw_text :: "string \<Rightarrow> jsstring \<Rightarrow> string \<Rightarrow> js_error" where
  "throw_text before t behind = Throw (before @ map char_of t @ behind)"

record Metadata =
  md_bitVector :: BitVector

definition Metadata_size :: "'a Metadata_scheme \<Rightarrow> nat js" where
  "Metadata_size m = BitVector_rank (md_bitVector m) (bv_size (md_bitVector m)) True"

definition start_of :: "'a Metadata_scheme \<Rightarrow> nat \<Rightarrow> nat js" where
  "start_of m index =
    (if 0 < index then js_bind (BitVector_select (md_bitVector m) (index - 1) True) (\<lambda>p. Inr (p + 1)) else Inr 0)"

definition Metadata_getStartPosition :: "'a Metadata_scheme \<Rightarrow> int \<Rightarrow> nat js" where
  "Metadata_getStartPosition m index =
    js_bind (Metadata_size m) (\<lambda>size.
      if index < 0 \<or> int size \<le> index then Inl (throw_text ''Section.getContent() : range error '' (decimal_int index) [])
      else start_of m (nat index))"

definition Metadata_getContent :: "'b OktaviaCore_scheme \<Rightarrow> 'a Metadata_scheme \<Rightarrow> int \<Rightarrow> jsstring js" where
  "Metadata_getContent parent m index =
    js_bind (Metadata_size m) (\<lambda>size.
      if index < 0 \<or> int size \<le> index then Inl (throw_text ''Section.getContent() : range error '' (decimal_int index) [])
      else js_bind (start_of m (nat index)) (\<lambda>startPosition.
        js_bind (BitVector_select (md_bitVector m) (nat index) True) (\<lambda>tail.
          if tail + 1 < startPosition then Inl Undef
          else Oktavia_getSubstring parent startPosition (tail + 1 - startPosition))))"

definition Metadata_build :: "'a Metadata_scheme \<Rightarrow> 'a Metadata_scheme" where
  "Metadata_build m = m\<lparr>md_bitVector := BitVector_build (md_bitVector m)\<rparr>"

definition Metadata_dump :: "'a Metadata_scheme \<Rightarrow> CompressionReport option \<Rightarrow> (jsstring \<times> CompressionReport option) js" where
  "Metadata_dump m report = BitVector_dump (md_bitVector m) report"

definition Metadata_load :: "'a Metadata_scheme \<Rightarrow> jsstring \<Rightarrow> nat \<Rightarrow> ('a Metadata_scheme \<times> nat) js" where
  "Metadata_load m data offset =
    js_bind (BitVector_load data offset) (\<lambda>(bv, offset). Inr (m\<lparr>md_bitVector := bv\<rparr>, offset))"

text \<open>The stretch of a position, shared by sections and splitters; the messages differ.\<close>

definition index_at :: "js_error \<Rightarrow> 'a Metadata_scheme \<Rightarrow> int \<Rightarrow> nat js" where
  "index_at err m position =
    (if position < 0 \<or> int (BitVector_size (md_bitVector m)) \<le> position then Inl err
     else BitVector_rank (md_bitVector m) (nat position) True)"

text \<open>
  One round of the loop of \<^verbatim>\<open>grouping\<close>, the same in both classes: find the unit of the stretch,
  fill in its start, add the position relative to it.
\<close>

definition group_position ::
  "(nat \<Rightarrow> nat js) \<Rightarrow> (nat \<Rightarrow> nat js) \<Rightarrow> jsstring \<Rightarrow> bool \<Rightarrow> unit_store \<times> SingleResult \<Rightarrow> nat \<Rightarrow> (unit_store \<times> SingleResult) js" where
  "group_position sectionOf startOf word stemmed = (\<lambda>(h, result) position.
    js_bind (sectionOf position) (\<lambda>index.
    js_bind (SingleResult_getSearchUnit h result index) (\<lambda>(h, result, a).
    js_bind (js_at h a) (\<lambda>unit.
    js_bind (if su_startPosition unit < 0
             then js_bind (startOf index) (\<lambda>p. Inr (unit\<lparr>su_startPosition := int p\<rparr>))
             else Inr unit) (\<lambda>unit.
    if int position < su_startPosition unit then Inl Undef
    else js_bind (js_put h a (SearchUnit_addPosition unit word (nat (int position - su_startPosition unit)) stemmed)) (\<lambda>h.
      Inr (h, result)))))))"

section \<open>Sections\<close>

record Section = Metadata +
  sec_names :: "jsstring list"

definition Section_new :: Section where
  "Section_new = \<lparr>md_bitVector = BitVector_new, sec_names = []\<rparr>"

definition Section_setTailAt :: "Section \<Rightarrow> jsstring \<Rightarrow> nat \<Rightarrow> Section" where
  "Section_setTailAt s name index =
    s\<lparr>sec_names := sec_names s @ [name], md_bitVector := BitVector_set (md_bitVector s) (int index - 1) True\<rparr>"

definition Section_setTail :: "'b OktaviaCore_scheme \<Rightarrow> Section \<Rightarrow> jsstring \<Rightarrow> Section" where
  "Section_setTail parent s name =
    s\<lparr>sec_names := sec_names s @ [name], md_bitVector := BitVector_set (md_bitVector s) (int (Oktavia_contentSize parent) - 1) True\<rparr>"

definition Section_size :: "Section \<Rightarrow> nat" where
  "Section_size s = length (sec_names s)"

definition Section_getSectionIndex :: "Section \<Rightarrow> int \<Rightarrow> nat js" where
  "Section_getSectionIndex s position =
    index_at (throw_text ''Section.getSectionIndex() : range error '' (decimal_int position) []) s position"

definition Section_getName :: "Section \<Rightarrow> int \<Rightarrow> jsstring js" where
  "Section_getName s index =
    (if index < 0 \<or> int (length (sec_names s)) \<le> index then Inl (Throw ''Section.getName() : range error'')
     else js_at (sec_names s) (nat index))"

definition Section_getInformation :: "Section \<Rightarrow> int \<Rightarrow> jsstring js" where
  "Section_getInformation s index = Section_getName s index"

definition Section_grouping ::
  "Section \<Rightarrow> unit_store \<Rightarrow> SingleResult \<Rightarrow> nat list \<Rightarrow> jsstring \<Rightarrow> bool \<Rightarrow> (unit_store \<times> SingleResult) js" where
  "Section_grouping s h result positions word stemmed =
    js_fold (group_position (\<lambda>position. Section_getSectionIndex s (int position))
        (\<lambda>index. Metadata_getStartPosition s (int index)) word stemmed)
      (h, result) positions"

definition Section_dump :: "Section \<Rightarrow> CompressionReport option \<Rightarrow> (jsstring \<times> CompressionReport option) js" where
  "Section_dump s report =
    (let report = report_add report 1 1;
         (names, report) = Binary_dumpStringList (sec_names s) report
     in js_bind (Metadata_dump s report) (\<lambda>(d, report). Inr (Binary_dump16bitNumber 0 @ names @ d, report)))"

definition Section_load :: "jsstring \<Rightarrow> nat \<Rightarrow> (Section \<times> nat) js" where
  "Section_load data offset =
    js_bind (Binary_loadStringList data offset) (\<lambda>(strs, offset).
      Metadata_load (Section_new\<lparr>sec_names := strs\<rparr>) data offset)"

section \<open>Splitters\<close>

record Splitter = Metadata +
  sp_name :: "jsstring option"

definition Splitter_new :: Splitter where
  "Splitter_new = \<lparr>md_bitVector = BitVector_new, sp_name = None\<rparr>"

definition Splitter_named :: "jsstring \<Rightarrow> Splitter" where
  "Splitter_named name = \<lparr>md_bitVector = BitVector_new, sp_name = Some name\<rparr>"

definition Splitter_size :: "Splitter \<Rightarrow> nat js" where
  "Splitter_size s = BitVector_rank (md_bitVector s) (bv_size (md_bitVector s)) True"

definition Splitter_splitAt :: "Splitter \<Rightarrow> nat \<Rightarrow> Splitter" where
  "Splitter_splitAt s index = s\<lparr>md_bitVector := BitVector_set (md_bitVector s) (int index - 1) True\<rparr>"

definition Splitter_split :: "'b OktaviaCore_scheme \<Rightarrow> Splitter \<Rightarrow> Splitter" where
  "Splitter_split parent s =
    s\<lparr>md_bitVector := BitVector_set (md_bitVector s) (int (Oktavia_contentSize parent) - 1) True\<rparr>"

definition Splitter_getIndex :: "Splitter \<Rightarrow> int \<Rightarrow> nat js" where
  "Splitter_getIndex s position = index_at (Throw ''Section.getSectionIndex() : range error'') s position"

definition Splitter_grouping ::
  "Splitter \<Rightarrow> unit_store \<Rightarrow> SingleResult \<Rightarrow> nat list \<Rightarrow> jsstring \<Rightarrow> bool \<Rightarrow> (unit_store \<times> SingleResult) js" where
  "Splitter_grouping s h result positions word stemmed =
    js_fold (group_position (\<lambda>position. Splitter_getIndex s (int position))
        (\<lambda>index. Metadata_getStartPosition s (int index)) word stemmed)
      (h, result) positions"

definition Splitter_getInformation :: "Splitter \<Rightarrow> int \<Rightarrow> jsstring" where
  "Splitter_getInformation s index =
    (case sp_name s of Some name \<Rightarrow> name @ decimal_int (index + 1) | None \<Rightarrow> [])"

definition Splitter_dump :: "Splitter \<Rightarrow> CompressionReport option \<Rightarrow> (jsstring \<times> CompressionReport option) js" where
  "Splitter_dump s report =
    js_bind (Metadata_dump s (report_add report 1 1)) (\<lambda>(d, report). Inr (Binary_dump16bitNumber 1 @ d, report))"

definition Splitter_load :: "jsstring \<Rightarrow> nat \<Rightarrow> (Splitter \<times> nat) js" where
  "Splitter_load data offset = Metadata_load Splitter_new data offset"

section \<open>Tables\<close>

record Table = Metadata +
  tb_headers :: "jsstring list"
  tb_columnTails :: BitVector

definition Table_new :: "jsstring list \<Rightarrow> Table" where
  "Table_new headers = \<lparr>md_bitVector = BitVector_new, tb_headers = headers, tb_columnTails = BitVector_new\<rparr>"

definition Table_rowSize :: "Table \<Rightarrow> nat js" where
  "Table_rowSize t = BitVector_rank (md_bitVector t) (bv_size (md_bitVector t)) True"

definition Table_columnSize :: "Table \<Rightarrow> nat" where
  "Table_columnSize t = length (tb_headers t)"

definition Table_setColumnTail :: "'b OktaviaCore_scheme \<Rightarrow> Table \<Rightarrow> ('b OktaviaCore_scheme \<times> Table) js" where
  "Table_setColumnTail parent t =
    (let index = Oktavia_contentSize parent
     in js_bind (push_text parent [Oktavia_eob]) (\<lambda>parent.
       Inr (parent, t\<lparr>tb_columnTails := BitVector_set (tb_columnTails t) (int index - 1) True\<rparr>)))"

definition Table_setRowTail :: "'b OktaviaCore_scheme \<Rightarrow> Table \<Rightarrow> Table" where
  "Table_setRowTail parent t =
    t\<lparr>md_bitVector := BitVector_set (md_bitVector t) (int (Oktavia_contentSize parent) - 1) True\<rparr>"

definition Table_getCell :: "Table \<Rightarrow> int \<Rightarrow> (nat \<times> int) js" where
  "Table_getCell t position =
    (if position < 0 \<or> int (BitVector_size (md_bitVector t)) \<le> position
     then Inl (throw_text ''Section.getSectionIndex() : range error '' (decimal_int position) [])
     else js_bind (BitVector_rank (md_bitVector t) (nat position) True) (\<lambda>row.
       js_bind (BitVector_rank (tb_columnTails t) (nat position) True) (\<lambda>currentColumn.
       js_bind (if 0 < row
                then js_bind (BitVector_select (md_bitVector t) (row - 1) True) (\<lambda>p. BitVector_rank (tb_columnTails t) (p + 1) True)
                else Inr 0) (\<lambda>lastRowColumn.
       Inr (row, int currentColumn - int lastRowColumn)))))"

text \<open>\<^verbatim>\<open>split\<close> at a single character.\<close>

fun split_at :: "nat \<Rightarrow> jsstring \<Rightarrow> jsstring list" where
  "split_at sep [] = [[]]"
| "split_at sep (c # cs) =
    (if c = sep then [] # split_at sep cs
     else (case split_at sep cs of [] \<Rightarrow> [[c]] | w # ws \<Rightarrow> (c # w) # ws))"

definition Table_getRowContent :: "'b OktaviaCore_scheme \<Rightarrow> Table \<Rightarrow> int \<Rightarrow> (jsstring \<times> jsstring) list js" where
  "Table_getRowContent parent t rowIndex =
    js_bind (Metadata_getContent parent t rowIndex) (\<lambda>content.
      (let values = take (length (tb_headers t)) (split_at Oktavia_eob content)
       in Inr (foldl (\<lambda>result i. str_set (tb_headers t ! i) (if i < length values then values ! i else []) result)
            [] [0..<length (tb_headers t)])))"

definition Table_build :: "Table \<Rightarrow> Table" where
  "Table_build t = t\<lparr>md_bitVector := BitVector_build (md_bitVector t), tb_columnTails := BitVector_build (tb_columnTails t)\<rparr>"

definition Table_dump :: "Table \<Rightarrow> CompressionReport option \<Rightarrow> (jsstring \<times> CompressionReport option) js" where
  "Table_dump t report =
    (let report = report_add report 1 1;
         (names, report) = Binary_dumpStringList (tb_headers t) report
     in js_bind (Metadata_dump t report) (\<lambda>(d, report).
        js_bind (BitVector_dump (tb_columnTails t) report) (\<lambda>(d', report).
          Inr (Binary_dump16bitNumber 2 @ names @ d @ d', report))))"

definition Table_load :: "jsstring \<Rightarrow> nat \<Rightarrow> (Table \<times> nat) js" where
  "Table_load data offset =
    js_bind (Binary_loadStringList data offset) (\<lambda>(strs, offset).
    js_bind (Metadata_load (Table_new strs) data offset) (\<lambda>(t, offset).
    js_bind (BitVector_load data offset) (\<lambda>(columns, offset). Inr (t\<lparr>tb_columnTails := columns\<rparr>, offset))))"

section \<open>Blocks\<close>

record Block = Metadata +
  bl_names :: "jsstring list"
  bl_start :: bool

definition Block_new :: Block where
  "Block_new = \<lparr>md_bitVector = BitVector_new, bl_names = [], bl_start = False\<rparr>"

definition Block_startBlockAt :: "Block \<Rightarrow> jsstring \<Rightarrow> nat \<Rightarrow> Block js" where
  "Block_startBlockAt b blockName index =
    (if bl_start b
     then Inl (throw_text ''Splitter `'' (if bl_names b = [] then map of_char ''undefined'' else last (bl_names b)) ''` is not closed'')
     else Inr (b\<lparr>bl_start := True, bl_names := bl_names b @ [blockName],
       md_bitVector := BitVector_set (md_bitVector b) (int index - 1) True\<rparr>))"

definition Block_startBlock :: "'b OktaviaCore_scheme \<Rightarrow> Block \<Rightarrow> jsstring \<Rightarrow> Block js" where
  "Block_startBlock parent b blockName = Block_startBlockAt b blockName (Oktavia_contentSize parent)"

definition Block_endBlockAt :: "Block \<Rightarrow> nat \<Rightarrow> Block js" where
  "Block_endBlockAt b index =
    (if \<not> bl_start b then Inl (Throw ''Splitter is not started'')
     else Inr (b\<lparr>bl_start := False, md_bitVector := BitVector_set (md_bitVector b) (int index - 1) True\<rparr>))"

definition Block_endBlock :: "'b OktaviaCore_scheme \<Rightarrow> Block \<Rightarrow> Block js" where
  "Block_endBlock parent b = Block_endBlockAt b (Oktavia_contentSize parent)"

definition Block_size :: "Block \<Rightarrow> nat" where
  "Block_size b = length (bl_names b)"

definition Block_blockIndex :: "'b OktaviaCore_scheme \<Rightarrow> Block \<Rightarrow> int \<Rightarrow> nat js" where
  "Block_blockIndex parent b position =
    (if position < 0 \<or> int (FMIndex_size (ok_fmindex parent)) - 1 \<le> position
     then Inl (throw_text ''Block.blockIndex() : range error '' (decimal_int position) [])
     else if int (BitVector_size (md_bitVector b)) \<le> position
       then if BitVector_size (md_bitVector b) = 0 then Inl Undef
         else js_bind (BitVector_rank (md_bitVector b) (BitVector_size (md_bitVector b) - 1) True) (\<lambda>r. Inr (r + 1))
     else BitVector_rank (md_bitVector b) (nat position) True)"

definition Block_inBlock :: "'b OktaviaCore_scheme \<Rightarrow> Block \<Rightarrow> int \<Rightarrow> bool js" where
  "Block_inBlock parent b position =
    js_bind (Block_blockIndex parent b position) (\<lambda>blockIndex. Inr (blockIndex mod 2 \<noteq> 0))"

definition Block_getBlockContent :: "'b OktaviaCore_scheme \<Rightarrow> Block \<Rightarrow> int \<Rightarrow> jsstring js" where
  "Block_getBlockContent parent b position =
    js_bind (Block_blockIndex parent b position) (\<lambda>blockIndex.
      if blockIndex mod 2 \<noteq> 0 then Metadata_getContent parent b (int blockIndex) else Inr [])"

definition Block_getBlockName :: "'b OktaviaCore_scheme \<Rightarrow> Block \<Rightarrow> int \<Rightarrow> jsstring js" where
  "Block_getBlockName parent b position =
    js_bind (Block_blockIndex parent b position) (\<lambda>blockIndex.
      if blockIndex mod 2 \<noteq> 0 then js_at (bl_names b) (blockIndex div 2) else Inr [])"

definition Block_dump :: "Block \<Rightarrow> CompressionReport option \<Rightarrow> (jsstring \<times> CompressionReport option) js" where
  "Block_dump b report =
    (let report = report_add report 1 1;
         (names, report) = Binary_dumpStringList (bl_names b) report
     in js_bind (Metadata_dump b report) (\<lambda>(d, report). Inr (Binary_dump16bitNumber 3 @ names @ d, report)))"

definition Block_load :: "jsstring \<Rightarrow> nat \<Rightarrow> (Block \<times> nat) js" where
  "Block_load data offset =
    js_bind (Binary_loadStringList data offset) (\<lambda>(strs, offset).
      Metadata_load (Block_new\<lparr>bl_names := strs\<rparr>) data offset)"

section \<open>Stretches of a text\<close>

text \<open>
  The tails of consecutive stretches: strictly increasing positive numbers, each the length of the
  text up to and including its stretch.  Their marks are the bits at the last character of each.
\<close>

definition tails_ok :: "nat list \<Rightarrow> bool" where
  "tails_ok ts \<longleftrightarrow> sorted_wrt (<) ts \<and> 0 \<notin> set ts"

definition end_of :: "nat list \<Rightarrow> nat" where
  "end_of ts = (if ts = [] then 0 else last ts)"

definition marks :: "nat list \<Rightarrow> bool list" where
  "marks ts = map (\<lambda>p. Suc p \<in> set ts) [0..<end_of ts]"

text \<open>The stretch a position lies in, and the first position of a stretch.\<close>

definition stretch :: "nat list \<Rightarrow> nat \<Rightarrow> nat" where
  "stretch ts p = length (takeWhile (\<lambda>t. t \<le> p) ts)"

definition start :: "nat list \<Rightarrow> nat \<Rightarrow> nat" where
  "start ts i = (if i = 0 then 0 else ts ! (i - 1))"

lemma length_marks [simp]: "length (marks ts) = end_of ts"
  by (simp add: marks_def)

lemma tails_le_end: "tails_ok ts \<Longrightarrow> t \<in> set ts \<Longrightarrow> t \<le> end_of ts"
proof -
  assume ok: "tails_ok ts" and t: "t \<in> set ts"
  then obtain i where i: "i < length ts" "ts ! i = t" by (auto simp: in_set_conv_nth)
  have "sorted ts" using ok by (simp add: tails_ok_def strict_sorted_iff)
  then have "ts ! i \<le> ts ! (length ts - 1)" using i by (intro sorted_nth_mono) auto
  then show ?thesis using i t by (auto simp: end_of_def last_conv_nth)
qed

lemma end_in_tails: "ts \<noteq> [] \<Longrightarrow> end_of ts \<in> set ts"
  by (simp add: end_of_def)

lemma tails_distinct: "tails_ok ts \<Longrightarrow> distinct ts"
  by (simp add: tails_ok_def strict_sorted_iff)

lemma tails_mono: "tails_ok ts \<Longrightarrow> i < j \<Longrightarrow> j < length ts \<Longrightarrow> ts ! i < ts ! j"
  by (simp add: tails_ok_def sorted_wrt_nth_less)

lemma tails_le: "tails_ok ts \<Longrightarrow> i \<le> j \<Longrightarrow> j < length ts \<Longrightarrow> ts ! i \<le> ts ! j"
  using tails_mono [of ts i j] by (cases "i = j") auto

lemma takeWhile_filter: "sorted_wrt (<) ts \<Longrightarrow> takeWhile (\<lambda>t. t \<le> p) ts = filter (\<lambda>t. t \<le> p) ts" for p :: nat
  by (induction ts) (auto intro!: sym [OF filter_False])

lemma stretch_Suc:
  assumes "tails_ok ts"
  shows "stretch ts (Suc p) = stretch ts p + (if Suc p \<in> set ts then 1 else 0)"
proof -
  have "length (filter (\<lambda>t. t \<le> Suc p) ts) = length (filter (\<lambda>t. t \<le> p) ts) + length (filter (\<lambda>t. t = Suc p) ts)"
    by (induction ts) auto
  moreover have "length (filter (\<lambda>t. t = Suc p) ts) = (if Suc p \<in> set ts then 1 else 0)"
    using tails_distinct [OF assms] by (simp add: distinct_length_filter Collect_conv_if conj_commute)
  ultimately show ?thesis using assms by (simp add: stretch_def tails_ok_def takeWhile_filter)
qed

lemma stretch_0: "tails_ok ts \<Longrightarrow> stretch ts 0 = 0"
  by (cases ts) (auto simp: stretch_def tails_ok_def)

lemma rank_marks:
  assumes "tails_ok ts" "p \<le> end_of ts"
  shows "rank_list (marks ts) True p = stretch ts p"
  using assms(2)
proof (induction p)
  case (Suc p)
  then have "marks ts ! p = (Suc p \<in> set ts)" by (simp add: marks_def)
  then show ?case using Suc rank_list_Suc [of p "marks ts" True] stretch_Suc [OF assms(1), of p] by simp
qed (simp add: stretch_0 [OF assms(1)])

lemma stretch_spec:
  assumes "tails_ok ts" "p < end_of ts"
  shows "stretch ts p < length ts" "start ts (stretch ts p) \<le> p" "p < ts ! stretch ts p"
proof -
  have "ts \<noteq> []" using assms(2) by (auto simp: end_of_def)
  show lt: "stretch ts p < length ts"
  proof (rule ccontr)
    assume "\<not> stretch ts p < length ts"
    then have "takeWhile (\<lambda>t. t \<le> p) ts = ts"
      by (metis length_takeWhile_le linorder_not_less order_antisym_conv stretch_def takeWhile_eq_take take_all)
    then have "\<forall>t \<in> set ts. t \<le> p" by (simp add: takeWhile_eq_all_conv)
    then show False using end_in_tails [OF \<open>ts \<noteq> []\<close>] assms(2) by fastforce
  qed
  then show "p < ts ! stretch ts p"
    using nth_length_takeWhile [of "\<lambda>t. t \<le> p" ts] by (simp add: stretch_def)
  have "ts ! j \<le> p" if "j < stretch ts p" for j
    using that takeWhile_nth [of j "\<lambda>t. t \<le> p" ts] nth_mem [of j "takeWhile (\<lambda>t. t \<le> p) ts"]
    by (auto simp: stretch_def dest: set_takeWhileD)
  then show "start ts (stretch ts p) \<le> p" by (simp add: start_def)
qed

lemma stretch_unique:
  assumes "tails_ok ts" "i < length ts" "start ts i \<le> p" "p < ts ! i"
  shows "stretch ts p = i"
proof -
  have "p < end_of ts" using assms tails_le_end [OF assms(1) nth_mem [OF assms(2)]] by simp
  note s = stretch_spec [OF assms(1) this]
  show ?thesis
  proof (cases i "stretch ts p" rule: linorder_cases)
    case less
    then have "ts ! i \<le> start ts (stretch ts p)"
      using tails_le [OF assms(1), of i "stretch ts p - 1"] s(1) by (simp add: start_def)
    then show ?thesis using s(2) assms(4) by simp
  next
    case greater
    then have "ts ! stretch ts p \<le> start ts i"
      using tails_le [OF assms(1), of "stretch ts p" "i - 1"] assms(2) by (simp add: start_def)
    then show ?thesis using s(3) assms(3) by simp
  qed simp
qed

lemma start_less: "tails_ok ts \<Longrightarrow> i < length ts \<Longrightarrow> start ts i < ts ! i"
proof -
  assume ok: "tails_ok ts" and i: "i < length ts"
  have "ts ! i \<in> set ts" using i by simp
  then have "0 < ts ! i" using ok by (metis bot_nat_0.not_eq_extremum tails_ok_def)
  then show ?thesis using tails_mono [OF ok, of "i - 1" i] i by (auto simp: start_def)
qed

lemma select_marks:
  assumes "tails_ok ts" "i < length ts"
  shows "select_list (marks ts) True i = ts ! i - 1" "i < count_list (marks ts) True"
proof -
  have pos: "start ts i < ts ! i" by (rule start_less [OF assms])
  have le: "ts ! i \<le> end_of ts" using tails_le_end [OF assms(1)] assms(2) by simp
  have "stretch ts (ts ! i - 1) = i" using pos by (intro stretch_unique [OF assms]) auto
  then have rank: "rank_list (marks ts) True (ts ! i - 1) = i" using rank_marks [OF assms(1), of "ts ! i - 1"] le by simp
  moreover have "ts ! i - 1 < end_of ts" "Suc (ts ! i - 1) = ts ! i" using pos le by linarith+
  then have bit: "marks ts ! (ts ! i - 1)" using assms(2) by (simp add: marks_def)
  ultimately show "select_list (marks ts) True i = ts ! i - 1"
    using select_list_rank [of "ts ! i - 1" "marks ts" True] pos le by simp
  show "i < count_list (marks ts) True"
    using rank_list_Suc [of "ts ! i - 1" "marks ts" True] rank_list_le_count [of "Suc (ts ! i - 1)" "marks ts" True] rank bit pos le by simp
qed

lemma stretch_end: "tails_ok ts \<Longrightarrow> stretch ts (end_of ts) = length ts"
  using tails_le_end by (simp add: stretch_def takeWhile_eq_all_conv [THEN iffD2])

text \<open>Writing the tails one after the other makes these marks.\<close>

lemma write_marks:
  assumes "tails_ok ts"
  shows "foldl write_bit [] (map (\<lambda>t. (t - 1, True)) ts) = marks ts"
  using assms
proof (induction ts rule: rev_induct)
  case (snoc t ts)
  have ok: "tails_ok ts" and t: "0 < t" "\<forall>x \<in> set ts. x < t"
    using snoc.prems by (auto simp: tails_ok_def sorted_wrt_append)
  have fin: "end_of ts < t" using t end_in_tails [of ts] by (cases "ts = []") (auto simp: end_of_def)
  have "write_bit (marks ts) (t - 1, True) = marks (ts @ [t])"
  proof (rule nth_equalityI)
    fix p assume "p < length (write_bit (marks ts) (t - 1, True))"
    then have p: "p < t" using t(1) fin by (simp add: write_bit_def end_of_def split: if_splits)
    have "Suc p \<in> set ts \<Longrightarrow> p < end_of ts" using tails_le_end [OF ok, of "Suc p"] by simp
    then show "write_bit (marks ts) (t - 1, True) ! p = marks (ts @ [t]) ! p"
      using p t fin by (auto simp: write_bit_def marks_def end_of_def nth_append nth_list_update)
  qed (use fin t in \<open>simp add: write_bit_def end_of_def\<close>)
  then show ?case using snoc.IH [OF ok] by simp
qed (simp add: marks_def end_of_def)

subsection \<open>Rank and select on tails\<close>

context rank_dictionary
begin

lemma rank_tails: "ok s \<Longrightarrow> bits s = marks ts \<Longrightarrow> tails_ok ts \<Longrightarrow> p \<le> end_of ts \<Longrightarrow> rank_op s p True = Inr (stretch ts p)"
  using rank_law [of s p True] by (simp add: rank_marks)

lemma select_tails: "ok s \<Longrightarrow> bits s = marks ts \<Longrightarrow> tails_ok ts \<Longrightarrow> i < length ts \<Longrightarrow> select_op s i True = Inr (ts ! i - 1)"
  using select_op_eq [of s i True] by (simp add: select_marks)

end

definition cuts :: "BitVector \<Rightarrow> nat list \<Rightarrow> bool" where
  "cuts v ts \<longleftrightarrow> built v \<and> bits_of v = marks ts \<and> tails_ok ts"

lemma cuts_size: "cuts v ts \<Longrightarrow> bv_size v = end_of ts"
  by (metis cuts_def built_def length_bits_of length_marks)

lemma cuts_rank: "cuts v ts \<Longrightarrow> p \<le> end_of ts \<Longrightarrow> BitVector_rank v p True = Inr (stretch ts p)"
  unfolding cuts_def using bv.rank_tails by blast

lemma cuts_select: "cuts v ts \<Longrightarrow> i < length ts \<Longrightarrow> BitVector_select v i True = Inr (ts ! i - 1)"
  unfolding cuts_def using bv.select_tails by blast

lemmas cuts_simps = cuts_size cuts_rank cuts_select

lemma Metadata_size_cuts: "cuts (md_bitVector m) ts \<Longrightarrow> Metadata_size m = Inr (length ts)"
  using stretch_end [of ts] by (simp add: Metadata_size_def cuts_simps) (simp add: cuts_def)

lemma start_of_cuts:
  assumes "cuts (md_bitVector m) ts" "i < length ts"
  shows "start_of m i = Inr (start ts i)"
proof -
  have "i - 1 < length ts" "tails_ok ts" using assms by (auto simp: cuts_def)
  then have "0 < ts ! (i - 1)" using start_less [of ts "i - 1"] by linarith
  then show ?thesis using assms by (simp add: start_of_def start_def cuts_simps)
qed

lemma index_at_cuts:
  "cuts (md_bitVector m) ts \<Longrightarrow> index_at err m (int p) = (if p < end_of ts then Inr (stretch ts p) else Inl err)"
  by (simp add: index_at_def BitVector_size_def cuts_simps)

lemma getStartPosition_cuts:
  "cuts (md_bitVector m) ts \<Longrightarrow> i < length ts \<Longrightarrow> Metadata_getStartPosition m (int i) = Inr (start ts i)"
  by (simp add: Metadata_getStartPosition_def Metadata_size_cuts start_of_cuts)

lemma getContent_cuts:
  assumes "cuts (md_bitVector m) ts" "i < length ts"
  shows "Metadata_getContent parent m (int i) = Oktavia_getSubstring parent (start ts i) (ts ! i - start ts i)"
proof -
  have "start ts i < ts ! i" using start_less assms by (simp add: cuts_def)
  then show ?thesis using assms by (simp add: Metadata_getContent_def Metadata_size_cuts start_of_cuts cuts_simps)
qed

text \<open>Vectors to which tails were added one by one.\<close>

definition marked_at :: "BitVector \<Rightarrow> nat list \<Rightarrow> bool" where
  "marked_at v ts \<longleftrightarrow> tails_ok ts \<and> v = foldl (\<lambda>v w. BitVector_set v (int (fst w)) (snd w)) BitVector_new (map (\<lambda>t. (t - 1, True)) ts)"

lemma marked_at_new: "marked_at BitVector_new []"
  by (simp add: marked_at_def tails_ok_def)

lemma marked_at_snoc: "marked_at v ts \<Longrightarrow> end_of ts < t \<Longrightarrow> marked_at (BitVector_set v (int t - 1) True) (ts @ [t])"
  using tails_le_end [of ts] by (fastforce simp: marked_at_def tails_ok_def sorted_wrt_append of_nat_diff)

lemma marked_at_build: "marked_at v ts \<Longrightarrow> cuts (BitVector_build v) ts"
  using built_set_all [of "map (\<lambda>t. (t - 1, True)) ts"] write_marks [of ts] by (simp add: marked_at_def cuts_def)

section \<open>Grouping hits by stretch\<close>

lemma startPosition_addPosition:
  "SearchUnit_addPosition (u\<lparr>su_startPosition := s\<rparr>) w p st = (SearchUnit_addPosition u w p st)\<lparr>su_startPosition := s\<rparr>"
  by (simp add: SearchUnit_addPosition_def Let_def split: option.splits)

lemma unit_ok_startPosition [simp]: "unit_ok (u\<lparr>su_startPosition := s\<rparr>) = unit_ok u"
  by (simp add: unit_ok_def)

text \<open>What one round does to the meaning of the result.\<close>

definition group_post :: "nat \<Rightarrow> SearchUnit \<Rightarrow> unit_store \<Rightarrow> SingleResult \<Rightarrow> unit_store \<Rightarrow> SingleResult \<Rightarrow> bool" where
  "group_post k u h r h' r' \<longleftrightarrow> result_ok h' r' \<and> store_ok h' \<and> found h' r' = (found h r)(k \<mapsto> u)
    \<and> length h \<le> length h' \<and> set (r_units r') \<subseteq> set (r_units r) \<union> {length h..<length h'}
    \<and> (\<forall>a < length h. a \<notin> set (r_units r) \<longrightarrow> h' ! a = h ! a) \<and> r_or r' = r_or r \<and> r_not r' = r_not r
    \<and> map su_id (take (length h) h') = map su_id h"

lemma new_unit_post:
  assumes r: "result_ok h r" "store_ok h" "k \<notin> set (r_unitIds r)" and u: "unit_ok u" "su_id u = k"
  shows "group_post k u h r (h @ [u]) (r\<lparr>r_units := r_units r @ [length h], r_unitIds := r_unitIds r @ [k]\<rparr>)"
proof -
  let ?r = "r\<lparr>r_units := r_units r @ [length h], r_unitIds := r_unitIds r @ [k]\<rparr>"
  have len: "length (r_units r) = length (r_unitIds r)" using r(1) by (simp add: result_ok_def)
  have none: "map_of (zip (r_unitIds r) (r_units r)) k = None" using r(3) len by simp
  have zip: "map_of (zip (r_unitIds ?r) (r_units ?r)) = (map_of (zip (r_unitIds r) (r_units r)))(k \<mapsto> length h)"
    using map_of_snoc [OF none] len by (simp del: map_of_append)
  have "found (h @ [u]) ?r j = ((found h r)(k \<mapsto> u)) j" for j
  proof (cases "j = k")
    case False
    then show ?thesis using result_okD(1) [OF r(1), of j] unfolding found_def zip
      by (cases "map_of (zip (r_unitIds r) (r_units r)) j") (simp_all add: nth_append)
  next
    case True
    then show ?thesis unfolding found_def zip by simp
  qed
  then have found: "found (h @ [u]) ?r = (found h r)(k \<mapsto> u)" by (intro ext) simp
  have ok: "result_ok (h @ [u]) ?r" using r u len by (auto simp: result_ok_def nth_append)
  have "store_ok (h @ [u])" using r(2) u by (auto simp: store_ok_def)
  then show ?thesis using found ok by (simp add: group_post_def nth_append)
qed

lemma old_unit_post:
  assumes r: "result_ok h r" "store_ok h" and a: "addresses r k = Some a" and u: "unit_ok u" "su_id u = k"
  shows "group_post k u h r (h[a := u]) r"
proof -
  note ra = result_okD [OF r(1) a [unfolded addresses_def]]
  have ids: "map su_id (h[a := u]) = map su_id h"
    using ra u by (simp add: map_update list_update_same_conv)
  have "found (h[a := u]) r j = ((found h r)(k \<mapsto> u)) j" for j
  proof (cases "map_of (zip (r_unitIds r) (r_units r)) j")
    case None
    then have "j \<noteq> k" using a by (auto simp: addresses_def)
    then show ?thesis using None by (simp add: found_def)
  next
    case (Some b)
    have "j = k \<Longrightarrow> a = b" using a Some by (simp add: addresses_def)
    moreover have "a = b \<Longrightarrow> j = k" using ra(2) result_okD(2) [OF r(1) Some] by blast
    ultimately have "a = b \<longleftrightarrow> j = k" by blast
    then show ?thesis using Some ra(1) by (cases "j = k") (simp_all add: found_def)
  qed
  moreover have "store_ok (h[a := u])" using r(2) u(1) set_update_subset_insert [of h a u] by (auto simp: store_ok_def)
  moreover have "\<forall>b < length h. b \<notin> set (r_units r) \<longrightarrow> h[a := u] ! b = h ! b" using ra(3) by (metis nth_list_update_neq)
  ultimately show ?thesis using result_ok_cong [OF r(1) ids] ids by (simp add: group_post_def fun_eq_iff)
qed

lemma group_step:
  assumes r: "result_ok h r" "store_ok h" and idx: "sectionOf p = Inr k" "startOf k = Inr s" "s \<le> p"
    and st: "\<And>u. found h r k = Some u \<Longrightarrow> su_startPosition u = int s"
  shows "\<exists>h' r'. group_position sectionOf startOf word stemmed (h, r) p = Inr (h', r')
    \<and> group_post k (SearchUnit_addPosition ((case found h r k of Some u \<Rightarrow> u | None \<Rightarrow> SearchUnit_new k)\<lparr>su_startPosition := int s\<rparr>) word (p - s) stemmed) h r h' r'"
proof (cases "index_of (r_unitIds r) k")
  case None
  then have k: "k \<notin> set (r_unitIds r)" by simp
  let ?u = "SearchUnit_addPosition ((SearchUnit_new k)\<lparr>su_startPosition := int s\<rparr>) word (p - s) stemmed"
  have "unit_ok ?u" "su_id ?u = k" by (simp_all add: addPosition_ok unit_ok_new) (simp add: SearchUnit_new_def)
  moreover have "group_position sectionOf startOf word stemmed (h, r) p
      = Inr (h @ [?u], r\<lparr>r_units := r_units r @ [length h], r_unitIds := r_unitIds r @ [k]\<rparr>)"
    using idx None by (simp add: group_position_def SingleResult_getSearchUnit_def SearchUnit_new_def nat_diff_distrib del: index_of_None)
  moreover have "found h r k = None" using found_None [OF r(1)] k by simp
  ultimately show ?thesis using new_unit_post [OF r k, of ?u] by simp
next
  case (Some e)
  have len: "length (r_units r) = length (r_unitIds r)" using r(1) by (simp add: result_ok_def)
  have e: "e < length (r_units r)" using index_of_Some [OF Some] len by simp
  have a: "addresses r k = Some (r_units r ! e)" using index_of_map_of [OF Some len] by (simp add: addresses_def)
  note ra = result_okD [OF r(1) a [unfolded addresses_def]]
  let ?u0 = "h ! (r_units r ! e)"
  have f: "found h r k = Some ?u0" using a by (simp add: found_def addresses_def)
  have s: "su_startPosition ?u0 = int s" by (rule st [OF f])
  then have same: "?u0\<lparr>su_startPosition := int s\<rparr> = ?u0" by simp
  let ?u = "SearchUnit_addPosition ?u0 word (p - s) stemmed"
  have "unit_ok ?u" using r(2) ra(1) by (auto simp: store_ok_def intro: addPosition_ok)
  moreover have "su_id ?u = k" using ra(2) by simp
  moreover have "group_position sectionOf startOf word stemmed (h, r) p = Inr (h[r_units r ! e := ?u], r)"
    using idx Some e ra(1) s by (simp add: group_position_def SingleResult_getSearchUnit_def nat_diff_distrib)
  ultimately show ?thesis using old_unit_post [OF r a, of ?u] same by (simp add: f)
qed

text \<open>
  Grouping the positions of a list from an empty result, for any way of assigning stretches: the
  unit of a stretch has collected the positions in it, relative to its start; all units are new.
\<close>

definition group_hits :: "(nat \<Rightarrow> nat) \<Rightarrow> (nat \<Rightarrow> nat) \<Rightarrow> jsstring \<Rightarrow> bool \<Rightarrow> nat list \<Rightarrow> nat \<Rightarrow> (jsstring \<times> nat \<times> bool) list" where
  "group_hits sec st word stemmed ps k = map (\<lambda>p. (word, p - st k, stemmed)) (filter (\<lambda>p. sec p = k) ps)"

definition group_unit :: "(nat \<Rightarrow> nat) \<Rightarrow> (nat \<Rightarrow> nat) \<Rightarrow> jsstring \<Rightarrow> bool \<Rightarrow> nat list \<Rightarrow> nat \<Rightarrow> SearchUnit option" where
  "group_unit sec st word stemmed ps k =
    (if k \<in> sec ` set ps
     then Some ((add_hits (SearchUnit_new k) (group_hits sec st word stemmed ps k))\<lparr>su_startPosition := int (st k)\<rparr>)
     else None)"

lemma group_unit_snoc:
  "group_unit sec st word stemmed (ps @ [p]) =
    (group_unit sec st word stemmed ps)(sec p \<mapsto>
      SearchUnit_addPosition ((case group_unit sec st word stemmed ps (sec p) of Some u \<Rightarrow> u | None \<Rightarrow> SearchUnit_new (sec p))
        \<lparr>su_startPosition := int (st (sec p))\<rparr>) word (p - st (sec p)) stemmed)"
proof -
  have none: "k \<notin> sec ` set ps \<Longrightarrow> group_hits sec st word stemmed ps k = []" for k
    by (auto simp: group_hits_def filter_empty_conv)
  have add: "group_hits sec st word stemmed (ps @ [p]) k
      = group_hits sec st word stemmed ps k @ (if sec p = k then [(word, p - st k, stemmed)] else [])" for k
    by (simp add: group_hits_def)
  have hits: "add_hits u (hits @ [(w, q, s)]) = SearchUnit_addPosition (add_hits u hits) w q s" "add_hits u [] = u"
    "add_hits u [(w, q, s)] = SearchUnit_addPosition u w q s" for u hits w q s
    by (simp_all add: add_hits_def)
  show ?thesis
  proof
    fix k
    show "group_unit sec st word stemmed (ps @ [p]) k = ((group_unit sec st word stemmed ps)(sec p \<mapsto>
      SearchUnit_addPosition ((case group_unit sec st word stemmed ps (sec p) of Some u \<Rightarrow> u | None \<Rightarrow> SearchUnit_new (sec p))
        \<lparr>su_startPosition := int (st (sec p))\<rparr>) word (p - st (sec p)) stemmed)) k"
      using none [of k]
      by (cases "k = sec p"; cases "k \<in> sec ` set ps") (simp_all add: group_unit_def add hits startPosition_addPosition)
  qed
qed

lemma grouping_fold:
  assumes h: "store_ok h" and r: "r_units r = []" "r_unitIds r = []"
    and ps: "\<And>p. p \<in> set ps \<Longrightarrow> sectionOf p = Inr (sec p) \<and> startOf (sec p) = Inr (st (sec p)) \<and> st (sec p) \<le> p"
  shows "\<exists>h' r'. js_fold (group_position sectionOf startOf word stemmed) (h, r) ps = Inr (h', r')
    \<and> result_ok h' r' \<and> store_ok h' \<and> found h' r' = group_unit sec st word stemmed ps
    \<and> length h \<le> length h' \<and> set (r_units r') \<subseteq> {length h..<length h'} \<and> take (length h) h' = h
    \<and> r_or r' = r_or r \<and> r_not r' = r_not r"
  using ps
proof (induction ps rule: rev_induct)
  case Nil
  have "found h r = group_unit sec st word stemmed []" by (auto simp: found_def r group_unit_def)
  then show ?case using h by (simp add: result_ok_def r)
next
  case (snoc p ps)
  then obtain h1 r1 where 1: "js_fold (group_position sectionOf startOf word stemmed) (h, r) ps = Inr (h1, r1)"
      "result_ok h1 r1" "store_ok h1" "found h1 r1 = group_unit sec st word stemmed ps"
      "length h \<le> length h1" "set (r_units r1) \<subseteq> {length h..<length h1}" "take (length h) h1 = h"
      "r_or r1 = r_or r" "r_not r1 = r_not r"
    by (metis Un_iff set_append)
  have p: "sectionOf p = Inr (sec p)" "startOf (sec p) = Inr (st (sec p))" "st (sec p) \<le> p" using snoc.prems by auto
  have st: "su_startPosition u = int (st (sec p))" if "found h1 r1 (sec p) = Some u" for u
    using that by (auto simp: 1(4) group_unit_def split: if_splits)
  obtain h2 r2 where step: "group_position sectionOf startOf word stemmed (h1, r1) p = Inr (h2, r2)" and
    post: "group_post (sec p) (SearchUnit_addPosition ((case found h1 r1 (sec p) of Some u \<Rightarrow> u | None \<Rightarrow> SearchUnit_new (sec p))
        \<lparr>su_startPosition := int (st (sec p))\<rparr>) word (p - st (sec p)) stemmed) h1 r1 h2 r2"
    using group_step [where sectionOf = sectionOf and startOf = startOf, OF 1(2,3) p st] by blast
  have "take (length h) h2 = h"
  proof (rule nth_equalityI)
    show "length (take (length h) h2) = length h" using post 1(5) by (simp add: group_post_def)
    fix a assume "a < length (take (length h) h2)"
    then have a: "a < length h" "a < length h1" "a \<notin> set (r_units r1)" using 1(5,6) by auto
    then have "h2 ! a = h1 ! a" using post by (simp add: group_post_def)
    also have "h1 ! a = h ! a" using 1(7) a(1) by (metis nth_take)
    finally show "take (length h) h2 ! a = h ! a" using a(1) by simp
  qed
  moreover have "set (r_units r2) \<subseteq> {length h..<length h2}" using post 1(5,6) by (fastforce simp: group_post_def)
  ultimately show ?case
    using 1 post step by (intro exI [of _ h2] exI [of _ r2]) (simp add: js_fold_snoc group_post_def group_unit_snoc)
qed

lemma Section_grouping_cuts:
  assumes "cuts (md_bitVector s) ts" "store_ok h" "r_units r = []" "r_unitIds r = []" "\<forall>p \<in> set ps. p < end_of ts"
  shows "\<exists>h' r'. Section_grouping s h r ps word stemmed = Inr (h', r')
    \<and> result_ok h' r' \<and> store_ok h' \<and> found h' r' = group_unit (stretch ts) (start ts) word stemmed ps
    \<and> length h \<le> length h' \<and> set (r_units r') \<subseteq> {length h..<length h'} \<and> take (length h) h' = h
    \<and> r_or r' = r_or r \<and> r_not r' = r_not r"
  unfolding Section_grouping_def
proof (rule grouping_fold [OF assms(2,3,4)])
  fix p assume "p \<in> set ps"
  then have p: "p < end_of ts" using assms(5) by simp
  have ok: "tails_ok ts" using assms(1) by (simp add: cuts_def)
  show "Section_getSectionIndex s (int p) = Inr (stretch ts p)
      \<and> Metadata_getStartPosition s (int (stretch ts p)) = Inr (start ts (stretch ts p)) \<and> start ts (stretch ts p) \<le> p"
    using stretch_spec [OF ok p] p
    by (simp add: Section_getSectionIndex_def index_at_cuts [OF assms(1)] getStartPosition_cuts [OF assms(1)])
qed

section \<open>Storing metadata\<close>

definition stored_base :: "jsstring list \<Rightarrow> BitVector \<Rightarrow> bool" where
  "stored_base names v \<longleftrightarrow> list_ok names \<and> stored_vector v"

lemma Metadata_load_dump:
  "stored_vector (md_bitVector m) \<Longrightarrow>
    Metadata_load m0 (before @ vector_dump (md_bitVector m) @ after) (length before)
      = Inr (m0\<lparr>md_bitVector := md_bitVector m\<rparr>, length before + length (vector_dump (md_bitVector m)))"
  using vector.load_dump [of "md_bitVector m" before after] by (simp add: Metadata_load_def)

definition section_dump :: "Section \<Rightarrow> jsstring" where
  "section_dump s = list_dump (sec_names s) @ vector_dump (md_bitVector s)"

interpretation sections: codec "\<lambda>s. stored_base (sec_names s) (md_bitVector s)" section_dump "\<lambda>s. s" Section_load
proof
  fix s :: Section and before after
  assume ok: "stored_base (sec_names s) (md_bitVector s)"
  have "Section_new\<lparr>sec_names := sec_names s, md_bitVector := md_bitVector s\<rparr> = s" by (cases s) (simp add: Section_new_def)
  then show "Section_load (before @ section_dump s @ after) (length before) = Inr (s, length before + length (section_dump s))"
    using strlist.load_dump [of "sec_names s" before "vector_dump (md_bitVector s) @ after"]
      Metadata_load_dump [of s "Section_new\<lparr>sec_names := sec_names s\<rparr>" "before @ list_dump (sec_names s)" after] ok
    by (simp add: Section_load_def section_dump_def stored_base_def)
qed

text \<open>A loaded splitter has no name.\<close>

interpretation splitters: codec "\<lambda>s. stored_vector (md_bitVector s)" "\<lambda>s. vector_dump (md_bitVector s)" "\<lambda>s. s\<lparr>sp_name := None\<rparr>" Splitter_load
proof
  fix s :: Splitter and before after
  assume ok: "stored_vector (md_bitVector s)"
  have "Splitter_new\<lparr>md_bitVector := md_bitVector s\<rparr> = s\<lparr>sp_name := None\<rparr>" by (cases s) (simp add: Splitter_new_def)
  then show "Splitter_load (before @ vector_dump (md_bitVector s) @ after) (length before)
      = Inr (s\<lparr>sp_name := None\<rparr>, length before + length (vector_dump (md_bitVector s)))"
    using Metadata_load_dump [OF ok, of Splitter_new before after] by (simp add: Splitter_load_def)
qed

definition table_dump :: "Table \<Rightarrow> jsstring" where
  "table_dump t = list_dump (tb_headers t) @ vector_dump (md_bitVector t) @ vector_dump (tb_columnTails t)"

interpretation tables: codec "\<lambda>t. stored_base (tb_headers t) (md_bitVector t) \<and> stored_vector (tb_columnTails t)" table_dump "\<lambda>t. t" Table_load
proof
  fix t :: Table and before after
  assume ok: "stored_base (tb_headers t) (md_bitVector t) \<and> stored_vector (tb_columnTails t)"
  have "(Table_new (tb_headers t))\<lparr>md_bitVector := md_bitVector t, tb_columnTails := tb_columnTails t\<rparr> = t"
    by (cases t) (simp add: Table_new_def)
  then show "Table_load (before @ table_dump t @ after) (length before) = Inr (t, length before + length (table_dump t))"
    using strlist.load_dump [of "tb_headers t" before "vector_dump (md_bitVector t) @ vector_dump (tb_columnTails t) @ after"]
      Metadata_load_dump [of t "Table_new (tb_headers t)" "before @ list_dump (tb_headers t)" "vector_dump (tb_columnTails t) @ after"]
      vector.load_dump [of "tb_columnTails t" "before @ list_dump (tb_headers t) @ vector_dump (md_bitVector t)" after] ok
    by (simp add: Table_load_def table_dump_def stored_base_def add.assoc)
qed

definition block_dump :: "Block \<Rightarrow> jsstring" where
  "block_dump b = list_dump (bl_names b) @ vector_dump (md_bitVector b)"

interpretation blocks: codec "\<lambda>b. stored_base (bl_names b) (md_bitVector b)" block_dump "\<lambda>b. b\<lparr>bl_start := False\<rparr>" Block_load
proof
  fix b :: Block and before after
  assume ok: "stored_base (bl_names b) (md_bitVector b)"
  have "Block_new\<lparr>bl_names := bl_names b, md_bitVector := md_bitVector b\<rparr> = b\<lparr>bl_start := False\<rparr>" by (cases b) (simp add: Block_new_def)
  then show "Block_load (before @ block_dump b @ after) (length before) = Inr (b\<lparr>bl_start := False\<rparr>, length before + length (block_dump b))"
    using strlist.load_dump [of "bl_names b" before "vector_dump (md_bitVector b) @ after"]
      Metadata_load_dump [of b "Block_new\<lparr>bl_names := bl_names b\<rparr>" "before @ list_dump (bl_names b)" after] ok
    by (simp add: Block_load_def block_dump_def stored_base_def)
qed

lemma dump_returns:
  "\<exists>r'. Section_dump s r = Inr ([0] @ section_dump s, r')" "\<exists>r'. Splitter_dump sp r = Inr ([1] @ vector_dump (md_bitVector sp), r')"
  "\<exists>r'. Table_dump t r = Inr ([2] @ table_dump t, r')" "\<exists>r'. Block_dump b r = Inr ([3] @ block_dump b, r')"
proof -
  show "\<exists>r'. Section_dump s r = Inr ([0] @ section_dump s, r')"
    using BitVector_dump_returns [of "md_bitVector s" "snd (Binary_dumpStringList (sec_names s) (report_add r 1 1))"]
    by (auto simp: Section_dump_def Metadata_dump_def section_dump_def fst_dumpStringList split_beta Binary_dump16bitNumber_def)
  show "\<exists>r'. Splitter_dump sp r = Inr ([1] @ vector_dump (md_bitVector sp), r')"
    using BitVector_dump_returns [of "md_bitVector sp" "report_add r 1 1"]
    by (auto simp: Splitter_dump_def Metadata_dump_def Binary_dump16bitNumber_def)
  show "\<exists>r'. Block_dump b r = Inr ([3] @ block_dump b, r')"
    using BitVector_dump_returns [of "md_bitVector b" "snd (Binary_dumpStringList (bl_names b) (report_add r 1 1))"]
    by (auto simp: Block_dump_def Metadata_dump_def block_dump_def fst_dumpStringList split_beta Binary_dump16bitNumber_def)
  obtain r1 where "BitVector_dump (md_bitVector t) (snd (Binary_dumpStringList (tb_headers t) (report_add r 1 1))) = Inr (vector_dump (md_bitVector t), r1)"
    using BitVector_dump_returns by blast
  moreover obtain r2 where "BitVector_dump (tb_columnTails t) r1 = Inr (vector_dump (tb_columnTails t), r2)"
    using BitVector_dump_returns by blast
  ultimately show "\<exists>r'. Table_dump t r = Inr ([2] @ table_dump t, r')"
    by (auto simp: Table_dump_def Metadata_dump_def table_dump_def fst_dumpStringList split_beta Binary_dump16bitNumber_def)
qed

section \<open>Blocks as intervals\<close>

definition block_tails :: "(jsstring \<times> nat \<times> nat) list \<Rightarrow> nat list" where
  "block_tails bs = concat (map (\<lambda>(name, s, e). [s, e]) bs)"

definition add_block :: "Block \<Rightarrow> jsstring \<times> nat \<times> nat \<Rightarrow> Block js" where
  "add_block b = (\<lambda>(name, s, e). js_bind (Block_startBlockAt b name s) (\<lambda>b. Block_endBlockAt b e))"

lemma tails_ok_snoc: "tails_ok (ts @ [t]) \<longleftrightarrow> tails_ok ts \<and> end_of ts < t"
proof
  assume "tails_ok (ts @ [t])"
  then have "tails_ok ts" "\<forall>x \<in> set ts. x < t" "0 < t" by (auto simp: tails_ok_def sorted_wrt_append)
  then show "tails_ok ts \<and> end_of ts < t" using end_in_tails [of ts] by (cases "ts = []") (auto simp: end_of_def)
next
  assume "tails_ok ts \<and> end_of ts < t"
  then show "tails_ok (ts @ [t])" using tails_le_end [of ts] by (fastforce simp: tails_ok_def sorted_wrt_append)
qed

lemma end_of_snoc [simp]: "end_of (ts @ [t]) = t"
  by (simp add: end_of_def)

lemma add_blocks:
  "tails_ok (block_tails bs) \<Longrightarrow> \<exists>b. js_fold add_block Block_new bs = Inr b \<and> bl_names b = map fst bs \<and> \<not> bl_start b
    \<and> marked_at (md_bitVector b) (block_tails bs)"
proof (induction bs rule: rev_induct)
  case Nil
  then show ?case by (simp add: Block_new_def marked_at_new block_tails_def)
next
  case (snoc x bs)
  obtain name s e where x: "x = (name, s, e)" by (cases x)
  have ts: "block_tails (bs @ [x]) = (block_tails bs @ [s]) @ [e]" by (simp add: block_tails_def x)
  then have ok: "tails_ok (block_tails bs)" "end_of (block_tails bs) < s" "s < e"
    using snoc.prems tails_ok_snoc [of "block_tails bs @ [s]" e] tails_ok_snoc [of "block_tails bs" s] by auto
  obtain b where b: "js_fold add_block Block_new bs = Inr b" "bl_names b = map fst bs" "\<not> bl_start b"
    "marked_at (md_bitVector b) (block_tails bs)" using snoc.IH [OF ok(1)] by blast
  have "add_block b x = Inr (b\<lparr>bl_start := False, bl_names := bl_names b @ [name],
      md_bitVector := BitVector_set (BitVector_set (md_bitVector b) (int s - 1) True) (int e - 1) True\<rparr>)"
    using b(3) by (simp add: x add_block_def Block_startBlockAt_def Block_endBlockAt_def)
  then show ?case
    using b marked_at_snoc [OF marked_at_snoc [OF b(4) ok(2)], of e] ok(3) by (simp add: js_fold_snoc ts) (simp add: x)
qed

lemma stretch_blocks:
  assumes "sorted_wrt (<) (block_tails bs)"
  shows "odd (stretch (block_tails bs) p) \<longleftrightarrow> (\<exists>(name, s, e) \<in> set bs. s \<le> p \<and> p < e)"
    and "j < length bs \<Longrightarrow> fst (snd (bs ! j)) \<le> p \<Longrightarrow> p < snd (snd (bs ! j)) \<Longrightarrow> stretch (block_tails bs) p = 2 * j + 1"
  using assms
proof (induction bs arbitrary: j)
  case Nil
  { case 1 show ?case by (simp add: stretch_def block_tails_def) }
  { case 2 then show ?case by simp }
next
  case (Cons x bs)
  obtain name s e where x: "x = (name, s, e)" by (cases x)
  have ts: "block_tails (x # bs) = s # e # block_tails bs" by (simp add: block_tails_def x)
  have le: "s \<le> s' \<and> e \<le> s'" if "(n', s', e') \<in> set bs" "s < e" "\<forall>t \<in> set (block_tails bs). e < t" for n' s' e'
  proof -
    have "s' \<in> set (block_tails bs)" using that(1) by (force simp: block_tails_def)
    then show ?thesis using that(2,3) by fastforce
  qed
  { case 1
    then have sorted: "s < e" "\<forall>t \<in> set (block_tails bs). e < t" "sorted_wrt (<) (block_tails bs)" by (auto simp: ts)
    have st: "stretch (s # e # block_tails bs) p = (if s \<le> p then if e \<le> p then 2 + stretch (block_tails bs) p else 1 else 0)"
      by (simp add: stretch_def)
    have later: "e \<le> p" if "(n', s', e') \<in> set bs" "s' \<le> p" for n' s' e'
      using le [OF that(1) sorted(1,2)] that(2) by simp
    consider "p < s" | "s \<le> p" "p < e" | "e \<le> p" by linarith
    then show ?case
    proof cases
      case 1
      then show ?thesis unfolding ts st using later sorted(1) by (auto simp: x)
    next
      case 2
      then show ?thesis unfolding ts st by (auto simp: x)
    next
      case 3
      then show ?thesis unfolding ts st using Cons.IH(1) [OF sorted(3)] sorted(1) by (simp add: x)
    qed
  next
    case 2
    then have sorted: "s < e" "\<forall>t \<in> set (block_tails bs). e < t" "sorted_wrt (<) (block_tails bs)" by (auto simp: ts)
    have st: "stretch (s # e # block_tails bs) p = (if s \<le> p then if e \<le> p then 2 + stretch (block_tails bs) p else 1 else 0)"
      by (simp add: stretch_def)
    show ?case
    proof (cases j)
      case 0
      then show ?thesis unfolding ts st using 2 by (simp add: x)
    next
      case (Suc i)
      then have i: "i < length bs" "fst (snd (bs ! i)) \<le> p" "p < snd (snd (bs ! i))" using 2 by simp_all
      then have "e \<le> p" using le [OF _ sorted(1,2), of "fst (bs ! i)" "fst (snd (bs ! i))" "snd (snd (bs ! i))"] by simp
      then show ?thesis using Cons.IH(2) [OF i sorted(3)] sorted(1) Suc by (simp add: ts st)
    qed
  }
qed

lemma blockIndex_cuts:
  assumes "cuts (md_bitVector b) ts" "ts \<noteq> []" "p + 1 < FMIndex_size (ok_fmindex parent)"
  shows "Block_blockIndex parent b (int p) = Inr (stretch ts p)"
proof (cases "p < end_of ts")
  case True
  then show ?thesis using assms(3) by (simp add: Block_blockIndex_def BitVector_size_def cuts_simps [OF assms(1)])
next
  case False
  have ok: "tails_ok ts" using assms(1) by (simp add: cuts_def)
  have pos: "0 < end_of ts" using end_in_tails [OF assms(2)] ok by (metis gr0I tails_ok_def)
  then have "stretch ts (end_of ts - 1) + 1 = length ts"
    using stretch_Suc [OF ok, of "end_of ts - 1"] end_in_tails [OF assms(2)] stretch_end [OF ok] by simp
  moreover have "\<forall>t \<in> set ts. t \<le> p" using False tails_le_end [OF ok] by fastforce
  then have "stretch ts p = length ts" by (simp add: stretch_def takeWhile_eq_all_conv [THEN iffD2])
  ultimately show ?thesis using assms(3) pos False by (simp add: Block_blockIndex_def BitVector_size_def cuts_simps [OF assms(1)])
qed

section \<open>Properties\<close>

text \<open>Sections with given names and tails.\<close>

definition make_sections :: "(jsstring \<times> nat) list \<Rightarrow> Section" where
  "make_sections xs = Metadata_build (foldl (\<lambda>s (name, t). Section_setTailAt s name t) Section_new xs)"

lemma make_sections_cuts:
  assumes "tails_ok (map snd xs)"
  shows "cuts (md_bitVector (make_sections xs)) (map snd xs)" "sec_names (make_sections xs) = map fst xs"
proof -
  let ?f = "\<lambda>s (name, t). Section_setTailAt s name t"
  have "marked_at (md_bitVector (foldl ?f Section_new xs)) (map snd xs) \<and> sec_names (foldl ?f Section_new xs) = map fst xs"
    using assms
  proof (induction xs rule: rev_induct)
    case (snoc x xs)
    then have "tails_ok (map snd xs)" "end_of (map snd xs) < snd x" by (simp_all add: tails_ok_snoc)
    then show ?case using snoc.IH marked_at_snoc by (auto simp: Section_setTailAt_def split_beta)
  qed (simp add: Section_new_def marked_at_new)
  then show "cuts (md_bitVector (make_sections xs)) (map snd xs)" "sec_names (make_sections xs) = map fst xs"
    by (simp_all add: make_sections_def Metadata_build_def marked_at_build)
qed

lemma tails_ok_example: "tails_ok (map snd [([97 :: nat], 2), ([98], 5)])"
  by (simp add: tails_ok_def)

text \<open>
  C29.  Sections cut a text without gaps or overlaps: for sections set at strictly increasing
  positive tails, every position before the last tail has exactly one section index; the section
  of that index starts at or before the position and ends behind it, and has the name given with
  its tail.  Any other position makes the lookup throw.
\<close>

theorem Section_partition:
  assumes "tails_ok (map snd xs)"
  defines "s \<equiv> make_sections xs"
  shows "(\<forall>p < end_of (map snd xs). \<exists>i first. Section_getSectionIndex s (int p) = Inr i \<and> i < Section_size s
      \<and> Metadata_getStartPosition s (int i) = Inr first \<and> first \<le> p \<and> p < snd (xs ! i)
      \<and> (0 < i \<longrightarrow> first = snd (xs ! (i - 1))) \<and> Section_getInformation s (int i) = Inr (fst (xs ! i)))
    \<and> (\<forall>p. p < 0 \<or> int (end_of (map snd xs)) \<le> p \<longrightarrow>
      Section_getSectionIndex s p = Inl (throw_text ''Section.getSectionIndex() : range error '' (decimal_int p) []))"
proof -
  note cuts = make_sections_cuts [OF assms(1)]
  let ?ts = "map snd xs"
  have "\<exists>i first. Section_getSectionIndex s (int p) = Inr i \<and> i < Section_size s
      \<and> Metadata_getStartPosition s (int i) = Inr first \<and> first \<le> p \<and> p < snd (xs ! i)
      \<and> (0 < i \<longrightarrow> first = snd (xs ! (i - 1))) \<and> Section_getInformation s (int i) = Inr (fst (xs ! i))"
    if p: "p < end_of ?ts" for p
    using stretch_spec [OF assms(1) p] p
    by (intro exI [of _ "stretch ?ts p"] exI [of _ "start ?ts (stretch ?ts p)"])
      (simp add: s_def Section_getSectionIndex_def index_at_cuts [OF cuts(1)] getStartPosition_cuts [OF cuts(1)]
        Section_size_def cuts(2) Section_getInformation_def Section_getName_def start_def)
  then show ?thesis
    by (simp add: Section_getSectionIndex_def index_at_def BitVector_size_def s_def cuts_size [OF cuts(1)])
qed

theorem Section_partition_witness:
  "\<exists>i first. Section_getSectionIndex (make_sections [([97], 2), ([98], 5)]) (int 3) = Inr i
    \<and> Metadata_getStartPosition (make_sections [([97], 2), ([98], 5)]) (int i) = Inr first \<and> first \<le> 3 \<and> 3 < snd ([([97], 2), ([98 :: nat], 5 :: nat)] ! i)"
  using conjunct1 [OF Section_partition [OF tails_ok_example], rule_format, of 3] by (simp add: end_of_def) blast

text \<open>
  C30.  Grouping the hits of a word by section, into an empty result: a well-formed result whose
  documents are exactly the sections with a hit; the unit of a section starts where the section
  starts and has collected the hits in it, relative to that start.  All its units are new, and no
  unit that was in the store changes.
\<close>

theorem Section_grouping_correct:
  assumes "tails_ok (map snd xs)" "\<forall>p \<in> set ps. p < end_of (map snd xs)" "store_ok h"
  shows "\<exists>h' r. Section_grouping (make_sections xs) h (SingleResult_query w isOr isNot) ps word stemmed = Inr (h', r)
    \<and> result_ok h' r \<and> store_ok h' \<and> set (r_unitIds r) = stretch (map snd xs) ` set ps
    \<and> (\<forall>k \<in> set (r_unitIds r). found h' r k =
        Some ((add_hits (SearchUnit_new k) (map (\<lambda>p. (word, p - start (map snd xs) k, stemmed)) (filter (\<lambda>p. stretch (map snd xs) p = k) ps)))
              \<lparr>su_startPosition := int (start (map snd xs) k)\<rparr>))
    \<and> set (r_units r) \<subseteq> {length h..<length h'} \<and> take (length h) h' = h"
proof -
  let ?ts = "map snd xs"
  obtain h' r where g: "Section_grouping (make_sections xs) h (SingleResult_query w isOr isNot) ps word stemmed = Inr (h', r)"
    "result_ok h' r" "store_ok h'" "found h' r = group_unit (stretch ?ts) (start ?ts) word stemmed ps"
    "set (r_units r) \<subseteq> {length h..<length h'}" "take (length h) h' = h"
    using Section_grouping_cuts [OF make_sections_cuts(1) [OF assms(1)] assms(3) _ _ assms(2), of "SingleResult_query w isOr isNot" word stemmed]
    unfolding SingleResult_query_def by auto
  have "k \<in> set (r_unitIds r) \<longleftrightarrow> k \<in> stretch ?ts ` set ps" for k
    using found_None [OF g(2), of k] by (auto simp: g(4) group_unit_def split: if_splits)
  then have ids: "set (r_unitIds r) = stretch ?ts ` set ps" by blast
  show ?thesis using g by (intro exI [of _ h'] exI [of _ r]) (simp add: ids group_unit_def group_hits_def)
qed

theorem Section_grouping_correct_witness:
  "\<exists>h' r. Section_grouping (make_sections [([97], 2), ([98], 5)]) [] (SingleResult_query [104] False False) [1, 3, 4] [104] False = Inr (h', r)
    \<and> result_ok h' r \<and> set (r_unitIds r) = stretch [2, 5] ` {1, 3, 4}"
  using Section_grouping_correct [OF tails_ok_example, of "[1, 3, 4]" "[]" "[104]" False False "[104]" False]
  by (simp add: end_of_def store_ok_def) blast

text \<open>
  The cell of a position in a table, with row tails and column tails as marked by \<^verbatim>\<open>setRowTail\<close>
  and \<^verbatim>\<open>setColumnTail\<close>: its row, and the number of column tails between the start of that row and
  the position.
\<close>

theorem Table_getCell_correct:
  assumes "cuts (md_bitVector t) rows" "cuts (tb_columnTails t) cols" "p < end_of rows" "p \<le> end_of cols"
  shows "Table_getCell t (int p) =
    Inr (stretch rows p, int (length (filter (\<lambda>c. start rows (stretch rows p) < c \<and> c \<le> p) cols)))"
proof -
  have ok: "tails_ok rows" "tails_ok cols" using assms(1,2) by (simp_all add: cuts_def)
  note s = stretch_spec [OF ok(1) assms(3)]
  have "stretch cols p - stretch cols q = length (filter (\<lambda>c. q < c \<and> c \<le> p) cols) \<and> stretch cols q \<le> stretch cols p" if "q \<le> p" for q
  proof -
    have "length (filter (\<lambda>c. c \<le> p) cols) = length (filter (\<lambda>c. c \<le> q) cols) + length (filter (\<lambda>c. q < c \<and> c \<le> p) cols)"
      using that by (induction cols) auto
    then show ?thesis using ok(2) by (simp add: stretch_def tails_ok_def takeWhile_filter)
  qed
  from this [OF s(2)] have diff: "int (stretch cols p) - int (stretch cols (start rows (stretch rows p)))
      = int (length (filter (\<lambda>c. start rows (stretch rows p) < c \<and> c \<le> p) cols))" by linarith
  show ?thesis
  proof (cases "stretch rows p = 0")
    case True
    then have "start rows (stretch rows p) = 0" by (simp add: start_def)
    then show ?thesis using diff True assms(3,4) stretch_0 [OF ok(2)]
      by (simp add: Table_getCell_def BitVector_size_def cuts_simps [OF assms(1)] cuts_rank [OF assms(2)])
  next
    case False
    then have prev: "stretch rows p - 1 < length rows" using s(1) by simp
    have "rows ! (stretch rows p - 1) - 1 + 1 = start rows (stretch rows p)"
      using start_less [OF ok(1) prev] False by (simp add: start_def)
    then show ?thesis using diff False assms(3,4) prev s(2)
      by (simp add: Table_getCell_def BitVector_size_def cuts_simps [OF assms(1)] cuts_rank [OF assms(2)])
  qed
qed

definition sample_vector :: BitVector where
  "sample_vector = BitVector_build (foldl (\<lambda>v w. BitVector_set v (int (fst w)) (snd w)) BitVector_new (map (\<lambda>t. (t - 1, True)) [2, 5]))"

lemma sample_vector_cuts: "cuts sample_vector [2, 5]"
  unfolding sample_vector_def by (rule marked_at_build) (simp add: marked_at_def tails_ok_def)

lemma sample_vector_stored: "stored_vector sample_vector"
proof -
  have "built sample_vector" "bv_size sample_vector = 5"
    using sample_vector_cuts cuts_size [OF sample_vector_cuts] by (simp_all add: cuts_def end_of_def)
  then show ?thesis by (simp add: stored_vector_def built_def bv_inv_def)
qed

theorem Table_getCell_correct_witness:
  "Table_getCell \<lparr>md_bitVector = sample_vector, tb_headers = [], tb_columnTails = sample_vector\<rparr> (int 3)
    = Inr (stretch [2, 5] 3, int (length (filter (\<lambda>c. start [2, 5] (stretch [2, 5] 3) < c \<and> c \<le> 3) [2, 5])))"
  by (rule Table_getCell_correct) (simp_all add: sample_vector_cuts end_of_def)

text \<open>
  Blocks are the marked intervals: after starting and ending blocks at strictly increasing
  positive positions, a position of the text is in a block exactly when one of the intervals
  contains it, and then the block has the name that was given to that interval.
\<close>

theorem Block_inBlock_correct:
  assumes "bs \<noteq> []" "tails_ok (block_tails bs)" "p + 1 < FMIndex_size (ok_fmindex parent)"
  shows "\<exists>b. js_fold add_block Block_new bs = Inr b
    \<and> Block_inBlock parent (Metadata_build b) (int p) = Inr (\<exists>(name, s, e) \<in> set bs. s \<le> p \<and> p < e)
    \<and> (\<forall>j < length bs. fst (snd (bs ! j)) \<le> p \<and> p < snd (snd (bs ! j)) \<longrightarrow>
        Block_getBlockName parent (Metadata_build b) (int p) = Inr (fst (bs ! j)))"
proof -
  obtain b where b: "js_fold add_block Block_new bs = Inr b" "bl_names b = map fst bs" "marked_at (md_bitVector b) (block_tails bs)"
    using add_blocks [OF assms(2)] by blast
  have "cuts (md_bitVector (Metadata_build b)) (block_tails bs)" using b(3) by (simp add: Metadata_build_def marked_at_build)
  moreover have "block_tails bs \<noteq> []" using assms(1) by (cases bs) (auto simp: block_tails_def)
  ultimately have "Block_blockIndex parent (Metadata_build b) (int p) = Inr (stretch (block_tails bs) p)"
    using assms(3) by (rule blockIndex_cuts)
  moreover have sorted: "sorted_wrt (<) (block_tails bs)" using assms(2) by (simp add: tails_ok_def)
  moreover have "bl_names (Metadata_build b) = map fst bs" using b(2) by (simp add: Metadata_build_def)
  ultimately show ?thesis
    using b(1) stretch_blocks(1) [OF sorted, of p] stretch_blocks(2) [OF sorted]
    by (auto simp: Block_inBlock_def Block_getBlockName_def odd_iff_mod_2_eq_one)
qed

definition sample_parent :: OktaviaCore where
  "sample_parent = OktaviaCore_new\<lparr>ok_fmindex := FMIndex_new\<lparr>fm_sv := WaveletMatrix_new\<lparr>wm_size := 9\<rparr>\<rparr>\<rparr>"

lemma sample_parent_size: "FMIndex_size (ok_fmindex sample_parent) = 9"
  by (simp add: sample_parent_def FMIndex_size_def WaveletMatrix_size_def)

theorem Block_inBlock_correct_witness:
  "\<exists>b. js_fold add_block Block_new [([97], 2, 5)] = Inr b \<and> Block_inBlock sample_parent (Metadata_build b) (int 3) = Inr True
    \<and> Block_getBlockName sample_parent (Metadata_build b) (int 3) = Inr [97]"
  using Block_inBlock_correct [of "[([97], 2, 5)]" 3 sample_parent] sample_parent_size
  by (auto simp: block_tails_def tails_ok_def)

text \<open>
  A block that starts at the very beginning of the text is lost: its start is written at position
  minus one, which sets an unused bit of the first word, so no position of the block is in it.
\<close>

theorem Block_start_zero:
  "js_bind (Block_startBlockAt Block_new [97] 0) (\<lambda>b. js_bind (Block_endBlockAt b 5) (\<lambda>b.
    Block_inBlock sample_parent (Metadata_build b) 2)) = Inr False"
  by code_simp

text \<open>
  C31.  Stored metadata comes back: the dump of sections, tables and blocks, whose first number is
  the type, loads as the same object from behind that number, wherever it stands in the data.  A
  splitter comes back without its name.
\<close>

theorem Metadata_dump_load:
  fixes before after :: jsstring and s :: Section and sp :: Splitter and t :: Table and b :: Block
  assumes "stored_base (sec_names s) (md_bitVector s)" "stored_vector (md_bitVector sp)"
    "stored_base (tb_headers t) (md_bitVector t)" "stored_vector (tb_columnTails t)"
    "stored_base (bl_names b) (md_bitVector b)"
  shows "(\<exists>d r'. Section_dump s r = Inr (0 # d, r') \<and> Section_load (before @ d @ after) (length before) = Inr (s, length before + length d))
    \<and> (\<exists>d r'. Splitter_dump sp r = Inr (1 # d, r') \<and> Splitter_load (before @ d @ after) (length before) = Inr (sp\<lparr>sp_name := None\<rparr>, length before + length d))
    \<and> (\<exists>d r'. Table_dump t r = Inr (2 # d, r') \<and> Table_load (before @ d @ after) (length before) = Inr (t, length before + length d))
    \<and> (\<exists>d r'. Block_dump b r = Inr (3 # d, r') \<and> Block_load (before @ d @ after) (length before) = Inr (b\<lparr>bl_start := False\<rparr>, length before + length d))"
  using sections.load_dump [of s before after] splitters.load_dump [of sp before after] tables.load_dump [of t before after]
    blocks.load_dump [of b before after] dump_returns(1) [of s r] dump_returns(2) [of sp r] dump_returns(3) [of t r] dump_returns(4) [of b r] assms
  by fastforce

theorem Metadata_dump_load_witness:
  "\<exists>d r'. Section_dump \<lparr>md_bitVector = sample_vector, sec_names = [[97], [98]]\<rparr> None = Inr (0 # d, r')
    \<and> Section_load ([7] @ d @ [8]) (length [7 :: nat]) = Inr (\<lparr>md_bitVector = sample_vector, sec_names = [[97], [98]]\<rparr>, length [7 :: nat] + length d)"
  by (rule conjunct1 [OF Metadata_dump_load [where sp = "\<lparr>md_bitVector = sample_vector, sp_name = None\<rparr>"
        and t = "\<lparr>md_bitVector = sample_vector, tb_headers = [[97]], tb_columnTails = sample_vector\<rparr>"
        and b = "\<lparr>md_bitVector = sample_vector, bl_names = [[97]], bl_start = False\<rparr>"]])
    (simp_all add: sample_vector_stored stored_base_def list_ok_def string_ok_def)

end
