(* ===== verification/Query_Parser.thy ===== *)
theory Query_Parser
  imports JS_Prelude
begin

text \<open>
  The classes \<^verbatim>\<open>Query\<close> and \<^verbatim>\<open>QueryStringParser\<close>: the query language of the search box.  Words are
  separated by white space, a double-quoted phrase is taken raw, a minus sign excludes, the word
  \<^verbatim>\<open>OR\<close> joins the next query by disjunction.

  The parser is a state machine over the characters with the three states of the source; the start
  of the current word is an index into the query string and words are slices of it.  The main
  lemma runs the machine over the printed form of one query, from which the round trip follows:
  printing queries with \<^verbatim>\<open>toString\<close>, joined by blanks, and parsing gives them back.
\<close>

section \<open>Queries\<close>

record Query =
  q_word :: jsstring
  q_or :: bool
  q_not :: bool
  q_raw :: bool

definition Query_new :: Query where
  "Query_new = \<lparr>q_word = [], q_or = False, q_not = False, q_raw = False\<rparr>"

text \<open>Character codes: 32 blank, 34 double quote, 45 minus, 79 and 82 the letters of \<^verbatim>\<open>OR\<close>.\<close>

definition word_OR :: jsstring where
  "word_OR = [79, 82]"

definition Query_toString :: "Query \<Rightarrow> jsstring" where
  "Query_toString q =
    (if q_or q then word_OR @ [32] else []) @ (if q_not q then [45] else []) @
    (if q_raw q then [34] @ q_word q @ [34] else q_word q)"

text \<open>The class \<^verbatim>\<open>[\s\u3000]\<close> of the source.\<close>

definition isSpace :: "nat \<Rightarrow> bool" where
  "isSpace c \<longleftrightarrow> 9 \<le> c \<and> c \<le> 13 \<or> c = 32 \<or> c = 160 \<or> c = 5760 \<or> 8192 \<le> c \<and> c \<le> 8202 \<or>
    c = 8232 \<or> c = 8233 \<or> c = 8239 \<or> c = 8287 \<or> c = 12288 \<or> c = 65279"

record QueryStringParser =
  qp_queries :: "Query list"

definition QueryStringParser_new :: QueryStringParser where
  "QueryStringParser_new = \<lparr>qp_queries = []\<rparr>"

record parse_state =
  ps_nextOr :: bool
  ps_nextNot :: bool
  ps_currentWordStart :: nat
  ps_status :: nat
  ps_queries :: "Query list"

definition slice :: "jsstring \<Rightarrow> nat \<Rightarrow> nat \<Rightarrow> jsstring" where
  "slice s i j = take (j - i) (drop i s)"

definition push_query :: "parse_state \<Rightarrow> jsstring \<Rightarrow> bool \<Rightarrow> parse_state" where
  "push_query st word raw =
    st\<lparr>ps_queries := ps_queries st @ [\<lparr>q_word = word, q_or = ps_nextOr st, q_not = ps_nextNot st, q_raw = raw\<rparr>],
       ps_nextOr := False, ps_nextNot := False\<rparr>"

definition parse_char :: "jsstring \<Rightarrow> nat \<Rightarrow> nat \<Rightarrow> parse_state \<Rightarrow> parse_state" where
  "parse_char queryString i ch st =
    (if ps_status st = 0 then
       (if \<not> isSpace ch then
          (if ch = 45 then st\<lparr>ps_nextNot := True\<rparr>
           else if ch = 34 then st\<lparr>ps_currentWordStart := i + 1, ps_status := 2\<rparr>
           else st\<lparr>ps_currentWordStart := i, ps_status := 1\<rparr>)
        else st\<lparr>ps_nextNot := False\<rparr>)
     else if ps_status st = 1 then
       (if isSpace ch then
          (let word = slice queryString (ps_currentWordStart st) i;
               st = (if word = word_OR then st\<lparr>ps_nextOr := True\<rparr> else push_query st word False)
           in st\<lparr>ps_status := 0\<rparr>)
        else st)
     else if ps_status st = 2 then
       (if ch = 34
        then (push_query st (slice queryString (ps_currentWordStart st) i) True)\<lparr>ps_status := 0\<rparr>
        else st)
     else st)"

fun parse_loop :: "jsstring \<Rightarrow> nat \<Rightarrow> jsstring \<Rightarrow> parse_state \<Rightarrow> parse_state" where
  "parse_loop queryString i [] st = st"
| "parse_loop queryString i (ch # rest) st = parse_loop queryString (i + 1) rest (parse_char queryString i ch st)"

definition parse_end :: "jsstring \<Rightarrow> parse_state \<Rightarrow> parse_state" where
  "parse_end queryString st =
    (let word = slice queryString (ps_currentWordStart st) (length queryString) in
     if ps_status st = 1 then (if word \<noteq> word_OR then push_query st word False else st)
     else if ps_status st = 2 then push_query st word True
     else st)"

definition QueryStringParser_parse :: "QueryStringParser \<Rightarrow> jsstring \<Rightarrow> QueryStringParser \<times> Query list" where
  "QueryStringParser_parse p queryString =
    (let st = parse_end queryString (parse_loop queryString 0 queryString
          \<lparr>ps_nextOr = False, ps_nextNot = False, ps_currentWordStart = 0, ps_status = 0, ps_queries = qp_queries p\<rparr>)
     in (p\<lparr>qp_queries := ps_queries st\<rparr>, ps_queries st))"

subsection \<open>Highlighting links\<close>

text \<open>
  \<^verbatim>\<open>encodeURIComponent\<close>: unreserved characters stay, others become the bytes of their UTF-8
  encoding; a surrogate without its partner throws.
\<close>

definition unreserved :: "nat \<Rightarrow> bool" where
  "unreserved c \<longleftrightarrow> 65 \<le> c \<and> c \<le> 90 \<or> 97 \<le> c \<and> c \<le> 122 \<or> 48 \<le> c \<and> c \<le> 57 \<or>
    c \<in> set [45, 95, 46, 33, 126, 42, 39, 40, 41]"

definition hex_digit :: "nat \<Rightarrow> nat" where
  "hex_digit d = (if d < 10 then 48 + d else 55 + d)"

definition percent :: "nat \<Rightarrow> jsstring" where
  "percent b = [37, hex_digit (b div 16), hex_digit (b mod 16)]"

fun encodeURIComponent :: "jsstring \<Rightarrow> jsstring js" where
  "encodeURIComponent [] = Inr []"
| "encodeURIComponent (c # cs) =
    (if unreserved c then js_bind (encodeURIComponent cs) (\<lambda>r. Inr (c # r))
     else if 56320 \<le> c \<and> c \<le> 57343 then Inl (Throw ''URIError'')
     else if 55296 \<le> c \<and> c \<le> 56319 then
       (case cs of
          [] \<Rightarrow> Inl (Throw ''URIError'')
        | d # ds \<Rightarrow>
            if 56320 \<le> d \<and> d \<le> 57343
            then js_bind (encodeURIComponent ds) (\<lambda>r.
              Inr (concat (map percent (utf8 ((c - 55296) * 1024 + (d - 56320) + 65536))) @ r))
            else Inl (Throw ''URIError''))
     else js_bind (encodeURIComponent cs) (\<lambda>r. Inr (concat (map percent (utf8 c)) @ r)))"

fun join :: "jsstring \<Rightarrow> jsstring list \<Rightarrow> jsstring" where
  "join sep [] = []"
| "join sep [x] = x"
| "join sep (x # y # xs) = x @ sep @ join sep (y # xs)"

text \<open>The prefix \<^verbatim>\<open>highlight=\<close>.\<close>

definition highlight_prefix :: jsstring where
  "highlight_prefix = [104, 105, 103, 104, 108, 105, 103, 104, 116, 61]"

definition QueryStringParser_highlight :: "QueryStringParser \<Rightarrow> jsstring js" where
  "QueryStringParser_highlight p =
    js_bind (js_fold (\<lambda>result query.
        if \<not> q_not query
        then js_bind (encodeURIComponent (q_word query)) (\<lambda>w. Inr (result @ [highlight_prefix @ w]))
        else Inr result) [] (qp_queries p))
      (\<lambda>result. Inr (63 # join [38] result))"

subsection \<open>Running the parser over a printed query\<close>

lemma slice_append: "slice (pre @ w @ post) (length pre) (length pre + length w) = w"
  by (simp add: slice_def)

lemma parse_loop_append:
  "parse_loop q i (xs @ ys) st = parse_loop q (i + length xs) ys (parse_loop q i xs st)"
  by (induction xs arbitrary: i st) simp_all

text \<open>Inside a word, and inside a phrase, nothing happens.\<close>

lemma parse_loop_word:
  "ps_status st = 1 \<Longrightarrow> \<forall>c \<in> set w. \<not> isSpace c \<Longrightarrow> parse_loop q i w st = st"
  by (induction w arbitrary: i) (auto simp: parse_char_def)

lemma parse_loop_phrase:
  "ps_status st = 2 \<Longrightarrow> 34 \<notin> set w \<Longrightarrow> parse_loop q i w st = st"
  by (induction w arbitrary: i) (auto simp: parse_char_def)

definition word_ok :: "jsstring \<Rightarrow> bool" where
  "word_ok w \<longleftrightarrow> w \<noteq> [] \<and> hd w \<noteq> 45 \<and> hd w \<noteq> 34 \<and> (\<forall>c \<in> set w. \<not> isSpace c)"

definition query_ok :: "Query \<Rightarrow> bool" where
  "query_ok q \<longleftrightarrow> (if q_raw q then 34 \<notin> set (q_word q) else word_ok (q_word q) \<and> q_word q \<noteq> word_OR)"

lemma isSpace_simps [simp]: "isSpace 32" "\<not> isSpace 45" "\<not> isSpace 34" "\<not> isSpace 79" "\<not> isSpace 82"
  by (simp_all add: isSpace_def)

lemma start_word:
  assumes "word_ok w" "ps_status st = 0"
  shows "parse_loop q i w st = st\<lparr>ps_currentWordStart := i, ps_status := 1\<rparr>"
proof -
  obtain c cs where w: "w = c # cs" using assms(1) by (cases w) (auto simp: word_ok_def)
  then have "parse_char q i c st = st\<lparr>ps_currentWordStart := i, ps_status := 1\<rparr>"
    using assms by (auto simp: parse_char_def word_ok_def)
  then show ?thesis using assms(1) by (simp add: w parse_loop_word word_ok_def)
qed

text \<open>Between two queries: state 0 and no minus sign pending.\<close>

definition idle :: "bool \<Rightarrow> Query list \<Rightarrow> nat \<Rightarrow> parse_state" where
  "idle nextOr queries start = \<lparr>ps_nextOr = nextOr, ps_nextNot = False, ps_currentWordStart = start, ps_status = 0,
     ps_queries = queries\<rparr>"

lemma word_OR_ok: "word_ok word_OR"
  by (simp add: word_ok_def word_OR_def)

lemma parse_OR:
  "\<exists>start'. parse_loop (pre @ word_OR @ [32] @ post) (length pre) (word_OR @ [32]) (idle False qs start) = idle True qs start'"
proof -
  let ?q = "pre @ word_OR @ [32] @ post"
  have "parse_loop ?q (length pre) word_OR (idle False qs start)
      = (idle False qs start)\<lparr>ps_currentWordStart := length pre, ps_status := 1\<rparr>"
    by (rule start_word [OF word_OR_ok]) (simp add: idle_def)
  moreover have "slice ?q (length pre) (length pre + length word_OR) = word_OR"
    using slice_append [of pre word_OR "[32] @ post"] by simp
  ultimately show ?thesis
    unfolding parse_loop_append by (simp add: parse_char_def idle_def Let_def)
qed

text \<open>The last part of a printed query, up to the word or phrase itself, from the state after \<^verbatim>\<open>OR\<close>.\<close>

lemma parse_body:
  fixes q :: Query
  assumes ok: "query_ok q"
    and body: "body = (if q_not q then [45] else []) @ (if q_raw q then [34] @ q_word q @ [34] else q_word q)"
    and qs: "Q = pre @ body @ post" and post: "post = [] \<or> (\<exists>rest. post = 32 # rest)"
  shows "\<exists>start'. parse_loop Q (length pre + length body) (take 1 post) (parse_loop Q (length pre) body (idle (q_or q) qs start))
      = (if post = [] \<and> \<not> q_raw q
         then (idle (q_or q) qs start')\<lparr>ps_nextNot := q_not q, ps_status := 1\<rparr>
         else idle False (qs @ [q]) start')
    \<and> (post = [] \<and> \<not> q_raw q \<longrightarrow> slice Q start' (length Q) = q_word q)"
proof -
  define m where "m = (if q_not q then [45] else [] :: nat list)"
  define st1 where "st1 = (idle (q_or q) qs start)\<lparr>ps_nextNot := q_not q\<rparr>"
  have m: "parse_loop Q (length pre) m (idle (q_or q) qs start) = st1"
    by (auto simp: m_def st1_def idle_def parse_char_def)
  have q: "\<lparr>q_word = q_word q, q_or = q_or q, q_not = q_not q, q_raw = q_raw q\<rparr> = q" by simp
  let ?i = "length pre + length m"
  show ?thesis
  proof (cases "q_raw q")
    case True
    have B: "body = m @ [34] @ q_word q @ [34]" using body True by (simp add: m_def)
    have "slice Q (?i + 1) (?i + 1 + length (q_word q)) = q_word q"
      using slice_append [of "pre @ m @ [34]" "q_word q" "[34] @ post"] by (simp add: qs B)
    then have "parse_loop Q ?i ([34] @ q_word q @ [34]) st1 = idle False (qs @ [q]) (?i + 1)"
      using ok True q unfolding parse_loop_append
      by (simp add: parse_loop_phrase query_ok_def parse_char_def st1_def idle_def push_query_def)
    then have "parse_loop Q (length pre) body (idle (q_or q) qs start) = idle False (qs @ [q]) (?i + 1)"
      unfolding B parse_loop_append [of _ _ m] m by simp
    moreover have "parse_loop Q (length pre + length body) (take 1 post) (idle False (qs @ [q]) (?i + 1)) = idle False (qs @ [q]) (?i + 1)"
      using post by (auto simp: parse_char_def idle_def)
    ultimately show ?thesis using True by auto
  next
    case False
    have B: "body = m @ q_word q" using body False by (simp add: m_def)
    have w: "word_ok (q_word q)" "q_word q \<noteq> word_OR" using ok False by (simp_all add: query_ok_def)
    have sl: "slice Q ?i (?i + length (q_word q)) = q_word q"
      using slice_append [of "pre @ m" "q_word q" post] by (simp add: qs B)
    have st: "parse_loop Q (length pre) body (idle (q_or q) qs start) = st1\<lparr>ps_currentWordStart := ?i, ps_status := 1\<rparr>"
      unfolding B parse_loop_append m by (rule start_word [OF w(1)]) (simp add: st1_def idle_def)
    show ?thesis
    proof (cases "post = []")
      case True
      have "length Q = ?i + length (q_word q)" by (simp add: qs B True)
      then show ?thesis using st sl True False by (intro exI [of _ ?i]) (simp add: st1_def idle_def)
    next
      case post': False
      then obtain rest where rest: "post = 32 # rest" using post by blast
      have "parse_char Q (length pre + length body) 32 (st1\<lparr>ps_currentWordStart := ?i, ps_status := 1\<rparr>) = idle False (qs @ [q]) ?i"
        using sl w(2) q False by (simp add: parse_char_def st1_def idle_def push_query_def B add.assoc)
      then show ?thesis using st rest False by auto
    qed
  qed
qed

lemma parse_query:
  assumes ok: "query_ok q" and Q: "Q = before @ Query_toString q @ post" and post: "post = [] \<or> (\<exists>rest. post = 32 # rest)"
  shows "\<exists>start'. parse_loop Q (length before) (Query_toString q @ take 1 post) (idle False qs start)
      = (if post = [] \<and> \<not> q_raw q
         then (idle (q_or q) qs start')\<lparr>ps_nextNot := q_not q, ps_status := 1\<rparr>
         else idle False (qs @ [q]) start')
    \<and> (post = [] \<and> \<not> q_raw q \<longrightarrow> slice Q start' (length Q) = q_word q)"
proof -
  define ors where "ors = (if q_or q then word_OR @ [32] else [])"
  define body where "body = (if q_not q then [45] else []) @ (if q_raw q then [34] @ q_word q @ [34] else q_word q)"
  have str: "Query_toString q = ors @ body" by (simp add: Query_toString_def ors_def body_def)
  have "\<exists>s. parse_loop Q (length before) ors (idle False qs start) = idle (q_or q) qs s"
    using parse_OR [of before "body @ post" qs start] by (auto simp: ors_def Q str)
  then obtain s where s: "parse_loop Q (length before) ors (idle False qs start) = idle (q_or q) qs s" by blast
  have Q': "Q = (before @ ors) @ body @ post" by (simp add: Q str)
  show ?thesis
    using parse_body [OF ok body_def Q' post, of qs s]
    by (simp add: str parse_loop_append s add.assoc)
qed

lemma parse_queries:
  assumes "\<forall>q \<in> set qs. query_ok q" and "Q = before @ join [32] (map Query_toString qs)"
  shows "ps_queries (parse_end Q (parse_loop Q (length before) (join [32] (map Query_toString qs)) (idle False acc start))) = acc @ qs"
  using assms
proof (induction qs arbitrary: before acc start)
  case Nil
  then show ?case by (simp add: parse_end_def idle_def)
next
  case (Cons q qs)
  have ok: "query_ok q" using Cons.prems(1) by simp
  show ?case
  proof (cases qs)
    case Nil
    have "Q = before @ Query_toString q @ []" using Cons.prems(2) Nil by simp
    from parse_query [OF ok this, of acc start] obtain s where
      "parse_loop Q (length before) (Query_toString q) (idle False acc start)
        = (if \<not> q_raw q then (idle (q_or q) acc s)\<lparr>ps_nextNot := q_not q, ps_status := 1\<rparr> else idle False (acc @ [q]) s)"
      "\<not> q_raw q \<longrightarrow> slice Q s (length Q) = q_word q" by (simp only: take_Nil append_Nil2 simp_thms) blast
    then show ?thesis using ok Nil
      by (auto simp: parse_end_def idle_def push_query_def query_ok_def)
  next
    case (Cons q' qs')
    let ?rest = "join [32] (map Query_toString qs)"
    have J: "join [32] (map Query_toString (q # qs)) = Query_toString q @ [32] @ ?rest"
      using Cons by simp
    have "Q = before @ Query_toString q @ (32 # ?rest)" using Cons.prems(2) J by simp
    from parse_query [OF ok this, of acc start] obtain s where
      s: "parse_loop Q (length before) (Query_toString q @ [32]) (idle False acc start) = idle False (acc @ [q]) s" by auto
    have "Q = (before @ Query_toString q @ [32]) @ ?rest" using Cons.prems(2) J by simp
    from Cons.IH [OF _ this, of "acc @ [q]" s] Cons.prems(1) show ?thesis
      unfolding J using s parse_loop_append [of Q "length before" "Query_toString q @ [32]" ?rest] by simp
  qed
qed

section \<open>Properties\<close>

text \<open>
  C32.  Parsing inverts printing: for any list of queries whose raw words contain no double quote
  and whose plain words are non-empty, free of white space, do not start with a minus sign or a
  quote and are not \<^verbatim>\<open>OR\<close>, a fresh parser run on their printed forms joined by blanks returns exactly
  these queries, with their flags, and keeps them for \<^verbatim>\<open>highlight\<close>.
\<close>

theorem QueryStringParser_roundtrip:
  assumes "\<forall>q \<in> set qs. query_ok q"
  shows "QueryStringParser_parse QueryStringParser_new (join [32] (map Query_toString qs)) = (\<lparr>qp_queries = qs\<rparr>, qs)"
  using parse_queries [of qs "join [32] (map Query_toString qs)" "[]" "[]" 0] assms
  by (simp add: QueryStringParser_parse_def QueryStringParser_new_def idle_def Let_def)

theorem QueryStringParser_roundtrip_witness:
  "QueryStringParser_parse QueryStringParser_new [102, 111, 111, 32, 79, 82, 32, 45, 34, 97, 32, 98, 34] =
    (\<lparr>qp_queries = [\<lparr>q_word = [102, 111, 111], q_or = False, q_not = False, q_raw = False\<rparr>,
                   \<lparr>q_word = [97, 32, 98], q_or = True, q_not = True, q_raw = True\<rparr>]\<rparr>,
     [\<lparr>q_word = [102, 111, 111], q_or = False, q_not = False, q_raw = False\<rparr>,
      \<lparr>q_word = [97, 32, 98], q_or = True, q_not = True, q_raw = True\<rparr>])"
  using QueryStringParser_roundtrip [of "[\<lparr>q_word = [102, 111, 111], q_or = False, q_not = False, q_raw = False\<rparr>,
                   \<lparr>q_word = [97, 32, 98], q_or = True, q_not = True, q_raw = True\<rparr>]"]
  by (simp add: query_ok_def word_ok_def word_OR_def isSpace_def Query_toString_def)

text \<open>Every character of an encoded component is unreserved or a percent sign.\<close>

definition uri_safe :: "jsstring \<Rightarrow> bool" where
  "uri_safe w \<longleftrightarrow> (\<forall>c \<in> set w. unreserved c \<or> c = 37)"

lemma uri_safe_append [simp]: "uri_safe (v @ w) \<longleftrightarrow> uri_safe v \<and> uri_safe w"
  by (auto simp: uri_safe_def)

lemma uri_safe_percent: "b < 256 \<Longrightarrow> uri_safe (percent b)"
proof -
  assume "b < 256"
  then have "b div 16 < 16" "b mod 16 < 16" by simp_all
  moreover have "d < 16 \<Longrightarrow> unreserved (hex_digit d)" for d
    by (auto simp: unreserved_def hex_digit_def)
  ultimately show ?thesis by (simp add: uri_safe_def percent_def)
qed

lemma uri_safe_percents: "(\<And>b. b \<in> set bs \<Longrightarrow> b < 256) \<Longrightarrow> uri_safe (concat (map percent bs))"
  by (induction bs) (simp_all add: uri_safe_percent, simp add: uri_safe_def)

lemma utf8_bytes:
  assumes "c < 1114112" "b \<in> set (utf8 c)"
  shows "b < 256"
proof -
  have mods: "x mod 64 < 64" for x :: nat by simp
  have "c < 2048 \<Longrightarrow> c div 64 < 32" "c < 65536 \<Longrightarrow> c div 4096 < 16" "c div 262144 < 8"
    using assms(1) by (simp_all add: less_mult_imp_div_less)
  then show ?thesis
    using assms(2) mods [of c] mods [of "c div 64"] mods [of "c div 4096"]
    by (auto simp: utf8_def split: if_splits)
qed

lemma unreserved_bound: "unreserved c \<Longrightarrow> c < 128"
  by (auto simp: unreserved_def)

lemma encodeURIComponent_safe:
  "well_formed w \<Longrightarrow> \<exists>v. encodeURIComponent w = Inr v \<and> uri_safe v"
proof (induction w rule: well_formed.induct)
  case 1
  then show ?case by (simp add: uri_safe_def)
next
  case (2 c cs)
  consider (plain) "unreserved c" | (pair) "55296 \<le> c" "c \<le> 56319" | (other) "\<not> unreserved c" "\<not> (55296 \<le> c \<and> c \<le> 57343)"
    using "2.prems" by (auto split: if_splits)
  then show ?case
  proof cases
    case plain
    then have "\<exists>v. encodeURIComponent cs = Inr v \<and> uri_safe v"
      using 2 unreserved_bound [OF plain] by (auto split: if_splits)
    then show ?thesis using plain by (auto simp: uri_safe_def)
  next
    case pair
    then obtain d ds where d: "cs = d # ds" "56320 \<le> d" "d \<le> 57343" "well_formed ds"
      using "2.prems" by (auto split: list.splits)
    then obtain v where v: "encodeURIComponent ds = Inr v" "uri_safe v"
      using "2.IH"(1) [of d ds] pair by auto
    have "(c - 55296) * 1024 \<le> 1023 * 1024" "d - 56320 \<le> 1023" using pair d by simp_all
    then have "(c - 55296) * 1024 + (d - 56320) + 65536 < 1114112" by linarith
    note bytes = uri_safe_percents [OF utf8_bytes [OF this]]
    have "\<not> unreserved c" using pair unreserved_bound [of c] by auto
    then show ?thesis using pair d v bytes by auto
  next
    case other
    then have c: "c < 65536" "well_formed cs" using "2.prems" by (auto split: if_splits)
    then obtain v where v: "encodeURIComponent cs = Inr v" "uri_safe v" using "2.IH"(2) other by auto
    have "uri_safe (concat (map percent (utf8 c)))" using c by (intro uri_safe_percents utf8_bytes [of c]) simp_all
    then show ?thesis using other v by auto
  qed
qed

lemma highlight_fold:
  assumes "\<forall>q \<in> set qs. well_formed (q_word q)"
  shows "\<exists>ws. js_fold (\<lambda>result query.
        if \<not> q_not query
        then js_bind (encodeURIComponent (q_word query)) (\<lambda>w. Inr (result @ [highlight_prefix @ w]))
        else Inr result) acc qs = Inr (acc @ map ((@) highlight_prefix) ws)
    \<and> map Inr ws = map (encodeURIComponent \<circ> q_word) (filter (\<lambda>q. \<not> q_not q) qs)
    \<and> (\<forall>w \<in> set ws. uri_safe w)"
  using assms
proof (induction qs arbitrary: acc)
  case (Cons q qs)
  obtain v where v: "encodeURIComponent (q_word q) = Inr v" "uri_safe v"
    using encodeURIComponent_safe Cons.prems by force
  show ?case
  proof (cases "q_not q")
    case True
    then show ?thesis using Cons.IH [of acc] Cons.prems by simp
  next
    case False
    obtain ws where "js_fold (\<lambda>result query.
        if \<not> q_not query
        then js_bind (encodeURIComponent (q_word query)) (\<lambda>w. Inr (result @ [highlight_prefix @ w]))
        else Inr result) (acc @ [highlight_prefix @ v]) qs = Inr ((acc @ [highlight_prefix @ v]) @ map ((@) highlight_prefix) ws)"
      "map Inr ws = map (encodeURIComponent \<circ> q_word) (filter (\<lambda>q. \<not> q_not q) qs)" "\<forall>w \<in> set ws. uri_safe w"
      using Cons.IH [of "acc @ [highlight_prefix @ v]"] Cons.prems by auto
    then show ?thesis using v False by (intro exI [of _ "v # ws"]) simp
  qed
qed simp

text \<open>
  C33.  The highlight link of a parser whose words are well-formed UTF-16 is a query string with one
  parameter \<^verbatim>\<open>highlight=\<close> for each query that is not excluded, in order, whose value is the encoded
  word; a value contains only unreserved characters and percent signs, so no word can add or end
  a parameter.
\<close>

theorem QueryStringParser_highlight_correct:
  assumes "\<forall>q \<in> set (qp_queries p). well_formed (q_word q)"
  shows "\<exists>ws. QueryStringParser_highlight p = Inr (63 # join [38] (map ((@) highlight_prefix) ws))
    \<and> map Inr ws = map (encodeURIComponent \<circ> q_word) (filter (\<lambda>q. \<not> q_not q) (qp_queries p))
    \<and> (\<forall>w \<in> set ws. uri_safe w)"
  using highlight_fold [OF assms, of "[]"] by (auto simp: QueryStringParser_highlight_def)

theorem QueryStringParser_highlight_correct_witness:
  "\<exists>ws. QueryStringParser_highlight \<lparr>qp_queries = [\<lparr>q_word = [97, 38, 8364], q_or = False, q_not = False, q_raw = False\<rparr>]\<rparr>
      = Inr (63 # join [38] (map ((@) highlight_prefix) ws))
    \<and> map Inr ws = [encodeURIComponent [97, 38, 8364]] \<and> (\<forall>w \<in> set ws. uri_safe w)"
  using QueryStringParser_highlight_correct [of "\<lparr>qp_queries = [\<lparr>q_word = [97, 38, 8364], q_or = False, q_not = False, q_raw = False\<rparr>]\<rparr>"]
  by (simp del: encodeURIComponent.simps)

end
