(* ===== verification/Oktavia.thy ===== *)
theory Oktavia
  imports Metadata Query_Parser Complex_Main
begin

text \<open>
  The class \<^verbatim>\<open>Oktavia\<close>, the search engine itself: it owns the FM-index, the code tables, the metadata
  and the table of stemmed words, builds the index, answers queries and stores itself as a string.

  The metadata objects live in the table \<^verbatim>\<open>_metadatas\<close>; a caller that fills one updates it there.
  Two things come from outside the class and are arguments: the lower-case mapping of the host,
  and the stemmer, a function stored in the object as \<^verbatim>\<open>setStemmer\<close> stores it.
\<close>

section \<open>State\<close>

datatype metadata =
    MSection Section
  | MSplitter Splitter
  | MTable Table
  | MBlock Block

record Oktavia = OktaviaCore +
  ok_metadatas :: "(jsstring \<times> metadata) list"
  ok_metadataLabels :: "jsstring list"
  ok_stemmer :: "(jsstring \<Rightarrow> jsstring) option"
  ok_stemmingResult :: strmap

definition Oktavia_new :: Oktavia where
  "Oktavia_new = \<lparr>ok_fmindex = FMIndex_new, ok_utf162compressCode = initial_codes, ok_compressCode2utf16 = initial_chars,
     ok_metadatas = [], ok_metadataLabels = [], ok_stemmer = None, ok_stemmingResult = []\<rparr>"

definition Oktavia_setStemmer :: "Oktavia \<Rightarrow> (jsstring \<Rightarrow> jsstring) \<Rightarrow> Oktavia" where
  "Oktavia_setStemmer okt stemmer = okt\<lparr>ok_stemmer := Some stemmer\<rparr>"

text \<open>Without metadata the label is \<^verbatim>\<open>undefined\<close>, and so is the object.\<close>

definition Oktavia_getPrimaryMetadata :: "Oktavia \<Rightarrow> metadata option" where
  "Oktavia_getPrimaryMetadata okt =
    (case ok_metadataLabels okt of [] \<Rightarrow> None | label # _ \<Rightarrow> map_of (ok_metadatas okt) label)"

definition add_metadata :: "Oktavia \<Rightarrow> jsstring \<Rightarrow> metadata \<Rightarrow> Oktavia js" where
  "add_metadata okt key m =
    (if key \<in> set (ok_metadataLabels okt) then Inl (throw_text ''Metadata name '' key '' is already exists'')
     else Inr (okt\<lparr>ok_metadataLabels := ok_metadataLabels okt @ [key], ok_metadatas := str_set key m (ok_metadatas okt)\<rparr>))"

definition get_metadata :: "Oktavia \<Rightarrow> jsstring \<Rightarrow> metadata js" where
  "get_metadata okt key =
    (if key \<notin> set (ok_metadataLabels okt) then Inl (throw_text ''Metadata name '' key '' does't exists'')
     else case map_of (ok_metadatas okt) key of None \<Rightarrow> Inl Undef | Some m \<Rightarrow> Inr m)"

definition Oktavia_addSection :: "Oktavia \<Rightarrow> jsstring \<Rightarrow> Oktavia js" where
  "Oktavia_addSection okt key = add_metadata okt key (MSection Section_new)"

definition Oktavia_addSplitter :: "Oktavia \<Rightarrow> jsstring \<Rightarrow> Oktavia js" where
  "Oktavia_addSplitter okt key = add_metadata okt key (MSplitter Splitter_new)"

definition Oktavia_addTable :: "Oktavia \<Rightarrow> jsstring \<Rightarrow> jsstring list \<Rightarrow> Oktavia js" where
  "Oktavia_addTable okt key headers = add_metadata okt key (MTable (Table_new headers))"

definition Oktavia_addBlock :: "Oktavia \<Rightarrow> jsstring \<Rightarrow> Oktavia js" where
  "Oktavia_addBlock okt key = add_metadata okt key (MBlock Block_new)"

definition Oktavia_getSection :: "Oktavia \<Rightarrow> jsstring \<Rightarrow> metadata js" where
  "Oktavia_getSection okt key = get_metadata okt key"

definition Oktavia_getSplitter :: "Oktavia \<Rightarrow> jsstring \<Rightarrow> metadata js" where
  "Oktavia_getSplitter okt key = get_metadata okt key"

definition Oktavia_getTable :: "Oktavia \<Rightarrow> jsstring \<Rightarrow> metadata js" where
  "Oktavia_getTable okt key = get_metadata okt key"

definition Oktavia_getBlock :: "Oktavia \<Rightarrow> jsstring \<Rightarrow> metadata js" where
  "Oktavia_getBlock okt key = get_metadata okt key"

section \<open>Adding words\<close>

text \<open>\<^verbatim>\<open>split(/\s+/)\<close>: leading and trailing white space leave empty words.\<close>

function split_space :: "jsstring \<Rightarrow> jsstring list" where
  "split_space s =
    (let word = takeWhile (\<lambda>c. \<not> white_space c) s; rest = dropWhile (\<lambda>c. \<not> white_space c) s
     in if rest = [] then [word] else word # split_space (dropWhile white_space rest))"
  by pat_completeness auto
termination
proof (relation "measure length")
  fix s word rest :: jsstring
  assume "word = takeWhile (\<lambda>c. \<not> white_space c) s" and rest: "rest = dropWhile (\<lambda>c. \<not> white_space c) s" "rest \<noteq> []"
  obtain c cs where "rest = c # cs" using rest(2) by (cases rest) auto
  moreover have "white_space c" using rest calculation hd_dropWhile [of "\<lambda>c. \<not> white_space c" s] by (metis list.sel(1))
  moreover have "length rest \<le> length s" using rest(1) by (simp add: length_dropWhile_le)
  ultimately show "(dropWhile white_space rest, s) \<in> measure length"
    using length_dropWhile_le [of white_space cs] by (simp add: le_less_trans less_le_trans)
qed simp

declare split_space.simps [simp del]

text \<open>\<^verbatim>\<open>s.indexOf(t) === -1\<close>.\<close>

definition substring :: "jsstring \<Rightarrow> jsstring \<Rightarrow> bool" where
  "substring t s \<longleftrightarrow> (\<exists>i \<in> set [0..<length s + 1]. take (length t) (drop i s) = t)"

text \<open>
  The table of stemmed words is a plain object, so the names that every object inherits are found
  in it as well: functions, with the number of their parameters as \<^verbatim>\<open>length\<close>, and the prototype.
\<close>

definition inherited :: "(jsstring \<times> nat) list" where
  "inherited = map (\<lambda>(s, n). (map of_char s, n))
    [(''constructor'', 1), (''hasOwnProperty'', 1), (''isPrototypeOf'', 1), (''propertyIsEnumerable'', 1), (''toLocaleString'', 0),
     (''toString'', 0), (''valueOf'', 0), (''__defineGetter__'', 2), (''__defineSetter__'', 2), (''__lookupGetter__'', 1),
     (''__lookupSetter__'', 1), (''__proto__'', 0)]"

definition register_word :: "Oktavia \<Rightarrow> jsstring \<Rightarrow> jsstring \<Rightarrow> Oktavia js" where
  "register_word okt registerWord originalWord =
    (let compressedCodeWord = Oktavia_convertToCompressionCode okt originalWord in
     case map_of (ok_stemmingResult okt) registerWord of
       None \<Rightarrow>
         if map_of inherited registerWord \<noteq> None then Inl (Throw ''TypeError'')
         else Inr (okt\<lparr>ok_stemmingResult := str_set registerWord [compressedCodeWord] (ok_stemmingResult okt)\<rparr>)
     | Some stemmedList \<Rightarrow>
         if compressedCodeWord \<notin> set stemmedList
         then Inr (okt\<lparr>ok_stemmingResult := str_set registerWord (stemmedList @ [compressedCodeWord]) (ok_stemmingResult okt)\<rparr>)
         else Inr okt)"

definition stem_word :: "(jsstring \<Rightarrow> jsstring) \<Rightarrow> bool \<Rightarrow> Oktavia \<Rightarrow> jsstring \<Rightarrow> Oktavia js" where
  "stem_word toLowerCase stemming okt originalWord =
    (let smallWord = toLowerCase (take 1 originalWord) @ drop 1 originalWord;
         registerWord =
           (case (stemming, ok_stemmer okt) of
              (True, Some stemWord) \<Rightarrow>
                (let baseWord = stemWord (toLowerCase originalWord)
                 in if \<not> substring baseWord originalWord then Some baseWord else None)
            | _ \<Rightarrow> if originalWord \<noteq> smallWord then Some smallWord else None)
     in case registerWord of
          None \<Rightarrow> Inr okt
        | Some w \<Rightarrow> if w = [] then Inr okt else register_word okt w originalWord)"

definition Oktavia_addWordStemming :: "(jsstring \<Rightarrow> jsstring) \<Rightarrow> Oktavia \<Rightarrow> jsstring \<Rightarrow> bool \<Rightarrow> Oktavia js" where
  "Oktavia_addWordStemming toLowerCase okt words stemming =
    js_bind (Oktavia_addWord okt words) (\<lambda>okt. js_fold (stem_word toLowerCase stemming) okt (split_space words))"

section \<open>Searching\<close>

definition search_all :: "Oktavia \<Rightarrow> jsstring list \<Rightarrow> nat list js" where
  "search_all okt words =
    js_fold (\<lambda>result word. js_bind (FMIndex_search (ok_fmindex okt) word) (\<lambda>ps. Inr (result @ ps))) [] words"

definition Oktavia_rawSearch :: "(jsstring \<Rightarrow> jsstring) \<Rightarrow> Oktavia \<Rightarrow> jsstring \<Rightarrow> bool \<Rightarrow> nat list js" where
  "Oktavia_rawSearch toLowerCase okt keyword stemming =
    (if stemming
     then (case ok_stemmer okt of
         None \<Rightarrow> Inr []
       | Some stemWord \<Rightarrow>
           (let baseWord = stemWord (toLowerCase keyword) in
            case map_of (ok_stemmingResult okt) baseWord of
              Some stemmedList \<Rightarrow> search_all okt stemmedList
            | None \<Rightarrow> (case map_of inherited baseWord of
                  Some (Suc n) \<Rightarrow> Inl (Throw ''TypeError'')
                | _ \<Rightarrow> Inr [])))
     else FMIndex_search (ok_fmindex okt) (Oktavia_convertToCompressionCode okt keyword))"

definition metadata_grouping ::
  "metadata \<Rightarrow> unit_store \<Rightarrow> SingleResult \<Rightarrow> nat list \<Rightarrow> jsstring \<Rightarrow> bool \<Rightarrow> (unit_store \<times> SingleResult) js" where
  "metadata_grouping m h result positions word stemmed =
    (case m of
       MSection s \<Rightarrow> Section_grouping s h result positions word stemmed
     | MSplitter s \<Rightarrow> Splitter_grouping s h result positions word stemmed
     | MTable _ \<Rightarrow> Inr (h, result)
     | MBlock _ \<Rightarrow> Inr (h, result))"

definition Oktavia_searchQuery ::
  "(jsstring \<Rightarrow> jsstring) \<Rightarrow> Oktavia \<Rightarrow> unit_store \<Rightarrow> Query \<Rightarrow> (unit_store \<times> SingleResult) js" where
  "Oktavia_searchQuery toLowerCase okt h query =
    (let result = SingleResult_query (q_word query) (q_or query) (q_not query) in
     js_bind (Oktavia_rawSearch toLowerCase okt (q_word query) False) (\<lambda>exact.
     js_bind (if q_raw query then Inr exact
              else js_bind (Oktavia_rawSearch toLowerCase okt (q_word query) True) (\<lambda>stems. Inr (exact @ stems))) (\<lambda>positions.
     case Oktavia_getPrimaryMetadata okt of
       None \<Rightarrow> Inl (Throw ''TypeError'')
     | Some m \<Rightarrow> metadata_grouping m h result positions (q_word query) (\<not> q_raw query))))"

definition Oktavia_search ::
  "(jsstring \<Rightarrow> jsstring) \<Rightarrow> Oktavia \<Rightarrow> unit_store \<Rightarrow> Query list \<Rightarrow> (unit_store \<times> SearchSummary) js" where
  "Oktavia_search toLowerCase okt h queries =
    js_bind (js_fold (\<lambda>(h, summary) query.
        js_bind (Oktavia_searchQuery toLowerCase okt h query) (\<lambda>(h, result). Inr (h, SearchSummary_addQuery summary result)))
      (h, SearchSummary_new) queries)
      (\<lambda>(h, summary). SearchSummary_mergeResult h summary)"

section \<open>Building and storing\<close>

definition metadata_build :: "metadata \<Rightarrow> metadata" where
  "metadata_build m =
    (case m of
       MSection s \<Rightarrow> MSection (Metadata_build s)
     | MSplitter s \<Rightarrow> MSplitter (Metadata_build s)
     | MTable t \<Rightarrow> MTable (Table_build t)
     | MBlock b \<Rightarrow> MBlock (Metadata_build b))"

definition cache_range :: "rat \<Rightarrow> nat" where
  "cache_range cacheDensity = nat (round (max 1 (100 / min 100 (max (1 / 100) cacheDensity))))"

definition Oktavia_buildWith :: "Oktavia \<Rightarrow> rat \<Rightarrow> Oktavia js" where
  "Oktavia_buildWith okt cacheDensity =
    (let okt = okt\<lparr>ok_metadatas := map (\<lambda>(k, m). (k, metadata_build m)) (ok_metadatas okt)\<rparr>;
         maxChar = length (ok_compressCode2utf16 okt)
     in js_bind (FMIndex_build (ok_fmindex okt) [Oktavia_eof] maxChar (cache_range cacheDensity)) (\<lambda>fm.
        Inr (okt\<lparr>ok_fmindex := fm\<rparr>)))"

definition Oktavia_build :: "Oktavia \<Rightarrow> Oktavia js" where
  "Oktavia_build okt = Oktavia_buildWith okt 5"

definition metadata_dump :: "metadata \<Rightarrow> CompressionReport option \<Rightarrow> (jsstring \<times> CompressionReport option) js" where
  "metadata_dump m report =
    (case m of
       MSection s \<Rightarrow> Section_dump s report
     | MSplitter s \<Rightarrow> Splitter_dump s report
     | MTable t \<Rightarrow> Table_dump t report
     | MBlock b \<Rightarrow> Block_dump b report)"

text \<open>The file starts with the packed form of the name of the format, without its length.\<close>

definition format_name :: jsstring where
  "format_name = map of_char ''oktavia-01''"

definition file_header :: jsstring where
  "file_header = drop 1 (fst (Binary_dumpString format_name None))"

definition dump_metadatas :: "Oktavia \<Rightarrow> jsstring js" where
  "dump_metadatas okt =
    js_fold (\<lambda>result name.
      case map_of (ok_metadatas okt) name of
        None \<Rightarrow> Inl (Throw ''TypeError'')
      | Some m \<Rightarrow> js_bind (metadata_dump m (Some CompressionReport_new)) (\<lambda>(data, report).
          Inr (result @ fst (Binary_dumpString name report) @ data)))
      [] (ok_metadataLabels okt)"

definition Oktavia_dump :: "Oktavia \<Rightarrow> jsstring js" where
  "Oktavia_dump okt =
    js_bind (FMIndex_dump (ok_fmindex okt)) (\<lambda>fmdata.
    js_bind (dump_metadatas okt) (\<lambda>metadata.
      Inr (file_header @ fmdata @ Binary_dump16bitNumber (length (ok_compressCode2utf16 okt))
        @ drop 3 (ok_compressCode2utf16 okt)
        @ fst (Binary_dumpStringListMap (ok_stemmingResult okt) (Some CompressionReport_new))
        @ Binary_dump16bitNumber (length (ok_metadataLabels okt)) @ metadata)))"

definition load_char :: "jsstring \<Rightarrow> nat jsobj \<times> nat list \<times> nat \<Rightarrow> nat \<Rightarrow> (nat jsobj \<times> nat list \<times> nat) js" where
  "load_char data = (\<lambda>(codes, chars, offset) i.
    let charCode = Binary_load16bitNumber data offset
    in Inr (obj_set charCode (i mod 65536) codes, chars @ [charCode], offset + 1))"

definition load_metadata :: "jsstring \<Rightarrow> Oktavia \<times> nat \<Rightarrow> nat \<Rightarrow> (Oktavia \<times> nat) js" where
  "load_metadata data = (\<lambda>(okt, offset) i.
    js_bind (Binary_loadString data offset) (\<lambda>(name, offset).
      let type = Binary_load16bitNumber data offset;
          offset = offset + 1;
          register = (\<lambda>(m, offset). Inr (okt\<lparr>ok_metadataLabels := ok_metadataLabels okt @ [name],
             ok_metadatas := str_set name m (ok_metadatas okt)\<rparr>, offset))
      in if type = 0 then js_bind (Section_load data offset) (\<lambda>(s, offset). register (MSection s, offset))
         else if type = 1 then js_bind (Splitter_load data offset) (\<lambda>(s, offset). register (MSplitter s, offset))
         else if type = 2 then js_bind (Table_load data offset) (\<lambda>(t, offset). register (MTable t, offset))
         else if type = 3 then js_bind (Block_load data offset) (\<lambda>(b, offset). register (MBlock b, offset))
         else Inr (okt, offset)))"

definition Oktavia_load :: "Oktavia \<Rightarrow> jsstring \<Rightarrow> Oktavia js" where
  "Oktavia_load okt data =
    (if take 5 data \<noteq> file_header then Inl (Throw ''Invalid data file'')
     else
       js_bind (FMIndex_load (ok_fmindex okt) data 5) (\<lambda>(fm, offset).
       js_bind (js_fold (load_char data) (initial_codes, initial_chars, offset + 1) [3..<Binary_load16bitNumber data offset]) (\<lambda>(codes, chars, offset).
       js_bind (Binary_loadStringListMap data offset) (\<lambda>(stemmedWords, offset).
       js_bind (js_fold (load_metadata data)
          (okt\<lparr>ok_metadatas := [], ok_metadataLabels := [], ok_fmindex := fm, ok_utf162compressCode := codes,
              ok_compressCode2utf16 := chars, ok_stemmingResult := stemmedWords\<rparr>, offset + 1) [0..<Binary_load16bitNumber data offset])
         (\<lambda>(okt, offset). Inr okt)))))"

section \<open>A built engine and its text\<close>

text \<open>Positions at which a word occurs in a text.\<close>

definition occurrences :: "jsstring \<Rightarrow> jsstring \<Rightarrow> nat set" where
  "occurrences w t = {p. p + length w \<le> length t \<and> take (length w) (drop p t) = w}"

text \<open>
  The index of an engine answers for a text: its tables are inverse, the text is encoded in it, and
  the counts are cached below \<^verbatim>\<open>M\<close>.
\<close>

definition searchable :: "'a OktaviaCore_scheme \<Rightarrow> jsstring \<Rightarrow> nat \<Rightarrow> nat \<Rightarrow> bool" where
  "searchable okt t M d \<longleftrightarrow> core_ok okt \<and> covers (ok_utf162compressCode okt) t \<and> 0 < d \<and> fm_ddic (ok_fmindex okt) = d \<and>
    length (ok_compressCode2utf16 okt) \<le> M \<and> (\<exists>sa. fm_core (ok_fmindex okt) (encode (ok_utf162compressCode okt) t @ [Oktavia_eof]) sa M
      \<and> dict_from (ok_fmindex okt) (encode (ok_utf162compressCode okt) t @ [Oktavia_eof]) sa 0)"

lemma cache_range_pos: "0 < cache_range d"
proof -
  have "1 \<le> round (max 1 (100 / min 100 (max (1 / 100) d)))"
    by (rule order_trans [OF _ round_mono [of 1]]) simp_all
  then show ?thesis by (simp add: cache_range_def)
qed

lemma encoded_marked:
  assumes "tables_ok codes chars" "covers codes t" "t \<noteq> []"
  shows "marked (encode codes t @ [Oktavia_eof])" "\<forall>x \<in> set (encode codes t @ [Oktavia_eof]). x < length chars" "2 \<le> length chars"
proof -
  have b: "\<forall>k \<in> set (encode codes t). 0 < k \<and> k < length chars" by (rule encode_bounds [OF assms(1,2)])
  show "marked (encode codes t @ [Oktavia_eof])" using b by (simp add: marked_def butlast_append Oktavia_eof_def)
  show len: "2 \<le> length chars" using assms(1) by (auto simp: tables_ok_def initial_chars_def)
  show "\<forall>x \<in> set (encode codes t @ [Oktavia_eof]). x < length chars" using b len by (auto simp: Oktavia_eof_def)
qed

lemma build_searchable:
  assumes t: "holds_text okt t" "t \<noteq> []"
    and fresh: "fm_sv (ok_fmindex okt) = WaveletMatrix_new" "fm_posdic (ok_fmindex okt) = []" "fm_idic (ok_fmindex okt) = []"
  shows "\<exists>fm. Oktavia_buildWith okt density = Inr (okt\<lparr>ok_metadatas := map (\<lambda>(k, m). (k, metadata_build m)) (ok_metadatas okt), ok_fmindex := fm\<rparr>)
    \<and> searchable (okt\<lparr>ok_metadatas := map (\<lambda>(k, m). (k, metadata_build m)) (ok_metadatas okt), ok_fmindex := fm\<rparr>) t
        (length (ok_compressCode2utf16 okt)) (cache_range density)
    \<and> (\<forall>c \<ge> length (ok_compressCode2utf16 okt). obj_get (fm_rlt fm) c = obj_get (fm_rlt (ok_fmindex okt)) c)
    \<and> length (fm_idic fm) = (length t + 1 + cache_range density - 1) div cache_range density + 1
    \<and> fm_ssize fm = length t + 1 \<and> wm_bitsize (fm_sv fm) = ceil_log2 (length (ok_compressCode2utf16 okt))"
proof -
  let ?s = "encode (ok_utf162compressCode okt) t @ [Oktavia_eof]" and ?M = "length (ok_compressCode2utf16 okt)"
  have ok: "core_ok okt" "covers (ok_utf162compressCode okt) t" "?s = fm_substr (ok_fmindex okt) @ [Oktavia_eof]"
    using t(1) by (simp_all add: holds_text_def)
  note m = encoded_marked [OF ok(1,2) t(2)]
  have "2 \<le> length ?s" using t(2) by (cases t) (simp_all add: encode_def)
  then obtain sa where sa: "SAIS_make ?s = Inr (map int sa)" "is_suffix_array ?s sa"
    using SAIS_make_suffix_array [OF m(1)] by blast
  obtain fm where fm: "FMIndex_build (ok_fmindex okt) [Oktavia_eof] ?M (cache_range density) = Inr fm" "fm_core fm ?s sa ?M"
      "dict_from fm ?s sa 0" "fm_ddic fm = cache_range density" "length (fm_idic fm) = (length ?s + cache_range density - 1) div cache_range density + 1"
      "\<forall>c \<ge> ?M. obj_get (fm_rlt fm) c = obj_get (fm_rlt (ok_fmindex okt)) c" "fm_ssize fm = length ?s" "wm_bitsize (fm_sv fm) = ceil_log2 ?M"
    using FMIndex_build_spec [OF fresh ok(3) m cache_range_pos sa, of density] by blast
  have run: "Oktavia_buildWith okt density = Inr (okt\<lparr>ok_metadatas := map (\<lambda>(k, m). (k, metadata_build m)) (ok_metadatas okt), ok_fmindex := fm\<rparr>)"
    using fm(1) by (simp add: Oktavia_buildWith_def)
  have "searchable (okt\<lparr>ok_metadatas := map (\<lambda>(k, m). (k, metadata_build m)) (ok_metadatas okt), ok_fmindex := fm\<rparr>) t ?M (cache_range density)"
    using ok(1,2) fm(2,3,4) cache_range_pos [of density] by (auto simp: searchable_def)
  then show ?thesis using run fm(5-8) by (intro exI [of _ fm]) simp
qed

lemma search_encoded:
  assumes okt: "searchable okt t M d" and w: "w \<noteq> []" "covers (ok_utf162compressCode okt) w"
    and last: "the (obj_get (ok_utf162compressCode okt) (last w)) + 1 < M"
  shows "\<exists>ps. FMIndex_search (ok_fmindex okt) (encode (ok_utf162compressCode okt) w) = Inr ps \<and> distinct ps \<and> set ps = occurrences w t"
proof -
  let ?codes = "ok_utf162compressCode okt" let ?s = "encode ?codes t @ [Oktavia_eof]" let ?w = "encode ?codes w"
  obtain sa where fm: "fm_core (ok_fmindex okt) ?s sa M" "dict_from (ok_fmindex okt) ?s sa 0"
    and ok: "core_ok okt" "covers ?codes t" using okt by (auto simp: searchable_def)
  have ne: "?w \<noteq> []" "last ?w = the (obj_get ?codes (last w))" using w(1) by (simp_all add: encode_def last_map)
  have b: "\<forall>k \<in> set ?w. 0 < k \<and> k < length (ok_compressCode2utf16 okt)" by (rule encode_bounds [OF ok(1) w(2)])
  moreover have "length (ok_compressCode2utf16 okt) \<le> M" using okt by (simp add: searchable_def)
  ultimately have "keyword_ok ?s M ?w" using ne last by (auto simp: keyword_ok_def Oktavia_eof_def)
  then have search: "FMIndex_search (ok_fmindex okt) ?w = Inr [j \<leftarrow> sa. starts_with ?w (drop j ?s)]"
    by (rule FMIndex_search_spec [OF fm(1) dict_from_0(1) [OF fm(2)]])
  have "Oktavia_eof \<notin> set ?w" using b by (auto simp: Oktavia_eof_def)
  note set = occurrences_set [OF fm_coreD(1) [OF fm(1)] ne(1) this]
  have "take (length w) (drop p (encode ?codes t)) = ?w \<longleftrightarrow> take (length w) (drop p t) = w" for p
    unfolding encode_infix by (rule iffI, rule encode_inj [OF ok(1) covers_infix [OF ok(2)] w(2)]) simp_all
  then have "set [j \<leftarrow> sa. starts_with ?w (drop j ?s)] = occurrences w t"
    unfolding set by (simp add: occurrences_def)
  then show ?thesis using search fm_coreD(11) [OF fm(1)] by auto
qed

lemma rawSearch_exact:
  assumes "searchable okt t M d" "w \<noteq> []" "covers (ok_utf162compressCode okt) w"
    "the (obj_get (ok_utf162compressCode okt) (last w)) + 1 < M"
  shows "\<exists>ps. Oktavia_rawSearch toLower okt w False = Inr ps \<and> distinct ps \<and> set ps = occurrences w t"
  using search_encoded [OF assms] convert_encode [OF assms(3) refl] by (simp add: Oktavia_rawSearch_def)

lemma search_all_encoded:
  assumes "searchable okt t M d" "\<forall>w \<in> set ws. w \<noteq> [] \<and> covers (ok_utf162compressCode okt) w
      \<and> the (obj_get (ok_utf162compressCode okt) (last w)) + 1 < M"
  shows "\<exists>ps. search_all okt (map (encode (ok_utf162compressCode okt)) ws) = Inr ps \<and> set ps = (\<Union>w \<in> set ws. occurrences w t)"
  using assms(2)
proof (induction ws rule: rev_induct)
  case Nil
  then show ?case by (simp add: search_all_def)
next
  case (snoc w ws)
  obtain ps where "search_all okt (map (encode (ok_utf162compressCode okt)) ws) = Inr ps" "set ps = (\<Union>w \<in> set ws. occurrences w t)"
    using snoc by auto
  moreover obtain qs where "FMIndex_search (ok_fmindex okt) (encode (ok_utf162compressCode okt) w) = Inr qs" "set qs = occurrences w t"
    using search_encoded [OF assms(1), of w] snoc.prems by auto
  ultimately show ?case by (simp add: search_all_def js_fold_snoc Un_commute)
qed

lemma getSubstring_codes:
  assumes okt: "searchable okt t M d" and pos: "0 < len" "pos + len \<le> length t" "(pos + len + d - 2) div d * d \<le> length t"
  shows "FMIndex_getSubstring (ok_fmindex okt) pos len = Inr (encode (ok_utf162compressCode okt) (take len (drop pos t)))"
proof -
  let ?codes = "ok_utf162compressCode okt" let ?s = "encode ?codes t @ [Oktavia_eof]"
  obtain sa where fm: "fm_core (ok_fmindex okt) ?s sa M" "dict_from (ok_fmindex okt) ?s sa 0"
    and ok: "core_ok okt" "covers ?codes t" "0 < d" "fm_ddic (ok_fmindex okt) = d" using okt by (auto simp: searchable_def)
  have "int (pos + len) + int d - 2 = int (pos + len + d - 2)" using pos(1) ok(3) by linarith
  then have "sample d (pos + len) = (pos + len + d - 2) div d"
    by (simp only: sample_def zdiv_int [symmetric] nat_int)
  moreover have "min (pos + len) (length ?s) = pos + len" using pos(2) by simp
  ultimately have "sample d (min (pos + len) (length ?s)) * d < length ?s" using pos(3) by simp
  then have "FMIndex_getSubstring (ok_fmindex okt) pos len = Inr (take len (drop pos ?s))"
    using FMIndex_getSubstring_spec [OF fm(1) dict_from_0(2) [OF fm(2)], of pos len] ok pos by simp
  moreover have "take len (drop pos ?s) = encode ?codes (take len (drop pos t))" using pos(2) by (simp add: encode_infix)
  ultimately show ?thesis by simp
qed

lemma getSubstring_text:
  assumes okt: "searchable okt t M d" and pos: "0 < len" "pos + len \<le> length t" "(pos + len + d - 2) div d * d \<le> length t"
  shows "Oktavia_getSubstring okt pos len = Inr (take len (drop pos t))"
proof -
  have "core_ok okt" "covers (ok_utf162compressCode okt) t" using okt by (simp_all add: searchable_def)
  then show ?thesis using getSubstring_codes [OF assms] decode_text covers_infix by (simp add: Oktavia_getSubstring_def)
qed

section \<open>The table of stemmed words\<close>

lemma map_of_str_set: "map_of (str_set k v m) = (map_of m)(k \<mapsto> v)"
  by (induction m) auto

text \<open>The words of a text that are registered under a stem: those that do not contain it.\<close>

definition stem_class :: "(jsstring \<Rightarrow> jsstring) \<Rightarrow> (jsstring \<Rightarrow> jsstring) \<Rightarrow> jsstring list \<Rightarrow> jsstring \<Rightarrow> jsstring set" where
  "stem_class toLower stem ws b = {w \<in> set ws. stem (toLower w) = b \<and> \<not> substring b w}"

definition words_for :: "strmap \<Rightarrow> jsstring \<Rightarrow> jsstring list" where
  "words_for m b = (case map_of m b of None \<Rightarrow> [] | Some l \<Rightarrow> l)"

definition proper_map :: "strmap \<Rightarrow> bool" where
  "proper_map m \<longleftrightarrow> distinct (map fst m) \<and> (\<forall>kv \<in> set m. fst kv \<noteq> [] \<and> snd kv \<noteq> [])"

lemma fst_str_set: "fst ` set (str_set k v m) = insert k (fst ` set m)"
proof (induction m)
  case (Cons kv m)
  then show ?case by (cases kv) (auto simp: image_iff)
qed simp

lemma str_set_entries: "set (str_set k v m) \<subseteq> insert (k, v) (set m)"
  by (induction k v m rule: str_set.induct) auto

lemma distinct_str_set: "distinct (map fst m) \<Longrightarrow> distinct (map fst (str_set k v m))"
proof (induction k v m rule: str_set.induct)
  case (2 k v k' v' m)
  then show ?case using fst_str_set [of k v m] by simp
qed simp

lemma proper_str_set: "proper_map m \<Longrightarrow> k \<noteq> [] \<Longrightarrow> v \<noteq> [] \<Longrightarrow> proper_map (str_set k v m)"
  unfolding proper_map_def using str_set_entries [of k v m] distinct_str_set [of m k v] by fastforce

definition stems_ok :: "(jsstring \<Rightarrow> jsstring) \<Rightarrow> (jsstring \<Rightarrow> jsstring) \<Rightarrow> Oktavia \<Rightarrow> jsstring list \<Rightarrow> bool" where
  "stems_ok toLower stem okt ws \<longleftrightarrow> ok_stemmer okt = Some stem \<and> (\<forall>w \<in> set ws. covers (ok_utf162compressCode okt) w)
    \<and> (\<forall>b. b \<noteq> [] \<longrightarrow> set (words_for (ok_stemmingResult okt) b)
          = encode (ok_utf162compressCode okt) ` stem_class toLower stem ws b)
    \<and> (\<forall>b. distinct (words_for (ok_stemmingResult okt) b)) \<and> proper_map (ok_stemmingResult okt)"

lemma stems_okD:
  assumes "stems_ok toLower stem okt ws"
  shows "ok_stemmer okt = Some stem" and "\<And>w. w \<in> set ws \<Longrightarrow> covers (ok_utf162compressCode okt) w"
    and "\<And>b. b \<noteq> [] \<Longrightarrow> set (words_for (ok_stemmingResult okt) b) = encode (ok_utf162compressCode okt) ` stem_class toLower stem ws b"
    and "\<And>b. distinct (words_for (ok_stemmingResult okt) b)" and "proper_map (ok_stemmingResult okt)"
  using assms unfolding stems_ok_def by blast+

lemma stems_okI:
  assumes "ok_stemmer okt = Some stem" and "\<And>w. w \<in> set ws \<Longrightarrow> covers (ok_utf162compressCode okt) w"
    and "\<And>b. b \<noteq> [] \<Longrightarrow> set (words_for (ok_stemmingResult okt) b) = encode (ok_utf162compressCode okt) ` stem_class toLower stem ws b"
    and "\<And>b. distinct (words_for (ok_stemmingResult okt) b)" and "proper_map (ok_stemmingResult okt)"
  shows "stems_ok toLower stem okt ws"
  using assms unfolding stems_ok_def by blast

lemma substring_Nil: "substring [] s"
  by (auto simp: substring_def)

lemma stem_class_snoc:
  "stem_class toLower stem (ws @ [w]) b = stem_class toLower stem ws b
    \<union> (if stem (toLower w) = b \<and> \<not> substring b w then {w} else {})"
  by (auto simp: stem_class_def)

lemma stems_ok_step:
  assumes ok: "stems_ok toLower stem okt ws" and w: "covers (ok_utf162compressCode okt) w"
    and m: "\<And>b. b \<noteq> [] \<Longrightarrow> set (words_for m b) = set (words_for (ok_stemmingResult okt) b)
        \<union> (if stem (toLower w) = b \<and> \<not> substring b w then {encode (ok_utf162compressCode okt) w} else {})"
      "\<And>b. distinct (words_for m b)" "proper_map m"
  shows "stems_ok toLower stem (okt\<lparr>ok_stemmingResult := m\<rparr>) (ws @ [w])"
proof -
  have "set (words_for m b) = encode (ok_utf162compressCode okt) ` stem_class toLower stem (ws @ [w]) b" if "b \<noteq> []" for b
  proof -
    have "set (words_for (ok_stemmingResult okt) b) = encode (ok_utf162compressCode okt) ` stem_class toLower stem ws b"
      by (rule stems_okD(3) [OF ok that])
    then show ?thesis unfolding m(1) [OF that] stem_class_snoc by simp
  qed
  then show ?thesis using stems_okD(1,2) [OF ok] w m(2,3) by (intro stems_okI) auto
qed

lemma stem_word_ok:
  assumes ok: "stems_ok toLower stem okt ws" and w: "covers (ok_utf162compressCode okt) w" "map_of inherited (stem (toLower w)) = None"
  shows "\<exists>m. stem_word toLower True okt w = Inr (okt\<lparr>ok_stemmingResult := m\<rparr>) \<and> stems_ok toLower stem (okt\<lparr>ok_stemmingResult := m\<rparr>) (ws @ [w])"
proof -
  let ?b = "stem (toLower w)" and ?codes = "ok_utf162compressCode okt" and ?m = "ok_stemmingResult okt"
  have stem: "ok_stemmer okt = Some stem" and wf: "\<And>b. distinct (words_for ?m b)" and pm: "proper_map ?m"
    by (rule stems_okD(1) [OF ok], rule stems_okD(4) [OF ok], rule stems_okD(5) [OF ok])
  have conv: "Oktavia_convertToCompressionCode okt w = encode ?codes w" by (rule convert_encode [OF w(1) refl])
  note step = stems_ok_step [OF ok w(1)]
  show ?thesis
  proof (cases "substring ?b w")
    case True
    then have "stem_word toLower True okt w = Inr (okt\<lparr>ok_stemmingResult := ?m\<rparr>)" using stem by (simp add: stem_word_def)
    moreover have "stems_ok toLower stem (okt\<lparr>ok_stemmingResult := ?m\<rparr>) (ws @ [w])"
      by (rule step) (use True wf pm in auto)
    ultimately show ?thesis by blast
  next
    case False
    then have b: "?b \<noteq> []" using substring_Nil [of w] by auto
    then have run: "stem_word toLower True okt w = register_word okt ?b w" using stem False by (simp add: stem_word_def)
    consider (new) "map_of ?m ?b = None" | (known) l where "map_of ?m ?b = Some l" "encode ?codes w \<in> set l"
      | (more) l where "map_of ?m ?b = Some l" "encode ?codes w \<notin> set l" by (cases "map_of ?m ?b") auto
    then show ?thesis
    proof cases
      case new
      let ?m' = "str_set ?b [encode ?codes w] ?m"
      have "stem_word toLower True okt w = Inr (okt\<lparr>ok_stemmingResult := ?m'\<rparr>)"
        using run new w(2) conv by (simp add: register_word_def)
      moreover have "stems_ok toLower stem (okt\<lparr>ok_stemmingResult := ?m'\<rparr>) (ws @ [w])"
        by (rule step) (use b False new wf pm in \<open>auto simp: map_of_str_set words_for_def proper_str_set split: if_splits\<close>)
      ultimately show ?thesis by blast
    next
      case known
      have "stem_word toLower True okt w = Inr (okt\<lparr>ok_stemmingResult := ?m\<rparr>)"
        using run known conv by (simp add: register_word_def)
      moreover have "stems_ok toLower stem (okt\<lparr>ok_stemmingResult := ?m\<rparr>) (ws @ [w])"
        by (rule step) (use known wf pm in \<open>auto simp: words_for_def\<close>)
      ultimately show ?thesis by blast
    next
      case more
      let ?m' = "str_set ?b (l @ [encode ?codes w]) ?m"
      have "stem_word toLower True okt w = Inr (okt\<lparr>ok_stemmingResult := ?m'\<rparr>)"
        using run more conv by (simp add: register_word_def)
      moreover have "stems_ok toLower stem (okt\<lparr>ok_stemmingResult := ?m'\<rparr>) (ws @ [w])"
        by (rule step) (use b False more wf [of ?b] wf pm in \<open>auto simp: map_of_str_set words_for_def proper_str_set split: if_splits\<close>)
      ultimately show ?thesis by blast
    qed
  qed
qed

lemma stem_words_ok:
  assumes "stems_ok toLower stem okt ws" "\<forall>w \<in> set vs. covers (ok_utf162compressCode okt) w \<and> map_of inherited (stem (toLower w)) = None"
  shows "\<exists>m. js_fold (stem_word toLower True) okt vs = Inr (okt\<lparr>ok_stemmingResult := m\<rparr>) \<and> stems_ok toLower stem (okt\<lparr>ok_stemmingResult := m\<rparr>) (ws @ vs)"
  using assms(2)
proof (induction vs rule: rev_induct)
  case Nil
  then show ?case using assms(1) by (intro exI [of _ "ok_stemmingResult okt"]) simp
next
  case (snoc v vs)
  then obtain m where m: "js_fold (stem_word toLower True) okt vs = Inr (okt\<lparr>ok_stemmingResult := m\<rparr>)"
    "stems_ok toLower stem (okt\<lparr>ok_stemmingResult := m\<rparr>) (ws @ vs)" by auto
  then show ?case using stem_word_ok [OF m(2), of v] snoc.prems by (auto simp: js_fold_snoc)
qed

lemma split_space_subset: "w \<in> set (split_space s) \<Longrightarrow> set w \<subseteq> set s"
proof (induction s rule: split_space.induct)
  case (1 s)
  let ?rest = "dropWhile (\<lambda>c. \<not> white_space c) s"
  show ?case
  proof (cases "w = takeWhile (\<lambda>c. \<not> white_space c) s")
    case False
    then have "?rest \<noteq> []" "w \<in> set (split_space (dropWhile white_space ?rest))"
      using "1.prems" by (auto simp: split_space.simps [of s] Let_def split: if_splits)
    then have "set w \<subseteq> set (dropWhile white_space ?rest)" using "1.IH" [OF refl refl] by blast
    then show ?thesis using set_dropWhileD [of _ white_space ?rest] set_dropWhileD [of _ _ s] by blast
  qed (auto dest: set_takeWhileD)
qed

lemma stems_ok_extends:
  assumes "stems_ok toLower stem okt ws" "extends (ok_utf162compressCode okt) (ok_compressCode2utf16 okt) (ok_utf162compressCode okt') (ok_compressCode2utf16 okt')"
    "ok_stemmer okt' = ok_stemmer okt" "ok_stemmingResult okt' = ok_stemmingResult okt"
  shows "stems_ok toLower stem okt' ws"
proof -
  have "encode (ok_utf162compressCode okt') ` stem_class toLower stem ws b = encode (ok_utf162compressCode okt) ` stem_class toLower stem ws b" for b
    using stems_okD(2) [OF assms(1)] extends_encode(1) [OF assms(2)] by (intro image_cong) (auto simp: stem_class_def)
  then show ?thesis
    using stems_okD [OF assms(1)] assms(3,4) extends_encode(2) [OF assms(2)] by (intro stems_okI) simp_all
qed

lemma addWordStemming_ok:
  assumes t: "holds_text okt t" and ws: "stems_ok toLower stem okt ws"
    and words: "words \<noteq> []" "\<forall>c \<in> set words. 3 \<le> c \<and> c < 65536" "\<forall>w \<in> set (split_space words). map_of inherited (stem (toLower w)) = None"
  obtains okt' where "Oktavia_addWordStemming toLower okt words True = Inr okt'" "holds_text okt' (t @ words)"
    "stems_ok toLower stem okt' (ws @ split_space words)" "ok_metadatas okt' = ok_metadatas okt" "ok_metadataLabels okt' = ok_metadataLabels okt"
    "ok_fmindex okt' = (ok_fmindex okt)\<lparr>fm_substr := fm_substr (ok_fmindex okt')\<rparr>"
proof -
  obtain okt1 where 1: "Oktavia_addWord okt words = Inr okt1" "holds_text okt1 (t @ words)" "same_index okt okt1"
    "extends (ok_utf162compressCode okt) (ok_compressCode2utf16 okt) (ok_utf162compressCode okt1) (ok_compressCode2utf16 okt1)"
    using addWord_holds [OF t words(1,2)] .
  note eq = 1(3) [unfolded same_index_def]
  have same: "ok_stemmer okt1 = ok_stemmer okt" "ok_stemmingResult okt1 = ok_stemmingResult okt" "ok_metadatas okt1 = ok_metadatas okt"
    "ok_metadataLabels okt1 = ok_metadataLabels okt" "ok_fmindex okt1 = (ok_fmindex okt)\<lparr>fm_substr := fm_substr (ok_fmindex okt1)\<rparr>"
    using arg_cong [OF eq, of ok_stemmer] arg_cong [OF eq, of ok_stemmingResult] arg_cong [OF eq, of ok_metadatas]
      arg_cong [OF eq, of ok_metadataLabels] arg_cong [OF eq, of ok_fmindex] by simp_all
  have "covers (ok_utf162compressCode okt1) words" using 1(2) by (simp add: holds_text_def)
  then have "\<forall>w \<in> set (split_space words). covers (ok_utf162compressCode okt1) w \<and> map_of inherited (stem (toLower w)) = None"
    using words(3) split_space_subset by (fastforce simp: covers_def)
  from stem_words_ok [OF stems_ok_extends [OF ws 1(4) same(1,2)] this] obtain m where
    m: "js_fold (stem_word toLower True) okt1 (split_space words) = Inr (okt1\<lparr>ok_stemmingResult := m\<rparr>)"
      "stems_ok toLower stem (okt1\<lparr>ok_stemmingResult := m\<rparr>) (ws @ split_space words)" by blast
  show thesis
  proof (rule that)
    show "Oktavia_addWordStemming toLower okt words True = Inr (okt1\<lparr>ok_stemmingResult := m\<rparr>)"
      using 1(1) m(1) by (simp add: Oktavia_addWordStemming_def)
    show "ok_fmindex (okt1\<lparr>ok_stemmingResult := m\<rparr>) = (ok_fmindex okt)\<lparr>fm_substr := fm_substr (ok_fmindex (okt1\<lparr>ok_stemmingResult := m\<rparr>))\<rparr>"
      using same(5) by simp
  qed (use m(2) 1(2) same in \<open>simp_all add: holds_text_def\<close>)
qed

section \<open>Indexing documents\<close>

text \<open>
  The way the indexing tools use the engine: a section object is registered, and for each document
  its text is added and the tail of the section is set; then the index is built.
\<close>

definition add_document :: "(jsstring \<Rightarrow> jsstring) \<Rightarrow> jsstring \<Rightarrow> Oktavia \<Rightarrow> jsstring \<times> jsstring \<Rightarrow> Oktavia js" where
  "add_document toLower key okt = (\<lambda>(name, words).
    js_bind (Oktavia_addWordStemming toLower okt words True) (\<lambda>okt.
      case map_of (ok_metadatas okt) key of
        Some (MSection s) \<Rightarrow> Inr (okt\<lparr>ok_metadatas := str_set key (MSection (Section_setTail okt s name)) (ok_metadatas okt)\<rparr>)
      | _ \<Rightarrow> Inl Undef))"

definition index_documents ::
  "(jsstring \<Rightarrow> jsstring) \<Rightarrow> (jsstring \<Rightarrow> jsstring) \<Rightarrow> jsstring \<Rightarrow> (jsstring \<times> jsstring) list \<Rightarrow> rat \<Rightarrow> Oktavia js" where
  "index_documents toLower stem key docs density =
    js_bind (Oktavia_addSection (Oktavia_setStemmer Oktavia_new stem) key) (\<lambda>okt.
    js_bind (js_fold (add_document toLower key) okt docs) (\<lambda>okt. Oktavia_buildWith okt density))"

definition doc_text :: "(jsstring \<times> jsstring) list \<Rightarrow> jsstring" where
  "doc_text docs = concat (map snd docs)"

definition doc_words :: "(jsstring \<times> jsstring) list \<Rightarrow> jsstring list" where
  "doc_words docs = concat (map (split_space \<circ> snd) docs)"

definition doc_tails :: "(jsstring \<times> jsstring) list \<Rightarrow> nat list" where
  "doc_tails docs = map (\<lambda>i. length (doc_text (take (Suc i) docs))) [0..<length docs]"

definition docs_ok :: "(jsstring \<Rightarrow> jsstring) \<Rightarrow> (jsstring \<Rightarrow> jsstring) \<Rightarrow> (jsstring \<times> jsstring) list \<Rightarrow> bool" where
  "docs_ok toLower stem docs \<longleftrightarrow> (\<forall>(name, words) \<in> set docs. words \<noteq> [] \<and> (\<forall>c \<in> set words. 3 \<le> c \<and> c < 65536)
    \<and> (\<forall>w \<in> set (split_space words). map_of inherited (stem (toLower w)) = None))"

lemma doc_snoc:
  "doc_text (docs @ [d]) = doc_text docs @ snd d" "doc_words (docs @ [d]) = doc_words docs @ split_space (snd d)"
  "doc_tails (docs @ [d]) = doc_tails docs @ [length (doc_text (docs @ [d]))]"
proof -
  have "map (\<lambda>i. length (doc_text (take (Suc i) (docs @ [d])))) [0..<length docs] = doc_tails docs"
    unfolding doc_tails_def by (rule map_cong) simp_all
  then show "doc_tails (docs @ [d]) = doc_tails docs @ [length (doc_text (docs @ [d]))]" by (simp add: doc_tails_def)
qed (simp_all add: doc_text_def doc_words_def)

lemma end_doc_tails: "end_of (doc_tails docs) = length (doc_text docs)"
  by (cases docs rule: rev_cases) (simp_all add: doc_snoc(3), simp add: doc_tails_def end_of_def doc_text_def)

text \<open>The state between two documents.\<close>

definition filled :: "(jsstring \<Rightarrow> jsstring) \<Rightarrow> (jsstring \<Rightarrow> jsstring) \<Rightarrow> jsstring \<Rightarrow> (jsstring \<times> jsstring) list \<Rightarrow> Oktavia \<Rightarrow> bool" where
  "filled toLower stem key docs okt \<longleftrightarrow> holds_text okt (doc_text docs) \<and> stems_ok toLower stem okt (doc_words docs)
    \<and> ok_metadataLabels okt = [key] \<and> ok_fmindex okt = FMIndex_new\<lparr>fm_substr := fm_substr (ok_fmindex okt)\<rparr>
    \<and> (\<exists>s. ok_metadatas okt = [(key, MSection s)] \<and> marked_at (md_bitVector s) (doc_tails docs) \<and> sec_names s = map fst docs)"

lemma filled_new:
  "\<exists>okt. Oktavia_addSection (Oktavia_setStemmer Oktavia_new stem) key = Inr okt \<and> filled toLower stem key [] okt"
proof -
  have "stems_ok toLower stem (Oktavia_new\<lparr>ok_stemmer := Some stem, ok_metadataLabels := [key], ok_metadatas := [(key, MSection Section_new)]\<rparr>) []"
    by (rule stems_okI) (simp_all add: Oktavia_new_def words_for_def stem_class_def proper_map_def)
  then show ?thesis
    using tables_ok_initial
    by (simp add: Oktavia_addSection_def add_metadata_def Oktavia_setStemmer_def filled_def doc_text_def doc_words_def doc_tails_def
        holds_text_def Oktavia_new_def FMIndex_new_def Section_new_def marked_at_new)
qed

lemma add_document_filled:
  assumes "filled toLower stem key docs okt" "docs_ok toLower stem [d]"
  shows "\<exists>okt'. add_document toLower key okt d = Inr okt' \<and> filled toLower stem key (docs @ [d]) okt'"
proof -
  obtain name words where d: "d = (name, words)" by (cases d)
  obtain s where okt: "holds_text okt (doc_text docs)" "stems_ok toLower stem okt (doc_words docs)" "ok_metadataLabels okt = [key]"
    "ok_fmindex okt = FMIndex_new\<lparr>fm_substr := fm_substr (ok_fmindex okt)\<rparr>"
    "ok_metadatas okt = [(key, MSection s)]" "marked_at (md_bitVector s) (doc_tails docs)" "sec_names s = map fst docs"
    using assms(1) by (auto simp: filled_def)
  have words: "words \<noteq> []" "\<forall>c \<in> set words. 3 \<le> c \<and> c < 65536" "\<forall>w \<in> set (split_space words). map_of inherited (stem (toLower w)) = None"
    using assms(2) by (simp_all add: docs_ok_def d)
  obtain okt1 where 1: "Oktavia_addWordStemming toLower okt words True = Inr okt1" "holds_text okt1 (doc_text docs @ words)"
    "stems_ok toLower stem okt1 (doc_words docs @ split_space words)" "ok_metadatas okt1 = ok_metadatas okt"
    "ok_metadataLabels okt1 = ok_metadataLabels okt" "ok_fmindex okt1 = (ok_fmindex okt)\<lparr>fm_substr := fm_substr (ok_fmindex okt1)\<rparr>"
    using addWordStemming_ok [OF okt(1,2) words] .
  let ?s = "Section_setTail okt1 s name"
  let ?okt = "okt1\<lparr>ok_metadatas := [(key, MSection ?s)]\<rparr>"
  have "add_document toLower key okt d = Inr ?okt" using 1(1,4) okt(5) by (simp add: add_document_def d)
  moreover have "marked_at (md_bitVector ?s) (doc_tails (docs @ [d]))"
    using marked_at_snoc [OF okt(6), of "length (doc_text docs @ words)"] words(1) holds_contentSize [OF 1(2)]
    by (simp add: Section_setTail_def doc_snoc(3) doc_snoc(1) d end_doc_tails)
  moreover have "stems_ok toLower stem ?okt (doc_words (docs @ [d]))"
    using stems_okD [OF 1(3)] by (intro stems_okI) (simp_all add: doc_snoc(2) d)
  moreover have "ok_fmindex okt1 = FMIndex_new\<lparr>fm_substr := fm_substr (ok_fmindex okt1)\<rparr>"
    by (subst 1(6), subst okt(4)) simp
  moreover have "sec_names ?s = map fst (docs @ [d])" using okt(7) by (simp add: Section_setTail_def d)
  ultimately show ?thesis using 1(2,5) okt(3) by (simp add: filled_def doc_snoc(1) d holds_text_def)
qed

lemma add_documents_filled:
  assumes "filled toLower stem key [] okt" "docs_ok toLower stem docs"
  shows "\<exists>okt'. js_fold (add_document toLower key) okt docs = Inr okt' \<and> filled toLower stem key docs okt'"
  using assms(2)
proof (induction docs rule: rev_induct)
  case (snoc d docs)
  then obtain okt1 where "js_fold (add_document toLower key) okt docs = Inr okt1" "filled toLower stem key docs okt1"
    by (auto simp: docs_ok_def)
  moreover have "docs_ok toLower stem [d]" using snoc.prems by (auto simp: docs_ok_def)
  ultimately show ?case using add_document_filled by (fastforce simp: js_fold_snoc)
qed (use assms(1) in simp)

text \<open>The state of the built engine.\<close>

definition engine :: "(jsstring \<Rightarrow> jsstring) \<Rightarrow> (jsstring \<Rightarrow> jsstring) \<Rightarrow> jsstring \<Rightarrow> (jsstring \<times> jsstring) list \<Rightarrow> nat \<Rightarrow> nat \<Rightarrow> Oktavia \<Rightarrow> bool" where
  "engine toLower stem key docs M d okt \<longleftrightarrow> searchable okt (doc_text docs) M d \<and> stems_ok toLower stem okt (doc_words docs)
    \<and> foldl add_new initial_chars (doc_text docs) = ok_compressCode2utf16 okt
    \<and> (\<exists>s. Oktavia_getPrimaryMetadata okt = Some (MSection s) \<and> cuts (md_bitVector s) (doc_tails docs) \<and> sec_names s = map fst docs)"

text \<open>The parts of a freshly built engine that storing depends on.\<close>

definition fresh_engine :: "jsstring \<Rightarrow> (jsstring \<times> jsstring) list \<Rightarrow> Oktavia \<Rightarrow> bool" where
  "fresh_engine key docs okt \<longleftrightarrow> ok_metadataLabels okt = [key] \<and> (\<exists>s. ok_metadatas okt = [(key, MSection s)])
    \<and> fm_ssize (ok_fmindex okt) = length (doc_text docs) + 1
    \<and> wm_bitsize (fm_sv (ok_fmindex okt)) = ceil_log2 (length (ok_compressCode2utf16 okt))
    \<and> length (fm_idic (ok_fmindex okt)) \<le> length (doc_text docs) + 2"

lemma ceil_div_le: "0 < d \<Longrightarrow> (n + d - 1) div d \<le> (n :: nat)"
proof -
  assume "0 < d"
  then have "n + d - 1 < (n + 1) * d" by (cases d) simp_all
  then have "(n + d - 1) div d < n + 1" by (rule less_mult_imp_div_less)
  then show ?thesis by simp
qed

lemma index_documents_engine:
  assumes "docs \<noteq> []" "docs_ok toLower stem docs"
  shows "\<exists>okt. index_documents toLower stem key docs density = Inr okt
    \<and> engine toLower stem key docs (length (ok_compressCode2utf16 okt)) (cache_range density) okt \<and> fresh_engine key docs okt"
proof -
  obtain okt0 where 0: "Oktavia_addSection (Oktavia_setStemmer Oktavia_new stem) key = Inr okt0" "filled toLower stem key [] okt0"
    using filled_new [of stem key toLower] by blast
  obtain okt1 where 1: "js_fold (add_document toLower key) okt0 docs = Inr okt1" "filled toLower stem key docs okt1"
    using add_documents_filled [OF 0(2) assms(2)] by blast
  then obtain s where okt: "holds_text okt1 (doc_text docs)" "stems_ok toLower stem okt1 (doc_words docs)" "ok_metadataLabels okt1 = [key]"
    "ok_fmindex okt1 = FMIndex_new\<lparr>fm_substr := fm_substr (ok_fmindex okt1)\<rparr>"
    "ok_metadatas okt1 = [(key, MSection s)]" "marked_at (md_bitVector s) (doc_tails docs)" "sec_names s = map fst docs"
    by (auto simp: filled_def)
  have fresh: "fm_sv (ok_fmindex okt1) = WaveletMatrix_new" "fm_posdic (ok_fmindex okt1) = []" "fm_idic (ok_fmindex okt1) = []"
    by (subst okt(4), simp add: FMIndex_new_def)+
  have ne: "doc_text docs \<noteq> []" using assms(1,2) by (cases docs) (auto simp: doc_text_def docs_ok_def)
  obtain fm where b: "Oktavia_buildWith okt1 density = Inr (okt1\<lparr>ok_metadatas := map (\<lambda>(k, m). (k, metadata_build m)) (ok_metadatas okt1), ok_fmindex := fm\<rparr>)"
    "searchable (okt1\<lparr>ok_metadatas := map (\<lambda>(k, m). (k, metadata_build m)) (ok_metadatas okt1), ok_fmindex := fm\<rparr>) (doc_text docs)
        (length (ok_compressCode2utf16 okt1)) (cache_range density)"
    "length (fm_idic fm) = (length (doc_text docs) + 1 + cache_range density - 1) div cache_range density + 1"
    "fm_ssize fm = length (doc_text docs) + 1" "wm_bitsize (fm_sv fm) = ceil_log2 (length (ok_compressCode2utf16 okt1))"
    using build_searchable [OF okt(1) ne fresh, of density] by auto
  let ?okt = "okt1\<lparr>ok_metadatas := map (\<lambda>(k, m). (k, metadata_build m)) (ok_metadatas okt1), ok_fmindex := fm\<rparr>"
  have "stems_ok toLower stem ?okt (doc_words docs)" using stems_okD [OF okt(2)] by (intro stems_okI) simp_all
  moreover have "Oktavia_getPrimaryMetadata ?okt = Some (MSection (Metadata_build s))" "cuts (md_bitVector (Metadata_build s)) (doc_tails docs)"
    "sec_names (Metadata_build s) = map fst docs"
    using okt(3,5,6,7) by (simp_all add: Oktavia_getPrimaryMetadata_def metadata_build_def Metadata_build_def marked_at_build)
  ultimately have "engine toLower stem key docs (length (ok_compressCode2utf16 ?okt)) (cache_range density) ?okt"
    using b(2) okt(1) by (auto simp: engine_def holds_text_def)
  moreover have "(length (doc_text docs) + 1 + cache_range density - 1) div cache_range density \<le> length (doc_text docs) + 1"
    using ceil_div_le [OF cache_range_pos [of density], of "length (doc_text docs) + 1"] by simp
  then have "fresh_engine key docs ?okt" using b(3-5) okt(3,5) by (simp add: fresh_engine_def metadata_build_def)
  ultimately show ?thesis using 0(1) 1(1) b(1) by (simp add: index_documents_def)
qed

section \<open>Answering queries\<close>

text \<open>
  The positions a query stands for: the occurrences of its word and, unless it is quoted, of the
  words registered under the same stem.
\<close>

definition hits :: "(jsstring \<Rightarrow> jsstring) \<Rightarrow> (jsstring \<Rightarrow> jsstring) \<Rightarrow> (jsstring \<times> jsstring) list \<Rightarrow> Query \<Rightarrow> nat set" where
  "hits toLower stem docs q = occurrences (q_word q) (doc_text docs) \<union>
    (if q_raw q then {}
     else \<Union>w \<in> stem_class toLower stem (doc_words docs) (stem (toLower (q_word q))). occurrences w (doc_text docs))"

text \<open>
  A word the index can look up: not empty, of characters of the text, not ending in the character that
  appears last in the text for the first time, which has the largest code.
\<close>

definition newest :: "jsstring \<Rightarrow> nat" where
  "newest t = last (foldl add_new initial_chars t)"

definition findable :: "jsstring \<Rightarrow> jsstring \<Rightarrow> bool" where
  "findable t w \<longleftrightarrow> w \<noteq> [] \<and> set w \<subseteq> set t \<and> last w \<noteq> newest t"

definition answerable :: "(jsstring \<Rightarrow> jsstring) \<Rightarrow> (jsstring \<Rightarrow> jsstring) \<Rightarrow> (jsstring \<times> jsstring) list \<Rightarrow> Query \<Rightarrow> bool" where
  "answerable toLower stem docs q \<longleftrightarrow> findable (doc_text docs) (q_word q) \<and>
    (\<not> q_raw q \<longrightarrow> stem (toLower (q_word q)) \<noteq> [] \<and> map_of inherited (stem (toLower (q_word q))) = None
      \<and> (\<forall>w \<in> stem_class toLower stem (doc_words docs) (stem (toLower (q_word q))). findable (doc_text docs) w))"

lemma findable_lookup:
  assumes e: "engine toLower stem key docs M d okt" and w: "findable (doc_text docs) w"
  shows "w \<noteq> []" "covers (ok_utf162compressCode okt) w" "the (obj_get (ok_utf162compressCode okt) (last w)) + 1 < M"
proof -
  let ?codes = "ok_utf162compressCode okt" and ?chars = "ok_compressCode2utf16 okt"
  have okt: "core_ok okt" "covers ?codes (doc_text docs)" "length ?chars \<le> M" "newest (doc_text docs) = last ?chars"
    using e by (auto simp: engine_def searchable_def newest_def)
  show ne: "w \<noteq> []" and cov: "covers ?codes w" using w okt(2) by (auto simp: findable_def covers_def)
  then have "last w \<in> set w" by simp
  then obtain k where k: "text_char (last w)" "obj_get ?codes (last w) = Some k" using cov by (auto simp: covers_def)
  note c = text_char_code [OF okt(1) k]
  have "?chars \<noteq> []" using c(1) by auto
  then have "k \<noteq> length ?chars - 1" using c(2) w okt(4) last_conv_nth [of ?chars] by (auto simp: findable_def)
  then show "the (obj_get ?codes (last w)) + 1 < M" using c(1) k(2) okt(3) by simp
qed

lemma occurrences_less: "w \<noteq> [] \<Longrightarrow> p \<in> occurrences w t \<Longrightarrow> p < length t"
  by (cases w) (auto simp: occurrences_def)

lemma list_preimage: "set l \<subseteq> f ` C \<Longrightarrow> \<exists>ws. set ws \<subseteq> C \<and> map f ws = l"
proof (induction l)
  case (Cons y l)
  then obtain ws w where "set ws \<subseteq> C" "map f ws = l" "w \<in> C" "f w = y" by auto
  then show ?case by (intro exI [of _ "w # ws"]) simp
qed simp

lemma rawSearch_stems:
  assumes e: "engine toLower stem key docs M d okt" and q: "answerable toLower stem docs q" "\<not> q_raw q"
  shows "\<exists>ps. Oktavia_rawSearch toLower okt (q_word q) True = Inr ps
    \<and> set ps = (\<Union>w \<in> stem_class toLower stem (doc_words docs) (stem (toLower (q_word q))). occurrences w (doc_text docs))"
proof -
  let ?b = "stem (toLower (q_word q))" and ?codes = "ok_utf162compressCode okt"
  let ?C = "stem_class toLower stem (doc_words docs) ?b"
  have okt: "searchable okt (doc_text docs) M d" and st: "stems_ok toLower stem okt (doc_words docs)" using e by (auto simp: engine_def)
  have b: "?b \<noteq> []" "map_of inherited ?b = None" and C: "\<forall>w \<in> ?C. findable (doc_text docs) w" using q by (simp_all add: answerable_def)
  have words: "set (words_for (ok_stemmingResult okt) ?b) = encode ?codes ` ?C" by (rule stems_okD(3) [OF st b(1)])
  have "\<exists>ws. set ws \<subseteq> ?C \<and> map (encode ?codes) ws = words_for (ok_stemmingResult okt) ?b"
    using words by (intro list_preimage) simp
  then obtain ws where ws: "set ws \<subseteq> ?C" "map (encode ?codes) ws = words_for (ok_stemmingResult okt) ?b" by blast
  have "set ws = ?C"
  proof
    show "?C \<subseteq> set ws"
    proof
      fix w assume w: "w \<in> ?C"
      then have "encode ?codes w \<in> encode ?codes ` set ws" using words ws(2) by (metis image_eqI list.set_map)
      then obtain v where v: "v \<in> set ws" "encode ?codes w = encode ?codes v" by blast
      have "core_ok okt" using okt by (simp add: searchable_def)
      moreover have "covers ?codes w" "covers ?codes v" using w v(1) ws(1) stems_okD(2) [OF st] by (auto simp: stem_class_def)
      ultimately show "w \<in> set ws" using encode_inj v by metis
    qed
  qed (rule ws(1))
  moreover have find: "w \<noteq> [] \<and> covers ?codes w \<and> the (obj_get ?codes (last w)) + 1 < M" if "w \<in> set ws" for w
    using findable_lookup [OF e, of w] that ws(1) C by blast
  moreover obtain ps where "search_all okt (map (encode ?codes) ws) = Inr ps" "set ps = (\<Union>w \<in> set ws. occurrences w (doc_text docs))"
    using search_all_encoded [OF okt, of ws] find by blast
  moreover have "Oktavia_rawSearch toLower okt (q_word q) True = search_all okt (words_for (ok_stemmingResult okt) ?b)"
    using stems_okD(1) [OF st] b(2)
    by (simp add: Oktavia_rawSearch_def words_for_def search_all_def split: option.split)
  ultimately show ?thesis using ws(2) by auto
qed

text \<open>The outcome of one query: a new result for the documents with a hit.\<close>

definition query_post :: "nat set \<Rightarrow> nat list \<Rightarrow> Query \<Rightarrow> unit_store \<Rightarrow> unit_store \<Rightarrow> SingleResult \<Rightarrow> bool" where
  "query_post ps ts q h h' r \<longleftrightarrow> result_ok h' r \<and> store_ok h' \<and> set (r_unitIds r) = stretch ts ` ps \<and> length h \<le> length h'
    \<and> set (r_units r) \<subseteq> {length h..<length h'} \<and> take (length h) h' = h \<and> r_or r = q_or q \<and> r_not r = q_not q"

lemma searchQuery_engine:
  assumes e: "engine toLower stem key docs M d okt" and q: "answerable toLower stem docs q" and h: "store_ok h"
  shows "\<exists>h' r. Oktavia_searchQuery toLower okt h q = Inr (h', r) \<and> query_post (hits toLower stem docs q) (doc_tails docs) q h h' r"
proof -
  let ?t = "doc_text docs" and ?ts = "doc_tails docs"
  obtain s where okt: "searchable okt ?t M d" and md: "Oktavia_getPrimaryMetadata okt = Some (MSection s)" "cuts (md_bitVector s) ?ts"
    using e by (auto simp: engine_def)
  have w: "findable (doc_text docs) (q_word q)" using q by (simp add: answerable_def)
  obtain ps where ps: "Oktavia_rawSearch toLower okt (q_word q) False = Inr ps" "set ps = occurrences (q_word q) ?t"
    using rawSearch_exact [OF okt findable_lookup [OF e w], of toLower] by blast
  have "\<exists>qs. (if q_raw q then Inr ps
              else js_bind (Oktavia_rawSearch toLower okt (q_word q) True) (\<lambda>stems. Inr (ps @ stems))) = Inr qs
      \<and> set qs = hits toLower stem docs q"
    using rawSearch_stems [OF e q] ps(2) by (auto simp: hits_def)
  then obtain qs where qs: "(if q_raw q then Inr ps
              else js_bind (Oktavia_rawSearch toLower okt (q_word q) True) (\<lambda>stems. Inr (ps @ stems))) = Inr qs" "set qs = hits toLower stem docs q" by blast
  have "p < length ?t" if "p \<in> hits toLower stem docs q" for p
    using that q w occurrences_less by (auto simp: hits_def answerable_def findable_def split: if_splits)
  then have less: "\<forall>p \<in> set qs. p < end_of ?ts" using qs(2) by (simp add: end_doc_tails)
  let ?r0 = "SingleResult_query (q_word q) (q_or q) (q_not q)"
  obtain h' r where g: "Section_grouping s h ?r0 qs (q_word q) (\<not> q_raw q) = Inr (h', r)" "result_ok h' r" "store_ok h'"
    "found h' r = group_unit (stretch ?ts) (start ?ts) (q_word q) (\<not> q_raw q) qs"
    "length h \<le> length h'" "set (r_units r) \<subseteq> {length h..<length h'}" "take (length h) h' = h" "r_or r = r_or ?r0" "r_not r = r_not ?r0"
    using Section_grouping_cuts [OF md(2) h _ _ less, of ?r0 "q_word q" "\<not> q_raw q"] unfolding SingleResult_query_def by auto
  have "k \<in> set (r_unitIds r) \<longleftrightarrow> k \<in> stretch ?ts ` set qs" for k
    using found_None [OF g(2), of k] by (auto simp: g(4) group_unit_def split: if_splits)
  then have "query_post (hits toLower stem docs q) ?ts q h h' r"
    using g qs(2) by (auto simp: query_post_def SingleResult_query_def)
  moreover have "Oktavia_searchQuery toLower okt h q = Inr (h', r)"
    using g(1) ps(1) qs(1) md(1) by (simp add: Oktavia_searchQuery_def metadata_grouping_def)
  ultimately show ?thesis by blast
qed

lemma result_ok_extend:
  assumes "result_ok h r" "take (length h) h' = h" "length h \<le> length h'"
  shows "result_ok h' r"
proof -
  have "h' ! a = h ! a" if "a < length h" for a using assms(2) that by (metis nth_take)
  then show ?thesis using assms(1,3) unfolding result_ok_def by fastforce
qed

text \<open>The documents of a sequence of queries, combined from left to right.\<close>

definition eval_queries :: "(Query \<Rightarrow> nat set) \<Rightarrow> Query list \<Rightarrow> nat set" where
  "eval_queries D qs = foldl (\<lambda>A q. if q_or q then A \<union> D q else if q_not q then A - D q else A \<inter> D q) (D (hd qs)) (tl qs)"

lemma search_fold:
  assumes e: "engine toLower stem key docs M d okt" and qs: "\<forall>q \<in> set qs. answerable toLower stem docs q"
  shows "\<exists>h rs. js_fold (\<lambda>(h, summary) query.
        js_bind (Oktavia_searchQuery toLower okt h query) (\<lambda>(h, result). Inr (h, SearchSummary_addQuery summary result)))
      ([], SearchSummary_new) qs = Inr (h, \<lparr>s_sourceResults = rs, s_result = None\<rparr>)
    \<and> store_ok h \<and> list_all2 (\<lambda>q r. set (r_unitIds r) = stretch (doc_tails docs) ` hits toLower stem docs q \<and> r_or r = q_or q \<and> r_not r = q_not q) qs rs
    \<and> (\<forall>r \<in> set rs. result_ok h r \<and> set (r_units r) \<subseteq> {..<length h}) \<and> apart rs"
  using qs
proof (induction qs rule: rev_induct)
  case Nil
  then show ?case by (simp add: SearchSummary_new_def store_ok_def apart_def)
next
  case (snoc q qs)
  let ?D = "\<lambda>q r. set (r_unitIds r) = stretch (doc_tails docs) ` hits toLower stem docs q \<and> r_or r = q_or q \<and> r_not r = q_not q"
  let ?f = "\<lambda>(h, summary) query.
        js_bind (Oktavia_searchQuery toLower okt h query) (\<lambda>(h, result). Inr (h, SearchSummary_addQuery summary result))"
  obtain h rs where IH: "js_fold ?f ([], SearchSummary_new) qs = Inr (h, \<lparr>s_sourceResults = rs, s_result = None\<rparr>)"
      "store_ok h" "list_all2 ?D qs rs" "\<forall>r \<in> set rs. result_ok h r \<and> set (r_units r) \<subseteq> {..<length h}" "apart rs"
    using snoc by auto
  obtain h' r where q: "Oktavia_searchQuery toLower okt h q = Inr (h', r)" and post: "query_post (hits toLower stem docs q) (doc_tails docs) q h h' r"
    using searchQuery_engine [OF e, of q h] snoc.prems IH(2) by auto
  have "js_fold ?f ([], SearchSummary_new) (qs @ [q]) = Inr (h', \<lparr>s_sourceResults = rs @ [r], s_result = None\<rparr>)"
    using IH(1) q by (simp add: js_fold_snoc SearchSummary_addQuery_def)
  moreover have "list_all2 ?D (qs @ [q]) (rs @ [r])"
    using IH(3) post by (intro list_all2_appendI) (simp_all add: query_post_def)
  moreover have "\<forall>s \<in> set (rs @ [r]). result_ok h' s \<and> set (r_units s) \<subseteq> {..<length h'}"
    using IH(4) post result_ok_extend [of h _ h'] by (fastforce simp: query_post_def)
  moreover have "apart (rs @ [r])"
    using IH(4,5) post by (fastforce simp: apart_def query_post_def sorted_wrt_append)
  ultimately show ?case using post by (intro exI [of _ h'] exI [of _ "rs @ [r]"]) (simp add: query_post_def)
qed

lemma eval_queries_ids:
  assumes "list_all2 (\<lambda>q r. set (r_unitIds r) = D q \<and> r_or r = q_or q \<and> r_not r = q_not q) qs rs" "qs \<noteq> []"
  shows "set (eval_ids rs) = eval_queries D qs"
proof -
  obtain q qs' r rs' where qr: "qs = q # qs'" "rs = r # rs'" using assms by (cases qs; cases rs) auto
  have "set (foldl (\<lambda>ks r. merge_ids (r_or r) (r_not r) ks (r_unitIds r)) ks rs') =
      foldl (\<lambda>A q. if q_or q then A \<union> D q else if q_not q then A - D q else A \<inter> D q) (set ks) qs'" for ks
    using assms(1) unfolding qr
  proof (induction qs' arbitrary: rs' ks)
    case (Cons q1 qs1)
    then obtain r1 rs1 where r1: "rs' = r1 # rs1" by (cases rs') auto
    have "set (merge_ids (r_or r1) (r_not r1) ks (r_unitIds r1)) = (if q_or q1 then set ks \<union> D q1 else if q_not q1 then set ks - D q1 else set ks \<inter> D q1)"
      using Cons.prems by (auto simp: r1 merge_ids_def)
    then show ?case using Cons.IH [of rs1 "merge_ids (r_or r1) (r_not r1) ks (r_unitIds r1)"] Cons.prems by (simp add: r1)
  qed simp
  then show ?thesis using assms(1) by (simp add: qr eval_ids_def eval_queries_def)
qed

lemma engine_search:
  assumes e: "engine toLower stem key docs M d okt" and qs: "qs \<noteq> []" "\<forall>q \<in> set qs. answerable toLower stem docs q"
  shows "\<exists>h s r. Oktavia_search toLower okt [] qs = Inr (h, s) \<and> s_result s = Some r \<and> distinct (r_unitIds r)
    \<and> set (r_unitIds r) = eval_queries (\<lambda>q. stretch (doc_tails docs) ` hits toLower stem docs q) qs"
proof -
  let ?D = "\<lambda>q r. set (r_unitIds r) = stretch (doc_tails docs) ` hits toLower stem docs q \<and> r_or r = q_or q \<and> r_not r = q_not q"
  obtain h rs where rs: "js_fold (\<lambda>(h, summary) query.
        js_bind (Oktavia_searchQuery toLower okt h query) (\<lambda>(h, result). Inr (h, SearchSummary_addQuery summary result)))
      ([], SearchSummary_new) qs = Inr (h, \<lparr>s_sourceResults = rs, s_result = None\<rparr>)"
    "store_ok h" "list_all2 ?D qs rs" "\<forall>r \<in> set rs. result_ok h r" "apart rs"
    using search_fold [OF e qs(2)] by blast
  have "rs \<noteq> []" using rs(3) qs(1) by auto
  from mergeResults_correct [OF this rs(4,2)] obtain h' r where
    r: "mergeResults h rs = Inr (h', Some r)" "result_ok h' r" "r_unitIds r = eval_ids rs" by blast
  then show ?thesis
    using rs(1) eval_queries_ids [OF rs(3) qs(1)]
    by (intro exI [of _ h'] exI [of _ "\<lparr>s_sourceResults = rs, s_result = Some r\<rparr>"] exI [of _ r])
      (auto simp: Oktavia_search_def SearchSummary_mergeResult_def result_ok_def)
qed

section \<open>The contents of documents\<close>

lemma doc_slice:
  assumes "i < length docs"
  shows "doc_tails docs ! i = start (doc_tails docs) i + length (snd (docs ! i))"
    "take (length (snd (docs ! i))) (drop (start (doc_tails docs) i) (doc_text docs)) = snd (docs ! i)"
proof -
  let ?a = "doc_text (take i docs)"
  have st: "start (doc_tails docs) i = length ?a"
    using assms by (cases i) (auto simp: start_def doc_tails_def doc_text_def)
  have tail: "doc_tails docs ! i = length ?a + length (snd (docs ! i))"
    using assms by (simp add: doc_tails_def doc_text_def take_Suc_conv_app_nth)
  then show "doc_tails docs ! i = start (doc_tails docs) i + length (snd (docs ! i))" by (simp add: st)
  have "doc_text docs = ?a @ snd (docs ! i) @ doc_text (drop (Suc i) docs)"
    unfolding doc_text_def by (subst id_take_nth_drop [OF assms]) simp
  then show "take (length (snd (docs ! i))) (drop (start (doc_tails docs) i) (doc_text docs)) = snd (docs ! i)"
    by (simp add: st)
qed

lemma engine_content:
  assumes e: "engine toLower stem key docs M d okt" "Oktavia_getPrimaryMetadata okt = Some (MSection s)"
    and i: "i < length docs" "snd (docs ! i) \<noteq> []" "(doc_tails docs ! i + d - 2) div d * d \<le> length (doc_text docs)"
  shows "Metadata_getContent okt s (int i) = Inr (snd (docs ! i))"
proof -
  have okt: "searchable okt (doc_text docs) M d" and s: "cuts (md_bitVector s) (doc_tails docs)" using e by (auto simp: engine_def)
  have len: "length (doc_tails docs) = length docs" by (simp add: doc_tails_def)
  have ok: "tails_ok (doc_tails docs)" using s by (simp add: cuts_def)
  have "doc_tails docs ! i \<in> set (doc_tails docs)" using i(1) len by simp
  then have "start (doc_tails docs) i + length (snd (docs ! i)) \<le> length (doc_text docs)"
    using tails_le_end [OF ok] doc_slice(1) [OF i(1)] by (simp add: end_doc_tails)
  then show ?thesis
    using getContent_cuts [OF s, of i okt] getSubstring_text [OF okt, of "length (snd (docs ! i))" "start (doc_tails docs) i"]
      doc_slice [OF i(1)] i len by simp
qed

section \<open>Storing the engine\<close>

lemma tables_unique:
  assumes "tables_ok a chars" "tables_ok b chars"
  shows "a = b"
proof (rule obj_ok_eqI)
  show "obj_ok a" "obj_ok b" using assms by (simp_all add: tables_ok_def)
  fix c
  show "obj_get a c = obj_get b c"
  proof (cases "3 \<le> c")
    case True
    then have "obj_get a c = Some k \<longleftrightarrow> obj_get b c = Some k" for k using assms by (auto simp: tables_ok_def)
    then show ?thesis by (metis not_Some_eq)
  qed (use assms in \<open>auto simp: tables_ok_def\<close>)
qed

lemma load_chars:
  assumes ok: "tables_ok codes chars" and len: "length chars < 65536"
    and data: "data = before @ drop 3 chars @ after" and n: "3 \<le> n" "n \<le> length chars"
  shows "\<exists>codes'. js_fold (load_char data) (initial_codes, initial_chars, length before) [3..<n]
      = Inr (codes', take n chars, length before + (n - 3)) \<and> tables_ok codes' (take n chars)"
  using n
proof (induction n rule: nat_induct_at_least [of 3, case_names base step])
  case base
  have "take 3 chars = initial_chars" using ok by (auto simp: tables_ok_def initial_chars_def)
  then show ?case using tables_ok_initial by simp
next
  case (step n)
  obtain codes' where IH: "js_fold (load_char data) (initial_codes, initial_chars, length before) [3..<n]
      = Inr (codes', take n chars, length before + (n - 3))" "tables_ok codes' (take n chars)"
    using step by auto
  let ?c = "chars ! n"
  obtain rest where rest: "chars = initial_chars @ rest" "distinct rest" "\<forall>c \<in> set rest. 3 \<le> c \<and> c < 65536"
    using ok by (auto simp: tables_ok_def)
  have nr: "n - 3 < length rest" "?c = rest ! (n - 3)" using step rest(1) by (auto simp: initial_chars_def nth_append numeral_3_eq_3)
  have c: "3 \<le> ?c" "?c < 65536" using rest(3) nr by auto
  have "n - 3 < length (drop 3 chars)" using step by simp
  then have "data ! (length before + (n - 3)) = drop 3 chars ! (n - 3)"
    unfolding data by (simp only: nth_append not_add_less1 add_diff_cancel_left' if_False if_True)
  then have "data ! (length before + (n - 3)) = ?c" using step by simp
  moreover have "length before + (n - 3) < length data" using step by (simp add: data)
  ultimately have get: "Binary_load16bitNumber data (length before + (n - 3)) = ?c" by (simp add: Binary_load16bitNumber_def)
  have "obj_get codes' ?c = None"
  proof (rule ccontr)
    assume "obj_get codes' ?c \<noteq> None"
    then obtain k where "obj_get codes' ?c = Some k" by blast
    then have "3 \<le> k \<and> k < length (take n chars) \<and> take n chars ! k = ?c"
      using IH(2) c(1) unfolding tables_ok_def by blast
    then have "3 \<le> k" "k < n" "chars ! k = ?c" by auto
    then have "k - 3 < length rest" "rest ! (k - 3) = rest ! (n - 3)" "k - 3 \<noteq> n - 3"
      using nr rest(1) step by (auto simp: initial_chars_def nth_append numeral_3_eq_3)
    then show False using rest(2) nr(1) by (simp add: nth_eq_iff_index_eq)
  qed
  note ext = tables_extend(1) [OF IH(2) this c(2)]
  have "take (Suc n) chars = take n chars @ [?c]" using step by (simp add: take_Suc_conv_app_nth)
  then show ?case
    using IH(1) ext get step len by (simp add: js_fold_snoc load_char_def Let_def)
qed

text \<open>What the formats can hold.\<close>

definition storable :: "jsstring \<Rightarrow> (jsstring \<times> jsstring) list \<Rightarrow> Oktavia \<Rightarrow> bool" where
  "storable key docs okt \<longleftrightarrow> length (ok_compressCode2utf16 okt) < 65536 \<and> length (doc_text docs) < 4294967263
    \<and> map_ok (ok_stemmingResult okt) \<and> string_ok key \<and> list_ok (map fst docs)"

lemma cache_range_bound: "cache_range density \<le> 10000"
proof -
  let ?x = "min 100 (max (1 / 100) density)"
  have "1 / 100 \<le> ?x" "0 < ?x" by (simp_all add: min_def max_def)
  then have "100 / ?x \<le> 100 / (1 / 100)" by (intro divide_left_mono) simp_all
  then have "max 1 (100 / ?x) \<le> 10000" by simp
  then have "round (max 1 (100 / ?x)) \<le> round (10000 :: rat)" by (rule round_mono)
  then show ?thesis by (simp add: cache_range_def)
qed

lemma file_header_length: "length file_header = 5"
  by (simp add: file_header_def format_name_def Binary_dumpString_def Let_def Binary_dump16bitNumber_def)

lemma load_section:
  assumes ok: "string_ok key" "stored_base (sec_names s) (md_bitVector s)" and data: "data = before @ string_dump key @ 0 # section_dump s"
  shows "load_metadata data (okt, length before) i =
    Inr (okt\<lparr>ok_metadataLabels := ok_metadataLabels okt @ [key], ok_metadatas := str_set key (MSection s) (ok_metadatas okt)\<rparr>, length data)"
proof -
  let ?p = "before @ string_dump key"
  have "Binary_loadString data (length before) = Inr (key, length ?p)"
    using str.load_dump [OF ok(1), of before "0 # section_dump s"] by (simp add: data)
  moreover have "Binary_load16bitNumber data (length ?p) = 0" by (simp add: data Binary_load16bitNumber_def js_at0_def nth_append)
  moreover have "Section_load data (length ?p + 1) = Inr (s, length data)"
    using sections.load_dump [OF ok(2), of "?p @ [0]" "[]"] by (simp add: data)
  ultimately show ?thesis by (simp add: load_metadata_def Let_def)
qed

lemma engine_dump_load:
  assumes e: "engine toLower stem key docs (length (ok_compressCode2utf16 okt)) d okt" "fresh_engine key docs okt" "d \<le> 10000"
    and st: "storable key docs okt"
  shows "\<exists>data okt'. Oktavia_dump okt = Inr data \<and> Oktavia_load (Oktavia_setStemmer Oktavia_new stem) data = Inr okt'
    \<and> engine toLower stem key docs (2 ^ ceil_log2 (length (ok_compressCode2utf16 okt))) d okt'
    \<and> ok_compressCode2utf16 okt' = ok_compressCode2utf16 okt \<and> ok_utf162compressCode okt' = ok_utf162compressCode okt
    \<and> ok_metadatas okt' = ok_metadatas okt \<and> ok_stemmingResult okt' = ok_stemmingResult okt"
proof -
  let ?t = "doc_text docs" and ?codes = "ok_utf162compressCode okt" and ?chars = "ok_compressCode2utf16 okt" and ?m = "ok_stemmingResult okt"
  let ?fm = "ok_fmindex okt" and ?s = "encode (ok_utf162compressCode okt) (doc_text docs) @ [Oktavia_eof]"
  obtain s where md: "Oktavia_getPrimaryMetadata okt = Some (MSection s)" "cuts (md_bitVector s) (doc_tails docs)" "sec_names s = map fst docs"
    and okt: "core_ok okt" "covers ?codes ?t" "0 < d" "fm_ddic ?fm = d" and stems: "stems_ok toLower stem okt (doc_words docs)"
    using e(1) by (auto simp: engine_def searchable_def)
  obtain sa where fm: "fm_core ?fm ?s sa (length ?chars)" "dict_from ?fm ?s sa 0" using e(1) by (auto simp: engine_def searchable_def)
  have mds: "ok_metadataLabels okt = [key]" "ok_metadatas okt = [(key, MSection s)]"
    using e(2) md(1) by (auto simp: fresh_engine_def Oktavia_getPrimaryMetadata_def)
  have order: "foldl add_new initial_chars ?t = ?chars" using e(1) by (simp add: engine_def)
  have bits: "wm_bitsize (fm_sv ?fm) = ceil_log2 (length ?chars)" using e(2) by (simp add: fresh_engine_def)
  have small: "length ?chars < 65536" "length ?t < 4294967263" "map_ok ?m" "string_ok key" "list_ok (map fst docs)"
    using st by (simp_all add: storable_def)
  have three: "3 \<le> length ?chars" using okt(1) by (auto simp: tables_ok_def initial_chars_def)
  have "ceil_log2 (length ?chars) \<le> 16" using ceil_log2_16 three small(1) by simp
  define post where "post = [length ?chars] @ drop 3 ?chars @ map_dump ?m @ [1] @ string_dump key @ 0 # section_dump s"
  have len: "length ?s < 4294967264" "fm_ssize ?fm = length ?s" "fm_ddic ?fm < 4294967296" "length (fm_idic ?fm) < 4294967296"
    "wm_bitsize (fm_sv ?fm) < 32"
    using small(2) e(2,3) okt(4) bits \<open>ceil_log2 (length ?chars) \<le> 16\<close> by (simp_all add: fresh_engine_def)
  obtain fd fm' where load: "FMIndex_dump ?fm = Inr fd"
      "FMIndex_load FMIndex_new (file_header @ fd @ post) (length file_header) = Inr (fm', length file_header + length fd)"
      "fm_core fm' ?s sa (2 ^ ceil_log2 (length ?chars))" "dict_from fm' ?s sa 0" "fm_ddic fm' = d"
    using FMIndex_load_spec [OF fm len(5) len(1-4), of file_header post] okt(4) bits by auto
  define data where "data = file_header @ fd @ post"
  obtain r' where "Section_dump s (Some CompressionReport_new) = Inr ([0] @ section_dump s, r')" using dump_returns(1) by blast
  then have "dump_metadatas okt = Inr (string_dump key @ 0 # section_dump s)"
    by (simp add: dump_metadatas_def mds metadata_dump_def fst_dumpString)
  then have dump: "Oktavia_dump okt = Inr data"
    using load(1) small(1) mds(1)
    by (simp add: Oktavia_dump_def data_def post_def fst_dumpStringListMap Binary_dump16bitNumber_def)
  let ?p1 = "file_header @ fd" let ?p2 = "?p1 @ [length ?chars]" let ?p3 = "?p2 @ drop 3 ?chars" let ?p4 = "?p3 @ map_dump ?m"
  have d1: "data = ?p1 @ [length ?chars] @ drop 3 ?chars @ map_dump ?m @ [1] @ string_dump key @ 0 # section_dump s"
    and d2: "data = ?p2 @ drop 3 ?chars @ map_dump ?m @ [1] @ string_dump key @ 0 # section_dump s"
    and d3: "data = ?p3 @ map_dump ?m @ [1] @ string_dump key @ 0 # section_dump s"
    and d4: "data = ?p4 @ [1] @ string_dump key @ 0 # section_dump s"
    and d5: "data = (?p4 @ [1]) @ string_dump key @ 0 # section_dump s"
    by (simp_all add: data_def post_def)
  have 1: "Binary_load16bitNumber data (length ?p1) = length ?chars"
    unfolding d1 Binary_load16bitNumber_def js_at0_def by (simp add: nth_append)
  obtain codes' where "js_fold (load_char data) (initial_codes, initial_chars, length ?p2) [3..<length ?chars]
      = Inr (codes', ?chars, length ?p2 + (length ?chars - 3))" "tables_ok codes' ?chars"
    using load_chars [OF okt(1) small(1) d2 three order_refl] by auto
  then have 2: "js_fold (load_char data) (initial_codes, initial_chars, length ?p1 + 1) [3..<length ?chars] = Inr (?codes, ?chars, length ?p3)"
    using tables_unique [OF okt(1)] by simp
  have 3: "Binary_loadStringListMap data (length ?p3) = Inr (?m, length ?p4)"
    using strmap.load_dump [OF small(3), of ?p3] unfolding d3 by simp
  have 4: "Binary_load16bitNumber data (length ?p4) = 1"
    unfolding d4 Binary_load16bitNumber_def js_at0_def by (simp add: nth_append)
  have "built (md_bitVector s)" "bv_size (md_bitVector s) = length ?t" using md(2) cuts_size [OF md(2)] by (simp_all add: cuts_def end_doc_tails)
  then have sb: "stored_base (sec_names s) (md_bitVector s)"
    using small(2,5) md(3) by (simp add: stored_base_def stored_vector_def built_def bv_inv_def)
  define okt1 where "okt1 = (Oktavia_setStemmer Oktavia_new stem)\<lparr>ok_metadatas := [], ok_metadataLabels := [], ok_fmindex := fm',
      ok_utf162compressCode := ?codes, ok_compressCode2utf16 := ?chars, ok_stemmingResult := ?m\<rparr>"
  define okt' where "okt' = okt1\<lparr>ok_metadataLabels := [key], ok_metadatas := [(key, MSection s)]\<rparr>"
  have 5: "js_fold (load_metadata data) (okt1, length ?p4 + 1) [0..<1] = Inr (okt', length data)"
    using load_section [OF small(4) sb d5, of okt1 0] by (simp add: okt'_def okt1_def)
  have "take 5 data = file_header" using file_header_length by (simp add: data_def)
  then have "Oktavia_load (Oktavia_setStemmer Oktavia_new stem) data = Inr okt'"
    using load(2) file_header_length 1 2 3 4 5
    by (simp add: Oktavia_load_def data_def [symmetric] okt1_def Oktavia_setStemmer_def Oktavia_new_def)
  moreover have "stems_ok toLower stem okt' (doc_words docs)"
    using stems_okD [OF stems] by (intro stems_okI) (simp_all add: okt'_def okt1_def Oktavia_setStemmer_def)
  then have "engine toLower stem key docs (2 ^ ceil_log2 (length ?chars)) d okt'"
    using okt(1-3) load(3-5) ceil_log2_upper [of "length ?chars"] md(2,3) three order
    by (auto simp: engine_def searchable_def okt'_def okt1_def Oktavia_getPrimaryMetadata_def)
  ultimately show ?thesis using dump mds(2) by (intro exI [of _ data] exI [of _ okt']) (simp add: okt'_def okt1_def)
qed

text \<open>The documents whose engine the formats can hold, in terms of the documents.\<close>

definition docs_small :: "(jsstring \<Rightarrow> jsstring) \<Rightarrow> (jsstring \<Rightarrow> jsstring) \<Rightarrow> jsstring \<Rightarrow> (jsstring \<times> jsstring) list \<Rightarrow> bool" where
  "docs_small toLower stem key docs \<longleftrightarrow> string_ok key \<and> list_ok (map fst docs) \<and> length (doc_text docs) < 4294967263
    \<and> length (foldl add_new initial_chars (doc_text docs)) < 65536 \<and> length (doc_words docs) < 4294967296
    \<and> (\<forall>w \<in> set (doc_words docs). length w \<le> 32767 \<and> string_ok (stem (toLower w)))"

lemma stems_entry:
  assumes "stems_ok toLower stem okt ws" "(k, l) \<in> set (ok_stemmingResult okt)"
  shows "k \<in> (stem \<circ> toLower) ` set ws" "length l \<le> length ws" "set l \<subseteq> encode (ok_utf162compressCode okt) ` set ws"
proof -
  have pm: "proper_map (ok_stemmingResult okt)" by (rule stems_okD(5) [OF assms(1)])
  then have "words_for (ok_stemmingResult okt) k = l" "k \<noteq> []" "l \<noteq> []"
    using assms(2) by (auto simp: proper_map_def words_for_def)
  then have l: "set l = encode (ok_utf162compressCode okt) ` stem_class toLower stem ws k" "distinct l" "l \<noteq> []"
    using stems_okD(3,4) [OF assms(1), of k] by auto
  then obtain w where "w \<in> stem_class toLower stem ws k" by fastforce
  then show "k \<in> (stem \<circ> toLower) ` set ws" by (auto simp: stem_class_def)
  show sub: "set l \<subseteq> encode (ok_utf162compressCode okt) ` set ws" using l(1) by (auto simp: stem_class_def)
  have "card (set l) \<le> card (set (map (encode (ok_utf162compressCode okt)) ws))" using sub by (intro card_mono) auto
  also have "\<dots> \<le> length ws" by (rule order_trans [OF card_length]) simp
  finally show "length l \<le> length ws" using l(2) by (simp add: distinct_card)
qed

lemma stems_map_ok:
  assumes st: "stems_ok toLower stem okt ws" and okt: "core_ok okt" "length (ok_compressCode2utf16 okt) < 65536"
    and ws: "length ws < 4294967296" "\<forall>w \<in> set ws. length w \<le> 32767 \<and> string_ok (stem (toLower w))"
  shows "map_ok (ok_stemmingResult okt)"
proof -
  let ?m = "ok_stemmingResult okt" and ?codes = "ok_utf162compressCode okt"
  have dist: "distinct (map fst ?m)" using stems_okD(5) [OF st] by (simp add: proper_map_def)
  have "set (map fst ?m) \<subseteq> set (map (stem \<circ> toLower) ws)" using stems_entry(1) [OF st] by fastforce
  then have "card (set (map fst ?m)) \<le> card (set (map (stem \<circ> toLower) ws))" by (intro card_mono) auto
  also have "\<dots> \<le> length ws" by (rule order_trans [OF card_length]) simp
  finally have "length ?m \<le> length ws" using dist by (simp add: distinct_card del: set_map)
  moreover have "string_ok (encode ?codes w)" if "w \<in> set ws" for w
    using encode_bounds [OF okt(1) stems_okD(2) [OF st that]] okt(2) ws(2) that by (fastforce simp: string_ok_def encode_def)
  then have "string_ok k \<and> list_ok l" if "(k, l) \<in> set ?m" for k l
    using stems_entry [OF st that] ws by (fastforce simp: list_ok_def)
  ultimately show ?thesis using dist ws(1) by (auto simp: map_ok_def)
qed

lemma docs_storable:
  assumes e: "engine toLower stem key docs M d okt" and s: "docs_small toLower stem key docs"
  shows "storable key docs okt"
proof -
  have "stems_ok toLower stem okt (doc_words docs)" "core_ok okt" "length (ok_compressCode2utf16 okt) < 65536"
    using e s by (auto simp: engine_def searchable_def docs_small_def)
  then show ?thesis using stems_map_ok [of toLower stem okt "doc_words docs"] s by (simp add: storable_def docs_small_def)
qed

section \<open>Properties\<close>

text \<open>
  C2.  The engine finds the documents it was given: after indexing documents, a sequence of queries
  with answerable words returns, each once, the numbers of exactly the documents that the queries
  describe, where a query stands for the documents in which an occurrence of its word or, unless it
  is quoted, of a registered word with the same stem begins, and queries combine from left to right.
\<close>

theorem Oktavia_search_correct:
  assumes "docs \<noteq> []" and "docs_ok toLower stem docs"
    and "qs \<noteq> []" and "\<forall>q \<in> set qs. answerable toLower stem docs q"
  shows "\<exists>h s r. js_bind (index_documents toLower stem key docs density) (\<lambda>okt. Oktavia_search toLower okt [] qs) = Inr (h, s)
    \<and> s_result s = Some r \<and> distinct (r_unitIds r)
    \<and> set (r_unitIds r) = eval_queries (\<lambda>q. stretch (doc_tails docs) ` hits toLower stem docs q) qs"
proof -
  obtain okt where "index_documents toLower stem key docs density = Inr okt"
    "engine toLower stem key docs (length (ok_compressCode2utf16 okt)) (cache_range density) okt"
    using index_documents_engine [OF assms(1,2)] by blast
  then show ?thesis using engine_search [OF _ assms(3,4)] by simp
qed

text \<open>Two documents and a stemmer with one irregular word, for the concrete instances below.\<close>

definition example_docs :: "(jsstring \<times> jsstring) list" where
  "example_docs = [([65], [97, 98, 32, 97, 99]), ([66], [98, 97, 100])]"

definition example_stem :: "jsstring \<Rightarrow> jsstring" where
  "example_stem w = (if w = [97, 99] then [98, 97] else w)"

lemma example_split:
  "split_space [97, 98, 32, 97, 99] = [[97, 98], [97, 99]]" "split_space [98, 97, 100] = [[98, 97, 100]]"
  by (simp_all add: split_space.simps [of "[97, 98, 32, 97, 99]"] split_space.simps [of "[97, 99]"]
      split_space.simps [of "[98, 97, 100]"] white_space_def)

lemma example_words: "doc_words example_docs = [[97, 98], [97, 99], [98, 97, 100]]"
  by (simp add: doc_words_def example_docs_def example_split)

lemma example_text: "doc_text example_docs = [97, 98, 32, 97, 99, 98, 97, 100]" "doc_tails example_docs = [5, 8]"
  by (simp_all add: doc_text_def doc_tails_def example_docs_def)

lemma example_chars: "foldl add_new initial_chars (doc_text example_docs) = [0, 1, 3, 97, 98, 32, 99, 100]"
  by (simp add: example_text initial_chars_def add_new_def Oktavia_eof_def Oktavia_eob_def Oktavia_unknown_def)

lemma example_docs_ok: "example_docs \<noteq> []" "docs_ok (\<lambda>s. s) example_stem example_docs"
  by (simp_all add: docs_ok_def example_docs_def example_stem_def example_split inherited_def)

lemma example_docs_small: "docs_small (\<lambda>s. s) example_stem [75] example_docs"
  by (simp add: docs_small_def example_words example_chars string_ok_def list_ok_def example_stem_def)
    (simp add: example_docs_def doc_text_def)

definition example_query :: Query where
  "example_query = \<lparr>q_word = [98, 97], q_or = False, q_not = False, q_raw = False\<rparr>"

lemma example_class: "stem_class (\<lambda>s. s) example_stem (doc_words example_docs) [98, 97] = {[97, 99]}"
proof -
  have "\<not> substring [98, 97] [97, 99]" by (simp add: substring_def)
  then have "w \<in> stem_class (\<lambda>s. s) example_stem (doc_words example_docs) [98, 97] \<longleftrightarrow> w = [97, 99]" for w
    by (cases "w = [97, 99]") (simp_all add: stem_class_def example_stem_def example_words)
  then show ?thesis by blast
qed

lemma example_newest: "newest (doc_text example_docs) = 100"
  by (simp add: newest_def example_chars)

lemma example_answerable: "answerable (\<lambda>s. s) example_stem example_docs example_query"
  by (simp add: answerable_def example_query_def example_stem_def example_class findable_def example_newest inherited_def)
    (simp add: example_text(1))

lemma example_occurrences: "occurrences [98, 97] (doc_text example_docs) = {5}" "occurrences [97, 99] (doc_text example_docs) = {3}"
  by (auto simp: example_text occurrences_def le_Suc_eq numeral_eq_Suc)

lemma example_hits: "stretch (doc_tails example_docs) ` hits (\<lambda>s. s) example_stem example_docs example_query = {0, 1}"
  by (simp add: hits_def example_query_def example_stem_def example_class example_occurrences example_text(2) stretch_def)

theorem Oktavia_search_correct_witness:
  "\<exists>h s r. js_bind (index_documents (\<lambda>s. s) example_stem [75] example_docs 5) (\<lambda>okt. Oktavia_search (\<lambda>s. s) okt [] [example_query]) = Inr (h, s)
    \<and> s_result s = Some r \<and> distinct (r_unitIds r) \<and> set (r_unitIds r) = {0, 1}"
  using Oktavia_search_correct [OF example_docs_ok, of "[example_query]" "[75]" 5] example_answerable
  by (simp add: eval_queries_def example_hits)

text \<open>
  C3.  The engine survives being stored: dumping it and loading the data into a new engine with the
  same stemmer gives an engine that answers as described, for all documents within the limits of the
  formats.
\<close>

theorem Oktavia_dump_load_search:
  assumes "docs \<noteq> []" and "docs_ok toLower stem docs" and "docs_small toLower stem key docs"
    and "qs \<noteq> []" and "\<forall>q \<in> set qs. answerable toLower stem docs q"
  shows "\<exists>h s r. js_bind (index_documents toLower stem key docs density) (\<lambda>okt. js_bind (Oktavia_dump okt) (\<lambda>data.
      js_bind (Oktavia_load (Oktavia_setStemmer Oktavia_new stem) data) (\<lambda>okt'. Oktavia_search toLower okt' [] qs))) = Inr (h, s)
    \<and> s_result s = Some r \<and> distinct (r_unitIds r)
    \<and> set (r_unitIds r) = eval_queries (\<lambda>q. stretch (doc_tails docs) ` hits toLower stem docs q) qs"
proof -
  obtain okt where okt: "index_documents toLower stem key docs density = Inr okt"
    "engine toLower stem key docs (length (ok_compressCode2utf16 okt)) (cache_range density) okt" "fresh_engine key docs okt"
    using index_documents_engine [OF assms(1,2)] by blast
  obtain data okt' where "Oktavia_dump okt = Inr data" "Oktavia_load (Oktavia_setStemmer Oktavia_new stem) data = Inr okt'"
    "engine toLower stem key docs (2 ^ ceil_log2 (length (ok_compressCode2utf16 okt))) (cache_range density) okt'"
    using engine_dump_load [OF okt(2,3) cache_range_bound docs_storable [OF okt(2) assms(3)]] by blast
  then show ?thesis using okt(1) engine_search [OF _ assms(4,5)] by simp
qed

theorem Oktavia_dump_load_search_witness:
  "\<exists>h s r. js_bind (index_documents (\<lambda>s. s) example_stem [75] example_docs 5) (\<lambda>okt. js_bind (Oktavia_dump okt) (\<lambda>data.
      js_bind (Oktavia_load (Oktavia_setStemmer Oktavia_new example_stem) data) (\<lambda>okt'. Oktavia_search (\<lambda>s. s) okt' [] [example_query]))) = Inr (h, s)
    \<and> s_result s = Some r \<and> distinct (r_unitIds r) \<and> set (r_unitIds r) = {0, 1}"
  using Oktavia_dump_load_search [OF example_docs_ok example_docs_small, of "[example_query]" 5] example_answerable
  by (simp add: eval_queries_def example_hits)

text \<open>
  C20.  Documents come back: the engine has one section per document, with its name, and the content
  of a section is the text of the document, wherever the sample that the walk starts from lies in
  the text; without sampling gaps (density 100) that is every document.
\<close>

theorem Oktavia_getContent_correct:
  assumes "docs \<noteq> []" and "docs_ok toLower stem docs"
  shows "\<exists>okt s. index_documents toLower stem key docs density = Inr okt \<and> Oktavia_getPrimaryMetadata okt = Some (MSection s)
    \<and> Section_size s = length docs
    \<and> (\<forall>i < length docs. Section_getName s (int i) = Inr (fst (docs ! i))
        \<and> ((doc_tails docs ! i + cache_range density - 2) div cache_range density * cache_range density \<le> length (doc_text docs)
            \<longrightarrow> Metadata_getContent okt s (int i) = Inr (snd (docs ! i))))"
proof -
  obtain okt where okt: "index_documents toLower stem key docs density = Inr okt"
    "engine toLower stem key docs (length (ok_compressCode2utf16 okt)) (cache_range density) okt"
    using index_documents_engine [OF assms] by blast
  then obtain s where s: "Oktavia_getPrimaryMetadata okt = Some (MSection s)" "sec_names s = map fst docs" by (auto simp: engine_def)
  have "snd (docs ! i) \<noteq> []" if "i < length docs" for i
    using assms(2) nth_mem [OF that] by (fastforce simp: docs_ok_def)
  then show ?thesis
    using okt(1) s engine_content [OF okt(2) s(1)] by (simp add: Section_size_def Section_getName_def js_at_def)
qed

lemma example_range: "cache_range 100 = 1"
  by (simp add: cache_range_def)

theorem Oktavia_getContent_correct_witness:
  "\<exists>okt s. index_documents (\<lambda>s. s) example_stem [75] example_docs 100 = Inr okt \<and> Oktavia_getPrimaryMetadata okt = Some (MSection s)
    \<and> Section_size s = 2 \<and> Section_getName s 1 = Inr [66] \<and> Metadata_getContent okt s 1 = Inr [98, 97, 100]"
proof -
  have docs: "length example_docs = 2" "example_docs ! 1 = ([66], [98, 97, 100])" by (simp_all add: example_docs_def)
  obtain okt s where okt: "index_documents (\<lambda>s. s) example_stem [75] example_docs 100 = Inr okt" "Oktavia_getPrimaryMetadata okt = Some (MSection s)"
      "Section_size s = length example_docs" and i: "\<forall>i < length example_docs. Section_getName s (int i) = Inr (fst (example_docs ! i))
        \<and> ((doc_tails example_docs ! i + 1 - 2) div 1 * 1 \<le> length (doc_text example_docs)
            \<longrightarrow> Metadata_getContent okt s (int i) = Inr (snd (example_docs ! i)))"
    using Oktavia_getContent_correct [OF example_docs_ok, of "[75]" 100] unfolding example_range by blast
  then show ?thesis using i [rule_format, of 1] docs by (simp add: example_text)
qed

lemma foldl_add_new: "\<exists>r. foldl add_new xs t = xs @ r \<and> set r \<subseteq> set t"
proof (induction t arbitrary: xs)
  case (Cons c t)
  from Cons [of "add_new xs c"] show ?case by (auto simp: add_new_def split: if_splits)
qed simp

lemma missing_char:
  assumes e: "engine toLower stem key docs M d okt" and c: "3 \<le> c" "c \<notin> set (doc_text docs)"
  shows "obj_get (ok_utf162compressCode okt) c = None"
proof (rule ccontr)
  assume "obj_get (ok_utf162compressCode okt) c \<noteq> None"
  then obtain k where k: "3 \<le> k" "k < length (ok_compressCode2utf16 okt)" "ok_compressCode2utf16 okt ! k = c"
    using e c(1) by (auto simp: engine_def searchable_def tables_ok_def)
  obtain r where "ok_compressCode2utf16 okt = initial_chars @ r" "set r \<subseteq> set (doc_text docs)"
    using e foldl_add_new [of initial_chars "doc_text docs"] by (auto simp: engine_def)
  moreover from this have "k - 3 < length r" "r ! (k - 3) = c"
    using k by (simp_all add: initial_chars_def nth_append nth_Cons numeral_3_eq_3 split: nat.splits)
  ultimately show False using c(2) nth_mem [of "k - 3" r] by auto
qed

lemma first_char:
  assumes e: "engine toLower stem key docs M d okt" and t: "doc_text docs = c # t" "3 \<le> c"
  shows "obj_get (ok_utf162compressCode okt) c = Some 3" "covers (ok_utf162compressCode okt) [c]" "core_ok okt"
proof -
  show ok: "core_ok okt" using e by (simp add: engine_def searchable_def)
  obtain r where r: "ok_compressCode2utf16 okt = (initial_chars @ [c]) @ r"
    using e t foldl_add_new [of "initial_chars @ [c]" t] by (auto simp: engine_def add_new_def initial_chars_def Oktavia_eob_def)
  then show "obj_get (ok_utf162compressCode okt) c = Some 3"
    using ok t(2) by (auto simp: tables_ok_def initial_chars_def)
  show "covers (ok_utf162compressCode okt) [c]" using e t(1) by (auto simp: engine_def searchable_def covers_def)
qed

text \<open>
  C35.  A character that the indexed text does not have is looked up as \<^verbatim>\<open>Oktavia.unknown\<close>, the
  character with code 3.  That is also the code of the first character of the text: searching for a
  character that does not occur finds all occurrences of that one.
\<close>

theorem Oktavia_unknown_character:
  assumes "docs \<noteq> []" and "docs_ok toLower stem docs" and "3 \<le> c" and "c \<notin> set (doc_text docs)"
    and "newest (doc_text docs) \<noteq> hd (doc_text docs)"
  shows "\<exists>ps. js_bind (index_documents toLower stem key docs density) (\<lambda>okt. Oktavia_rawSearch toLower okt [c] False) = Inr ps
    \<and> distinct ps \<and> set ps = {p. p < length (doc_text docs) \<and> doc_text docs ! p = hd (doc_text docs)}"
proof -
  let ?t = "doc_text docs"
  have ne: "?t \<noteq> []" "3 \<le> hd ?t" using assms(1,2) by (cases docs; fastforce simp: doc_text_def docs_ok_def)+
  obtain okt where okt: "index_documents toLower stem key docs density = Inr okt"
    "engine toLower stem key docs (length (ok_compressCode2utf16 okt)) (cache_range density) okt"
    using index_documents_engine [OF assms(1,2)] by blast
  note first = first_char [OF okt(2), of "hd ?t" "tl ?t"]
  have "findable ?t [hd ?t]" using ne assms(5) by (auto simp: findable_def)
  note found = findable_lookup [OF okt(2) this]
  have "obj_get (ok_utf162compressCode okt) c = None" by (rule missing_char [OF okt(2) assms(3,4)])
  then have "Oktavia_convertToCompressionCode okt [c] = Oktavia_convertToCompressionCode okt [hd ?t]"
    using first ne by (simp add: Oktavia_convertToCompressionCode_def Oktavia_unknown_def)
  moreover have "searchable okt ?t (length (ok_compressCode2utf16 okt)) (cache_range density)" using okt(2) by (simp add: engine_def)
  from rawSearch_exact [OF this found, of toLower] obtain ps where
    "Oktavia_rawSearch toLower okt [hd ?t] False = Inr ps" "distinct ps" "set ps = occurrences [hd ?t] ?t" by blast
  moreover have "occurrences [hd ?t] ?t = {p. p < length ?t \<and> ?t ! p = hd ?t}"
    by (auto simp: occurrences_def take_Suc hd_drop_conv_nth)
  ultimately show ?thesis using okt(1) by (intro exI [of _ ps]) (simp add: Oktavia_rawSearch_def)
qed

theorem Oktavia_unknown_character_witness:
  "\<exists>ps. js_bind (index_documents (\<lambda>s. s) example_stem [75] example_docs 5) (\<lambda>okt. Oktavia_rawSearch (\<lambda>s. s) okt [120] False) = Inr ps
    \<and> distinct ps \<and> 6 \<in> set ps"
proof -
  have "newest (doc_text example_docs) \<noteq> hd (doc_text example_docs)" "120 \<notin> set (doc_text example_docs)"
    by (simp_all add: example_newest) (simp_all add: example_text(1))
  from Oktavia_unknown_character [OF example_docs_ok _ this(2,1), of "[75]" 5]
  show ?thesis by (auto simp: example_text(1))
qed

end
