(* ===== verification/Stemmer.thy ===== *)
theory Stemmer
  imports Backward_Search "HOL-Library.Sublist"
begin

text \<open>
  The class \<^verbatim>\<open>BaseStemmer\<close>: the machine that Snowball stemmers run on.  It holds a word with a cursor
  and a slice between \<^verbatim>\<open>bra\<close> and \<^verbatim>\<open>ket\<close>, moves the cursor forward up to \<^verbatim>\<open>limit\<close> or backward down to
  \<^verbatim>\<open>limit_backward\<close> while it tests characters, looks up the longest matching entry of a table, and
  replaces the slice.

  A character is read only inside of the word: a read outside, where JavaScript yields \<^verbatim>\<open>NaN\<close>, is the
  error \<^verbatim>\<open>Undef\<close>.  The loops that search along the word have the distance to the limit as fuel.  The
  entries of the tables have no methods, as in the English stemmer.
\<close>

section \<open>The state and the tests\<close>

record BaseStemmer =
  bs_cache :: "(jsstring \<times> jsstring) list"
  bs_current :: jsstring
  bs_cursor :: int
  bs_limit :: int
  bs_limit_backward :: int
  bs_bra :: int
  bs_ket :: int

definition BaseStemmer_new :: BaseStemmer where
  "BaseStemmer_new = \<lparr>bs_cache = [], bs_current = [], bs_cursor = 0, bs_limit = 0, bs_limit_backward = 0, bs_bra = 0, bs_ket = 0\<rparr>"

definition BaseStemmer_setCurrent :: "jsstring \<Rightarrow> 'a BaseStemmer_scheme \<Rightarrow> 'a BaseStemmer_scheme" where
  "BaseStemmer_setCurrent v st = st\<lparr>bs_current := v, bs_cursor := 0, bs_limit := int (length v), bs_limit_backward := 0,
    bs_bra := 0, bs_ket := int (length v)\<rparr>"

definition BaseStemmer_getCurrent :: "'a BaseStemmer_scheme \<Rightarrow> jsstring" where
  "BaseStemmer_getCurrent st = bs_current st"

definition BaseStemmer_copy_from :: "'b BaseStemmer_scheme \<Rightarrow> 'a BaseStemmer_scheme \<Rightarrow> 'a BaseStemmer_scheme" where
  "BaseStemmer_copy_from other st = st\<lparr>bs_current := bs_current other, bs_cursor := bs_cursor other, bs_limit := bs_limit other,
    bs_limit_backward := bs_limit_backward other, bs_bra := bs_bra other, bs_ket := bs_ket other\<rparr>"

text \<open>\<^verbatim>\<open>charCodeAt\<close> within the string.\<close>

definition char_code :: "jsstring \<Rightarrow> int \<Rightarrow> nat js" where
  "char_code s i = (if 0 \<le> i \<and> i < int (length s) then Inr (s ! nat i) else Inl Undef)"

text \<open>Whether a character is in a grouping, a set of characters from \<^verbatim>\<open>min\<close> to \<^verbatim>\<open>max\<close> as a bit map.\<close>

definition in_group :: "nat list \<Rightarrow> nat \<Rightarrow> nat \<Rightarrow> nat \<Rightarrow> bool" where
  "in_group s mn mx ch \<longleftrightarrow> ch \<le> mx \<and> mn \<le> ch \<and> bit (js_at0 s ((ch - mn) div 8)) ((ch - mn) mod 8)"

text \<open>The tests of one character; each moves the cursor when it succeeds.\<close>

definition test_forward :: "(nat \<Rightarrow> bool) \<Rightarrow> 'a BaseStemmer_scheme \<Rightarrow> (bool \<times> 'a BaseStemmer_scheme) js" where
  "test_forward P st =
    (if bs_limit st \<le> bs_cursor st then Inr (False, st)
     else js_bind (char_code (bs_current st) (bs_cursor st)) (\<lambda>ch.
       if P ch then Inr (True, st\<lparr>bs_cursor := bs_cursor st + 1\<rparr>) else Inr (False, st)))"

definition test_backward :: "(nat \<Rightarrow> bool) \<Rightarrow> 'a BaseStemmer_scheme \<Rightarrow> (bool \<times> 'a BaseStemmer_scheme) js" where
  "test_backward P st =
    (if bs_cursor st \<le> bs_limit_backward st then Inr (False, st)
     else js_bind (char_code (bs_current st) (bs_cursor st - 1)) (\<lambda>ch.
       if P ch then Inr (True, st\<lparr>bs_cursor := bs_cursor st - 1\<rparr>) else Inr (False, st)))"

definition in_grouping :: "nat list \<Rightarrow> nat \<Rightarrow> nat \<Rightarrow> 'a BaseStemmer_scheme \<Rightarrow> (bool \<times> 'a BaseStemmer_scheme) js" where
  "in_grouping s mn mx = test_forward (in_group s mn mx)"

definition in_grouping_b :: "nat list \<Rightarrow> nat \<Rightarrow> nat \<Rightarrow> 'a BaseStemmer_scheme \<Rightarrow> (bool \<times> 'a BaseStemmer_scheme) js" where
  "in_grouping_b s mn mx = test_backward (in_group s mn mx)"

definition out_grouping :: "nat list \<Rightarrow> nat \<Rightarrow> nat \<Rightarrow> 'a BaseStemmer_scheme \<Rightarrow> (bool \<times> 'a BaseStemmer_scheme) js" where
  "out_grouping s mn mx = test_forward (\<lambda>ch. \<not> in_group s mn mx ch)"

definition out_grouping_b :: "nat list \<Rightarrow> nat \<Rightarrow> nat \<Rightarrow> 'a BaseStemmer_scheme \<Rightarrow> (bool \<times> 'a BaseStemmer_scheme) js" where
  "out_grouping_b s mn mx = test_backward (\<lambda>ch. \<not> in_group s mn mx ch)"

definition in_range :: "nat \<Rightarrow> nat \<Rightarrow> 'a BaseStemmer_scheme \<Rightarrow> (bool \<times> 'a BaseStemmer_scheme) js" where
  "in_range mn mx = test_forward (\<lambda>ch. mn \<le> ch \<and> ch \<le> mx)"

definition in_range_b :: "nat \<Rightarrow> nat \<Rightarrow> 'a BaseStemmer_scheme \<Rightarrow> (bool \<times> 'a BaseStemmer_scheme) js" where
  "in_range_b mn mx = test_backward (\<lambda>ch. mn \<le> ch \<and> ch \<le> mx)"

definition out_range :: "nat \<Rightarrow> nat \<Rightarrow> 'a BaseStemmer_scheme \<Rightarrow> (bool \<times> 'a BaseStemmer_scheme) js" where
  "out_range mn mx = test_forward (\<lambda>ch. \<not> (mn \<le> ch \<and> ch \<le> mx))"

definition out_range_b :: "nat \<Rightarrow> nat \<Rightarrow> 'a BaseStemmer_scheme \<Rightarrow> (bool \<times> 'a BaseStemmer_scheme) js" where
  "out_range_b mn mx = test_backward (\<lambda>ch. \<not> (mn \<le> ch \<and> ch \<le> mx))"

definition eq_s :: "nat \<Rightarrow> jsstring \<Rightarrow> 'a BaseStemmer_scheme \<Rightarrow> bool \<times> 'a BaseStemmer_scheme" where
  "eq_s s_size s st =
    (if bs_limit st - bs_cursor st < int s_size then (False, st)
     else if js_slice (bs_current st) (bs_cursor st) (bs_cursor st + int s_size) \<noteq> s then (False, st)
     else (True, st\<lparr>bs_cursor := bs_cursor st + int s_size\<rparr>))"

definition eq_s_b :: "nat \<Rightarrow> jsstring \<Rightarrow> 'a BaseStemmer_scheme \<Rightarrow> bool \<times> 'a BaseStemmer_scheme" where
  "eq_s_b s_size s st =
    (if bs_cursor st - bs_limit_backward st < int s_size then (False, st)
     else if js_slice (bs_current st) (bs_cursor st - int s_size) (bs_cursor st) \<noteq> s then (False, st)
     else (True, st\<lparr>bs_cursor := bs_cursor st - int s_size\<rparr>))"

definition eq_v :: "jsstring \<Rightarrow> 'a BaseStemmer_scheme \<Rightarrow> bool \<times> 'a BaseStemmer_scheme" where
  "eq_v s = eq_s (length s) s"

definition eq_v_b :: "jsstring \<Rightarrow> 'a BaseStemmer_scheme \<Rightarrow> bool \<times> 'a BaseStemmer_scheme" where
  "eq_v_b s = eq_s_b (length s) s"

section \<open>Tables\<close>

record Among =
  am_s :: jsstring
  am_substring_i :: int
  am_result :: int

definition Among_new :: "string \<Rightarrow> int \<Rightarrow> int \<Rightarrow> Among" where
  "Among_new s substring_i res = \<lparr>am_s = js_lit s, am_substring_i = substring_i, am_result = res\<rparr>"

text \<open>
  The comparison of the word with an entry from the \<^verbatim>\<open>common\<close> characters on: the difference of the
  first two characters that differ, or -1 at the end of the word, and the new number of common
  characters.  \<^verbatim>\<open>read\<close> fetches a character of the word and \<^verbatim>\<open>ended\<close> tells when the limit is reached.
\<close>

fun compare_loop :: "(nat \<Rightarrow> nat js) \<Rightarrow> (nat \<Rightarrow> bool) \<Rightarrow> nat \<Rightarrow> nat list \<Rightarrow> (int \<times> nat) js" where
  "compare_loop read ended common [] = Inr (0, common)"
| "compare_loop read ended common (x # xs) =
    (if ended common then Inr (- 1, common)
     else js_bind (read common) (\<lambda>ch.
       if int ch - int x \<noteq> 0 then Inr (int ch - int x, common) else compare_loop read ended (common + 1) xs))"

text \<open>The binary search; \<^verbatim>\<open>cmp k common\<close> compares with entry \<^verbatim>\<open>k\<close>.\<close>

function among_search ::
  "(nat \<Rightarrow> nat \<Rightarrow> (int \<times> nat) js) \<Rightarrow> nat \<Rightarrow> nat \<Rightarrow> nat \<Rightarrow> nat \<Rightarrow> bool \<Rightarrow> (nat \<times> nat) js" where
  "among_search cmp i j common_i common_j first_key_inspected =
    (let k = i + (j - i) div 2 in
     js_bind (cmp k (min common_i common_j)) (\<lambda>(diff, common).
       let (i', j', common_i', common_j') = (if diff < 0 then (i, k, common_i, common) else (k, j, common, common_j)) in
       if j' - i' \<le> 1 then
         (if 0 < i' \<or> j' = i' \<or> first_key_inspected then Inr (i', common_i')
          else among_search cmp i' j' common_i' common_j' True)
       else among_search cmp i' j' common_i' common_j' first_key_inspected))"
  by pat_completeness auto
termination
  by (relation "measure (\<lambda>(cmp, i, j, ci, cj, b). 2 * (j - i) + (if b then 0 else 1))") (auto split: if_splits)

declare among_search.simps [simp del]

text \<open>The entries that are prefixes of the one found, from the longest to the shortest.\<close>

fun among_pick :: "nat \<Rightarrow> Among list \<Rightarrow> int \<Rightarrow> nat \<Rightarrow> Among option js" where
  "among_pick 0 v i common_i = Inl Diverge"
| "among_pick (Suc fuel) v i common_i =
    js_bind (js_at v (nat i)) (\<lambda>w.
      if length (am_s w) \<le> common_i then Inr (Some w)
      else if am_substring_i w < 0 then Inr None
      else among_pick fuel v (am_substring_i w) common_i)"

definition find_among :: "Among list \<Rightarrow> nat \<Rightarrow> 'a BaseStemmer_scheme \<Rightarrow> (int \<times> 'a BaseStemmer_scheme) js" where
  "find_among v v_size st =
    (let c = bs_cursor st; l = bs_limit st;
         cmp = (\<lambda>k common. js_bind (js_at v k) (\<lambda>w.
           compare_loop (\<lambda>n. char_code (bs_current st) (c + int n)) (\<lambda>n. c + int n = l) common (drop common (am_s w))))
     in js_bind (among_search cmp 0 v_size 0 0 False) (\<lambda>(i, common_i).
        js_bind (among_pick (length v) v (int i) common_i) (\<lambda>entry.
          case entry of
            None \<Rightarrow> Inr (0, st)
          | Some w \<Rightarrow> Inr (am_result w, st\<lparr>bs_cursor := c + int (length (am_s w))\<rparr>))))"

definition find_among_b :: "Among list \<Rightarrow> nat \<Rightarrow> 'a BaseStemmer_scheme \<Rightarrow> (int \<times> 'a BaseStemmer_scheme) js" where
  "find_among_b v v_size st =
    (let c = bs_cursor st; lb = bs_limit_backward st;
         cmp = (\<lambda>k common. js_bind (js_at v k) (\<lambda>w.
           compare_loop (\<lambda>n. char_code (bs_current st) (c - 1 - int n)) (\<lambda>n. c - int n = lb) common (drop common (rev (am_s w)))))
     in js_bind (among_search cmp 0 v_size 0 0 False) (\<lambda>(i, common_i).
        js_bind (among_pick (length v) v (int i) common_i) (\<lambda>entry.
          case entry of
            None \<Rightarrow> Inr (0, st)
          | Some w \<Rightarrow> Inr (am_result w, st\<lparr>bs_cursor := c - int (length (am_s w))\<rparr>))))"

section \<open>Replacing\<close>

definition replace_s :: "int \<Rightarrow> int \<Rightarrow> jsstring \<Rightarrow> 'a BaseStemmer_scheme \<Rightarrow> int \<times> 'a BaseStemmer_scheme" where
  "replace_s c_bra c_ket s st =
    (let adjustment = int (length s) - (c_ket - c_bra);
         current = js_slice (bs_current st) 0 c_bra @ s @ drop (slice_index (bs_current st) c_ket) (bs_current st);
         cursor = (if c_ket \<le> bs_cursor st then bs_cursor st + adjustment
                   else if c_bra < bs_cursor st then c_bra else bs_cursor st)
     in (adjustment, st\<lparr>bs_current := current, bs_limit := bs_limit st + adjustment, bs_cursor := cursor\<rparr>))"

definition slice_check :: "'a BaseStemmer_scheme \<Rightarrow> bool" where
  "slice_check st \<longleftrightarrow> \<not> (bs_bra st < 0 \<or> bs_ket st < bs_bra st \<or> bs_limit st < bs_ket st \<or> int (length (bs_current st)) < bs_limit st)"

definition slice_from :: "jsstring \<Rightarrow> 'a BaseStemmer_scheme \<Rightarrow> bool \<times> 'a BaseStemmer_scheme" where
  "slice_from s st = (if slice_check st then (True, snd (replace_s (bs_bra st) (bs_ket st) s st)) else (False, st))"

definition slice_del :: "'a BaseStemmer_scheme \<Rightarrow> bool \<times> 'a BaseStemmer_scheme" where
  "slice_del = slice_from []"

definition insert_s :: "int \<Rightarrow> int \<Rightarrow> jsstring \<Rightarrow> 'a BaseStemmer_scheme \<Rightarrow> 'a BaseStemmer_scheme" where
  "insert_s c_bra c_ket s st =
    (let (adjustment, st) = replace_s c_bra c_ket s st;
         st = (if c_bra \<le> bs_bra st then st\<lparr>bs_bra := bs_bra st + adjustment\<rparr> else st)
     in if c_bra \<le> bs_ket st then st\<lparr>bs_ket := bs_ket st + adjustment\<rparr> else st)"

definition slice_to :: "'a BaseStemmer_scheme \<Rightarrow> jsstring" where
  "slice_to st = (if slice_check st then js_slice (bs_current st) (bs_bra st) (bs_ket st) else [])"

definition assign_to :: "'a BaseStemmer_scheme \<Rightarrow> jsstring" where
  "assign_to st = js_slice (bs_current st) 0 (bs_limit st)"

section \<open>Stemming words\<close>

definition BaseStemmer_stem :: "'a BaseStemmer_scheme \<Rightarrow> (bool \<times> 'a BaseStemmer_scheme) js" where
  "BaseStemmer_stem st = Inr (False, st)"

text \<open>\<^verbatim>\<open>stem\<close> is the method of the class of the stemmer; results are kept under the word with a dot in front.\<close>

definition stemWord ::
  "('a BaseStemmer_scheme \<Rightarrow> (bool \<times> 'a BaseStemmer_scheme) js) \<Rightarrow> jsstring \<Rightarrow> 'a BaseStemmer_scheme
    \<Rightarrow> (jsstring \<times> 'a BaseStemmer_scheme) js" where
  "stemWord stem word st =
    (case map_of (bs_cache st) (46 # word) of
       Some res \<Rightarrow> Inr (res, st)
     | None \<Rightarrow>
         js_bind (stem (BaseStemmer_setCurrent word st)) (\<lambda>(b, st).
           Inr (bs_current st, st\<lparr>bs_cache := (46 # word, bs_current st) # bs_cache st\<rparr>)))"

definition stemWords ::
  "('a BaseStemmer_scheme \<Rightarrow> (bool \<times> 'a BaseStemmer_scheme) js) \<Rightarrow> jsstring list \<Rightarrow> 'a BaseStemmer_scheme
    \<Rightarrow> (jsstring list \<times> 'a BaseStemmer_scheme) js" where
  "stemWords stem ws st =
    js_fold (\<lambda>(results, st) word. js_bind (stemWord stem word st) (\<lambda>(res, st). Inr (results @ [res], st))) ([], st) ws"

section \<open>Control\<close>

text \<open>
  The patterns that the compiled stemmers repeat: a part that is tried and whose cursor is reset, in
  either direction, an alternative, and the search along the word for a place where a part succeeds,
  behind it (\<^verbatim>\<open>gopast\<close>) or at it (\<^verbatim>\<open>goto\<close>).
\<close>

definition attempt :: "('a BaseStemmer_scheme \<Rightarrow> (bool \<times> 'a BaseStemmer_scheme) js) \<Rightarrow> 'a BaseStemmer_scheme \<Rightarrow> 'a BaseStemmer_scheme js" where
  "attempt f st = js_bind (f st) (\<lambda>(b, st'). Inr (st'\<lparr>bs_cursor := bs_cursor st\<rparr>))"

definition attempt_b :: "('a BaseStemmer_scheme \<Rightarrow> (bool \<times> 'a BaseStemmer_scheme) js) \<Rightarrow> 'a BaseStemmer_scheme \<Rightarrow> 'a BaseStemmer_scheme js" where
  "attempt_b f st = js_bind (f st) (\<lambda>(b, st'). Inr (st'\<lparr>bs_cursor := bs_limit st' - (bs_limit st - bs_cursor st)\<rparr>))"

definition and_then ::
  "('a BaseStemmer_scheme \<Rightarrow> (bool \<times> 'a BaseStemmer_scheme) js) \<Rightarrow> ('a BaseStemmer_scheme \<Rightarrow> (bool \<times> 'a BaseStemmer_scheme) js)
    \<Rightarrow> 'a BaseStemmer_scheme \<Rightarrow> (bool \<times> 'a BaseStemmer_scheme) js" where
  "and_then f g st = js_bind (f st) (\<lambda>(b, st). if b then g st else Inr (False, st))"

definition or_else_b ::
  "('a BaseStemmer_scheme \<Rightarrow> (bool \<times> 'a BaseStemmer_scheme) js) \<Rightarrow> ('a BaseStemmer_scheme \<Rightarrow> (bool \<times> 'a BaseStemmer_scheme) js)
    \<Rightarrow> 'a BaseStemmer_scheme \<Rightarrow> (bool \<times> 'a BaseStemmer_scheme) js" where
  "or_else_b f g st = js_bind (f st) (\<lambda>(b, st'). if b then Inr (True, st')
    else g (st'\<lparr>bs_cursor := bs_limit st' - (bs_limit st - bs_cursor st)\<rparr>))"

fun gopast_loop :: "nat \<Rightarrow> ('a BaseStemmer_scheme \<Rightarrow> (bool \<times> 'a BaseStemmer_scheme) js) \<Rightarrow> 'a BaseStemmer_scheme
    \<Rightarrow> (bool \<times> 'a BaseStemmer_scheme) js" where
  "gopast_loop 0 f st = Inl Diverge"
| "gopast_loop (Suc fuel) f st =
    js_bind (f st) (\<lambda>(b, st).
      if b then Inr (True, st)
      else if bs_limit st \<le> bs_cursor st then Inr (False, st)
      else gopast_loop fuel f (st\<lparr>bs_cursor := bs_cursor st + 1\<rparr>))"

definition gopast :: "('a BaseStemmer_scheme \<Rightarrow> (bool \<times> 'a BaseStemmer_scheme) js) \<Rightarrow> 'a BaseStemmer_scheme
    \<Rightarrow> (bool \<times> 'a BaseStemmer_scheme) js" where
  "gopast f st = gopast_loop (nat (bs_limit st - bs_cursor st) + 1) f st"

fun gopast_b_loop :: "nat \<Rightarrow> ('a BaseStemmer_scheme \<Rightarrow> (bool \<times> 'a BaseStemmer_scheme) js) \<Rightarrow> 'a BaseStemmer_scheme
    \<Rightarrow> (bool \<times> 'a BaseStemmer_scheme) js" where
  "gopast_b_loop 0 f st = Inl Diverge"
| "gopast_b_loop (Suc fuel) f st =
    js_bind (f st) (\<lambda>(b, st).
      if b then Inr (True, st)
      else if bs_cursor st \<le> bs_limit_backward st then Inr (False, st)
      else gopast_b_loop fuel f (st\<lparr>bs_cursor := bs_cursor st - 1\<rparr>))"

definition gopast_b :: "('a BaseStemmer_scheme \<Rightarrow> (bool \<times> 'a BaseStemmer_scheme) js) \<Rightarrow> 'a BaseStemmer_scheme
    \<Rightarrow> (bool \<times> 'a BaseStemmer_scheme) js" where
  "gopast_b f st = gopast_b_loop (nat (bs_cursor st - bs_limit_backward st) + 1) f st"

fun goto_loop :: "nat \<Rightarrow> ('a BaseStemmer_scheme \<Rightarrow> (bool \<times> 'a BaseStemmer_scheme) js) \<Rightarrow> 'a BaseStemmer_scheme
    \<Rightarrow> (bool \<times> 'a BaseStemmer_scheme) js" where
  "goto_loop 0 f st = Inl Diverge"
| "goto_loop (Suc fuel) f st =
    js_bind (f st) (\<lambda>(b, st').
      let st'' = st'\<lparr>bs_cursor := bs_cursor st\<rparr> in
      if b then Inr (True, st'')
      else if bs_limit st'' \<le> bs_cursor st'' then Inr (False, st'')
      else goto_loop fuel f (st''\<lparr>bs_cursor := bs_cursor st'' + 1\<rparr>))"

definition goto_place :: "('a BaseStemmer_scheme \<Rightarrow> (bool \<times> 'a BaseStemmer_scheme) js) \<Rightarrow> 'a BaseStemmer_scheme
    \<Rightarrow> (bool \<times> 'a BaseStemmer_scheme) js" where
  "goto_place f st = goto_loop (nat (bs_limit st - bs_cursor st) + 1) f st"

section \<open>Common prefixes and the order of entries\<close>

fun lcp :: "nat list \<Rightarrow> nat list \<Rightarrow> nat" where
  "lcp (x # xs) (y # ys) = (if x = y then Suc (lcp xs ys) else 0)"
| "lcp xs ys = 0"

lemma lcp_Nil [simp]: "lcp xs [] = 0"
  by (cases xs) simp_all

lemma lcp_le: "lcp xs ys \<le> length xs" "lcp xs ys \<le> length ys"
  by (induction xs ys rule: lcp.induct) simp_all

lemma lcp_take: "m \<le> lcp xs ys \<longleftrightarrow> m \<le> length xs \<and> m \<le> length ys \<and> take m xs = take m ys"
proof (induction xs ys arbitrary: m rule: lcp.induct)
  case (1 x xs y ys)
  then show ?case by (cases m) auto
qed (auto simp: le_Suc_eq)

lemma lcp_SucE:
  assumes "Suc m \<le> lcp xs ys"
  obtains x xs' ys' where "xs = x # xs'" "ys = x # ys'" "m \<le> lcp xs' ys'"
  using assms by (cases "(xs, ys)" rule: lcp.cases) (auto split: if_splits)

lemma lcp_drop: "m \<le> lcp xs ys \<Longrightarrow> lcp xs ys = m + lcp (drop m xs) (drop m ys)"
proof (induction m arbitrary: xs ys)
  case (Suc m)
  from Suc.prems obtain x xs' ys' where "xs = x # xs'" "ys = x # ys'" "m \<le> lcp xs' ys'"
    by (rule lcp_SucE)
  then show ?case using Suc.IH by simp
qed simp

lemma lex_less_drop: "m \<le> lcp xs ys \<Longrightarrow> lex_less ys xs = lex_less (drop m ys) (drop m xs)"
proof (induction m arbitrary: xs ys)
  case (Suc m)
  from Suc.prems obtain x xs' ys' where "xs = x # xs'" "ys = x # ys'" "m \<le> lcp xs' ys'"
    by (rule lcp_SucE)
  then show ?case using Suc.IH by simp
qed simp

text \<open>What lies between two words that start with the same characters starts with them too.\<close>

lemma lcp_between:
  assumes "m \<le> lcp a t" "m \<le> lcp b t" "a = x \<or> lex_less a x" "x = b \<or> lex_less x b"
  shows "m \<le> lcp x t"
  using assms
proof (induction m arbitrary: a b x t)
  case (Suc m)
  from Suc.prems(1) obtain c as ts where a: "a = c # as" "t = c # ts" "m \<le> lcp as ts" by (rule lcp_SucE)
  from Suc.prems(2) obtain bs where b: "b = c # bs" "m \<le> lcp bs ts" using a(2) by (auto elim: lcp_SucE)
  note abt = a(1) b(1) a(2) a(3) b(2)
  obtain xs where x: "x = c # xs" "as = xs \<or> lex_less as xs" "xs = bs \<or> lex_less xs bs"
    using Suc.prems(3,4) abt(1,2) by (cases x) auto
  then show ?case using Suc.IH [OF abt(4,5) x(2,3)] abt by simp
qed simp

lemma starts_with_lcp: "starts_with p t \<longleftrightarrow> length p \<le> lcp p t"
proof -
  have "take (length p) t = p \<Longrightarrow> length p \<le> length t" by (metis length_take min.cobounded1)
  then show ?thesis unfolding lcp_take starts_with_def by auto
qed

lemma starts_with_prefix: "starts_with p t \<longleftrightarrow> prefix p t"
  by (metis starts_with_def append_eq_conv_conj append_take_drop_id prefix_def)

lemma starts_with_trans: "starts_with p q \<Longrightarrow> starts_with q t \<Longrightarrow> starts_with p t"
  unfolding starts_with_prefix by (rule prefix_order.trans)

lemma starts_with_shorter: "starts_with p t \<Longrightarrow> starts_with q t \<Longrightarrow> length p \<le> length q \<Longrightarrow> starts_with p q"
  unfolding starts_with_prefix by (rule prefix_length_prefix)

lemma starts_with_common: "starts_with p q \<Longrightarrow> starts_with p t \<Longrightarrow> length p \<le> lcp q t"
  by (metis lcp_take starts_with_def starts_with_lcp)

lemma starts_with_not_less: "starts_with p t \<Longrightarrow> \<not> lex_less t p"
  by (simp add: starts_with_iff)

lemma prefix_between:
  assumes "starts_with p t" "p = x \<or> lex_less p x" "\<not> lex_less t x"
  shows "starts_with p x"
proof -
  have "x = t \<or> lex_less x t" using assms(3) lex_total [of x t] by blast
  moreover have "length p \<le> lcp t t" using assms(1) lcp_take [of "length p" p t] lcp_take [of "length p" t t] by (simp add: starts_with_lcp)
  ultimately have "length p \<le> lcp x t" using lcp_between [of "length p" p t t x] assms(1,2) by (simp add: starts_with_lcp)
  then show ?thesis using assms(1) by (simp add: lcp_take starts_with_def)
qed

section \<open>Looking up entries\<close>

text \<open>The entry that a look-up is to find: the longest one that the characters start with.\<close>

definition better_entry :: "(Among \<Rightarrow> nat list) \<Rightarrow> nat list \<Rightarrow> Among option \<Rightarrow> Among \<Rightarrow> Among option" where
  "better_entry key t best w =
    (if starts_with (key w) t \<and> (case best of None \<Rightarrow> True | Some b \<Rightarrow> length (key b) < length (key w)) then Some w else best)"

definition longest_entry :: "(Among \<Rightarrow> nat list) \<Rightarrow> Among list \<Rightarrow> nat list \<Rightarrow> Among option" where
  "longest_entry key v t = foldl (better_entry key t) None v"

definition is_longest :: "(Among \<Rightarrow> nat list) \<Rightarrow> nat list \<Rightarrow> Among set \<Rightarrow> Among option \<Rightarrow> bool" where
  "is_longest key t A best \<longleftrightarrow> (case best of
      None \<Rightarrow> \<forall>w \<in> A. \<not> starts_with (key w) t
    | Some b \<Rightarrow> b \<in> A \<and> starts_with (key b) t \<and> (\<forall>w \<in> A. starts_with (key w) t \<longrightarrow> length (key w) \<le> length (key b)))"

lemma is_longest_step: "is_longest key t A best \<Longrightarrow> is_longest key t (insert w A) (better_entry key t best w)"
proof (cases best)
  case (Some b)
  assume a: "is_longest key t A best"
  then have b: "b \<in> A" "starts_with (key b) t" "\<And>x. x \<in> A \<Longrightarrow> starts_with (key x) t \<Longrightarrow> length (key x) \<le> length (key b)"
    using Some by (simp_all add: is_longest_def)
  show ?thesis
  proof (cases "starts_with (key w) t \<and> length (key b) < length (key w)")
    case True
    then have "length (key x) \<le> length (key w)" if "x \<in> A" "starts_with (key x) t" for x using b(3) [OF that] by linarith
    then show ?thesis using True Some by (simp add: is_longest_def better_entry_def)
  next
    case False
    then have "better_entry key t best w = Some b" using Some by (auto simp: better_entry_def)
    moreover have "starts_with (key w) t \<longrightarrow> length (key w) \<le> length (key b)" using False by linarith
    ultimately show ?thesis using b by (simp add: is_longest_def)
  qed
qed (simp add: is_longest_def better_entry_def)

lemma is_longest_fold: "is_longest key t A best \<Longrightarrow> is_longest key t (A \<union> set v) (foldl (better_entry key t) best v)"
proof (induction v arbitrary: A best)
  case (Cons w v)
  show ?case using Cons.IH [OF is_longest_step [OF Cons.prems, of w]] by simp
qed simp

lemma longest_entry_is: "is_longest key t (set v) (longest_entry key v t)"
  using is_longest_fold [of key t "{}" None v] by (simp add: longest_entry_def is_longest_def)

lemma longest_entry_None: "(\<And>w. w \<in> set v \<Longrightarrow> \<not> starts_with (key w) t) \<Longrightarrow> longest_entry key v t = None"
  using longest_entry_is [of key t v] by (auto simp: is_longest_def split: option.splits)

lemma longest_entry_Some:
  assumes "w \<in> set v" "starts_with (key w) t" "\<And>w'. w' \<in> set v \<Longrightarrow> starts_with (key w') t \<Longrightarrow> length (key w') \<le> length (key w)"
    and "\<And>w'. w' \<in> set v \<Longrightarrow> key w' = key w \<Longrightarrow> w' = w"
  shows "longest_entry key v t = Some w"
proof (cases "longest_entry key v t")
  case None
  then show ?thesis using longest_entry_is [of key t v] assms(1,2) by (auto simp: is_longest_def)
next
  case (Some b)
  then have b: "b \<in> set v" "starts_with (key b) t" and l: "\<forall>w \<in> set v. starts_with (key w) t \<longrightarrow> length (key w) \<le> length (key b)"
    using longest_entry_is [of key t v] by (simp_all add: is_longest_def)
  then have "length (key b) = length (key w)" using assms(3) [OF b] bspec [OF l assms(1)] assms(2) by (simp only: le_antisym)
  then have "key b = key w" using b(2) assms(2) unfolding starts_with_def by metis
  then show ?thesis using Some assms(4) b(1) by simp
qed

text \<open>A table in order, each entry linked to its longest proper prefix in the table.\<close>

definition link_ok :: "(Among \<Rightarrow> nat list) \<Rightarrow> Among list \<Rightarrow> nat \<Rightarrow> bool" where
  "link_ok key v i \<longleftrightarrow> (let l = am_substring_i (v ! i) in
     if l < 0 then \<forall>m < i. \<not> starts_with (key (v ! m)) (key (v ! i))
     else nat l < i \<and> starts_with (key (v ! nat l)) (key (v ! i))
       \<and> (\<forall>m < i. starts_with (key (v ! m)) (key (v ! i)) \<longrightarrow> length (key (v ! m)) \<le> length (key (v ! nat l))))"

definition table_ok :: "(Among \<Rightarrow> nat list) \<Rightarrow> Among list \<Rightarrow> bool" where
  "table_ok key v \<longleftrightarrow> v \<noteq> [] \<and> sorted_wrt lex_less (map key v) \<and> (\<forall>i < length v. link_ok key v i)"

text \<open>
  What a look-up needs of a reader of the word: the characters ahead of the cursor, in the direction
  of the reading, are those of \<^verbatim>\<open>rest\<close>; \<^verbatim>\<open>key\<close> is an entry in that direction.
\<close>

locale cursor_reader =
  fixes ok :: "'s \<Rightarrow> bool" and rest :: "'s \<Rightarrow> nat list" and read :: "'s \<Rightarrow> nat \<Rightarrow> nat js" and ended :: "'s \<Rightarrow> nat \<Rightarrow> bool"
    and key :: "Among \<Rightarrow> nat list"
  assumes read_rest: "ok s \<Longrightarrow> n < length (rest s) \<Longrightarrow> read s n = Inr (rest s ! n)"
    and ended_rest: "ok s \<Longrightarrow> n \<le> length (rest s) \<Longrightarrow> ended s n \<longleftrightarrow> n = length (rest s)"
    and key_length: "length (key w) = length (am_s w)"
begin

lemma compare_loop_rest:
  assumes "ok s" "c \<le> length (rest s)"
  shows "\<exists>d. compare_loop (read s) (ended s) c xs = Inr (d, c + lcp xs (drop c (rest s))) \<and> (d < 0 \<longleftrightarrow> lex_less (drop c (rest s)) xs)"
  using assms(2)
proof (induction xs arbitrary: c)
  case (Cons x xs)
  show ?case
  proof (cases "c = length (rest s)")
    case True
    then show ?thesis using ended_rest [OF assms(1), of c] by simp
  next
    case False
    then have c: "c < length (rest s)" using Cons.prems by simp
    have d: "drop c (rest s) = rest s ! c # drop (Suc c) (rest s)" using c by (simp add: Cons_nth_drop_Suc)
    show ?thesis using ended_rest [OF assms(1), of c] read_rest [OF assms(1) c] c Cons.IH [of "Suc c"] unfolding d by auto
  qed
qed simp

definition entry_compare :: "Among list \<Rightarrow> 's \<Rightarrow> nat \<Rightarrow> nat \<Rightarrow> (int \<times> nat) js" where
  "entry_compare v s k common = js_bind (js_at v k) (\<lambda>w. compare_loop (read s) (ended s) common (drop common (key w)))"

lemma entry_compare_lcp:
  assumes "ok s" "k < length v" "c \<le> lcp (key (v ! k)) (rest s)"
  shows "\<exists>d. entry_compare v s k c = Inr (d, lcp (key (v ! k)) (rest s)) \<and> (d < 0 \<longleftrightarrow> lex_less (rest s) (key (v ! k)))"
proof -
  have "c \<le> length (rest s)" using assms(3) lcp_le(2) le_trans by blast
  from compare_loop_rest [OF assms(1) this, of "drop c (key (v ! k))"] show ?thesis
    using assms(2) lcp_drop [OF assms(3)] lex_less_drop [OF assms(3)] by (simp add: entry_compare_def)
qed

definition search_inv :: "Among list \<Rightarrow> 's \<Rightarrow> nat \<Rightarrow> nat \<Rightarrow> nat \<Rightarrow> nat \<Rightarrow> bool \<Rightarrow> bool" where
  "search_inv v s i j ci cj flag \<longleftrightarrow> i < j \<and> j \<le> length v \<and> ci \<le> lcp (key (v ! i)) (rest s)
    \<and> (0 < i \<longrightarrow> \<not> lex_less (rest s) (key (v ! i)) \<and> ci = lcp (key (v ! i)) (rest s))
    \<and> (if j < length v then lex_less (rest s) (key (v ! j)) \<and> cj \<le> lcp (key (v ! j)) (rest s) else cj = 0)
    \<and> (flag \<longrightarrow> i = 0 \<and> j = 1)"

text \<open>The entry that the binary search ends with: the last one not above the word, or the first.\<close>

definition search_post :: "Among list \<Rightarrow> 's \<Rightarrow> nat \<Rightarrow> nat \<Rightarrow> bool" where
  "search_post v s i ci \<longleftrightarrow> i < length v \<and> ci \<le> lcp (key (v ! i)) (rest s)
    \<and> (i + 1 < length v \<longrightarrow> lex_less (rest s) (key (v ! (i + 1))))
    \<and> (\<not> lex_less (rest s) (key (v ! i)) \<and> ci = lcp (key (v ! i)) (rest s) \<or> i = 0 \<and> lex_less (rest s) (key (v ! 0)))"

lemma search_compare:
  assumes "ok s" "sorted_wrt lex_less (map key v)" "search_inv v s i j ci cj flag" "k = i + (j - i) div 2"
  shows "\<exists>d. entry_compare v s k (min ci cj) = Inr (d, lcp (key (v ! k)) (rest s)) \<and> (d < 0 \<longleftrightarrow> lex_less (rest s) (key (v ! k)))"
proof (rule entry_compare_lcp [OF assms(1)])
  have k: "i \<le> k" "k < j" "j \<le> length v" using assms(3,4) by (auto simp: search_inv_def)
  then show "k < length v" by simp
  have le: "key (v ! a) = key (v ! b) \<or> lex_less (key (v ! a)) (key (v ! b))" if "a \<le> b" "b < length v" for a b
    using assms(2) that by (cases "a = b") (auto simp: sorted_wrt_iff_nth_less)
  show "min ci cj \<le> lcp (key (v ! k)) (rest s)"
  proof (cases "j < length v")
    case True
    then have "min ci cj \<le> lcp (key (v ! i)) (rest s)" "min ci cj \<le> lcp (key (v ! j)) (rest s)"
      using assms(3) by (auto simp: search_inv_def)
    then show ?thesis using lcp_between le [of i k] le [of k j] k True by (meson less_imp_le order.strict_trans2 le_less_trans less_trans)
  qed (use assms(3) in \<open>simp add: search_inv_def\<close>)
qed

lemma among_search_post:
  assumes "ok s" "sorted_wrt lex_less (map key v)" "search_inv v s i j ci cj flag"
  shows "\<exists>i' ci'. among_search (entry_compare v s) i j ci cj flag = Inr (i', ci') \<and> search_post v s i' ci'"
  using assms(3)
proof (induction "2 * (j - i) + (if flag then 0 else 1)" arbitrary: i j ci cj flag rule: less_induct)
  case less
  define k where "k = i + (j - i) div 2"
  have k: "i \<le> k" "k < j" "j \<le> length v" using less.prems unfolding k_def by (auto simp: search_inv_def)
  obtain d where d: "entry_compare v s k (min ci cj) = Inr (d, lcp (key (v ! k)) (rest s))"
      "d < 0 \<longleftrightarrow> lex_less (rest s) (key (v ! k))"
    using search_compare [OF assms(1,2) less.prems k_def] by blast
  note step = among_search.simps [of _ i j, folded k_def, unfolded Let_def]
  show ?case
  proof (cases "d < 0")
    case True
    show ?thesis
    proof (cases "k = i")
      case ki: True
      then have "i = 0" using less.prems True d(2) by (auto simp: search_inv_def)
      moreover have "j = i + 1" using ki less.prems unfolding k_def by (auto simp: search_inv_def)
      moreover have "among_search (entry_compare v s) i j ci cj flag = Inr (i, ci)" using d(1) True ki by (simp add: step)
      ultimately show ?thesis using less.prems d(2) True ki by (auto simp: search_post_def search_inv_def split: if_splits)
    next
      case False
      then have r: "among_search (entry_compare v s) i j ci cj flag =
          (if k - i \<le> 1 \<and> (0 < i \<or> flag) then Inr (i, ci)
           else among_search (entry_compare v s) i k ci (lcp (key (v ! k)) (rest s)) (flag \<or> k - i \<le> 1))"
        using d True by (auto simp: step)
      show ?thesis
      proof (cases "k - i \<le> 1 \<and> (0 < i \<or> flag)")
        case stop: True
        then have "k = i + 1" "0 < i" using False k less.prems by (auto simp: search_inv_def)
        then show ?thesis using r stop less.prems d(2) True k by (auto simp: search_inv_def search_post_def)
      next
        case go: False
        have "search_inv v s i k ci (lcp (key (v ! k)) (rest s)) (flag \<or> k - i \<le> 1)"
          using less.prems d(2) True False go k by (auto simp: search_inv_def)
        from less.hyps [OF _ this] show ?thesis using r k go by auto
      qed
    qed
  next
    case False
    then have r: "among_search (entry_compare v s) i j ci cj flag =
        (if j - k \<le> 1 \<and> (0 < k \<or> flag) then Inr (k, lcp (key (v ! k)) (rest s))
         else among_search (entry_compare v s) k j (lcp (key (v ! k)) (rest s)) cj (flag \<or> j - k \<le> 1))"
      using d(1) k by (auto simp: step)
    show ?thesis
    proof (cases "j - k \<le> 1 \<and> (0 < k \<or> flag)")
      case stop: True
      then have "j = k + 1" using k by auto
      then show ?thesis using r stop less.prems d(2) False k by (auto simp: search_inv_def search_post_def split: if_splits)
    next
      case go: False
      have "flag \<Longrightarrow> k = 0 \<and> j = 1" using less.prems k by (simp add: search_inv_def)
      moreover have "j - k \<le> 1 \<Longrightarrow> k = 0 \<and> j = 1" using go k by auto
      ultimately have "search_inv v s k j (lcp (key (v ! k)) (rest s)) cj (flag \<or> j - k \<le> 1)"
        using less.prems d(2) False k unfolding search_inv_def by blast
      moreover have "i < k \<or> \<not> flag \<and> j - k \<le> 1"
      proof (cases "k = i")
        case True
        then have "j = i + 1" using k(2) unfolding k_def by auto
        then show ?thesis using True go by simp
      qed (use k(1) in simp)
      then have "2 * (j - k) + (if flag \<or> j - k \<le> 1 then 0 else 1) < 2 * (j - i) + (if flag then 0 else (1::nat))"
        using k by auto
      ultimately show ?thesis using less.hyps [of j k "flag \<or> j - k \<le> 1"] unfolding r if_not_P [OF go] by blast
    qed
  qed
qed

lemma among_search_start:
  assumes "ok s" "sorted_wrt lex_less (map key v)" "v \<noteq> []"
  shows "\<exists>i ci. among_search (entry_compare v s) 0 (length v) 0 0 False = Inr (i, ci) \<and> search_post v s i ci"
  by (rule among_search_post [OF assms(1,2)]) (use assms(3) in \<open>simp add: search_inv_def\<close>)

lemma entry_not_above:
  assumes "sorted_wrt lex_less (map key v)" "search_post v s i ci" "m < length v" "starts_with (key (v ! m)) (rest s)"
  shows "starts_with (key (v ! m)) (key (v ! i)) \<and> ci = lcp (key (v ! i)) (rest s)"
proof -
  have nl: "\<not> lex_less (rest s) (key (v ! m))" by (rule starts_with_not_less [OF assms(4)])
  have less: "lex_less (key (v ! a)) (key (v ! b))" if "a < b" "b < length v" for a b
    using assms(1) that by (auto simp: sorted_wrt_iff_nth_less)
  have "m \<le> i"
  proof (rule ccontr)
    assume "\<not> m \<le> i"
    then have "lex_less (rest s) (key (v ! (i + 1)))" using assms(2,3) by (simp add: search_post_def)
    moreover have "m = i + 1 \<or> lex_less (key (v ! (i + 1))) (key (v ! m))"
      using \<open>\<not> m \<le> i\<close> less [of "i + 1" m] assms(3) by linarith
    ultimately show False using nl lex_less_trans by blast
  qed
  then have "key (v ! m) = key (v ! i) \<or> lex_less (key (v ! m)) (key (v ! i))"
    using less [of m i] assms(2) by (cases "m = i") (simp_all add: search_post_def)
  moreover have "\<not> lex_less (rest s) (key (v ! i)) \<and> ci = lcp (key (v ! i)) (rest s)"
    using assms(2) nl \<open>m \<le> i\<close> by (auto simp: search_post_def)
  ultimately show ?thesis using prefix_between [OF assms(4)] by blast
qed

lemma table_ok_inj:
  assumes "table_ok key v" "a < length v" "b < length v" "key (v ! a) = key (v ! b)"
  shows "v ! a = v ! b"
  using assms unfolding table_ok_def
  by (metis (no_types, lifting) length_map lex_less_irrefl linorder_neqE_nat nth_map sorted_wrt_nth_less)

lemma table_ok_unlinked:
  assumes "table_ok key v" "i < length v" "am_substring_i (v ! i) < 0" "m < i"
  shows "\<not> starts_with (key (v ! m)) (key (v ! i))"
  using assms by (auto simp: table_ok_def link_ok_def Let_def)

lemma table_ok_linked:
  assumes "table_ok key v" "i < length v" "\<not> am_substring_i (v ! i) < 0"
  defines "l \<equiv> nat (am_substring_i (v ! i))"
  shows "l < i" "starts_with (key (v ! l)) (key (v ! i))"
    "m < i \<Longrightarrow> starts_with (key (v ! m)) (key (v ! i)) \<Longrightarrow> length (key (v ! m)) \<le> length (key (v ! l))"
  using assms(1-3) unfolding l_def table_ok_def link_ok_def Let_def by simp_all

lemma table_ok_proper:
  assumes "table_ok key v" "a < length v" "b < length v" "starts_with (key (v ! a)) (key (v ! b))" "length (key (v ! a)) < length (key (v ! b))"
  shows "a < b"
proof (rule ccontr)
  assume "\<not> a < b"
  moreover have "a \<noteq> b" using assms(5) by blast
  ultimately have "b < a" by simp
  then have "lex_less (key (v ! b)) (key (v ! a))" using assms(1,2) by (auto simp: table_ok_def sorted_wrt_iff_nth_less)
  then show False using starts_with_not_less [OF assms(4)] by blast
qed

lemma among_pick_longest:
  assumes "table_ok key v" "i < length v" "i < fuel"
    and "\<And>m. m < length v \<Longrightarrow> starts_with (key (v ! m)) t \<longleftrightarrow> starts_with (key (v ! m)) (key (v ! i)) \<and> length (key (v ! m)) \<le> ci"
  shows "among_pick fuel v (int i) ci = Inr (longest_entry key v t)"
  using assms(2-4)
proof (induction fuel arbitrary: i)
  case (Suc fuel)
  let ?w = "v ! i"
  note iff = Suc.prems(3)
  show ?case
  proof (cases "length (key ?w) \<le> ci")
    case True
    then have "starts_with (key ?w) t" using iff [OF Suc.prems(1)] by (simp add: starts_with_prefix)
    moreover have "length (key (v ! m)) \<le> length (key ?w)" if "m < length v" "starts_with (key (v ! m)) t" for m
      using iff [OF that(1)] that(2) by (simp add: starts_with_prefix prefix_length_le)
    ultimately have "longest_entry key v t = Some ?w"
      by (intro longest_entry_Some) (use Suc.prems(1) table_ok_inj [OF assms(1)] in \<open>auto simp: in_set_conv_nth\<close>)
    then show ?thesis using True Suc.prems(1) by (simp add: key_length)
  next
    case long: False
    have proper: "m < i \<and> starts_with (key (v ! m)) (key ?w)" if "m < length v" "starts_with (key (v ! m)) t" for m
      using iff [OF that(1)] that(2) long table_ok_proper [OF assms(1) that(1) Suc.prems(1)] by simp
    show ?thesis
    proof (cases "am_substring_i ?w < 0")
      case True
      then have "longest_entry key v t = None"
        using proper table_ok_unlinked [OF assms(1) Suc.prems(1)] by (intro longest_entry_None) (metis in_set_conv_nth)
      then show ?thesis using True long Suc.prems(1) by (simp add: key_length)
    next
      case False
      define l where "l = nat (am_substring_i ?w)"
      have l: "l < i" "starts_with (key (v ! l)) (key ?w)"
        "\<And>m. m < i \<Longrightarrow> starts_with (key (v ! m)) (key ?w) \<Longrightarrow> length (key (v ! m)) \<le> length (key (v ! l))"
        using table_ok_linked [OF assms(1) Suc.prems(1) False] unfolding l_def by blast+
      have "starts_with (key (v ! m)) t \<longleftrightarrow> starts_with (key (v ! m)) (key (v ! l)) \<and> length (key (v ! m)) \<le> ci" if m: "m < length v" for m
        using starts_with_shorter [of "key (v ! m)" "key ?w" "key (v ! l)"] starts_with_trans [of "key (v ! m)" "key (v ! l)" "key ?w"]
          iff [OF m] proper [OF m] l(2) l(3) [of m] by blast
      then have "among_pick fuel v (int l) ci = Inr (longest_entry key v t)"
        using Suc.IH [of l] l(1) Suc.prems(1,2) by simp
      then show ?thesis using long False Suc.prems(1) by (simp add: key_length l_def)
    qed
  qed
qed simp

theorem among_lookup:
  assumes "ok s" "table_ok key v"
  shows "\<exists>i ci. among_search (entry_compare v s) 0 (length v) 0 0 False = Inr (i, ci)
    \<and> among_pick (length v) v (int i) ci = Inr (longest_entry key v (rest s))"
proof -
  have sorted: "sorted_wrt lex_less (map key v)" and ne: "v \<noteq> []" using assms(2) by (simp_all add: table_ok_def)
  from among_search_start [OF assms(1) this] obtain i ci where
    i: "among_search (entry_compare v s) 0 (length v) 0 0 False = Inr (i, ci)" "search_post v s i ci" by blast
  have n: "i < length v" and c: "ci \<le> lcp (key (v ! i)) (rest s)" using i(2) by (simp_all add: search_post_def)
  have "starts_with (key (v ! m)) (rest s) \<longleftrightarrow> starts_with (key (v ! m)) (key (v ! i)) \<and> length (key (v ! m)) \<le> ci"
    if m: "m < length v" for m
  proof
    assume "starts_with (key (v ! m)) (rest s)"
    then have "starts_with (key (v ! m)) (key (v ! i)) \<and> ci = lcp (key (v ! i)) (rest s)" "starts_with (key (v ! m)) (rest s)"
      using entry_not_above [OF sorted i(2) m] by simp_all
    then show "starts_with (key (v ! m)) (key (v ! i)) \<and> length (key (v ! m)) \<le> ci"
      using starts_with_common by metis
  next
    assume "starts_with (key (v ! m)) (key (v ! i)) \<and> length (key (v ! m)) \<le> ci"
    then have "length (key (v ! m)) \<le> lcp (key (v ! i)) (rest s)" "starts_with (key (v ! m)) (key (v ! i))" using c by simp_all
    then show "starts_with (key (v ! m)) (rest s)" by (simp add: lcp_take starts_with_def)
  qed
  from among_pick_longest [OF assms(2) n n this] show ?thesis using i(1) by blast
qed

end

text \<open>The cursor stands in the word, not before the backward limit; the limit is the end of the word.\<close>

definition st_ok :: "'a BaseStemmer_scheme \<Rightarrow> bool" where
  "st_ok st \<longleftrightarrow> 0 \<le> bs_limit_backward st \<and> bs_limit_backward st \<le> bs_cursor st \<and> bs_cursor st \<le> bs_limit st
    \<and> bs_limit st = int (length (bs_current st))"

definition ahead :: "'a BaseStemmer_scheme \<Rightarrow> nat list" where
  "ahead st = drop (nat (bs_cursor st)) (bs_current st)"

definition behind :: "'a BaseStemmer_scheme \<Rightarrow> nat list" where
  "behind st = rev (drop (nat (bs_limit_backward st)) (take (nat (bs_cursor st)) (bs_current st)))"

abbreviation read_ahead :: "'a BaseStemmer_scheme \<Rightarrow> nat \<Rightarrow> nat js" where
  "read_ahead st n \<equiv> char_code (bs_current st) (bs_cursor st + int n)"

abbreviation read_behind :: "'a BaseStemmer_scheme \<Rightarrow> nat \<Rightarrow> nat js" where
  "read_behind st n \<equiv> char_code (bs_current st) (bs_cursor st - 1 - int n)"

abbreviation ended_ahead :: "'a BaseStemmer_scheme \<Rightarrow> nat \<Rightarrow> bool" where
  "ended_ahead st n \<equiv> bs_cursor st + int n = bs_limit st"

abbreviation ended_behind :: "'a BaseStemmer_scheme \<Rightarrow> nat \<Rightarrow> bool" where
  "ended_behind st n \<equiv> bs_cursor st - int n = bs_limit_backward st"

abbreviation rev_key :: "Among \<Rightarrow> nat list" where
  "rev_key w \<equiv> rev (am_s w)"

lemma ahead_length: "st_ok st \<Longrightarrow> int (length (ahead st)) = bs_limit st - bs_cursor st"
  by (auto simp: st_ok_def ahead_def)

lemma behind_length: "st_ok st \<Longrightarrow> int (length (behind st)) = bs_cursor st - bs_limit_backward st"
  by (auto simp: st_ok_def behind_def)

lemma read_ahead_nth:
  assumes "st_ok st" "n < length (ahead st)"
  shows "read_ahead st n = Inr (ahead st ! n)"
proof -
  have "nat (bs_cursor st + int n) = nat (bs_cursor st) + n" using assms(1) by (simp add: st_ok_def nat_add_distrib)
  then show ?thesis using assms ahead_length [OF assms(1)] by (auto simp: st_ok_def char_code_def ahead_def)
qed

lemma read_behind_nth:
  assumes "st_ok st" "n < length (behind st)"
  shows "read_behind st n = Inr (behind st ! n)"
proof -
  define c l where "c = nat (bs_cursor st)" and "l = nat (bs_limit_backward st)"
  have cl: "bs_cursor st = int c" "bs_limit_backward st = int l" "l \<le> c" "c \<le> length (bs_current st)"
    using assms(1) by (auto simp: st_ok_def c_def l_def)
  have b: "behind st = rev (drop l (take c (bs_current st)))" by (simp add: behind_def c_def l_def)
  have n: "n < c - l" using assms(2) cl by (simp add: b)
  then have "behind st ! n = bs_current st ! (c - 1 - n)" using cl unfolding b
    by (simp add: rev_nth nth_drop)
  moreover have i: "bs_cursor st - 1 - int n = int (c - 1 - n)" using n cl(1) by simp
  moreover have "c - 1 - n < length (bs_current st)" using n cl by simp
  ultimately show ?thesis unfolding i char_code_def by simp
qed

interpretation fw: cursor_reader st_ok ahead read_ahead ended_ahead am_s
  by unfold_locales (auto simp: read_ahead_nth dest: ahead_length)

interpretation bw: cursor_reader st_ok behind read_behind ended_behind rev_key
  by unfold_locales (auto simp: read_behind_nth dest: behind_length)

lemma find_among_longest:
  assumes "st_ok st" "table_ok am_s v"
  shows "find_among v (length v) st = Inr (case longest_entry am_s v (ahead st) of
      None \<Rightarrow> (0, st) | Some w \<Rightarrow> (am_result w, st\<lparr>bs_cursor := bs_cursor st + int (length (am_s w))\<rparr>))"
  using fw.among_lookup [OF assms]
  by (auto simp: find_among_def fw.entry_compare_def [abs_def] Let_def split: option.split)

lemma find_among_b_longest:
  assumes "st_ok st" "table_ok rev_key v"
  shows "find_among_b v (length v) st = Inr (case longest_entry rev_key v (behind st) of
      None \<Rightarrow> (0, st) | Some w \<Rightarrow> (am_result w, st\<lparr>bs_cursor := bs_cursor st - int (length (am_s w))\<rparr>))"
  using bw.among_lookup [OF assms]
  by (auto simp: find_among_b_def bw.entry_compare_def [abs_def] Let_def split: option.split)

section \<open>What the tests keep\<close>

text \<open>A test only moves the cursor, ahead or back, and always returns.\<close>

definition moves :: "('a BaseStemmer_scheme \<Rightarrow> (bool \<times> 'a BaseStemmer_scheme) js) \<Rightarrow> bool" where
  "moves f \<longleftrightarrow> (\<forall>st. st_ok st \<longrightarrow> (\<exists>b c. f st = Inr (b, st\<lparr>bs_cursor := c\<rparr>) \<and> bs_cursor st \<le> c \<and> c \<le> bs_limit st))"

definition moves_b :: "('a BaseStemmer_scheme \<Rightarrow> (bool \<times> 'a BaseStemmer_scheme) js) \<Rightarrow> bool" where
  "moves_b f \<longleftrightarrow> (\<forall>st. st_ok st \<longrightarrow> (\<exists>b c. f st = Inr (b, st\<lparr>bs_cursor := c\<rparr>) \<and> bs_limit_backward st \<le> c \<and> c \<le> bs_cursor st))"

lemma movesE:
  assumes "moves f" "st_ok st"
  obtains b c where "f st = Inr (b, st\<lparr>bs_cursor := c\<rparr>)" "bs_cursor st \<le> c" "c \<le> bs_limit st"
  using assms unfolding moves_def by blast

lemma moves_bE:
  assumes "moves_b f" "st_ok st"
  obtains b c where "f st = Inr (b, st\<lparr>bs_cursor := c\<rparr>)" "bs_limit_backward st \<le> c" "c \<le> bs_cursor st"
  using assms unfolding moves_b_def by blast

lemma st_ok_cursor [simp]:
  "st_ok st \<Longrightarrow> st_ok (st\<lparr>bs_cursor := c\<rparr>) \<longleftrightarrow> bs_limit_backward st \<le> c \<and> c \<le> bs_limit st"
  by (auto simp: st_ok_def)

lemma cursor_same [simp]: "st\<lparr>bs_cursor := bs_cursor st\<rparr> = st"
  by simp

lemma char_code_in: "0 \<le> i \<Longrightarrow> i < int (length s) \<Longrightarrow> char_code s i = Inr (s ! nat i)"
  by (simp add: char_code_def)

text \<open>A test of one character leaves the cursor where it is when it fails.\<close>

lemma test_forward_cases:
  assumes "st_ok st"
  shows "test_forward P st = Inr (False, st) \<or>
    test_forward P st = Inr (True, st\<lparr>bs_cursor := bs_cursor st + 1\<rparr>) \<and> bs_cursor st < bs_limit st"
  using assms by (auto simp: test_forward_def st_ok_def char_code_in)

lemma test_backward_cases:
  assumes "st_ok st"
  shows "test_backward P st = Inr (False, st) \<or>
    test_backward P st = Inr (True, st\<lparr>bs_cursor := bs_cursor st - 1\<rparr>) \<and> bs_limit_backward st < bs_cursor st"
  using assms by (auto simp: test_backward_def st_ok_def char_code_in)

lemma stay_move: "Inr (b, st) = Inr (b, st\<lparr>bs_cursor := bs_cursor st\<rparr>)"
  by simp

lemma test_forward_moves: "moves (test_forward P)"
  unfolding moves_def
proof (intro allI impI)
  fix st :: "'a BaseStemmer_scheme"
  assume ok: "st_ok st"
  then have "bs_cursor st \<le> bs_limit st" by (simp add: st_ok_def)
  then show "\<exists>b c. test_forward P st = Inr (b, st\<lparr>bs_cursor := c\<rparr>) \<and> bs_cursor st \<le> c \<and> c \<le> bs_limit st"
    using test_forward_cases [OF ok, of P] by (metis add.commute add_increasing cursor_same order_refl zless_imp_add1_zle zero_le_one)
qed

lemma test_backward_moves: "moves_b (test_backward P)"
  unfolding moves_b_def
proof (intro allI impI)
  fix st :: "'a BaseStemmer_scheme"
  assume ok: "st_ok st"
  then have "bs_limit_backward st \<le> bs_cursor st" by (simp add: st_ok_def)
  then show "\<exists>b c. test_backward P st = Inr (b, st\<lparr>bs_cursor := c\<rparr>) \<and> bs_limit_backward st \<le> c \<and> c \<le> bs_cursor st"
    using test_backward_cases [OF ok, of P] by (elim disjE) (metis cursor_same order_refl, intro exI conjI, auto)
qed

lemma eq_s_b_cases:
  "eq_s_b n s st = (False, st) \<or> eq_s_b n s st = (True, st\<lparr>bs_cursor := bs_cursor st - int n\<rparr>) \<and> int n \<le> bs_cursor st - bs_limit_backward st"
  by (simp add: eq_s_b_def)

lemma eq_s_cases:
  "eq_s n s st = (False, st) \<or> eq_s n s st = (True, st\<lparr>bs_cursor := bs_cursor st + int n\<rparr>) \<and> int n \<le> bs_limit st - bs_cursor st
    \<and> js_slice (bs_current st) (bs_cursor st) (bs_cursor st + int n) = s"
  by (simp add: eq_s_def)

lemma eq_s_b_moves: "moves_b (\<lambda>st. Inr (eq_s_b n s st))"
  unfolding moves_b_def
proof (intro allI impI)
  fix st :: "'a BaseStemmer_scheme"
  assume "st_ok st"
  then have "bs_limit_backward st \<le> bs_cursor st" by (simp add: st_ok_def)
  then show "\<exists>b c. Inr (eq_s_b n s st) = Inr (b, st\<lparr>bs_cursor := c\<rparr>) \<and> bs_limit_backward st \<le> c \<and> c \<le> bs_cursor st"
    using eq_s_b_cases [of n s st] by (elim disjE) (metis cursor_same order_refl, intro exI conjI, auto)
qed

lemma and_then_moves:
  assumes "moves f" "moves g"
  shows "moves (and_then f g)"
  unfolding moves_def
proof (intro allI impI)
  fix st :: "'a BaseStemmer_scheme"
  assume ok: "st_ok st"
  from assms(1) ok obtain b c where f: "f st = Inr (b, st\<lparr>bs_cursor := c\<rparr>)" "bs_cursor st \<le> c" "c \<le> bs_limit st" by (rule movesE)
  then have "st_ok (st\<lparr>bs_cursor := c\<rparr>)" using ok by (auto simp: st_ok_def)
  with assms(2) obtain b' c' where "g (st\<lparr>bs_cursor := c\<rparr>) = Inr (b', st\<lparr>bs_cursor := c\<rparr>\<lparr>bs_cursor := c'\<rparr>)" "c \<le> c'" "c' \<le> bs_limit st"
    by (auto elim: movesE)
  then show "\<exists>b c. and_then f g st = Inr (b, st\<lparr>bs_cursor := c\<rparr>) \<and> bs_cursor st \<le> c \<and> c \<le> bs_limit st"
    using f by (cases b) (auto simp: and_then_def intro!: exI)
qed

lemma and_then_moves_b:
  assumes "moves_b f" "moves_b g"
  shows "moves_b (and_then f g)"
  unfolding moves_b_def
proof (intro allI impI)
  fix st :: "'a BaseStemmer_scheme"
  assume ok: "st_ok st"
  from assms(1) ok obtain b c where f: "f st = Inr (b, st\<lparr>bs_cursor := c\<rparr>)" "bs_limit_backward st \<le> c" "c \<le> bs_cursor st" by (rule moves_bE)
  then have "st_ok (st\<lparr>bs_cursor := c\<rparr>)" using ok by (auto simp: st_ok_def)
  with assms(2) obtain b' c' where "g (st\<lparr>bs_cursor := c\<rparr>) = Inr (b', st\<lparr>bs_cursor := c\<rparr>\<lparr>bs_cursor := c'\<rparr>)"
      "bs_limit_backward st \<le> c'" "c' \<le> c"
    by (auto elim: moves_bE)
  then show "\<exists>b c. and_then f g st = Inr (b, st\<lparr>bs_cursor := c\<rparr>) \<and> bs_limit_backward st \<le> c \<and> c \<le> bs_cursor st"
    using f by (cases b) (auto simp: and_then_def intro!: exI)
qed

lemma or_else_b_moves:
  assumes "moves_b f" "moves_b g"
  shows "moves_b (or_else_b f g)"
  unfolding moves_b_def
proof (intro allI impI)
  fix st :: "'a BaseStemmer_scheme"
  assume ok: "st_ok st"
  from assms(1) ok obtain b c where "f st = Inr (b, st\<lparr>bs_cursor := c\<rparr>)" "bs_limit_backward st \<le> c" "c \<le> bs_cursor st" by (rule moves_bE)
  moreover from assms(2) ok obtain b' c' where "g st = Inr (b', st\<lparr>bs_cursor := c'\<rparr>)" "bs_limit_backward st \<le> c'" "c' \<le> bs_cursor st"
    by (rule moves_bE)
  ultimately show "\<exists>b c. or_else_b f g st = Inr (b, st\<lparr>bs_cursor := c\<rparr>) \<and> bs_limit_backward st \<le> c \<and> c \<le> bs_cursor st"
    by (cases b) (auto simp: or_else_b_def intro!: exI)
qed

text \<open>A search along the word with a test that stays where it fails.\<close>

lemma gopast_loop_moves:
  assumes "st_ok st" "nat (bs_limit st - bs_cursor st) < fuel"
  shows "\<exists>b c. gopast_loop fuel (test_forward P) st = Inr (b, st\<lparr>bs_cursor := c\<rparr>) \<and> bs_cursor st \<le> c \<and> c \<le> bs_limit st"
  using assms
proof (induction fuel arbitrary: st)
  case (Suc fuel)
  have le: "bs_cursor st \<le> bs_limit st" using Suc.prems(1) by (simp add: st_ok_def)
  from test_forward_cases [OF Suc.prems(1), of P] show ?case
  proof (elim disjE conjE)
    assume f: "test_forward P st = Inr (False, st)"
    show ?thesis
    proof (cases "bs_limit st \<le> bs_cursor st")
      case True
      then show ?thesis using f le by (auto intro!: exI [where x = "bs_cursor st"])
    next
      case False
      let ?st = "st\<lparr>bs_cursor := bs_cursor st + 1\<rparr>"
      have "st_ok ?st" using False Suc.prems(1) by (auto simp: st_ok_def)
      moreover have "nat (bs_limit ?st - bs_cursor ?st) < fuel" using False Suc.prems(2) by simp
      ultimately obtain b c where "gopast_loop fuel (test_forward P) ?st = Inr (b, st\<lparr>bs_cursor := c\<rparr>)" "bs_cursor st + 1 \<le> c" "c \<le> bs_limit st"
        using Suc.IH [of ?st] by auto
      then show ?thesis using f False by (intro exI [of _ b] exI [of _ c]) simp
    qed
  qed (auto intro!: exI)
qed simp

lemma gopast_b_loop_moves:
  assumes "st_ok st" "nat (bs_cursor st - bs_limit_backward st) < fuel"
  shows "\<exists>b c. gopast_b_loop fuel (test_backward P) st = Inr (b, st\<lparr>bs_cursor := c\<rparr>) \<and> bs_limit_backward st \<le> c \<and> c \<le> bs_cursor st"
  using assms
proof (induction fuel arbitrary: st)
  case (Suc fuel)
  have le: "bs_limit_backward st \<le> bs_cursor st" using Suc.prems(1) by (simp add: st_ok_def)
  from test_backward_cases [OF Suc.prems(1), of P] show ?case
  proof (elim disjE conjE)
    assume f: "test_backward P st = Inr (False, st)"
    show ?thesis
    proof (cases "bs_cursor st \<le> bs_limit_backward st")
      case True
      then show ?thesis using f le by (auto intro!: exI [where x = "bs_cursor st"])
    next
      case False
      let ?st = "st\<lparr>bs_cursor := bs_cursor st - 1\<rparr>"
      have "st_ok ?st" using False Suc.prems(1) by (auto simp: st_ok_def)
      moreover have "nat (bs_cursor ?st - bs_limit_backward ?st) < fuel" using False Suc.prems(2) by simp
      ultimately obtain b c where "gopast_b_loop fuel (test_backward P) ?st = Inr (b, st\<lparr>bs_cursor := c\<rparr>)" "bs_limit_backward st \<le> c" "c \<le> bs_cursor st - 1"
        using Suc.IH [of ?st] by auto
      then show ?thesis using f False by (intro exI [of _ b] exI [of _ c]) simp
    qed
  qed (auto intro!: exI)
qed simp

lemma gopast_moves: "moves (gopast (test_forward P))"
  unfolding moves_def gopast_def by (intro allI impI gopast_loop_moves) simp_all

lemma gopast_b_moves: "moves_b (gopast_b (test_backward P))"
  unfolding moves_b_def gopast_b_def by (intro allI impI gopast_b_loop_moves) simp_all

section \<open>What replacing keeps\<close>

lemma js_slice_start: "0 \<le> i \<Longrightarrow> i \<le> int (length s) \<Longrightarrow> js_slice s 0 i = take (nat i) s"
  by (simp add: js_slice_def slice_index_def min_def)

lemma slice_index_in: "0 \<le> i \<Longrightarrow> i \<le> int (length s) \<Longrightarrow> slice_index s i = nat i"
  by (auto simp: slice_index_def min_def)

definition spliced :: "jsstring \<Rightarrow> int \<Rightarrow> int \<Rightarrow> jsstring \<Rightarrow> jsstring" where
  "spliced cur br k s = take (nat br) cur @ s @ drop (nat k) cur"

lemma spliced_length: "0 \<le> br \<Longrightarrow> br \<le> k \<Longrightarrow> k \<le> int (length cur) \<Longrightarrow>
  int (length (spliced cur br k s)) = int (length cur) + int (length s) - (k - br)"
  by (auto simp: spliced_def)

lemma spliced_set: "set (spliced cur br k s) \<subseteq> set cur \<union> set s"
  unfolding spliced_def by (auto dest: in_set_takeD in_set_dropD)

lemma spliced_one: "0 \<le> br \<Longrightarrow> br < int (length cur) \<Longrightarrow> spliced cur br (br + 1) [x] = cur[nat br := x]"
  by (simp add: spliced_def upd_conv_take_nth_drop nat_add_distrib)

lemma replace_s_in:
  assumes "st_ok st" "0 \<le> br" "br \<le> k" "k \<le> bs_limit st"
  shows "replace_s br k s st = (int (length s) - (k - br), st\<lparr>bs_current := spliced (bs_current st) br k s,
      bs_limit := int (length (spliced (bs_current st) br k s)),
      bs_cursor := (if k \<le> bs_cursor st then bs_cursor st + (int (length s) - (k - br)) else if br < bs_cursor st then br else bs_cursor st)\<rparr>)"
proof -
  have k: "k \<le> int (length (bs_current st))" using assms by (simp add: st_ok_def)
  have "js_slice (bs_current st) 0 br @ s @ drop (slice_index (bs_current st) k) (bs_current st) = spliced (bs_current st) br k s"
    using assms k by (simp add: js_slice_start slice_index_in spliced_def)
  moreover have "bs_limit st + (int (length s) - (k - br)) = int (length (spliced (bs_current st) br k s))"
    using spliced_length [OF assms(2,3) k] assms(1) by (simp add: st_ok_def)
  ultimately show ?thesis unfolding replace_s_def Let_def by simp
qed

lemma slice_from_in:
  assumes "st_ok st" "slice_check st"
  shows "slice_from s st = (True, st\<lparr>bs_current := spliced (bs_current st) (bs_bra st) (bs_ket st) s,
      bs_limit := int (length (spliced (bs_current st) (bs_bra st) (bs_ket st) s)),
      bs_cursor := (if bs_ket st \<le> bs_cursor st then bs_cursor st + (int (length s) - (bs_ket st - bs_bra st))
        else if bs_bra st < bs_cursor st then bs_bra st else bs_cursor st)\<rparr>)"
proof -
  have "0 \<le> bs_bra st" "bs_bra st \<le> bs_ket st" "bs_ket st \<le> bs_limit st" using assms(2) by (auto simp: slice_check_def)
  from replace_s_in [OF assms(1) this] show ?thesis using assms(2) by (simp add: slice_from_def)
qed

lemma slice_from_one:
  assumes "st_ok st" "bs_cursor st \<le> bs_bra st" "bs_ket st = bs_bra st + 1" "bs_ket st \<le> bs_limit st"
  shows "slice_from [x] st = (True, st\<lparr>bs_current := (bs_current st)[nat (bs_bra st) := x]\<rparr>)"
proof -
  have "slice_check st" using assms by (auto simp: slice_check_def st_ok_def)
  moreover have "spliced (bs_current st) (bs_bra st) (bs_ket st) [x] = (bs_current st)[nat (bs_bra st) := x]"
    unfolding assms(3) using assms by (intro spliced_one) (auto simp: st_ok_def)
  moreover have "st\<lparr>bs_current := v, bs_limit := bs_limit st, bs_cursor := bs_cursor st\<rparr> = st\<lparr>bs_current := v\<rparr>" for v by simp
  ultimately show ?thesis using slice_from_in [OF assms(1), of "[x]"] assms by (simp add: st_ok_def)
qed

text \<open>
  The word after a step: at most as long, with characters of the old word and of \<^verbatim>\<open>A\<close>; the rest of
  the stemmer is as it was.
\<close>

definition keeps :: "nat set \<Rightarrow> 'a BaseStemmer_scheme \<Rightarrow> 'a BaseStemmer_scheme \<Rightarrow> bool" where
  "keeps A st st' \<longleftrightarrow> st_ok st' \<and> bs_limit_backward st' = 0 \<and> length (bs_current st') \<le> length (bs_current st)
    \<and> set (bs_current st') \<subseteq> set (bs_current st) \<union> A \<and> bs_cache st' = bs_cache st \<and> BaseStemmer.more st' = BaseStemmer.more st"

lemma keeps_trans: "keeps A st st' \<Longrightarrow> keeps A st' st'' \<Longrightarrow> keeps A st st''"
  unfolding keeps_def by auto

lemma slice_from_keeps:
  assumes "st_ok st" "bs_limit_backward st = 0" "set s \<subseteq> A" "s = [] \<or> int (length s) \<le> bs_ket st - bs_bra st"
  shows "keeps A st (snd (slice_from s st))"
proof (cases "slice_check st")
  case True
  then have r: "0 \<le> bs_bra st" "bs_bra st \<le> bs_ket st" "bs_ket st \<le> bs_limit st" by (auto simp: slice_check_def)
  then have "bs_ket st \<le> int (length (bs_current st))" using assms(1) by (simp add: st_ok_def)
  note l = spliced_length [OF r(1,2) this, of s]
  note s = spliced_set [of "bs_current st" "bs_bra st" "bs_ket st" s]
  have "int (length s) \<le> bs_ket st - bs_bra st" using assms(4) r(2) by auto
  then have "length (spliced (bs_current st) (bs_bra st) (bs_ket st) s) \<le> length (bs_current st)" using l by linarith
  then show ?thesis using slice_from_in [OF assms(1) True, of s] r assms(1-3) l s by (auto simp: keeps_def st_ok_def)
next
  case False
  then show ?thesis using assms(1,2) by (simp add: slice_from_def keeps_def)
qed

text \<open>
  A part that looks for a place: it succeeds where \<^verbatim>\<open>P\<close> holds and then has the slice around one
  character \<^verbatim>\<open>x\<close> at or after the cursor.
\<close>

definition seeks :: "(jsstring \<Rightarrow> int \<Rightarrow> bool) \<Rightarrow> nat \<Rightarrow> ('a BaseStemmer_scheme \<Rightarrow> (bool \<times> 'a BaseStemmer_scheme) js) \<Rightarrow> bool" where
  "seeks P x f \<longleftrightarrow> (\<forall>st. st_ok st \<longrightarrow> (\<exists>c br k. f st = Inr (P (bs_current st) (bs_cursor st), st\<lparr>bs_cursor := c, bs_bra := br, bs_ket := k\<rparr>)
    \<and> (P (bs_current st) (bs_cursor st) \<longrightarrow>
        bs_cursor st \<le> br \<and> k = br + 1 \<and> k \<le> bs_limit st \<and> bs_current st ! nat br = x)))"

definition found_at :: "(jsstring \<Rightarrow> int \<Rightarrow> bool) \<Rightarrow> nat \<Rightarrow> bool \<Rightarrow> 'a BaseStemmer_scheme \<Rightarrow> 'a BaseStemmer_scheme \<Rightarrow> bool" where
  "found_at P x b st st' \<longleftrightarrow> st_ok st' \<and> bs_cursor st \<le> bs_cursor st' \<and> bs_current st' = bs_current st \<and> bs_limit st' = bs_limit st
    \<and> (\<exists>c br k. st' = st\<lparr>bs_cursor := c, bs_bra := br, bs_ket := k\<rparr>)
    \<and> (\<forall>p. bs_cursor st \<le> p \<and> p < bs_cursor st' \<longrightarrow> \<not> P (bs_current st) p)
    \<and> (if b then bs_cursor st' \<le> bs_bra st' \<and> bs_ket st' = bs_bra st' + 1 \<and> bs_ket st' \<le> bs_limit st' \<and> bs_current st ! nat (bs_bra st') = x
       else \<forall>p. bs_cursor st \<le> p \<and> p \<le> bs_limit st \<longrightarrow> \<not> P (bs_current st) p)"

lemma int_all_step: "(\<forall>p. a \<le> p \<and> Q p \<longrightarrow> R p) \<longleftrightarrow> (Q a \<longrightarrow> R a) \<and> (\<forall>p. a + 1 \<le> p \<and> Q p \<longrightarrow> R p)" for a :: int
  by (metis add1_zle_eq order.order_iff_strict)

lemma goto_loop_finds:
  assumes "seeks P x f" "st_ok st" "nat (bs_limit st - bs_cursor st) < fuel"
  shows "\<exists>b st'. goto_loop fuel f st = Inr (b, st') \<and> found_at P x b st st'"
  using assms(2,3)
proof (induction fuel arbitrary: st)
  case (Suc fuel)
  obtain c br k where f: "f st = Inr (P (bs_current st) (bs_cursor st), st\<lparr>bs_cursor := c, bs_bra := br, bs_ket := k\<rparr>)"
    and found: "P (bs_current st) (bs_cursor st) \<Longrightarrow>
        bs_cursor st \<le> br \<and> k = br + 1 \<and> k \<le> bs_limit st \<and> bs_current st ! nat br = x"
    using assms(1) Suc.prems(1) unfolding seeks_def by blast
  define st1 where "st1 = st\<lparr>bs_cursor := bs_cursor st, bs_bra := br, bs_ket := k\<rparr>"
  have st1: "st_ok st1" "bs_current st1 = bs_current st" "bs_limit st1 = bs_limit st" "bs_cursor st1 = bs_cursor st"
    "bs_bra st1 = br" "bs_ket st1 = k"
    using Suc.prems(1) unfolding st1_def by (simp_all add: st_ok_def)
  have st1_ex: "\<exists>c br k. st1 = st\<lparr>bs_cursor := c, bs_bra := br, bs_ket := k\<rparr>" unfolding st1_def by blast
  have le: "bs_cursor st \<le> bs_limit st" using Suc.prems(1) by (simp add: st_ok_def)
  have r: "goto_loop (Suc fuel) f st = (if P (bs_current st) (bs_cursor st) then Inr (True, st1)
      else if bs_limit st \<le> bs_cursor st then Inr (False, st1) else goto_loop fuel f (st1\<lparr>bs_cursor := bs_cursor st + 1\<rparr>))"
    using f by (simp add: st1_def)
  show ?case
  proof (cases "P (bs_current st) (bs_cursor st)")
    case True
    then have "found_at P x True st st1" using st1 st1_ex found by (auto simp: found_at_def)
    then show ?thesis using r True by auto
  next
    case np: False
    show ?thesis
    proof (cases "bs_limit st \<le> bs_cursor st")
      case True
      then have "\<forall>p. bs_cursor st \<le> p \<and> p \<le> bs_limit st \<longrightarrow> p = bs_cursor st" by auto
      then have "found_at P x False st st1" using st1 st1_ex np by (auto simp: found_at_def)
      then show ?thesis using r np True by auto
    next
      case False
      let ?st = "st1\<lparr>bs_cursor := bs_cursor st + 1\<rparr>"
      have "st_ok ?st" using False st1(1,3) le by (auto simp: st_ok_def st1_def)
      moreover have "nat (bs_limit ?st - bs_cursor ?st) < fuel" using False Suc.prems(2) st1(3) by simp
      ultimately obtain b st' where st': "goto_loop fuel f ?st = Inr (b, st')" "found_at P x b ?st st'" using Suc.IH [of ?st] by blast
      then have "found_at P x b st st'" using np unfolding found_at_def st1_def int_all_step [where a = "bs_cursor st"] by auto
      then show ?thesis using r np False st'(1) by auto
    qed
  qed
qed simp

lemma goto_place_finds:
  assumes "seeks P x f" "st_ok st"
  shows "\<exists>b st'. goto_place f st = Inr (b, st') \<and> found_at P x b st st'"
  unfolding goto_place_def by (rule goto_loop_finds [OF assms]) simp

lemma js_slice_one: "0 \<le> i \<Longrightarrow> i < int (length s) \<Longrightarrow> js_slice s i (i + 1) = [s ! nat i]"
  by (simp add: js_slice_def slice_index_in nat_add_distrib take_Suc_conv_app_nth hd_drop_conv_nth take_Suc Suc_le_eq)

lemma eq_s_one:
  assumes "st_ok st"
  shows "eq_s 1 [x] st = (if bs_cursor st < bs_limit st \<and> bs_current st ! nat (bs_cursor st) = x
    then (True, st\<lparr>bs_cursor := bs_cursor st + 1\<rparr>) else (False, st))"
  using assms js_slice_one [of "bs_cursor st" "bs_current st"] by (auto simp: eq_s_def st_ok_def)

text \<open>Replacing the character found.\<close>

lemma found_replace:
  assumes "found_at P x True st st'" "st_ok st" "x \<noteq> y"
  shows "\<exists>i. slice_from [y] st' = (True, st'\<lparr>bs_current := (bs_current st)[i := y]\<rparr>) \<and> i < length (bs_current st) \<and> bs_current st ! i = x
    \<and> bs_cursor st' \<le> int i \<and> count_list ((bs_current st)[i := y]) x < count_list (bs_current st) x"
proof -
  have f: "st_ok st'" "bs_cursor st' \<le> bs_bra st'" "bs_ket st' = bs_bra st' + 1" "bs_ket st' \<le> bs_limit st'" "bs_current st ! nat (bs_bra st') = x"
    "bs_current st' = bs_current st"
    using assms(1) by (auto simp: found_at_def)
  let ?i = "nat (bs_bra st')"
  have i: "?i < length (bs_current st)" "bs_cursor st' \<le> int ?i" using f by (auto simp: st_ok_def)
  have cur: "bs_current st = take ?i (bs_current st) @ x # drop (Suc ?i) (bs_current st)" using id_take_nth_drop [OF i(1)] f(5) by simp
  have "count_list (bs_current st) x = count_list (take ?i (bs_current st)) x + Suc (count_list (drop (Suc ?i) (bs_current st)) x)"
    using arg_cong [OF cur, of "\<lambda>s. count_list s x"] by simp
  moreover have "count_list ((bs_current st)[?i := y]) x = count_list (take ?i (bs_current st)) x + count_list (drop (Suc ?i) (bs_current st)) x"
    using i(1) assms(3) by (simp add: upd_conv_take_nth_drop)
  ultimately show ?thesis using slice_from_one [OF f(1-4), of y] i f(5,6) by (intro exI [of _ ?i]) simp
qed

lemma seeksI:
  assumes "\<And>st. st_ok st \<Longrightarrow> P (bs_current st) (bs_cursor st) \<Longrightarrow>
      f st = Inr (True, st\<lparr>bs_cursor := C st, bs_bra := B st, bs_ket := B st + 1\<rparr>)
        \<and> bs_cursor st \<le> B st \<and> B st + 1 \<le> bs_limit st \<and> bs_current st ! nat (B st) = x"
    and "\<And>st. st_ok st \<Longrightarrow> \<not> P (bs_current st) (bs_cursor st) \<Longrightarrow>
      \<exists>c br k. f st = Inr (False, st\<lparr>bs_cursor := c, bs_bra := br, bs_ket := k\<rparr>)"
  shows "seeks P x f"
  unfolding seeks_def
proof (intro allI impI)
  fix st :: "'a BaseStemmer_scheme"
  assume ok: "st_ok st"
  show "\<exists>c br k. f st = Inr (P (bs_current st) (bs_cursor st), st\<lparr>bs_cursor := c, bs_bra := br, bs_ket := k\<rparr>)
    \<and> (P (bs_current st) (bs_cursor st) \<longrightarrow> bs_cursor st \<le> br \<and> k = br + 1 \<and> k \<le> bs_limit st \<and> bs_current st ! nat br = x)"
  proof (cases "P (bs_current st) (bs_cursor st)")
    case True
    show ?thesis using assms(1) [OF ok True] True by (intro exI [of _ "C st"] exI [of _ "B st"] exI [of _ "B st + 1"]) simp
  next
    case False
    then show ?thesis using assms(2) [OF ok False] by simp
  qed
qed

lemma st_ok_bra [simp]: "st_ok (st\<lparr>bs_bra := n\<rparr>) \<longleftrightarrow> st_ok st" "st_ok (st\<lparr>bs_ket := n\<rparr>) \<longleftrightarrow> st_ok st"
  by (simp_all add: st_ok_def)

lemma all_same: "st = st\<lparr>bs_cursor := bs_cursor st, bs_bra := bs_bra st, bs_ket := bs_ket st\<rparr>"
  by simp

lemma longest_entry_in: "longest_entry key v t = Some w \<Longrightarrow> w \<in> set v \<and> length (key w) \<le> length t"
  using longest_entry_is [of key t v] lcp_le(2) [of "key w" t] by (simp add: is_longest_def starts_with_lcp)

lemma find_among_cases:
  assumes "st_ok st" "table_ok am_s v"
  shows "find_among v (length v) st = Inr (0, st) \<or>
    (\<exists>w \<in> set v. find_among v (length v) st = Inr (am_result w, st\<lparr>bs_cursor := bs_cursor st + int (length (am_s w))\<rparr>)
      \<and> bs_cursor st + int (length (am_s w)) \<le> bs_limit st)"
proof (cases "longest_entry am_s v (ahead st)")
  case None
  then show ?thesis using find_among_longest [OF assms] by simp
next
  case (Some w)
  show ?thesis using find_among_longest [OF assms] longest_entry_in [OF Some] ahead_length [OF assms(1)]
    unfolding Some by (intro disjI2 bexI [of _ w]) auto
qed

lemma find_among_b_cases:
  assumes "st_ok st" "table_ok rev_key v"
  shows "find_among_b v (length v) st = Inr (0, st) \<or>
    (\<exists>w \<in> set v. find_among_b v (length v) st = Inr (am_result w, st\<lparr>bs_cursor := bs_cursor st - int (length (am_s w))\<rparr>)
      \<and> int (length (am_s w)) \<le> bs_cursor st - bs_limit_backward st)"
proof (cases "longest_entry rev_key v (behind st)")
  case None
  then show ?thesis using find_among_b_longest [OF assms] by simp
next
  case (Some w)
  show ?thesis using find_among_b_longest [OF assms] longest_entry_in [OF Some] behind_length [OF assms(1)]
    unfolding Some by (intro disjI2 bexI [of _ w]) auto
qed

lemma find_among_moves:
  assumes "st_ok st" "table_ok am_s v"
  shows "\<exists>r c. find_among v (length v) st = Inr (r, st\<lparr>bs_cursor := c\<rparr>) \<and> bs_cursor st \<le> c \<and> c \<le> bs_limit st"
proof -
  have le: "bs_cursor st \<le> bs_limit st" using assms(1) by (simp add: st_ok_def)
  from find_among_cases [OF assms] show ?thesis
  proof (elim disjE bexE conjE)
    assume "find_among v (length v) st = Inr (0, st)"
    then show ?thesis using le by (intro exI [of _ 0] exI [of _ "bs_cursor st"]) simp
  next
    fix w
    assume "find_among v (length v) st = Inr (am_result w, st\<lparr>bs_cursor := bs_cursor st + int (length (am_s w))\<rparr>)"
      "bs_cursor st + int (length (am_s w)) \<le> bs_limit st"
    then show ?thesis by (intro exI conjI) auto
  qed
qed

text \<open>A step returns, and keeps what is to be kept.\<close>

definition returns :: "nat set \<Rightarrow> 'a BaseStemmer_scheme \<Rightarrow> (bool \<times> 'a BaseStemmer_scheme) js \<Rightarrow> bool" where
  "returns A st r \<longleftrightarrow> (\<exists>b st'. r = Inr (b, st') \<and> keeps A st st')"

lemma keeps_moved [simp]:
  "keeps A (st\<lparr>bs_cursor := n\<rparr>) st' \<longleftrightarrow> keeps A st st'"
  "keeps A (st\<lparr>bs_bra := n\<rparr>) st' \<longleftrightarrow> keeps A st st'"
  "keeps A (st\<lparr>bs_ket := n\<rparr>) st' \<longleftrightarrow> keeps A st st'"
  "keeps A st (st'\<lparr>bs_bra := n\<rparr>) \<longleftrightarrow> keeps A st st'"
  "keeps A st (st'\<lparr>bs_ket := n\<rparr>) \<longleftrightarrow> keeps A st st'"
  by (simp_all add: keeps_def st_ok_def)

lemma returns_moved [simp]:
  "returns A (st\<lparr>bs_cursor := n\<rparr>) r \<longleftrightarrow> returns A st r"
  "returns A (st\<lparr>bs_bra := n\<rparr>) r \<longleftrightarrow> returns A st r"
  "returns A (st\<lparr>bs_ket := n\<rparr>) r \<longleftrightarrow> returns A st r"
  by (simp_all add: returns_def)

lemma keeps_refl: "st_ok st \<Longrightarrow> bs_limit_backward st = 0 \<Longrightarrow> keeps A st st"
  by (simp add: keeps_def)

lemma returns_stay: "st_ok st \<Longrightarrow> bs_limit_backward st = 0 \<Longrightarrow> returns A st (Inr (b, st))"
  by (simp add: returns_def keeps_refl)

lemma returns_slice:
  assumes "st_ok st" "bs_limit_backward st = 0" "set s \<subseteq> A" "s = [] \<or> int (length s) \<le> bs_ket st - bs_bra st"
  shows "returns A st (Inr (slice_from s st))"
  using slice_from_keeps [OF assms] by (cases "slice_from s st") (auto simp: returns_def)

lemma returns_and_then:
  assumes "moves_b f" "st_ok st" "bs_limit_backward st = 0"
    and "\<And>c. 0 \<le> c \<Longrightarrow> c \<le> bs_cursor st \<Longrightarrow> st_ok (st\<lparr>bs_cursor := c\<rparr>) \<Longrightarrow> returns A (st\<lparr>bs_cursor := c\<rparr>) (g (st\<lparr>bs_cursor := c\<rparr>))"
  shows "returns A st (and_then f g st)"
proof -
  from assms(1,2) obtain b c where f: "f st = Inr (b, st\<lparr>bs_cursor := c\<rparr>)" "bs_limit_backward st \<le> c" "c \<le> bs_cursor st" by (rule moves_bE)
  then have ok: "st_ok (st\<lparr>bs_cursor := c\<rparr>)" using assms(2) by (auto simp: st_ok_def)
  show ?thesis
  proof (cases b)
    case True
    then show ?thesis using f assms(3) assms(4) [OF _ _ ok] by (simp add: and_then_def)
  next
    case False
    then show ?thesis using f(1) returns_stay [OF ok, of A False] assms(3) by (simp add: and_then_def)
  qed
qed

lemma returns_attempt:
  assumes "returns A st (f st)" "bs_cursor st = 0"
  shows "\<exists>st'. attempt f st = Inr st' \<and> keeps A st st' \<and> bs_cursor st' = 0"
  using assms by (auto simp: returns_def attempt_def keeps_def st_ok_def)

lemma returns_attempt_b:
  assumes "returns A st (f st)" "bs_cursor st = bs_limit st"
  shows "\<exists>st'. attempt_b f st = Inr st' \<and> keeps A st st' \<and> bs_cursor st' = bs_limit st'"
  using assms by (auto simp: returns_def attempt_b_def keeps_def st_ok_def)

end
