(* ===== verification/English_Stemmer.thy ===== *)
theory English_Stemmer
  imports Stemmer
begin

text \<open>
  The class \<^verbatim>\<open>EnglishStemmer\<close>, the Porter2 stemmer as the Snowball compiler generates it: tables of
  endings and exceptions, the marking of consonant \<^verbatim>\<open>y\<close>, the regions R1 and R2, and the steps that
  remove or replace endings.  Each routine is one definition; labelled loops that run once are the
  branches they stand for.
\<close>

section \<open>Tables\<close>

definition a_0 :: "Among list" where
  "a_0 = [Among_new ''arsen'' (- 1) (- 1), Among_new ''commun'' (- 1) (- 1), Among_new ''gener'' (- 1) (- 1)]"

definition a_1 :: "Among list" where
  "a_1 = [Among_new [CHR 0x27] (- 1) 1, Among_new [CHR 0x27, CHR ''s'', CHR 0x27] 0 1, Among_new [CHR 0x27, CHR ''s''] (- 1) 1]"

definition a_2 :: "Among list" where
  "a_2 = [Among_new ''ied'' (- 1) 2, Among_new ''s'' (- 1) 3, Among_new ''ies'' 1 2, Among_new ''sses'' 1 1,
    Among_new ''ss'' 1 (- 1), Among_new ''us'' 1 (- 1)]"

definition a_3 :: "Among list" where
  "a_3 = [Among_new [] (- 1) 3, Among_new ''bb'' 0 2, Among_new ''dd'' 0 2, Among_new ''ff'' 0 2, Among_new ''gg'' 0 2,
    Among_new ''bl'' 0 1, Among_new ''mm'' 0 2, Among_new ''nn'' 0 2, Among_new ''pp'' 0 2, Among_new ''rr'' 0 2,
    Among_new ''at'' 0 1, Among_new ''tt'' 0 2, Among_new ''iz'' 0 1]"

definition a_4 :: "Among list" where
  "a_4 = [Among_new ''ed'' (- 1) 2, Among_new ''eed'' 0 1, Among_new ''ing'' (- 1) 2, Among_new ''edly'' (- 1) 2,
    Among_new ''eedly'' 3 1, Among_new ''ingly'' (- 1) 2]"

definition a_5 :: "Among list" where
  "a_5 = [Among_new ''anci'' (- 1) 3, Among_new ''enci'' (- 1) 2, Among_new ''ogi'' (- 1) 13, Among_new ''li'' (- 1) 16,
    Among_new ''bli'' 3 12, Among_new ''abli'' 4 4, Among_new ''alli'' 3 8, Among_new ''fulli'' 3 14, Among_new ''lessli'' 3 15,
    Among_new ''ousli'' 3 10, Among_new ''entli'' 3 5, Among_new ''aliti'' (- 1) 8, Among_new ''biliti'' (- 1) 12,
    Among_new ''iviti'' (- 1) 11, Among_new ''tional'' (- 1) 1, Among_new ''ational'' 14 7, Among_new ''alism'' (- 1) 8,
    Among_new ''ation'' (- 1) 7, Among_new ''ization'' 17 6, Among_new ''izer'' (- 1) 6, Among_new ''ator'' (- 1) 7,
    Among_new ''iveness'' (- 1) 11, Among_new ''fulness'' (- 1) 9, Among_new ''ousness'' (- 1) 10]"

definition a_6 :: "Among list" where
  "a_6 = [Among_new ''icate'' (- 1) 4, Among_new ''ative'' (- 1) 6, Among_new ''alize'' (- 1) 3, Among_new ''iciti'' (- 1) 4,
    Among_new ''ical'' (- 1) 4, Among_new ''tional'' (- 1) 1, Among_new ''ational'' 5 2, Among_new ''ful'' (- 1) 5,
    Among_new ''ness'' (- 1) 5]"

definition a_7 :: "Among list" where
  "a_7 = [Among_new ''ic'' (- 1) 1, Among_new ''ance'' (- 1) 1, Among_new ''ence'' (- 1) 1, Among_new ''able'' (- 1) 1,
    Among_new ''ible'' (- 1) 1, Among_new ''ate'' (- 1) 1, Among_new ''ive'' (- 1) 1, Among_new ''ize'' (- 1) 1,
    Among_new ''iti'' (- 1) 1, Among_new ''al'' (- 1) 1, Among_new ''ism'' (- 1) 1, Among_new ''ion'' (- 1) 2,
    Among_new ''er'' (- 1) 1, Among_new ''ous'' (- 1) 1, Among_new ''ant'' (- 1) 1, Among_new ''ent'' (- 1) 1,
    Among_new ''ment'' 15 1, Among_new ''ement'' 16 1]"

definition a_8 :: "Among list" where
  "a_8 = [Among_new ''e'' (- 1) 1, Among_new ''l'' (- 1) 2]"

definition a_9 :: "Among list" where
  "a_9 = [Among_new ''succeed'' (- 1) (- 1), Among_new ''proceed'' (- 1) (- 1), Among_new ''exceed'' (- 1) (- 1),
    Among_new ''canning'' (- 1) (- 1), Among_new ''inning'' (- 1) (- 1), Among_new ''earring'' (- 1) (- 1),
    Among_new ''herring'' (- 1) (- 1), Among_new ''outing'' (- 1) (- 1)]"

definition a_10 :: "Among list" where
  "a_10 = [Among_new ''andes'' (- 1) (- 1), Among_new ''atlas'' (- 1) (- 1), Among_new ''bias'' (- 1) (- 1),
    Among_new ''cosmos'' (- 1) (- 1), Among_new ''dying'' (- 1) 3, Among_new ''early'' (- 1) 9, Among_new ''gently'' (- 1) 7,
    Among_new ''howe'' (- 1) (- 1), Among_new ''idly'' (- 1) 6, Among_new ''lying'' (- 1) 4, Among_new ''news'' (- 1) (- 1),
    Among_new ''only'' (- 1) 10, Among_new ''singly'' (- 1) 11, Among_new ''skies'' (- 1) 2, Among_new ''skis'' (- 1) 1,
    Among_new ''sky'' (- 1) (- 1), Among_new ''tying'' (- 1) 5, Among_new ''ugly'' (- 1) 8]"

definition g_v :: "nat list" where
  "g_v = [17, 65, 16, 1]"

definition g_v_WXY :: "nat list" where
  "g_v_WXY = [1, 17, 65, 208, 1]"

definition g_valid_LI :: "nat list" where
  "g_valid_LI = [55, 141, 2]"

section \<open>The stemmer\<close>

record EnglishStemmer = BaseStemmer +
  en_Y_found :: bool
  en_p2 :: int
  en_p1 :: int

definition EnglishStemmer_new :: EnglishStemmer where
  "EnglishStemmer_new = BaseStemmer.extend BaseStemmer_new (EnglishStemmer.fields False 0 0)"

definition EnglishStemmer_copy_from :: "EnglishStemmer \<Rightarrow> EnglishStemmer \<Rightarrow> EnglishStemmer" where
  "EnglishStemmer_copy_from other st =
    BaseStemmer_copy_from other (st\<lparr>en_Y_found := en_Y_found other, en_p2 := en_p2 other, en_p1 := en_p1 other\<rparr>)"

text \<open>The hash of the class, with the wrap-around of 32-bit integers.\<close>

definition EnglishStemmer_hashCode :: int where
  "EnglishStemmer_hashCode =
    foldl (\<lambda>hash ch. signed_take_bit 31 (signed_take_bit 31 (push_bit 5 hash) - hash + int ch)) 0 (js_lit ''EnglishStemmer'')"

type_synonym routine = "EnglishStemmer \<Rightarrow> (bool \<times> EnglishStemmer) js"

definition vowel :: routine where
  "vowel = in_grouping g_v 97 121"

definition non_vowel :: routine where
  "non_vowel = out_grouping g_v 97 121"

definition vowel_b :: routine where
  "vowel_b = in_grouping_b g_v 97 121"

definition non_vowel_b :: routine where
  "non_vowel_b = out_grouping_b g_v 97 121"

text \<open>A vowel followed by \<^verbatim>\<open>y\<close>, with the slice set around the \<^verbatim>\<open>y\<close>.\<close>

definition find_vowel_y :: routine where
  "find_vowel_y = and_then vowel (\<lambda>st.
    let (b, st) = eq_s 1 (js_lit ''y'') (st\<lparr>bs_bra := bs_cursor st\<rparr>)
    in Inr (if b then (True, st\<lparr>bs_ket := bs_cursor st\<rparr>) else (False, st)))"

text \<open>Every round turns a \<^verbatim>\<open>y\<close> into \<^verbatim>\<open>Y\<close>, so the length of the word is fuel enough.\<close>

fun mark_y :: "nat \<Rightarrow> routine" where
  "mark_y 0 st = Inl Diverge"
| "mark_y (Suc fuel) st =
    js_bind (goto_place find_vowel_y st) (\<lambda>(b, st').
      if \<not> b then Inr (True, st'\<lparr>bs_cursor := bs_cursor st\<rparr>)
      else
        (let (b, st') = slice_from (js_lit ''Y'') st'
         in if \<not> b then Inr (False, st') else mark_y fuel (st'\<lparr>en_Y_found := True\<rparr>)))"

definition r_prelude :: routine where
  "r_prelude st =
    (let v_1 = bs_cursor st;
         (b, st) = eq_s 1 [39] (st\<lparr>en_Y_found := False, bs_bra := v_1\<rparr>);
         (ok, st) = (if b then slice_from [] (st\<lparr>bs_ket := bs_cursor st\<rparr>) else (True, st))
     in if \<not> ok then Inr (False, st)
        else
          (let st = st\<lparr>bs_cursor := v_1\<rparr>;
               (b, st) = eq_s 1 (js_lit ''y'') (st\<lparr>bs_bra := bs_cursor st\<rparr>);
               (ok, st) = (if b then slice_from (js_lit ''Y'') (st\<lparr>bs_ket := bs_cursor st\<rparr>) else (True, st))
           in if \<not> ok then Inr (False, st)
              else
                (let st = (if b then st\<lparr>en_Y_found := True\<rparr> else st); st = st\<lparr>bs_cursor := v_1\<rparr>
                 in js_bind (mark_y (length (bs_current st) + 1) st) (\<lambda>(ok, st).
                      if \<not> ok then Inr (False, st) else Inr (True, st\<lparr>bs_cursor := v_1\<rparr>)))))"

definition r_mark_regions :: routine where
  "r_mark_regions st =
    (let v_1 = bs_cursor st; st = st\<lparr>en_p1 := bs_limit st, en_p2 := bs_limit st\<rparr>;
         finish = (\<lambda>st. Inr (True, st\<lparr>bs_cursor := v_1\<rparr>))
     in js_bind (find_among a_0 3 st) (\<lambda>(among_var, st).
        js_bind (if among_var = 0 then and_then (gopast vowel) (gopast non_vowel) (st\<lparr>bs_cursor := v_1\<rparr>) else Inr (True, st)) (\<lambda>(b, st).
          if \<not> b then finish st
          else
            js_bind (and_then (gopast vowel) (gopast non_vowel) (st\<lparr>en_p1 := bs_cursor st\<rparr>)) (\<lambda>(b, st).
              if \<not> b then finish st else finish (st\<lparr>en_p2 := bs_cursor st\<rparr>)))))"

definition r_shortv :: routine where
  "r_shortv = or_else_b
     (and_then (out_grouping_b g_v_WXY 89 121) (and_then vowel_b non_vowel_b))
     (and_then non_vowel_b (and_then vowel_b (\<lambda>st. Inr (bs_cursor st \<le> bs_limit_backward st, st))))"

definition r_R1 :: "EnglishStemmer \<Rightarrow> bool" where
  "r_R1 st \<longleftrightarrow> en_p1 st \<le> bs_cursor st"

definition r_R2 :: "EnglishStemmer \<Rightarrow> bool" where
  "r_R2 st \<longleftrightarrow> en_p2 st \<le> bs_cursor st"

text \<open>Looking up an ending: the slice is set around it.\<close>

definition find_ending :: "Among list \<Rightarrow> nat \<Rightarrow> EnglishStemmer \<Rightarrow> (int \<times> EnglishStemmer) js" where
  "find_ending v v_size st =
    js_bind (find_among_b v v_size (st\<lparr>bs_ket := bs_cursor st\<rparr>)) (\<lambda>(among_var, st).
      Inr (among_var, if among_var = 0 then st else st\<lparr>bs_bra := bs_cursor st\<rparr>))"

definition step_1a_ending :: routine where
  "step_1a_ending st =
    js_bind (find_ending a_2 6 st) (\<lambda>(among_var, st).
      if among_var = 0 then Inr (False, st)
      else if among_var = 1 then Inr (slice_from (js_lit ''ss'') st)
      else if among_var = 2 then
        (let c = bs_cursor st - 2 in
         if bs_limit_backward st > c \<or> c > bs_limit st then Inr (slice_from (js_lit ''ie'') st)
         else Inr (slice_from (js_lit ''i'') (st\<lparr>bs_cursor := c\<rparr>)))
      else if among_var = 3 then
        (if bs_cursor st \<le> bs_limit_backward st then Inr (False, st)
         else and_then (gopast_b vowel_b) (\<lambda>st. Inr (slice_from [] st)) (st\<lparr>bs_cursor := bs_cursor st - 1\<rparr>))
      else Inr (True, st))"

definition r_Step_1a :: routine where
  "r_Step_1a st =
    js_bind (find_ending a_1 3 st) (\<lambda>(among_var, st').
      let (ok, st') = (if among_var = 0 then (True, st'\<lparr>bs_cursor := bs_limit st' - (bs_limit st - bs_cursor st)\<rparr>)
                       else if among_var = 1 then slice_from [] st' else (True, st'))
      in if \<not> ok then Inr (False, st') else step_1a_ending st')"

definition step_1b_repair :: routine where
  "step_1b_repair st =
    js_bind (find_among_b a_3 13 st) (\<lambda>(among_var, st').
      if among_var = 0 then Inr (False, st')
      else
        (let st = st'\<lparr>bs_cursor := bs_limit st' - (bs_limit st - bs_cursor st)\<rparr>; c = bs_cursor st in
         if among_var = 1 then Inr (True, (insert_s c c (js_lit ''e'') st)\<lparr>bs_cursor := c\<rparr>)
         else if among_var = 2 then
           (let st = st\<lparr>bs_ket := c\<rparr> in
            if c \<le> bs_limit_backward st then Inr (False, st)
            else Inr (slice_from [] (st\<lparr>bs_cursor := c - 1, bs_bra := c - 1\<rparr>)))
         else if among_var = 3 then
           (if c \<noteq> en_p1 st then Inr (False, st)
            else
              js_bind (r_shortv st) (\<lambda>(b, st').
                if \<not> b then Inr (False, st')
                else
                  (let c = bs_limit st' - (bs_limit st - bs_cursor st)
                   in Inr (True, (insert_s c c (js_lit ''e'') (st'\<lparr>bs_cursor := c\<rparr>))\<lparr>bs_cursor := c\<rparr>))))
         else Inr (True, st)))"

definition r_Step_1b :: routine where
  "r_Step_1b st =
    js_bind (find_ending a_4 6 st) (\<lambda>(among_var, st).
      if among_var = 0 then Inr (False, st)
      else if among_var = 1 then (if \<not> r_R1 st then Inr (False, st) else Inr (slice_from (js_lit ''ee'') st))
      else if among_var = 2 then
        js_bind (gopast_b vowel_b st) (\<lambda>(b, st').
          if \<not> b then Inr (False, st')
          else
            (let (ok, st) = slice_from [] (st'\<lparr>bs_cursor := bs_limit st' - (bs_limit st - bs_cursor st)\<rparr>)
             in if \<not> ok then Inr (False, st) else step_1b_repair st))
      else Inr (True, st))"

definition r_Step_1c :: routine where
  "r_Step_1c st =
    js_bind (or_else_b (\<lambda>st. Inr (eq_s_b 1 (js_lit ''y'') st)) (\<lambda>st. Inr (eq_s_b 1 (js_lit ''Y'') st)) (st\<lparr>bs_ket := bs_cursor st\<rparr>)) (\<lambda>(b, st).
      if \<not> b then Inr (False, st)
      else
        js_bind (non_vowel_b (st\<lparr>bs_bra := bs_cursor st\<rparr>)) (\<lambda>(b, st).
          if \<not> b \<or> \<not> bs_limit_backward st < bs_cursor st then Inr (False, st)
          else Inr (slice_from (js_lit ''i'') st)))"

text \<open>The replacements of steps 2 and 3 and of the exceptions, by the number of the entry.\<close>

definition step_2_endings :: "jsstring list" where
  "step_2_endings = map js_lit [''tion'', ''ence'', ''ance'', ''able'', ''ent'', ''ize'', ''ate'', ''al'', ''ful'', ''ous'', ''ive'', ''ble'']"

definition r_Step_2 :: routine where
  "r_Step_2 st =
    js_bind (find_ending a_5 24 st) (\<lambda>(among_var, st).
      if among_var = 0 \<or> \<not> r_R1 st then Inr (False, st)
      else if 1 \<le> among_var \<and> among_var \<le> 12 then Inr (slice_from (step_2_endings ! nat (among_var - 1)) st)
      else if among_var = 13 then
        (let (b, st) = eq_s_b 1 (js_lit ''l'') st in Inr (if \<not> b then (False, st) else slice_from (js_lit ''og'') st))
      else if among_var = 14 then Inr (slice_from (js_lit ''ful'') st)
      else if among_var = 15 then Inr (slice_from (js_lit ''less'') st)
      else if among_var = 16 then and_then (in_grouping_b g_valid_LI 99 116) (\<lambda>st. Inr (slice_from [] st)) st
      else Inr (True, st))"

definition step_3_endings :: "jsstring list" where
  "step_3_endings = map js_lit [''tion'', ''ate'', ''al'', ''ic'', []]"

definition r_Step_3 :: routine where
  "r_Step_3 st =
    js_bind (find_ending a_6 9 st) (\<lambda>(among_var, st).
      if among_var = 0 \<or> \<not> r_R1 st then Inr (False, st)
      else if 1 \<le> among_var \<and> among_var \<le> 5 then Inr (slice_from (step_3_endings ! nat (among_var - 1)) st)
      else if among_var = 6 then (if \<not> r_R2 st then Inr (False, st) else Inr (slice_from [] st))
      else Inr (True, st))"

definition r_Step_4 :: routine where
  "r_Step_4 st =
    js_bind (find_ending a_7 18 st) (\<lambda>(among_var, st).
      if among_var = 0 \<or> \<not> r_R2 st then Inr (False, st)
      else if among_var = 1 then Inr (slice_from [] st)
      else if among_var = 2 then
        and_then (or_else_b (\<lambda>st. Inr (eq_s_b 1 (js_lit ''s'') st)) (\<lambda>st. Inr (eq_s_b 1 (js_lit ''t'') st))) (\<lambda>st. Inr (slice_from [] st)) st
      else Inr (True, st))"

definition r_Step_5 :: routine where
  "r_Step_5 st =
    js_bind (find_ending a_8 2 st) (\<lambda>(among_var, st).
      if among_var = 0 then Inr (False, st)
      else if among_var = 1 then
        (if r_R2 st then Inr (slice_from [] st)
         else if \<not> r_R1 st then Inr (False, st)
         else
           js_bind (r_shortv st) (\<lambda>(b, st').
             if b then Inr (False, st')
             else Inr (slice_from [] (st'\<lparr>bs_cursor := bs_limit st' - (bs_limit st - bs_cursor st)\<rparr>))))
      else if among_var = 2 then
        (if \<not> r_R2 st then Inr (False, st)
         else (let (b, st) = eq_s_b 1 (js_lit ''l'') st in Inr (if \<not> b then (False, st) else slice_from [] st)))
      else Inr (True, st))"

definition r_exception2 :: routine where
  "r_exception2 st =
    js_bind (find_ending a_9 8 st) (\<lambda>(among_var, st).
      Inr (among_var \<noteq> 0 \<and> bs_cursor st \<le> bs_limit_backward st, st))"

definition exception_words :: "jsstring list" where
  "exception_words = map js_lit [''ski'', ''sky'', ''die'', ''lie'', ''tie'', ''idl'', ''gentl'', ''ugli'', ''earli'', ''onli'', ''singl'']"

definition r_exception1 :: routine where
  "r_exception1 st =
    js_bind (find_among a_10 18 (st\<lparr>bs_bra := bs_cursor st\<rparr>)) (\<lambda>(among_var, st).
      if among_var = 0 then Inr (False, st)
      else
        (let st = st\<lparr>bs_ket := bs_cursor st\<rparr> in
         if bs_cursor st < bs_limit st then Inr (False, st)
         else if 1 \<le> among_var \<and> among_var \<le> 11 then Inr (slice_from (exception_words ! nat (among_var - 1)) st)
         else Inr (True, st)))"

definition find_Y :: routine where
  "find_Y st =
    (let (b, st) = eq_s 1 (js_lit ''Y'') (st\<lparr>bs_bra := bs_cursor st\<rparr>)
     in Inr (if b then (True, st\<lparr>bs_ket := bs_cursor st\<rparr>) else (False, st)))"

fun unmark_y :: "nat \<Rightarrow> routine" where
  "unmark_y 0 st = Inl Diverge"
| "unmark_y (Suc fuel) st =
    js_bind (goto_place find_Y st) (\<lambda>(b, st').
      if \<not> b then Inr (True, st'\<lparr>bs_cursor := bs_cursor st\<rparr>)
      else (let (b, st') = slice_from (js_lit ''y'') st' in if \<not> b then Inr (False, st') else unmark_y fuel st'))"

definition r_postlude :: routine where
  "r_postlude st = (if \<not> en_Y_found st then Inr (False, st) else unmark_y (length (bs_current st) + 1) st)"

text \<open>The steps one after the other, each from the end of the word.\<close>

definition english_steps :: "EnglishStemmer \<Rightarrow> EnglishStemmer js" where
  "english_steps st =
    js_bind (attempt_b r_Step_1b st) (\<lambda>st.
    js_bind (attempt_b r_Step_1c st) (\<lambda>st.
    js_bind (attempt_b r_Step_2 st) (\<lambda>st.
    js_bind (attempt_b r_Step_3 st) (\<lambda>st.
    js_bind (attempt_b r_Step_4 st) (\<lambda>st.
    attempt_b r_Step_5 st)))))"

definition EnglishStemmer_stem :: routine where
  "EnglishStemmer_stem st =
    js_bind (r_exception1 st) (\<lambda>(b, st').
      if b then Inr (True, st')
      else
        (let v_1 = bs_cursor st; st = st'\<lparr>bs_cursor := v_1\<rparr>; c = v_1 + 3 in
         if 0 > c \<or> c > bs_limit st then Inr (True, st)
         else
           js_bind (attempt r_prelude st) (\<lambda>st.
           js_bind (attempt r_mark_regions st) (\<lambda>st.
           js_bind (attempt_b r_Step_1a (st\<lparr>bs_limit_backward := bs_cursor st, bs_cursor := bs_limit st\<rparr>)) (\<lambda>st.
           js_bind (r_exception2 st) (\<lambda>(b, st').
           js_bind
             (if b then Inr st' else english_steps (st'\<lparr>bs_cursor := bs_limit st' - (bs_limit st - bs_cursor st)\<rparr>)) (\<lambda>st.
           js_bind (attempt r_postlude (st\<lparr>bs_cursor := bs_limit_backward st\<rparr>)) (\<lambda>st. Inr (True, st)))))))))"

definition english_stem :: "jsstring \<Rightarrow> jsstring js" where
  "english_stem word = js_bind (stemWord EnglishStemmer_stem word EnglishStemmer_new) (\<lambda>(res, st). Inr res)"

section \<open>The tables are in order\<close>

lemmas table_simps = Among_new_def js_lit_def table_ok_def link_ok_def starts_with_def All_less_Suc

lemma a_0_ok: "table_ok am_s a_0"
  by (simp add: a_0_def table_simps)

lemma a_1_ok: "table_ok rev_key a_1"
  by (simp add: a_1_def table_simps)

lemma a_2_ok: "table_ok rev_key a_2"
  by (simp add: a_2_def table_simps)

lemma a_3_ok: "table_ok rev_key a_3"
  by (simp add: a_3_def table_simps)

lemma a_4_ok: "table_ok rev_key a_4"
  by (simp add: a_4_def table_simps)

lemma a_5_ok: "table_ok rev_key a_5"
  by (simp add: a_5_def table_simps)

lemma a_6_ok: "table_ok rev_key a_6"
  by (simp add: a_6_def table_simps)

lemma a_7_ok: "table_ok rev_key a_7"
  by (simp add: a_7_def table_simps)

lemma a_8_ok: "table_ok rev_key a_8"
  by (simp add: a_8_def table_simps)

lemma a_9_ok: "table_ok rev_key a_9"
  by (simp add: a_9_def table_simps)

lemma a_10_ok: "table_ok am_s a_10"
  by (simp add: a_10_def table_simps)


section \<open>Marking\<close>

abbreviation at_Y :: "jsstring \<Rightarrow> int \<Rightarrow> bool" where
  "at_Y s p \<equiv> p < int (length s) \<and> s ! nat p = 89"

abbreviation at_vowel_y :: "jsstring \<Rightarrow> int \<Rightarrow> bool" where
  "at_vowel_y s p \<equiv> p + 1 < int (length s) \<and> in_group g_v 97 121 (s ! nat p) \<and> s ! nat (p + 1) = 121"

lemma find_Y_eq:
  assumes "st_ok st"
  shows "find_Y st = Inr (if at_Y (bs_current st) (bs_cursor st)
    then (True, st\<lparr>bs_cursor := bs_cursor st + 1, bs_bra := bs_cursor st, bs_ket := bs_cursor st + 1\<rparr>)
    else (False, st\<lparr>bs_bra := bs_cursor st\<rparr>))"
  using assms eq_s_one [of "st\<lparr>bs_bra := bs_cursor st\<rparr>" 89] unfolding find_Y_def js_lit_def by (simp add: st_ok_def)

lemma find_Y_seeks: "seeks at_Y 89 find_Y"
proof (rule seeksI [where C = "\<lambda>st. bs_cursor st + 1" and B = bs_cursor])
  fix st :: EnglishStemmer
  assume ok: "st_ok st"
  then show "at_Y (bs_current st) (bs_cursor st) \<Longrightarrow> find_Y st = Inr (True, st\<lparr>bs_cursor := bs_cursor st + 1, bs_bra := bs_cursor st, bs_ket := bs_cursor st + 1\<rparr>)
      \<and> bs_cursor st \<le> bs_cursor st \<and> bs_cursor st + 1 \<le> bs_limit st \<and> bs_current st ! nat (bs_cursor st) = 89"
    using find_Y_eq [OF ok] by (simp add: st_ok_def)
  assume "\<not> at_Y (bs_current st) (bs_cursor st)"
  then have "find_Y st = Inr (False, st\<lparr>bs_cursor := bs_cursor st, bs_bra := bs_cursor st, bs_ket := bs_ket st\<rparr>)"
    using find_Y_eq [OF ok] by simp
  then show "\<exists>c br k. find_Y st = Inr (False, st\<lparr>bs_cursor := c, bs_bra := br, bs_ket := k\<rparr>)" by blast
qed

lemma find_vowel_y_eq:
  assumes "st_ok st"
  shows "find_vowel_y st = Inr (
    if bs_cursor st < bs_limit st \<and> in_group g_v 97 121 (bs_current st ! nat (bs_cursor st)) then
      (if at_vowel_y (bs_current st) (bs_cursor st)
       then (True, st\<lparr>bs_cursor := bs_cursor st + 2, bs_bra := bs_cursor st + 1, bs_ket := bs_cursor st + 2\<rparr>)
       else (False, st\<lparr>bs_cursor := bs_cursor st + 1, bs_bra := bs_cursor st + 1\<rparr>))
    else (False, st))"
proof (cases "bs_cursor st < bs_limit st \<and> in_group g_v 97 121 (bs_current st ! nat (bs_cursor st))")
  case True
  let ?st = "st\<lparr>bs_cursor := bs_cursor st + 1, bs_bra := bs_cursor st + 1\<rparr>"
  have ok: "st_ok ?st" using True assms by (simp add: st_ok_def)
  have "vowel st = Inr (True, st\<lparr>bs_cursor := bs_cursor st + 1\<rparr>)"
    using True assms by (simp add: vowel_def in_grouping_def test_forward_def char_code_in st_ok_def)
  then show ?thesis using True eq_s_one [OF ok, of 121] assms
    by (simp add: find_vowel_y_def and_then_def js_lit_def st_ok_def)
next
  case False
  then have "vowel st = Inr (False, st)"
    using assms by (auto simp add: vowel_def in_grouping_def test_forward_def char_code_in st_ok_def)
  then show ?thesis unfolding find_vowel_y_def and_then_def if_not_P [OF False] by simp
qed

lemma find_vowel_y_seeks: "seeks at_vowel_y 121 find_vowel_y"
proof (rule seeksI [where C = "\<lambda>st. bs_cursor st + 2" and B = "\<lambda>st. bs_cursor st + 1"])
  fix st :: EnglishStemmer
  assume ok: "st_ok st"
  then show "at_vowel_y (bs_current st) (bs_cursor st) \<Longrightarrow>
      find_vowel_y st = Inr (True, st\<lparr>bs_cursor := bs_cursor st + 2, bs_bra := bs_cursor st + 1, bs_ket := bs_cursor st + 1 + 1\<rparr>)
      \<and> bs_cursor st \<le> bs_cursor st + 1 \<and> bs_cursor st + 1 + 1 \<le> bs_limit st \<and> bs_current st ! nat (bs_cursor st + 1) = 121"
    using find_vowel_y_eq [OF ok] by (simp add: st_ok_def)
  assume n: "\<not> at_vowel_y (bs_current st) (bs_cursor st)"
  show "\<exists>c br k. find_vowel_y st = Inr (False, st\<lparr>bs_cursor := c, bs_bra := br, bs_ket := k\<rparr>)"
  proof (cases "bs_cursor st < bs_limit st \<and> in_group g_v 97 121 (bs_current st ! nat (bs_cursor st))")
    case True
    then have "find_vowel_y st = Inr (False, st\<lparr>bs_cursor := bs_cursor st + 1, bs_bra := bs_cursor st + 1, bs_ket := bs_ket st\<rparr>)"
      using find_vowel_y_eq [OF ok] unfolding if_P [OF True] if_not_P [OF n] by simp
    then show ?thesis by blast
  next
    case False
    have "find_vowel_y st = Inr (False, st)" using find_vowel_y_eq [OF ok] unfolding if_not_P [OF False] .
    then show ?thesis using all_same [of st] by metis
  qed
qed

text \<open>What marking leaves: as many characters, with \<^verbatim>\<open>Y\<close> among them only when it is noted.\<close>

definition marked :: "EnglishStemmer \<Rightarrow> EnglishStemmer \<Rightarrow> bool" where
  "marked st st' \<longleftrightarrow> st_ok st' \<and> bs_limit_backward st' = bs_limit_backward st \<and> length (bs_current st') = length (bs_current st)
    \<and> set (bs_current st') \<subseteq> set (bs_current st) \<union> {89} \<and> bs_cache st' = bs_cache st
    \<and> (en_Y_found st \<longrightarrow> en_Y_found st') \<and> (set (bs_current st') \<subseteq> set (bs_current st) \<or> en_Y_found st')"

lemma marked_trans: "marked st st' \<Longrightarrow> marked st' st'' \<Longrightarrow> marked st st''"
  unfolding marked_def by auto

lemma mark_y_returns:
  assumes "st_ok st" "count_list (bs_current st) 121 < fuel"
  shows "\<exists>st'. mark_y fuel st = Inr (True, st') \<and> marked st st'"
  using assms
proof (induction fuel arbitrary: st)
  case (Suc fuel)
  obtain b st1 where g: "goto_place find_vowel_y st = Inr (b, st1)" "found_at at_vowel_y 121 b st st1"
    using goto_place_finds [OF find_vowel_y_seeks Suc.prems(1)] by blast
  then obtain c br k where st1: "st_ok st1" "st1 = st\<lparr>bs_cursor := c, bs_bra := br, bs_ket := k\<rparr>" by (auto simp: found_at_def)
  show ?case
  proof (cases b)
    case True
    then have f: "found_at at_vowel_y 121 True st st1" using g(2) by simp
    obtain i where i: "slice_from [89] st1 = (True, st1\<lparr>bs_current := (bs_current st)[i := 89]\<rparr>)" "i < length (bs_current st)"
        "count_list ((bs_current st)[i := 89]) 121 < count_list (bs_current st) 121"
      using found_replace [OF f Suc.prems(1), of 89] by auto
    define st2 where "st2 = st1\<lparr>bs_current := (bs_current st)[i := 89], en_Y_found := True\<rparr>"
    have 2: "st_ok st2" "count_list (bs_current st2) 121 < fuel" using st1 i(3) Suc.prems(2) by (simp_all add: st2_def st_ok_def)
    have "marked st st2" using 2(1) st1(2) set_update_subset_insert [of "bs_current st" i 89] by (auto simp: st2_def marked_def)
    moreover have "mark_y (Suc fuel) st = mark_y fuel st2" using g(1) True i(1) by (simp add: js_lit_def st2_def)
    ultimately show ?thesis using Suc.IH [OF 2] marked_trans by metis
  next
    case False
    have "mark_y (Suc fuel) st = Inr (True, st1\<lparr>bs_cursor := bs_cursor st\<rparr>)" using g(1) False by simp
    moreover have "marked st (st1\<lparr>bs_cursor := bs_cursor st\<rparr>)" using st1(2) Suc.prems(1) by (auto simp: marked_def st_ok_def)
    ultimately show ?thesis by blast
  qed
qed simp

lemma unmark_y_returns:
  assumes "st_ok st" "bs_limit_backward st = 0" "count_list (bs_current st) 89 < fuel"
    "\<And>p. 0 \<le> p \<Longrightarrow> p < bs_cursor st \<Longrightarrow> \<not> at_Y (bs_current st) p"
  shows "\<exists>st'. unmark_y fuel st = Inr (True, st') \<and> keeps {97..122} st st' \<and> 89 \<notin> set (bs_current st')"
  using assms
proof (induction fuel arbitrary: st)
  case (Suc fuel)
  obtain b st1 where g: "goto_place find_Y st = Inr (b, st1)" "found_at at_Y 89 b st st1"
    using goto_place_finds [OF find_Y_seeks Suc.prems(1)] by blast
  then obtain c br k where st1: "st_ok st1" "st1 = st\<lparr>bs_cursor := c, bs_bra := br, bs_ket := k\<rparr>" by (auto simp: found_at_def)
  have np: "\<not> at_Y (bs_current st) p" if "0 \<le> p" "p < bs_cursor st1" for p
    using that Suc.prems(4) [of p] g(2) by (cases "p < bs_cursor st") (auto simp: found_at_def)
  show ?case
  proof (cases b)
    case True
    then have f: "found_at at_Y 89 True st st1" using g(2) by simp
    obtain i where i: "slice_from [121] st1 = (True, st1\<lparr>bs_current := (bs_current st)[i := 121]\<rparr>)" "i < length (bs_current st)"
        "bs_cursor st1 \<le> int i" "count_list ((bs_current st)[i := 121]) 89 < count_list (bs_current st) 89"
      using found_replace [OF f Suc.prems(1), of 121] by auto
    define st2 where "st2 = st1\<lparr>bs_current := (bs_current st)[i := 121]\<rparr>"
    have 2: "st_ok st2" "bs_limit_backward st2 = 0" "count_list (bs_current st2) 89 < fuel"
      using st1 i(4) Suc.prems(2,3) by (simp_all add: st2_def st_ok_def)
    have 3: "\<not> at_Y (bs_current st2) p" if "0 \<le> p" "p < bs_cursor st2" for p
      using that np [of p] i(3) by (simp add: st2_def)
    have "keeps {97..122} st st2" using 2(1,2) st1(2) set_update_subset_insert [of "bs_current st" i 121] by (auto simp: st2_def keeps_def)
    moreover have "unmark_y (Suc fuel) st = unmark_y fuel st2" using g(1) True i(1) by (simp add: js_lit_def st2_def)
    moreover from Suc.IH [OF 2 3] obtain st' where "unmark_y fuel st2 = Inr (True, st')" "keeps {97..122} st2 st'" "89 \<notin> set (bs_current st')"
      by blast
    ultimately show ?thesis using keeps_trans [of _ st st2 st'] by simp
  next
    case False
    have "unmark_y (Suc fuel) st = Inr (True, st1\<lparr>bs_cursor := bs_cursor st\<rparr>)" using g(1) False by simp
    moreover have "keeps {97..122} st (st1\<lparr>bs_cursor := bs_cursor st\<rparr>)" using st1(2) Suc.prems(1,2) by (simp add: keeps_def st_ok_def)
    moreover have "89 \<notin> set (bs_current st)"
    proof
      assume "89 \<in> set (bs_current st)"
      then obtain n where "n < length (bs_current st)" "bs_current st ! n = 89" by (auto simp: in_set_conv_nth)
      then have "at_Y (bs_current st) (int n)" "int n \<le> bs_limit st" using Suc.prems(1) by (simp_all add: st_ok_def)
      then show False using np [of "int n"] g(2) False Suc.prems(4) [of "int n"] by (cases "bs_cursor st \<le> int n") (auto simp: found_at_def)
    qed
    ultimately show ?thesis using st1(2) by auto
  qed
qed simp

definition prelude_post :: "EnglishStemmer \<Rightarrow> EnglishStemmer \<Rightarrow> bool" where
  "prelude_post st st' \<longleftrightarrow> st_ok st' \<and> bs_limit_backward st' = 0 \<and> length (bs_current st') \<le> length (bs_current st)
    \<and> set (bs_current st') \<subseteq> set (bs_current st) \<union> {89} \<and> bs_cache st' = bs_cache st
    \<and> (set (bs_current st') \<subseteq> set (bs_current st) \<or> en_Y_found st')"

text \<open>The first character, when it is \<^verbatim>\<open>x\<close>, is replaced.\<close>

lemma replace_first:
  assumes "st_ok st" "bs_limit_backward st = 0" "bs_cursor st = 0" "length s \<le> 1" "eq_s 1 [x] (st\<lparr>bs_bra := 0\<rparr>) = (b, st1)"
  shows "\<exists>st2. (if b then slice_from s (st1\<lparr>bs_ket := bs_cursor st1\<rparr>) else (True, st1)) = (True, st2)
    \<and> keeps (if b then set s else {}) st st2"
proof (cases b)
  case True
  have 1: "st1 = st\<lparr>bs_cursor := 1, bs_bra := 0\<rparr>" "0 < bs_limit st"
    using assms(5) True eq_s_one [of "st\<lparr>bs_bra := 0\<rparr>" x] assms(1,3) by (auto split: if_splits)
  define st2 where "st2 = st1\<lparr>bs_ket := bs_cursor st1\<rparr>"
  have st2: "st_ok st2" "bs_limit_backward st2 = 0" "slice_check st2" "bs_ket st2 - bs_bra st2 = 1"
    using 1 assms(1-3) by (auto simp: st2_def st_ok_def slice_check_def Suc_le_eq)
  then have "keeps (set s) st2 (snd (slice_from s st2))" using assms(4) by (intro slice_from_keeps) auto
  then have "keeps (set s) st (snd (slice_from s st2))" by (simp add: keeps_def st2_def 1(1))
  moreover have "slice_from s st2 = (True, snd (slice_from s st2))" using st2(3) by (simp add: slice_from_def)
  ultimately show ?thesis using True unfolding st2_def by auto
next
  case False
  then have "st1 = st\<lparr>bs_bra := 0\<rparr>" using assms(5) eq_s_one [of "st\<lparr>bs_bra := 0\<rparr>" x] assms(1) by (auto split: if_splits)
  then show ?thesis using False assms(1,2) by (simp add: keeps_def)
qed

lemma st_ok_Y [simp]: "st_ok (st\<lparr>en_Y_found := y\<rparr>) \<longleftrightarrow> st_ok st"
  by (simp add: st_ok_def)

lemma keeps_start: "keeps A st st' \<Longrightarrow> st_ok (st'\<lparr>bs_cursor := 0\<rparr>)"
  by (simp add: keeps_def st_ok_def)

lemma lit_y: "js_lit ''y'' = [121]" "js_lit ''Y'' = [89]"
  by (simp_all add: js_lit_def)

lemma r_prelude_returns:
  assumes "st_ok st" "bs_limit_backward st = 0" "bs_cursor st = 0"
  shows "\<exists>st'. r_prelude st = Inr (True, st') \<and> prelude_post st st'"
proof -
  define s0 where "s0 = st\<lparr>en_Y_found := False\<rparr>"
  obtain b1 s1 where e1: "eq_s 1 [39] (s0\<lparr>bs_bra := 0\<rparr>) = (b1, s1)" by fastforce
  have "st_ok s0" "bs_limit_backward s0 = 0" "bs_cursor s0 = 0" using assms by (simp_all add: s0_def)
  from replace_first [OF this _ e1, of "[]"] obtain s2 where
    s2: "(if b1 then slice_from [] (s1\<lparr>bs_ket := bs_cursor s1\<rparr>) else (True, s1)) = (True, s2)" "keeps (if b1 then set [] else {}) s0 s2" by auto
  then have k2: "keeps {} s0 s2" by (cases b1) simp_all
  define s3 where "s3 = s2\<lparr>bs_cursor := 0\<rparr>"
  obtain b2 s4 where e2: "eq_s 1 [121] (s3\<lparr>bs_bra := 0\<rparr>) = (b2, s4)" by fastforce
  have c3: "st_ok s3" "bs_limit_backward s3 = 0" "bs_cursor s3 = 0" using keeps_start [OF k2] k2 by (simp_all add: s3_def keeps_def)
  from replace_first [OF c3 _ e2, of "[89]"] obtain s5 where
    s5: "(if b2 then slice_from [89] (s4\<lparr>bs_ket := bs_cursor s4\<rparr>) else (True, s4)) = (True, s5)" "keeps (if b2 then set [89] else {}) s3 s5" by auto
  define s6 where "s6 = (if b2 then s5\<lparr>en_Y_found := True\<rparr> else s5)\<lparr>bs_cursor := 0\<rparr>"
  have s6: "st_ok s6" "bs_limit_backward s6 = 0" using keeps_start [OF s5(2)] s5(2) by (simp_all add: s6_def keeps_def st_ok_def)
  have "count_list (bs_current s6) 121 < length (bs_current s6) + 1" using count_le_length [of "bs_current s6" 121] by simp
  from mark_y_returns [OF s6(1) this] obtain s7 where
    s7: "mark_y (length (bs_current s6) + 1) s6 = Inr (True, s7)" "marked s6 s7" by blast
  have "r_prelude st = Inr (True, s7\<lparr>bs_cursor := 0\<rparr>)"
    by (simp only: r_prelude_def Let_def assms(3) lit_y e1 [unfolded s0_def] split_conv s2(1) not_True_eq_False if_False
        s3_def [symmetric] c3(3) e2 s5(1) s6_def [symmetric] s7(1) js_bind_simps)
  moreover have "prelude_post st (s7\<lparr>bs_cursor := 0\<rparr>)"
  proof -
    have "length (bs_current s6) \<le> length (bs_current st)" "bs_cache s6 = bs_cache st"
        "set (bs_current s6) \<subseteq> set (bs_current st) \<union> (if b2 then {89} else {})" "b2 \<longrightarrow> en_Y_found s6"
      using k2 s5(2) by (auto simp: keeps_def s0_def s3_def s6_def)
    then show ?thesis using s7(2) s6(2) by (auto simp: prelude_post_def marked_def st_ok_def split: if_splits)
  qed
  ultimately show ?thesis by blast
qed

section \<open>The regions\<close>

lemma vowel_moves: "moves vowel" "moves non_vowel" "moves (gopast vowel)" "moves (gopast non_vowel)"
  by (simp_all add: vowel_def non_vowel_def in_grouping_def out_grouping_def test_forward_moves gopast_moves)

lemma vowel_b_moves: "moves_b vowel_b" "moves_b non_vowel_b" "moves_b (gopast_b vowel_b)" "moves_b (in_grouping_b g mn mx)" "moves_b (out_grouping_b g mn mx)"
  by (simp_all add: vowel_b_def non_vowel_b_def in_grouping_b_def out_grouping_b_def test_backward_moves gopast_b_moves)

lemma st_ok_p [simp]: "st_ok (st\<lparr>en_p1 := n\<rparr>) \<longleftrightarrow> st_ok st" "st_ok (st\<lparr>en_p2 := n\<rparr>) \<longleftrightarrow> st_ok st"
  by (simp_all add: st_ok_def)

lemma r_mark_regions_returns:
  assumes "st_ok st"
  shows "\<exists>p1 p2. r_mark_regions st = Inr (True, st\<lparr>en_p1 := p1, en_p2 := p2\<rparr>)"
proof -
  define region where "region = and_then (gopast vowel) (gopast non_vowel)"
  have mv: "moves region" unfolding region_def by (intro and_then_moves vowel_moves)
  let ?st = "st\<lparr>en_p1 := bs_limit st, en_p2 := bs_limit st\<rparr>"
  have ok: "st_ok ?st" using assms by simp
  have n: "3 = length a_0" by (simp add: a_0_def)
  from find_among_moves [OF ok a_0_ok] obtain r c where
    c: "find_among a_0 3 ?st = Inr (r, ?st\<lparr>bs_cursor := c\<rparr>)" "bs_cursor st \<le> c" "c \<le> bs_limit st"
    unfolding n by auto
  obtain b1 c1 where 1: "(if r = 0 then region (?st\<lparr>bs_cursor := bs_cursor st\<rparr>) else Inr (True, ?st\<lparr>bs_cursor := c\<rparr>)) = Inr (b1, ?st\<lparr>bs_cursor := c1\<rparr>)"
      "bs_cursor st \<le> c1" "c1 \<le> bs_limit st" "r \<noteq> 0 \<longrightarrow> c1 = c"
  proof (cases "r = 0")
    case True
    from mv ok obtain b1 c1 where "region ?st = Inr (b1, ?st\<lparr>bs_cursor := c1\<rparr>)" "bs_cursor ?st \<le> c1" "c1 \<le> bs_limit ?st" by (rule movesE)
    then show thesis using that True by simp
  qed (use that c in simp)
  let ?s1 = "?st\<lparr>bs_cursor := c1, en_p1 := c1\<rparr>"
  have "st_ok ?s1" using 1(2,3) assms by (auto simp: st_ok_def)
  with mv obtain b2 c2 where 2: "region ?s1 = Inr (b2, ?s1\<lparr>bs_cursor := c2\<rparr>)" by (rule movesE)
  have "r_mark_regions st = Inr (True, if \<not> b1 then st\<lparr>en_p1 := bs_limit st, en_p2 := bs_limit st\<rparr>
      else if \<not> b2 then st\<lparr>en_p1 := c1, en_p2 := bs_limit st\<rparr> else st\<lparr>en_p1 := c1, en_p2 := c2\<rparr>)"
    using c(1) 1(1,4) 2 by (cases "r = 0") (auto simp: r_mark_regions_def region_def [symmetric] Let_def)
  then show ?thesis by (cases b1; cases b2; simp only: if_True if_False not_True_eq_False not_False_eq_True; blast)
qed

section \<open>The steps\<close>

abbreviation letters :: "nat set" where
  "letters \<equiv> {97..122}"

definition at_ending :: "Among \<Rightarrow> EnglishStemmer \<Rightarrow> EnglishStemmer" where
  "at_ending w st = st\<lparr>bs_ket := bs_cursor st, bs_cursor := bs_cursor st - int (length (am_s w)), bs_bra := bs_cursor st - int (length (am_s w))\<rparr>"

definition no_zero :: "Among list \<Rightarrow> bool" where
  "no_zero v \<longleftrightarrow> list_all (\<lambda>w. am_result w \<noteq> 0) v"

lemma find_ending_cases:
  assumes "st_ok st" "bs_limit_backward st = 0" "table_ok rev_key v" "no_zero v" "n = length v"
  shows "find_ending v n st = Inr (0, st\<lparr>bs_ket := bs_cursor st\<rparr>) \<or>
    (\<exists>w \<in> set v. find_ending v n st = Inr (am_result w, at_ending w st) \<and> am_result w \<noteq> 0 \<and> st_ok (at_ending w st)
      \<and> bs_limit_backward (at_ending w st) = 0 \<and> bs_ket (at_ending w st) - bs_bra (at_ending w st) = int (length (am_s w)))"
proof -
  let ?st = "st\<lparr>bs_ket := bs_cursor st\<rparr>"
  have ok: "st_ok ?st" using assms(1) by simp
  from find_among_b_cases [OF ok assms(3)] show ?thesis
  proof (elim disjE bexE conjE)
    assume "find_among_b v (length v) ?st = Inr (0, ?st)"
    then show ?thesis using assms(5) by (simp add: find_ending_def)
  next
    fix w
    assume w: "w \<in> set v" "int (length (am_s w)) \<le> bs_cursor ?st - bs_limit_backward ?st"
      "find_among_b v (length v) ?st = Inr (am_result w, ?st\<lparr>bs_cursor := bs_cursor ?st - int (length (am_s w))\<rparr>)"
    have "am_result w \<noteq> 0" using w(1) assms(4) by (auto simp: no_zero_def list_all_iff)
    moreover have "st_ok (at_ending w st)" using w(2) assms(1,2) by (auto simp: at_ending_def st_ok_def)
    ultimately show ?thesis using w assms(2,5) by (intro disjI2 bexI [of _ w]) (auto simp: find_ending_def at_ending_def)
  qed
qed

lemma at_ending_returns [simp]: "returns A (at_ending w st) r \<longleftrightarrow> returns A st r"
  by (simp add: at_ending_def)

text \<open>A step that looks up an ending and goes on from there.\<close>

lemma returns_ending:
  assumes "st_ok st" "bs_limit_backward st = 0" "table_ok rev_key v" "no_zero v" "n = length v"
    and "\<And>st'. st_ok st' \<Longrightarrow> bs_limit_backward st' = 0 \<Longrightarrow> returns A st' (f (0, st'))"
    and "\<And>w st'. w \<in> set v \<Longrightarrow> am_result w \<noteq> 0 \<Longrightarrow> st_ok st' \<Longrightarrow> bs_limit_backward st' = 0 \<Longrightarrow> bs_ket st' - bs_bra st' = int (length (am_s w))
      \<Longrightarrow> returns A st' (f (am_result w, st'))"
  shows "returns A st (js_bind (find_ending v n st) f)"
  using find_ending_cases [OF assms(1-5)]
proof (elim disjE bexE conjE)
  assume "find_ending v n st = Inr (0, st\<lparr>bs_ket := bs_cursor st\<rparr>)"
  then show ?thesis using assms(6) [of "st\<lparr>bs_ket := bs_cursor st\<rparr>"] assms(1,2) by simp
next
  fix w
  assume "w \<in> set v" "am_result w \<noteq> 0" "find_ending v n st = Inr (am_result w, at_ending w st)" "st_ok (at_ending w st)"
    "bs_limit_backward (at_ending w st) = 0" "bs_ket (at_ending w st) - bs_bra (at_ending w st) = int (length (am_s w))"
  then show ?thesis using assms(7) [of w "at_ending w st"] by simp
qed

lemma no_zero_tables: "no_zero a_1" "no_zero a_2" "no_zero a_4" "no_zero a_5" "no_zero a_6" "no_zero a_7" "no_zero a_8" "no_zero a_9"
  by (simp_all add: no_zero_def a_1_def a_2_def a_4_def a_5_def a_6_def a_7_def a_8_def a_9_def Among_new_def)

text \<open>Every replacement has lower-case letters and is at most as long as the ending it replaces.\<close>

definition fits :: "Among list \<Rightarrow> (int \<Rightarrow> jsstring) \<Rightarrow> int list \<Rightarrow> bool" where
  "fits v repl rs \<longleftrightarrow> list_all (\<lambda>w. am_result w \<in> set rs \<longrightarrow>
     length (repl (am_result w)) \<le> length (am_s w) \<and> list_all (\<lambda>c. 97 \<le> c \<and> c \<le> 122) (repl (am_result w))) v"

lemma fitsD:
  assumes "fits v repl rs" "w \<in> set v" "am_result w \<in> set rs"
  shows "length (repl (am_result w)) \<le> length (am_s w)" "set (repl (am_result w)) \<subseteq> letters"
  using assms by (auto simp: fits_def list_all_iff)

lemma returns_fits:
  assumes "fits v repl rs" "w \<in> set v" "am_result w \<in> set rs" "st_ok st" "bs_limit_backward st = 0" "bs_ket st - bs_bra st = int (length (am_s w))"
  shows "returns letters st (Inr (slice_from (repl (am_result w)) st))"
  using fitsD [OF assms(1-3)] assms(4-6) by (intro returns_slice) auto

lemma step_2_fits: "fits a_5 (\<lambda>r. if r = 13 then js_lit ''og'' else if r = 14 then js_lit ''ful'' else if r = 15 then js_lit ''less''
    else step_2_endings ! nat (r - 1)) [1..15]"
  by (simp add: fits_def a_5_def Among_new_def js_lit_def step_2_endings_def upto.simps)

lemma step_3_fits: "fits a_6 (\<lambda>r. step_3_endings ! nat (r - 1)) [1..5]"
  by (simp add: fits_def a_6_def Among_new_def js_lit_def step_3_endings_def upto.simps)

lemma r_Step_3_returns:
  assumes "st_ok st" "bs_limit_backward st = 0"
  shows "returns letters st (r_Step_3 st)"
  unfolding r_Step_3_def
proof (rule returns_ending [OF assms a_6_ok no_zero_tables(5)], goal_cases)
  case (3 w st)
  then show ?case using returns_fits [OF step_3_fits 3(1) _ 3(3-5)] by (auto intro: returns_stay returns_slice)
qed (simp_all add: a_6_def returns_stay)

lemma returns_slice_moved:
  assumes "st_ok (st\<lparr>bs_cursor := c\<rparr>)" "bs_limit_backward st = 0" "set s \<subseteq> A" "s = [] \<or> int (length s) \<le> bs_ket st - bs_bra st"
  shows "returns A st (Inr (slice_from s (st\<lparr>bs_cursor := c\<rparr>)))"
  using returns_slice [of "st\<lparr>bs_cursor := c\<rparr>" s A] assms by simp

text \<open>A replacement behind a test.\<close>

lemma returns_guarded:
  assumes "moves_b f" "st_ok st" "bs_limit_backward st = 0" "set s \<subseteq> A" "s = [] \<or> int (length s) \<le> bs_ket st - bs_bra st"
  shows "returns A st (and_then f (\<lambda>st. Inr (slice_from s st)) st)"
proof (rule returns_and_then [OF assms(1-3)])
  fix c
  assume "st_ok (st\<lparr>bs_cursor := c\<rparr>)"
  from returns_slice_moved [OF this assms(3-5)] show "returns A (st\<lparr>bs_cursor := c\<rparr>) (Inr (slice_from s (st\<lparr>bs_cursor := c\<rparr>)))" by simp
qed

lemma eq_s_b_guard:
  "(let (b, st) = eq_s_b n x st in Inr (if \<not> b then (False, st) else slice_from s st)) = and_then (\<lambda>st. Inr (eq_s_b n x st)) (\<lambda>st. Inr (slice_from s st)) st"
  by (simp add: and_then_def split: prod.split)

lemmas returns_rules = returns_stay returns_slice returns_slice_moved returns_guarded

lemma r_Step_2_returns:
  assumes "st_ok st" "bs_limit_backward st = 0"
  shows "returns letters st (r_Step_2 st)"
  unfolding r_Step_2_def eq_s_b_guard
proof (rule returns_ending [OF assms a_5_ok no_zero_tables(4)], goal_cases)
  case (3 w st)
  have "returns letters st (and_then (\<lambda>st. Inr (eq_s_b 1 (js_lit ''l'') st)) (\<lambda>st. Inr (slice_from (js_lit ''og'') st)) st)" if "am_result w = 13"
    using fitsD [OF step_2_fits 3(1)] 3(5) that by (intro returns_guarded eq_s_b_moves 3) simp_all
  moreover have "returns letters st (and_then (in_grouping_b g_valid_LI 99 116) (\<lambda>st. Inr (slice_from [] st)) st)"
    by (intro returns_guarded vowel_b_moves 3) simp_all
  ultimately show ?case using returns_fits [OF step_2_fits 3(1) _ 3(3-5)] 3(3,4) by (auto intro: returns_stay)
qed (simp_all add: a_5_def returns_stay)

lemma r_Step_4_returns:
  assumes "st_ok st" "bs_limit_backward st = 0"
  shows "returns letters st (r_Step_4 st)"
  unfolding r_Step_4_def
proof (rule returns_ending [OF assms a_7_ok no_zero_tables(6)], goal_cases)
  case (3 w st)
  then show ?case by (auto intro!: returns_stay returns_slice returns_guarded or_else_b_moves eq_s_b_moves)
qed (simp_all add: a_7_def returns_stay)

lemma returns_test:
  assumes "moves_b f" "st_ok st" "bs_limit_backward st = 0"
    and "\<And>b c. 0 \<le> c \<Longrightarrow> c \<le> bs_cursor st \<Longrightarrow> st_ok (st\<lparr>bs_cursor := c\<rparr>) \<Longrightarrow> returns A st (g (b, st\<lparr>bs_cursor := c\<rparr>))"
  shows "returns A st (js_bind (f st) g)"
proof -
  from assms(1,2) obtain b c where f: "f st = Inr (b, st\<lparr>bs_cursor := c\<rparr>)" "bs_limit_backward st \<le> c" "c \<le> bs_cursor st" by (rule moves_bE)
  moreover have "st_ok (st\<lparr>bs_cursor := c\<rparr>)" using f assms(2) by (auto simp: st_ok_def)
  ultimately show ?thesis using assms(3,4) by simp
qed

lemma returns_stay_moved: "st_ok (st\<lparr>bs_cursor := c\<rparr>) \<Longrightarrow> bs_limit_backward st = 0 \<Longrightarrow> returns A st (Inr (b, st\<lparr>bs_cursor := c\<rparr>))"
  using returns_stay [of "st\<lparr>bs_cursor := c\<rparr>" A b] by simp

lemma stay_moves_b: "moves_b (\<lambda>st. Inr (Q st, st))"
  unfolding moves_b_def
proof (intro allI impI)
  fix st :: "'a BaseStemmer_scheme"
  assume "st_ok st"
  then show "\<exists>b c. Inr (Q st, st) = Inr (b, st\<lparr>bs_cursor := c\<rparr>) \<and> bs_limit_backward st \<le> c \<and> c \<le> bs_cursor st"
    by (intro exI [of _ "Q st"] exI [of _ "bs_cursor st"]) (simp add: st_ok_def)
qed

lemma r_shortv_moves: "moves_b r_shortv"
  unfolding r_shortv_def by (intro or_else_b_moves and_then_moves_b vowel_b_moves stay_moves_b)

lemma r_Step_5_returns:
  assumes "st_ok st" "bs_limit_backward st = 0"
  shows "returns letters st (r_Step_5 st)"
  unfolding r_Step_5_def eq_s_b_guard
proof (rule returns_ending [OF assms a_8_ok no_zero_tables(7)], goal_cases)
  case (3 w st)
  have "returns letters st (js_bind (r_shortv st) (\<lambda>(b, st'). if b then Inr (False, st')
      else Inr (slice_from [] (st'\<lparr>bs_cursor := bs_limit st' - (bs_limit st - bs_cursor st)\<rparr>))))"
    by (rule returns_test [OF r_shortv_moves 3(3,4)]) (use 3(3,4) in \<open>auto intro: returns_stay_moved returns_slice\<close>)
  moreover have "returns letters st (and_then (\<lambda>st. Inr (eq_s_b 1 (js_lit ''l'') st)) (\<lambda>st. Inr (slice_from [] st)) st)"
    by (intro returns_guarded eq_s_b_moves 3) simp_all
  ultimately show ?case using 3(3,4) by (auto intro: returns_stay returns_slice)
qed (simp_all add: a_8_def returns_stay)

lemma either_letter_cases:
  "or_else_b (\<lambda>st. Inr (eq_s_b 1 x st)) (\<lambda>st. Inr (eq_s_b 1 y st)) st = Inr (False, st) \<or>
    or_else_b (\<lambda>st. Inr (eq_s_b 1 x st)) (\<lambda>st. Inr (eq_s_b 1 y st)) st = Inr (True, st\<lparr>bs_cursor := bs_cursor st - 1\<rparr>)
      \<and> 1 \<le> bs_cursor st - bs_limit_backward st"
  using eq_s_b_cases [of 1 x st] eq_s_b_cases [of 1 y st] by (auto simp: or_else_b_def)

lemma r_Step_1c_returns:
  assumes "st_ok st" "bs_limit_backward st = 0"
  shows "returns letters st (r_Step_1c st)"
  using either_letter_cases [of "js_lit ''y''" "js_lit ''Y''" "st\<lparr>bs_ket := bs_cursor st\<rparr>"]
proof (elim disjE conjE)
  let ?or = "or_else_b (\<lambda>st. Inr (eq_s_b 1 (js_lit ''y'') st)) (\<lambda>st. Inr (eq_s_b 1 (js_lit ''Y'') st)) (st\<lparr>bs_ket := bs_cursor st\<rparr>)"
  assume "?or = Inr (False, st\<lparr>bs_ket := bs_cursor st\<rparr>)"
  then show ?thesis using returns_stay [of "st\<lparr>bs_ket := bs_cursor st\<rparr>"] assms by (simp add: r_Step_1c_def)
next
  let ?or = "or_else_b (\<lambda>st. Inr (eq_s_b 1 (js_lit ''y'') st)) (\<lambda>st. Inr (eq_s_b 1 (js_lit ''Y'') st)) (st\<lparr>bs_ket := bs_cursor st\<rparr>)"
  assume or: "?or = Inr (True, st\<lparr>bs_ket := bs_cursor st\<rparr>\<lparr>bs_cursor := bs_cursor (st\<lparr>bs_ket := bs_cursor st\<rparr>) - 1\<rparr>)"
    and one: "1 \<le> bs_cursor (st\<lparr>bs_ket := bs_cursor st\<rparr>) - bs_limit_backward (st\<lparr>bs_ket := bs_cursor st\<rparr>)"
  define s where "s = st\<lparr>bs_ket := bs_cursor st, bs_cursor := bs_cursor st - 1, bs_bra := bs_cursor st - 1\<rparr>"
  have s: "st_ok s" "bs_limit_backward s = 0" "bs_ket s - bs_bra s = 1" using one assms by (auto simp: s_def st_ok_def)
  have "returns letters s (js_bind (non_vowel_b s) (\<lambda>(b, st).
      if \<not> b \<or> \<not> bs_limit_backward st < bs_cursor st then Inr (False, st) else Inr (slice_from (js_lit ''i'') st)))"
    by (rule returns_test [OF vowel_b_moves(2) s(1,2)]) (use s(1,2,3) in \<open>auto intro!: returns_stay_moved returns_slice_moved simp: js_lit_def\<close>)
  then show ?thesis using or by (simp add: r_Step_1c_def s_def)
qed

lemma table_sizes: "3 = length a_1" "13 = length a_3" "18 = length a_10" "6 = length a_4" "8 = length a_9"
  by (simp_all add: a_1_def a_3_def a_10_def a_4_def a_9_def)

lemma returns_after: "keeps A st st' \<Longrightarrow> returns A st' r \<Longrightarrow> returns A st r"
  by (auto simp: returns_def intro: keeps_trans)

lemma step_1a_fits: "fits a_2 (\<lambda>r. if r = 1 then js_lit ''ss'' else js_lit ''ie'') [1..2]"
  by (simp add: fits_def a_2_def Among_new_def js_lit_def upto.simps)

lemma step_1a_ending_returns:
  assumes "st_ok st" "bs_limit_backward st = 0"
  shows "returns letters st (step_1a_ending st)"
  unfolding step_1a_ending_def
proof (rule returns_ending [OF assms a_2_ok no_zero_tables(2)], goal_cases)
  case (3 w st)
  note fit = fitsD [OF step_1a_fits 3(1)]
  have "returns letters st (Inr (slice_from (js_lit ''ss'') st))" if "am_result w = 1"
    using fit that 3(3-5) by (intro returns_slice) (simp_all add: js_lit_def)
  moreover have "returns letters st (let c = bs_cursor st - 2 in
         if bs_limit_backward st > c \<or> c > bs_limit st then Inr (slice_from (js_lit ''ie'') st)
         else Inr (slice_from (js_lit ''i'') (st\<lparr>bs_cursor := c\<rparr>)))" if "am_result w = 2"
    using fit that 3(3-5) unfolding Let_def by (auto intro!: returns_slice returns_slice_moved simp: js_lit_def)
  moreover have "returns letters st (and_then (gopast_b vowel_b) (\<lambda>st. Inr (slice_from [] st)) (st\<lparr>bs_cursor := bs_cursor st - 1\<rparr>))"
    if "\<not> bs_cursor st \<le> bs_limit_backward st"
  proof -
    have "st_ok (st\<lparr>bs_cursor := bs_cursor st - 1\<rparr>)" using that 3(3) by (auto simp: st_ok_def)
    then have "returns letters (st\<lparr>bs_cursor := bs_cursor st - 1\<rparr>) (and_then (gopast_b vowel_b) (\<lambda>st. Inr (slice_from [] st)) (st\<lparr>bs_cursor := bs_cursor st - 1\<rparr>))"
      using 3(4) by (intro returns_guarded vowel_b_moves) simp_all
    then show ?thesis by simp
  qed
  ultimately show ?case using 3(3,4) by (simp add: returns_stay)
qed (simp_all add: a_2_def returns_stay)

lemma r_Step_1a_returns:
  assumes "st_ok st" "bs_limit_backward st = 0"
  shows "returns letters st (r_Step_1a st)"
proof (use find_ending_cases [OF assms a_1_ok no_zero_tables(1) table_sizes(1)] in \<open>elim disjE bexE conjE\<close>)
  assume "find_ending a_1 3 st = Inr (0, st\<lparr>bs_ket := bs_cursor st\<rparr>)"
  then show ?thesis using step_1a_ending_returns [of "st\<lparr>bs_ket := bs_cursor st\<rparr>"] assms by (simp add: r_Step_1a_def)
next
  fix w
  assume w: "w \<in> set a_1" "find_ending a_1 3 st = Inr (am_result w, at_ending w st)" "st_ok (at_ending w st)" "bs_limit_backward (at_ending w st) = 0"
  have r: "am_result w = 1" using w(1) by (auto simp: a_1_def Among_new_def)
  have k: "keeps letters (at_ending w st) (snd (slice_from [] (at_ending w st)))" using w by (intro slice_from_keeps) simp_all
  then have ok: "st_ok (snd (slice_from [] (at_ending w st)))" "bs_limit_backward (snd (slice_from [] (at_ending w st))) = 0" by (simp_all add: keeps_def)
  have "returns letters (at_ending w st) (r_Step_1a st)"
    using returns_after [OF k returns_stay [OF ok]] returns_after [OF k step_1a_ending_returns [OF ok]] w(2) r
    by (cases "slice_from [] (at_ending w st)") (simp add: r_Step_1a_def)
  then show ?thesis by simp
qed

text \<open>An \<^verbatim>\<open>e\<close> put in at the cursor lengthens the word by one.\<close>

abbreviation one_more :: "EnglishStemmer \<Rightarrow> EnglishStemmer" where
  "one_more st \<equiv> st\<lparr>bs_current := 101 # bs_current st\<rparr>"

lemma keeps_one_more: "keeps letters st st' \<Longrightarrow> keeps letters (one_more st) st'"
  unfolding keeps_def by auto

lemma returns_one_more: "returns letters st r \<Longrightarrow> returns letters (one_more st) r"
  by (auto simp: returns_def intro: keeps_one_more)

lemma insert_keeps:
  assumes "st_ok st" "bs_limit_backward st = 0" "c = bs_cursor st"
  shows "keeps letters (one_more st) ((insert_s c c (js_lit ''e'') st)\<lparr>bs_cursor := c\<rparr>)"
proof -
  have c: "0 \<le> c" "c \<le> bs_limit st" "c \<le> int (length (bs_current st))" using assms by (simp_all add: st_ok_def)
  note r = replace_s_in [OF assms(1) c(1) order_refl c(2), of "[101]"]
  note l = spliced_length [OF c(1) order_refl c(3), of "[101]"]
  have e: "js_lit ''e'' = [101]" by (simp add: js_lit_def)
  note s = spliced_set [of "bs_current st" c c "[101]"]
  show ?thesis using c l s assms(1,2) unfolding insert_s_def e r Let_def by (auto simp: keeps_def st_ok_def)
qed

lemma step_1b_repair_returns:
  assumes "st_ok st" "bs_limit_backward st = 0"
  shows "returns letters (one_more st) (step_1b_repair st)"
proof (use find_among_b_cases [OF assms(1) a_3_ok, folded table_sizes(2)] in \<open>elim disjE bexE conjE\<close>)
  assume "find_among_b a_3 13 st = Inr (0, st)"
  then show ?thesis using returns_one_more [OF returns_stay [OF assms]] by (simp add: step_1b_repair_def)
next
  fix w :: Among
  let ?st = "st\<lparr>bs_cursor := bs_cursor st - int (length (am_s w))\<rparr>"
  assume w: "find_among_b a_3 13 st = Inr (am_result w, ?st)" "w \<in> set a_3"
  have r: "am_result w \<in> {1, 2, 3}" using w(2) by (auto simp: a_3_def Among_new_def)
  have ins: "returns letters (one_more st) (Inr (True, (insert_s (bs_cursor st) (bs_cursor st) (js_lit ''e'') st)\<lparr>bs_cursor := bs_cursor st\<rparr>))"
    using insert_keeps [OF assms refl] by (auto simp: returns_def)
  have del: "returns letters st (Inr (slice_from [] (st\<lparr>bs_ket := bs_cursor st, bs_cursor := bs_cursor st - 1, bs_bra := bs_cursor st - 1\<rparr>)))"
    if "\<not> bs_cursor st \<le> bs_limit_backward st"
  proof -
    have "st_ok (st\<lparr>bs_ket := bs_cursor st, bs_cursor := bs_cursor st - 1, bs_bra := bs_cursor st - 1\<rparr>)"
      using that assms by (auto simp: st_ok_def)
    from returns_slice [OF this, of "[]" letters] show ?thesis using assms(2) by simp
  qed
  obtain b c where sv: "r_shortv st = Inr (b, st\<lparr>bs_cursor := c\<rparr>)" "bs_limit_backward st \<le> c" "c \<le> bs_cursor st"
    using moves_bE [OF r_shortv_moves assms(1)] by blast
  have ok: "st_ok (st\<lparr>bs_cursor := c\<rparr>)" "st_ok (st\<lparr>bs_ket := bs_cursor st\<rparr>)" using sv(2,3) assms(1) by (auto simp: st_ok_def)
  have stay: "returns letters (one_more st) (Inr (x, st))" "returns letters (one_more st) (Inr (x, st\<lparr>bs_cursor := c\<rparr>))"
      "returns letters (one_more st) (Inr (x, st\<lparr>bs_ket := bs_cursor st\<rparr>))" for x
    using returns_one_more [OF returns_stay [OF assms]] returns_one_more [OF returns_stay_moved [OF ok(1) assms(2)]]
      returns_one_more [OF returns_stay [OF ok(2), of letters x, simplified]] assms(2) by simp_all
  show ?thesis
  proof (cases "am_result w = 3 \<and> en_p1 st = bs_cursor st")
    case True
    then show ?thesis using w(1) ins stay sv(1) by (auto simp: step_1b_repair_def Let_def)
  next
    case False
    then show ?thesis using r w(1) ins returns_one_more [OF del] stay by (auto simp: step_1b_repair_def Let_def)
  qed
qed

lemma step_1b_fits: "fits a_4 (\<lambda>r. js_lit ''ee'') [1]" "list_all (\<lambda>w. 2 \<le> length (am_s w)) a_4"
  by (simp_all add: fits_def a_4_def Among_new_def js_lit_def)

lemma step_1b_delete:
  assumes "st_ok st" "bs_limit_backward st = 0" "bs_cursor st = bs_bra st" "bs_ket st - bs_bra st = int n" "1 \<le> n" "bs_ket st \<le> bs_limit st"
  shows "\<exists>st'. slice_from [] st = (True, st') \<and> keeps letters st st' \<and> length (bs_current st') < length (bs_current st)"
proof -
  have "slice_check st" using assms by (auto simp: slice_check_def st_ok_def)
  from slice_from_in [OF assms(1) this, of "[]"] spliced_length [of "bs_bra st" "bs_ket st" "bs_current st" "[]"] slice_from_keeps [OF assms(1,2), of "[]" letters]
  show ?thesis using assms by (auto simp: st_ok_def)
qed

lemma r_Step_1b_returns:
  assumes "st_ok st" "bs_limit_backward st = 0"
  shows "returns letters st (r_Step_1b st)"
proof (use find_ending_cases [OF assms a_4_ok no_zero_tables(3) table_sizes(4)] in \<open>elim disjE bexE conjE\<close>)
  assume "find_ending a_4 6 st = Inr (0, st\<lparr>bs_ket := bs_cursor st\<rparr>)"
  then show ?thesis using returns_stay [of "st\<lparr>bs_ket := bs_cursor st\<rparr>" letters False] assms by (simp add: r_Step_1b_def)
next
  fix w
  assume w: "w \<in> set a_4" "find_ending a_4 6 st = Inr (am_result w, at_ending w st)" "st_ok (at_ending w st)" "bs_limit_backward (at_ending w st) = 0"
    "bs_ket (at_ending w st) - bs_bra (at_ending w st) = int (length (am_s w))"
  define s where "s = at_ending w st"
  have s: "st_ok s" "bs_limit_backward s = 0" "bs_ket s - bs_bra s = int (length (am_s w))" "bs_cursor s = bs_bra s" "bs_ket s \<le> bs_limit s"
    using w assms by (simp_all add: s_def at_ending_def st_ok_def)
  have len: "1 \<le> length (am_s w)" using step_1b_fits(2) w(1) by (auto simp: list_all_iff)
  have "returns letters s (Inr (slice_from (js_lit ''ee'') s))" if "am_result w = 1"
    using returns_fits [OF step_1b_fits(1) w(1) _ s(1-3)] that by simp
  moreover have "returns letters s (js_bind (gopast_b vowel_b s) (\<lambda>(b, st').
          if \<not> b then Inr (False, st')
          else
            (let (ok, st) = slice_from [] (st'\<lparr>bs_cursor := bs_limit st' - (bs_limit s - bs_cursor s)\<rparr>)
             in if \<not> ok then Inr (False, st) else step_1b_repair st)))"
  proof (rule returns_test [OF vowel_b_moves(3) s(1,2)])
    fix b c
    assume ok: "st_ok (s\<lparr>bs_cursor := c\<rparr>)"
    obtain s' where s': "slice_from [] s = (True, s')" "keeps letters s s'" "length (bs_current s') < length (bs_current s)"
      using step_1b_delete [OF s(1,2,4,3) len s(5)] by blast
    from s'(2) have ok': "st_ok s'" "bs_limit_backward s' = 0" by (simp_all add: keeps_def)
    have "returns letters s (step_1b_repair s')" using step_1b_repair_returns [OF ok'] s'(2,3) by (fastforce simp: returns_def keeps_def)
    then show "returns letters s (case (b, s\<lparr>bs_cursor := c\<rparr>) of (b, st') \<Rightarrow> if \<not> b then Inr (False, st')
          else (let (ok, st) = slice_from [] (st'\<lparr>bs_cursor := bs_limit st' - (bs_limit s - bs_cursor s)\<rparr>)
             in if \<not> ok then Inr (False, st) else step_1b_repair st))"
      using s'(1) returns_stay_moved [OF ok s(2)] by simp
  qed
  ultimately have "returns letters s (r_Step_1b st)" using w(2) s(1,2) by (simp add: r_Step_1b_def s_def [symmetric] returns_stay)
  then show ?thesis by (simp add: s_def)
qed

lemma r_exception2_returns:
  assumes "st_ok st" "bs_limit_backward st = 0"
  shows "returns letters st (r_exception2 st)"
  unfolding r_exception2_def
  by (rule returns_ending [OF assms a_9_ok no_zero_tables(8) table_sizes(5)]) (auto intro: returns_stay)

lemma exception_fits: "fits a_10 (\<lambda>r. exception_words ! nat (r - 1)) [1..11]"
  by (simp add: fits_def a_10_def Among_new_def js_lit_def exception_words_def upto.simps)

lemma r_exception1_returns:
  assumes "st_ok st" "bs_limit_backward st = 0"
  shows "returns letters st (r_exception1 st)"
proof -
  let ?st = "st\<lparr>bs_bra := bs_cursor st\<rparr>"
  have ok: "st_ok ?st" using assms by simp
  from find_among_cases [OF ok a_10_ok, folded table_sizes(3)] show ?thesis
  proof (elim disjE bexE conjE)
    assume "find_among a_10 18 ?st = Inr (0, ?st)"
    then show ?thesis using returns_stay [OF ok, of letters False] assms(2) by (simp add: r_exception1_def)
  next
    fix w :: Among
    let ?s = "?st\<lparr>bs_cursor := bs_cursor ?st + int (length (am_s w))\<rparr>"
    assume w: "w \<in> set a_10" "find_among a_10 18 ?st = Inr (am_result w, ?s)" "bs_cursor ?st + int (length (am_s w)) \<le> bs_limit ?st"
    have r: "am_result w \<noteq> 0" using w(1) by (auto simp: a_10_def Among_new_def)
    define s where "s = st\<lparr>bs_bra := bs_cursor st, bs_cursor := bs_cursor st + int (length (am_s w)), bs_ket := bs_cursor st + int (length (am_s w))\<rparr>"
    have s: "st_ok s" "bs_limit_backward s = 0" "bs_ket s - bs_bra s = int (length (am_s w))"
      using w(3) assms by (auto simp: s_def st_ok_def)
    have "returns letters s (r_exception1 st)"
      using w(2) r returns_stay [OF s(1,2), of letters] returns_fits [OF exception_fits w(1) _ s]
      by (simp add: r_exception1_def s_def [symmetric])
    then show ?thesis by (simp add: s_def)
  qed
qed

lemma r_postlude_returns:
  assumes "st_ok st" "bs_limit_backward st = 0" "bs_cursor st = 0"
  shows "\<exists>b st'. r_postlude st = Inr (b, st') \<and> keeps letters st st' \<and> (en_Y_found st \<longrightarrow> 89 \<notin> set (bs_current st'))"
proof (cases "en_Y_found st")
  case True
  have "count_list (bs_current st) 89 < length (bs_current st) + 1" using count_le_length [of "bs_current st" 89] by simp
  then show ?thesis using unmark_y_returns [OF assms(1,2), of "length (bs_current st) + 1"] assms(3) True
    by (simp add: r_postlude_def del: unmark_y.simps) blast
next
  case False
  then show ?thesis using keeps_refl [OF assms(1,2), of letters] by (auto simp: r_postlude_def)
qed

definition at_end :: "EnglishStemmer \<Rightarrow> EnglishStemmer js \<Rightarrow> bool" where
  "at_end st r \<longleftrightarrow> (\<exists>st'. r = Inr st' \<and> keeps letters st st' \<and> bs_cursor st' = bs_limit st')"

lemma at_end_step:
  assumes "\<forall>st. st_ok st \<longrightarrow> bs_limit_backward st = 0 \<longrightarrow> returns letters st (f st)" "at_end st r"
  shows "at_end st (js_bind r (attempt_b f))"
proof -
  obtain s where s: "r = Inr s" "keeps letters st s" "bs_cursor s = bs_limit s" using assms(2) by (auto simp: at_end_def)
  then have "returns letters s (f s)" using assms(1) by (simp add: keeps_def)
  from returns_attempt_b [of letters s f, OF this s(3)] show ?thesis using s(1,2) keeps_trans [of letters st s] by (auto simp: at_end_def)
qed

lemma js_bind_assoc: "js_bind (js_bind m f) g = js_bind m (\<lambda>x. js_bind (f x) g)"
  by (simp add: js_bind_def split: sum.split)

lemma steps_return:
  "\<forall>st. st_ok st \<longrightarrow> bs_limit_backward st = 0 \<longrightarrow> returns letters st (r_Step_1b st)"
  "\<forall>st. st_ok st \<longrightarrow> bs_limit_backward st = 0 \<longrightarrow> returns letters st (r_Step_1c st)"
  "\<forall>st. st_ok st \<longrightarrow> bs_limit_backward st = 0 \<longrightarrow> returns letters st (r_Step_2 st)"
  "\<forall>st. st_ok st \<longrightarrow> bs_limit_backward st = 0 \<longrightarrow> returns letters st (r_Step_3 st)"
  "\<forall>st. st_ok st \<longrightarrow> bs_limit_backward st = 0 \<longrightarrow> returns letters st (r_Step_4 st)"
  "\<forall>st. st_ok st \<longrightarrow> bs_limit_backward st = 0 \<longrightarrow> returns letters st (r_Step_5 st)"
  by (simp_all add: r_Step_1b_returns r_Step_1c_returns r_Step_2_returns r_Step_3_returns r_Step_4_returns r_Step_5_returns)

lemma english_steps_end:
  assumes "st_ok st" "bs_limit_backward st = 0" "bs_cursor st = bs_limit st"
  shows "at_end st (english_steps st)"
proof -
  have "at_end st (Inr st)" using assms keeps_refl by (simp add: at_end_def)
  from this [THEN at_end_step [OF steps_return(1)], THEN at_end_step [OF steps_return(2)], THEN at_end_step [OF steps_return(3)],
      THEN at_end_step [OF steps_return(4)], THEN at_end_step [OF steps_return(5)], THEN at_end_step [OF steps_return(6)]]
  show ?thesis by (simp add: english_steps_def js_bind_assoc)
qed

section \<open>Stemming\<close>

text \<open>A stem: at most as long as the word, with its characters and lower-case letters.\<close>

definition stem_of :: "jsstring \<Rightarrow> jsstring \<Rightarrow> bool" where
  "stem_of word res \<longleftrightarrow> length res \<le> length word \<and> set res \<subseteq> set word \<union> letters"

text \<open>From the preparation of a word of three or more characters to its end.\<close>

lemma english_body:
  assumes "st_ok st" "bs_limit_backward st = 0" "bs_cursor st = 0"
  shows "\<exists>s1 s2. attempt r_prelude st = Inr s1 \<and> prelude_post st s1 \<and> attempt r_mark_regions s1 = Inr s2
    \<and> bs_cursor s2 = 0 \<and> bs_current s2 = bs_current s1 \<and> en_Y_found s2 = en_Y_found s1 \<and> st_ok s2 \<and> bs_limit_backward s2 = 0
    \<and> bs_cache s2 = bs_cache s1"
proof -
  obtain s where s: "r_prelude st = Inr (True, s)" "prelude_post st s" using r_prelude_returns [OF assms] by blast
  define s1 where "s1 = s\<lparr>bs_cursor := 0\<rparr>"
  have a1: "attempt r_prelude st = Inr s1" using s(1) assms(3) by (simp add: attempt_def s1_def)
  have p1: "prelude_post st s1" using s(2) by (simp add: prelude_post_def s1_def st_ok_def)
  then have ok1: "st_ok s1" by (simp add: prelude_post_def)
  obtain p1 p2 where "r_mark_regions s1 = Inr (True, s1\<lparr>en_p1 := p1, en_p2 := p2\<rparr>)" using r_mark_regions_returns [OF ok1] by blast
  then have "attempt r_mark_regions s1 = Inr (s1\<lparr>en_p1 := p1, en_p2 := p2\<rparr>)" by (simp add: attempt_def)
  then show ?thesis using a1 p1 by (intro exI [of _ s1] exI [of _ "s1\<lparr>en_p1 := p1, en_p2 := p2\<rparr>"]) (simp add: prelude_post_def s1_def)
qed

lemma english_suffixes:
  assumes "st_ok st" "bs_limit_backward st = 0" "bs_cursor st = bs_limit st"
  shows "\<exists>s1 b s2 s3. attempt_b r_Step_1a st = Inr s1 \<and> r_exception2 s1 = Inr (b, s2)
    \<and> (if b then Inr s2 else english_steps (s2\<lparr>bs_cursor := bs_limit s2 - (bs_limit s1 - bs_cursor s1)\<rparr>)) = Inr s3 \<and> keeps letters st s3"
proof -
  obtain s1 where 1: "attempt_b r_Step_1a st = Inr s1" "keeps letters st s1" "bs_cursor s1 = bs_limit s1"
    using returns_attempt_b [of letters st r_Step_1a, OF r_Step_1a_returns [OF assms(1,2)] assms(3)] by blast
  have ok1: "st_ok s1" "bs_limit_backward s1 = 0" using 1(2) by (simp_all add: keeps_def)
  obtain b s2 where 2: "r_exception2 s1 = Inr (b, s2)" "keeps letters s1 s2" using r_exception2_returns [OF ok1] by (auto simp: returns_def)
  let ?s = "s2\<lparr>bs_cursor := bs_limit s2 - (bs_limit s1 - bs_cursor s1)\<rparr>"
  have "st_ok ?s" "bs_limit_backward ?s = 0" "bs_cursor ?s = bs_limit ?s" using 1(3) 2(2) by (auto simp: keeps_def st_ok_def)
  from english_steps_end [OF this] obtain s3 where 3: "english_steps ?s = Inr s3" "keeps letters s2 s3" by (auto simp: at_end_def)
  show ?thesis
  proof (cases b)
    case True
    then have "(if b then Inr s2 else english_steps ?s) = Inr s2" by simp
    then show ?thesis using 1 2 keeps_trans by blast
  next
    case False
    then have "(if b then Inr s2 else english_steps ?s) = Inr s3" using 3(1) by simp
    then show ?thesis using 1 2 3(2) keeps_trans by blast
  qed
qed

lemma EnglishStemmer_stem_returns:
  assumes "st_ok st" "bs_limit_backward st = 0" "bs_cursor st = 0"
  shows "\<exists>b st'. EnglishStemmer_stem st = Inr (b, st') \<and> stem_of (bs_current st) (bs_current st') \<and> bs_cache st' = bs_cache st"
proof -
  obtain b0 s0 where 0: "r_exception1 st = Inr (b0, s0)" "keeps letters st s0" using r_exception1_returns [OF assms(1,2)] by (auto simp: returns_def)
  let ?s = "s0\<lparr>bs_cursor := 0\<rparr>"
  have ok0: "st_ok ?s" "bs_limit_backward ?s = 0" "bs_cursor ?s = 0" using keeps_start [OF 0(2)] 0(2) by (simp_all add: keeps_def)
  have so: "stem_of (bs_current st) (bs_current s0)" "bs_cache s0 = bs_cache st" using 0(2) by (simp_all add: stem_of_def keeps_def)
  show ?thesis
  proof (cases "b0 \<or> 3 > bs_limit s0")
    case True
    then show ?thesis using 0(1) so assms(3) by (cases b0) (auto simp: EnglishStemmer_stem_def)
  next
    case False
    obtain s1 s2 where 12: "attempt r_prelude ?s = Inr s1" "prelude_post ?s s1" "attempt r_mark_regions s1 = Inr s2" "bs_cursor s2 = 0"
        "bs_current s2 = bs_current s1" "en_Y_found s2 = en_Y_found s1" "st_ok s2" "bs_limit_backward s2 = 0" "bs_cache s2 = bs_cache s1"
      using english_body [OF ok0] by blast
    let ?e = "s2\<lparr>bs_limit_backward := bs_cursor s2, bs_cursor := bs_limit s2\<rparr>"
    have "st_ok ?e" "bs_limit_backward ?e = 0" "bs_cursor ?e = bs_limit ?e" using 12(4,7) by (simp_all add: st_ok_def)
    from english_suffixes [OF this] obtain s3 b s4 s5 where 35: "attempt_b r_Step_1a ?e = Inr s3" "r_exception2 s3 = Inr (b, s4)"
        "(if b then Inr s4 else english_steps (s4\<lparr>bs_cursor := bs_limit s4 - (bs_limit s3 - bs_cursor s3)\<rparr>)) = Inr s5" "keeps letters ?e s5"
      by blast
    have k: "length (bs_current s5) \<le> length (bs_current s1)" "set (bs_current s5) \<subseteq> set (bs_current s1) \<union> letters" "bs_cache s5 = bs_cache s1"
        "en_Y_found s5 = en_Y_found s1"
      using 35(4) 12(5,6,9) by (simp_all add: keeps_def) (metis EnglishStemmer.ext_inject EnglishStemmer.surjective BaseStemmer.select_convs(8))
    let ?p = "s5\<lparr>bs_cursor := bs_limit_backward s5\<rparr>"
    have "st_ok ?p" "bs_limit_backward ?p = 0" "bs_cursor ?p = 0" using 35(4) by (simp_all add: keeps_def st_ok_def)
    from r_postlude_returns [OF this] obtain b' s6 where 6: "r_postlude ?p = Inr (b', s6)" "keeps letters ?p s6" "en_Y_found s5 \<longrightarrow> 89 \<notin> set (bs_current s6)"
      by auto
    then have a6: "attempt r_postlude ?p = Inr (s6\<lparr>bs_cursor := bs_cursor ?p\<rparr>)" by (simp add: attempt_def)
    have r: "EnglishStemmer_stem st = Inr (True, s6\<lparr>bs_cursor := bs_cursor ?p\<rparr>)"
      using False by (simp add: EnglishStemmer_stem_def 0(1) assms(3) Let_def 12(1,3) 35(1,2,3) a6 not_less)
    have "set (bs_current s6) \<subseteq> set (bs_current s1) \<union> letters" "length (bs_current s6) \<le> length (bs_current s1)" "bs_cache s6 = bs_cache s1"
      using 6(2) k by (auto simp: keeps_def)
    moreover have "set (bs_current s1) \<subseteq> set (bs_current s0) \<union> {89}" "length (bs_current s1) \<le> length (bs_current s0)" "bs_cache s1 = bs_cache s0"
        "set (bs_current s1) \<subseteq> set (bs_current s0) \<or> en_Y_found s5" using 12(2) k(4) by (auto simp: prelude_post_def)
    ultimately have "stem_of (bs_current st) (bs_current s6)" using so(1) 6(3) by (auto simp: stem_of_def)
    then show ?thesis using r so(2) \<open>bs_cache s6 = bs_cache s1\<close> \<open>bs_cache s1 = bs_cache s0\<close> by auto
  qed
qed

section \<open>Stemming words\<close>

definition cache_stems :: "EnglishStemmer \<Rightarrow> bool" where
  "cache_stems st \<longleftrightarrow> (\<forall>word res. map_of (bs_cache st) (46 # word) = Some res \<longrightarrow> stem_of word res)"

lemma stemWord_returns:
  assumes "cache_stems st"
  shows "\<exists>res st'. stemWord EnglishStemmer_stem word st = Inr (res, st') \<and> stem_of word res \<and> cache_stems st'"
proof (cases "map_of (bs_cache st) (46 # word)")
  case None
  let ?s = "BaseStemmer_setCurrent word st"
  have "st_ok ?s" "bs_limit_backward ?s = 0" "bs_cursor ?s = 0" by (simp_all add: BaseStemmer_setCurrent_def st_ok_def)
  from EnglishStemmer_stem_returns [OF this] obtain b s where
    s: "EnglishStemmer_stem ?s = Inr (b, s)" "stem_of word (bs_current s)" "bs_cache s = bs_cache st" by (auto simp: BaseStemmer_setCurrent_def)
  then show ?thesis using None assms by (auto simp: stemWord_def cache_stems_def)
next
  case (Some res)
  then show ?thesis using assms by (auto simp: stemWord_def cache_stems_def)
qed

lemma stemWords_fold_returns:
  assumes "cache_stems st" "list_all2 stem_of before results"
  shows "\<exists>results' st'. js_fold (\<lambda>(results, st) word. js_bind (stemWord EnglishStemmer_stem word st) (\<lambda>(res, st). Inr (results @ [res], st)))
      (results, st) words = Inr (results', st') \<and> list_all2 stem_of (before @ words) results' \<and> cache_stems st'"
  using assms
proof (induction words arbitrary: st before results)
  case (Cons word words)
  from stemWord_returns [OF Cons.prems(1)] obtain res s where
    s: "stemWord EnglishStemmer_stem word st = Inr (res, s)" "stem_of word res" "cache_stems s" by blast
  have "list_all2 stem_of (before @ [word]) (results @ [res])" using Cons.prems(2) s(2) by (simp add: list_all2_appendI)
  from Cons.IH [OF s(3) this] show ?case using s(1) by simp
qed simp

text \<open>
  C9.  C: The English stemmer, given any list of words, stops and returns a stem for every word without reading outside
  of a word: a stem is at most as long as its word and has only characters of the word and lower-case letters
  (so the mark \<^verbatim>\<open>Y\<close> is gone), whatever words were stemmed before and are in the cache.
\<close>

theorem english_stemWords_total:
  "\<exists>results st. stemWords EnglishStemmer_stem words EnglishStemmer_new = Inr (results, st)
    \<and> list_all2 (\<lambda>word res. length res \<le> length word \<and> set res \<subseteq> set word \<union> {97..122}) words results"
proof -
  have "cache_stems EnglishStemmer_new" by (simp add: cache_stems_def EnglishStemmer_new_def BaseStemmer_new_def BaseStemmer.defs EnglishStemmer.defs)
  from stemWords_fold_returns [OF this, of "[]" "[]" words] show ?thesis
    by (auto simp: stemWords_def stem_of_def [abs_def])
qed

text \<open>
  C11.  C: With the tables of endings of the English stemmer, the binary search over shared prefixes that
  \<^verbatim>\<open>find_among_b\<close> runs agrees with a plain reading of all entries: it finds the longest entry that the word has
  before the cursor and after the backward limit, moves the cursor in front of it and returns its number, or returns 0 and stays.
\<close>

theorem find_among_b_finds_longest:
  assumes "st_ok st" "v \<in> {a_1, a_2, a_3, a_4, a_5, a_6, a_7, a_8, a_9}"
  shows "find_among_b v (length v) st = Inr (case longest_entry (\<lambda>w. rev (am_s w)) v (behind st) of
      None \<Rightarrow> (0, st)
    | Some w \<Rightarrow> (am_result w, st\<lparr>bs_cursor := bs_cursor st - int (length (am_s w))\<rparr>))"
  using find_among_b_longest [OF assms(1)] assms(2) a_1_ok a_2_ok a_3_ok a_4_ok a_5_ok a_6_ok a_7_ok a_8_ok a_9_ok by blast

lemma find_among_b_finds_longest_witness:
  "find_among_b a_2 6 (BaseStemmer_setCurrent (js_lit ''caresses'') BaseStemmer_new\<lparr>bs_cursor := 8\<rparr>) =
    Inr (1, BaseStemmer_setCurrent (js_lit ''caresses'') BaseStemmer_new\<lparr>bs_cursor := 4\<rparr>)"
proof -
  let ?st = "BaseStemmer_setCurrent (js_lit ''caresses'') BaseStemmer_new\<lparr>bs_cursor := 8\<rparr>"
  have "st_ok ?st" by (simp add: st_ok_def BaseStemmer_setCurrent_def js_lit_def)
  note f = find_among_b_finds_longest [OF this, of a_2]
  have "longest_entry (\<lambda>w. rev (am_s w)) a_2 (behind ?st) = Some (Among_new ''sses'' 1 1)"
    by (simp add: longest_entry_def better_entry_def behind_def starts_with_def a_2_def Among_new_def js_lit_def BaseStemmer_setCurrent_def)
  moreover have "length a_2 = 6" by (simp add: a_2_def)
  ultimately show ?thesis using f by (simp add: Among_new_def js_lit_def BaseStemmer_setCurrent_def)
qed

end
