(* ===== verification/Stem_Cache.thy ===== *)
theory Stem_Cache
  imports English_Stemmer
begin

text \<open>
  One stemmer object serves all words of an index and of the queries.  Its cache and the fields that
  earlier words leave behind must not decide about later words.  The locales of this theory state what
  it means that a part of the state is not looked at, their lemmas carry that through all routines, and
  the interpretations give the parts: the cache for all of the stemmer, the regions until they are
  marked, and the own fields of the English stemmer until the preparation sets them.
\<close>

section \<open>What a stemmer does not look at\<close>

text \<open>
  A part of the state that the routines leave alone: \<^verbatim>\<open>u\<close> changes it, and changes nothing that the
  machine reads or writes.
\<close>

locale frame =
  fixes u :: "'a BaseStemmer_scheme \<Rightarrow> 'a BaseStemmer_scheme"
  assumes reads [simp]: "bs_current (u st) = bs_current st" "bs_cursor (u st) = bs_cursor st" "bs_limit (u st) = bs_limit st"
      "bs_limit_backward (u st) = bs_limit_backward st" "bs_bra (u st) = bs_bra st" "bs_ket (u st) = bs_ket st"
    and writes [simp]: "(u st)\<lparr>bs_current := s\<rparr> = u (st\<lparr>bs_current := s\<rparr>)" "(u st)\<lparr>bs_cursor := i\<rparr> = u (st\<lparr>bs_cursor := i\<rparr>)"
      "(u st)\<lparr>bs_limit := i\<rparr> = u (st\<lparr>bs_limit := i\<rparr>)" "(u st)\<lparr>bs_limit_backward := i\<rparr> = u (st\<lparr>bs_limit_backward := i\<rparr>)"
      "(u st)\<lparr>bs_bra := i\<rparr> = u (st\<lparr>bs_bra := i\<rparr>)" "(u st)\<lparr>bs_ket := i\<rparr> = u (st\<lparr>bs_ket := i\<rparr>)"
begin

definition carry :: "('b \<times> 'a BaseStemmer_scheme) js \<Rightarrow> ('b \<times> 'a BaseStemmer_scheme) js" where
  "carry r = js_bind r (\<lambda>(b, st). Inr (b, u st))"

definition carried :: "'b \<times> 'a BaseStemmer_scheme \<Rightarrow> 'b \<times> 'a BaseStemmer_scheme" where
  "carried p = (fst p, u (snd p))"

lemma carry_simps [simp]:
  "carry (Inr p) = Inr (carried p)" "carry (Inl e) = Inl e" "carried (b, st) = (b, u st)"
  "carried (if c then p else q) = (if c then carried p else carried q)"
  by (simp_all add: carry_def carried_def split: prod.split)

lemma carry_if [simp]: "carry (if c then r else r') = (if c then carry r else carry r')"
  by simp

lemma carry_bindI: "r' = carry r \<Longrightarrow> (\<And>b st. f (b, u st) = carry (g (b, st))) \<Longrightarrow> js_bind r' f = carry (js_bind r g)"
  by (cases r) (auto simp: carry_def)

lemma test_forward_frame [simp]: "test_forward P (u st) = carry (test_forward P st)"
  by (cases "char_code (bs_current st) (bs_cursor st)") (simp_all add: test_forward_def)

lemma test_backward_frame [simp]: "test_backward P (u st) = carry (test_backward P st)"
  by (cases "char_code (bs_current st) (bs_cursor st - 1)") (simp_all add: test_backward_def)

lemma grouping_frame [simp]:
  "in_grouping s mn mx (u st) = carry (in_grouping s mn mx st)" "out_grouping s mn mx (u st) = carry (out_grouping s mn mx st)"
  "in_grouping_b s mn mx (u st) = carry (in_grouping_b s mn mx st)" "out_grouping_b s mn mx (u st) = carry (out_grouping_b s mn mx st)"
  by (simp_all add: in_grouping_def out_grouping_def in_grouping_b_def out_grouping_b_def)

lemma eq_s_frame [simp]: "eq_s n s (u st) = carried (eq_s n s st)" "eq_s_b n s (u st) = carried (eq_s_b n s st)"
  by (simp_all add: eq_s_def eq_s_b_def)

lemma find_among_frame [simp]: "find_among v n (u st) = carry (find_among v n st)" "find_among_b v n (u st) = carry (find_among_b v n st)"
  by (auto simp: find_among_def find_among_b_def Let_def carry_def js_bind_def split: sum.split option.split prod.split)

lemma replace_s_frame [simp]: "replace_s br k s (u st) = carried (replace_s br k s st)"
  by (simp add: replace_s_def Let_def)

lemma slice_from_frame [simp]: "slice_from s (u st) = carried (slice_from s st)"
  by (simp add: slice_from_def slice_check_def carried_def)

lemma insert_s_frame [simp]: "insert_s br k s (u st) = u (insert_s br k s st)"
  by (cases "replace_s br k s st") (simp add: insert_s_def Let_def)

lemma and_then_frame:
  assumes "\<And>st. f (u st) = carry (f st)" "\<And>st. g (u st) = carry (g st)"
  shows "and_then f g (u st) = carry (and_then f g st)"
  unfolding and_then_def by (rule carry_bindI) (simp_all add: assms)

lemma or_else_b_frame:
  assumes "\<And>st. f (u st) = carry (f st)" "\<And>st. g (u st) = carry (g st)"
  shows "or_else_b f g (u st) = carry (or_else_b f g st)"
  unfolding or_else_b_def by (rule carry_bindI) (simp_all add: assms)

lemma gopast_frame:
  assumes "\<And>st. f (u st) = carry (f st)"
  shows "gopast f (u st) = carry (gopast f st)" "gopast_b f (u st) = carry (gopast_b f st)" "goto_place f (u st) = carry (goto_place f st)"
proof -
  have "gopast_loop n f (u st) = carry (gopast_loop n f st)" for n st
  proof (induction n arbitrary: st)
    case (Suc n)
    show ?case unfolding gopast_loop.simps by (rule carry_bindI) (simp_all add: assms Suc.IH)
  qed simp
  moreover have "gopast_b_loop n f (u st) = carry (gopast_b_loop n f st)" for n st
  proof (induction n arbitrary: st)
    case (Suc n)
    show ?case unfolding gopast_b_loop.simps by (rule carry_bindI) (simp_all add: assms Suc.IH)
  qed simp
  moreover have "goto_loop n f (u st) = carry (goto_loop n f st)" for n st
  proof (induction n arbitrary: st)
    case (Suc n)
    show ?case unfolding goto_loop.simps by (rule carry_bindI) (simp_all add: assms Suc.IH Let_def)
  qed simp
  ultimately show "gopast f (u st) = carry (gopast f st)" "gopast_b f (u st) = carry (gopast_b f st)" "goto_place f (u st) = carry (goto_place f st)"
    by (simp_all add: gopast_def gopast_b_def goto_place_def)
qed

end

section \<open>The English stemmer\<close>

locale english_frame = frame u for u :: "EnglishStemmer \<Rightarrow> EnglishStemmer"
begin

lemma vowel_frame [simp]: "vowel (u st) = carry (vowel st)" "non_vowel (u st) = carry (non_vowel st)"
  "vowel_b (u st) = carry (vowel_b st)" "non_vowel_b (u st) = carry (non_vowel_b st)"
  by (simp_all add: vowel_def non_vowel_def vowel_b_def non_vowel_b_def)

lemma find_ending_frame [simp]: "find_ending v n (u st) = carry (find_ending v n st)"
  unfolding find_ending_def by (rule carry_bindI) simp_all

lemma find_vowel_y_frame: "find_vowel_y (u st) = carry (find_vowel_y st)"
  unfolding find_vowel_y_def by (rule and_then_frame) (simp_all add: carried_def Let_def split: prod.split)

lemma find_Y_frame: "find_Y (u st) = carry (find_Y st)"
  by (simp add: find_Y_def carried_def Let_def split: prod.split)

lemma r_shortv_frame [simp]: "r_shortv (u st) = carry (r_shortv st)"
  unfolding r_shortv_def by (intro or_else_b_frame and_then_frame) simp_all

lemma r_exception1_frame [simp]: "r_exception1 (u st) = carry (r_exception1 st)"
  unfolding r_exception1_def by (rule carry_bindI) (simp_all add: Let_def)

lemma r_exception2_frame [simp]: "r_exception2 (u st) = carry (r_exception2 st)"
  unfolding r_exception2_def by (rule carry_bindI) simp_all

lemma step_1a_ending_frame [simp]: "step_1a_ending (u st) = carry (step_1a_ending st)"
  unfolding step_1a_ending_def
  by (rule carry_bindI) (simp_all add: Let_def and_then_frame gopast_frame)

lemma r_Step_1a_frame [simp]: "r_Step_1a (u st) = carry (r_Step_1a st)"
  unfolding r_Step_1a_def
  by (rule carry_bindI) (simp_all add: Let_def carried_def split: prod.split)

lemma r_Step_1c_frame [simp]: "r_Step_1c (u st) = carry (r_Step_1c st)"
  unfolding r_Step_1c_def
  by (intro carry_bindI) (simp_all add: or_else_b_frame, intro conjI impI carry_bindI, simp_all)

lemma unmark_y_frame [simp]: "unmark_y n (u st) = carry (unmark_y n st)"
proof (induction n arbitrary: st)
  case (Suc n)
  show ?case unfolding unmark_y.simps by (rule carry_bindI) (simp_all add: gopast_frame find_Y_frame Let_def Suc.IH carried_def split: prod.split)
qed simp

end

locale english_mark_frame = english_frame +
  assumes Y_reads [simp]: "en_Y_found (u st) = en_Y_found st" and Y_writes [simp]: "(u st)\<lparr>en_Y_found := y\<rparr> = u (st\<lparr>en_Y_found := y\<rparr>)"
begin

lemma mark_y_frame [simp]: "mark_y n (u st) = carry (mark_y n st)"
proof (induction n arbitrary: st)
  case (Suc n)
  show ?case unfolding mark_y.simps by (rule carry_bindI) (simp_all add: gopast_frame find_vowel_y_frame Let_def Suc.IH carried_def split: prod.split)
qed simp

lemma r_prelude_frame [simp]: "r_prelude (u st) = carry (r_prelude st)"
proof -
  let ?v = "bs_cursor st"
  obtain b1 s1 where 1: "eq_s 1 [39] (st\<lparr>en_Y_found := False, bs_bra := ?v\<rparr>) = (b1, s1)" by fastforce
  obtain ok1 s2 where 2: "(if b1 then slice_from [] (s1\<lparr>bs_ket := bs_cursor s1\<rparr>) else (True, s1)) = (ok1, s2)" by fastforce
  let ?s = "s2\<lparr>bs_cursor := ?v\<rparr>"
  obtain b2 s3 where 3: "eq_s 1 (js_lit ''y'') (?s\<lparr>bs_bra := bs_cursor ?s\<rparr>) = (b2, s3)" by fastforce
  obtain ok2 s4 where 4: "(if b2 then slice_from (js_lit ''Y'') (s3\<lparr>bs_ket := bs_cursor s3\<rparr>) else (True, s3)) = (ok2, s4)" by fastforce
  note eqs = arg_cong [OF 2, of carried, unfolded carry_simps(3,4)] arg_cong [OF 4, of carried, unfolded carry_simps(3,4)]
  let ?f = "\<lambda>r. js_bind r (\<lambda>(ok, st). if \<not> ok then Inr (False, st) else Inr (True, st\<lparr>bs_cursor := ?v\<rparr>))"
  let ?t = "(if b2 then s4\<lparr>en_Y_found := True\<rparr> else s4)\<lparr>bs_cursor := ?v\<rparr>"
  have l: "r_prelude st = (if \<not> ok1 then Inr (False, s2) else if \<not> ok2 then Inr (False, s4) else ?f (mark_y (length (bs_current ?t) + 1) ?t))"
    by (simp only: r_prelude_def Let_def 1 split_conv 2 3 4)
  have "r_prelude (u st) = (if \<not> ok1 then Inr (False, u s2) else if \<not> ok2 then Inr (False, u s4) else ?f (mark_y (length (bs_current ?t) + 1) (u ?t)))"
    by (simp only: r_prelude_def Let_def reads Y_writes writes eq_s_frame 1 3 carry_simps(3) split_conv slice_from_frame eqs if_distrib [of u, symmetric])
  then show ?thesis unfolding l by (simp add: carry_bindI)
qed

lemma r_postlude_frame [simp]: "r_postlude (u st) = carry (r_postlude st)"
  by (simp add: r_postlude_def del: unmark_y.simps)

end

locale english_full_frame = english_mark_frame +
  assumes p_reads [simp]: "en_p1 (u st) = en_p1 st" "en_p2 (u st) = en_p2 st"
    and p_writes [simp]: "(u st)\<lparr>en_p1 := i\<rparr> = u (st\<lparr>en_p1 := i\<rparr>)" "(u st)\<lparr>en_p2 := i\<rparr> = u (st\<lparr>en_p2 := i\<rparr>)"
begin

lemma R_frame [simp]: "r_R1 (u st) = r_R1 st" "r_R2 (u st) = r_R2 st"
  by (simp_all add: r_R1_def r_R2_def)

lemma r_mark_regions_frame [simp]: "r_mark_regions (u st) = carry (r_mark_regions st)"
  unfolding r_mark_regions_def Let_def
proof (rule carry_bindI, goal_cases)
  case (2 among_var s)
  show ?case unfolding split_conv
  proof (rule carry_bindI, goal_cases)
    case (2 b s)
    show ?case unfolding split_conv by (cases b) (auto intro!: carry_bindI simp: and_then_frame gopast_frame)
  qed (simp add: and_then_frame gopast_frame)
qed simp

lemma step_1b_repair_frame [simp]: "step_1b_repair (u st) = carry (step_1b_repair st)"
  unfolding step_1b_repair_def by (rule carry_bindI) (auto simp: Let_def intro!: carry_bindI)

lemma r_Step_1b_frame [simp]: "r_Step_1b (u st) = carry (r_Step_1b st)"
  unfolding r_Step_1b_def
  by (rule carry_bindI) (auto simp: Let_def gopast_frame carried_def intro!: carry_bindI split: prod.split)

lemma r_Step_2_frame [simp]: "r_Step_2 (u st) = carry (r_Step_2 st)"
  unfolding r_Step_2_def eq_s_b_guard by (rule carry_bindI) (auto simp: and_then_frame)

lemma r_Step_3_frame [simp]: "r_Step_3 (u st) = carry (r_Step_3 st)"
  unfolding r_Step_3_def by (rule carry_bindI) auto

lemma r_Step_4_frame [simp]: "r_Step_4 (u st) = carry (r_Step_4 st)"
  unfolding r_Step_4_def by (rule carry_bindI) (auto simp: and_then_frame or_else_b_frame)

lemma r_Step_5_frame [simp]: "r_Step_5 (u st) = carry (r_Step_5 st)"
  unfolding r_Step_5_def eq_s_b_guard by (rule carry_bindI) (auto simp: and_then_frame intro!: carry_bindI)

definition carry_state :: "EnglishStemmer js \<Rightarrow> EnglishStemmer js" where
  "carry_state r = js_bind r (\<lambda>st. Inr (u st))"

lemma carry_state_bind: "r' = carry_state r \<Longrightarrow> (\<And>st. f (u st) = carry_state (g st)) \<Longrightarrow> js_bind r' f = carry_state (js_bind r g)"
  by (cases r) (simp_all add: carry_state_def)

lemma carry_state_carry: "r' = carry_state r \<Longrightarrow> (\<And>st. f (u st) = carry (g st)) \<Longrightarrow> js_bind r' f = carry (js_bind r g)"
  by (cases r) (simp_all add: carry_state_def)

lemma attempt_frame:
  assumes "\<And>st. f (u st) = carry (f st)"
  shows "attempt f (u st) = carry_state (attempt f st)" "attempt_b f (u st) = carry_state (attempt_b f st)"
  by (cases "f st"; auto simp: attempt_def attempt_b_def assms carry_state_def carry_def split: prod.split)+

lemma english_steps_frame: "english_steps (u st) = carry_state (english_steps st)"
  unfolding english_steps_def by (intro carry_state_bind attempt_frame) simp_all

lemma EnglishStemmer_stem_frame: "EnglishStemmer_stem (u st) = carry (EnglishStemmer_stem st)"
  unfolding EnglishStemmer_stem_def
proof (rule carry_bindI, goal_cases)
  case (2 b s)
  have rest: "(if b then Inr (u s) else english_steps ((u s)\<lparr>bs_cursor := i\<rparr>)) = carry_state (if b then Inr s else english_steps (s\<lparr>bs_cursor := i\<rparr>))"
    for b s i by (simp add: english_steps_frame carry_state_def)
  show ?case
    apply (simp only: split_conv Let_def reads writes carry_if)
    apply (rule if_cong [OF refl], simp)
    apply (rule if_cong [OF refl], simp)
    apply (rule carry_state_carry, rule attempt_frame, simp)
    apply (rule carry_state_carry, rule attempt_frame, simp)
    apply (rule carry_state_carry, simp only: reads writes, rule attempt_frame, simp)
    apply (rule carry_bindI, simp)
    apply (simp only: split_conv reads writes)
    apply (rule carry_state_carry, rule rest [unfolded writes])
    apply (rule carry_state_carry, simp only: reads writes, rule attempt_frame, simp)
    apply simp
    done
qed simp

end

section \<open>The word alone decides\<close>

interpretation cache_part: english_full_frame "\<lambda>st. st\<lparr>bs_cache := c\<rparr>" for c
  by unfold_locales simp_all

interpretation regions_part: english_mark_frame "\<lambda>st. st\<lparr>en_p1 := i, en_p2 := j\<rparr>" for i j
  by unfold_locales simp_all

interpretation own_part: english_frame "\<lambda>st. st\<lparr>en_Y_found := y, en_p1 := i, en_p2 := j\<rparr>" for y i j
  by unfold_locales simp_all

lemma r_prelude_resets: "r_prelude (st\<lparr>en_Y_found := y\<rparr>) = r_prelude st"
  by (simp add: r_prelude_def)

lemma r_mark_regions_resets: "r_mark_regions (st\<lparr>en_p1 := i, en_p2 := j\<rparr>) = r_mark_regions st"
  by (simp add: r_mark_regions_def)

lemma attempt_cong: "f st' = f st \<Longrightarrow> bs_cursor st' = bs_cursor st \<Longrightarrow> attempt f st' = attempt f st"
  by (simp add: attempt_def)

lemma preparation_resets:
  "js_bind (attempt r_prelude (st\<lparr>en_Y_found := y, en_p1 := i, en_p2 := j\<rparr>)) (\<lambda>st. js_bind (attempt r_mark_regions st) f) =
   js_bind (attempt r_prelude st) (\<lambda>st. js_bind (attempt r_mark_regions st) f)"
proof -
  have "attempt r_prelude (st\<lparr>en_Y_found := y, en_p1 := i, en_p2 := j\<rparr>) = js_bind (attempt r_prelude (st\<lparr>en_Y_found := y\<rparr>)) (\<lambda>s. Inr (s\<lparr>en_p1 := i, en_p2 := j\<rparr>))"
    using regions_part.r_prelude_frame [of i j "st\<lparr>en_Y_found := y\<rparr>"]
    by (cases "r_prelude (st\<lparr>en_Y_found := y\<rparr>)") (auto simp: attempt_def regions_part.carried_def)
  moreover have "attempt r_prelude (st\<lparr>en_Y_found := y\<rparr>) = attempt r_prelude st" by (rule attempt_cong) (simp_all add: r_prelude_resets)
  moreover have "attempt r_mark_regions (s\<lparr>en_p1 := i, en_p2 := j\<rparr>) = attempt r_mark_regions s" for s
    by (rule attempt_cong) (simp_all add: r_mark_regions_resets)
  ultimately show ?thesis by (simp add: js_bind_assoc)
qed

definition word_result :: "(bool \<times> EnglishStemmer) js \<Rightarrow> jsstring js" where
  "word_result r = js_bind r (\<lambda>(b, st). Inr (bs_current st))"

lemma stem_resets: "word_result (EnglishStemmer_stem (st\<lparr>en_Y_found := y, en_p1 := i, en_p2 := j\<rparr>)) = word_result (EnglishStemmer_stem st)"
proof (cases "r_exception1 st")
  case (Inr p)
  obtain b s where p: "p = (b, s)" by fastforce
  have "r_exception1 (st\<lparr>en_Y_found := y, en_p1 := i, en_p2 := j\<rparr>) = Inr (b, s\<lparr>en_Y_found := y, en_p1 := i, en_p2 := j\<rparr>)"
    using own_part.r_exception1_frame [of j i y st] Inr p by simp
  moreover have "s\<lparr>en_Y_found := y, en_p1 := i, en_p2 := j\<rparr>\<lparr>bs_cursor := c\<rparr> = s\<lparr>bs_cursor := c\<rparr>\<lparr>en_Y_found := y, en_p1 := i, en_p2 := j\<rparr>" for c
    by simp
  moreover have "bs_cursor (st\<lparr>en_Y_found := y, en_p1 := i, en_p2 := j\<rparr>) = bs_cursor st"
    "\<And>s. bs_limit (s\<lparr>en_Y_found := y, en_p1 := i, en_p2 := j\<rparr>) = bs_limit s" by simp_all
  ultimately show ?thesis unfolding EnglishStemmer_stem_def Inr p
    by (simp only: js_bind_simps split_conv Let_def preparation_resets) (simp add: word_result_def)
next
  case (Inl e)
  then show ?thesis using own_part.r_exception1_frame [of j i y st] by (simp add: EnglishStemmer_stem_def)
qed

lemma stem_ignores_cache: "word_result (EnglishStemmer_stem (st\<lparr>bs_cache := c\<rparr>)) = word_result (EnglishStemmer_stem st)"
  unfolding cache_part.EnglishStemmer_stem_frame word_result_def cache_part.carry_def js_bind_assoc by (simp add: case_prod_unfold)

lemma stem_of_word: "word_result (EnglishStemmer_stem (BaseStemmer_setCurrent word st)) = english_stem word"
proof -
  let ?new = "BaseStemmer_setCurrent word EnglishStemmer_new"
  have "BaseStemmer_setCurrent word st = ?new\<lparr>en_Y_found := en_Y_found st, en_p1 := en_p1 st, en_p2 := en_p2 st\<rparr>\<lparr>bs_cache := bs_cache st\<rparr>"
    by (simp add: BaseStemmer_setCurrent_def)
  then have "word_result (EnglishStemmer_stem (BaseStemmer_setCurrent word st)) = word_result (EnglishStemmer_stem ?new)"
    using stem_ignores_cache stem_resets by metis
  moreover have "map_of (bs_cache EnglishStemmer_new) (46 # word) = None"
    by (simp add: EnglishStemmer_new_def BaseStemmer_new_def BaseStemmer.defs EnglishStemmer.defs)
  ultimately show ?thesis by (simp add: english_stem_def stemWord_def word_result_def js_bind_assoc case_prod_unfold)
qed

definition english_base :: "jsstring \<Rightarrow> jsstring" where
  "english_base word = (case english_stem word of Inr res \<Rightarrow> res | Inl e \<Rightarrow> [])"

definition cache_pure :: "EnglishStemmer \<Rightarrow> bool" where
  "cache_pure st \<longleftrightarrow> (\<forall>word res. map_of (bs_cache st) (46 # word) = Some res \<longrightarrow> res = english_base word)"

lemma stemWord_pure:
  assumes "cache_pure st"
  shows "\<exists>st'. stemWord EnglishStemmer_stem word st = Inr (english_base word, st') \<and> cache_pure st'"
proof (cases "map_of (bs_cache st) (46 # word)")
  case None
  let ?s = "BaseStemmer_setCurrent word st"
  have "st_ok ?s" "bs_limit_backward ?s = 0" "bs_cursor ?s = 0" by (simp_all add: BaseStemmer_setCurrent_def st_ok_def)
  from EnglishStemmer_stem_returns [OF this] obtain b s where
    s: "EnglishStemmer_stem ?s = Inr (b, s)" "bs_cache s = bs_cache st" by (auto simp: BaseStemmer_setCurrent_def)
  then have "bs_current s = english_base word" using stem_of_word [of word st] by (simp add: english_base_def word_result_def flip: stem_of_word [of word st])
  then show ?thesis using None assms s by (auto simp: stemWord_def cache_pure_def)
next
  case (Some res)
  then show ?thesis using assms by (auto simp: stemWord_def cache_pure_def)
qed

lemma stemWords_fold_pure:
  assumes "cache_pure st"
  shows "\<exists>st'. js_fold (\<lambda>(results, st) word. js_bind (stemWord EnglishStemmer_stem word st) (\<lambda>(res, st). Inr (results @ [res], st)))
      (results, st) words = Inr (results @ map english_base words, st')"
  using assms
proof (induction words arbitrary: st results)
  case (Cons word words)
  from stemWord_pure [OF Cons.prems] obtain s where
    s: "stemWord EnglishStemmer_stem word st = Inr (english_base word, s)" "cache_pure s" by blast
  from Cons.IH [OF s(2), of "results @ [english_base word]"] show ?case using s(1) by simp
qed simp

text \<open>
  C10.  C: The stemmer object, with its cache and what earlier words left in its fields, is a function of the word:
  whatever words are stemmed in whatever order with one object, every word gets the stem that a new object gives it alone.
\<close>

theorem stemWords_is_map:
  "\<exists>st. stemWords EnglishStemmer_stem words EnglishStemmer_new = Inr (map english_base words, st) \<and> (\<forall>word. english_stem word = Inr (english_base word))"
proof -
  have new: "cache_pure EnglishStemmer_new" by (simp add: cache_pure_def EnglishStemmer_new_def BaseStemmer_new_def BaseStemmer.defs EnglishStemmer.defs)
  have "english_stem word = Inr (english_base word)" for word
    using stemWord_pure [OF new, of word] by (auto simp: english_stem_def)
  then show ?thesis using stemWords_fold_pure [OF new, of "[]" words] by (auto simp: stemWords_def)
qed

end
