(* ===== verification/English_Search.thy ===== *)
theory English_Search
  imports Oktavia Stem_Cache
begin

text \<open>
  The search engine with the English stemmer.  The stemmer object gives every word the stem that it
  gives the word alone, so the engine with the function \<^verbatim>\<open>english_base\<close> behaves as with the object.
  Documents are found through words with the same stem, unless such a word contains its stem.
\<close>

section \<open>Where words are in the text\<close>

lemma split_space_word:
  "w \<in> set (split_space s) \<Longrightarrow> \<exists>k. k + length w \<le> length s \<and> take (length w) (drop k s) = w"
proof (induction s rule: split_space.induct)
  case (1 s)
  let ?word = "takeWhile (\<lambda>c. \<not> white_space c) s" and ?rest = "dropWhile (\<lambda>c. \<not> white_space c) s"
  have s: "s = ?word @ ?rest" by simp
  show ?case
  proof (cases "w = ?word")
    case True
    have "take (length ?word) s = ?word" using s by (metis append_eq_conv_conj)
    moreover have "length ?word \<le> length s" by (rule length_takeWhile_le)
    ultimately show ?thesis using True by (intro exI [of _ 0]) simp
  next
    case False
    then have rest: "?rest \<noteq> []" "w \<in> set (split_space (dropWhile white_space ?rest))"
      using 1(2) split_space.simps [of s] by (auto simp: Let_def split: if_splits)
    obtain k where k: "k + length w \<le> length (dropWhile white_space ?rest)" "take (length w) (drop k (dropWhile white_space ?rest)) = w"
      using 1(1) [OF refl refl rest] by blast
    have "?rest = takeWhile white_space ?rest @ dropWhile white_space ?rest" by simp
    then obtain ys where ys: "s = ys @ dropWhile white_space ?rest" using s by (metis append.assoc)
    have "take (length w) (drop (length ys + k) (ys @ dropWhile white_space ?rest)) = w" "length ys + k + length w \<le> length (ys @ dropWhile white_space ?rest)"
      using k by simp_all
    then show ?thesis unfolding ys [symmetric] by blast
  qed
qed

lemma doc_text_nth:
  assumes "i < length docs"
  shows "doc_text docs = doc_text (take i docs) @ snd (docs ! i) @ doc_text (drop (Suc i) docs)"
proof -
  have "docs = take i docs @ docs ! i # drop (Suc i) docs" using assms by (simp add: id_take_nth_drop)
  then show ?thesis unfolding doc_text_def by (metis (no_types, lifting) concat.simps(2) concat_append list.simps(9) map_append)
qed

lemma doc_tails_ok: "(\<And>d. d \<in> set docs \<Longrightarrow> snd d \<noteq> []) \<Longrightarrow> tails_ok (doc_tails docs)"
proof (induction docs rule: rev_induct)
  case (snoc d docs)
  have le: "t \<le> length (doc_text docs)" if "t \<in> set (doc_tails docs)" for t
    using that by (auto simp: doc_tails_def doc_text_def length_concat simp flip: take_map)
      (metis append_take_drop_id le_add1 sum_list_append)
  have "0 < length (snd d)" using snoc.prems [of d] by simp
  moreover have "tails_ok (doc_tails docs)" using snoc by simp
  moreover have "t < length (doc_text docs) + length (snd d)" if "t \<in> set (doc_tails docs)" for t
    using le [OF that] \<open>0 < length (snd d)\<close> by linarith
  ultimately show ?case by (auto simp: tails_ok_def doc_snoc sorted_wrt_append)
qed (simp add: doc_tails_def tails_ok_def)

lemma word_in_document:
  assumes "\<And>d. d \<in> set docs \<Longrightarrow> snd d \<noteq> []" "i < length docs" "w \<in> set (split_space (snd (docs ! i)))" "w \<noteq> []"
  shows "i \<in> stretch (doc_tails docs) ` occurrences w (doc_text docs)"
proof -
  obtain k where k: "k + length w \<le> length (snd (docs ! i))" "take (length w) (drop k (snd (docs ! i))) = w"
    using split_space_word [OF assms(3)] by blast
  let ?p = "length (doc_text (take i docs)) + k"
  have t: "doc_text docs = doc_text (take i docs) @ snd (docs ! i) @ doc_text (drop (Suc i) docs)" by (rule doc_text_nth [OF assms(2)])
  have "?p \<in> occurrences w (doc_text docs)" using k unfolding t occurrences_def by simp
  moreover have "stretch (doc_tails docs) ?p = i"
  proof (rule stretch_unique [OF doc_tails_ok [OF assms(1)]])
    show "i < length (doc_tails docs)" using assms(2) by (simp add: doc_tails_def)
    show "start (doc_tails docs) i \<le> ?p" using assms(2) by (cases i) (simp_all add: start_def doc_tails_def)
    have "k < length (snd (docs ! i))" using k(1) assms(4) by (cases w) auto
    then show "?p < doc_tails docs ! i" using assms(2) by (simp add: doc_tails_def take_Suc_conv_app_nth doc_text_def)
  qed
  ultimately show ?thesis by (metis image_eqI)
qed

section \<open>Properties\<close>

text \<open>
  C4.  Inflected words are found: a query that is not quoted and whose word is answerable returns every
  document that has a word with the English stem of the query's word, for words that do not contain
  their stem.  The conditions: the documents are not empty, have characters from 3 on only, and no stem of
  a word of them is the name of a member that every object inherits.  A word is answerable if all
  its characters occur in the documents and the last one is not the character that appears last in
  them for the first time, which the index never finds; if the same holds for the registered words
  with its stem; and if its stem is not empty and no inherited name.
\<close>

theorem english_inflections_found:
  assumes "docs_ok toLower english_base docs" "answerable toLower english_base docs q" "\<not> q_raw q"
    and "i < length docs" "w \<in> set (split_space (snd (docs ! i)))"
    and "english_base (toLower w) = english_base (toLower (q_word q))" "\<not> substring (english_base (toLower w)) w"
  shows "\<exists>h s r. js_bind (index_documents toLower english_base key docs density) (\<lambda>okt. Oktavia_search toLower okt [] [q]) = Inr (h, s)
    \<and> s_result s = Some r \<and> i \<in> set (r_unitIds r)"
proof -
  have ne: "docs \<noteq> []" using assms(4) by auto
  obtain okt where okt: "index_documents toLower english_base key docs density = Inr okt"
    "engine toLower english_base key docs (length (ok_compressCode2utf16 okt)) (cache_range density) okt"
    using index_documents_engine [OF ne assms(1)] by blast
  obtain h s r where s: "Oktavia_search toLower okt [] [q] = Inr (h, s)" "s_result s = Some r"
      "set (r_unitIds r) = eval_queries (\<lambda>q. stretch (doc_tails docs) ` hits toLower english_base docs q) [q]"
    using engine_search [OF okt(2), of "[q]"] assms(2) by auto
  have full: "\<And>d. d \<in> set docs \<Longrightarrow> snd d \<noteq> []" using assms(1) by (auto simp: docs_ok_def)
  have "w \<in> stem_class toLower english_base (doc_words docs) (english_base (toLower (q_word q)))"
    using assms(4-7) nth_mem [OF assms(4)] by (auto simp: stem_class_def doc_words_def)
  moreover from this have "w \<noteq> []" using assms(2,3) by (auto simp: answerable_def findable_def)
  ultimately have "i \<in> stretch (doc_tails docs) ` hits toLower english_base docs q"
    using word_in_document [OF full assms(4,5)] assms(3) by (auto simp: hits_def)
  then show ?thesis using okt(1) s by (simp add: eval_queries_def)
qed

text \<open>Documents for the concrete instances: one with \<^verbatim>\<open>happy\<close> or \<^verbatim>\<open>cat\<close>, and one with short words.\<close>

definition happy_docs :: "(jsstring \<times> jsstring) list" where
  "happy_docs = [([65], js_lit ''happy''), ([66], js_lit ''in es to'')]"

definition cat_docs :: "(jsstring \<times> jsstring) list" where
  "cat_docs = [([65], js_lit ''cat''), ([66], js_lit ''us ok'')]"

definition word_query :: "string \<Rightarrow> Query" where
  "word_query s = \<lparr>q_word = js_lit s, q_or = False, q_not = False, q_raw = False\<rparr>"

lemma bases:
  "english_base [104, 97, 112, 112, 121] = [104, 97, 112, 112, 105]"
  "english_base [104, 97, 112, 112, 105, 110, 101, 115, 115] = [104, 97, 112, 112, 105]"
  "english_base [99, 97, 116] = [99, 97, 116]" "english_base [99, 97, 116, 115] = [99, 97, 116]"
  unfolding english_base_def by code_simp+

lemma short_bases: "english_base [105, 110] = [105, 110]" "english_base [101, 115] = [101, 115]" "english_base [116, 111] = [116, 111]"
  "english_base [117, 115] = [117, 115]" "english_base [111, 107] = [111, 107]"
  unfolding english_base_def by code_simp+

lemma instance_words:
  "split_space (js_lit ''happy'') = [[104, 97, 112, 112, 121]]" "split_space (js_lit ''in es to'') = [[105, 110], [101, 115], [116, 111]]"
  "split_space (js_lit ''cat'') = [[99, 97, 116]]" "split_space (js_lit ''us ok'') = [[117, 115], [111, 107]]"
  by (simp_all add: js_lit_def split_space.simps white_space_def)

lemma instance_texts:
  "doc_words happy_docs = [[104, 97, 112, 112, 121], [105, 110], [101, 115], [116, 111]]" "doc_words cat_docs = [[99, 97, 116], [117, 115], [111, 107]]"
  "doc_text happy_docs = [104, 97, 112, 112, 121, 105, 110, 32, 101, 115, 32, 116, 111]" "doc_text cat_docs = [99, 97, 116, 117, 115, 32, 111, 107]"
  by (simp_all add: doc_words_def doc_text_def happy_docs_def cat_docs_def instance_words) (simp_all add: js_lit_def)

lemma instance_newest: "newest (doc_text happy_docs) = 111" "newest (doc_text cat_docs) = 107"
  by (simp_all add: newest_def instance_texts initial_chars_def add_new_def Oktavia_eof_def Oktavia_eob_def Oktavia_unknown_def)

lemma instance_docs_ok: "docs_ok (\<lambda>s. s) english_base happy_docs" "docs_ok (\<lambda>s. s) english_base cat_docs"
  by (simp_all add: docs_ok_def happy_docs_def cat_docs_def instance_words bases short_bases inherited_def) (simp_all add: js_lit_def)

lemma instance_substrings: "\<not> substring [104, 97, 112, 112, 105] [104, 97, 112, 112, 121]" "substring [99, 97, 116] [99, 97, 116]"
  by (simp_all add: substring_def)

lemma instance_answerable:
  "answerable (\<lambda>s. s) english_base happy_docs (word_query ''happiness'')" "answerable (\<lambda>s. s) english_base cat_docs (word_query ''cats'')"
  by (auto simp: answerable_def word_query_def js_lit_def bases stem_class_def findable_def instance_newest [unfolded instance_texts] instance_texts inherited_def short_bases)

lemma english_inflections_found_witness:
  "\<exists>h s r. js_bind (index_documents (\<lambda>s. s) english_base [75] happy_docs 5) (\<lambda>okt. Oktavia_search (\<lambda>s. s) okt [] [word_query ''happiness'']) = Inr (h, s)
    \<and> s_result s = Some r \<and> 0 \<in> set (r_unitIds r)"
proof (rule english_inflections_found [OF instance_docs_ok(1) instance_answerable(1)])
  show "[104, 97, 112, 112, 121] \<in> set (split_space (snd (happy_docs ! 0)))" by (simp add: happy_docs_def instance_words)
qed (simp_all add: word_query_def happy_docs_def js_lit_def bases instance_substrings)

text \<open>
  C36.  C: A query for a longer form misses the base form: with the English stemmer, \<^verbatim>\<open>cats\<close> and \<^verbatim>\<open>cat\<close> have the same stem, but a word
  that contains its stem is not registered under it, so the search for \<^verbatim>\<open>cats\<close> does not return the document with \<^verbatim>\<open>cat\<close>.
\<close>

theorem base_form_missed:
  "english_base (js_lit ''cats'') = english_base (js_lit ''cat'') \<and>
   (\<exists>h s r. js_bind (index_documents (\<lambda>s. s) english_base [75] cat_docs 5) (\<lambda>okt. Oktavia_search (\<lambda>s. s) okt [] [word_query ''cats'']) = Inr (h, s)
    \<and> s_result s = Some r \<and> r_unitIds r = [])"
proof -
  obtain okt where okt: "index_documents (\<lambda>s. s) english_base [75] cat_docs 5 = Inr okt"
    "engine (\<lambda>s. s) english_base [75] cat_docs (length (ok_compressCode2utf16 okt)) (cache_range 5) okt"
    using index_documents_engine [OF _ instance_docs_ok(2)] by (auto simp: cat_docs_def)
  obtain h s r where s: "Oktavia_search (\<lambda>s. s) okt [] [word_query ''cats''] = Inr (h, s)" "s_result s = Some r"
      "set (r_unitIds r) = stretch (doc_tails cat_docs) ` hits (\<lambda>s. s) english_base cat_docs (word_query ''cats'')"
    using engine_search [OF okt(2), of "[word_query ''cats'']"] instance_answerable(2) by (auto simp: eval_queries_def)
  have "stem_class (\<lambda>s. s) english_base (doc_words cat_docs) [99, 97, 116] = {}"
    by (auto simp: stem_class_def instance_texts short_bases bases instance_substrings)
  moreover have "occurrences (js_lit ''cats'') (doc_text cat_docs) = {}"
  proof -
    have "take 4 (drop p (doc_text cat_docs)) \<noteq> js_lit ''cats''" if "p + 4 \<le> 8" for p
    proof -
      have "p = 0 \<or> p = 1 \<or> p = 2 \<or> p = 3 \<or> p = 4" using that by auto
      then show ?thesis by (elim disjE) (simp_all add: instance_texts js_lit_def)
    qed
    moreover have "length (js_lit ''cats'') = 4" "length (doc_text cat_docs) = 8" by (simp_all add: instance_texts js_lit_def)
    ultimately show ?thesis unfolding occurrences_def by (simp del: One_nat_def)
  qed
  ultimately have "hits (\<lambda>s. s) english_base cat_docs (word_query ''cats'') = {}"
    by (simp add: hits_def word_query_def js_lit_def bases)
  then show ?thesis using okt(1) s by (simp add: js_lit_def bases)
qed

end
