(* ===== verification/Cache_Digest.thy ===== *)
theory Cache_Digest
  imports JS_Prelude
begin

text \<open>
  The service worker \<^verbatim>\<open>misc/cache-digest.js/cache-digest.js\<close>.  The worker answers requests from its
  cache while responses are fresh and announces what it holds: the URLs are hashed, truncated,
  sorted, written as a Golomb-coded set and sent in base64.  The server's side is the theory
  \<^verbatim>\<open>Digest_Server\<close>.

  Numbers are integers, with the 32-bit conversions of the shift operators written out.  The hash
  function, which the theory \<^verbatim>\<open>Sha256\<close> models, and \<^verbatim>\<open>Date.parse\<close> of the host are arguments.
  Responses vary only by URL; what is written to the console is left out.
\<close>

unbundle bit_operations_syntax

section \<open>Writing bits\<close>

record BitCoder =
  bc_value :: "nat list"
  bc_leftBits :: nat

definition BitCoder_new :: BitCoder where
  "BitCoder_new = \<lparr>bc_value = [], bc_leftBits = 0\<rparr>"

definition BitCoder_addBit :: "BitCoder \<Rightarrow> bool \<Rightarrow> BitCoder" where
  "BitCoder_addBit c b =
    (let c = (if bc_leftBits c = 0 then \<lparr>bc_value = bc_value c @ [0], bc_leftBits = 8\<rparr> else c);
         left = bc_leftBits c - 1;
         i = length (bc_value c) - 1
     in \<lparr>bc_value = (if b then (bc_value c)[i := (bc_value c ! i) OR push_bit left 1] else bc_value c), bc_leftBits = left\<rparr>)"

text \<open>
  The loop counts \<^verbatim>\<open>nbits\<close> down to zero and shifts by its lowest five bits; a negative count never
  reaches zero.
\<close>

definition BitCoder_addBits :: "BitCoder \<Rightarrow> int \<Rightarrow> int \<Rightarrow> BitCoder js" where
  "BitCoder_addBits c v nbits =
    (if nbits < 0 then Inl Diverge
     else Inr (foldl (\<lambda>c k. BitCoder_addBit c (bit v (k mod 32))) c (rev [0..<nat nbits])))"

definition js_shr :: "int \<Rightarrow> int \<Rightarrow> int" where
  "js_shr v n = drop_bit (nat (n mod 32)) (signed_take_bit 31 v)"

fun gcs_loop :: "BitCoder \<Rightarrow> int \<Rightarrow> int \<Rightarrow> int list \<Rightarrow> BitCoder js" where
  "gcs_loop c bits_fixed prev [] = Inr c"
| "gcs_loop c bits_fixed prev (x # xs) =
    (if prev = x then gcs_loop c bits_fixed prev xs
     else
       (let v = x - prev - 1; q = js_shr v bits_fixed in
        if q < 0 then Inl Diverge
        else js_bind (BitCoder_addBits (BitCoder_addBit (((\<lambda>c. BitCoder_addBit c False) ^^ nat q) c) True) v bits_fixed)
               (\<lambda>c. gcs_loop c bits_fixed x xs)))"

definition BitCoder_gcsEncode :: "BitCoder \<Rightarrow> int list \<Rightarrow> int \<Rightarrow> BitCoder js" where
  "BitCoder_gcsEncode c values bits_fixed = gcs_loop c bits_fixed (- 1) (sort values)"

section \<open>The digest of a list of URLs\<close>

text \<open>
  \<^verbatim>\<open>Math.round(Math.log(n) * 1.4426950408889634)\<close>, the binary logarithm rounded to the nearest
  integer: \<^verbatim>\<open>log2 n\<close> is never half an integer, and lies above \<^verbatim>\<open>k + 1/2\<close> exactly when \<^verbatim>\<open>n * n\<close> exceeds
  \<^verbatim>\<open>2 ^ (2 * k + 1)\<close>.  The distance to the half integers is far above the error of the floating
  point operations for the numbers of URLs a cache holds (below \<^verbatim>\<open>2 ^ 20\<close>).
\<close>

fun floor_log2 :: "nat \<Rightarrow> nat" where
  "floor_log2 n = (if n < 2 then 0 else 1 + floor_log2 (n div 2))"

declare floor_log2.simps [simp del]

definition round_log2 :: "nat \<Rightarrow> nat" where
  "round_log2 n = (let k = floor_log2 n in if n * n < 2 ^ (2 * k + 1) then k else k + 1)"

definition sha256Truncated :: "(jsstring \<Rightarrow> 32 word list) \<Rightarrow> jsstring \<Rightarrow> int \<Rightarrow> int" where
  "sha256Truncated sha256 src bits =
    js_shr (js_shr (sint (sha256 src ! 0)) 1 AND 0x7fffffff) (31 - bits)"

definition calcDigestValue :: "(jsstring \<Rightarrow> 32 word list) \<Rightarrow> jsstring list \<Rightarrow> int \<Rightarrow> nat list option js" where
  "calcDigestValue sha256 urls pbits =
    (let nbits = int (round_log2 (max (length urls) 1)) in
     if 31 < nbits + pbits then Inr None
     else
       (let hashes = map (\<lambda>url. sha256Truncated sha256 url (nbits + pbits)) urls in
        js_bind (BitCoder_addBits BitCoder_new nbits 5) (\<lambda>c.
        js_bind (BitCoder_addBits c pbits 5) (\<lambda>c.
        js_bind (BitCoder_gcsEncode c hashes pbits) (\<lambda>c. Inr (Some (bc_value c)))))))"

section \<open>Base64\<close>

definition base64_tokens :: jsstring where
  "base64_tokens = map of_char ''ABCDEFGHIJKLMNOPQRSTUVWXYZabcdefghijklmnopqrstuvwxyz0123456789-_''"

text \<open>One round of the loop; elements behind the end of the array count as zero.\<close>

definition base64_quad :: "nat \<Rightarrow> nat \<Rightarrow> nat \<Rightarrow> jsstring" where
  "base64_quad a b c =
    (let quad = push_bit 16 a OR push_bit 8 b OR c
     in map (\<lambda>i. base64_tokens ! i) [drop_bit 18 quad, drop_bit 12 quad AND 63, drop_bit 6 quad AND 63, quad AND 63])"

fun base64_loop :: "nat list \<Rightarrow> jsstring" where
  "base64_loop [] = []"
| "base64_loop [a] = base64_quad a 0 0"
| "base64_loop [a, b] = base64_quad a b 0"
| "base64_loop (a # b # c # buf) = base64_quad a b c @ base64_loop buf"

text \<open>After the loop \<^verbatim>\<open>pos\<close> is the length rounded up to a multiple of three.\<close>

definition base64Encode :: "nat list \<Rightarrow> jsstring" where
  "base64Encode buf =
    (let str = base64_loop buf; pos = (length buf + 2) div 3 * 3
     in take (length str + length buf - pos) str)"

section \<open>Freshness\<close>

definition ascii_lower :: "jsstring \<Rightarrow> jsstring" where
  "ascii_lower = map (\<lambda>c. if 65 \<le> c \<and> c \<le> 90 then c + 32 else c)"

definition trim_left :: "jsstring \<Rightarrow> jsstring" where
  "trim_left = dropWhile white_space"

definition trim_right :: "jsstring \<Rightarrow> jsstring" where
  "trim_right s = rev (dropWhile white_space (rev s))"

text \<open>\<^verbatim>\<open>value.split(/\s*,\s*/)\<close>: white space next to a comma belongs to the separator.\<close>

fun split_comma :: "jsstring \<Rightarrow> jsstring \<Rightarrow> jsstring list" where
  "split_comma word [] = [word]"
| "split_comma word (c # s) = (if c = 44 then word # split_comma [] s else split_comma (word @ [c]) s)"

definition split_directives :: "jsstring \<Rightarrow> jsstring list" where
  "split_directives value =
    (let parts = split_comma [] value in
     map (\<lambda>i. let part = parts ! i; part = (if i = 0 then part else trim_left part)
              in if i = length parts - 1 then part else trim_right part) [0..<length parts])"

text \<open>\<^verbatim>\<open>/^\s*no-(?:cache|store)\s*$/\<close>\<close>

definition is_no_store :: "jsstring \<Rightarrow> bool" where
  "is_no_store d \<longleftrightarrow> trim_right (trim_left d) \<in> {js_lit ''no-cache'', js_lit ''no-store''}"

definition digits_value :: "jsstring \<Rightarrow> nat" where
  "digits_value = foldl (\<lambda>n c. 10 * n + (c - 48)) 0"

text \<open>\<^verbatim>\<open>/^\s*max-age\s*=\s*([0-9]+)/\<close> and the number of its group.\<close>

definition max_age_of :: "jsstring \<Rightarrow> nat option" where
  "max_age_of d =
    (let r = trim_left d; rest = trim_left (drop 7 r) in
     if take 7 r = js_lit ''max-age'' \<and> take 1 rest = [61]
     then (let ds = takeWhile (\<lambda>c. 48 \<le> c \<and> c \<le> 57) (trim_left (drop 1 rest))
           in if ds = [] then None else Some (digits_value ds))
     else None)"

text \<open>\<^verbatim>\<open>Math.min(RegExp.$1, maxAge || Infinity)\<close>: zero counts as absent.\<close>

definition min_age :: "nat \<Rightarrow> nat option \<Rightarrow> nat" where
  "min_age n maxAge = (case maxAge of None \<Rightarrow> n | Some m \<Rightarrow> if m = 0 then n else min n m)"

text \<open>The loop over the directives; \<^verbatim>\<open>None\<close> is the early return of \<^verbatim>\<open>false\<close>.\<close>

fun scan_directives :: "jsstring list \<Rightarrow> nat option \<Rightarrow> nat option option" where
  "scan_directives [] maxAge = Some maxAge"
| "scan_directives (d # ds) maxAge =
    (if is_no_store d then None
     else case max_age_of d of
       Some n \<Rightarrow> scan_directives ds (Some (min_age n maxAge))
     | None \<Rightarrow> scan_directives ds maxAge)"

text \<open>The loop over the headers; a date that cannot be parsed is \<^verbatim>\<open>NaN\<close>, here \<^verbatim>\<open>None\<close>.\<close>

fun scan_headers :: "(jsstring \<Rightarrow> int option) \<Rightarrow> int \<Rightarrow> (jsstring \<times> jsstring) list \<Rightarrow> int option \<Rightarrow> nat option \<Rightarrow> bool" where
  "scan_headers parse now [] date maxAge =
    (case (maxAge, date) of (Some m, Some d) \<Rightarrow> now < d + int m * 1000 | _ \<Rightarrow> False)"
| "scan_headers parse now ((name, value) # headers) date maxAge =
    (if ascii_lower name = js_lit ''expires'' then
       (case parse value of
          Some parsed \<Rightarrow> if parsed \<noteq> 0 \<and> now < parsed then True else scan_headers parse now headers date maxAge
        | None \<Rightarrow> scan_headers parse now headers date maxAge)
     else if ascii_lower name = js_lit ''cache-control'' then
       (case scan_directives (split_directives value) maxAge of
          None \<Rightarrow> False
        | Some maxAge \<Rightarrow> scan_headers parse now headers date maxAge)
     else if ascii_lower name = js_lit ''date'' then scan_headers parse now headers (parse value) maxAge
     else scan_headers parse now headers date maxAge)"

definition isFresh :: "(jsstring \<Rightarrow> int option) \<Rightarrow> (jsstring \<times> jsstring) list \<Rightarrow> int \<Rightarrow> bool" where
  "isFresh parse headers now = scan_headers parse now headers (Some 0) None"

section \<open>The service worker\<close>

record request =
  rq_method :: jsstring
  rq_url :: jsstring
  rq_mode :: jsstring
  rq_digest :: "jsstring option"

record response =
  rs_status :: nat
  rs_headers :: "(jsstring \<times> jsstring) list"
  rs_body :: jsstring

text \<open>
  What the worker uses of its host: what comes of copying a request and appending the header to the
  copy (the header is there, or it is not, or an exception), \<^verbatim>\<open>Date.parse\<close>, and the hash function.
\<close>

datatype append_outcome = Appended | Ignored | Raised string

record host =
  host_append :: "request \<Rightarrow> jsstring \<Rightarrow> append_outcome"
  host_parse :: "jsstring \<Rightarrow> int option"
  host_sha256 :: "jsstring \<Rightarrow> 32 word list"

text \<open>The cache of the browser, by URL; a new entry replaces an old one.\<close>

type_synonym cache = "(jsstring \<times> response) list"

definition cache_put :: "cache \<Rightarrow> jsstring \<Rightarrow> response \<Rightarrow> cache" where
  "cache_put cache url res = [e \<leftarrow> cache. fst e \<noteq> url] @ [(url, res)]"

text \<open>\<^verbatim>\<open>/\/cache-digests?\.js(?:\?|$)/\<close>\<close>

definition worker_suffix :: "jsstring \<Rightarrow> bool" where
  "worker_suffix s \<longleftrightarrow> (\<exists>name \<in> {js_lit ''/cache-digest.js'', js_lit ''/cache-digests.js''}.
    take (length name) s = name \<and> (drop (length name) s = [] \<or> hd (drop (length name) s) = 63))"

definition is_worker_url :: "jsstring \<Rightarrow> bool" where
  "is_worker_url url \<longleftrightarrow> (\<exists>i \<in> set [0..<length url]. worker_suffix (drop i url))"

definition fresh_urls :: "host \<Rightarrow> cache \<Rightarrow> int \<Rightarrow> jsstring list" where
  "fresh_urls host cache now = map fst [e \<leftarrow> cache. isFresh (host_parse host) (rs_headers (snd e)) now]"

definition generateCacheDigests :: "host \<Rightarrow> cache \<Rightarrow> int \<Rightarrow> jsstring option js" where
  "generateCacheDigests host cache now =
    js_bind (calcDigestValue (host_sha256 host) (fresh_urls host cache now) 7) (\<lambda>dv.
      Inr (map_option (\<lambda>v. base64Encode v @ js_lit ''; complete'') dv))"

text \<open>
  \<^verbatim>\<open>requestWithDigests\<close> in two parts, before and after the network.  The exception of the \<^verbatim>\<open>try\<close> block is caught
  and kept in \<^verbatim>\<open>err\<close>, and so is the message when the header is not there afterwards.  The report of \<^verbatim>\<open>err\<close>
  reads the variable \<^verbatim>\<open>e\<close>, which is declared by the \<^verbatim>\<open>catch\<close> clause and not in scope behind it;
  \<^verbatim>\<open>report_scope\<close> lists the names of the script that are, and reading another name is a \<^verbatim>\<open>ReferenceError\<close>.
\<close>

definition append_header :: "host \<Rightarrow> request \<Rightarrow> jsstring \<Rightarrow> request \<times> string option" where
  "append_header host req digests = (case host_append host req digests of
      Appended \<Rightarrow> (req\<lparr>rq_digest := Some digests\<rparr>, None)
    | Ignored \<Rightarrow> (req, Some ''append failed'')
    | Raised e \<Rightarrow> (req, Some e))"

definition read_variable :: "string list \<Rightarrow> string \<Rightarrow> unit js" where
  "read_variable scope name = (if name \<in> set scope then Inr () else Inl (Throw ''ReferenceError''))"

definition report_scope :: "string list" where
  "report_scope = [''digests'', ''err'', ''requestWithDigests'', ''res'', ''cache'', ''req'', ''evt'',
    ''generateCacheDigests'', ''calcDigestValue'', ''isFresh'', ''BitCoder'', ''base64Encode'', ''sha256Truncated'', ''sha256'',
    ''logRequest'', ''logError'', ''logInfo'', ''logDebug'']"

definition add_digests :: "host \<Rightarrow> request \<Rightarrow> jsstring option \<Rightarrow> request js" where
  "add_digests host req digests = (case digests of
      None \<Rightarrow> Inr req
    | Some d \<Rightarrow>
        (case append_header host req d of
           (req, None) \<Rightarrow> Inr req
         | (req, Some err) \<Rightarrow> js_bind (read_variable report_scope ''e'') (\<lambda>_. Inr req)))"

definition receive :: "host \<Rightarrow> cache \<Rightarrow> int \<Rightarrow> request \<Rightarrow> response \<Rightarrow> cache" where
  "receive host cache now req res =
    (if rs_status res = 200 \<and> isFresh (host_parse host) (rs_headers res) now then cache_put cache (rq_url req) res else cache)"

text \<open>
  The handler of \<^verbatim>\<open>fetch\<close> events up to the network: the request is left to the browser, answered
  from the cache, or sent.
\<close>

datatype decision = Skip | Hit response | Send request

definition handle_fetch :: "host \<Rightarrow> cache \<Rightarrow> int \<Rightarrow> request \<Rightarrow> decision js" where
  "handle_fetch host cache now req =
    (if rq_method req \<noteq> js_lit ''GET'' \<or> is_worker_url (rq_url req) then Inr Skip
     else
       (let send = js_bind (if rq_mode req = js_lit ''navigate'' then generateCacheDigests host cache now else Inr None) (\<lambda>digests.
              js_bind (add_digests host req digests) (\<lambda>req. Inr (Send req)))
        in case map_of cache (rq_url req) of
             Some res \<Rightarrow> if isFresh (host_parse host) (rs_headers res) now then Inr (Hit res) else send
           | None \<Rightarrow> send))"

text \<open>
  Events interleave: while a request is on its way others are handled, and responses arrive in any
  order or not at all.  The relation keeps a log of the responses that arrived.
\<close>

record worker =
  w_cache :: cache
  w_pending :: "request list"

inductive worker_run :: "host \<Rightarrow> (request \<times> response \<times> int) list \<Rightarrow> worker \<Rightarrow> bool" for host where
  started: "worker_run host [] \<lparr>w_cache = [], w_pending = []\<rparr>"
| sent: "worker_run host log w \<Longrightarrow> handle_fetch host (w_cache w) now req = Inr (Send req')
    \<Longrightarrow> worker_run host log (w\<lparr>w_pending := w_pending w @ [req']\<rparr>)"
| received: "worker_run host log w \<Longrightarrow> req \<in> set (w_pending w)
    \<Longrightarrow> worker_run host (log @ [(req, res, now)])
          \<lparr>w_cache = receive host (w_cache w) now req res, w_pending = remove1 req (w_pending w)\<rparr>"
| lost: "worker_run host log w \<Longrightarrow> req \<in> set (w_pending w) \<Longrightarrow> worker_run host log (w\<lparr>w_pending := remove1 req (w_pending w)\<rparr>)"

section \<open>The bits of a digest\<close>

definition byte_bits :: "nat \<Rightarrow> bool list" where
  "byte_bits n = map (bit n) (rev [0..<8])"

definition low_bits :: "nat \<Rightarrow> nat \<Rightarrow> bool list" where
  "low_bits n v = map (bit v) (rev [0..<n])"

text \<open>A coder has written the bits \<^verbatim>\<open>bs\<close>; the rest of its last byte is clear.\<close>

definition coder_ok :: "BitCoder \<Rightarrow> bool list \<Rightarrow> bool" where
  "coder_ok c bs \<longleftrightarrow> concat (map byte_bits (bc_value c)) = bs @ replicate (bc_leftBits c) False
    \<and> bc_leftBits c < 8 \<and> (\<forall>x \<in> set (bc_value c). x < 256)"

lemma length_byte_bits [simp]: "length (byte_bits x) = 8"
  by (simp add: byte_bits_def)

lemma length_concat_bytes: "length (concat (map byte_bits xs)) = 8 * length xs"
  by (induction xs) simp_all

lemma nth_byte_bits: "i < 8 \<Longrightarrow> byte_bits x ! i = bit x (7 - i)"
  by (simp add: byte_bits_def rev_map [symmetric] rev_nth del: upt_rec_numeral)

lemma byte_bits_or: "k < 8 \<Longrightarrow> byte_bits (x OR push_bit k 1) = (byte_bits x)[7 - k := True]"
  by (rule nth_equalityI) (auto simp: nth_byte_bits nth_list_update bit_simps)

lemma byte_bits_0: "byte_bits 0 = replicate 8 False"
  by (rule nth_equalityI) (simp_all add: nth_byte_bits)

lemma or_byte: "x < 256 \<Longrightarrow> k < 8 \<Longrightarrow> x OR 2 ^ k < (256 :: nat)"
proof -
  assume "x < 256" and k: "k < 8"
  then have "take_bit 8 x = x" by (simp add: take_bit_nat_eq_self)
  moreover have "(2 :: nat) ^ k < 2 ^ 8" using k by (intro power_strict_increasing) simp_all
  then have "take_bit 8 (2 ^ k :: nat) = 2 ^ k" by (rule take_bit_nat_eq_self)
  ultimately have "take_bit 8 (x OR 2 ^ k) = x OR 2 ^ k" unfolding take_bit_or by simp
  then have "x OR 2 ^ k < 2 ^ 8" by (simp only: take_bit_nat_eq_self_iff)
  then show ?thesis by simp
qed

lemma set_next_bit:
  assumes bits: "concat (map byte_bits (vs @ [x])) = bs @ replicate (Suc k) False" and k: "k < 8"
  shows "concat (map byte_bits (vs @ [if b then x OR push_bit k 1 else x])) = (bs @ [b]) @ replicate k False"
proof (cases b)
  case True
  have "length (concat (map byte_bits vs)) + 8 = length bs + Suc k" using arg_cong [OF bits, of length] by simp
  then have len: "length bs = length (concat (map byte_bits vs)) + (7 - k)" using k by simp
  have "concat (map byte_bits vs) @ (byte_bits x) [7 - k := True] = (concat (map byte_bits vs) @ byte_bits x) [length bs := True]"
    by (simp only: len list_update_append) simp
  also have "\<dots> = (bs @ False # replicate k False) [length bs := True]" using bits by simp
  finally show ?thesis using True k byte_bits_or [of k x] by simp
qed (use bits in simp)

lemma addBit_ok:
  assumes "coder_ok c bs"
  shows "coder_ok (BitCoder_addBit c b) (bs @ [b])"
proof -
  define d where "d = (if bc_leftBits c = 0 then \<lparr>bc_value = bc_value c @ [0], bc_leftBits = 8\<rparr> else c)"
  have d: "concat (map byte_bits (bc_value d)) = bs @ replicate (bc_leftBits d) False" "0 < bc_leftBits d" "bc_leftBits d \<le> 8"
    "\<forall>x \<in> set (bc_value d). x < 256"
    using assms by (auto simp: coder_ok_def d_def byte_bits_0)
  then obtain k where k: "bc_leftBits d = Suc k" "k < 8" by (cases "bc_leftBits d") auto
  have "bc_value d \<noteq> []" using d(1) k by (cases "bc_value d") auto
  then obtain vs x where v: "bc_value d = vs @ [x]" by (cases "bc_value d" rule: rev_cases) auto
  have "BitCoder_addBit c b = \<lparr>bc_value = vs @ [if b then x OR push_bit k 1 else x], bc_leftBits = k\<rparr>"
    unfolding BitCoder_addBit_def Let_def d_def [symmetric] by (simp add: v k list_update_append)
  then show ?thesis
    using set_next_bit [of vs x bs k b] d k v or_byte [of x k] by (auto simp: coder_ok_def)
qed

lemma foldl_addBit_ok:
  "coder_ok c bs \<Longrightarrow> coder_ok (foldl (\<lambda>c k. BitCoder_addBit c (f k)) c ks) (bs @ map f ks)"
proof (induction ks arbitrary: c bs)
  case (Cons k ks)
  from Cons.IH [OF addBit_ok [OF Cons.prems, of "f k"]] show ?case by simp
qed simp

lemma addBits_ok:
  assumes "coder_ok c bs" "n \<le> 32"
  shows "\<exists>c'. BitCoder_addBits c (int v) (int n) = Inr c' \<and> coder_ok c' (bs @ low_bits n v)"
proof -
  have "map (\<lambda>k. bit (int v) (k mod 32)) (rev [0..<n]) = low_bits n v"
    unfolding low_bits_def by (rule map_cong) (use assms(2) in \<open>auto simp: bit_of_nat_iff_bit\<close>)
  then show ?thesis
    using foldl_addBit_ok [OF assms(1), of "\<lambda>k. bit (int v) (k mod 32)" "rev [0..<n]"] by (simp add: BitCoder_addBits_def)
qed

lemma addZeros_ok: "coder_ok c bs \<Longrightarrow> coder_ok (((\<lambda>c. BitCoder_addBit c False) ^^ n) c) (bs @ replicate n False)"
proof (induction n)
  case (Suc n)
  from addBit_ok [OF Suc.IH [OF Suc.prems], of False] show ?case by (simp add: replicate_append_same)
qed simp

text \<open>
  The bits of a sorted list whose members are at least \<^verbatim>\<open>lo\<close>, or one less for a repetition of the
  previous one, and the keys they stand for.
\<close>

definition value_bits :: "nat \<Rightarrow> nat \<Rightarrow> bool list" where
  "value_bits p v = replicate (v div 2 ^ p) False @ True # low_bits p v"

fun gcs_bits :: "nat \<Rightarrow> nat \<Rightarrow> nat list \<Rightarrow> bool list" where
  "gcs_bits p lo [] = []"
| "gcs_bits p lo (x # xs) = (if x < lo then gcs_bits p lo xs else value_bits p (x - lo) @ gcs_bits p (x + 1) xs)"

fun gcs_keys :: "nat \<Rightarrow> nat list \<Rightarrow> nat list" where
  "gcs_keys lo [] = []"
| "gcs_keys lo (x # xs) = (if x < lo then gcs_keys lo xs else x # gcs_keys (x + 1) xs)"

definition gcs_input :: "nat \<Rightarrow> nat list \<Rightarrow> bool" where
  "gcs_input lo xs \<longleftrightarrow> sorted xs \<and> (\<forall>x \<in> set xs. lo \<le> x + 1)"

lemma gcs_input_Cons: "gcs_input lo (x # xs) \<Longrightarrow> gcs_input lo xs" "gcs_input lo (x # xs) \<Longrightarrow> gcs_input (x + 1) xs"
  by (auto simp: gcs_input_def)

lemma js_shr_div: "0 \<le> v \<Longrightarrow> v < 2 ^ 31 \<Longrightarrow> p < 32 \<Longrightarrow> js_shr v (int p) = v div 2 ^ p"
  by (simp add: js_shr_def signed_take_bit_int_eq_self drop_bit_eq_div)

lemma gcs_loop_ok:
  assumes "p < 32"
  shows "coder_ok c bs \<Longrightarrow> gcs_input lo xs \<Longrightarrow> \<forall>x \<in> set xs. x < 2 ^ 31 \<Longrightarrow>
    \<exists>c'. gcs_loop c (int p) (int lo - 1) (map int xs) = Inr c' \<and> coder_ok c' (bs @ gcs_bits p lo xs)"
proof (induction xs arbitrary: c bs lo)
  case (Cons x xs)
  show ?case
  proof (cases "x < lo")
    case True
    then have "int lo - 1 = int x" using Cons.prems(2) by (simp add: gcs_input_def)
    then show ?thesis
      using True Cons.IH [OF Cons.prems(1) gcs_input_Cons(1) [OF Cons.prems(2)]] Cons.prems(3) by simp
  next
    case False
    define w where "w = x - lo"
    have v: "int x - (int lo - 1) - 1 = int w" "int lo - 1 \<noteq> int x" "w < 2 ^ 31" using False Cons.prems(3) by (auto simp: w_def)
    have q: "js_shr (int w) (int p) = int (w div 2 ^ p)"
      using v(3) assms js_shr_div [of "int w" p] by (simp add: zdiv_int)
    let ?c1 = "BitCoder_addBit (((\<lambda>c. BitCoder_addBit c False) ^^ (w div 2 ^ p)) c) True"
    have "coder_ok ?c1 ((bs @ replicate (w div 2 ^ p) False) @ [True])" by (intro addBit_ok addZeros_ok Cons.prems(1))
    from addBits_ok [OF this less_imp_le [OF assms], of w] obtain c2 where
      c2: "BitCoder_addBits ?c1 (int w) (int p) = Inr c2" "coder_ok c2 (bs @ value_bits p w)"
      unfolding value_bits_def append_assoc append_Cons append_Nil by blast
    obtain c' where "gcs_loop c2 (int p) (int x) (map int xs) = Inr c'" "coder_ok c' (bs @ value_bits p w @ gcs_bits p (x + 1) xs)"
      using Cons.IH [OF c2(2) gcs_input_Cons(2) [OF Cons.prems(2)]] Cons.prems(3) by auto
    then show ?thesis using False c2(1) v(1,2) q by (simp add: Let_def w_def [symmetric])
  qed
qed simp

end
