(* ===== verification/Digest_Server.thy ===== *)
theory Digest_Server
  imports Cache_Digest
begin

text \<open>
  The reader of cache digests on the server (\<^verbatim>\<open>lib/http2/cache_digests.c\<close>, \<^verbatim>\<open>deps/golombset/golombset.h\<close>
  and the base64 decoder of \<^verbatim>\<open>lib/common/string.c\<close>), and the properties of the exchange with the service
  worker: the bits that the coder wrote are read back, base64 is inverted, and the set that is
  decoded is the set of truncated hashes.

  Numbers are natural numbers with the wrap-around of 64 bits written out.  The decoder consumes
  its input, so its loops end by the number of bits left.  The tokens of the header are not taken
  apart here: the digest is the part in front of the parameter \<^verbatim>\<open>complete\<close>.
\<close>

unbundle bit_operations_syntax

section \<open>The decoder of the server\<close>

text \<open>
  The context of the decoder: the bytes after the current one, the current byte, and the number of
  its bits that are left.
\<close>

record decode_ctx =
  dc_src :: "nat list"
  dc_byte :: nat
  dc_shift :: nat

definition golombset_decode_bit :: "decode_ctx \<Rightarrow> (bool \<times> decode_ctx) option" where
  "golombset_decode_bit ctx =
    (case (if dc_shift ctx = 0
           then (case dc_src ctx of [] \<Rightarrow> None | x # xs \<Rightarrow> Some \<lparr>dc_src = xs, dc_byte = x, dc_shift = 8\<rparr>)
           else Some ctx) of
       None \<Rightarrow> None
     | Some ctx \<Rightarrow> Some (drop_bit (dc_shift ctx - 1) (dc_byte ctx) AND 1 = 1, ctx\<lparr>dc_shift := dc_shift ctx - 1\<rparr>))"

fun decode_bits_loop :: "nat \<Rightarrow> decode_ctx \<Rightarrow> nat \<Rightarrow> (nat \<times> decode_ctx) option" where
  "decode_bits_loop value ctx 0 = Some (value, ctx)"
| "decode_bits_loop value ctx (Suc bits) =
    (case golombset_decode_bit ctx of
       None \<Rightarrow> None
     | Some (b, ctx) \<Rightarrow> decode_bits_loop ((value * 2 + (if b then 1 else 0)) mod 2 ^ 64) ctx bits)"

definition golombset_decode_bits :: "decode_ctx \<Rightarrow> nat \<Rightarrow> (nat \<times> decode_ctx) option" where
  "golombset_decode_bits ctx bits = decode_bits_loop 0 ctx bits"

definition bits_left :: "decode_ctx \<Rightarrow> nat" where
  "bits_left ctx = dc_shift ctx + 8 * length (dc_src ctx)"

lemma decode_bit_left: "golombset_decode_bit ctx = Some (b, ctx') \<Longrightarrow> bits_left ctx = Suc (bits_left ctx')"
  by (auto simp: golombset_decode_bit_def bits_left_def split: if_splits option.splits list.splits)

function decode_quotient :: "nat \<Rightarrow> decode_ctx \<Rightarrow> (nat \<times> decode_ctx) option" where
  "decode_quotient q ctx =
    (case golombset_decode_bit ctx of
       None \<Rightarrow> None
     | Some (b, ctx) \<Rightarrow> if b then Some (q, ctx) else decode_quotient ((q + 1) mod 2 ^ 64) ctx)"
  by pat_completeness auto
termination by (relation "measure (\<lambda>(q, ctx). bits_left ctx)") (auto dest: decode_bit_left)

declare decode_quotient.simps [simp del]

definition golombset_decode_value :: "decode_ctx \<Rightarrow> nat \<Rightarrow> (nat \<times> decode_ctx) option" where
  "golombset_decode_value ctx fixed_bits =
    (case decode_quotient 0 ctx of
       None \<Rightarrow> None
     | Some (q, ctx) \<Rightarrow>
         (case golombset_decode_bits ctx fixed_bits of
            None \<Rightarrow> None
          | Some (value, ctx) \<Rightarrow> Some ((value + push_bit fixed_bits q) mod 2 ^ 64, ctx)))"

lemma decode_quotient_left: "decode_quotient q ctx = Some (q', ctx') \<Longrightarrow> bits_left ctx' < bits_left ctx"
proof (induction q ctx rule: decode_quotient.induct)
  case (1 q ctx)
  then show ?case
    by (subst (asm) decode_quotient.simps) (fastforce split: option.splits if_splits dest: decode_bit_left)
qed

lemma decode_bits_left: "decode_bits_loop v ctx n = Some (v', ctx') \<Longrightarrow> bits_left ctx' \<le> bits_left ctx"
  by (induction v ctx n rule: decode_bits_loop.induct) (fastforce split: option.splits dest: decode_bit_left)+

lemma decode_value_left: "golombset_decode_value ctx n = Some (v, ctx') \<Longrightarrow> bits_left ctx' < bits_left ctx"
  by (auto simp: golombset_decode_value_def golombset_decode_bits_def split: option.splits
      dest!: decode_quotient_left decode_bits_left)

function load_values :: "nat \<Rightarrow> nat \<Rightarrow> decode_ctx \<Rightarrow> nat \<Rightarrow> nat list \<Rightarrow> nat list option" where
  "load_values capacity_bits pbits ctx value keys =
    (case golombset_decode_value ctx pbits of
       None \<Rightarrow> Some keys
     | Some (decoded, ctx) \<Rightarrow>
         (let value = (value + decoded + 1) mod 2 ^ 64 in
          if 2 ^ capacity_bits \<le> value then None else load_values capacity_bits pbits ctx value (keys @ [value])))"
  by pat_completeness auto
termination by (relation "measure (\<lambda>(c, p, ctx, v, k). bits_left ctx)") (auto dest: decode_value_left)

declare load_values.simps [simp del]

definition decode_base64_char :: "nat \<Rightarrow> nat option" where
  "decode_base64_char c =
    (if 65 \<le> c \<and> c \<le> 90 then Some (c - 65)
     else if 97 \<le> c \<and> c \<le> 122 then Some (c - 97 + 26)
     else if 48 \<le> c \<and> c \<le> 57 then Some (c - 48 + 52)
     else if c = 45 then Some 62
     else if c = 95 then Some 63
     else if c = 43 then Some 62
     else if c = 47 then Some 63
     else None)"

fun quad_loop :: "nat \<Rightarrow> nat list \<Rightarrow> nat option" where
  "quad_loop decoded [] = Some decoded"
| "quad_loop decoded (c # cs) =
    (case decode_base64_char c of
       None \<Rightarrow> None
     | Some d \<Rightarrow> quad_loop (if cs = [] then decoded OR d else push_bit 6 (decoded OR d)) cs)"

definition decode_base64url_quad :: "nat list \<Rightarrow> nat option" where
  "decode_base64url_quad src = quad_loop 0 src"

text \<open>The stores \<^verbatim>\<open>*dst++ = t >> 16\<close> keep the lowest byte.\<close>

fun decode_base64url :: "nat list \<Rightarrow> nat list option" where
  "decode_base64url [] = Some []"
| "decode_base64url [a] = None"
| "decode_base64url [a, b] =
    (case decode_base64url_quad [a, b, 65, 65] of None \<Rightarrow> None | Some t \<Rightarrow> Some [drop_bit 16 t mod 256])"
| "decode_base64url [a, b, c] =
    (case decode_base64url_quad [a, b, c, 65] of None \<Rightarrow> None | Some t \<Rightarrow> Some [drop_bit 16 t mod 256, drop_bit 8 t mod 256])"
| "decode_base64url (a # b # c # d # src) =
    (case decode_base64url_quad [a, b, c, d] of
       None \<Rightarrow> None
     | Some t \<Rightarrow>
         (case decode_base64url src of
            None \<Rightarrow> None
          | Some dst \<Rightarrow> Some (drop_bit 16 t mod 256 # drop_bit 8 t mod 256 # t mod 256 # dst)))"

record frame =
  fr_keys :: "nat list"
  fr_capacity_bits :: nat

record cache_digests =
  cd_url_only :: "frame list"
  cd_url_and_etag :: "frame list"
  cd_complete :: bool

definition load_frame :: "nat list \<Rightarrow> frame option" where
  "load_frame bin =
    (case golombset_decode_bits \<lparr>dc_src = bin, dc_byte = 0, dc_shift = 0\<rparr> 5 of
       None \<Rightarrow> None
     | Some (nbits, ctx) \<Rightarrow>
         (case golombset_decode_bits ctx 5 of
            None \<Rightarrow> None
          | Some (pbits, ctx) \<Rightarrow>
              (case load_values (nbits + pbits) pbits ctx (2 ^ 64 - 1) [] of
                 None \<Rightarrow> None
               | Some keys \<Rightarrow> Some \<lparr>fr_keys = keys, fr_capacity_bits = nbits + pbits\<rparr>)))"

definition load_digest :: "cache_digests option \<Rightarrow> jsstring \<Rightarrow> bool \<Rightarrow> bool \<Rightarrow> cache_digests option" where
  "load_digest digests gcs_base64 with_validators complete =
    (case decode_base64url gcs_base64 of
       None \<Rightarrow> digests
     | Some bin \<Rightarrow>
         (case load_frame bin of
            None \<Rightarrow> digests
          | Some frame \<Rightarrow>
              (let d = (case digests of None \<Rightarrow> \<lparr>cd_url_only = [], cd_url_and_etag = [], cd_complete = False\<rparr> | Some d \<Rightarrow> d);
                   d = (if with_validators then d\<lparr>cd_url_and_etag := cd_url_and_etag d @ [frame]\<rparr>
                        else d\<lparr>cd_url_only := cd_url_only d @ [frame]\<rparr>)
               in Some (d\<lparr>cd_complete := complete\<rparr>))))"

datatype digests_state = UNKNOWN | NOT_CACHED | FRESH | STALE

text \<open>
  \<^verbatim>\<open>bsearch\<close> finds a key in a sorted array when it is there; the hash is the first 64 bits of the
  SHA-256 of the URL.  A capacity of zero would shift by the whole width, which C leaves undefined.
\<close>

fun bsearch :: "nat \<Rightarrow> nat list \<Rightarrow> bool" where
  "bsearch key keys = (if keys = [] then False
    else (let m = length keys div 2 in
      if key = keys ! m then True else if key < keys ! m then bsearch key (take m keys) else bsearch key (drop (Suc m) keys)))"

declare bsearch.simps [simp del]

definition lookup :: "frame list \<Rightarrow> nat \<Rightarrow> bool \<Rightarrow> bool \<Rightarrow> digests_state" where
  "lookup vector hash is_fresh is_complete =
    (if \<exists>frame \<in> set vector. bsearch (drop_bit (64 - fr_capacity_bits frame) hash) (fr_keys frame)
     then (if is_fresh then FRESH else STALE)
     else if is_complete then NOT_CACHED else UNKNOWN)"

definition lookup_by_url :: "(jsstring \<Rightarrow> nat) \<Rightarrow> cache_digests \<Rightarrow> jsstring \<Rightarrow> digests_state" where
  "lookup_by_url calc_hash digests url = lookup (cd_url_only digests) (calc_hash url) True (cd_complete digests)"

section \<open>Reading the bits back\<close>

definition stream :: "decode_ctx \<Rightarrow> bool list" where
  "stream ctx = low_bits (dc_shift ctx) (dc_byte ctx) @ concat (map byte_bits (dc_src ctx))"

lemma low_bits_simps [simp]: "low_bits 0 v = []" "low_bits (Suc n) v = bit v n # low_bits n v" "length (low_bits n v) = n"
  by (simp_all add: low_bits_def)

lemma byte_low_bits: "byte_bits x = low_bits 8 x"
  by (simp add: byte_bits_def low_bits_def)

lemma odd_bit: "(drop_bit k v mod 2 = Suc 0) = bit (v :: nat) k"
  by (simp add: bit_iff_odd_drop_bit odd_iff_mod_2_eq_one)

lemma decode_bit_stream:
  "stream ctx = [] \<Longrightarrow> golombset_decode_bit ctx = None"
  "stream ctx = b # bs \<Longrightarrow> \<exists>ctx'. golombset_decode_bit ctx = Some (b, ctx') \<and> stream ctx' = bs"
proof -
  have Suc: "low_bits (dc_shift ctx) (dc_byte ctx) = bit (dc_byte ctx) (dc_shift ctx - 1) # low_bits (dc_shift ctx - 1) (dc_byte ctx)"
    if "dc_shift ctx \<noteq> 0" using that by (cases "dc_shift ctx") simp_all
  have eight: "low_bits 8 x = bit x 7 # low_bits 7 x" for x using low_bits_simps(2) [of 7 x] by (simp del: low_bits_simps)
  show "stream ctx = [] \<Longrightarrow> golombset_decode_bit ctx = None"
    by (cases "dc_shift ctx = 0"; cases "dc_src ctx") (simp_all add: stream_def golombset_decode_bit_def Suc byte_low_bits eight)
  show "stream ctx = b # bs \<Longrightarrow> \<exists>ctx'. golombset_decode_bit ctx = Some (b, ctx') \<and> stream ctx' = bs"
    by (cases "dc_shift ctx = 0"; cases "dc_src ctx")
      (simp_all add: stream_def golombset_decode_bit_def Suc byte_low_bits eight odd_bit)
qed

lemma decode_bits_stream:
  assumes "stream ctx = low_bits n v @ bs" "acc * 2 ^ n + 2 ^ n \<le> 2 ^ 64"
  shows "\<exists>ctx'. decode_bits_loop acc ctx n = Some (acc * 2 ^ n + take_bit n v, ctx') \<and> stream ctx' = bs"
  using assms
proof (induction n arbitrary: acc ctx)
  case (Suc n)
  obtain ctx1 where c: "golombset_decode_bit ctx = Some (bit v n, ctx1)" "stream ctx1 = low_bits n v @ bs"
    using decode_bit_stream(2) [of ctx "bit v n"] Suc.prems(1) by auto
  let ?acc = "acc * 2 + of_bool (bit v n)"
  have "?acc * 2 ^ n + 2 ^ n \<le> (acc * 2 + 1) * 2 ^ n + 2 ^ n" by simp
  also have "\<dots> \<le> 2 ^ 64" using Suc.prems(2) by (simp add: algebra_simps)
  finally have le: "?acc * 2 ^ n + 2 ^ n \<le> 2 ^ 64" .
  moreover have "?acc \<le> ?acc * 2 ^ n" "0 < (2 :: nat) ^ n" by simp_all
  ultimately have "?acc < 2 ^ 64" by linarith
  then have "?acc mod 2 ^ 64 = ?acc" by (rule mod_less)
  moreover have "?acc * 2 ^ n + take_bit n v = acc * 2 ^ Suc n + take_bit (Suc n) v"
    by (simp add: take_bit_Suc_from_most algebra_simps)
  ultimately show ?case using Suc.IH [OF c(2) le] c(1) by (simp add: of_bool_def)
qed simp

lemma decode_quotient_stream:
  assumes "stream ctx = replicate q False @ True # bs" "a + q < 2 ^ 64"
  shows "\<exists>ctx'. decode_quotient a ctx = Some (a + q, ctx') \<and> stream ctx' = bs"
  using assms
proof (induction q arbitrary: a ctx)
  case 0
  then obtain ctx' where "golombset_decode_bit ctx = Some (True, ctx')" "stream ctx' = bs"
    using decode_bit_stream(2) [of ctx True bs] by auto
  then show ?case by (simp add: decode_quotient.simps)
next
  case (Suc q)
  then obtain ctx1 where c: "golombset_decode_bit ctx = Some (False, ctx1)" "stream ctx1 = replicate q False @ True # bs"
    using decode_bit_stream(2) [of ctx False] by auto
  moreover have "(a + 1) mod 2 ^ 64 = a + 1" using Suc.prems(2) by (intro mod_less) simp
  ultimately show ?case using Suc.IH [OF c(2), of "a + 1"] Suc.prems(2) decode_quotient.simps [of a ctx] by simp
qed

lemma decode_quotient_zeros: "stream ctx = replicate q False \<Longrightarrow> decode_quotient a ctx = None"
proof (induction q arbitrary: a ctx)
  case 0
  then show ?case by (simp add: decode_quotient.simps decode_bit_stream(1))
next
  case (Suc q)
  then obtain ctx1 where "golombset_decode_bit ctx = Some (False, ctx1)" "stream ctx1 = replicate q False"
    using decode_bit_stream(2) [of ctx False] by auto
  then show ?case using Suc.IH decode_quotient.simps [of a ctx] by simp
qed

lemma decode_value_stream:
  assumes "stream ctx = value_bits p v @ bs" "v < 2 ^ 63" "p \<le> 63"
  shows "\<exists>ctx'. golombset_decode_value ctx p = Some (v, ctx') \<and> stream ctx' = bs"
proof -
  have "v div 2 ^ p \<le> v" by simp
  moreover have "v < 2 ^ 64" using assms(2) by simp
  ultimately have "v div 2 ^ p < 2 ^ 64" by (rule le_less_trans)
  then obtain ctx1 where 1: "decode_quotient 0 ctx = Some (v div 2 ^ p, ctx1)" "stream ctx1 = low_bits p v @ bs"
    using decode_quotient_stream [of ctx "v div 2 ^ p" "low_bits p v @ bs" 0] assms(1,2) by (auto simp: value_bits_def)
  have "(2 :: nat) ^ p \<le> 2 ^ 64" using assms(3) by (intro power_increasing) simp_all
  then obtain ctx2 where 2: "golombset_decode_bits ctx1 p = Some (take_bit p v, ctx2)" "stream ctx2 = bs"
    using decode_bits_stream [OF 1(2), of 0] by (auto simp: golombset_decode_bits_def)
  have "take_bit p v + push_bit p (v div 2 ^ p) = v" by (simp add: take_bit_eq_mod push_bit_eq_mult mod_div_mult_eq)
  then show ?thesis using 1(1) 2 assms(2) by (simp add: golombset_decode_value_def)
qed

lemma load_values_stream:
  assumes "cap \<le> 63" "p \<le> 63"
  shows "stream ctx = gcs_bits p lo xs @ replicate k False \<Longrightarrow> gcs_input lo xs \<Longrightarrow> \<forall>x \<in> set xs. x < 2 ^ cap \<Longrightarrow>
    (val + 1) mod 2 ^ 64 = lo \<Longrightarrow> load_values cap p ctx val keys = Some (keys @ gcs_keys lo xs)"
proof (induction xs arbitrary: ctx lo val keys)
  case Nil
  then have "golombset_decode_value ctx p = None" by (simp add: golombset_decode_value_def decode_quotient_zeros)
  then show ?case by (simp add: load_values.simps)
next
  case (Cons x xs)
  show ?case
  proof (cases "x < lo")
    case True
    then show ?thesis
      using Cons.IH [OF _ gcs_input_Cons(1) [OF Cons.prems(2)] _ Cons.prems(4)] Cons.prems(1,3) by simp
  next
    case False
    have cap: "(2 :: nat) ^ cap \<le> 2 ^ 63" using assms(1) by (intro power_increasing) simp_all
    have x: "x < 2 ^ cap" using Cons.prems(3) by simp
    then have small: "x - lo < 2 ^ 63" "x < 2 ^ 64" using cap by auto
    obtain ctx' where c: "golombset_decode_value ctx p = Some (x - lo, ctx')" "stream ctx' = gcs_bits p (x + 1) xs @ replicate k False"
      using decode_value_stream [OF _ small(1) assms(2), of ctx "gcs_bits p (x + 1) xs @ replicate k False"] Cons.prems(1) False by auto
    have "(val + (x - lo) + 1) mod 2 ^ 64 = ((val + 1) mod 2 ^ 64 + (x - lo)) mod 2 ^ 64"
      by (simp add: mod_simps ac_simps)
    also have "\<dots> = x" using False small(2) Cons.prems(4) by simp
    finally have v: "(val + (x - lo) + 1) mod 2 ^ 64 = x" .
    moreover have "(x + 1) mod 2 ^ 64 = x + 1" using x cap by (intro mod_less) simp
    ultimately show ?thesis
      using Cons.IH [OF c(2) gcs_input_Cons(2) [OF Cons.prems(2)]] Cons.prems(3) False c(1) x
      by (simp add: load_values.simps [of cap p ctx] Let_def)
  qed
qed

lemma gcs_keys_spec:
  assumes "gcs_input lo xs"
  shows "sorted (gcs_keys lo xs) \<and> distinct (gcs_keys lo xs) \<and> set (gcs_keys lo xs) = {x \<in> set xs. lo \<le> x}"
  using assms
proof (induction xs arbitrary: lo)
  case (Cons x xs)
  from Cons.IH [OF gcs_input_Cons(1) [OF Cons.prems]] Cons.IH [OF gcs_input_Cons(2) [OF Cons.prems]]
  show ?case using Cons.prems by (auto simp: gcs_input_def Suc_le_eq)
qed simp

section \<open>Base64 in both directions\<close>

lemma decode_tokens: "i < 64 \<Longrightarrow> decode_base64_char (base64_tokens ! i) = Some i"
proof -
  have "list_all (\<lambda>i. decode_base64_char (base64_tokens ! i) = Some i) [0..<64]" by code_simp
  then show "i < 64 \<Longrightarrow> decode_base64_char (base64_tokens ! i) = Some i" by (simp add: list_all_iff del: upt_rec_numeral)
qed

lemma quad_parts:
  assumes "q < 2 ^ 24"
  shows "push_bit 6 (push_bit 6 (push_bit 6 (drop_bit 18 q) OR take_bit 6 (drop_bit 12 q)) OR take_bit 6 (drop_bit 6 q)) OR take_bit 6 q = (q :: nat)"
proof -
  have "push_bit 6 (drop_bit 18 q) OR take_bit 6 (drop_bit 12 q) = drop_bit 12 q" using join_bits [of 6 "drop_bit 12 q"] by simp
  moreover have "push_bit 6 (drop_bit 12 q) OR take_bit 6 (drop_bit 6 q) = drop_bit 6 q" using join_bits [of 6 "drop_bit 6 q"] by simp
  ultimately show ?thesis using join_bits [of 6 q] by simp
qed

definition quad_value :: "nat \<Rightarrow> nat \<Rightarrow> nat \<Rightarrow> nat" where
  "quad_value a b c = a * 65536 + b * 256 + c"

lemma quad_or:
  assumes "b < 256" "c < 256"
  shows "push_bit 16 a OR push_bit 8 b OR c = quad_value a b c"
proof -
  have "push_bit 8 b OR c = b * 256 + c" using assms(2) join_add [of c 8 b] by simp
  moreover have "b * 256 + c < 2 ^ 16" using assms by simp
  ultimately show ?thesis using join_add [of "b * 256 + c" 16 a] by (simp add: quad_value_def)
qed

lemma quad_bytes:
  assumes "a < 256" "b < 256" "c < 256"
  shows "quad_value a b c < 2 ^ 24" "drop_bit 16 (quad_value a b c) mod 256 = a" "drop_bit 8 (quad_value a b c) mod 256 = b"
    "quad_value a b c mod 256 = c"
proof -
  have "quad_value a b c = (a * 256 + b) * 256 + c" by (simp add: quad_value_def)
  then have "drop_bit 8 (quad_value a b c) = a * 256 + b" using assms(3) by (simp add: drop_bit_eq_div)
  then show "drop_bit 8 (quad_value a b c) mod 256 = b" using assms(2) by simp
  have "quad_value a b c = a * 65536 + (b * 256 + c)" by (simp add: quad_value_def)
  moreover have "b * 256 + c < 65536" using assms by simp
  ultimately have "drop_bit 16 (quad_value a b c) = a" by (simp add: drop_bit_eq_div)
  then show "drop_bit 16 (quad_value a b c) mod 256 = a" using assms(1) by simp
  have "quad_value a b c = c + (a * 256 + b) * 256" by (simp add: quad_value_def)
  then show "quad_value a b c mod 256 = c" using assms(3) by (simp only: mod_mult_self1) simp
qed (use assms in \<open>simp add: quad_value_def\<close>)

definition quad_tokens :: "nat \<Rightarrow> nat list" where
  "quad_tokens q = map (\<lambda>i. base64_tokens ! i) [drop_bit 18 q, take_bit 6 (drop_bit 12 q), take_bit 6 (drop_bit 6 q), take_bit 6 q]"

lemma quad_tokens_decode: "q < 2 ^ 24 \<Longrightarrow> decode_base64url_quad (quad_tokens q) = Some q"
proof -
  assume q: "q < 2 ^ 24"
  then have "drop_bit 18 q < 64" by (simp add: drop_bit_eq_div less_mult_imp_div_less)
  moreover have "take_bit 6 x < 64" for x :: nat using take_bit_nat_less_exp [of 6 x] by simp
  ultimately show ?thesis
    using quad_parts [OF q] by (simp add: decode_base64url_quad_def quad_tokens_def decode_tokens del: push_bit_push_bit)
qed

lemma base64_quad_tokens: "b < 256 \<Longrightarrow> c < 256 \<Longrightarrow> base64_quad a b c = quad_tokens (quad_value a b c)"
  by (simp add: base64_quad_def quad_tokens_def quad_or and_63 Let_def)

lemma base64Encode_simps:
  "base64Encode [] = []"
  "base64Encode [a] = take 2 (base64_quad a 0 0)"
  "base64Encode [a, b] = take 3 (base64_quad a b 0)"
  "base64Encode (a # b # c # buf) = base64_quad a b c @ base64Encode buf"
proof -
  have len: "length (base64_quad a b c) = 4" for a b c by (simp add: base64_quad_def Let_def)
  have five: "(5 + n) div 3 = 1 + (n + 2) div 3" for n :: nat by presburger
  have loop: "length (base64_loop buf) = (length buf + 2) div 3 * 4" for buf
    by (induction buf rule: base64_loop.induct) (simp_all add: len five)
  show "base64Encode (a # b # c # buf) = base64_quad a b c @ base64Encode buf"
    by (simp add: base64Encode_def Let_def len loop five)
qed (simp_all add: base64Encode_def Let_def base64_quad_def)

lemma quad_tokens_eq: "\<exists>s t u v. quad_tokens q = [s, t, u, v]"
  by (simp add: quad_tokens_def)

lemma base64_roundtrip: "\<forall>x \<in> set buf. x < 256 \<Longrightarrow> decode_base64url (base64Encode buf) = Some buf"
proof (induction buf rule: base64_loop.induct)
  case (2 a)
  let ?q = "quad_value a 0 0"
  have q: "?q < 2 ^ 24" "drop_bit 16 ?q mod 256 = a" using 2 quad_bytes [of a 0 0] by simp_all
  have "?q div 64 mod 64 = 0" "?q mod 64 = 0" by (simp_all add: quad_value_def)
  then obtain s t where st: "quad_tokens ?q = [s, t, 65, 65]"
    by (simp add: quad_tokens_def base64_tokens_def drop_bit_eq_div take_bit_eq_mod)
  then show ?case using quad_tokens_decode [OF q(1)] q(2) by (simp add: base64Encode_simps base64_quad_tokens)
next
  case (3 a b)
  let ?q = "quad_value a b 0"
  have q: "?q < 2 ^ 24" "drop_bit 16 ?q mod 256 = a" "drop_bit 8 ?q mod 256 = b" using 3 quad_bytes [of a b 0] by simp_all
  have "?q mod 64 = 0" by (simp add: quad_value_def)
  then obtain s t u where st: "quad_tokens ?q = [s, t, u, 65]"
    by (simp add: quad_tokens_def base64_tokens_def drop_bit_eq_div take_bit_eq_mod)
  then show ?case using quad_tokens_decode [OF q(1)] q(2,3) 3 by (simp add: base64Encode_simps base64_quad_tokens)
next
  case (4 a b c buf)
  let ?q = "quad_value a b c"
  have q: "?q < 2 ^ 24" "drop_bit 16 ?q mod 256 = a" "drop_bit 8 ?q mod 256 = b" "?q mod 256 = c"
    using 4 quad_bytes [of a b c] by simp_all
  obtain s t u v where "quad_tokens ?q = [s, t, u, v]" using quad_tokens_eq by blast
  then show ?case using quad_tokens_decode [OF q(1)] q(2-4) 4 by (simp add: base64Encode_simps base64_quad_tokens)
qed (simp add: base64Encode_simps)

section \<open>The digest and what the server reads\<close>

text \<open>The first bits of the hash of a URL.\<close>

definition url_key :: "(jsstring \<Rightarrow> 32 word list) \<Rightarrow> nat \<Rightarrow> jsstring \<Rightarrow> nat" where
  "url_key sha256 bits url = unat (sha256 url ! 0) div 2 ^ (32 - bits)"

lemma shifted_word: "js_shr (sint w) 1 AND 0x7fffffff = uint (w :: 32 word) div 2"
proof -
  have "signed_take_bit 31 (sint w) = sint w"
    using sint_greater_eq [of w] sint_less [of w] by (intro signed_take_bit_int_eq_self) simp_all
  then have "js_shr (sint w) 1 = drop_bit 1 (sint w)" by (simp add: js_shr_def)
  moreover have "drop_bit 1 (sint w) AND 0x7fffffff = take_bit 31 (drop_bit 1 (sint w))"
    using take_bit_eq_mask [of 31 "drop_bit 1 (sint w)"] by (simp add: mask_eq_exp_minus_1)
  moreover have "take_bit 31 (drop_bit 1 (sint w)) = drop_bit 1 (take_bit 32 (sint w))" by (simp add: take_bit_drop_bit)
  moreover have "take_bit 32 (uint w) = uint w" using uint_bounded [of w] by (intro take_bit_int_eq_self) simp_all
  then have "take_bit 32 (sint w) = uint w" by (simp add: sint_uint take_bit_signed_take_bit)
  ultimately show ?thesis by (simp add: drop_bit_eq_div)
qed

lemma sha256Truncated_key:
  assumes "bits \<le> 31"
  shows "sha256Truncated sha256 url (int bits) = int (url_key sha256 bits url)" "url_key sha256 bits url < 2 ^ bits"
proof -
  let ?w = "sha256 url ! 0"
  have lt: "uint ?w < 2 ^ 32" using uint_bounded [of ?w] by simp
  have e: "31 - int bits = int (31 - bits)" "(2 :: int) * 2 ^ (31 - bits) = 2 ^ (32 - bits)" using assms by (simp_all flip: power_Suc add: Suc_diff_le)
  have "js_shr (uint ?w div 2) (int (31 - bits)) = uint ?w div 2 div 2 ^ (31 - bits)" using lt by (intro js_shr_div) auto
  then show "sha256Truncated sha256 url (int bits) = int (url_key sha256 bits url)"
    using zdiv_zmult2_eq [of "2 ^ (31 - bits)" "uint ?w" 2]
    unfolding sha256Truncated_def shifted_word e url_key_def by (simp only: of_nat_div of_nat_power of_nat_numeral unat_eq_nat_uint) simp
  have "unat ?w < 2 ^ bits * 2 ^ (32 - bits)" using assms unsigned_less [of ?w] by (simp flip: power_add)
  then show "url_key sha256 bits url < 2 ^ bits" unfolding url_key_def by (rule less_mult_imp_div_less)
qed

lemma sha256Truncated_nonneg: "0 \<le> sha256Truncated sha256 url bits"
proof -
  let ?x = "uint (sha256 url ! 0) div 2"
  have "?x < 2 ^ 31" using uint_bounded [of "sha256 url ! 0"] by simp
  moreover have "- (2 ^ 31) \<le> ?x" by (rule order_trans [of _ 0]) simp_all
  ultimately have "signed_take_bit 31 ?x = ?x" by (intro signed_take_bit_int_eq_self)
  then show ?thesis unfolding sha256Truncated_def shifted_word by (simp add: js_shr_def)
qed

lemma sort_map_int: "sort (map int xs) = map int (sort xs)"
  by (rule properties_for_sort) (simp_all add: sorted_map sorted_wrt_map_mono)

definition digest_keys :: "(jsstring \<Rightarrow> 32 word list) \<Rightarrow> jsstring list \<Rightarrow> nat \<Rightarrow> nat list" where
  "digest_keys sha256 urls p = sort (map (url_key sha256 (round_log2 (max (length urls) 1) + p)) urls)"

lemma digest_keys_input:
  "gcs_input 0 (digest_keys sha256 urls p)"
  "round_log2 (max (length urls) 1) + p \<le> 31 \<Longrightarrow> \<forall>x \<in> set (digest_keys sha256 urls p). x < 2 ^ (round_log2 (max (length urls) 1) + p)"
  by (auto simp: gcs_input_def digest_keys_def sha256Truncated_key(2))

lemma calcDigestValue_bits:
  assumes "round_log2 (max (length urls) 1) + p \<le> 31"
  shows "\<exists>v k. calcDigestValue sha256 urls (int p) = Inr (Some v) \<and> (\<forall>x \<in> set v. x < 256) \<and> k < 8 \<and>
    concat (map byte_bits v) = low_bits 5 (round_log2 (max (length urls) 1)) @ low_bits 5 p
      @ gcs_bits p 0 (digest_keys sha256 urls p) @ replicate k False"
proof -
  let ?n = "round_log2 (max (length urls) 1)" and ?keys = "digest_keys sha256 urls p"
  have "coder_ok BitCoder_new []" by (simp add: coder_ok_def BitCoder_new_def)
  then obtain c1 where 1: "BitCoder_addBits BitCoder_new (int ?n) 5 = Inr c1" "coder_ok c1 (low_bits 5 ?n)"
    using addBits_ok [of BitCoder_new "[]" 5 ?n] by auto
  then obtain c2 where 2: "BitCoder_addBits c1 (int p) 5 = Inr c2" "coder_ok c2 (low_bits 5 ?n @ low_bits 5 p)"
    using addBits_ok [of c1 _ 5 p] by fastforce
  have p: "p < 32" using assms by simp
  have "(2 :: nat) ^ (?n + p) \<le> 2 ^ 31" using assms by (intro power_increasing) simp_all
  then have below: "\<forall>x \<in> set ?keys. x < 2 ^ 31" using digest_keys_input(2) [OF assms] less_le_trans by blast
  have minus: "int 0 - 1 = - 1" by simp
  from gcs_loop_ok [OF p 2(2) digest_keys_input(1) below] obtain c3 where
    3: "gcs_loop c2 (int p) (- 1) (map int ?keys) = Inr c3" "coder_ok c3 ((low_bits 5 ?n @ low_bits 5 p) @ gcs_bits p 0 ?keys)"
    unfolding minus by blast
  have "map (\<lambda>url. sha256Truncated sha256 url (int ?n + int p)) urls = map int (map (url_key sha256 (?n + p)) urls)"
    using sha256Truncated_key(1) [OF assms] by simp
  then have "BitCoder_gcsEncode c2 (map (\<lambda>url. sha256Truncated sha256 url (int ?n + int p)) urls) (int p) = Inr c3"
    using 3(1) by (simp only: BitCoder_gcsEncode_def sort_map_int digest_keys_def)
  then have "calcDigestValue sha256 urls (int p) = Inr (Some (bc_value c3))"
    using assms 1(1) 2(1) by (simp add: calcDigestValue_def Let_def)
  then show ?thesis using 3(2) by (auto simp: coder_ok_def)
qed

lemma bsearch_iff: "sorted_wrt (<) keys \<Longrightarrow> bsearch key keys \<longleftrightarrow> key \<in> set keys"
proof (induction key keys rule: bsearch.induct)
  case (1 key keys)
  show ?case
  proof (cases "keys = []")
    case False
    let ?m = "length keys div 2"
    have m: "?m < length keys" using False by simp
    define xs y ys where "xs = take ?m keys" and "y = keys ! ?m" and "ys = drop (Suc ?m) keys"
    note parts = xs_def y_def ys_def
    have keys: "keys = xs @ y # ys" unfolding parts by (rule id_take_nth_drop [OF m])
    then have s: "sorted_wrt (<) xs" "sorted_wrt (<) ys" "\<forall>x \<in> set xs. x < y" "\<forall>x \<in> set ys. y < x"
      using 1(3) by (auto simp: sorted_wrt_append)
    have "bsearch key keys \<longleftrightarrow> (if key = y then True else if key < y then bsearch key xs else bsearch key ys)"
      using False by (subst bsearch.simps) (simp add: Let_def parts)
    moreover have "key < y \<Longrightarrow> bsearch key xs \<longleftrightarrow> key \<in> set xs" "y < key \<Longrightarrow> bsearch key ys \<longleftrightarrow> key \<in> set ys"
      using "1.IH" [OF False refl] s(1,2) by (auto simp: parts)
    ultimately show ?thesis using s(3,4) by (auto simp: keys)
  qed (simp add: bsearch.simps)
qed

definition url_frame :: "(jsstring \<Rightarrow> 32 word list) \<Rightarrow> jsstring list \<Rightarrow> nat \<Rightarrow> frame" where
  "url_frame sha256 urls p =
    (let bits = round_log2 (max (length urls) 1) + p
     in \<lparr>fr_keys = sorted_list_of_set (url_key sha256 bits ` set urls), fr_capacity_bits = bits\<rparr>)"

lemma gcs_keys_digest:
  "gcs_keys 0 (digest_keys sha256 urls p) = sorted_list_of_set (url_key sha256 (round_log2 (max (length urls) 1) + p) ` set urls)"
proof -
  let ?ks = "gcs_keys 0 (digest_keys sha256 urls p)"
  have ks: "sorted ?ks" "distinct ?ks" "set ?ks = url_key sha256 (round_log2 (max (length urls) 1) + p) ` set urls"
    using gcs_keys_spec [OF digest_keys_input(1)] by (auto simp: digest_keys_def)
  have "sorted_list_of_set (set ?ks) = ?ks" by (rule sorted_list_of_set.idem_if_sorted_distinct [OF ks(1,2)])
  then show ?thesis by (simp add: ks(3))
qed

lemma load_frame_digest:
  assumes n: "round_log2 (max (length urls) 1) + p \<le> 31"
    and v: "concat (map byte_bits v) = low_bits 5 (round_log2 (max (length urls) 1)) @ low_bits 5 p
      @ gcs_bits p 0 (digest_keys sha256 urls p) @ replicate k False"
  shows "load_frame v = Some (url_frame sha256 urls p)"
proof -
  let ?n = "round_log2 (max (length urls) 1)"
  have small: "take_bit 5 ?n = ?n" "take_bit 5 p = p" using n by (simp_all add: take_bit_nat_eq_self)
  obtain c1 where 1: "golombset_decode_bits \<lparr>dc_src = v, dc_byte = 0, dc_shift = 0\<rparr> 5 = Some (?n, c1)"
    "stream c1 = low_bits 5 p @ gcs_bits p 0 (digest_keys sha256 urls p) @ replicate k False"
    using decode_bits_stream [of "\<lparr>dc_src = v, dc_byte = 0, dc_shift = 0\<rparr>" 5 ?n _ 0] v small
    by (fastforce simp: stream_def golombset_decode_bits_def)
  obtain c2 where 2: "golombset_decode_bits c1 5 = Some (p, c2)"
    "stream c2 = gcs_bits p 0 (digest_keys sha256 urls p) @ replicate k False"
    using decode_bits_stream [OF 1(2), of 0] small by (auto simp: golombset_decode_bits_def)
  have "load_values (?n + p) p c2 (2 ^ 64 - 1) [] = Some ([] @ gcs_keys 0 (digest_keys sha256 urls p))"
    using n by (intro load_values_stream [OF _ _ 2(2) digest_keys_input(1) digest_keys_input(2) [OF n]]) simp_all
  then show ?thesis using 1(1) 2(1) by (simp add: load_frame_def url_frame_def gcs_keys_digest Let_def)
qed

lemma digest_loaded:
  assumes "round_log2 (max (length urls) 1) + p \<le> 31"
  shows "\<exists>v. calcDigestValue sha256 urls (int p) = Inr (Some v) \<and> load_digest None (base64Encode v) False complete
    = Some \<lparr>cd_url_only = [url_frame sha256 urls p], cd_url_and_etag = [], cd_complete = complete\<rparr>"
  using calcDigestValue_bits [OF assms, of sha256]
  by (auto simp: load_digest_def base64_roundtrip load_frame_digest [OF assms])

lemma url_key_hash:
  assumes "bits \<le> 32" "calc_hash u div 2 ^ 32 = unat (sha256 u ! 0)"
  shows "calc_hash u div 2 ^ (64 - bits) = url_key sha256 bits u"
proof -
  have "64 - bits = 32 + (32 - bits)" using assms(1) by simp
  then show ?thesis using assms(2) by (simp only: power_add div_mult2_eq url_key_def)
qed

lemma lookup_frame:
  assumes "round_log2 (max (length urls) 1) + p \<le> 31" "calc_hash url div 2 ^ 32 = unat (sha256 url ! 0)"
  shows "lookup_by_url calc_hash \<lparr>cd_url_only = [url_frame sha256 urls p], cd_url_and_etag = [], cd_complete = True\<rparr> url =
    (if url_key sha256 (round_log2 (max (length urls) 1) + p) url \<in> url_key sha256 (round_log2 (max (length urls) 1) + p) ` set urls
     then FRESH else NOT_CACHED)"
  using url_key_hash [of "round_log2 (max (length urls) 1) + p" calc_hash url sha256] assms
  by (simp add: lookup_by_url_def lookup_def url_frame_def Let_def bsearch_iff drop_bit_eq_div)

section \<open>Size\<close>

lemma floor_log2_bounds: "0 < n \<Longrightarrow> 2 ^ floor_log2 n \<le> n \<and> n < 2 ^ Suc (floor_log2 n)"
proof (induction n rule: floor_log2.induct)
  case (1 n)
  show ?case
  proof (cases "n < 2")
    case False
    then have "2 ^ floor_log2 (n div 2) \<le> n div 2" "n div 2 < 2 ^ Suc (floor_log2 (n div 2))" using 1 by simp_all
    then show ?thesis using False by (simp add: floor_log2.simps [of n]) linarith
  qed (use 1 in \<open>simp add: floor_log2.simps [of n]\<close>)
qed

lemma round_log2_bounds:
  assumes "0 < n"
  shows "2 ^ round_log2 n * 2 ^ round_log2 n \<le> 2 * (n * n)" "n * n < 2 * (2 ^ round_log2 n * 2 ^ round_log2 n)"
proof -
  let ?k = "floor_log2 n"
  have k: "2 ^ ?k \<le> n" "n < 2 * 2 ^ ?k" using floor_log2_bounds [OF assms] by simp_all
  have "2 ^ ?k * 2 ^ ?k \<le> n * n" by (intro mult_le_mono k(1))
  moreover have "n * n < 2 * 2 ^ ?k * (2 * 2 ^ ?k)" by (rule mult_strict_mono [OF k(2) k(2)]) simp_all
  moreover have "(2 :: nat) ^ (2 * ?k + 1) = 2 * (2 ^ ?k * 2 ^ ?k)" by (simp add: power_add mult_2)
  ultimately show "2 ^ round_log2 n * 2 ^ round_log2 n \<le> 2 * (n * n)" "n * n < 2 * (2 ^ round_log2 n * 2 ^ round_log2 n)"
    by (auto simp: round_log2_def Let_def)
qed

lemma round_log2_less: "0 < n \<Longrightarrow> 2 ^ round_log2 n < 2 * n"
proof -
  assume n: "0 < n"
  have "2 ^ round_log2 n * 2 ^ round_log2 n < 2 * n * (2 * n)" using round_log2_bounds(1) [OF n] n by (auto intro: le_less_trans)
  then show ?thesis by (metis mult_le_mono not_le)
qed

lemma round_log2_le: "0 < n \<Longrightarrow> n \<le> 2 ^ k \<Longrightarrow> round_log2 n \<le> k"
proof -
  assume n: "0 < n" "n \<le> 2 ^ k"
  have "2 ^ round_log2 n < 2 * n" by (rule round_log2_less [OF n(1)])
  also have "\<dots> \<le> 2 ^ Suc k" using n(2) by simp
  finally have "round_log2 n < Suc k" by (rule power_less_imp_less_exp [rotated]) simp
  then show ?thesis by simp
qed

lemma value_bits_length: "length (value_bits p v) = v div 2 ^ p + p + 1"
  by (simp add: value_bits_def)

lemma div_add_le: "a div m + b div m \<le> (a + b) div (m :: nat)"
  unfolding div_add1_eq [of a b m] by simp

lemma gcs_bits_length:
  "\<forall>x \<in> set xs. x < hi \<Longrightarrow> length (gcs_bits p lo xs) \<le> length xs * (p + 1) + (hi - lo) div 2 ^ p"
proof (induction xs arbitrary: lo)
  case (Cons x xs)
  show ?case
  proof (cases "x < lo")
    case True
    then show ?thesis using Cons.IH [of lo] Cons.prems by simp
  next
    case False
    have "(x - lo) div 2 ^ p + (hi - (x + 1)) div 2 ^ p \<le> (x - lo + (hi - (x + 1))) div 2 ^ p" by (rule div_add_le)
    also have "\<dots> \<le> (hi - lo) div 2 ^ p" using False Cons.prems by (intro div_le_mono) simp
    finally have "(x - lo) div 2 ^ p + (hi - (x + 1)) div 2 ^ p \<le> (hi - lo) div 2 ^ p" .
    moreover have "length (gcs_bits p (x + 1) xs) \<le> length xs * (p + 1) + (hi - (x + 1)) div 2 ^ p"
      using Cons.IH [of "x + 1"] Cons.prems by simp
    ultimately show ?thesis using False by (simp add: value_bits_length)
  qed
qed simp

lemma digest_size:
  assumes "round_log2 (max (length urls) 1) + p \<le> 31" "calcDigestValue sha256 urls (int p) = Inr (Some v)"
  shows "8 * length v \<le> 16 + (p + 3) * max (length urls) 1"
proof -
  let ?m = "max (length urls) 1" let ?n = "round_log2 ?m" let ?keys = "digest_keys sha256 urls p"
  obtain k where k: "k < 8" "concat (map byte_bits v) = low_bits 5 ?n @ low_bits 5 p @ gcs_bits p 0 ?keys @ replicate k False"
    using calcDigestValue_bits [OF assms(1), of sha256] assms(2) by auto
  have "8 * length v = 10 + length (gcs_bits p 0 ?keys) + k"
    using arg_cong [OF k(2), of length] unfolding length_concat_bytes by simp
  moreover have "length (gcs_bits p 0 ?keys) \<le> length urls * (p + 1) + 2 ^ (?n + p) div 2 ^ p"
    using gcs_bits_length [OF digest_keys_input(2) [OF assms(1)], of p 0] by (simp add: digest_keys_def)
  moreover have "(2 :: nat) ^ (?n + p) div 2 ^ p = 2 ^ ?n" by (simp add: power_add)
  moreover have "2 ^ ?n < 2 * ?m" by (rule round_log2_less) simp
  moreover have "length urls * (p + 1) \<le> ?m * (p + 1)" by (intro mult_right_mono) simp_all
  moreover have "?m * (p + 1) + 2 * ?m = (p + 3) * ?m" by (simp add: algebra_simps)
  ultimately show ?thesis using k(1) by linarith
qed

section \<open>Properties\<close>

definition digest_bits :: "nat \<Rightarrow> nat" where
  "digest_bits n = round_log2 (max n 1) + 7"

text \<open>
  C6.  What the service worker announces is what the server looks up.  On a navigation the worker
  sends a digest of the URLs with a fresh response in its cache; the server decodes it, finds every
  one of these URLs fresh, and takes every URL whose truncated hash differs from theirs for not
  cached.  Both sides must compute the same hash, and the cache may hold up to \<^verbatim>\<open>2 ^ 24\<close> fresh URLs.
\<close>

theorem announced_urls_found:
  assumes "\<forall>u. calc_hash u div 2 ^ 32 = unat (host_sha256 host u ! 0)" and "length (fresh_urls host cache now) \<le> 2 ^ 24"
  shows "\<exists>d dg. generateCacheDigests host cache now = Inr (Some (d @ js_lit ''; complete''))
    \<and> load_digest None d False True = Some dg
    \<and> (\<forall>url \<in> set (fresh_urls host cache now). lookup_by_url calc_hash dg url = FRESH)
    \<and> (\<forall>url. (\<forall>u \<in> set (fresh_urls host cache now).
            calc_hash u div 2 ^ (64 - digest_bits (length (fresh_urls host cache now)))
              \<noteq> calc_hash url div 2 ^ (64 - digest_bits (length (fresh_urls host cache now))))
          \<longrightarrow> lookup_by_url calc_hash dg url = NOT_CACHED)"
proof -
  let ?urls = "fresh_urls host cache now" let ?b = "round_log2 (max (length ?urls) 1) + 7"
  have n: "?b \<le> 31" using round_log2_le [of "max (length ?urls) 1" 24] assms(2) by simp
  obtain v where v: "calcDigestValue (host_sha256 host) ?urls (int 7) = Inr (Some v)"
    "load_digest None (base64Encode v) False True
      = Some \<lparr>cd_url_only = [url_frame (host_sha256 host) ?urls 7], cd_url_and_etag = [], cd_complete = True\<rparr>"
    using digest_loaded [OF n, of "host_sha256 host" True] by blast
  have key: "calc_hash u div 2 ^ (64 - digest_bits (length ?urls)) = url_key (host_sha256 host) ?b u" for u
    unfolding digest_bits_def by (rule url_key_hash) (use n assms(1) in auto)
  note look = lookup_frame [OF n, of calc_hash _ "host_sha256 host", OF assms(1) [rule_format]]
  have "generateCacheDigests host cache now = Inr (Some (base64Encode v @ js_lit ''; complete''))"
    using v(1) by (simp add: generateCacheDigests_def)
  then show ?thesis using v(2) by (auto simp: look key)
qed

text \<open>A host with a hash that spreads short URLs, for the concrete instances.\<close>

definition example_hash :: "jsstring \<Rightarrow> nat" where
  "example_hash url = (sum_list url * 123456789) mod 2 ^ 32"

definition example_host :: host where
  "example_host = \<lparr>host_append = (\<lambda>req digests. Appended), host_parse = (\<lambda>s. Some 1000), host_sha256 = (\<lambda>url. [of_nat (example_hash url)])\<rparr>"

definition example_cache :: cache where
  "example_cache = [([97], \<lparr>rs_status = 200, rs_headers = [(js_lit ''Expires'', [49])], rs_body = []\<rparr>),
    ([98], \<lparr>rs_status = 200, rs_headers = [(js_lit ''Cache-Control'', js_lit ''no-store'')], rs_body = []\<rparr>)]"

lemma example_hash_agrees: "(example_hash u * 2 ^ 32) div 2 ^ 32 = unat (host_sha256 example_host u ! 0)"
  by (simp add: example_host_def example_hash_def unat_of_nat)

lemma example_fresh: "fresh_urls example_host example_cache 10 = [[97]]"
  by (simp add: fresh_urls_def example_host_def example_cache_def isFresh_def js_lit_def ascii_lower_def split_directives_def
      is_no_store_def trim_left_def trim_right_def white_space_def)

theorem announced_urls_found_witness:
  "\<exists>d dg. generateCacheDigests example_host example_cache 10 = Inr (Some (d @ js_lit ''; complete''))
    \<and> load_digest None d False True = Some dg \<and> lookup_by_url (\<lambda>u. example_hash u * 2 ^ 32) dg [97] = FRESH
    \<and> lookup_by_url (\<lambda>u. example_hash u * 2 ^ 32) dg [98] = NOT_CACHED"
proof -
  have bits: "digest_bits (length [[97 :: nat]]) = 7" by (simp add: digest_bits_def round_log2_def floor_log2.simps Let_def)
  have "example_hash [97] * 2 ^ 32 div 2 ^ (64 - 7) \<noteq> example_hash [98] * 2 ^ 32 div 2 ^ (64 - 7)"
    by (simp add: example_hash_def)
  then show ?thesis
    using announced_urls_found [of "\<lambda>u. example_hash u * 2 ^ 32" example_host example_cache 10] example_hash_agrees
    unfolding example_fresh bits by fastforce
qed

text \<open>
  C25.  The set that the server decodes from a digest is exactly the set of truncated hashes, in
  ascending order and each once, with the capacity the worker used: Golomb coding, the padding of
  the last byte and base64 lose and add nothing.
\<close>

theorem digest_decoded:
  assumes "round_log2 (max (length urls) 1) + p \<le> 31"
  shows "\<exists>v. calcDigestValue sha256 urls (int p) = Inr (Some v) \<and> load_digest None (base64Encode v) False complete
    = Some \<lparr>cd_url_only = [\<lparr>fr_keys = sorted_list_of_set (url_key sha256 (round_log2 (max (length urls) 1) + p) ` set urls),
        fr_capacity_bits = round_log2 (max (length urls) 1) + p\<rparr>], cd_url_and_etag = [], cd_complete = complete\<rparr>"
  using digest_loaded [OF assms, of sha256 complete] unfolding url_frame_def Let_def .

theorem digest_decoded_witness:
  "\<exists>v. calcDigestValue (\<lambda>url. [of_nat (example_hash url)]) [[97], [98]] (int 4) = Inr (Some v) \<and> load_digest None (base64Encode v) False True
    = Some \<lparr>cd_url_only = [\<lparr>fr_keys = sorted_list_of_set (url_key (\<lambda>url. [of_nat (example_hash url)]) 5 ` {[97], [98]}),
        fr_capacity_bits = 5\<rparr>], cd_url_and_etag = [], cd_complete = True\<rparr>"
proof -
  have n: "round_log2 (max (length [[97], [98 :: nat]]) 1) + 4 = 5" by (simp add: round_log2_def floor_log2.simps Let_def)
  show ?thesis using digest_decoded [of "[[97], [98]]" 4 "\<lambda>url. [of_nat (example_hash url)]" True] unfolding n by simp
qed

text \<open>
  C26.  A digest takes at most \<^verbatim>\<open>pbits + 3\<close> bits per URL and two bytes; it is not computed when a hash
  would need more than 31 bits.
\<close>

theorem digest_bounded:
  "(if 31 < round_log2 (max (length urls) 1) + p then calcDigestValue sha256 urls (int p) = Inr None
    else \<exists>v. calcDigestValue sha256 urls (int p) = Inr (Some v) \<and> 8 * length v \<le> 16 + (p + 3) * max (length urls) 1
      \<and> list_all (\<lambda>x. x < 256) v)"
proof (cases "31 < round_log2 (max (length urls) 1) + p")
  case True
  then show ?thesis by (simp add: calcDigestValue_def Let_def)
next
  case False
  then have n: "round_log2 (max (length urls) 1) + p \<le> 31" by simp
  then show ?thesis using calcDigestValue_bits [OF n, of sha256] digest_size [OF n, of sha256] False by (auto simp: list_all_iff)
qed

text \<open>
  The digest does not depend on the order in which the entries of the cache are looked up: the
  URLs are pushed as the lookups resolve, and every order gives the same value.
\<close>

theorem digest_order_irrelevant:
  assumes "mset urls = mset urls'"
  shows "calcDigestValue sha256 urls pbits = calcDigestValue sha256 urls' pbits"
proof -
  have "length urls = length urls'" using assms by (metis size_mset)
  moreover have "sort (map f urls) = sort (map f urls')" for f :: "jsstring \<Rightarrow> int"
    using assms by (intro properties_for_sort) simp_all
  ultimately show ?thesis by (simp add: calcDigestValue_def BitCoder_gcsEncode_def Let_def)
qed

theorem digest_order_irrelevant_witness:
  "calcDigestValue (\<lambda>url. [of_nat (example_hash url)]) [[97], [98]] 7 = calcDigestValue (\<lambda>url. [of_nat (example_hash url)]) [[98], [97]] 7"
  by (rule digest_order_irrelevant) simp

text \<open>
  A negative number of bits, which the command line tool passes on unchecked, makes the loop of
  \<^verbatim>\<open>addBits\<close> run past zero: the computation does not end as soon as there is a URL.
\<close>

theorem negative_bits_diverge:
  assumes "pbits < 0" and "urls \<noteq> []" and "length urls \<le> 2 ^ 31"
  shows "calcDigestValue sha256 urls pbits = Inl Diverge"
proof -
  let ?n = "int (round_log2 (max (length urls) 1))"
  obtain x xs where xs: "sort (map (\<lambda>url. sha256Truncated sha256 url (?n + pbits)) urls) = x # xs"
    using assms(2) by (metis (no_types) length_0_conv length_map length_sort neq_Nil_conv)
  then have "x \<in> set (map (\<lambda>url. sha256Truncated sha256 url (?n + pbits)) urls)" by (metis list.set_intros(1) set_sort)
  then have "0 \<le> x" using sha256Truncated_nonneg by auto
  then have "x \<noteq> - 1" by simp
  then have "BitCoder_gcsEncode c (map (\<lambda>url. sha256Truncated sha256 url (?n + pbits)) urls) pbits = Inl Diverge" for c
    using assms(1) xs by (simp add: BitCoder_gcsEncode_def BitCoder_addBits_def Let_def)
  moreover have "round_log2 (max (length urls) 1) \<le> 31" by (rule round_log2_le) (use assms(3) in simp_all)
  then have "?n + pbits \<le> 31" using assms(1) by linarith
  ultimately show ?thesis by (simp add: calcDigestValue_def BitCoder_addBits_def Let_def)
qed

theorem negative_bits_diverge_witness: "calcDigestValue (\<lambda>url. [of_nat (example_hash url)]) [[97]] (- 1) = Inl Diverge"
  by (rule negative_bits_diverge) simp_all

lemma cache_put_entries: "set (cache_put cache url res) \<subseteq> insert (url, res) (set cache)"
  by (auto simp: cache_put_def)

lemma cache_put_distinct: "distinct (map fst cache) \<Longrightarrow> distinct (map fst (cache_put cache url res))"
  by (auto simp: cache_put_def distinct_map_filter)

lemma add_digests_Inr:
  "add_digests host req digests = Inr req' \<Longrightarrow> rq_method req' = rq_method req \<and> rq_url req' = rq_url req"
  by (auto simp: add_digests_def append_header_def js_bind_eq_Inr split: option.splits append_outcome.splits)

lemma handle_fetch_Send:
  assumes "handle_fetch host cache now req = Inr (Send req')"
  shows "rq_method req' = js_lit ''GET''" "\<not> is_worker_url (rq_url req')" "rq_url req' = rq_url req"
  using assms
  by (auto simp: handle_fetch_def Let_def js_bind_eq_Inr split: if_splits option.splits dest!: add_digests_Inr)

lemma handle_fetch_Hit:
  assumes "handle_fetch host cache now req = Inr (Hit res)"
  shows "map_of cache (rq_url req) = Some res \<and> isFresh (host_parse host) (rs_headers res) now"
  using assms by (auto simp: handle_fetch_def Let_def js_bind_eq_Inr split: if_splits option.splits)

text \<open>What the invariant says of an entry of the cache and of a request on its way.\<close>

definition entry_ok :: "host \<Rightarrow> (request \<times> response \<times> int) list \<Rightarrow> jsstring \<times> response \<Rightarrow> bool" where
  "entry_ok host log e \<longleftrightarrow> (\<exists>req now. (req, snd e, now) \<in> set log \<and> rq_url req = fst e \<and> rq_method req = js_lit ''GET''
    \<and> \<not> is_worker_url (fst e) \<and> rs_status (snd e) = 200 \<and> isFresh (host_parse host) (rs_headers (snd e)) now)"

definition pending_ok :: "request \<Rightarrow> bool" where
  "pending_ok req \<longleftrightarrow> rq_method req = js_lit ''GET'' \<and> \<not> is_worker_url (rq_url req)"

lemma receive_entry:
  assumes "e \<in> set (receive host cache now req res)" "\<forall>e \<in> set cache. entry_ok host log e" "pending_ok req"
  shows "entry_ok host (log @ [(req, res, now)]) e"
proof -
  have "e \<in> set cache \<or> e = (rq_url req, res) \<and> rs_status res = 200 \<and> isFresh (host_parse host) (rs_headers res) now"
    using assms(1) cache_put_entries [of cache "rq_url req" res] by (auto simp: receive_def split: if_splits)
  then show ?thesis
  proof
    assume "e \<in> set cache"
    then have "entry_ok host log e" using assms(2) by blast
    then show ?thesis unfolding entry_ok_def by auto
  next
    assume "e = (rq_url req, res) \<and> rs_status res = 200 \<and> isFresh (host_parse host) (rs_headers res) now"
    then show ?thesis using assms(3) unfolding entry_ok_def pending_ok_def by (intro exI [of _ req] exI [of _ now]) simp
  qed
qed

lemma worker_run_inv:
  assumes "worker_run host log w"
  shows "distinct (map fst (w_cache w)) \<and> (\<forall>e \<in> set (w_cache w). entry_ok host log e) \<and> (\<forall>req \<in> set (w_pending w). pending_ok req)"
  using assms
proof (induction rule: worker_run.induct)
  case (sent log w now req req')
  then show ?case using handle_fetch_Send [OF sent.hyps(2)] by (auto simp: pending_ok_def)
next
  case (received log w req res now)
  then have "distinct (map fst (receive host (w_cache w) now req res))" by (simp add: receive_def cache_put_distinct)
  moreover have "\<forall>e \<in> set (receive host (w_cache w) now req res). entry_ok host (log @ [(req, res, now)]) e"
    using receive_entry received by blast
  ultimately show ?case using received.IH set_remove1_subset [of req "w_pending w"] by auto
next
  case (lost log w req)
  then show ?case using set_remove1_subset [of req "w_pending w"] by auto
qed simp

text \<open>
  C7.  Whatever requests the worker handles, in whatever order the responses arrive and however many
  are lost, its cache holds at most one response per URL, and each of them arrived for a request for
  that URL, a \<^verbatim>\<open>GET\<close> request not for the worker itself, with status 200, and fresh at that time; a
  response served from the cache is one of these for the URL that is asked for, and fresh now.
\<close>

theorem worker_cache_invariant:
  assumes "worker_run host log w"
  shows "distinct (map fst (w_cache w)) \<and> (\<forall>(url, res) \<in> set (w_cache w). \<exists>req now. (req, res, now) \<in> set log
      \<and> rq_url req = url \<and> rq_method req = js_lit ''GET'' \<and> \<not> is_worker_url url \<and> rs_status res = 200
      \<and> isFresh (host_parse host) (rs_headers res) now)
    \<and> (\<forall>now asked res. handle_fetch host (w_cache w) now asked = Inr (Hit res) \<longrightarrow>
      isFresh (host_parse host) (rs_headers res) now \<and> (\<exists>req at. (req, res, at) \<in> set log \<and> rq_url req = rq_url asked))"
proof (intro conjI allI impI)
  note inv = worker_run_inv [OF assms]
  show "distinct (map fst (w_cache w))" using inv by blast
  show "\<forall>(url, res) \<in> set (w_cache w). \<exists>req now. (req, res, now) \<in> set log
      \<and> rq_url req = url \<and> rq_method req = js_lit ''GET'' \<and> \<not> is_worker_url url \<and> rs_status res = 200
      \<and> isFresh (host_parse host) (rs_headers res) now"
    using inv unfolding entry_ok_def by fastforce
  fix now asked res
  assume "handle_fetch host (w_cache w) now asked = Inr (Hit res)"
  note hit = handle_fetch_Hit [OF this]
  then show "isFresh (host_parse host) (rs_headers res) now" by blast
  have "(rq_url asked, res) \<in> set (w_cache w)" using hit by (intro map_of_SomeD) blast
  then have "entry_ok host log (rq_url asked, res)" using inv by blast
  then show "\<exists>req at. (req, res, at) \<in> set log \<and> rq_url req = rq_url asked" unfolding entry_ok_def by auto
qed

definition example_request :: request where
  "example_request = \<lparr>rq_method = js_lit ''GET'', rq_url = [97], rq_mode = [], rq_digest = None\<rparr>"

definition example_response :: response where
  "example_response = \<lparr>rs_status = 200, rs_headers = [(js_lit ''Expires'', [49])], rs_body = [120]\<rparr>"

lemma example_run:
  "worker_run example_host [(example_request, example_response, 10)] \<lparr>w_cache = [([97], example_response)], w_pending = []\<rparr>"
proof -
  have "handle_fetch example_host [] 10 example_request = Inr (Send example_request)"
    by (simp add: handle_fetch_def example_request_def is_worker_url_def worker_suffix_def js_lit_def add_digests_def)
  then have "worker_run example_host [] \<lparr>w_cache = [], w_pending = [example_request]\<rparr>"
    using worker_run.sent [OF worker_run.started, of example_host 10 example_request] by simp
  moreover have "receive example_host [] 10 example_request example_response = [([97], example_response)]"
    by (simp add: receive_def example_response_def example_request_def cache_put_def isFresh_def example_host_def js_lit_def ascii_lower_def)
  ultimately show ?thesis
    using worker_run.received [of example_host "[]" "\<lparr>w_cache = [], w_pending = [example_request]\<rparr>" example_request example_response 10] by simp
qed

theorem worker_cache_invariant_witness:
  "worker_run example_host [(example_request, example_response, 10)] \<lparr>w_cache = [([97], example_response)], w_pending = []\<rparr>
    \<and> \<not> is_worker_url [97] \<and> rs_status example_response = 200"
  using worker_cache_invariant [OF example_run] example_run by auto

end
