(* ===== verification/Sha256.thy ===== *)
theory Sha256
  imports JS_Prelude
begin

text \<open>
  The hash function of the service worker, line 230 of \<^verbatim>\<open>misc/cache-digest.js/cache-digest.js\<close>: a
  minified SHA-256 that encodes the string to UTF-8 while it fills the blocks, does four rounds per
  pass with the variables renamed instead of moved, shares the conjunctions of neighbouring rounds,
  and has the first round of the first block folded into constants.  The names are those of the source.

  The second half is SHA-256 as the standard (FIPS 180-4) has it: the message padded to blocks, one
  round after the other, and the constants as bits of roots of primes.  Here the
  rounds, the schedule and the constants of the two are shown to agree; the theory \<^verbatim>\<open>Sha256_Blocks\<close> goes on
  with the blocks.

  JavaScript adds in floating point and wraps at \<^verbatim>\<open><< 0\<close>; the sums stay far below \<^verbatim>\<open>2 ^ 53\<close>, so that the
  arithmetic is that of 32-bit words.
\<close>

unbundle bit_operations_syntax

section \<open>The function of the source\<close>

type_synonym vars = "32 word \<times> 32 word \<times> 32 word \<times> 32 word \<times> 32 word \<times> 32 word \<times> 32 word \<times> 32 word"

definition pad_bits :: "32 word list" where
  "pad_bits = [- 2147483648, 8388608, 32768, 128]"

definition byte_shifts :: "nat list" where
  "byte_shifts = [24, 16, 8, 0]"

definition round_constants :: "32 word list" where
  "round_constants = [
    1116352408, 1899447441, 3049323471, 3921009573, 961987163, 1508970993, 2453635748, 2870763221,
    3624381080, 310598401, 607225278, 1426881987, 1925078388, 2162078206, 2614888103, 3248222580,
    3835390401, 4022224774, 264347078, 604807628, 770255983, 1249150122, 1555081692, 1996064986,
    2554220882, 2821834349, 2952996808, 3210313671, 3336571891, 3584528711, 113926993, 338241895,
    666307205, 773529912, 1294757372, 1396182291, 1695183700, 1986661051, 2177026350, 2456956037,
    2730485921, 2820302411, 3259730800, 3345764771, 3516065817, 3600352804, 4094571909, 275423344,
    430227734, 506948616, 659060556, 883997877, 958139571, 1322822218, 1537002063, 1747873779,
    1955562222, 2024104815, 2227730452, 2361852424, 2428436474, 2756734187, 3204031479, 3329325298]"

text \<open>
  The variables that live from one block to the next.  The array \<^verbatim>\<open>s\<close> has its 64 elements from the start;
  the source lets it grow, but writes every element before it reads it.
\<close>

record sha_ctx =
  sc_s :: "32 word list"
  sc_w :: bool
  sc_j :: nat
  sc_k :: int
  sc_m :: int
  sc_G :: "32 word"
  sc_hash :: vars

definition sha_init :: sha_ctx where
  "sha_init = \<lparr>sc_s = replicate 64 0, sc_w = True, sc_j = 0, sc_k = 0, sc_m = 0, sc_G = 0,
    sc_hash = (1779033703, 3144134277, 1013904242, 2773480762, 1359893119, 2600822924, 528734635, 1541459225)\<rparr>"

text \<open>\<^verbatim>\<open>charCodeAt\<close> behind the end is not a number, which is zero in the bit operation that uses it.\<close>

definition charCodeAt :: "jsstring \<Rightarrow> nat \<Rightarrow> nat" where
  "charCodeAt n j = (if j < length n then n ! j else 0)"

definition put_byte :: "32 word list \<Rightarrow> int \<Rightarrow> nat \<Rightarrow> 32 word list" where
  "put_byte s e b = (let x = nat (e div 4) in s[x := s ! x OR push_bit (byte_shifts ! nat (e mod 4)) (of_nat b)])"

text \<open>The loop over the characters of a block.\<close>

function fill_block :: "jsstring \<Rightarrow> nat \<Rightarrow> int \<Rightarrow> 32 word list \<Rightarrow> nat \<times> int \<times> 32 word list" where
  "fill_block n j e s =
    (if j < length n \<and> e < 64
     then (let t = charCodeAt n j in
       if t < 128 then fill_block n (j + 1) (e + 1) (put_byte s e t)
       else if t < 2048
       then fill_block n (j + 1) (e + 2) (put_byte (put_byte s e (192 OR drop_bit 6 t)) (e + 1) (128 OR (63 AND t)))
       else if t < 55296 \<or> 57344 \<le> t
       then fill_block n (j + 1) (e + 3) (put_byte (put_byte (put_byte s e (224 OR drop_bit 12 t))
          (e + 1) (128 OR (drop_bit 6 t AND 63))) (e + 2) (128 OR (63 AND t)))
       else (let t = 65536 + (push_bit 10 (1023 AND t) OR (1023 AND charCodeAt n (j + 1))) in
         fill_block n (j + 2) (e + 4) (put_byte (put_byte (put_byte (put_byte s e (240 OR drop_bit 18 t))
          (e + 1) (128 OR (drop_bit 12 t AND 63))) (e + 2) (128 OR (drop_bit 6 t AND 63))) (e + 3) (128 OR (63 AND t)))))
     else (j, e, s))"
  by pat_completeness auto
termination by (relation "measure (\<lambda>(n, j, e, s). length n - j)") auto

declare fill_block.simps [simp del]

text \<open>The head of the outer loop: the block with what was left over, the characters, the mark and the length.\<close>

definition read_block :: "jsstring \<Rightarrow> sha_ctx \<Rightarrow> bool \<times> sha_ctx" where
  "read_block n st =
    (let p = length n; s = sc_G st # replicate 16 0 @ drop 17 (sc_s st); k = sc_k st;
         (j, e, s) = fill_block n (sc_j st) k s;
         m = sc_m st + (e - k);
         (s, j') = (if j = p then (let x = nat (e div 4) in (s[x := s ! x OR pad_bits ! nat (e mod 4)], j + 1)) else (s, j));
         b = (p < j' \<and> e < 56)
     in (b, st\<lparr>sc_s := (if b then s[15 := push_bit 3 (of_int m)] else s), sc_j := j', sc_k := e - 64, sc_m := m, sc_G := s ! 16\<rparr>))"

definition schedule_word :: "32 word list \<Rightarrow> nat \<Rightarrow> 32 word list" where
  "schedule_word s f =
    (let v = s ! (f - 15); h = (drop_bit 7 v OR push_bit 25 v) XOR (drop_bit 18 v OR push_bit 14 v) XOR drop_bit 3 v;
         v = s ! (f - 2); c = (drop_bit 17 v OR push_bit 15 v) XOR (drop_bit 19 v OR push_bit 13 v) XOR drop_bit 10 v
     in s[f := s ! (f - 16) + h + s ! (f - 7) + c])"

definition rotate_H :: "32 word \<Rightarrow> 32 word" where
  "rotate_H H = (drop_bit 2 H OR push_bit 30 H) XOR (drop_bit 13 H OR push_bit 19 H) XOR (drop_bit 22 H OR push_bit 10 H)"

definition rotate_L :: "32 word \<Rightarrow> 32 word" where
  "rotate_L L = (drop_bit 6 L OR push_bit 26 L) XOR (drop_bit 11 L OR push_bit 21 L) XOR (drop_bit 25 L OR push_bit 7 L)"

text \<open>
  One round: the source has this text four times with the variables renamed, the renaming is in the
  arguments here.  The result is the conjunction that the next round uses again and the two variables
  that change.
\<close>

definition one_round :: "32 word \<Rightarrow> vars \<Rightarrow> 32 word \<Rightarrow> 32 word \<Rightarrow> 32 word \<times> 32 word \<times> 32 word" where
  "one_round g = (\<lambda>(H, I, J, K, L, M, N, P) a s.
    let h = rotate_H H; c = rotate_L L; l = H AND I; u = l XOR (H AND J) XOR g; i = (L AND M) XOR (NOT L AND N);
        v = P + c + i + a + s; d = h + u
    in (l, K + v, v + d))"

text \<open>
  Four rounds; the flag \<^verbatim>\<open>w\<close> says that it is the first pass of the first block.  \<^verbatim>\<open>P\<close> is the variable \<^verbatim>\<open>O\<close> of
  the source.
\<close>

definition four_rounds :: "32 word list \<Rightarrow> bool \<times> 32 word \<times> vars \<Rightarrow> nat \<Rightarrow> bool \<times> 32 word \<times> vars" where
  "four_rounds s = (\<lambda>(w, g, H, I, J, K, L, M, N, P) f.
    let (l, P, K) =
          (if w then (let v = s ! 0 - 210244248 in (704751109, v - 1521486534, v + 143694565))
           else one_round g (H, I, J, K, L, M, N, P) (round_constants ! f) (s ! f));
        (A, N, J) = one_round l (K, H, I, J, P, L, M, N) (round_constants ! (f + 1)) (s ! (f + 1));
        (C, M, I) = one_round A (J, K, H, I, N, P, L, M) (round_constants ! (f + 2)) (s ! (f + 2));
        (g, L, H) = one_round C (I, J, K, H, M, N, P, L) (round_constants ! (f + 3)) (s ! (f + 3))
    in (False, g, H, I, J, K, L, M, N, P))"

definition add_vars :: "vars \<Rightarrow> vars \<Rightarrow> vars" where
  "add_vars = (\<lambda>(q, x, y, z, B, D, E, F) (H, I, J, K, L, M, N, P). (q + H, x + I, y + J, z + K, B + L, D + M, E + N, F + P))"

definition hash_block :: "sha_ctx \<Rightarrow> sha_ctx" where
  "hash_block st =
    (let s = foldl schedule_word (sc_s st) [16..<64];
         (q, x, y, rest) = sc_hash st;
         (w, g, vs) = foldl (four_rounds s) (sc_w st, x AND y, sc_hash st) (map ((*) 4) [0..<16])
     in st\<lparr>sc_s := s, sc_w := w, sc_hash := add_vars (sc_hash st) vs\<rparr>)"

definition vars_list :: "vars \<Rightarrow> 32 word list" where
  "vars_list = (\<lambda>(q, x, y, z, B, D, E, F). [q, x, y, z, B, D, E, F])"

lemma hash_block_position [simp]: "sc_j (hash_block st) = sc_j st" "sc_k (hash_block st) = sc_k st"
  by (simp_all add: hash_block_def Let_def split_beta)

text \<open>
  What the loop over the characters does at one place: the number of characters it reads there and
  the bytes it writes.
\<close>

fun put_bytes :: "32 word list \<Rightarrow> int \<Rightarrow> nat list \<Rightarrow> 32 word list" where
  "put_bytes s e [] = s"
| "put_bytes s e (b # bs) = put_bytes (put_byte s e b) (e + 1) bs"

definition encode_at :: "jsstring \<Rightarrow> nat \<Rightarrow> nat \<times> nat list" where
  "encode_at n j =
    (let t = charCodeAt n j in
     if t < 128 then (1, [t])
     else if t < 2048 then (1, [192 OR drop_bit 6 t, 128 OR (63 AND t)])
     else if t < 55296 \<or> 57344 \<le> t then (1, [224 OR drop_bit 12 t, 128 OR (drop_bit 6 t AND 63), 128 OR (63 AND t)])
     else (let t = 65536 + (push_bit 10 (1023 AND t) OR (1023 AND charCodeAt n (j + 1))) in
       (2, [240 OR drop_bit 18 t, 128 OR (drop_bit 12 t AND 63), 128 OR (drop_bit 6 t AND 63), 128 OR (63 AND t)])))"

lemma fill_block_encode:
  "fill_block n j e s = (if j < length n \<and> e < 64
    then (let (d, bs) = encode_at n j in fill_block n (j + d) (e + int (length bs)) (put_bytes s e bs)) else (j, e, s))"
  by (subst fill_block.simps) (simp add: encode_at_def Let_def algebra_simps)

lemma encode_at_size: "encode_at n j = (d, bs) \<Longrightarrow> 0 < d \<and> 0 < length bs \<and> length bs \<le> 4"
  by (auto simp: encode_at_def Let_def split: if_splits)

text \<open>
  The outer loop ends: a pass reads characters, or passes the end of the text, or, behind the end,
  moves a whole block back.
\<close>

lemma fill_block_progress:
  assumes "fill_block n j e s = (j', e', s')"
  shows "j \<le> j'" "j < length n \<Longrightarrow> e < 64 \<Longrightarrow> j < j'" "j' < length n \<Longrightarrow> 64 \<le> e'"
    "\<not> (j < length n \<and> e < 64) \<Longrightarrow> j' = j \<and> e' = e"
proof -
  have "j \<le> j' \<and> (j < length n \<and> e < 64 \<longrightarrow> j < j') \<and> (j' < length n \<longrightarrow> 64 \<le> e') \<and> (\<not> (j < length n \<and> e < 64) \<longrightarrow> j' = j \<and> e' = e)"
    using assms
  proof (induction "length n - j" arbitrary: j e s rule: less_induct)
    case less
    show ?case
    proof (cases "j < length n \<and> e < 64")
      case True
      obtain d bs where d: "encode_at n j = (d, bs)" by fastforce
      then have "fill_block n (j + d) (e + int (length bs)) (put_bytes s e bs) = (j', e', s')"
        using less.prems True by (simp add: fill_block_encode [of n j])
      moreover have "0 < d" using encode_at_size [OF d] by simp
      ultimately show ?thesis using less.hyps [of "j + d"] True by force
    next
      case False
      then show ?thesis using less.prems by (auto simp: fill_block_encode [of n j])
    qed
  qed
  then show "j \<le> j'" "j < length n \<Longrightarrow> e < 64 \<Longrightarrow> j < j'" "j' < length n \<Longrightarrow> 64 \<le> e'"
    "\<not> (j < length n \<and> e < 64) \<Longrightarrow> j' = j \<and> e' = e" by blast+
qed

function sha_loop :: "jsstring \<Rightarrow> sha_ctx \<Rightarrow> 32 word list" where
  "sha_loop n st = (case read_block n st of (b, st') \<Rightarrow>
    if b then vars_list (sc_hash (hash_block st')) else sha_loop n (hash_block st'))"
  by pat_completeness auto

lemma read_block_progress:
  assumes "read_block n st = (False, st')"
  shows "((length n + 1 - sc_j st', nat (sc_k st' + 64)), (length n + 1 - sc_j st, nat (sc_k st + 64))) \<in> less_than <*lex*> less_than"
proof -
  obtain j e s where f: "fill_block n (sc_j st) (sc_k st) (sc_G st # replicate 16 0 @ drop 17 (sc_s st)) = (j, e, s)" by (metis prod.exhaust)
  have st: "sc_j st' = (if j = length n then j + 1 else j)" "sc_k st' = e - 64" "\<not> (length n < sc_j st' \<and> e < 56)"
    using assms f by (auto simp: read_block_def Let_def split: if_splits)
  show ?thesis
    using fill_block_progress [OF f] st by (cases "sc_j st < length n \<and> sc_k st < 64") (auto split: if_splits)
qed

termination sha_loop
  by (relation "inv_image (less_than <*lex*> less_than) (\<lambda>(n, st). (length n + 1 - sc_j st, nat (sc_k st + 64)))")
    (auto dest!: read_block_progress [OF sym])

declare sha_loop.simps [simp del]

definition sha256 :: "jsstring \<Rightarrow> 32 word list" where
  "sha256 n = sha_loop n sha_init"

section \<open>The standard\<close>

text \<open>The bytes of a string: the UTF-8 encoding of its Unicode characters.\<close>

fun utf8_bytes :: "jsstring \<Rightarrow> nat list" where
  "utf8_bytes [] = []"
| "utf8_bytes (c # n) =
    (if 55296 \<le> c \<and> c \<le> 56319
     then (case n of [] \<Rightarrow> [] | d # n' \<Rightarrow> utf8 (65536 + (c - 55296) * 1024 + (d - 56320)) @ utf8_bytes n')
     else utf8 c @ utf8_bytes n)"

text \<open>
  A message is followed by a one bit, zeros, and its length in bits as 64-bit number, such that the
  whole is a sequence of blocks of 64 bytes, or of 16 words.
\<close>

definition big_endian :: "nat \<Rightarrow> nat \<Rightarrow> nat list" where
  "big_endian k x = map (\<lambda>i. x div 256 ^ i mod 256) (rev [0..<k])"

definition pad_message :: "nat list \<Rightarrow> nat list" where
  "pad_message bs = bs @ [0x80] @ replicate ((119 - length bs mod 64) mod 64) 0 @ big_endian 8 (8 * length bs)"

fun join_word :: "nat list \<Rightarrow> 32 word" where
  "join_word [] = 0"
| "join_word (b # bs) = push_bit (8 * length bs) (of_nat b) OR join_word bs"

definition block_words :: "nat list \<Rightarrow> 32 word list" where
  "block_words bs = map (\<lambda>x. join_word (take 4 (drop (4 * x) bs))) [0..<16]"

function blocks :: "nat list \<Rightarrow> 32 word list list" where
  "blocks bs = (if bs = [] then [] else block_words (take 64 bs) # blocks (drop 64 bs))"
  by pat_completeness auto
termination by (relation "measure length") auto

declare blocks.simps [simp del]

text \<open>
  The constants: the first bits of the fractional parts of the roots of the first primes.  A number below
  \<^verbatim>\<open>18 * 18\<close> is a prime if it has no smaller divisor from 2 to 17.
\<close>

primrec root_bits :: "nat \<Rightarrow> nat \<Rightarrow> nat \<Rightarrow> nat \<Rightarrow> nat" where
  "root_bits 0 k x r = r"
| "root_bits (Suc i) k x r = root_bits i k x (if (r + 2 ^ i) ^ k \<le> x then r + 2 ^ i else r)"

definition root_fraction :: "nat \<Rightarrow> nat \<Rightarrow> 32 word" where
  "root_fraction k p = of_nat (root_bits 40 k (p * 2 ^ (32 * k)) 0)"

definition first_primes :: "nat list" where
  "first_primes = [p \<leftarrow> [2..<312]. list_all (\<lambda>d. p mod d \<noteq> 0 \<or> p = d) [2..<18]]"

definition sha_constants :: "32 word list" where
  "sha_constants = map (root_fraction 3) first_primes"

definition initial_hash :: vars where
  "initial_hash = (root_fraction 2 2, root_fraction 2 3, root_fraction 2 5, root_fraction 2 7,
    root_fraction 2 11, root_fraction 2 13, root_fraction 2 17, root_fraction 2 19)"

text \<open>The message schedule and one round.\<close>

fun message_schedule :: "nat \<Rightarrow> 32 word list \<Rightarrow> 32 word list" where
  "message_schedule 0 ws = ws"
| "message_schedule (Suc i) ws =
    (let t = length ws; x = ws ! (t - 15); y = ws ! (t - 2)
     in message_schedule i (ws @ [(word_rotr 17 y XOR word_rotr 19 y XOR drop_bit 10 y) + ws ! (t - 7)
          + (word_rotr 7 x XOR word_rotr 18 x XOR drop_bit 3 x) + ws ! (t - 16)]))"

definition sha_round :: "vars \<Rightarrow> 32 word \<times> 32 word \<Rightarrow> vars" where
  "sha_round = (\<lambda>(a, b, c, d, e, f, g, h) (k, w).
    let T1 = h + (word_rotr 6 e XOR word_rotr 11 e XOR word_rotr 25 e) + ((e AND f) XOR (NOT e AND g)) + k + w;
        T2 = (word_rotr 2 a XOR word_rotr 13 a XOR word_rotr 22 a) + ((a AND b) XOR (a AND c) XOR (b AND c))
    in (T1 + T2, a, b, c, d + T1, e, f, g))"

definition compress :: "vars \<Rightarrow> 32 word list \<Rightarrow> vars" where
  "compress hash ws = add_vars hash (foldl sha_round hash (zip sha_constants (message_schedule 48 ws)))"

definition SHA_256 :: "nat list \<Rightarrow> 32 word list" where
  "SHA_256 message = vars_list (foldl compress initial_hash (blocks (pad_message message)))"

section \<open>The rounds\<close>

lemma word_rotr_shifts:
  assumes "0 < n" "n < 32"
  shows "word_rotr n (v :: 32 word) = drop_bit n v OR push_bit (32 - n) v"
proof (rule bit_word_eqI)
  fix i assume "i < LENGTH(32)"
  then show "bit (word_rotr n v) i = bit (drop_bit n v OR push_bit (32 - n) v) i"
    using assms by (cases "i + n < 32") (auto simp: bit_simps mod_if add.commute [of n i] dest: bit_imp_le_length)
qed

lemma rotations:
  "rotate_H x = word_rotr 2 x XOR word_rotr 13 x XOR word_rotr 22 x"
  "rotate_L x = word_rotr 6 x XOR word_rotr 11 x XOR word_rotr 25 x"
  by (simp_all add: rotate_H_def rotate_L_def word_rotr_shifts)

text \<open>A round of the source with the right conjunction computes the two words that a round of the standard changes.\<close>

lemma one_round_sha_round:
  "\<exists>a' e'. one_round (b AND c) (a, b, c, d, e, f, g, h) k w = (a AND b, e', a') \<and>
    sha_round (a, b, c, d, e, f, g, h) (k, w) = (a', a, b, c, e', e, f, g)"
  by (simp add: one_round_def sha_round_def rotations Let_def ac_simps)

definition middle :: "vars \<Rightarrow> 32 word" where
  "middle = (\<lambda>(a, b, c, rest). b AND c)"

lemma four_rounds_sha_round:
  "four_rounds s (False, middle vs, vs) f =
    (let vs' = foldl sha_round vs (map (\<lambda>i. (round_constants ! i, s ! i)) [f, f + 1, f + 2, f + 3]) in (False, middle vs', vs'))"
proof -
  obtain a b c d e f0 g h where vs: "vs = (a, b, c, d, e, f0, g, h)" by (metis prod_cases7 surj_pair)
  let ?x = "\<lambda>i. (round_constants ! i, s ! i)"
  obtain a1 e1 where 1: "one_round (b AND c) vs (round_constants ! f) (s ! f) = (a AND b, e1, a1)" "sha_round vs (?x f) = (a1, a, b, c, e1, e, f0, g)"
    using one_round_sha_round unfolding vs by blast
  obtain a2 e2 where 2: "one_round (a AND b) (a1, a, b, c, e1, e, f0, g) (round_constants ! (f + 1)) (s ! (f + 1)) = (a1 AND a, e2, a2)"
    "sha_round (a1, a, b, c, e1, e, f0, g) (?x (f + 1)) = (a2, a1, a, b, e2, e1, e, f0)" using one_round_sha_round by blast
  obtain a3 e3 where 3: "one_round (a1 AND a) (a2, a1, a, b, e2, e1, e, f0) (round_constants ! (f + 2)) (s ! (f + 2)) = (a2 AND a1, e3, a3)"
    "sha_round (a2, a1, a, b, e2, e1, e, f0) (?x (f + 2)) = (a3, a2, a1, a, e3, e2, e1, e)" using one_round_sha_round by blast
  obtain a4 e4 where 4: "one_round (a2 AND a1) (a3, a2, a1, a, e3, e2, e1, e) (round_constants ! (f + 3)) (s ! (f + 3)) = (a3 AND a2, e4, a4)"
    "sha_round (a3, a2, a1, a, e3, e2, e1, e) (?x (f + 3)) = (a4, a3, a2, a1, e4, e3, e2, e1)" using one_round_sha_round by blast
  have "four_rounds s (False, middle vs, vs) f = (False, a3 AND a2, a4, a3, a2, a1, e4, e3, e2, e1)"
    using 1(1) 2(1) 3(1) 4(1) unfolding vs by (simp add: four_rounds_def middle_def)
  then show ?thesis using 1(2) 2(2) 3(2) 4(2) by (simp add: middle_def)
qed

text \<open>The first round of the first block, with its constants.\<close>

definition start_hash :: vars where
  "start_hash = (1779033703, 3144134277, 1013904242, 2773480762, 1359893119, 2600822924, 528734635, 1541459225)"

lemma first_round_words:
  "one_round (middle start_hash) start_hash (round_constants ! 0) x = (704751109, x - 210244248 - 1521486534, x - 210244248 + 143694565)"
  by (simp add: one_round_def middle_def start_hash_def rotate_H_def rotate_L_def round_constants_def)

lemma four_rounds_first: "four_rounds s (True, middle start_hash, start_hash) 0 = four_rounds s (False, middle start_hash, start_hash) 0"
proof -
  obtain a b c d e f g h where vs: "start_hash = (a, b, c, d, e, f, g, h)" by (metis prod_cases7 surj_pair)
  show ?thesis using first_round_words [of "s ! 0"] unfolding vs by (simp add: four_rounds_def)
qed

lemma all_rounds:
  assumes "w \<longrightarrow> vs = start_hash" "length s = 64" "n \<le> 16"
  shows "foldl (four_rounds s) (w, middle vs, vs) (map ((*) 4) [0..<n]) =
    (w \<and> n = 0, (let vs' = foldl sha_round vs (map (\<lambda>i. (round_constants ! i, s ! i)) [0..<4 * n]) in (middle vs', vs')))"
  using assms(3)
proof (induction n)
  case (Suc n)
  let ?vs = "foldl sha_round vs (map (\<lambda>i. (round_constants ! i, s ! i)) [0..<4 * n])"
  let ?x = "\<lambda>i. (round_constants ! i, s ! i)" and ?four = "[4 * n, 4 * n + 1, 4 * n + 2, 4 * n + 3]"
  let ?vs' = "foldl sha_round ?vs (map ?x ?four)"
  have "four_rounds s (w \<and> n = 0, middle ?vs, ?vs) (4 * n) = four_rounds s (False, middle ?vs, ?vs) (4 * n)"
    using assms(1) four_rounds_first [of s] by (cases "w \<and> n = 0") auto
  then have step: "four_rounds s (w \<and> n = 0, middle ?vs, ?vs) (4 * n) = (False, middle ?vs', ?vs')"
    by (simp only: four_rounds_sha_round Let_def)
  have "[0..<4 * n + 4] = [0..<4 * n] @ [4 * n..<4 * n + 4]" by (rule upt_add_eq_append) simp
  then have "[0..<4 * Suc n] = [0..<4 * n] @ ?four" by (simp add: upt_conv_Cons eval_nat_numeral)
  then have "?vs' = foldl sha_round vs (map ?x [0..<4 * Suc n])" by (simp only: map_append foldl_append)
  moreover have "foldl (four_rounds s) (w, middle vs, vs) (map ((*) 4) [0..<Suc n]) = (False, middle ?vs', ?vs')"
    using Suc step by (simp add: Let_def)
  ultimately show ?case by (simp only: Let_def) simp
qed simp

section \<open>The message schedule and the constants\<close>

lemma length_message_schedule [simp]: "length (message_schedule i ws) = length ws + i"
  by (induction i arbitrary: ws) (simp_all add: Let_def)

definition next_word :: "32 word list \<Rightarrow> 32 word" where
  "next_word ws = (let t = length ws; x = ws ! (t - 15); y = ws ! (t - 2)
     in (word_rotr 17 y XOR word_rotr 19 y XOR drop_bit 10 y) + ws ! (t - 7) + (word_rotr 7 x XOR word_rotr 18 x XOR drop_bit 3 x) + ws ! (t - 16))"

lemma message_schedule_snoc: "message_schedule (Suc i) ws = message_schedule i ws @ [next_word (message_schedule i ws)]"
proof (induction i arbitrary: ws)
  case (Suc i)
  have "message_schedule (Suc (Suc i)) ws = message_schedule (Suc i) (ws @ [next_word ws])" by (simp add: Let_def next_word_def)
  also have "\<dots> = message_schedule i (ws @ [next_word ws]) @ [next_word (message_schedule i (ws @ [next_word ws]))]" by (rule Suc.IH)
  also have "message_schedule i (ws @ [next_word ws]) = message_schedule (Suc i) ws" by (simp add: Let_def next_word_def)
  finally show ?case .
qed (simp add: Let_def next_word_def)

lemma length_schedule_word [simp]: "length (schedule_word s f) = length s"
  by (simp add: schedule_word_def Let_def)

lemma schedule_word_next:
  assumes "16 \<le> f" "f < length s"
  shows "take (Suc f) (schedule_word s f) = take f s @ [next_word (take f s)]"
proof -
  have "schedule_word s f = s[f := next_word (take f s)]"
    using assms by (simp add: schedule_word_def next_word_def word_rotr_shifts Let_def ac_simps)
  then show ?thesis using assms by (simp add: take_Suc_conv_app_nth)
qed

lemma schedule_message:
  assumes "length s = 64" "n \<le> 48"
  shows "take (16 + n) (foldl schedule_word s [16..<16 + n]) = message_schedule n (take 16 s) \<and> length (foldl schedule_word s [16..<16 + n]) = 64"
  using assms(2)
proof (induction n)
  case (Suc n)
  let ?s = "foldl schedule_word s [16..<16 + n]"
  have s: "take (16 + n) ?s = message_schedule n (take 16 s)" "length ?s = 64" using Suc by simp_all
  then have "take (Suc (16 + n)) (schedule_word ?s (16 + n)) = message_schedule (Suc n) (take 16 s)"
    using schedule_word_next [of "16 + n" ?s] Suc.prems unfolding message_schedule_snoc by simp
  moreover have "[16..<16 + Suc n] = [16..<16 + n] @ [16 + n]" by (metis add_Suc_right le_add1 upt_Suc_append)
  ultimately show ?case
    using s(2) by (simp del: message_schedule.simps)
qed (use assms in simp)

lemma root_bits_unique:
  "0 < k \<Longrightarrow> c ^ k \<le> x \<Longrightarrow> x < (c + 1) ^ k \<Longrightarrow> r \<le> c \<Longrightarrow> c < r + 2 ^ i \<Longrightarrow> root_bits i k x r = c"
proof (induction i arbitrary: r)
  case (Suc i)
  have "(r + 2 ^ i) ^ k \<le> x \<longleftrightarrow> r + 2 ^ i \<le> c"
  proof
    assume "(r + 2 ^ i) ^ k \<le> x"
    then have "(r + 2 ^ i) ^ k < (c + 1) ^ k" using Suc.prems(3) by simp
    then show "r + 2 ^ i \<le> c" using power_less_imp_less_base [of "r + 2 ^ i" k "c + 1"] by simp
  next
    assume "r + 2 ^ i \<le> c"
    then have "(r + 2 ^ i) ^ k \<le> c ^ k" by (rule power_mono) simp
    then show "(r + 2 ^ i) ^ k \<le> x" using Suc.prems(2) by simp
  qed
  then show ?case using Suc by simp
qed simp

lemma root_fraction_word:
  assumes "0 < k" "c ^ k \<le> p * 2 ^ (32 * k)" "p * 2 ^ (32 * k) < (c + 1) ^ k" "c < 2 ^ 40"
  shows "root_fraction k p = of_nat c"
  using assms root_bits_unique [of k c "p * 2 ^ (32 * k)" 0 40] by (simp add: root_fraction_def)

definition prime_roots :: "nat list" where
  "prime_roots = [
    5411319704, 6194414737, 7344290767, 8215976869, 9551921755, 10098905585,
    11043570340, 11460697813, 12214315672, 13195500289, 13492127166, 14311783875,
    14809980276, 15046980094, 15499789991, 16133124468, 16720292289, 16907126662,
    17444216262, 17784676812, 17950125167, 18429019306, 18734950876, 19175934170,
    19734090066, 20001703533, 20132865992, 20390182855, 20516441075, 20764397895,
    21588763473, 21813078375, 22141143685, 22248366392, 22769593852, 22871018771,
    23170020180, 23461497531, 23651862830, 23931792517, 24205322401, 24295138891,
    24734567280, 24820601251, 24990902297, 25075189284, 25569408389, 26045227120,
    26200031510, 26276752392, 26428864332, 26653801653, 26727943347, 27092625994,
    27306805839, 27517677555, 27725365998, 27793908591, 27997534228, 28131656200,
    28198240250, 28526537963, 28973835255, 29099129074]"

lemma first_primes_list: "first_primes = [
    2, 3, 5, 7, 11, 13, 17, 19, 23, 29, 31, 37, 41, 43, 47, 53,
    59, 61, 67, 71, 73, 79, 83, 89, 97, 101, 103, 107, 109, 113, 127, 131,
    137, 139, 149, 151, 157, 163, 167, 173, 179, 181, 191, 193, 197, 199, 211, 223,
    227, 229, 233, 239, 241, 251, 257, 263, 269, 271, 277, 281, 283, 293, 307, 311]"
  by (simp add: first_primes_def)

lemma constants_match: "sha_constants = round_constants"
proof -
  have "list_all2 (\<lambda>p c. c ^ 3 \<le> p * 2 ^ 96 \<and> p * 2 ^ 96 < (c + 1) ^ 3 \<and> c < 2 ^ 40) first_primes prime_roots"
    unfolding first_primes_list prime_roots_def by simp
  then have "map (root_fraction 3) first_primes = map of_nat prime_roots"
    by (induction rule: list_all2_induct) (auto intro!: root_fraction_word)
  also have "map of_nat prime_roots = round_constants" by (simp add: prime_roots_def round_constants_def)
  finally show ?thesis by (simp add: sha_constants_def)
qed

lemma initial_hash_start: "initial_hash = start_hash"
proof -
  have "root_fraction 2 2 = of_nat 6074000999"
    "root_fraction 2 3 = of_nat 7439101573"
    "root_fraction 2 5 = of_nat 9603838834"
    "root_fraction 2 7 = of_nat 11363415354"
    "root_fraction 2 11 = of_nat 14244795007"
    "root_fraction 2 13 = of_nat 15485724812"
    "root_fraction 2 17 = of_nat 17708603819"
    "root_fraction 2 19 = of_nat 18721328409"
    by (rule root_fraction_word; simp)+
  then show ?thesis by (simp add: initial_hash_def start_hash_def)
qed

lemma hash_block_compress:
  assumes "sc_w st \<longrightarrow> sc_hash st = initial_hash" "length (sc_s st) = 64"
  shows "sc_hash (hash_block st) = compress (sc_hash st) (take 16 (sc_s st))" "\<not> sc_w (hash_block st)" "length (sc_s (hash_block st)) = 64"
    "sc_m (hash_block st) = sc_m st" "sc_G (hash_block st) = sc_G st"
proof -
  let ?s = "foldl schedule_word (sc_s st) [16..<64]"
  have e: "16 + 48 = (64 :: nat)" by simp
  have s: "take 64 ?s = message_schedule 48 (take 16 (sc_s st))" "length ?s = 64"
    using schedule_message [OF assms(2) order_refl] unfolding e by blast+
  then have s': "?s = message_schedule 48 (take 16 (sc_s st))" by (metis order_refl take_all)
  have len: "length round_constants = 64" by (simp add: round_constants_def)
  have "map (\<lambda>i. (round_constants ! i, ?s ! i)) [0..<4 * 16] = zip round_constants ?s"
    using s(2) len by (intro nth_equalityI) simp_all
  moreover obtain a b c d where h: "sc_hash st = (a, b, c, d)" by (metis prod_cases4)
  then have "b AND c = middle (sc_hash st)" by (simp add: middle_def)
  ultimately have "hash_block st = st\<lparr>sc_s := ?s, sc_w := False, sc_hash := compress (sc_hash st) (take 16 (sc_s st))\<rparr>"
    using all_rounds [of "sc_w st" "sc_hash st" ?s 16] assms(1) s(2) s'
    by (simp add: hash_block_def h compress_def constants_match initial_hash_start Let_def del: foldl_map upt_conv_Cons upt_rec_numeral)
  then show "sc_hash (hash_block st) = compress (sc_hash st) (take 16 (sc_s st))" "\<not> sc_w (hash_block st)" "length (sc_s (hash_block st)) = 64"
    "sc_m (hash_block st) = sc_m st" "sc_G (hash_block st) = sc_G st"
    using s(2) by simp_all
qed

end
