(* ===== verification/Sha256_Blocks.thy ===== *)
theory Sha256_Blocks
  imports Sha256
begin

text \<open>
  How \<^verbatim>\<open>sha256\<close> of the theory \<^verbatim>\<open>Sha256\<close> cuts a string into blocks: the array holds the words of the UTF-8
  encoding, characters may reach over the end of a block, and the mark and the length come out in the
  last block or in one more.  The result is that the function computes SHA-256.
\<close>

unbundle bit_operations_syntax

section \<open>The bytes of a block\<close>

text \<open>The \<^verbatim>\<open>x\<close>-th word of a sequence of bytes that goes on with zeros.\<close>

definition byte_at :: "nat list \<Rightarrow> nat \<Rightarrow> nat" where
  "byte_at bs i = (if i < length bs then bs ! i else 0)"

definition word_at :: "nat list \<Rightarrow> nat \<Rightarrow> 32 word" where
  "word_at bs x = join_word [byte_at bs (4 * x), byte_at bs (4 * x + 1), byte_at bs (4 * x + 2), byte_at bs (4 * x + 3)]"

lemma word_at_cong: "(\<And>i. 4 * x \<le> i \<Longrightarrow> i < 4 * x + 4 \<Longrightarrow> byte_at bs i = byte_at cs i) \<Longrightarrow> word_at bs x = word_at cs x"
  by (simp add: word_at_def)

definition holds :: "32 word list \<Rightarrow> nat list \<Rightarrow> bool" where
  "holds s bs \<longleftrightarrow> length s = 64 \<and> (\<forall>x < 17. s ! x = word_at bs x)"

lemma holds_put_byte:
  assumes "holds s bs" "length bs < 68"
  shows "holds (put_byte s (int (length bs)) b) (bs @ [b])"
proof -
  let ?y = "length bs div 4" and ?r = "length bs mod 4"
  have len: "length bs = 4 * ?y + ?r" by simp
  have y: "?y < 17" using assms(2) by simp
  have idx: "nat (int (length bs) div 4) = ?y" "nat (int (length bs) mod 4) = ?r" by (simp_all add: nat_div_distrib nat_mod_distrib)
  have "s[?y := s ! ?y OR push_bit (byte_shifts ! ?r) (of_nat b)] ! x = word_at (bs @ [b]) x" if x: "x < 17" for x
  proof (cases "x = ?y")
    case True
    have "?r = 0 \<or> ?r = 1 \<or> ?r = 2 \<or> ?r = 3" by linarith
    then have "word_at bs ?y OR push_bit (byte_shifts ! ?r) (of_nat b) = word_at (bs @ [b]) ?y"
      using len by (elim disjE) (auto simp: word_at_def byte_at_def byte_shifts_def nth_append ac_simps)
    then show ?thesis using True y assms(1) by (simp add: holds_def)
  next
    case False
    have "word_at bs x = word_at (bs @ [b]) x"
    proof (rule word_at_cong)
      fix i assume "4 * x \<le> i" "i < 4 * x + 4"
      then have "i \<noteq> length bs" using False by auto
      then show "byte_at bs i = byte_at (bs @ [b]) i" by (auto simp: byte_at_def nth_append)
    qed
    then show ?thesis using False x assms(1) by (simp add: holds_def)
  qed
  then show ?thesis using assms(1) by (simp add: put_byte_def holds_def idx Let_def)
qed

lemma holds_put_bytes: "holds s cs \<Longrightarrow> length cs + length bs \<le> 68 \<Longrightarrow> holds (put_bytes s (int (length cs)) bs) (cs @ bs)"
proof (induction bs arbitrary: s cs)
  case (Cons b bs)
  then show ?case using Cons.IH [OF holds_put_byte [OF Cons.prems(1), of b]] by (simp add: add.commute)
qed simp

text \<open>The bytes that the loop writes at one place are the UTF-8 encoding of the character there.\<close>

lemma byte_ors:
  "x < 32 \<Longrightarrow> 192 OR x = 192 + x" "x < 16 \<Longrightarrow> 224 OR x = 224 + x" "x < 8 \<Longrightarrow> 240 OR x = 240 + (x :: nat)"
  "128 OR (63 AND x) = 128 + x mod 64" "128 OR (x AND 63) = 128 + x mod 64"
proof -
  show "x < 32 \<Longrightarrow> 192 OR x = 192 + x" using join_add [of x 5 6] by simp
  show "x < 16 \<Longrightarrow> 224 OR x = 224 + x" using join_add [of x 4 14] by simp
  show "x < 8 \<Longrightarrow> 240 OR x = 240 + x" using join_add [of x 3 30] by simp
  show "128 OR (x AND 63) = 128 + x mod 64" using join_add [of "x mod 64" 6 2] by (simp add: and_63 take_bit_eq_mod)
  then show "128 OR (63 AND x) = 128 + x mod 64" by (simp add: and.commute)
qed

lemma pair_code:
  assumes "55296 \<le> c" "c \<le> 56319" "56320 \<le> d" "d \<le> 57343"
  shows "65536 + (push_bit 10 (1023 AND c) OR (1023 AND d)) = 65536 + (c - 55296) * 1024 + (d - 56320 :: nat)"
proof -
  have m: "1023 AND x = x mod 1024" for x :: nat using take_bit_eq_mask [of 10 x] by (simp add: mask_eq_exp_minus_1 take_bit_eq_mod and.commute)
  have "c mod 1024 = c - 55296" "d mod 1024 = d - 56320"
    using assms mod_mult_self1 [of "c - 55296" 54 1024] mod_mult_self1 [of "d - 56320" 55 1024] by simp_all
  then show ?thesis using join_add [of "d - 56320" 10 "c - 55296"] assms m by simp
qed

lemma encode_at_utf8:
  assumes "well_formed (drop j n)" "j < length n" "encode_at n j = (d, bs)"
  shows "utf8_bytes (drop j n) = bs @ utf8_bytes (drop (j + d) n)" "well_formed (drop (j + d) n)" "j + d \<le> length n"
proof -
  let ?c = "n ! j"
  have n: "drop j n = ?c # drop (Suc j) n" "charCodeAt n j = ?c" using assms(2) by (simp_all add: Cons_nth_drop_Suc charCodeAt_def)
  have "utf8_bytes (drop j n) = bs @ utf8_bytes (drop (j + d) n) \<and> well_formed (drop (j + d) n) \<and> j + d \<le> length n"
  proof (cases "55296 \<le> ?c \<and> ?c \<le> 56319")
    case True
    then obtain e rest where e: "drop (Suc j) n = e # rest" "56320 \<le> e" "e \<le> 57343" "well_formed rest"
      using assms(1) n(1) by (auto split: list.splits)
    then have j: "Suc j < length n" by (metis drop_all leI list.distinct(1))
    then have nth: "e = n ! Suc j" "rest = drop (Suc (Suc j)) n" using e(1) Cons_nth_drop_Suc [of "Suc j" n] by simp_all
    define t where "t = 65536 + (?c - 55296) * 1024 + (e - 56320)"
    have code: "65536 + (push_bit 10 (1023 AND ?c) OR (1023 AND charCodeAt n (j + 1))) = t"
      using pair_code [of ?c e] True e j nth(1) by (simp only: t_def charCodeAt_def) simp
    have "?c - 55296 \<le> 1023" "e - 56320 \<le> 1023" using True e by linarith+
    then have "65536 \<le> t" "t < 2097152" unfolding t_def by linarith+
    then have "utf8 t = [240 OR drop_bit 18 t, 128 OR (drop_bit 12 t AND 63), 128 OR (drop_bit 6 t AND 63), 128 OR (63 AND t)]"
      by (simp add: utf8_def byte_ors drop_bit_eq_div less_mult_imp_div_less)
    moreover have "encode_at n j = (2, [240 OR drop_bit 18 t, 128 OR (drop_bit 12 t AND 63), 128 OR (drop_bit 6 t AND 63), 128 OR (63 AND t)])"
      using True unfolding encode_at_def Let_def n(2) code by simp
    ultimately have "d = 2" "bs = utf8 (65536 + (?c - 55296) * 1024 + (e - 56320))" using assms(3) by (simp_all add: t_def)
    then show ?thesis using True e j n(1) nth by simp
  next
    case False
    then have c: "?c < 65536" "well_formed (drop (Suc j) n)" "\<not> (55296 \<le> ?c \<and> ?c < 57344)" using assms(1) n(1) by (auto split: if_splits)
    have "(d, bs) = (1, utf8 ?c)"
      using False c assms(3) n(2) by (auto simp: encode_at_def utf8_def Let_def byte_ors drop_bit_eq_div split: if_splits)
    then show ?thesis using False c(2) n(1) assms(2) by auto
  qed
  then show "utf8_bytes (drop j n) = bs @ utf8_bytes (drop (j + d) n)" "well_formed (drop (j + d) n)" "j + d \<le> length n" by simp_all
qed

lemma fill_block_fills:
  assumes "fill_block n j (int (length cs)) s = (j', e, s')" "holds s cs" "length cs < 68" "well_formed (drop j n)" "j \<le> length n"
  shows "\<exists>bs. utf8_bytes (drop j n) = bs @ utf8_bytes (drop j' n) \<and> e = int (length (cs @ bs)) \<and> length (cs @ bs) < 68
    \<and> holds s' (cs @ bs) \<and> well_formed (drop j' n) \<and> j' \<le> length n"
  using assms
proof (induction "length n - j" arbitrary: j cs s rule: less_induct)
  case less
  show ?case
  proof (cases "j < length n \<and> length cs < 64")
    case True
    obtain d bs where d: "encode_at n j = (d, bs)" by fastforce
    note size = encode_at_size [OF d] and u = encode_at_utf8 [OF less.prems(4) _ d]
    have run: "fill_block n (j + d) (int (length (cs @ bs))) (put_bytes s (int (length cs)) bs) = (j', e, s')"
      using less.prems(1) True d by (simp add: fill_block_encode [of n j])
    have "holds (put_bytes s (int (length cs)) bs) (cs @ bs)" using less.prems(2) True size by (intro holds_put_bytes) simp_all
    moreover have dec: "length n - (j + d) < length n - j" "length (cs @ bs) < 68" using True size by auto
    ultimately obtain bs' where "utf8_bytes (drop (j + d) n) = bs' @ utf8_bytes (drop j' n)" "e = int (length ((cs @ bs) @ bs'))"
      "length ((cs @ bs) @ bs') < 68" "holds s' ((cs @ bs) @ bs')" "well_formed (drop j' n)" "j' \<le> length n"
      using less.hyps [OF dec(1) run] u True by blast
    then show ?thesis using u(1) True by (intro exI [of _ "bs @ bs'"]) simp
  next
    case False
    then show ?thesis using less.prems by (intro exI [of _ "[]"]) (auto simp: fill_block_encode [of n j])
  qed
qed

section \<open>Blocks and padding\<close>

lemma byte_at_append: "byte_at (bs @ cs) i = (if i < length bs then byte_at bs i else byte_at cs (i - length bs))"
  by (auto simp: byte_at_def nth_append)

lemma byte_at_drop: "byte_at (drop k bs) i = byte_at bs (k + i)"
  by (auto simp: byte_at_def)

lemma word_at_drop: "word_at (drop (4 * k) bs) x = word_at bs (k + x)"
  by (simp add: word_at_def byte_at_drop distrib_left add.assoc)

lemma word_at_prefix: "4 * x + 4 \<le> length bs \<Longrightarrow> word_at (bs @ cs) x = word_at bs x"
  by (rule word_at_cong) (simp add: byte_at_append)

lemma word_at_zeros: "4 * x + 4 \<le> length bs + z \<Longrightarrow> word_at (bs @ replicate z 0 @ cs) x = word_at bs x"
  by (rule word_at_cong) (auto simp: byte_at_def nth_append)

lemma block_words_at: "64 \<le> length bs \<Longrightarrow> block_words (take 64 bs) = map (word_at bs) [0..<16]"
proof -
  assume len: "64 \<le> length bs"
  have four: "take 4 (drop i xs) = [xs ! i, xs ! (i + 1), xs ! (i + 2), xs ! (i + 3)]" if "i + 4 \<le> length xs" for i and xs :: "nat list"
  proof -
    have "take 4 (drop i xs) = map ((!) xs) [i..<i + 4]" using that by (intro nth_equalityI) simp_all
    then show ?thesis by (simp add: upt_conv_Cons eval_nat_numeral)
  qed
  have "take 4 (drop (4 * x) (take 64 bs)) = [byte_at bs (4 * x), byte_at bs (4 * x + 1), byte_at bs (4 * x + 2), byte_at bs (4 * x + 3)]" if "x < 16" for x
    using that len four [of "4 * x" "take 64 bs"] by (simp add: byte_at_def)
  then show ?thesis by (simp add: block_words_def word_at_def del: upt_rec_numeral)
qed

lemma holds_words: "holds s bs \<Longrightarrow> take 16 s = map (word_at bs) [0..<16]"
  by (intro nth_equalityI) (auto simp: holds_def)

lemma holds_pad: "s[nat (e div 4) := s ! nat (e div 4) OR pad_bits ! nat (e mod 4)] = put_byte s e 128"
proof -
  have "nat (e mod 4) = 0 \<or> nat (e mod 4) = 1 \<or> nat (e mod 4) = 2 \<or> nat (e mod 4) = 3" by linarith
  then have "pad_bits ! nat (e mod 4) = push_bit (byte_shifts ! nat (e mod 4)) (of_nat 128)"
    by (elim disjE) (simp_all add: pad_bits_def byte_shifts_def)
  then show ?thesis by (simp add: put_byte_def Let_def)
qed

lemma join_word_number:
  assumes "v < 4294967296"
  shows "join_word [v div 16777216 mod 256, v div 65536 mod 256, v div 256 mod 256, v mod 256] = of_nat v"
proof -
  have join: "push_bit (8 * k) (of_nat a) OR of_nat b = (of_nat (a * 2 ^ (8 * k) + b) :: 32 word)" if "b < 2 ^ (8 * k)" for a b k
    using that join_add [of b "8 * k" a] by (metis of_nat_or_eq of_nat_push_bit push_bit_of_nat)
  have digits: "256 * q1 + d = v \<Longrightarrow> 256 * q2 + c = q1 \<Longrightarrow> 256 * q3 + b = q2 \<Longrightarrow> q3 * 16777216 + (b * 65536 + (c * 256 + d)) = v" for q1 q2 q3 b c d :: nat
    by simp
  let ?a = "v div 16777216" and ?b = "v div 65536 mod 256" and ?c = "v div 256 mod 256" and ?d = "v mod 256"
  have "push_bit 8 (of_nat ?c) OR (of_nat ?d :: 32 word) = of_nat (?c * 256 + ?d)" using join [of ?d 1 ?c] by simp
  moreover have "push_bit 16 (of_nat ?b) OR of_nat (?c * 256 + ?d) = (of_nat (?b * 65536 + (?c * 256 + ?d)) :: 32 word)"
    using join [of "?c * 256 + ?d" 2 ?b] by simp
  moreover have "push_bit 24 (of_nat ?a) OR of_nat (?b * 65536 + (?c * 256 + ?d)) = (of_nat (?a * 16777216 + (?b * 65536 + (?c * 256 + ?d))) :: 32 word)"
    using join [of "?b * 65536 + (?c * 256 + ?d)" 3 ?a] by simp
  moreover have "v div 65536 = v div 256 div 256" "v div 16777216 = v div 256 div 256 div 256" by (simp_all flip: div_mult2_eq)
  then have "?a * 16777216 + (?b * 65536 + (?c * 256 + ?d)) = v"
    by (simp only: digits [OF mult_div_mod_eq mult_div_mod_eq mult_div_mod_eq])
  moreover have "?a mod 256 = ?a" using assms by simp
  ultimately show ?thesis by simp
qed

text \<open>The last two words of a padded message hold its length.\<close>

lemma length_words:
  assumes "t < 536870912"
  shows "word_at (big_endian 8 (8 * t)) 0 = 0" "word_at (big_endian 8 (8 * t)) 1 = push_bit 3 (of_nat t)"
proof -
  have "rev [0..<8] = [7, 6, 5, 4, 3, 2, 1, 0 :: nat]" by code_simp
  then have b: "big_endian 8 v = [v div 256 ^ 7 mod 256, v div 256 ^ 6 mod 256, v div 256 ^ 5 mod 256, v div 256 ^ 4 mod 256,
      v div 16777216 mod 256, v div 65536 mod 256, v div 256 mod 256, v mod 256]" for v
    by (simp add: big_endian_def)
  show "word_at (big_endian 8 (8 * t)) 0 = 0" using assms unfolding b by (simp add: word_at_def byte_at_def)
  have "word_at (big_endian 8 (8 * t)) 1 = of_nat (8 * t)"
    using join_word_number [of "8 * t"] assms unfolding b by (simp add: word_at_def byte_at_def)
  then show "word_at (big_endian 8 (8 * t)) 1 = push_bit 3 (of_nat t)" by (simp add: push_bit_eq_mult)
qed

definition pad_rest :: "nat list \<Rightarrow> nat \<Rightarrow> nat list" where
  "pad_rest bs t = bs @ [0x80] @ replicate ((119 - t mod 64) mod 64) 0 @ big_endian 8 (8 * t)"

lemma length_big_endian [simp]: "length (big_endian k x) = k"
  by (simp add: big_endian_def)

lemma word_at_beyond: "length bs \<le> 4 * x \<Longrightarrow> word_at bs x = 0"
  by (simp add: word_at_def byte_at_def)

lemma padded_words:
  assumes "t < 536870912" "length ys + z = 4 * k"
  defines "xs \<equiv> ys @ replicate z 0 @ big_endian 8 (8 * t)"
  shows "x < k \<Longrightarrow> word_at xs x = word_at ys x" "word_at xs k = 0" "word_at xs (k + 1) = push_bit 3 (of_nat t)" "length xs = 4 * k + 8"
proof -
  show "x < k \<Longrightarrow> word_at xs x = word_at ys x" unfolding xs_def using assms(2) by (intro word_at_zeros) simp
  have "drop (4 * k) xs = big_endian 8 (8 * t)" unfolding xs_def using assms(2) by simp
  then show "word_at xs k = 0" "word_at xs (k + 1) = push_bit 3 (of_nat t)"
    using word_at_drop [of k xs 0] word_at_drop [of k xs 1] length_words [OF assms(1)] by simp_all
  show "length xs = 4 * k + 8" unfolding xs_def using assms(2) by simp
qed

text \<open>The array before the characters are written: what was left over from the block before.\<close>

lemma holds_start:
  assumes "length s = 64" "length cs \<le> 4"
  shows "holds (word_at cs 0 # replicate 16 0 @ drop 17 s) cs"
  using assms by (auto simp: holds_def nth_Cons nth_append word_at_beyond split: nat.splits)

lemma blocks_Cons: "64 \<le> length xs \<Longrightarrow> blocks xs = map (word_at xs) [0..<16] # blocks (drop 64 xs)"
  using block_words_at [of xs] by (subst blocks.simps) auto

lemma blocks_one: "length xs = 64 \<Longrightarrow> blocks xs = [map (word_at xs) [0..<16]]"
  using blocks_Cons [of xs] by (simp add: blocks.simps [of "[]"])

lemma words_eqI:
  assumes "16 \<le> length s" "\<And>x. x < 14 \<Longrightarrow> s ! x = word_at xs x" "s ! 14 = word_at xs 14" "s ! 15 = word_at xs 15"
  shows "take 16 s = map (word_at xs) [0..<16]"
proof (rule nth_equalityI)
  fix x assume "x < length (take 16 s)"
  then have "x < 14 \<or> x = 14 \<or> x = 15" by auto
  then show "take 16 s ! x = map (word_at xs) [0..<16] ! x" using assms by auto
qed (use assms(1) in simp)

text \<open>
  The last blocks: all characters are read, \<^verbatim>\<open>cs\<close> are the bytes of the current block, and the mark is
  written.
\<close>

lemma last_block:
  assumes "holds s (cs @ [128])" "length cs < 56" "t mod 64 = length cs mod 64" "t < 536870912"
  shows "blocks (pad_rest cs t) = [take 16 (s[15 := push_bit 3 (of_nat t)])]"
proof -
  have "(119 - length cs) mod 64 = 55 - length cs" using assms(2) by (simp add: mod_if)
  then have z: "(119 - t mod 64) mod 64 = 55 - length cs" using assms(2,3) by simp
  have len: "length (cs @ [128]) + (55 - length cs) = 4 * 14" using assms(2) by simp
  note w = padded_words [OF assms(4) len]
  have eq: "pad_rest cs t = (cs @ [128]) @ replicate (55 - length cs) 0 @ big_endian 8 (8 * t)" by (simp add: pad_rest_def z)
  have s: "length s = 64" "\<And>x. x < 17 \<Longrightarrow> s ! x = word_at (cs @ [128]) x" using assms(1) by (auto simp: holds_def)
  have "take 16 (s[15 := push_bit 3 (of_nat t)]) = map (word_at (pad_rest cs t)) [0..<16]"
    by (rule words_eqI) (use s w assms(2) in \<open>simp_all add: eq word_at_beyond\<close>)
  then show ?thesis using blocks_one [of "pad_rest cs t"] w(4) eq by simp
qed

lemma last_two_blocks:
  assumes "holds s (cs @ [128])" "56 \<le> length cs" "length cs < 68" "t mod 64 = length cs mod 64" "t < 536870912" "length s' = 64"
  shows "blocks (pad_rest cs t) = [take 16 s, take 16 ((s ! 16 # replicate 16 0 @ drop 17 s')[15 := push_bit 3 (of_nat t)])]"
proof -
  have "(119 - length cs mod 64) mod 64 = 119 - length cs" using assms(2,3) by (cases "length cs < 64") (auto simp: mod_if)
  then have z: "(119 - t mod 64) mod 64 = 119 - length cs" using assms(4) by simp
  have len: "length (cs @ [128]) + (119 - length cs) = 4 * 30" using assms(3) by simp
  note w = padded_words [OF assms(5) len]
  have eq: "pad_rest cs t = (cs @ [128]) @ replicate (119 - length cs) 0 @ big_endian 8 (8 * t)" by (simp add: pad_rest_def z)
  have s: "length s = 64" "\<And>x. x < 17 \<Longrightarrow> s ! x = word_at (cs @ [128]) x" using assms(1) by (auto simp: holds_def)
  have first: "take 16 s = map (word_at (pad_rest cs t)) [0..<16]"
    by (rule words_eqI) (use s w(1) in \<open>simp_all add: eq\<close>)
  let ?s = "s ! 16 # replicate 16 0 @ drop 17 s'" and ?xs = "drop 64 (pad_rest cs t)"
  have at: "word_at ?xs x = word_at (pad_rest cs t) (16 + x)" for x using word_at_drop [of 16 "pad_rest cs t" x] by simp
  have last: "word_at ?xs 14 = 0" "word_at ?xs 15 = push_bit 3 (of_nat t)" unfolding at unfolding eq using w(2,3) by simp_all
  have "take 16 (?s[15 := push_bit 3 (of_nat t)]) = map (word_at ?xs) [0..<16]"
  proof (rule words_eqI)
    fix x :: nat assume "x < 14"
    then have "word_at ?xs x = word_at (cs @ [128]) (16 + x)" unfolding at unfolding eq by (intro w(1)) simp
    then show "?s[15 := push_bit 3 (of_nat t)] ! x = word_at ?xs x"
      using s(2) [of 16] assms(3) \<open>x < 14\<close> by (cases x) (simp_all add: word_at_beyond nth_append)
  qed (use last assms(6) in \<open>simp_all add: nth_append\<close>)
  moreover have "length (pad_rest cs t) = 128" using w(4) eq by simp
  ultimately show ?thesis using blocks_Cons [of "pad_rest cs t"] blocks_one [of ?xs] first by simp
qed

section \<open>The whole function\<close>

text \<open>
  The state before a block: \<^verbatim>\<open>cs\<close> are the bytes of characters that reached over the end of the block
  before, and \<^verbatim>\<open>t\<close> is the number of bytes of the whole text.
\<close>

definition block_start :: "jsstring \<Rightarrow> nat list \<Rightarrow> nat \<Rightarrow> sha_ctx \<Rightarrow> bool" where
  "block_start n cs t st \<longleftrightarrow> (sc_w st \<longrightarrow> sc_hash st = initial_hash) \<and> length (sc_s st) = 64 \<and> sc_G st = word_at cs 0 \<and>
    length cs < 4 \<and> sc_k st = int (length cs) \<and> sc_j st \<le> length n \<and> well_formed (drop (sc_j st) n) \<and>
    int t = sc_m st + int (length (utf8_bytes (drop (sc_j st) n))) \<and>
    t mod 64 = (length cs + length (utf8_bytes (drop (sc_j st) n))) mod 64 \<and> t < 536870912"

lemma read_block_starts:
  assumes "block_start n cs t st"
  obtains j bs s where "utf8_bytes (drop (sc_j st) n) = bs @ utf8_bytes (drop j n)" "length (cs @ bs) < 68" "well_formed (drop j n)"
    "j \<le> length n" "j < length n \<longrightarrow> 64 \<le> length (cs @ bs)" "holds s (if j = length n then (cs @ bs) @ [128] else cs @ bs)"
    "j < length n \<longrightarrow> sc_j st < j"
    "read_block n st = (let e = length (cs @ bs); m = sc_m st + int (length bs); b = (j = length n \<and> e < 56)
      in (b, st\<lparr>sc_s := (if b then s[15 := push_bit 3 (of_int m)] else s), sc_j := (if j = length n then j + 1 else j), sc_k := int e - 64,
        sc_m := m, sc_G := s ! 16\<rparr>))"
proof -
  have st: "length (sc_s st) = 64" "sc_G st = word_at cs 0" "length cs < 4" "sc_k st = int (length cs)" "sc_j st \<le> length n" "well_formed (drop (sc_j st) n)"
    using assms by (simp_all add: block_start_def)
  obtain j e s where f: "fill_block n (sc_j st) (int (length cs)) (word_at cs 0 # replicate 16 0 @ drop 17 (sc_s st)) = (j, e, s)"
    by (metis prod_cases3)
  obtain bs where bs: "utf8_bytes (drop (sc_j st) n) = bs @ utf8_bytes (drop j n)" "e = int (length (cs @ bs))" "length (cs @ bs) < 68"
    "holds s (cs @ bs)" "well_formed (drop j n)" "j \<le> length n"
    using fill_block_fills [OF f holds_start] st by auto
  have go: "j < length n \<Longrightarrow> 64 \<le> length (cs @ bs)" "j < length n \<Longrightarrow> sc_j st < j"
    using fill_block_progress [OF f] bs(2) st(3) by auto
  let ?s = "if j = length n then put_byte s e 128 else s"
  have "holds ?s (if j = length n then (cs @ bs) @ [128] else cs @ bs)"
    using bs(3,4) holds_put_byte [OF bs(4,3), of 128] by (simp add: bs(2))
  moreover have "read_block n st = (let e = length (cs @ bs); m = sc_m st + int (length bs); b = (j = length n \<and> e < 56)
      in (b, st\<lparr>sc_s := (if b then ?s[15 := push_bit 3 (of_int m)] else ?s), sc_j := (if j = length n then j + 1 else j), sc_k := int e - 64,
        sc_m := m, sc_G := ?s ! 16\<rparr>))"
    using f st(2,4) bs(2,6) by (auto simp: read_block_def Let_def holds_pad)
  ultimately show thesis using that bs go by blast
qed

lemma last_pass:
  assumes "length n < sc_j st" "sc_k st < 56"
  shows "sha_loop n st = vars_list (sc_hash (hash_block
    (st\<lparr>sc_s := (sc_G st # replicate 16 0 @ drop 17 (sc_s st))[15 := push_bit 3 (of_int (sc_m st))], sc_k := sc_k st - 64, sc_G := 0\<rparr>)))"
  using assms by (subst sha_loop.simps) (simp add: read_block_def fill_block_encode nth_append)

lemma sha_loop_blocks:
  "block_start n cs t st \<Longrightarrow> sha_loop n st =
    vars_list (foldl compress (sc_hash st) (blocks (pad_rest (cs @ utf8_bytes (drop (sc_j st) n)) t)))"
proof (induction "length n - sc_j st" arbitrary: cs st rule: less_induct)
  case less
  note st = less.prems [unfolded block_start_def]
  obtain j bs s where l: "utf8_bytes (drop (sc_j st) n) = bs @ utf8_bytes (drop j n)" "length (cs @ bs) < 68" "well_formed (drop j n)"
    "j \<le> length n" "j < length n \<longrightarrow> 64 \<le> length (cs @ bs)" "holds s (if j = length n then (cs @ bs) @ [128] else cs @ bs)"
    "j < length n \<longrightarrow> sc_j st < j"
    "read_block n st = (let e = length (cs @ bs); m = sc_m st + int (length bs); b = (j = length n \<and> e < 56)
      in (b, st\<lparr>sc_s := (if b then s[15 := push_bit 3 (of_int m)] else s), sc_j := (if j = length n then j + 1 else j), sc_k := int e - 64,
        sc_m := m, sc_G := s ! 16\<rparr>))"
    by (rule read_block_starts [OF less.prems], rule that)
  have len: "length s = 64" using l(6) by (simp add: holds_def)
  have hash: "sc_w st \<longrightarrow> sc_hash st = initial_hash" using st by blast
  consider (more) "j < length n" | (one) "j = length n" "length (cs @ bs) < 56" | (two) "j = length n" "56 \<le> length (cs @ bs)" using l(4) by linarith
  then show ?case
  proof cases
    case more
    let ?st = "st\<lparr>sc_s := s, sc_j := j, sc_k := int (length (cs @ bs)) - 64, sc_m := sc_m st + int (length bs), sc_G := s ! 16\<rparr>"
    let ?rest = "utf8_bytes (drop j n)" and ?cs = "drop 64 (cs @ bs)"
    have h: "holds s (cs @ bs)" "64 \<le> length (cs @ bs)" using l(5,6) more by simp_all
    have block: "sc_hash (hash_block ?st) = compress (sc_hash st) (take 16 s)" using hash_block_compress(1) [of ?st] st len by simp
    have "length cs + length (bs @ ?rest) = length ?cs + length ?rest + 64" using h(2) by simp
    then have "t mod 64 = (length ?cs + length ?rest) mod 64" using st l(1) by (metis mod_add_self2)
    moreover have "s ! 16 = word_at ?cs 0" using h(1) word_at_drop [of 16 "cs @ bs" 0] by (simp add: holds_def)
    moreover have "length ?cs < 4" "int (length (cs @ bs)) - 64 = int (length ?cs)" using l(2) h(2) by auto
    moreover have "int t = sc_m st + int (length bs) + int (length ?rest)" using st l(1) by simp
    ultimately have "block_start n ?cs t (hash_block ?st)"
      using hash_block_compress(2-5) [of ?st] st len l(3,4) unfolding block_start_def by simp
    then have ih: "sha_loop n (hash_block ?st) = vars_list (foldl compress (compress (sc_hash st) (take 16 s)) (blocks (pad_rest (?cs @ ?rest) t)))"
      using less.hyps [of "hash_block ?st" ?cs] l(7) more block by simp
    have "blocks (pad_rest ((cs @ bs) @ ?rest) t) = take 16 s # blocks (pad_rest (?cs @ ?rest) t)"
      using h blocks_Cons [of "pad_rest ((cs @ bs) @ ?rest) t"] holds_words [OF h(1)] word_at_prefix [of _ "cs @ bs"]
      by (simp add: pad_rest_def)
    moreover have "sha_loop n st = sha_loop n (hash_block ?st)" using l(8) more by (subst sha_loop.simps) simp
    ultimately show ?thesis using ih l(1) by simp
  next
    case one
    let ?st = "st\<lparr>sc_s := s[15 := push_bit 3 (of_nat t)], sc_j := j + 1, sc_k := int (length (cs @ bs)) - 64, sc_m := int t, sc_G := s ! 16\<rparr>"
    have t: "sc_m st + int (length bs) = int t" "t mod 64 = length (cs @ bs) mod 64" using st l(1) one(1) by simp_all
    have "sha_loop n st = vars_list (sc_hash (hash_block ?st))" using l(8) one t(1) by (subst sha_loop.simps) simp
    also have "sc_hash (hash_block ?st) = compress (sc_hash st) (take 16 (s[15 := push_bit 3 (of_nat t)]))"
      using hash_block_compress(1) [of ?st] st len by simp
    finally show ?thesis using last_block [of s "cs @ bs" t] l(1,6) one t(2) st by simp
  next
    case two
    let ?st = "st\<lparr>sc_s := s, sc_j := j + 1, sc_k := int (length (cs @ bs)) - 64, sc_m := int t, sc_G := s ! 16\<rparr>"
    let ?u = "(hash_block ?st)\<lparr>sc_s := (s ! 16 # replicate 16 0 @ drop 17 (sc_s (hash_block ?st)))[15 := push_bit 3 (of_nat t)],
      sc_k := int (length (cs @ bs)) - 128, sc_G := 0\<rparr>"
    have t: "sc_m st + int (length bs) = int t" "t mod 64 = length (cs @ bs) mod 64" using st l(1) two(1) by simp_all
    note hb = hash_block_compress [of ?st]
    have "sha_loop n st = sha_loop n (hash_block ?st)" using l(8) two t(1) by (subst sha_loop.simps) simp
    also have "\<dots> = vars_list (sc_hash (hash_block ?u))"
      using last_pass [of n "hash_block ?st"] two l(2) hb hash len by simp
    also have "sc_hash (hash_block ?u) = compress (compress (sc_hash st) (take 16 s)) (take 16 (sc_s ?u))"
      using hash_block_compress(1) [of ?u] hb hash len by simp
    finally show ?thesis using last_two_blocks [of s "cs @ bs" t "sc_s (hash_block ?st)"] hb hash len l(1,2,6) two t(2) st by simp
  qed
qed

text \<open>
  C8.  The hash function of the service worker is SHA-256: for every well-formed string whose UTF-8
  encoding has less than \<^verbatim>\<open>2 ^ 29\<close> bytes, where the source keeps only the lower half of the length, it ends
  and returns the hash of that encoding as the standard defines it.
\<close>

theorem sha256_correct:
  assumes "well_formed n" "length (utf8_bytes n) < 2 ^ 29"
  shows "sha256 n = SHA_256 (utf8_bytes n)"
proof -
  have "block_start n [] (length (utf8_bytes n)) sha_init"
    using assms by (simp add: block_start_def sha_init_def initial_hash_start start_hash_def word_at_def byte_at_def)
  from sha_loop_blocks [OF this] show ?thesis
    by (simp add: sha256_def SHA_256_def pad_message_def pad_rest_def sha_init_def initial_hash_start start_hash_def)
qed

theorem sha256_correct_witness: "sha256 (js_lit ''a'' @ [8364, 55357, 56832]) = SHA_256 [97, 226, 130, 172, 240, 159, 152, 128]"
proof -
  have "utf8_bytes (js_lit ''a'' @ [8364, 55357, 56832]) = [97, 226, 130, 172, 240, 159, 152, 128]"
    by (simp add: js_lit_def utf8_def)
  then show ?thesis using sha256_correct [of "js_lit ''a'' @ [8364, 55357, 56832]"] by (simp add: js_lit_def)
qed

end
