(* ===== verification/Sax_Parser.thy ===== *)
theory Sax_Parser
  imports JS_Prelude "HOL-Library.AList"
begin

text \<open>
  The class \<^verbatim>\<open>SAXParser\<close>, a machine over the characters of a text that reports text, opening and closing
  tags to a handler, with the character classes of \<^verbatim>\<open>Char\<close> and the table of \<^verbatim>\<open>_Entities\<close>.

  The handler is an argument: a function that takes an event and returns the new handler or throws.
  Its own fields \<^verbatim>\<open>line\<close> and \<^verbatim>\<open>column\<close>, which the parser counts, are fields of the parser here.  The fields
  that are never read (\<^verbatim>\<open>bufferCheckPosition\<close>, \<^verbatim>\<open>looseCase\<close>, \<^verbatim>\<open>attribList\<close>) are left out, and so are the calls of
  handler methods that the compiler removed because no handler has them.  The numbers of the states
  have the names they have in \<^verbatim>\<open>sax.jsx\<close>, so the default branch of the switch does not occur.  Upper and
  lower case are arguments.  Reading a chunk may never end, because one branch moves the index of the loop back: the
  loop has fuel, and \<^verbatim>\<open>Diverge\<close> says that it is used up.
\<close>

section \<open>Character classes and entities\<close>

definition sax_space :: "nat \<Rightarrow> bool" where
  "sax_space c \<longleftrightarrow> c \<in> {13, 10, 9, 32}"

definition sax_quote :: "nat \<Rightarrow> bool" where
  "sax_quote c \<longleftrightarrow> c \<in> {39, 34}"

definition entity_char :: "nat \<Rightarrow> bool" where
  "entity_char c \<longleftrightarrow> 48 \<le> c \<and> c \<le> 57 \<or> 97 \<le> c \<and> c \<le> 122 \<or> 65 \<le> c \<and> c \<le> 90 \<or> c = 35"

definition attrib_end :: "nat \<Rightarrow> bool" where
  "attrib_end c \<longleftrightarrow> c \<in> {13, 10, 9, 32, 62}"

definition nameStart :: "nat \<Rightarrow> bool" where
  "nameStart c \<longleftrightarrow> c = 58 \<or> c = 95 \<or> 65 \<le> c \<and> c \<le> 90 \<or> 97 \<le> c \<and> c \<le> 122 \<or> 0xC0 \<le> c \<and> c \<le> 0xD6 \<or> 0xD8 \<le> c \<and> c \<le> 0xF6
    \<or> 0xF8 \<le> c \<and> c \<le> 0x2FF \<or> 0x370 \<le> c \<and> c \<le> 0x37D \<or> 0x37F \<le> c \<and> c \<le> 0x1FFF \<or> 0x200C \<le> c \<and> c \<le> 0x200D
    \<or> 0x2070 \<le> c \<and> c \<le> 0x218F \<or> 0x2C00 \<le> c \<and> c \<le> 0x2FEF \<or> 0x3001 \<le> c \<and> c \<le> 0xD7FF \<or> 0xF900 \<le> c \<and> c \<le> 0xFDCF
    \<or> 0xFDF0 \<le> c \<and> c \<le> 0xFFFD"

definition nameBody :: "nat \<Rightarrow> bool" where
  "nameBody c \<longleftrightarrow> nameStart c \<or> c = 0xB7 \<or> 0x300 \<le> c \<and> c \<le> 0x36F \<or> 0x203F \<le> c \<and> c \<le> 0x2040 \<or> c = 46 \<or> 48 \<le> c \<and> c \<le> 57 \<or> c = 45"

definition entity_codes :: "(string \<times> nat) list" where
  "entity_codes =
   [(''amp'', 38), (''gt'', 62), (''lt'', 60), (''quot'', 34), (''apos'', 39), (''AElig'', 198), (''Aacute'', 193), (''Acirc'', 194),
     (''Agrave'', 192), (''Aring'', 197), (''Atilde'', 195), (''Auml'', 196), (''Ccedil'', 199), (''ETH'', 208), (''Eacute'', 201), (''Ecirc'', 202),
     (''Egrave'', 200), (''Euml'', 203), (''Iacute'', 205), (''Icirc'', 206), (''Igrave'', 204), (''Iuml'', 207), (''Ntilde'', 209),
     (''Oacute'', 211), (''Ocirc'', 212), (''Ograve'', 210), (''Oslash'', 216), (''Otilde'', 213), (''Ouml'', 214), (''THORN'', 222),
     (''Uacute'', 218), (''Ucirc'', 219), (''Ugrave'', 217), (''Uuml'', 220), (''Yacute'', 221), (''aacute'', 225), (''acirc'', 226),
     (''aelig'', 230), (''agrave'', 224), (''aring'', 229), (''atilde'', 227), (''auml'', 228), (''ccedil'', 231), (''eacute'', 233),
     (''ecirc'', 234), (''egrave'', 232), (''eth'', 240), (''euml'', 235), (''iacute'', 237), (''icirc'', 238), (''igrave'', 236), (''iuml'', 239),
     (''ntilde'', 241), (''oacute'', 243), (''ocirc'', 244), (''ograve'', 242), (''oslash'', 248), (''otilde'', 245), (''ouml'', 246),
     (''szlig'', 223), (''thorn'', 254), (''uacute'', 250), (''ucirc'', 251), (''ugrave'', 249), (''uuml'', 252), (''yacute'', 253), (''yuml'', 255),
     (''copy'', 169), (''reg'', 174), (''nbsp'', 160), (''iexcl'', 161), (''cent'', 162), (''pound'', 163), (''curren'', 164), (''yen'', 165),
     (''brvbar'', 166), (''sect'', 167), (''uml'', 168), (''ordf'', 170), (''laquo'', 171), (''not'', 172), (''shy'', 173), (''macr'', 175),
     (''deg'', 176), (''plusmn'', 177), (''sup1'', 185), (''sup2'', 178), (''sup3'', 179), (''acute'', 180), (''micro'', 181), (''para'', 182),
     (''middot'', 183), (''cedil'', 184), (''ordm'', 186), (''raquo'', 187), (''frac14'', 188), (''frac12'', 189), (''frac34'', 190),
     (''iquest'', 191), (''times'', 215), (''divide'', 247), (''OElig'', 338), (''oelig'', 339), (''Scaron'', 352), (''scaron'', 353),
     (''Yuml'', 376), (''fnof'', 402), (''circ'', 710), (''tilde'', 732), (''Alpha'', 913), (''Beta'', 914), (''Gamma'', 915), (''Delta'', 916),
     (''Epsilon'', 917), (''Zeta'', 918), (''Eta'', 919), (''Theta'', 920), (''Iota'', 921), (''Kappa'', 922), (''Lambda'', 923), (''Mu'', 924),
     (''Nu'', 925), (''Xi'', 926), (''Omicron'', 927), (''Pi'', 928), (''Rho'', 929), (''Sigma'', 931), (''Tau'', 932), (''Upsilon'', 933),
     (''Phi'', 934), (''Chi'', 935), (''Psi'', 936), (''Omega'', 937), (''alpha'', 945), (''beta'', 946), (''gamma'', 947), (''delta'', 948),
     (''epsilon'', 949), (''zeta'', 950), (''eta'', 951), (''theta'', 952), (''iota'', 953), (''kappa'', 954), (''lambda'', 955), (''mu'', 956),
     (''nu'', 957), (''xi'', 958), (''omicron'', 959), (''pi'', 960), (''rho'', 961), (''sigmaf'', 962), (''sigma'', 963), (''tau'', 964),
     (''upsilon'', 965), (''phi'', 966), (''chi'', 967), (''psi'', 968), (''omega'', 969), (''thetasym'', 977), (''upsih'', 978), (''piv'', 982),
     (''ensp'', 8194), (''emsp'', 8195), (''thinsp'', 8201), (''zwnj'', 8204), (''zwj'', 8205), (''lrm'', 8206), (''rlm'', 8207), (''ndash'', 8211),
     (''mdash'', 8212), (''lsquo'', 8216), (''rsquo'', 8217), (''sbquo'', 8218), (''ldquo'', 8220), (''rdquo'', 8221), (''bdquo'', 8222),
     (''dagger'', 8224), (''Dagger'', 8225), (''bull'', 8226), (''hellip'', 8230), (''permil'', 8240), (''prime'', 8242), (''Prime'', 8243),
     (''lsaquo'', 8249), (''rsaquo'', 8250), (''oline'', 8254), (''frasl'', 8260), (''euro'', 8364), (''image'', 8465), (''weierp'', 8472),
     (''real'', 8476), (''trade'', 8482), (''alefsym'', 8501), (''larr'', 8592), (''uarr'', 8593), (''rarr'', 8594), (''darr'', 8595),
     (''harr'', 8596), (''crarr'', 8629), (''lArr'', 8656), (''uArr'', 8657), (''rArr'', 8658), (''dArr'', 8659), (''hArr'', 8660),
     (''forall'', 8704), (''part'', 8706), (''exist'', 8707), (''empty'', 8709), (''nabla'', 8711), (''isin'', 8712), (''notin'', 8713),
     (''ni'', 8715), (''prod'', 8719), (''sum'', 8721), (''minus'', 8722), (''lowast'', 8727), (''radic'', 8730), (''prop'', 8733),
     (''infin'', 8734), (''ang'', 8736), (''and'', 8743), (''or'', 8744), (''cap'', 8745), (''cup'', 8746), (''int'', 8747), (''there4'', 8756),
     (''sim'', 8764), (''cong'', 8773), (''asymp'', 8776), (''ne'', 8800), (''equiv'', 8801), (''le'', 8804), (''ge'', 8805), (''sub'', 8834),
     (''sup'', 8835), (''nsub'', 8836), (''sube'', 8838), (''supe'', 8839), (''oplus'', 8853), (''otimes'', 8855), (''perp'', 8869),
     (''sdot'', 8901), (''lceil'', 8968), (''rceil'', 8969), (''lfloor'', 8970), (''rfloor'', 8971), (''lang'', 9001), (''rang'', 9002),
     (''loz'', 9674), (''spades'', 9824), (''clubs'', 9827), (''hearts'', 9829), (''diams'', 9830)]"

definition entity_list :: "(jsstring \<times> jsstring) list" where
  "entity_list = map (\<lambda>(name, code). (js_lit name, [code])) entity_codes"

text \<open>
  What JavaScript leaves to the host: the case mappings of Unicode, the text of a built-in function,
  and, for numbers from \<^verbatim>\<open>2 ^ 53\<close> on, which are not exact, their digits and their character.
\<close>

record text_host =
  th_lower :: "jsstring \<Rightarrow> jsstring"
  th_upper :: "jsstring \<Rightarrow> jsstring"
  th_builtin :: "jsstring \<Rightarrow> jsstring"
  th_digits :: "nat \<Rightarrow> nat \<Rightarrow> jsstring"
  th_code :: "nat \<Rightarrow> nat"

text \<open>
  The names that every object inherits and that can be written as an entity.  Such an entity is a
  built-in function, and appending it to a text appends its text.
\<close>

definition inherited_entities :: "jsstring list" where
  "inherited_entities = map js_lit [''constructor'', ''hasOwnProperty'', ''isPrototypeOf'', ''propertyIsEnumerable'', ''toLocaleString'',
    ''toString'', ''valueOf'']"

definition get_entity :: "text_host \<Rightarrow> jsstring \<Rightarrow> jsstring option" where
  "get_entity host name = (case map_of entity_list name of
      Some s \<Rightarrow> Some s
    | None \<Rightarrow> if name \<in> set inherited_entities then Some (th_builtin host name) else None)"

text \<open>\<^verbatim>\<open>parseInt\<close> of lower-case text, \<^verbatim>\<open>None\<close> for \<^verbatim>\<open>NaN\<close>, and \<^verbatim>\<open>toString\<close> with a radix.\<close>

definition digit_value :: "nat \<Rightarrow> nat" where
  "digit_value c = (if 48 \<le> c \<and> c \<le> 57 then c - 48 else if 97 \<le> c \<and> c \<le> 122 then c - 87 else 36)"

definition parse_int :: "nat \<Rightarrow> jsstring \<Rightarrow> nat option" where
  "parse_int radix s =
    (let s = (if radix = 16 \<and> take 2 s = [48, 120] then drop 2 s else s);
         digits = takeWhile (\<lambda>c. digit_value c < radix) s
     in if digits = [] then None else Some (foldl (\<lambda>n c. n * radix + digit_value c) 0 digits))"

definition digit_char :: "nat \<Rightarrow> nat" where
  "digit_char d = (if d < 10 then 48 + d else 87 + d)"

fun radix_string :: "nat \<Rightarrow> nat \<Rightarrow> nat \<Rightarrow> jsstring" where
  "radix_string 0 radix n = []"
| "radix_string (Suc fuel) radix n = (if n < radix then [digit_char n] else radix_string fuel radix (n div radix) @ [digit_char (n mod radix)])"

definition number_string :: "text_host \<Rightarrow> nat \<Rightarrow> nat option \<Rightarrow> jsstring" where
  "number_string host radix num = (case num of
      None \<Rightarrow> js_lit ''NaN''
    | Some n \<Rightarrow> if n < 2 ^ 53 then radix_string (n + 1) radix n else th_digits host radix n)"

text \<open>\<^verbatim>\<open>String.fromCharCode\<close>\<close>

definition number_char :: "text_host \<Rightarrow> nat option \<Rightarrow> nat" where
  "number_char host num = (case num of None \<Rightarrow> 0 | Some n \<Rightarrow> (if n < 2 ^ 53 then n else th_code host n) mod 2 ^ 16)"

section \<open>The parser\<close>

datatype sax_state =
    BEGIN | TEXT | TEXT_ENTITY | OPEN_WAKA | SGML_DECL | SGML_DECL_QUOTED | DOCTYPE | DOCTYPE_QUOTED | DOCTYPE_DTD | DOCTYPE_DTD_QUOTED
  | COMMENT | COMMENT_ENDING | COMMENT_ENDED | CDATA | CDATA_ENDING | CDATA_ENDING_2 | PROC_INST | PROC_INST_BODY | PROC_INST_ENDING
  | OPEN_TAG | OPEN_TAG_SLASH | ATTRIB | ATTRIB_NAME | ATTRIB_NAME_SAW_WHITE | ATTRIB_VALUE | ATTRIB_VALUE_QUOTED
  | ATTRIB_VALUE_UNQUOTED | ATTRIB_VALUE_ENTITY_Q | ATTRIB_VALUE_ENTITY_U | CLOSE_TAG | CLOSE_TAG_SAW_WHITE | SCRIPT | SCRIPT_ENDING

record tag =
  tag_name :: jsstring
  tag_attributes :: "(jsstring \<times> jsstring) list"
  tag_isSelfClosing :: bool

datatype sax_event =
    OnText jsstring
  | OnOpenTag jsstring "(jsstring \<times> jsstring) list"
  | OnCloseTag jsstring

record 'h sax_env =
  env_handle :: "sax_event \<Rightarrow> 'h \<Rightarrow> 'h js"
  env_host :: text_host

abbreviation env_lower :: "'h sax_env \<Rightarrow> jsstring \<Rightarrow> jsstring" where
  "env_lower env \<equiv> th_lower (env_host env)"

abbreviation env_upper :: "'h sax_env \<Rightarrow> jsstring \<Rightarrow> jsstring" where
  "env_upper env \<equiv> th_upper (env_host env)"

record 'h SAXParser =
  sp_handler :: 'h
  sp_handler_line :: nat
  sp_handler_column :: nat
  sp_q :: jsstring
  sp_c :: jsstring
  sp_tags :: "tag list"
  sp_closed :: bool
  sp_closedRoot :: bool
  sp_sawRoot :: bool
  sp_tag :: "tag option"
  sp_error :: "jsstring option"
  sp_strict :: bool
  sp_tagName :: jsstring
  sp_state :: sax_state
  sp_line :: nat
  sp_column :: nat
  sp_position :: nat
  sp_startTagPosition :: nat
  sp_attribName :: jsstring
  sp_attribValue :: jsstring
  sp_script :: jsstring
  sp_textNode :: jsstring
  sp_noscript :: bool
  sp_cdata :: jsstring
  sp_procInstBody :: jsstring
  sp_procInstName :: jsstring
  sp_doctype :: jsstring
  sp_entity :: jsstring
  sp_sgmlDecl :: jsstring
  sp_comment :: jsstring
  sp_preTags :: int

definition SAXParser_new :: "'h \<Rightarrow> bool \<Rightarrow> 'h SAXParser" where
  "SAXParser_new handler strict = \<lparr>sp_handler = handler, sp_handler_line = 0, sp_handler_column = 0, sp_q = [], sp_c = [], sp_tags = [],
    sp_closed = False, sp_closedRoot = False, sp_sawRoot = False, sp_tag = None, sp_error = None, sp_strict = strict, sp_tagName = [],
    sp_state = BEGIN, sp_line = 0, sp_column = 0, sp_position = 0, sp_startTagPosition = 0, sp_attribName = [], sp_attribValue = [],
    sp_script = [], sp_textNode = [], sp_noscript = False, sp_cdata = [], sp_procInstBody = [], sp_procInstName = [], sp_doctype = [],
    sp_entity = [], sp_sgmlDecl = [], sp_comment = [], sp_preTags = 0\<rparr>"

definition set_noscript :: "bool \<Rightarrow> 'h SAXParser \<Rightarrow> 'h SAXParser" where
  "set_noscript flag st = st\<lparr>sp_noscript := flag\<rparr>"

definition SAXParser_resume :: "'h SAXParser \<Rightarrow> 'h SAXParser" where
  "SAXParser_resume st = st\<lparr>sp_error := None\<rparr>"

definition clearBuffers :: "'h SAXParser \<Rightarrow> 'h SAXParser" where
  "clearBuffers st = st\<lparr>sp_comment := [], sp_sgmlDecl := [], sp_textNode := [], sp_tagName := [], sp_doctype := [], sp_procInstName := [],
    sp_procInstBody := [], sp_entity := [], sp_attribName := [], sp_attribValue := [], sp_cdata := [], sp_script := []\<rparr>"

text \<open>Line ends and tabs become spaces, and two or more white space characters one space.\<close>

lemma length_dropWhile_less [termination_simp]: "length (dropWhile P s) < Suc (length s)"
  by (simp add: le_imp_less_Suc length_dropWhile_le)

fun collapse :: "jsstring \<Rightarrow> jsstring" where
  "collapse [] = []"
| "collapse (c # s) =
    (if white_space c \<and> s \<noteq> [] \<and> white_space (hd s) then 32 # collapse (dropWhile white_space s) else c # collapse s)"

definition textopts :: "jsstring \<Rightarrow> jsstring" where
  "textopts text = collapse (map (\<lambda>c. if c = 10 \<or> c = 9 then 32 else c) text)"

definition closetext :: "'h sax_env \<Rightarrow> 'h SAXParser \<Rightarrow> 'h SAXParser js" where
  "closetext env st =
    (let text = (if sp_preTags st = 0 then textopts (sp_textNode st) else sp_textNode st)
     in js_bind (if text = [] then Inr (sp_handler st) else env_handle env (OnText text) (sp_handler st))
          (\<lambda>h. Inr (st\<lparr>sp_handler := h, sp_textNode := []\<rparr>)))"

definition closetext_if_exist :: "'h sax_env \<Rightarrow> 'h SAXParser \<Rightarrow> 'h SAXParser js" where
  "closetext_if_exist env st = (if sp_textNode st \<noteq> [] then closetext env st else Inr st)"

text \<open>The numbers \<^verbatim>\<open>line\<close> and \<^verbatim>\<open>column\<close> of the message are those of the parser, which stay zero.\<close>

definition emiterror :: "'h sax_env \<Rightarrow> jsstring \<Rightarrow> 'h SAXParser \<Rightarrow> 'h SAXParser js" where
  "emiterror env er st = js_bind (closetext env st) (\<lambda>st. Inr (st\<lparr>sp_error := Some (er @ [10] @ js_lit ''Line: '' @
    radix_string (sp_line st + 1) 10 (sp_line st) @ [10] @ js_lit ''Column: '' @ radix_string (sp_column st + 1) 10 (sp_column st) @ [10] @
    js_lit ''Char: '' @ sp_c st)\<rparr>))"

definition strictFail :: "'h sax_env \<Rightarrow> jsstring \<Rightarrow> 'h SAXParser \<Rightarrow> 'h SAXParser js" where
  "strictFail env message st = (if sp_strict st then emiterror env message st else Inr st)"

definition sax_end :: "'h sax_env \<Rightarrow> 'h SAXParser \<Rightarrow> 'h SAXParser js" where
  "sax_end env st =
    js_bind (if \<not> sp_closedRoot st then strictFail env (js_lit ''Unclosed root tag'') st else Inr st) (\<lambda>st.
    js_bind (if sp_state st \<noteq> TEXT then emiterror env (js_lit ''Unexpected end'') st else Inr st) (\<lambda>st.
    js_bind (closetext env st) (\<lambda>st.
    Inr (st\<lparr>sp_c := [], sp_closed := True\<rparr>))))"

definition newTag :: "'h sax_env \<Rightarrow> 'h SAXParser \<Rightarrow> 'h SAXParser" where
  "newTag env st =
    (let st = (if sp_strict st then st else st\<lparr>sp_tagName := env_lower env (sp_tagName st)\<rparr>)
     in st\<lparr>sp_tag := Some \<lparr>tag_name = sp_tagName st, tag_attributes = [], tag_isSelfClosing = False\<rparr>\<rparr>)"

text \<open>
  Setting an attribute of the tag, which is an object: a string assigned to its \<^verbatim>\<open>__proto__\<close> is ignored.
  Without a tag it is an exception.
\<close>

definition set_attribute :: "jsstring \<Rightarrow> jsstring \<Rightarrow> 'h SAXParser \<Rightarrow> 'h SAXParser js" where
  "set_attribute name v st = (case sp_tag st of
      None \<Rightarrow> Inl (Throw ''TypeError'')
    | Some tag \<Rightarrow> Inr (if name = js_lit ''__proto__'' then st
        else st\<lparr>sp_tag := Some (tag\<lparr>tag_attributes := AList.update name v (tag_attributes tag)\<rparr>)\<rparr>))"

definition attrib :: "'h sax_env \<Rightarrow> 'h SAXParser \<Rightarrow> 'h SAXParser js" where
  "attrib env st =
    (let st = (if sp_strict st then st else st\<lparr>sp_attribName := env_lower env (sp_attribName st)\<rparr>)
     in case sp_tag st of
       None \<Rightarrow> Inl (Throw ''TypeError'')
     | Some tag \<Rightarrow>
         if sp_attribName st \<in> fst ` set (tag_attributes tag) then Inr (st\<lparr>sp_attribName := [], sp_attribValue := []\<rparr>)
         else js_bind (set_attribute (sp_attribName st) (sp_attribValue st) st) (\<lambda>st.
           js_bind (closetext_if_exist env st) (\<lambda>st.
           Inr (st\<lparr>sp_attribName := [], sp_attribValue := []\<rparr>))))"

definition openTag :: "'h sax_env \<Rightarrow> bool \<Rightarrow> 'h SAXParser \<Rightarrow> 'h SAXParser js" where
  "openTag env selfClosing st = (case sp_tag st of
      None \<Rightarrow> Inl (Throw ''TypeError'')
    | Some tag0 \<Rightarrow>
        let tag = tag0\<lparr>tag_isSelfClosing := selfClosing\<rparr>
        in js_bind (closetext_if_exist env (st\<lparr>sp_tag := Some tag, sp_sawRoot := True, sp_tags := tag # sp_tags st\<rparr>)) (\<lambda>st.
           js_bind (env_handle env (OnOpenTag (tag_name tag) (tag_attributes tag)) (sp_handler st)) (\<lambda>h.
             let st = st\<lparr>sp_handler := h\<rparr>;
                 st = (if tag_name tag = js_lit ''pre'' then st\<lparr>sp_preTags := sp_preTags st + 1\<rparr> else st);
                 st = (if selfClosing then st
                   else st\<lparr>sp_state := (if \<not> sp_noscript st \<and> env_lower env (sp_tagName st) = js_lit ''script'' then SCRIPT else TEXT),
                     sp_tag := None, sp_tagName := []\<rparr>)
             in Inr (st\<lparr>sp_attribName := [], sp_attribValue := []\<rparr>))))"

text \<open>
  The open tags are kept with the innermost first.  \<^verbatim>\<open>find_open\<close> is the loop of \<^verbatim>\<open>closeTag\<close> that looks for
  the tag to close, from the innermost outwards; it returns the number of tags inside of it, if there
  is one.  \<^verbatim>\<open>close_tags\<close> is the loop that closes \<^verbatim>\<open>n\<close> tags.
\<close>

fun find_open :: "'h sax_env \<Rightarrow> jsstring \<Rightarrow> tag list \<Rightarrow> nat \<Rightarrow> 'h SAXParser \<Rightarrow> (nat option \<times> 'h SAXParser) js" where
  "find_open env closeTo [] k st = Inr (None, st)"
| "find_open env closeTo (close # tags) k st =
    (if tag_name close \<noteq> closeTo
     then js_bind (strictFail env (js_lit ''Unexpected close tag'') st) (\<lambda>st. find_open env closeTo tags (k + 1) st)
     else Inr (Some k, st))"

fun close_tags :: "'h sax_env \<Rightarrow> nat \<Rightarrow> 'h SAXParser \<Rightarrow> 'h SAXParser js" where
  "close_tags env 0 st = Inr st"
| "close_tags env (Suc n) st = (case sp_tags st of
      [] \<Rightarrow> Inl (Throw ''TypeError'')
    | tag # tags \<Rightarrow>
        js_bind (closetext_if_exist env (st\<lparr>sp_tag := Some tag, sp_tags := tags, sp_tagName := tag_name tag\<rparr>)) (\<lambda>st.
        js_bind (env_handle env (OnCloseTag (sp_tagName st)) (sp_handler st)) (\<lambda>h.
          let st = st\<lparr>sp_handler := h\<rparr>
          in close_tags env n (if sp_tagName st = js_lit ''pre'' then st\<lparr>sp_preTags := sp_preTags st - 1\<rparr> else st))))"

definition closeTag :: "'h sax_env \<Rightarrow> 'h SAXParser \<Rightarrow> 'h SAXParser js" where
  "closeTag env st =
    (if sp_tagName st = [] then
       js_bind (strictFail env (js_lit ''Weird empty close tag.'') st) (\<lambda>st.
       Inr (st\<lparr>sp_textNode := sp_textNode st @ js_lit ''</>'', sp_state := TEXT\<rparr>))
     else if sp_script st \<noteq> [] \<and> sp_tagName st \<noteq> js_lit ''script'' then
       Inr (st\<lparr>sp_script := sp_script st @ js_lit ''</'' @ sp_tagName st @ js_lit ''>'', sp_tagName := [], sp_state := SCRIPT\<rparr>)
     else
       js_bind (if sp_script st \<noteq> [] then js_bind (closetext_if_exist env st) (\<lambda>st. Inr (st\<lparr>sp_script := []\<rparr>)) else Inr st) (\<lambda>st.
         let tagName = (if sp_strict st then sp_tagName st else env_lower env (sp_tagName st))
         in js_bind (find_open env tagName (sp_tags st) 0 st) (\<lambda>(found, st). case found of
              None \<Rightarrow>
                js_bind (strictFail env (js_lit ''Unmatched closing tag: '' @ sp_tagName st) st) (\<lambda>st.
                Inr (st\<lparr>sp_textNode := sp_textNode st @ js_lit ''</'' @ sp_tagName st @ js_lit ''>'', sp_state := TEXT\<rparr>))
            | Some k \<Rightarrow>
                let root = (k + 1 = length (sp_tags st))
                in js_bind (close_tags env (k + 1) (st\<lparr>sp_tagName := tagName\<rparr>)) (\<lambda>st.
                   let st = (if root then st\<lparr>sp_closedRoot := True\<rparr> else st)
                   in Inr (st\<lparr>sp_tagName := [], sp_attribValue := [], sp_attribName := [], sp_state := TEXT\<rparr>)))))"

definition parseEntity :: "'h sax_env \<Rightarrow> 'h SAXParser \<Rightarrow> (jsstring \<times> 'h SAXParser) js" where
  "parseEntity env st =
    (let entity = sp_entity st; entityLC = env_lower env entity
     in case get_entity (env_host env) entity of
          Some s \<Rightarrow> Inr (s, st)
        | None \<Rightarrow>
            (case get_entity (env_host env) entityLC of
              Some s \<Rightarrow> Inr (s, st)
            | None \<Rightarrow>
                let hex = (take 2 entityLC = [35, 120]); radix = (if hex then 16 else 10);
                    digits = (if hex then drop 2 entityLC else if take 1 entityLC = [35] then drop 1 entityLC else entityLC);
                    num = (if take 1 entityLC = [35] then parse_int radix digits else Some 0);
                    numStr = (if take 1 entityLC = [35] then number_string (env_host env) radix num else [])
                in if env_lower env numStr \<noteq> dropWhile (\<lambda>c. c = 48) digits then
                     js_bind (strictFail env (js_lit ''Invalid character entity'') st) (\<lambda>st. Inr (js_lit ''&'' @ sp_entity st @ js_lit '';'', st))
                   else Inr ([number_char (env_host env) num], st)))"

section \<open>One character\<close>

text \<open>
  The branches of the switch in \<^verbatim>\<open>parse\<close>, one definition for each state or group of states.  Only the
  branches for text and for an opening angle bracket change the index of the loop.
\<close>

definition advance :: "nat \<Rightarrow> 'h SAXParser \<Rightarrow> 'h SAXParser" where
  "advance c st =
    (let st = st\<lparr>sp_position := sp_position st + 1\<rparr>
     in if c = 10 then st\<lparr>sp_handler_line := sp_handler_line st + 1, sp_handler_column := 0\<rparr>
        else st\<lparr>sp_handler_column := sp_handler_column st + 1\<rparr>)"

definition char_at :: "jsstring \<Rightarrow> nat \<Rightarrow> nat option" where
  "char_at chunk i = (if i < length chunk then Some (chunk ! i) else None)"

definition step_begin :: "'h sax_env \<Rightarrow> nat \<Rightarrow> 'h SAXParser \<Rightarrow> 'h SAXParser js" where
  "step_begin env c st =
    (if c = 60 then Inr (st\<lparr>sp_state := OPEN_WAKA, sp_startTagPosition := sp_position st\<rparr>)
     else if sax_space c then Inr st
     else js_bind (strictFail env (js_lit ''Non-whitespace before first tag.'') st) (\<lambda>st.
       Inr (st\<lparr>sp_textNode := [c], sp_state := TEXT\<rparr>)))"

text \<open>The inner loop over the characters of a text: the index, the character it stops at, and the state.\<close>

function text_loop :: "jsstring \<Rightarrow> nat \<Rightarrow> nat option \<Rightarrow> 'h SAXParser \<Rightarrow> nat \<times> nat option \<times> 'h SAXParser" where
  "text_loop chunk i c st = (case c of
      None \<Rightarrow> (i, None, st)
    | Some c0 \<Rightarrow>
        if c0 = 60 \<or> c0 = 38 then (i, Some c0, st)
        else let c = char_at chunk i
          in text_loop chunk (i + 1) c (case c of None \<Rightarrow> st | Some c \<Rightarrow> advance c st))"
  by pat_completeness auto
termination
  by (relation "measure (\<lambda>(chunk, i, c, st). case c of None \<Rightarrow> 0 | Some _ \<Rightarrow> Suc (length chunk - i))")
    (auto simp: char_at_def split: option.splits)

declare text_loop.simps [simp del]

definition step_text :: "'h sax_env \<Rightarrow> jsstring \<Rightarrow> nat \<Rightarrow> nat \<Rightarrow> 'h SAXParser \<Rightarrow> (nat \<times> 'h SAXParser) js" where
  "step_text env chunk c i st =
    (let (j, c, st) =
       (if sp_sawRoot st \<and> \<not> sp_closedRoot st then
          (let (j, c, st) = text_loop chunk i (Some c) st
           in (j, c, st\<lparr>sp_textNode := sp_textNode st @ take (j - 1 - (i - 1)) (drop (i - 1) chunk)\<rparr>))
        else (i, Some c, st))
     in if c = Some 60 then Inr (j, st\<lparr>sp_state := OPEN_WAKA, sp_startTagPosition := sp_position st\<rparr>)
        else js_bind
          (if (case c of None \<Rightarrow> True | Some c \<Rightarrow> \<not> sax_space c) \<and> (\<not> sp_sawRoot st \<or> sp_closedRoot st)
           then strictFail env (js_lit ''Text data outside of root node.'') st else Inr st) (\<lambda>st.
          Inr (j, if c = Some 38 then st\<lparr>sp_state := TEXT_ENTITY\<rparr>
            else st\<lparr>sp_textNode := sp_textNode st @ (case c of None \<Rightarrow> [] | Some c \<Rightarrow> [c])\<rparr>)))"

definition step_script :: "nat \<Rightarrow> 'h SAXParser \<Rightarrow> 'h SAXParser js" where
  "step_script c st = Inr (if c = 60 then st\<lparr>sp_state := SCRIPT_ENDING\<rparr> else st\<lparr>sp_script := sp_script st @ [c]\<rparr>)"

definition step_script_ending :: "nat \<Rightarrow> 'h SAXParser \<Rightarrow> 'h SAXParser js" where
  "step_script_ending c st = Inr (if c = 47 then st\<lparr>sp_state := CLOSE_TAG\<rparr>
    else st\<lparr>sp_script := sp_script st @ [60, c], sp_state := SCRIPT\<rparr>)"

text \<open>
  In the last branch the loop that pads the character uses the variable \<^verbatim>\<open>i\<close>, the index of the outer
  loop, which ends up as the length of the padding.
\<close>

definition step_open_waka :: "'h sax_env \<Rightarrow> nat \<Rightarrow> nat \<Rightarrow> 'h SAXParser \<Rightarrow> (nat \<times> 'h SAXParser) js" where
  "step_open_waka env c i st =
    (if c = 33 then Inr (i, st\<lparr>sp_state := SGML_DECL, sp_sgmlDecl := []\<rparr>)
     else if sax_space c then Inr (i, st)
     else if nameStart c then Inr (i, st\<lparr>sp_state := OPEN_TAG, sp_tagName := [c]\<rparr>)
     else if c = 47 then Inr (i, st\<lparr>sp_state := CLOSE_TAG, sp_tagName := []\<rparr>)
     else if c = 63 then Inr (i, st\<lparr>sp_state := PROC_INST, sp_procInstName := [], sp_procInstBody := []\<rparr>)
     else js_bind (strictFail env (js_lit ''Unencoded <'') st) (\<lambda>st.
       let pad = sp_position st - sp_startTagPosition st;
           (i, s) = (if sp_startTagPosition st + 1 < sp_position st then (pad, replicate pad 32 @ [c]) else (i, [c]))
       in Inr (i, st\<lparr>sp_textNode := sp_textNode st @ [60] @ s, sp_state := TEXT\<rparr>)))"

definition step_sgml_decl :: "'h sax_env \<Rightarrow> nat \<Rightarrow> 'h SAXParser \<Rightarrow> 'h SAXParser js" where
  "step_sgml_decl env c st =
    (let decl = sp_sgmlDecl st @ [c]
     in if env_upper env decl = js_lit ''[CDATA['' then
          js_bind (closetext_if_exist env st) (\<lambda>st. Inr (st\<lparr>sp_state := CDATA, sp_sgmlDecl := [], sp_cdata := []\<rparr>))
        else if decl = js_lit ''--'' then Inr (st\<lparr>sp_state := COMMENT, sp_comment := [], sp_sgmlDecl := []\<rparr>)
        else if env_upper env decl = js_lit ''DOCTYPE'' then
          let st = st\<lparr>sp_state := DOCTYPE\<rparr>
          in js_bind (if sp_doctype st \<noteq> [] \<or> sp_sawRoot st
                then strictFail env (js_lit ''Inappropriately located doctype declaration'') st else Inr st) (\<lambda>st.
             Inr (st\<lparr>sp_doctype := [], sp_sgmlDecl := []\<rparr>))
        else if c = 62 then js_bind (closetext_if_exist env st) (\<lambda>st. Inr (st\<lparr>sp_sgmlDecl := [], sp_state := TEXT\<rparr>))
        else if sax_quote c then Inr (st\<lparr>sp_state := SGML_DECL_QUOTED, sp_sgmlDecl := decl\<rparr>)
        else Inr (st\<lparr>sp_sgmlDecl := decl\<rparr>))"

definition step_sgml_decl_quoted :: "nat \<Rightarrow> 'h SAXParser \<Rightarrow> 'h SAXParser js" where
  "step_sgml_decl_quoted c st =
    (let st = (if [c] = sp_q st then st\<lparr>sp_state := SGML_DECL, sp_q := []\<rparr> else st)
     in Inr (st\<lparr>sp_sgmlDecl := sp_sgmlDecl st @ [c]\<rparr>))"

definition step_doctype :: "'h sax_env \<Rightarrow> nat \<Rightarrow> 'h SAXParser \<Rightarrow> 'h SAXParser js" where
  "step_doctype env c st =
    (if c = 62 then closetext_if_exist env (st\<lparr>sp_state := TEXT\<rparr>)
     else let st = st\<lparr>sp_doctype := sp_doctype st @ [c]\<rparr>
       in Inr (if c = 91 then st\<lparr>sp_state := DOCTYPE_DTD\<rparr>
          else if sax_quote c then st\<lparr>sp_state := DOCTYPE_QUOTED, sp_q := [c]\<rparr> else st))"

definition step_doctype_quoted :: "nat \<Rightarrow> 'h SAXParser \<Rightarrow> 'h SAXParser js" where
  "step_doctype_quoted c st =
    (let st = st\<lparr>sp_doctype := sp_doctype st @ [c]\<rparr>
     in Inr (if [c] = sp_q st then st\<lparr>sp_q := [], sp_state := DOCTYPE\<rparr> else st))"

definition step_doctype_dtd :: "nat \<Rightarrow> 'h SAXParser \<Rightarrow> 'h SAXParser js" where
  "step_doctype_dtd c st =
    (let st = st\<lparr>sp_doctype := sp_doctype st @ [c]\<rparr>
     in Inr (if c = 93 then st\<lparr>sp_state := DOCTYPE\<rparr>
        else if sax_quote c then st\<lparr>sp_state := DOCTYPE_DTD_QUOTED, sp_q := [c]\<rparr> else st))"

definition step_doctype_dtd_quoted :: "nat \<Rightarrow> 'h SAXParser \<Rightarrow> 'h SAXParser js" where
  "step_doctype_dtd_quoted c st =
    (let st = st\<lparr>sp_doctype := sp_doctype st @ [c]\<rparr>
     in Inr (if [c] = sp_q st then st\<lparr>sp_state := DOCTYPE_DTD, sp_q := []\<rparr> else st))"

definition step_comment :: "nat \<Rightarrow> 'h SAXParser \<Rightarrow> 'h SAXParser js" where
  "step_comment c st = Inr (if c = 45 then st\<lparr>sp_state := COMMENT_ENDING\<rparr> else st\<lparr>sp_comment := sp_comment st @ [c]\<rparr>)"

definition step_comment_ending :: "'h sax_env \<Rightarrow> nat \<Rightarrow> 'h SAXParser \<Rightarrow> 'h SAXParser js" where
  "step_comment_ending env c st =
    (if c = 45 then
       let st = st\<lparr>sp_state := COMMENT_ENDED, sp_comment := textopts (sp_comment st)\<rparr>
       in js_bind (if sp_comment st \<noteq> [] then closetext_if_exist env st else Inr st) (\<lambda>st. Inr (st\<lparr>sp_comment := []\<rparr>))
     else Inr (st\<lparr>sp_comment := sp_comment st @ [45, c], sp_state := COMMENT\<rparr>))"

definition step_comment_ended :: "'h sax_env \<Rightarrow> nat \<Rightarrow> 'h SAXParser \<Rightarrow> 'h SAXParser js" where
  "step_comment_ended env c st =
    (if c \<noteq> 62 then
       js_bind (strictFail env (js_lit ''Malformed comment'') st) (\<lambda>st.
       Inr (st\<lparr>sp_comment := sp_comment st @ [45, 45, c], sp_state := COMMENT\<rparr>))
     else Inr (st\<lparr>sp_state := TEXT\<rparr>))"

definition step_cdata :: "nat \<Rightarrow> 'h SAXParser \<Rightarrow> 'h SAXParser js" where
  "step_cdata c st = Inr (if c = 93 then st\<lparr>sp_state := CDATA_ENDING\<rparr> else st\<lparr>sp_cdata := sp_cdata st @ [c]\<rparr>)"

definition step_cdata_ending :: "nat \<Rightarrow> 'h SAXParser \<Rightarrow> 'h SAXParser js" where
  "step_cdata_ending c st = Inr (if c = 93 then st\<lparr>sp_state := CDATA_ENDING_2\<rparr>
    else st\<lparr>sp_cdata := sp_cdata st @ [93, c], sp_state := CDATA\<rparr>)"

definition step_cdata_ending_2 :: "'h sax_env \<Rightarrow> nat \<Rightarrow> 'h SAXParser \<Rightarrow> 'h SAXParser js" where
  "step_cdata_ending_2 env c st =
    (if c = 62 then
       js_bind (if sp_cdata st \<noteq> [] then closetext_if_exist env st else Inr st) (\<lambda>st. Inr (st\<lparr>sp_cdata := [], sp_state := TEXT\<rparr>))
     else if c = 93 then Inr (st\<lparr>sp_cdata := sp_cdata st @ [93]\<rparr>)
     else Inr (st\<lparr>sp_cdata := sp_cdata st @ [93, 93, c], sp_state := CDATA\<rparr>))"

definition step_proc_inst :: "nat \<Rightarrow> 'h SAXParser \<Rightarrow> 'h SAXParser js" where
  "step_proc_inst c st = Inr (if c = 63 then st\<lparr>sp_state := PROC_INST_ENDING\<rparr>
    else if sax_space c then st\<lparr>sp_state := PROC_INST_BODY\<rparr>
    else st\<lparr>sp_procInstName := sp_procInstName st @ [c]\<rparr>)"

definition step_proc_inst_body :: "nat \<Rightarrow> 'h SAXParser \<Rightarrow> 'h SAXParser js" where
  "step_proc_inst_body c st = Inr (if sp_procInstBody st = [] \<and> sax_space c then st
    else if c = 63 then st\<lparr>sp_state := PROC_INST_ENDING\<rparr>
    else st\<lparr>sp_procInstBody := sp_procInstBody st @ [c]\<rparr>)"

definition step_proc_inst_ending :: "'h sax_env \<Rightarrow> nat \<Rightarrow> 'h SAXParser \<Rightarrow> 'h SAXParser js" where
  "step_proc_inst_ending env c st =
    (if c = 62 then js_bind (closetext_if_exist env st) (\<lambda>st. Inr (st\<lparr>sp_procInstName := [], sp_procInstBody := [], sp_state := TEXT\<rparr>))
     else Inr (st\<lparr>sp_procInstBody := sp_procInstBody st @ [63, c], sp_state := PROC_INST_BODY\<rparr>))"

definition step_open_tag :: "'h sax_env \<Rightarrow> nat \<Rightarrow> 'h SAXParser \<Rightarrow> 'h SAXParser js" where
  "step_open_tag env c st =
    (if nameBody c then Inr (st\<lparr>sp_tagName := sp_tagName st @ [c]\<rparr>)
     else let st = newTag env st
       in if c = 62 then openTag env False st
          else if c = 47 then Inr (st\<lparr>sp_state := OPEN_TAG_SLASH\<rparr>)
          else js_bind (if \<not> sax_space c then strictFail env (js_lit ''Invalid character in tag name'') st else Inr st) (\<lambda>st.
            Inr (st\<lparr>sp_state := ATTRIB\<rparr>)))"

definition step_open_tag_slash :: "'h sax_env \<Rightarrow> nat \<Rightarrow> 'h SAXParser \<Rightarrow> 'h SAXParser js" where
  "step_open_tag_slash env c st =
    (if c = 62 then js_bind (openTag env True st) (closeTag env)
     else js_bind (strictFail env (js_lit ''Forward-slash in opening tag not followed by >'') st) (\<lambda>st. Inr (st\<lparr>sp_state := ATTRIB\<rparr>)))"

definition step_attrib :: "'h sax_env \<Rightarrow> nat \<Rightarrow> 'h SAXParser \<Rightarrow> 'h SAXParser js" where
  "step_attrib env c st =
    (if sax_space c then Inr st
     else if c = 62 then openTag env False st
     else if c = 47 then Inr (st\<lparr>sp_state := OPEN_TAG_SLASH\<rparr>)
     else if nameStart c then Inr (st\<lparr>sp_attribName := [c], sp_attribValue := [], sp_state := ATTRIB_NAME\<rparr>)
     else strictFail env (js_lit ''Invalid attribute name'') st)"

definition step_attrib_name :: "'h sax_env \<Rightarrow> nat \<Rightarrow> 'h SAXParser \<Rightarrow> 'h SAXParser js" where
  "step_attrib_name env c st =
    (if c = 61 then Inr (st\<lparr>sp_state := ATTRIB_VALUE\<rparr>)
     else if c = 62 then
       js_bind (strictFail env (js_lit ''Attribute without value'') st) (\<lambda>st.
       js_bind (attrib env (st\<lparr>sp_attribValue := sp_attribName st\<rparr>)) (openTag env False))
     else if sax_space c then Inr (st\<lparr>sp_state := ATTRIB_NAME_SAW_WHITE\<rparr>)
     else if nameBody c then Inr (st\<lparr>sp_attribName := sp_attribName st @ [c]\<rparr>)
     else strictFail env (js_lit ''Invalid attribute name'') st)"

definition step_attrib_name_saw_white :: "'h sax_env \<Rightarrow> nat \<Rightarrow> 'h SAXParser \<Rightarrow> 'h SAXParser js" where
  "step_attrib_name_saw_white env c st =
    (if c = 61 then Inr (st\<lparr>sp_state := ATTRIB_VALUE\<rparr>)
     else if sax_space c then Inr st
     else
       js_bind (strictFail env (js_lit ''Attribute without value'') st) (\<lambda>st.
       js_bind (set_attribute (sp_attribName st) [] st) (\<lambda>st.
       js_bind (closetext_if_exist env (st\<lparr>sp_attribValue := []\<rparr>)) (\<lambda>st.
         let st = st\<lparr>sp_attribName := []\<rparr>
         in if c = 62 then openTag env False st
            else if nameStart c then Inr (st\<lparr>sp_attribName := [c], sp_state := ATTRIB_NAME\<rparr>)
            else js_bind (strictFail env (js_lit ''Invalid attribute name'') st) (\<lambda>st. Inr (st\<lparr>sp_state := ATTRIB\<rparr>))))))"

definition step_attrib_value :: "'h sax_env \<Rightarrow> nat \<Rightarrow> 'h SAXParser \<Rightarrow> 'h SAXParser js" where
  "step_attrib_value env c st =
    (if sax_space c then Inr st
     else if sax_quote c then Inr (st\<lparr>sp_q := [c], sp_state := ATTRIB_VALUE_QUOTED\<rparr>)
     else js_bind (strictFail env (js_lit ''Unquoted attribute value'') st) (\<lambda>st.
       Inr (st\<lparr>sp_state := ATTRIB_VALUE_UNQUOTED, sp_attribValue := [c]\<rparr>)))"

definition step_attrib_value_quoted :: "'h sax_env \<Rightarrow> nat \<Rightarrow> 'h SAXParser \<Rightarrow> 'h SAXParser js" where
  "step_attrib_value_quoted env c st =
    (if [c] \<noteq> sp_q st then
       Inr (if c = 38 then st\<lparr>sp_state := ATTRIB_VALUE_ENTITY_Q\<rparr> else st\<lparr>sp_attribValue := sp_attribValue st @ [c]\<rparr>)
     else js_bind (attrib env st) (\<lambda>st. Inr (st\<lparr>sp_q := [], sp_state := ATTRIB\<rparr>)))"

definition step_attrib_value_unquoted :: "'h sax_env \<Rightarrow> nat \<Rightarrow> 'h SAXParser \<Rightarrow> 'h SAXParser js" where
  "step_attrib_value_unquoted env c st =
    (if \<not> attrib_end c then
       Inr (if c = 38 then st\<lparr>sp_state := ATTRIB_VALUE_ENTITY_U\<rparr> else st\<lparr>sp_attribValue := sp_attribValue st @ [c]\<rparr>)
     else js_bind (attrib env st) (\<lambda>st. if c = 62 then openTag env False st else Inr (st\<lparr>sp_state := ATTRIB\<rparr>)))"

definition step_close_tag :: "'h sax_env \<Rightarrow> nat \<Rightarrow> 'h SAXParser \<Rightarrow> 'h SAXParser js" where
  "step_close_tag env c st =
    (if sp_tagName st = [] then
       (if sax_space c then Inr st
        else if \<not> nameStart c then
          (if sp_script st \<noteq> [] then Inr (st\<lparr>sp_script := sp_script st @ [60, 47, c], sp_state := SCRIPT\<rparr>)
           else strictFail env (js_lit ''Invalid tagname in closing tag.'') st)
        else Inr (st\<lparr>sp_tagName := [c]\<rparr>))
     else if c = 62 then closeTag env st
     else if nameBody c then Inr (st\<lparr>sp_tagName := sp_tagName st @ [c]\<rparr>)
     else if sp_script st \<noteq> [] then
       Inr (st\<lparr>sp_script := sp_script st @ [60, 47] @ sp_tagName st, sp_tagName := [], sp_state := SCRIPT\<rparr>)
     else
       js_bind (if \<not> sax_space c then strictFail env (js_lit ''Invalid tagname in closing tag'') st else Inr st) (\<lambda>st.
       Inr (st\<lparr>sp_state := CLOSE_TAG_SAW_WHITE\<rparr>)))"

definition step_close_tag_saw_white :: "'h sax_env \<Rightarrow> nat \<Rightarrow> 'h SAXParser \<Rightarrow> 'h SAXParser js" where
  "step_close_tag_saw_white env c st =
    (if sax_space c then Inr st
     else if c = 62 then closeTag env st
     else strictFail env (js_lit ''Invalid characters in closing tag'') st)"

text \<open>The value of \<^verbatim>\<open>textNode\<close> is read before \<^verbatim>\<open>parseEntity\<close> is called.\<close>

definition step_text_entity :: "'h sax_env \<Rightarrow> nat \<Rightarrow> 'h SAXParser \<Rightarrow> 'h SAXParser js" where
  "step_text_entity env c st =
    (if c = 59 then
       let text = sp_textNode st
       in js_bind (parseEntity env st) (\<lambda>(s, st). Inr (st\<lparr>sp_textNode := text @ s, sp_entity := [], sp_state := TEXT\<rparr>))
     else if entity_char c then Inr (st\<lparr>sp_entity := sp_entity st @ [c]\<rparr>)
     else js_bind (strictFail env (js_lit ''Invalid character entity'') st) (\<lambda>st.
       Inr (st\<lparr>sp_textNode := sp_textNode st @ [38] @ sp_entity st @ [c], sp_entity := [], sp_state := TEXT\<rparr>)))"

definition step_attrib_entity :: "'h sax_env \<Rightarrow> nat \<Rightarrow> 'h SAXParser \<Rightarrow> 'h SAXParser js" where
  "step_attrib_entity env c st =
    (let returnState = (if sp_state st = ATTRIB_VALUE_ENTITY_Q then ATTRIB_VALUE_QUOTED else ATTRIB_VALUE_UNQUOTED)
     in if c = 59 then
          let v = sp_attribValue st
          in js_bind (parseEntity env st) (\<lambda>(s, st). Inr (st\<lparr>sp_attribValue := v @ s, sp_entity := [], sp_state := returnState\<rparr>))
        else if entity_char c then Inr (st\<lparr>sp_entity := sp_entity st @ [c]\<rparr>)
        else js_bind (strictFail env (js_lit ''Invalid character entity'') st) (\<lambda>st.
          Inr (st\<lparr>sp_attribValue := sp_attribValue st @ [38] @ sp_entity st @ [c], sp_entity := [], sp_state := returnState\<rparr>)))"

section \<open>Parsing a chunk\<close>

text \<open>The branches that leave the index alone, and the whole switch.\<close>

definition sax_step :: "'h sax_env \<Rightarrow> nat \<Rightarrow> 'h SAXParser \<Rightarrow> 'h SAXParser js" where
  "sax_step env c st = (case sp_state st of
      BEGIN \<Rightarrow> step_begin env c st
    | TEXT \<Rightarrow> Inl Undef
    | TEXT_ENTITY \<Rightarrow> step_text_entity env c st
    | OPEN_WAKA \<Rightarrow> Inl Undef
    | SGML_DECL \<Rightarrow> step_sgml_decl env c st
    | SGML_DECL_QUOTED \<Rightarrow> step_sgml_decl_quoted c st
    | DOCTYPE \<Rightarrow> step_doctype env c st
    | DOCTYPE_QUOTED \<Rightarrow> step_doctype_quoted c st
    | DOCTYPE_DTD \<Rightarrow> step_doctype_dtd c st
    | DOCTYPE_DTD_QUOTED \<Rightarrow> step_doctype_dtd_quoted c st
    | COMMENT \<Rightarrow> step_comment c st
    | COMMENT_ENDING \<Rightarrow> step_comment_ending env c st
    | COMMENT_ENDED \<Rightarrow> step_comment_ended env c st
    | CDATA \<Rightarrow> step_cdata c st
    | CDATA_ENDING \<Rightarrow> step_cdata_ending c st
    | CDATA_ENDING_2 \<Rightarrow> step_cdata_ending_2 env c st
    | PROC_INST \<Rightarrow> step_proc_inst c st
    | PROC_INST_BODY \<Rightarrow> step_proc_inst_body c st
    | PROC_INST_ENDING \<Rightarrow> step_proc_inst_ending env c st
    | OPEN_TAG \<Rightarrow> step_open_tag env c st
    | OPEN_TAG_SLASH \<Rightarrow> step_open_tag_slash env c st
    | ATTRIB \<Rightarrow> step_attrib env c st
    | ATTRIB_NAME \<Rightarrow> step_attrib_name env c st
    | ATTRIB_NAME_SAW_WHITE \<Rightarrow> step_attrib_name_saw_white env c st
    | ATTRIB_VALUE \<Rightarrow> step_attrib_value env c st
    | ATTRIB_VALUE_QUOTED \<Rightarrow> step_attrib_value_quoted env c st
    | ATTRIB_VALUE_UNQUOTED \<Rightarrow> step_attrib_value_unquoted env c st
    | ATTRIB_VALUE_ENTITY_Q \<Rightarrow> step_attrib_entity env c st
    | ATTRIB_VALUE_ENTITY_U \<Rightarrow> step_attrib_entity env c st
    | CLOSE_TAG \<Rightarrow> step_close_tag env c st
    | CLOSE_TAG_SAW_WHITE \<Rightarrow> step_close_tag_saw_white env c st
    | SCRIPT \<Rightarrow> step_script c st
    | SCRIPT_ENDING \<Rightarrow> step_script_ending c st)"

definition parse_step :: "'h sax_env \<Rightarrow> jsstring \<Rightarrow> nat \<Rightarrow> 'h SAXParser \<Rightarrow> (nat \<times> 'h SAXParser) js" where
  "parse_step env chunk i st =
    (let c = chunk ! i; st = advance c (st\<lparr>sp_c := [c]\<rparr>)
     in if sp_state st = TEXT then step_text env chunk c (i + 1) st
        else if sp_state st = OPEN_WAKA then step_open_waka env c (i + 1) st
        else js_bind (sax_step env c st) (\<lambda>st. Inr (i + 1, st)))"

fun sax_loop :: "'h sax_env \<Rightarrow> nat \<Rightarrow> jsstring \<Rightarrow> nat \<Rightarrow> 'h SAXParser \<Rightarrow> 'h SAXParser js" where
  "sax_loop env 0 chunk i st = Inl Diverge"
| "sax_loop env (Suc fuel) chunk i st =
    (if i < length chunk
     then js_bind (parse_step env chunk i st) (\<lambda>(i, st). sax_loop env fuel chunk i st)
     else Inr (st\<lparr>sp_c := []\<rparr>))"

definition SAXParser_parse :: "'h sax_env \<Rightarrow> nat \<Rightarrow> jsstring \<Rightarrow> 'h SAXParser \<Rightarrow> 'h SAXParser js" where
  "SAXParser_parse env fuel chunk st = (case sp_error st of
      Some message \<Rightarrow> Inl (Throw (map char_of message))
    | None \<Rightarrow>
        if sp_closed st then emiterror env (js_lit ''Cannot write after close. Assign an onready handler.'') st
        else js_bind (sax_loop env fuel chunk 0 st) (sax_end env))"

definition SAXParser_close :: "'h sax_env \<Rightarrow> 'h SAXParser \<Rightarrow> 'h SAXParser js" where
  "SAXParser_close env st = SAXParser_parse env 1 [] st"

section \<open>Reading a chunk ends\<close>

text \<open>
  \<^verbatim>\<open>sends Q m\<close>: the call \<^verbatim>\<open>m\<close> throws an exception or returns a result that satisfies \<^verbatim>\<open>Q\<close>; it neither
  runs forever nor leaves the model.  The rules compute what has to hold before a call.
\<close>

fun throws :: "js_error \<Rightarrow> bool" where
  "throws (Throw message) = True"
| "throws e = False"

definition sends :: "('a \<Rightarrow> bool) \<Rightarrow> 'a js \<Rightarrow> bool" where
  "sends Q m \<longleftrightarrow> (case m of Inl e \<Rightarrow> throws e | Inr x \<Rightarrow> Q x)"

definition handler_returns :: "'h sax_env \<Rightarrow> bool" where
  "handler_returns env \<longleftrightarrow> (\<forall>e h. sends (\<lambda>h'. True) (env_handle env e h))"

lemma sends_simps [simp]:
  "sends Q (Inl e) \<longleftrightarrow> throws e"
  "sends Q (Inr x) \<longleftrightarrow> Q x"
  "sends Q (js_bind m f) \<longleftrightarrow> sends (\<lambda>x. sends Q (f x)) m"
  by (cases m; simp add: sends_def)+

lemma sends_cases: "sends Q m \<Longrightarrow> (\<exists>x. m = Inr x) \<or> (\<exists>message. m = Inl (Throw message))"
  by (auto simp: sends_def split: sum.splits elim: throws.elims)

lemma sends_mono: "sends P m \<Longrightarrow> (\<And>x. P x \<Longrightarrow> Q x) \<Longrightarrow> sends Q m"
  by (auto simp: sends_def split: sum.splits)

lemma sends_handle: "handler_returns env \<Longrightarrow> (\<And>h'. Q h') \<Longrightarrow> sends Q (env_handle env e h)"
  by (auto simp: handler_returns_def intro: sends_mono)

lemma sends_closetext:
  "handler_returns env \<Longrightarrow> (\<And>h. Q (st\<lparr>sp_handler := h, sp_textNode := []\<rparr>)) \<Longrightarrow> sends Q (closetext env st)"
  by (auto simp: closetext_def Let_def intro!: sends_handle)

lemma sends_closetext_if_exist:
  "handler_returns env \<Longrightarrow> (\<And>h. Q (st\<lparr>sp_handler := h, sp_textNode := []\<rparr>)) \<Longrightarrow> Q st \<Longrightarrow> sends Q (closetext_if_exist env st)"
  by (auto simp: closetext_if_exist_def intro!: sends_closetext)

lemma sends_emiterror:
  "handler_returns env \<Longrightarrow> (\<And>h e. Q (st\<lparr>sp_handler := h, sp_textNode := [], sp_error := e\<rparr>)) \<Longrightarrow> sends Q (emiterror env er st)"
  by (auto simp: emiterror_def intro!: sends_closetext)

lemma sends_strictFail:
  "handler_returns env \<Longrightarrow> (\<And>h e. Q (st\<lparr>sp_handler := h, sp_textNode := [], sp_error := e\<rparr>)) \<Longrightarrow> Q st \<Longrightarrow> sends Q (strictFail env er st)"
  by (auto simp: strictFail_def intro!: sends_emiterror)

lemma sends_if: "(b \<Longrightarrow> sends Q m) \<Longrightarrow> (\<not> b \<Longrightarrow> sends Q n) \<Longrightarrow> sends Q (if b then m else n)"
  by simp

lemma sends_set_attribute:
  "(\<And>tag. Q (st\<lparr>sp_tag := tag\<rparr>)) \<Longrightarrow> Q st \<Longrightarrow> sends Q (set_attribute name v st)"
  by (auto simp: set_attribute_def split: option.splits)

lemma sends_find_open: "handler_returns env \<Longrightarrow> (\<And>found st'. Q (found, st')) \<Longrightarrow> sends Q (find_open env closeTo tags k st)"
  by (induction tags arbitrary: k st) (auto intro!: sends_strictFail)

lemma sends_close_tags: "handler_returns env \<Longrightarrow> (\<And>st'. Q st') \<Longrightarrow> sends Q (close_tags env n st)"
  by (induction n arbitrary: st) (auto simp: Let_def split: list.splits intro!: sends_closetext_if_exist sends_handle)

lemmas sends_rules = sends_handle sends_closetext sends_closetext_if_exist sends_emiterror sends_strictFail sends_set_attribute
  sends_find_open sends_close_tags sends_if

text \<open>The operations on tags lead to a state other than \<^verbatim>\<open>OPEN_WAKA\<close>, or leave the state as it is.\<close>

lemma sends_parseEntity: "handler_returns env \<Longrightarrow> (\<And>s st'. Q (s, st')) \<Longrightarrow> sends Q (parseEntity env st)"
  by (auto simp: parseEntity_def Let_def split: option.splits intro!: sends_rules)

lemma sends_attrib:
  "handler_returns env \<Longrightarrow> (\<And>st'. sp_state st' = sp_state st \<Longrightarrow> Q st') \<Longrightarrow> sends Q (attrib env st)"
  by (auto simp: attrib_def Let_def split: option.splits intro!: sends_rules)

lemma sends_openTag:
  assumes "handler_returns env" "\<And>st'. sp_state st' \<in> {SCRIPT, TEXT} \<or> selfClosing \<and> sp_state st' = sp_state st \<Longrightarrow> Q st'"
  shows "sends Q (openTag env selfClosing st)"
  using assms by (auto simp: openTag_def Let_def split: option.splits intro!: sends_rules)

lemma sends_closeTag:
  assumes "handler_returns env" "\<And>st'. sp_state st' \<in> {SCRIPT, TEXT} \<Longrightarrow> Q st'"
  shows "sends Q (closeTag env st)"
  using assms by (auto simp: closeTag_def Let_def simp del: close_tags.simps split: option.splits intro!: sends_rules)

lemmas step_defs = step_begin_def step_text_entity_def step_sgml_decl_def step_sgml_decl_quoted_def step_doctype_def step_doctype_quoted_def
  step_doctype_dtd_def step_doctype_dtd_quoted_def step_comment_def step_comment_ending_def step_comment_ended_def step_cdata_def
  step_cdata_ending_def step_cdata_ending_2_def step_proc_inst_def step_proc_inst_body_def step_proc_inst_ending_def
  step_open_tag_def step_open_tag_slash_def step_attrib_def step_attrib_name_def step_attrib_name_saw_white_def step_attrib_value_def
  step_attrib_value_quoted_def step_attrib_value_unquoted_def step_attrib_entity_def step_close_tag_def step_close_tag_saw_white_def
  step_script_def step_script_ending_def

lemma sends_sax_step:
  assumes "handler_returns env" "sp_state st \<notin> {TEXT, OPEN_WAKA}"
  shows "sends (\<lambda>st'. sp_state st' = OPEN_WAKA \<longrightarrow> c = 60 \<and> sp_startTagPosition st' = sp_position st') (sax_step env c st)"
  using assms
  by (cases "sp_state st") (simp_all add: sax_step_def step_defs newTag_def Let_def,
    auto intro!: sends_rules sends_parseEntity sends_attrib sends_openTag sends_closeTag)

text \<open>
  The inner loop of text only moves forward and stops behind the character it returns.
\<close>

lemma text_loop_stops:
  "text_loop chunk i c st = (j, c', st') \<Longrightarrow> 0 < i \<Longrightarrow> (case c of None \<Rightarrow> True | Some d \<Rightarrow> d = chunk ! (i - 1)) \<Longrightarrow>
    i \<le> j \<and> (case c' of None \<Rightarrow> True | Some d \<Rightarrow> d = chunk ! (j - 1)) \<and>
    sp_state st' = sp_state st \<and> sp_startTagPosition st' = sp_startTagPosition st"
proof (induction chunk i c st rule: text_loop.induct)
  case (1 chunk i c st)
  show ?case
  proof (cases "c = None \<or> c = Some 60 \<or> c = Some 38")
    case True
    then show ?thesis using "1.prems" by (subst (asm) text_loop.simps) auto
  next
    case False
    then obtain c0 where c: "c = Some c0" "c0 \<noteq> 60" "c0 \<noteq> 38" by auto
    let ?c = "char_at chunk i" and ?st = "case char_at chunk i of None \<Rightarrow> st | Some c \<Rightarrow> advance c st"
    have run: "text_loop chunk (i + 1) ?c ?st = (j, c', st')"
      using "1.prems"(1) c by (subst (asm) text_loop.simps) (simp add: Let_def)
    have "i + 1 \<le> j \<and> (case c' of None \<Rightarrow> True | Some d \<Rightarrow> d = chunk ! (j - 1)) \<and>
      sp_state st' = sp_state ?st \<and> sp_startTagPosition st' = sp_startTagPosition ?st"
      by (rule "1.IH" [OF c(1) _ refl run]) (use c in \<open>auto simp: char_at_def\<close>)
    then show ?thesis by (auto simp: char_at_def advance_def Let_def split: if_splits)
  qed
qed

definition no_loose_bracket :: "jsstring \<Rightarrow> bool" where
  "no_loose_bracket chunk \<longleftrightarrow> (\<forall>j. Suc j < length chunk \<longrightarrow> chunk ! j = 60 \<longrightarrow> \<not> sax_space (chunk ! Suc j))"

definition waka_ok :: "jsstring \<Rightarrow> nat \<Rightarrow> 'h SAXParser \<Rightarrow> bool" where
  "waka_ok chunk i st \<longleftrightarrow> (sp_state st = OPEN_WAKA \<longrightarrow>
    sp_startTagPosition st = sp_position st \<and> (i < length chunk \<longrightarrow> \<not> sax_space (chunk ! i)))"

lemma waka_okI:
  assumes "no_loose_bracket chunk" "sp_state st = OPEN_WAKA \<Longrightarrow> 0 < i \<and> chunk ! (i - 1) = 60 \<and> sp_startTagPosition st = sp_position st"
  shows "waka_ok chunk i st"
  using assms by (cases i) (auto simp: waka_ok_def no_loose_bracket_def)

lemma advance_simps [simp]:
  "sp_state (advance c st) = sp_state st" "sp_startTagPosition (advance c st) = sp_startTagPosition st"
  "sp_position (advance c st) = sp_position st + 1"
  by (simp_all add: advance_def Let_def)

lemma sends_step_text:
  assumes "handler_returns env" "no_loose_bracket chunk" "sp_state st = TEXT" "c = chunk ! i"
  shows "sends (\<lambda>(j, st'). i < j \<and> waka_ok chunk j st') (step_text env chunk c (i + 1) st)"
proof -
  obtain j d st1 where loop: "text_loop chunk (i + 1) (Some c) st = (j, d, st1)" by (cases "text_loop chunk (i + 1) (Some c) st")
  have "i + 1 \<le> j \<and> (case d of None \<Rightarrow> True | Some d \<Rightarrow> d = chunk ! (j - 1)) \<and> sp_state st1 = TEXT"
    using text_loop_stops [OF loop] assms by simp
  then have "sends (\<lambda>(j, st'). i < j \<and> (sp_state st' = OPEN_WAKA \<longrightarrow> 0 < j \<and> chunk ! (j - 1) = 60 \<and> sp_startTagPosition st' = sp_position st'))
      (step_text env chunk c (i + 1) st)"
    using assms loop by (auto simp: step_text_def Let_def intro!: sends_strictFail split: option.splits)
  then show ?thesis by (rule sends_mono) (auto intro: waka_okI [OF assms(2)])
qed

lemma sends_step_open_waka:
  assumes "handler_returns env" "no_loose_bracket chunk" "i < length chunk" "waka_ok chunk i st" "sp_state st = OPEN_WAKA"
  shows "sends (\<lambda>(j, st'). i < j \<and> waka_ok chunk j st') (step_open_waka env (chunk ! i) (i + 1) (advance (chunk ! i) (st\<lparr>sp_c := s\<rparr>)))"
  using assms by (auto simp: step_open_waka_def Let_def waka_ok_def advance_def intro!: sends_strictFail)

lemma sends_parse_step:
  assumes "handler_returns env" "no_loose_bracket chunk" "i < length chunk" "waka_ok chunk i st"
  shows "sends (\<lambda>(j, st'). i < j \<and> waka_ok chunk j st') (parse_step env chunk i st)"
proof -
  consider "sp_state st = TEXT" | "sp_state st = OPEN_WAKA" | "sp_state st \<noteq> TEXT" "sp_state st \<noteq> OPEN_WAKA" by blast
  then show ?thesis
  proof cases
    case 1
    then show ?thesis
      using sends_step_text [OF assms(1,2), of "advance (chunk ! i) (st\<lparr>sp_c := [chunk ! i]\<rparr>)"] by (simp add: parse_step_def Let_def)
  next
    case 2
    then show ?thesis using sends_step_open_waka [OF assms 2] by (simp add: parse_step_def Let_def)
  next
    case 3
    then have "sends (\<lambda>st'. i < i + 1 \<and> waka_ok chunk (i + 1) st') (sax_step env (chunk ! i) (advance (chunk ! i) (st\<lparr>sp_c := [chunk ! i]\<rparr>)))"
      using sends_sax_step [OF assms(1), of "advance (chunk ! i) (st\<lparr>sp_c := [chunk ! i]\<rparr>)" "chunk ! i"] assms(2)
      by (auto elim!: sends_mono intro!: waka_okI)
    then show ?thesis using 3 by (simp add: parse_step_def Let_def)
  qed
qed

lemma sends_sax_loop:
  assumes "handler_returns env" "no_loose_bracket chunk"
  shows "waka_ok chunk i st \<Longrightarrow> length chunk - i < fuel \<Longrightarrow> sends (\<lambda>_. True) (sax_loop env fuel chunk i st)"
proof (induction fuel arbitrary: i st)
  case (Suc fuel)
  show ?case
  proof (cases "i < length chunk")
    case True
    have "sends (\<lambda>(j, st'). i < j \<and> waka_ok chunk j st') (parse_step env chunk i st)"
      using sends_parse_step assms True Suc.prems by blast
    then have "sends (\<lambda>(j, st'). sends (\<lambda>_. True) (sax_loop env fuel chunk j st')) (parse_step env chunk i st)"
      by (rule sends_mono) (use Suc True in \<open>auto intro: Suc.IH\<close>)
    then show ?thesis using True by (simp add: case_prod_unfold)
  qed simp
qed simp

text \<open>Directly behind an opening bracket the chunk may not start with white space either.\<close>

definition chunk_fits :: "jsstring \<Rightarrow> 'h SAXParser \<Rightarrow> bool" where
  "chunk_fits chunk st \<longleftrightarrow> no_loose_bracket chunk \<and>
    (sp_state st = OPEN_WAKA \<longrightarrow> sp_startTagPosition st = sp_position st \<and> (chunk = [] \<or> \<not> sax_space (hd chunk)))"

lemma sends_parse:
  assumes "handler_returns env" "chunk_fits chunk st" "length chunk < fuel"
  shows "sends (\<lambda>_. True) (SAXParser_parse env fuel chunk st)"
proof -
  have "waka_ok chunk 0 st" using assms(2) by (auto simp: chunk_fits_def waka_ok_def hd_conv_nth)
  then have "sends (\<lambda>_. True) (sax_loop env fuel chunk 0 st)"
    using sends_sax_loop [OF assms(1), of chunk 0 st fuel] assms(2,3) by (simp add: chunk_fits_def)
  moreover have "sends (\<lambda>_. True) (sax_end env st')" for st'
    using assms(1) by (auto simp: sax_end_def intro!: sends_rules)
  ultimately have "sends (\<lambda>_. True) (js_bind (sax_loop env fuel chunk 0 st) (sax_end env))" by simp
  moreover have "sends (\<lambda>_. True) (emiterror env er st)" for er
    using assms(1) by (auto intro!: sends_rules)
  ultimately show ?thesis by (auto simp: SAXParser_parse_def simp del: sends_simps(3) split: option.splits)
qed

text \<open>The interface of handlers: a handler may throw, but it returns.  The parser then returns as well.\<close>

locale sax_handler =
  fixes env :: "'h sax_env"
  assumes handle_returns: "sends (\<lambda>h'. True) (env_handle env e h)"
begin

lemma handler_returns: "handler_returns env"
  by (simp add: handler_returns_def handle_returns)

lemma parse_returns:
  "no_loose_bracket chunk \<Longrightarrow> length chunk < fuel \<Longrightarrow> sends (\<lambda>_. True) (SAXParser_parse env fuel chunk (SAXParser_new h strict))"
  by (rule sends_parse [OF handler_returns]) (simp_all add: chunk_fits_def SAXParser_new_def)

end

text \<open>
  C13.  Parsing a chunk returns a parser or throws an exception, in every state of the parser and in
  both modes, if no opening angle bracket of the chunk is directly followed by white space; and if the
  parser stands directly behind an opening bracket, where the first character of the chunk decides, the
  chunk may not start with white space either.  One step for every character is enough.  The handler
  may throw, but must itself return.
\<close>

theorem SAXParser_parse_returns:
  assumes "\<And>e h. (\<exists>h'. env_handle env e h = Inr h') \<or> (\<exists>message. env_handle env e h = Inl (Throw message))"
    and "no_loose_bracket chunk" "length chunk < fuel"
    and "sp_state st = OPEN_WAKA \<Longrightarrow> sp_startTagPosition st = sp_position st \<and> (chunk = [] \<or> \<not> sax_space (hd chunk))"
  shows "(\<exists>st'. SAXParser_parse env fuel chunk st = Inr st') \<or> (\<exists>message. SAXParser_parse env fuel chunk st = Inl (Throw message))"
proof (rule sends_cases, rule sends_parse)
  have "sends (\<lambda>h'. True) (env_handle env e h)" for e h using assms(1) [of e h] by auto
  then show "handler_returns env" by (simp add: handler_returns_def)
qed (use assms in \<open>simp_all add: chunk_fits_def\<close>)

section \<open>A chunk that is read forever\<close>

lemma text_loop_plain:
  assumes "chunk ! m \<in> {60, 38}" "m < length chunk"
  shows "0 < i \<Longrightarrow> i \<le> Suc m \<Longrightarrow> (\<And>k. i \<le> Suc k \<Longrightarrow> k < m \<Longrightarrow> chunk ! k \<notin> {60, 38}) \<Longrightarrow>
    \<exists>p l n. text_loop chunk i (Some (chunk ! (i - 1))) st =
      (Suc m, Some (chunk ! m), st\<lparr>sp_position := p, sp_handler_line := l, sp_handler_column := n\<rparr>)"
proof (induction "Suc m - i" arbitrary: i st)
  case 0
  then have "i = Suc m" by simp
  moreover have "\<exists>p l n. st = st\<lparr>sp_position := p, sp_handler_line := l, sp_handler_column := n\<rparr>"
    by (intro exI [of _ "sp_position st"] exI [of _ "sp_handler_line st"] exI [of _ "sp_handler_column st"]) simp
  ultimately show ?case using assms(1) by (subst text_loop.simps) auto
next
  case (Suc d)
  have i: "0 < i" "i \<le> m" "chunk ! (i - 1) \<notin> {60, 38}" using Suc by simp_all
  let ?st = "advance (chunk ! i) st"
  have eq: "text_loop chunk i (Some (chunk ! (i - 1))) st = text_loop chunk (i + 1) (Some (chunk ! i)) ?st"
    using i assms(2) by (subst text_loop.simps) (simp add: char_at_def)
  obtain p l n where "text_loop chunk (i + 1) (Some (chunk ! i)) ?st =
      (Suc m, Some (chunk ! m), ?st\<lparr>sp_position := p, sp_handler_line := l, sp_handler_column := n\<rparr>)"
    using Suc.hyps(1) [of "i + 1" ?st] Suc.hyps(2) Suc.prems i by (auto simp: Suc_diff_le)
  then show ?case unfolding eq by (auto simp: advance_def Let_def split: if_splits)
qed

text \<open>
  The text \<^verbatim>\<open>u < c\<close> in a parser that is not strict, where \<^verbatim>\<open>c\<close> does not start a name, a declaration or a closing
  tag.  The three kinds of configurations that the parser goes through: reading \<^verbatim>\<open>u\<close>, behind the
  bracket, and behind the space.
\<close>

definition loose :: "jsstring \<Rightarrow> nat \<Rightarrow> nat \<Rightarrow> 'h SAXParser \<Rightarrow> bool" where
  "loose u c i st \<longleftrightarrow> \<not> sp_strict st \<and> \<not> sax_space c \<and> \<not> nameStart c \<and> c \<notin> {33, 47, 63} \<and> 2 \<le> length u \<and> 60 \<notin> set (drop 2 u) \<and> 38 \<notin> set (drop 2 u) \<and>
    (sp_state st = TEXT \<and> 2 \<le> i \<and> i \<le> length u \<or>
     sp_state st = OPEN_WAKA \<and> i = length u + 1 \<and> sp_position st = sp_startTagPosition st \<or>
     sp_state st = OPEN_WAKA \<and> i = length u + 2 \<and> sp_position st = sp_startTagPosition st + 1)"

lemma nth_plain: "2 \<le> k \<Longrightarrow> k < length u \<Longrightarrow> 60 \<notin> set (drop 2 u) \<Longrightarrow> 38 \<notin> set (drop 2 u) \<Longrightarrow> u ! k \<notin> {60, 38 :: nat}"
  by (cases k; cases "k - 1") (auto simp: in_set_conv_nth)

lemma loose_step_text:
  assumes "loose u c i st" "sp_state st = TEXT" "chunk = u @ [60, 32, c] @ rest"
  shows "\<exists>j st'. parse_step env chunk i st = Inr (j, st') \<and> loose u c j st'"
proof -
  have i: "2 \<le> i" "i \<le> length u" using assms by (auto simp: loose_def)
  let ?st = "advance (chunk ! i) (st\<lparr>sp_c := [chunk ! i]\<rparr>)"
  show ?thesis
  proof (cases "sp_sawRoot st \<and> \<not> sp_closedRoot st")
    case True
    have "\<exists>p l n. text_loop chunk (i + 1) (Some (chunk ! (i + 1 - 1))) ?st =
        (Suc (length u), Some (chunk ! length u), ?st\<lparr>sp_position := p, sp_handler_line := l, sp_handler_column := n\<rparr>)"
      by (rule text_loop_plain) (use assms i nth_plain [of _ u] in \<open>auto simp: loose_def nth_append\<close>)
    then show ?thesis
      using True assms by (auto simp: parse_step_def step_text_def Let_def advance_def loose_def nth_append)
  next
    case False
    then show ?thesis
      using assms i nth_plain [of i u]
      by (cases "i = length u") (auto simp: parse_step_def step_text_def Let_def advance_def loose_def strictFail_def nth_append)
  qed
qed

lemma loose_step:
  assumes "loose u c i st" "chunk = u @ [60, 32, c] @ rest"
  shows "i < length chunk \<and> (\<exists>j st'. parse_step env chunk i st = Inr (j, st') \<and> loose u c j st')"
proof (cases "sp_state st = TEXT")
  case True
  then show ?thesis using loose_step_text [OF assms(1) True assms(2)] assms by (auto simp: loose_def)
next
  case False
  then consider "i = length u + 1" | "i = length u + 2" using assms by (auto simp: loose_def)
  then show ?thesis
    using assms False
    by cases (auto simp: parse_step_def step_open_waka_def Let_def advance_def loose_def strictFail_def sax_space_def nth_append)
qed

lemma loose_diverges:
  assumes "chunk = u @ [60, 32, c] @ rest"
  shows "loose u c i st \<Longrightarrow> sax_loop env fuel chunk i st = Inl Diverge"
proof (induction fuel arbitrary: i st)
  case (Suc fuel)
  then show ?case using loose_step [OF Suc.prems assms, of env] by auto
qed simp

text \<open>
  C37.  A text with a bracket that is followed by a space and then neither by a name nor by one of the
  characters \<^verbatim>\<open>! / ?\<close> is read forever, as soon as there are two characters before it: padding the text
  sets the index of the loop back.
\<close>

theorem SAXParser_parse_loose_bracket:
  assumes "2 \<le> length u" "\<not> sax_space (hd u)" "60 \<notin> set u" "38 \<notin> set u"
    and "\<not> sax_space c" "\<not> nameStart c" "c \<notin> {33, 47, 63}"
  shows "SAXParser_parse env fuel (u @ [60, 32, c] @ rest) (SAXParser_new h False) = Inl Diverge"
proof -
  let ?chunk = "u @ [60, 32, c] @ rest" and ?st = "SAXParser_new h False"
  obtain x y v where u: "u = x # y # v" using assms(1) by (cases u; cases "tl u") auto
  have "\<exists>st. parse_step env ?chunk 0 ?st = Inr (1, st) \<and> sp_state st = TEXT \<and> \<not> sp_strict st \<and> \<not> sp_sawRoot st"
    using assms u by (simp add: parse_step_def sax_step_def step_begin_def SAXParser_new_def advance_def strictFail_def Let_def)
      (auto simp: sax_space_def)
  then obtain st where st: "parse_step env ?chunk 0 ?st = Inr (1, st)" "sp_state st = TEXT" "\<not> sp_strict st" "\<not> sp_sawRoot st" by blast
  have "\<exists>st'. parse_step env ?chunk 1 st = Inr (2, st') \<and> loose u c 2 st'"
    using assms u st(2-) by (simp add: parse_step_def step_text_def advance_def strictFail_def loose_def Let_def)
  then obtain st' where st': "parse_step env ?chunk 1 st = Inr (2, st')" "loose u c 2 st'" by blast
  have "sax_loop env fuel ?chunk 0 ?st = Inl Diverge"
    using st(1) st'(1) loose_diverges [OF refl st'(2), of env] u by (cases fuel; cases "fuel - 1") simp_all
  then show ?thesis by (simp add: SAXParser_parse_def SAXParser_new_def)
qed

text \<open>A host and a handler that keeps the events, to apply the theorems at concrete texts.\<close>

definition plain_host :: text_host where
  "plain_host = \<lparr>th_lower = id, th_upper = id, th_builtin = (\<lambda>name. js_lit ''function '' @ name @ js_lit ''() { [native code] }''),
    th_digits = (\<lambda>radix n. radix_string (n + 1) radix n), th_code = id\<rparr>"

definition event_log :: "sax_event list sax_env" where
  "event_log = \<lparr>env_handle = \<lambda>e h. Inr (h @ [e]), env_host = plain_host\<rparr>"

interpretation recorder: sax_handler event_log
  by unfold_locales (simp add: event_log_def)

theorem SAXParser_parse_returns_witness:
  "(\<exists>st'. SAXParser_parse event_log 20 (js_lit ''a b=1>c <5 d</a>'') ((SAXParser_new [] True)\<lparr>sp_state := OPEN_WAKA\<rparr>) = Inr st') \<or>
   (\<exists>message. SAXParser_parse event_log 20 (js_lit ''a b=1>c <5 d</a>'') ((SAXParser_new [] True)\<lparr>sp_state := OPEN_WAKA\<rparr>) = Inl (Throw message))"
proof (rule SAXParser_parse_returns)
  show "no_loose_bracket (js_lit ''a b=1>c <5 d</a>'')"
    by (auto simp: no_loose_bracket_def js_lit_def sax_space_def nth_Cons less_Suc_eq split: nat.splits)
qed (simp_all add: event_log_def SAXParser_new_def js_lit_def sax_space_def)

theorem SAXParser_parse_loose_bracket_witness:
  "SAXParser_parse event_log 1000 (js_lit ''ab< 5'') (SAXParser_new [] False) = Inl Diverge"
  using SAXParser_parse_loose_bracket [of "js_lit ''ab''" 53 event_log 1000 "[]" "[]"]
  by (simp add: js_lit_def sax_space_def nameStart_def)

end
