(* ===== verification/Markup.thy ===== *)
theory Markup
  imports Sax_Parser
begin

text \<open>
  Well-formed markup as a tree, its text, and the events a reader of the tree would report.  The
  parser reports exactly these events when it reads the text: parsing and printing is a round trip,
  up to the white space that the parser joins outside of \<^verbatim>\<open>pre\<close>.

  Runs of the parser are described by a big-step relation in which every step moves the index of the
  loop forward, so that the length of the chunk bounds the steps.
\<close>

section \<open>Trees and their texts\<close>

datatype markup =
    Plain jsstring
  | Element jsstring "(jsstring \<times> jsstring) list" "markup list"

definition escape_char :: "nat \<Rightarrow> jsstring" where
  "escape_char c = (if c = 38 then js_lit ''&amp;'' else if c = 60 then js_lit ''&lt;'' else if c = 34 then js_lit ''&quot;'' else [c])"

definition escape :: "jsstring \<Rightarrow> jsstring" where
  "escape s = concat (map escape_char s)"

definition show_attribute :: "jsstring \<times> jsstring \<Rightarrow> jsstring" where
  "show_attribute a = [32] @ fst a @ [61, 34] @ escape (snd a) @ [34]"

fun show_markup :: "markup \<Rightarrow> jsstring" where
  "show_markup (Plain s) = escape s"
| "show_markup (Element n as ms) =
    [60] @ n @ concat (map show_attribute as) @ [62] @ concat (map show_markup ms) @ [60, 47] @ n @ [62]"

text \<open>
  The events of a tree, where \<^verbatim>\<open>p\<close> counts the \<^verbatim>\<open>pre\<close> elements around it and \<^verbatim>\<open>b\<close> is the text read before it
  that is not reported yet.
\<close>

definition flush :: "int \<Rightarrow> jsstring \<Rightarrow> sax_event list" where
  "flush p b = (if b = [] then [] else [OnText (if p = 0 then textopts b else b)])"

definition pre_depth :: "jsstring \<Rightarrow> int \<Rightarrow> int" where
  "pre_depth n p = (if n = js_lit ''pre'' then p + 1 else p)"

fun events :: "int \<Rightarrow> jsstring \<Rightarrow> markup \<Rightarrow> sax_event list \<times> jsstring"
  and events_list :: "int \<Rightarrow> jsstring \<Rightarrow> markup list \<Rightarrow> sax_event list \<times> jsstring" where
  "events p b (Plain s) = ([], b @ s)"
| "events p b (Element n as ms) =
    (let (es, b') = events_list (pre_depth n p) [] ms
     in (flush p b @ OnOpenTag n as # es @ flush (pre_depth n p) b' @ [OnCloseTag n], []))"
| "events_list p b [] = ([], b)"
| "events_list p b (m # ms) = (let (es, b) = events p b m; (es', b) = events_list p b ms in (es @ es', b))"

definition name_ok :: "'h sax_env \<Rightarrow> jsstring \<Rightarrow> bool" where
  "name_ok env n \<longleftrightarrow> n \<noteq> [] \<and> nameStart (hd n) \<and> list_all nameBody (tl n) \<and> env_lower env n = n"

definition attributes_ok :: "'h sax_env \<Rightarrow> (jsstring \<times> jsstring) list \<Rightarrow> bool" where
  "attributes_ok env as \<longleftrightarrow> list_all (\<lambda>a. name_ok env (fst a) \<and> fst a \<noteq> js_lit ''__proto__'') as \<and> distinct (map fst as)"

fun markup_ok :: "'h sax_env \<Rightarrow> markup \<Rightarrow> bool" where
  "markup_ok env (Plain s) = True"
| "markup_ok env (Element n as ms) \<longleftrightarrow>
    name_ok env n \<and> n \<noteq> js_lit ''script'' \<and> attributes_ok env as \<and> list_all (markup_ok env) ms"

section \<open>Runs of the parser\<close>

inductive runs :: "'h sax_env \<Rightarrow> jsstring \<Rightarrow> nat \<Rightarrow> 'h SAXParser \<Rightarrow> 'h SAXParser js \<Rightarrow> bool" for env chunk where
  finish: "length chunk \<le> i \<Longrightarrow> runs env chunk i st (Inr (st\<lparr>sp_c := []\<rparr>))"
| fail: "i < length chunk \<Longrightarrow> parse_step env chunk i st = Inl e \<Longrightarrow> runs env chunk i st (Inl e)"
| step: "i < length chunk \<Longrightarrow> parse_step env chunk i st = Inr (j, st') \<Longrightarrow> i < j \<Longrightarrow> runs env chunk j st' r \<Longrightarrow> runs env chunk i st r"

lemma runs_sax_loop: "runs env chunk i st r \<Longrightarrow> length chunk - i < fuel \<Longrightarrow> sax_loop env fuel chunk i st = r"
proof (induction arbitrary: fuel rule: runs.induct)
  case (finish i st)
  then show ?case by (cases fuel) auto
next
  case (fail i st e)
  then show ?case by (cases fuel) auto
next
  case (step i st j st' r)
  then show ?case by (cases fuel) auto
qed

text \<open>The events reported to a handler, one after the other.\<close>

definition report :: "'h sax_env \<Rightarrow> 'h \<Rightarrow> sax_event list \<Rightarrow> 'h js" where
  "report env h es = js_fold (\<lambda>h e. env_handle env e h) h es"

lemma report_simps [simp]:
  "report env h [] = Inr h"
  "report env h (e # es) = js_bind (env_handle env e h) (\<lambda>h. report env h es)"
  "report env h (es @ es') = js_bind (report env h es) (\<lambda>h. report env h es')"
  by (simp_all add: report_def js_fold_append)

text \<open>
  \<^verbatim>\<open>reads env chunk i st es j Q\<close>: from the index \<^verbatim>\<open>i\<close> the parser reports the events \<^verbatim>\<open>es\<close> and comes to the index
  \<^verbatim>\<open>j\<close> in a state that satisfies \<^verbatim>\<open>Q\<close>, or the handler throws.
\<close>

definition reads :: "'h sax_env \<Rightarrow> jsstring \<Rightarrow> nat \<Rightarrow> 'h SAXParser \<Rightarrow> sax_event list \<Rightarrow> nat \<Rightarrow> ('h SAXParser \<Rightarrow> bool) \<Rightarrow> bool" where
  "reads env chunk i st es j Q \<longleftrightarrow> (case report env (sp_handler st) es of
      Inl e \<Rightarrow> runs env chunk i st (Inl e)
    | Inr h \<Rightarrow> \<exists>st'. sp_handler st' = h \<and> Q st' \<and> (\<forall>r. runs env chunk j st' r \<longrightarrow> runs env chunk i st r))"

lemma reads_done: "Q st \<Longrightarrow> i = j \<Longrightarrow> reads env chunk i st [] j Q"
  by (auto simp: reads_def)

lemma reads_seq:
  assumes "reads env chunk i st es j P" "\<And>st'. P st' \<Longrightarrow> reads env chunk j st' es' k Q"
  shows "reads env chunk i st (es @ es') k Q"
proof (cases "report env (sp_handler st) es")
  case (Inl e)
  then show ?thesis using assms(1) by (simp add: reads_def)
next
  case (Inr h)
  then obtain st' where st': "sp_handler st' = h" "P st'" "\<And>r. runs env chunk j st' r \<Longrightarrow> runs env chunk i st r"
    using assms(1) by (auto simp: reads_def)
  have "reads env chunk j st' es' k Q" by (rule assms(2) [OF st'(2)])
  then show ?thesis using Inr st' by (auto simp: reads_def split: sum.splits)
qed

lemma reads_conseq: "reads env chunk i st es j P \<Longrightarrow> (\<And>st'. P st' \<Longrightarrow> Q st') \<Longrightarrow> reads env chunk i st es j Q"
  by (auto simp: reads_def split: sum.splits)

lemma reads_emit:
  assumes "i < length chunk" "parse_step env chunk i st = js_bind (report env (sp_handler st) es) (\<lambda>h. Inr (Suc i, f h))"
    and "\<And>h. sp_handler (f h) = h" "\<And>h. reads env chunk (Suc i) (f h) es' j Q"
  shows "reads env chunk i st (es @ es') j Q"
proof (cases "report env (sp_handler st) es")
  case (Inl e)
  then show ?thesis using assms(1,2) by (auto simp: reads_def intro: runs.fail)
next
  case (Inr h)
  then have "runs env chunk (Suc i) (f h) r \<Longrightarrow> runs env chunk i st r" for r
    using assms(1,2) by (auto intro: runs.step)
  then show ?thesis using Inr assms(3) assms(4) [of h] by (auto simp: reads_def split: sum.splits)
qed

lemma reads_step:
  assumes "i < length chunk" "parse_step env chunk i st = Inr (Suc i, st')"
    and "sp_handler st' = sp_handler st" "reads env chunk (Suc i) st' es j Q"
  shows "reads env chunk i st es j Q"
  using assms by (auto simp: reads_def split: sum.splits intro: runs.step)

section \<open>One character at a time\<close>

lemma drop_eq_Cons: "drop i xs = x # ys \<Longrightarrow> i < length xs \<and> xs ! i = x \<and> drop (Suc i) xs = ys"
  by (metis Cons_nth_drop_Suc drop_eq_Nil linorder_not_less list.distinct(1) list.inject)

lemma drop_append_eq: "drop i xs = ys @ zs \<Longrightarrow> drop (i + length ys) xs = zs"
  by (metis add.commute append_eq_conv_conj drop_drop)

lemma reads_char:
  assumes "drop i chunk = c # rest"
    and "case parse_step env chunk i st of Inl e \<Rightarrow> False
      | Inr (k, st') \<Rightarrow> k = Suc i \<and> sp_handler st' = sp_handler st \<and> reads env chunk (Suc i) st' es j Q"
  shows "reads env chunk i st es j Q"
proof -
  obtain st' where "parse_step env chunk i st = Inr (Suc i, st')" "sp_handler st' = sp_handler st" "reads env chunk (Suc i) st' es j Q"
    using assms(2) by (auto split: sum.splits prod.splits)
  then show ?thesis using drop_eq_Cons [OF assms(1)] by (blast intro: reads_step)
qed

lemma closetext_if_exist_report:
  "closetext_if_exist env st = js_bind (report env (sp_handler st) (flush (sp_preTags st) (sp_textNode st)))
    (\<lambda>h. Inr (st\<lparr>sp_handler := h, sp_textNode := []\<rparr>))"
proof -
  have "collapse s = [] \<longleftrightarrow> s = []" for s by (cases s) simp_all
  then have "textopts s = [] \<longleftrightarrow> s = []" for s by (simp add: textopts_def)
  then show ?thesis by (simp add: closetext_if_exist_def closetext_def flush_def Let_def js_bind_def split: sum.splits)
qed

text \<open>What stays the same while one part of the markup is read.\<close>

definition core :: "bool \<Rightarrow> jsstring list \<Rightarrow> int \<Rightarrow> jsstring \<Rightarrow> 'h SAXParser \<Rightarrow> bool" where
  "core w ts p b st \<longleftrightarrow> \<not> sp_strict st \<and> sp_sawRoot st = w \<and> \<not> sp_closedRoot st \<and> map tag_name (sp_tags st) = ts \<and> sp_preTags st = p \<and>
    sp_textNode st = b \<and> sp_script st = [] \<and> sp_entity st = [] \<and> sp_error st = None \<and> \<not> sp_closed st"

lemma advance_fields [simp]:
  "sp_handler (advance c st) = sp_handler st" "sp_q (advance c st) = sp_q st" "sp_tags (advance c st) = sp_tags st"
  "sp_closed (advance c st) = sp_closed st" "sp_closedRoot (advance c st) = sp_closedRoot st" "sp_sawRoot (advance c st) = sp_sawRoot st"
  "sp_tag (advance c st) = sp_tag st" "sp_error (advance c st) = sp_error st" "sp_strict (advance c st) = sp_strict st"
  "sp_tagName (advance c st) = sp_tagName st" "sp_attribName (advance c st) = sp_attribName st"
  "sp_attribValue (advance c st) = sp_attribValue st" "sp_script (advance c st) = sp_script st" "sp_textNode (advance c st) = sp_textNode st"
  "sp_noscript (advance c st) = sp_noscript st" "sp_entity (advance c st) = sp_entity st" "sp_preTags (advance c st) = sp_preTags st"
  by (simp_all add: advance_def Let_def)

lemma core_updates [simp]:
  "core w ts p b (advance c st) = core w ts p b st" "core w ts p b (st\<lparr>sp_c := s\<rparr>) = core w ts p b st"
  "core w ts p b (st\<lparr>sp_q := s\<rparr>) = core w ts p b st" "core w ts p b (st\<lparr>sp_state := q\<rparr>) = core w ts p b st"
  "core w ts p b (st\<lparr>sp_tagName := s\<rparr>) = core w ts p b st" "core w ts p b (st\<lparr>sp_tag := t\<rparr>) = core w ts p b st"
  "core w ts p b (st\<lparr>sp_attribName := s\<rparr>) = core w ts p b st" "core w ts p b (st\<lparr>sp_attribValue := s\<rparr>) = core w ts p b st"
  "core w ts p b (st\<lparr>sp_startTagPosition := n\<rparr>) = core w ts p b st" "core w ts p b (st\<lparr>sp_handler := h\<rparr>) = core w ts p b st"
  by (simp_all add: core_def)

lemma coreD: "core w ts p b st \<Longrightarrow> \<not> sp_strict st \<and> sp_sawRoot st = w \<and> \<not> sp_closedRoot st \<and> map tag_name (sp_tags st) = ts \<and> sp_preTags st = p \<and>
    sp_textNode st = b \<and> sp_script st = [] \<and> sp_entity st = [] \<and> sp_error st = None \<and> \<not> sp_closed st"
  by (simp add: core_def)

lemmas char_simps = parse_step_def sax_step_def Let_def strictFail_def

subsection \<open>Names\<close>

lemma nameBody_special: "nameBody c \<Longrightarrow> c \<notin> {60, 61, 62, 47, 32, 34, 38} \<and> \<not> sax_space c"
  by (auto simp: nameBody_def nameStart_def sax_space_def)

lemma nameStart_special: "nameStart c \<Longrightarrow> c \<notin> {60, 61, 62, 47, 32, 33, 34, 38, 63} \<and> \<not> sax_space c"
  by (auto simp: nameStart_def sax_space_def)

text \<open>Reading a text character by character, each written as \<^verbatim>\<open>code c\<close>.\<close>

lemma reads_run:
  assumes "\<And>u c v i st. s = u @ c # v \<Longrightarrow> I u st \<Longrightarrow> drop i chunk = code c @ concat (map code v) @ rest \<Longrightarrow>
      reads env chunk i st [] (i + length (code c)) (I (u @ [c]))"
  shows "s = u @ v \<Longrightarrow> I u st \<Longrightarrow> drop i chunk = concat (map code v) @ rest \<Longrightarrow>
      reads env chunk i st [] (i + length (concat (map code v))) (I s)"
proof (induction v arbitrary: u i st)
  case (Cons c v)
  have d: "drop (i + length (code c)) chunk = concat (map code v) @ rest"
    using drop_append_eq [OF Cons.prems(3) [simplified]] by simp
  have "reads env chunk i st [] (i + length (code c)) (I (u @ [c]))"
    using assms Cons.prems by simp
  moreover have "reads env chunk (i + length (code c)) st' [] (i + length (concat (map code (c # v)))) (I s)" if "I (u @ [c]) st'" for st'
    using Cons.IH [OF _ that d] Cons.prems(1) by (simp add: add.assoc)
  ultimately show ?case using reads_seq [of env chunk i st "[]" _ _ "[]"] by simp
qed (simp add: reads_done)

lemma concat_singletons: "concat (map (\<lambda>c. [c]) s) = s"
  by (induction s) simp_all

lemmas reads_word = reads_run [where code = "\<lambda>c. [c]" and u = "[]", unfolded concat_singletons, simplified]

lemma reads_tag_name:
  fixes st :: "'h SAXParser"
  assumes "list_all nameBody s" "drop i chunk = s @ rest" "core w ts p b st" "sp_state st = OPEN_TAG"
  shows "reads env chunk i st [] (i + length s) (\<lambda>st'. core w ts p b st' \<and> sp_state st' = OPEN_TAG \<and> sp_tagName st' = sp_tagName st @ s)"
proof (rule reads_word [where I = "\<lambda>u st'. core w ts p b st' \<and> sp_state st' = OPEN_TAG \<and> sp_tagName st' = sp_tagName st @ u"])
  fix u c v i and st' :: "'h SAXParser"
  assume a: "s = u @ c # v" "core w ts p b st' \<and> sp_state st' = OPEN_TAG \<and> sp_tagName st' = sp_tagName st @ u" "drop i chunk = c # v @ rest"
  show "reads env chunk i st' [] (Suc i) (\<lambda>st'. core w ts p b st' \<and> sp_state st' = OPEN_TAG \<and> sp_tagName st' = sp_tagName st @ u @ [c])"
    by (rule reads_char [OF a(3)]) (use a assms(1) drop_eq_Cons [OF a(3)] in \<open>simp add: char_simps step_open_tag_def reads_done\<close>)
qed (use assms in auto)

lemma reads_attribute_name:
  fixes st :: "'h SAXParser"
  assumes "list_all nameBody s" "drop i chunk = s @ rest" "core w ts p b st" "sp_state st = ATTRIB_NAME"
  shows "reads env chunk i st [] (i + length s) (\<lambda>st'. core w ts p b st' \<and> sp_state st' = ATTRIB_NAME \<and>
    sp_attribName st' = sp_attribName st @ s \<and> sp_attribValue st' = sp_attribValue st \<and> sp_tag st' = sp_tag st \<and> sp_tagName st' = sp_tagName st)"
    (is "reads _ _ _ _ _ _ (?I s)")
proof (rule reads_word [where I = ?I])
  fix u c v i and st' :: "'h SAXParser"
  assume a: "s = u @ c # v" "?I u st'" "drop i chunk = c # v @ rest"
  show "reads env chunk i st' [] (Suc i) (?I (u @ [c]))"
    by (rule reads_char [OF a(3)])
      (use a assms(1) drop_eq_Cons [OF a(3)] nameBody_special [of c] in \<open>simp add: char_simps step_attrib_name_def reads_done\<close>)
qed (use assms in auto)

lemma reads_close_name:
  fixes st :: "'h SAXParser"
  assumes "list_all nameBody s" "drop i chunk = s @ rest" "core w ts p b st" "sp_state st = CLOSE_TAG" "sp_tagName st \<noteq> []"
  shows "reads env chunk i st [] (i + length s) (\<lambda>st'. core w ts p b st' \<and> sp_state st' = CLOSE_TAG \<and> sp_tagName st' = sp_tagName st @ s)"
    (is "reads _ _ _ _ _ _ (?I s)")
proof (rule reads_word [where I = ?I])
  fix u c v i and st' :: "'h SAXParser"
  assume a: "s = u @ c # v" "?I u st'" "drop i chunk = c # v @ rest"
  show "reads env chunk i st' [] (Suc i) (?I (u @ [c]))"
    by (rule reads_char [OF a(3)])
      (use a assms(1,5) drop_eq_Cons [OF a(3)] nameBody_special [of c] in \<open>simp add: char_simps step_close_tag_def reads_done\<close>)
qed (use assms in auto)

subsection \<open>Attribute values and text\<close>

text \<open>The three entities that occur in what is printed.\<close>

lemma get_entity_printed:
  "get_entity host (js_lit ''amp'') = Some [38]" "get_entity host (js_lit ''lt'') = Some [60]" "get_entity host (js_lit ''quot'') = Some [34]"
  by (simp_all add: get_entity_def entity_list_def entity_codes_def js_lit_def)

lemma escape_char_cases:
  obtains "escape_char c = [c]" "c \<notin> {34, 38, 60}"
  | e where "escape_char c = 38 # e @ [59]" "\<And>host. get_entity host e = Some [c]" "list_all entity_char e" "59 \<notin> set e"
proof (cases "c \<in> {34, 38, 60}")
  case True
  have "escape_char c = 38 # (if c = 38 then js_lit ''amp'' else if c = 60 then js_lit ''lt'' else js_lit ''quot'') @ [59]"
    using True by (auto simp: escape_char_def js_lit_def)
  then show ?thesis
    by (rule that(2)) (use True get_entity_printed in \<open>auto simp: js_lit_def entity_char_def\<close>)
qed (auto simp: escape_char_def intro: that(1))

text \<open>The characters of an entity, and the character it stands for.\<close>

lemma reads_text_entity:
  fixes st :: "'h SAXParser"
  assumes "list_all entity_char e" "59 \<notin> set e" "\<And>host. get_entity host e = Some [x]" "drop i chunk = e @ 59 # rest"
    and "core w ts p b st" "sp_state st = TEXT_ENTITY"
  shows "reads env chunk i st [] (Suc (i + length e)) (\<lambda>st'. core w ts p (b @ [x]) st' \<and> sp_state st' = TEXT)"
proof -
  let ?I = "\<lambda>u st'. core w ts p b (st'\<lparr>sp_entity := []\<rparr>) \<and> sp_state st' = TEXT_ENTITY \<and> sp_entity st' = u"
  have run: "reads env chunk i st [] (i + length e) (?I e)"
  proof (rule reads_word [where I = ?I])
    fix u c v i and st' :: "'h SAXParser"
    assume a: "e = u @ c # v" "?I u st'" "drop i chunk = c # v @ 59 # rest"
    show "reads env chunk i st' [] (Suc i) (?I (u @ [c]))"
      by (rule reads_char [OF a(3)])
        (use a assms(1,2) drop_eq_Cons [OF a(3)] in \<open>auto simp: char_simps step_text_entity_def core_def intro: reads_done\<close>)
  qed (use assms in \<open>auto simp: core_def\<close>)
  have d: "drop (i + length e) chunk = 59 # rest" using drop_append_eq [OF assms(4)] .
  have "reads env chunk (i + length e) st' [] (Suc (i + length e)) (\<lambda>st'. core w ts p (b @ [x]) st' \<and> sp_state st' = TEXT)"
    if "?I e st'" for st' :: "'h SAXParser"
    by (rule reads_char [OF d])
      (use that assms(3) drop_eq_Cons [OF d] in \<open>auto simp: char_simps step_text_entity_def parseEntity_def core_def intro: reads_done\<close>)
  then show ?thesis using reads_seq [OF run, of "[]"] by simp
qed

lemma reads_attribute_entity:
  fixes st :: "'h SAXParser"
  assumes "list_all entity_char e" "59 \<notin> set e" "\<And>host. get_entity host e = Some [x]" "drop i chunk = e @ 59 # rest"
    and "core w ts p b st" "sp_state st = ATTRIB_VALUE_ENTITY_Q"
  shows "reads env chunk i st [] (Suc (i + length e)) (\<lambda>st'. core w ts p b st' \<and> sp_state st' = ATTRIB_VALUE_QUOTED \<and> sp_q st' = sp_q st \<and>
    sp_attribValue st' = sp_attribValue st @ [x] \<and> sp_attribName st' = sp_attribName st \<and> sp_tag st' = sp_tag st \<and> sp_tagName st' = sp_tagName st)"
    (is "reads _ _ _ _ _ _ ?Q")
proof -
  let ?I = "\<lambda>u st'. core w ts p b (st'\<lparr>sp_entity := []\<rparr>) \<and> sp_state st' = ATTRIB_VALUE_ENTITY_Q \<and> sp_entity st' = u \<and> sp_q st' = sp_q st \<and>
    sp_attribValue st' = sp_attribValue st \<and> sp_attribName st' = sp_attribName st \<and> sp_tag st' = sp_tag st \<and> sp_tagName st' = sp_tagName st"
  have run: "reads env chunk i st [] (i + length e) (?I e)"
  proof (rule reads_word [where I = ?I])
    fix u c v i and st' :: "'h SAXParser"
    assume a: "e = u @ c # v" "?I u st'" "drop i chunk = c # v @ 59 # rest"
    show "reads env chunk i st' [] (Suc i) (?I (u @ [c]))"
      by (rule reads_char [OF a(3)])
        (use a assms(1,2) drop_eq_Cons [OF a(3)] in \<open>auto simp: char_simps step_attrib_entity_def core_def intro: reads_done\<close>)
  qed (use assms in \<open>auto simp: core_def\<close>)
  have d: "drop (i + length e) chunk = 59 # rest" using drop_append_eq [OF assms(4)] .
  have "reads env chunk (i + length e) st' [] (Suc (i + length e)) ?Q" if "?I e st'" for st' :: "'h SAXParser"
    by (rule reads_char [OF d])
      (use that assms(3) drop_eq_Cons [OF d] in \<open>auto simp: char_simps step_attrib_entity_def parseEntity_def core_def intro: reads_done\<close>)
  then show ?thesis using reads_seq [OF run, of "[]"] by simp
qed

lemma reads_attribute_value:
  fixes st :: "'h SAXParser"
  assumes "drop i chunk = escape v @ rest" "core w ts p b st" "sp_state st = ATTRIB_VALUE_QUOTED" "sp_q st = [34]"
  shows "reads env chunk i st [] (i + length (escape v)) (\<lambda>st'. core w ts p b st' \<and> sp_state st' = ATTRIB_VALUE_QUOTED \<and> sp_q st' = [34] \<and>
    sp_attribValue st' = sp_attribValue st @ v \<and> sp_attribName st' = sp_attribName st \<and> sp_tag st' = sp_tag st \<and> sp_tagName st' = sp_tagName st)"
    (is "reads _ _ _ _ _ _ (?I v)")
  unfolding escape_def
proof (rule reads_run [where I = ?I and u = "[]"])
  fix u c z i and st' :: "'h SAXParser"
  assume a: "v = u @ c # z" "?I u st'" and d: "drop i chunk = escape_char c @ concat (map escape_char z) @ rest"
  show "reads env chunk i st' [] (i + length (escape_char c)) (?I (u @ [c]))"
  proof (cases c rule: escape_char_cases)
    case 1
    then have d': "drop i chunk = c # concat (map escape_char z) @ rest" using d by simp
    show ?thesis unfolding 1
      by (rule reads_char [OF d']) (use a 1 drop_eq_Cons [OF d'] in \<open>simp add: char_simps step_attrib_value_quoted_def reads_done\<close>)
  next
    case (2 e)
    then have d1: "drop i chunk = 38 # e @ 59 # concat (map escape_char z) @ rest" using d by simp
    note d2 = drop_eq_Cons [OF d1]
    have "reads env chunk (Suc i) (advance 38 (st'\<lparr>sp_c := [38]\<rparr>)\<lparr>sp_state := ATTRIB_VALUE_ENTITY_Q\<rparr>) [] (Suc (Suc i + length e)) (?I (u @ [c]))"
      by (rule reads_conseq, rule reads_attribute_entity [OF 2(3,4,2)]) (use a d2 in auto)
    then show ?thesis
      by (intro reads_char [OF d1]) (use a 2 d2 in \<open>simp add: char_simps step_attrib_value_quoted_def\<close>)
  qed
qed (use assms in \<open>auto simp: escape_def\<close>)

text \<open>
  Inside the root element a run of text is read in one step.  It has the same effect as reading its
  first character alone: the fields \<^verbatim>\<open>textNode\<close> and \<^verbatim>\<open>c\<close> do not matter to the inner loop, and \<^verbatim>\<open>c\<close> is
  overwritten by the next step.
\<close>

lemma parse_step_c: "parse_step env chunk i (st\<lparr>sp_c := s\<rparr>) = parse_step env chunk i st"
  by (simp add: parse_step_def)

lemma runs_c: "runs env chunk i (st\<lparr>sp_c := s\<rparr>) r \<Longrightarrow> runs env chunk i (st\<lparr>sp_c := s'\<rparr>) r"
  by (erule runs.cases) (auto simp: parse_step_c intro: runs.intros runs.finish [where st = "st\<lparr>sp_c := s'\<rparr>", simplified])

lemma text_loop_update:
  "text_loop chunk i c (st\<lparr>sp_textNode := x, sp_c := y\<rparr>) =
    (let (j, d, st') = text_loop chunk i c st in (j, d, st'\<lparr>sp_textNode := x, sp_c := y\<rparr>))"
proof (induction chunk i c st rule: text_loop.induct)
  case (1 chunk i c st)
  have adv: "advance a (st\<lparr>sp_textNode := x, sp_c := y\<rparr>) = advance a st\<lparr>sp_textNode := x, sp_c := y\<rparr>" for a
    by (simp add: advance_def Let_def)
  show ?case
  proof (cases "c = None \<or> c = Some 60 \<or> c = Some 38")
    case True
    then show ?thesis by (subst (1 2) text_loop.simps) auto
  next
    case False
    then obtain c0 where c: "c = Some c0" "\<not> (c0 = 60 \<or> c0 = 38)" by auto
    note IH = "1" [OF c(1,2) refl]
    show ?thesis using c IH by (subst (1 2) text_loop.simps) (cases "char_at chunk i"; simp add: adv)
  qed
qed

lemma text_loop_keeps: "text_loop chunk i c st = (j, d, st') \<Longrightarrow>
    i \<le> j \<and> sp_textNode st' = sp_textNode st \<and> sp_sawRoot st' = sp_sawRoot st \<and> sp_closedRoot st' = sp_closedRoot st \<and> sp_handler st' = sp_handler st"
proof (induction chunk i c st rule: text_loop.induct)
  case (1 chunk i c st)
  show ?case
  proof (cases "c = None \<or> c = Some 60 \<or> c = Some 38")
    case True
    then show ?thesis using "1.prems" by (subst (asm) text_loop.simps) auto
  next
    case False
    then obtain c0 where c: "c = Some c0" "\<not> (c0 = 60 \<or> c0 = 38)" by auto
    show ?thesis
      using "1.IH" [OF c(1,2) refl] "1.prems" c by (subst (asm) (2) text_loop.simps) (auto simp: Let_def split: option.splits)
  qed
qed

lemma reads_text_plain:
  fixes st :: "'h SAXParser"
  assumes d: "drop i chunk = c # d # rest" and c: "c \<notin> {60, 38}" and st: "core True ts p b st" "sp_state st = TEXT"
  shows "reads env chunk i st [] (Suc i) (\<lambda>st'. core True ts p (b @ [c]) st' \<and> sp_state st' = TEXT)"
proof -
  let ?s = "advance c (st\<lparr>sp_c := [c]\<rparr>)"
  let ?st = "?s\<lparr>sp_textNode := b @ [c], sp_c := [d]\<rparr>"
  have i: "i < length chunk" "chunk ! i = c" "Suc i < length chunk" "chunk ! Suc i = d"
    using drop_eq_Cons [OF d] drop_eq_Cons [of "Suc i" chunk d rest] by simp_all
  obtain j x s' where loop: "text_loop chunk (Suc (Suc i)) (Some d) (advance d ?s) = (j, x, s')"
    by (cases "text_loop chunk (Suc (Suc i)) (Some d) (advance d ?s)")
  have keeps: "Suc (Suc i) \<le> j" "sp_textNode s' = b" "sp_sawRoot s'" "\<not> sp_closedRoot s'"
    using text_loop_keeps [OF loop] coreD [OF st(1)] by simp_all
  have 1: "text_loop chunk (Suc i) (Some c) ?s = (j, x, s')"
    using loop c i by (subst text_loop.simps) (simp add: char_at_def)
  have "advance d (?s\<lparr>sp_textNode := b @ [c], sp_c := [d]\<rparr>) = advance d ?s\<lparr>sp_textNode := b @ [c], sp_c := [d]\<rparr>"
    by (simp add: advance_def Let_def)
  then have 2: "text_loop chunk (Suc (Suc i)) (Some d) (advance d ?st) = (j, x, s'\<lparr>sp_textNode := b @ [c], sp_c := [d]\<rparr>)"
    by (simp only: text_loop_update loop) simp
  have take: "take (j - Suc i) (drop i chunk) = c # take (j - Suc (Suc i)) (drop (Suc i) chunk)"
    using d keeps(1) drop_eq_Cons [OF d] by (simp add: take_Cons' )
  have "\<exists>f. parse_step env chunk i st = Inr (j, f) \<and> parse_step env chunk (Suc i) ?st = Inr (j, f\<lparr>sp_c := [d]\<rparr>)"
    using 1 2 i keeps take st coreD [OF st(1)] by (auto simp: parse_step_def step_text_def Let_def)
  then obtain f where f: "parse_step env chunk i st = Inr (j, f)" "parse_step env chunk (Suc i) ?st = Inr (j, f\<lparr>sp_c := [d]\<rparr>)" by blast
  have "runs env chunk (Suc i) ?st r \<Longrightarrow> runs env chunk i st r" for r
  proof (erule runs.cases)
    fix i' st1 j' st' r'
    assume a: "Suc i = i'" "?st = st1" "r = r'" "parse_step env chunk i' st1 = Inr (j', st')" "runs env chunk j' st' r'"
    then have "runs env chunk j (f\<lparr>sp_c := [d]\<rparr>) r" using f(2) by auto
    then have "runs env chunk j (f\<lparr>sp_c := sp_c f\<rparr>) r" by (rule runs_c)
    then show "runs env chunk i st r" using f(1) i(1) keeps(1) by (auto intro: runs.step)
  qed (use i f in auto)
  moreover have "core True ts p (b @ [c]) ?st" "sp_state ?st = TEXT" "sp_handler ?st = sp_handler st"
    using st by (simp_all add: core_def)
  ultimately show ?thesis unfolding reads_def by (auto intro!: exI [of _ ?st])
qed

lemma reads_text_bracket:
  assumes "drop i chunk = 60 # rest" "core True ts p b st" "sp_state st = TEXT"
    and "\<And>st'. core True ts p b st' \<Longrightarrow> sp_state st' = OPEN_WAKA \<Longrightarrow> reads env chunk (Suc i) st' es j Q"
  shows "reads env chunk i st es j Q"
proof (rule reads_char [OF assms(1)])
  have "text_loop chunk (Suc i) (Some 60) (advance 60 (st\<lparr>sp_c := [60]\<rparr>)) = (Suc i, Some 60, advance 60 (st\<lparr>sp_c := [60]\<rparr>))"
    by (subst text_loop.simps) simp
  then show "case parse_step env chunk i st of Inl e \<Rightarrow> False
      | Inr (k, st') \<Rightarrow> k = Suc i \<and> sp_handler st' = sp_handler st \<and> reads env chunk (Suc i) st' es j Q"
    using assms(2-) drop_eq_Cons [OF assms(1)] coreD [OF assms(2)]
    by (auto simp: parse_step_def step_text_def core_def intro!: assms(4))
qed

lemma reads_text:
  fixes st :: "'h SAXParser"
  assumes "drop i chunk = escape s @ d # rest" "core True ts p b st" "sp_state st = TEXT"
  shows "reads env chunk i st [] (i + length (escape s)) (\<lambda>st'. core True ts p (b @ s) st' \<and> sp_state st' = TEXT)"
    (is "reads _ _ _ _ _ _ (?I s)")
  unfolding escape_def
proof (rule reads_run [where I = ?I and u = "[]"])
  fix u c z i and st' :: "'h SAXParser"
  assume a: "s = u @ c # z" "?I u st'" and dr: "drop i chunk = escape_char c @ concat (map escape_char z) @ d # rest"
  show "reads env chunk i st' [] (i + length (escape_char c)) (?I (u @ [c]))"
  proof (cases c rule: escape_char_cases)
    case 1
    then obtain x y where d': "drop i chunk = c # x # y" using dr by (cases "concat (map escape_char z) @ d # rest") auto
    show ?thesis using reads_text_plain [OF d', of ts p "b @ u" st'] a 1 by simp
  next
    case (2 e)
    then have d1: "drop i chunk = 38 # e @ 59 # concat (map escape_char z) @ d # rest" using dr by simp
    note d2 = drop_eq_Cons [OF d1]
    let ?st = "advance 38 (st'\<lparr>sp_c := [38]\<rparr>)"
    have loop: "text_loop chunk (Suc i) (Some 38) ?st = (Suc i, Some 38, ?st)"
      by (subst text_loop.simps) simp
    have "reads env chunk (Suc i) (?st\<lparr>sp_state := TEXT_ENTITY\<rparr>) [] (Suc (Suc i + length e)) (?I (u @ [c]))"
      by (rule reads_conseq, rule reads_text_entity [OF 2(3,4,2)]) (use a d2 in auto)
    moreover have "?st\<lparr>sp_textNode := sp_textNode st', sp_state := TEXT_ENTITY\<rparr> = ?st\<lparr>sp_state := TEXT_ENTITY\<rparr>"
      by (simp add: advance_def Let_def)
    ultimately show ?thesis
      by (intro reads_char [OF d1]) (use a 2 d2 loop coreD [of True ts p "b @ u" st'] in \<open>simp add: parse_step_def step_text_def\<close>)
  qed
qed (use assms in \<open>auto simp: escape_def\<close>)

subsection \<open>Tags\<close>

lemma reads_then:
  assumes "reads env chunk i st [] j P" "\<And>st'. P st' \<Longrightarrow> reads env chunk j st' es k Q"
  shows "reads env chunk i st es k Q"
  using reads_seq [OF assms] by simp

lemma update_new: "a \<notin> fst ` set as \<Longrightarrow> AList.update a v as = as @ [(a, v)]"
  by (induction as) auto

definition tagged :: "jsstring \<Rightarrow> (jsstring \<times> jsstring) list \<Rightarrow> 'h SAXParser \<Rightarrow> bool" where
  "tagged n as st \<longleftrightarrow> sp_tag st = Some \<lparr>tag_name = n, tag_attributes = as, tag_isSelfClosing = False\<rparr> \<and> sp_tagName st = n"

lemma reads_attribute_start:
  assumes "drop i chunk = c # rest" "nameStart c" "core w ts p b st" "sp_state st = ATTRIB"
    and "\<And>st'. core w ts p b st' \<Longrightarrow> sp_state st' = ATTRIB_NAME \<Longrightarrow> sp_attribName st' = [c] \<Longrightarrow> sp_attribValue st' = [] \<Longrightarrow>
      sp_tag st' = sp_tag st \<Longrightarrow> sp_tagName st' = sp_tagName st \<Longrightarrow> reads env chunk (Suc i) st' es j Q"
  shows "reads env chunk i st es j Q"
  by (rule reads_char [OF assms(1)])
    (use assms(2-4) drop_eq_Cons [OF assms(1)] nameStart_special [OF assms(2)] in \<open>simp add: char_simps step_attrib_def assms(5)\<close>)

lemma reads_attribute_equals:
  assumes "drop i chunk = 61 # 34 # rest" "core w ts p b st" "sp_state st = ATTRIB_NAME"
    and "\<And>st'. core w ts p b st' \<Longrightarrow> sp_state st' = ATTRIB_VALUE_QUOTED \<Longrightarrow> sp_q st' = [34] \<Longrightarrow> sp_attribName st' = sp_attribName st \<Longrightarrow>
      sp_attribValue st' = sp_attribValue st \<Longrightarrow> sp_tag st' = sp_tag st \<Longrightarrow> sp_tagName st' = sp_tagName st \<Longrightarrow>
      reads env chunk (Suc (Suc i)) st' es j Q"
  shows "reads env chunk i st es j Q"
proof (rule reads_char [OF assms(1)])
  have d: "drop (Suc i) chunk = 34 # rest" using drop_eq_Cons [OF assms(1)] by simp
  let ?st = "advance 61 (st\<lparr>sp_c := [61]\<rparr>)\<lparr>sp_state := ATTRIB_VALUE\<rparr>"
  have "reads env chunk (Suc i) ?st es j Q"
    by (rule reads_char [OF d])
      (use assms(2,3) drop_eq_Cons [OF d] in \<open>simp add: char_simps step_attrib_value_def sax_space_def sax_quote_def assms(4)\<close>)
  then show "case parse_step env chunk i st of Inl e \<Rightarrow> False
      | Inr (k, st') \<Rightarrow> k = Suc i \<and> sp_handler st' = sp_handler st \<and> reads env chunk (Suc i) st' es j Q"
    using assms(2,3) drop_eq_Cons [OF assms(1)] by (simp add: char_simps step_attrib_name_def)
qed

lemma reads_attribute_end:
  assumes "drop i chunk = 34 # rest" "core w ts p b st" "sp_state st = ATTRIB_VALUE_QUOTED" "sp_q st = [34]" "tagged n as st"
    and "sp_attribName st = a" "sp_attribValue st = v" "env_lower env a = a" "a \<notin> fst ` set as" "a \<noteq> js_lit ''__proto__''"
  shows "reads env chunk i st (flush p b) (Suc i) (\<lambda>st'. core w ts p [] st' \<and> sp_state st' = ATTRIB \<and> tagged n (as @ [(a, v)]) st')"
proof -
  note c = coreD [OF assms(2)]
  let ?f = "\<lambda>h. advance 34 (st\<lparr>sp_c := [34]\<rparr>)\<lparr>sp_tag := Some \<lparr>tag_name = n, tag_attributes = as @ [(a, v)], tag_isSelfClosing = False\<rparr>,
    sp_handler := h, sp_textNode := [], sp_attribName := [], sp_attribValue := [], sp_q := [], sp_state := ATTRIB\<rparr>"
  have "parse_step env chunk i st = js_bind (report env (sp_handler st) (flush p b)) (\<lambda>h. Inr (Suc i, ?f h))"
    using assms c drop_eq_Cons [OF assms(1)]
    by (simp add: char_simps step_attrib_value_quoted_def attrib_def tagged_def set_attribute_def closetext_if_exist_report update_new
      js_bind_def split: sum.splits)
  moreover have "core w ts p [] (?f h)" "tagged n (as @ [(a, v)]) (?f h)" for h
    using assms c by (simp_all add: core_def tagged_def)
  ultimately show ?thesis
    using reads_emit [of i chunk env st "flush p b" ?f "[]" "Suc i"] drop_eq_Cons [OF assms(1)] by (simp add: reads_done)
qed

lemma reads_attribute:
  fixes st :: "'h SAXParser"
  assumes "drop i chunk = a @ [61, 34] @ escape v @ [34] @ rest" "core w ts p b st" "sp_state st = ATTRIB" "tagged n as st"
    and "name_ok env a" "a \<notin> fst ` set as" "a \<noteq> js_lit ''__proto__''"
  shows "reads env chunk i st (flush p b) (i + length a + length (escape v) + 3)
    (\<lambda>st'. core w ts p [] st' \<and> sp_state st' = ATTRIB \<and> tagged n (as @ [(a, v)]) st')" (is "reads _ _ _ _ _ ?j ?Q")
proof -
  obtain c s where a: "a = c # s" "nameStart c" "list_all nameBody s" using assms(5) by (cases a) (auto simp: name_ok_def)
  have d1: "drop i chunk = c # s @ 61 # 34 # escape v @ 34 # rest" using assms(1) a by simp
  have d2: "drop (Suc i) chunk = s @ 61 # 34 # escape v @ 34 # rest" using drop_eq_Cons [OF d1] by simp
  note d3 = drop_append_eq [OF d2]
  have d4: "drop (Suc (Suc (Suc i + length s))) chunk = escape v @ 34 # rest"
    using drop_eq_Cons [OF d3] drop_eq_Cons [of "Suc (Suc i + length s)" chunk 34 "escape v @ 34 # rest"] by simp
  note d5 = drop_append_eq [OF d4]
  have j: "?j = Suc (Suc (Suc (Suc i + length s)) + length (escape v))" using a by simp
  show ?thesis unfolding j
    apply (rule reads_attribute_start [OF d1 a(2) assms(2,3)])
    apply (rule reads_then [OF reads_attribute_name [OF a(3) d2]], assumption+, elim conjE)
    apply (rule reads_attribute_equals [OF d3], assumption+)
    apply (rule reads_then [OF reads_attribute_value [OF d4]], assumption+, elim conjE)
    apply (rule reads_attribute_end [OF d5])
    using assms(4-) a by (simp_all add: tagged_def name_ok_def)
qed

lemma flush_Nil [simp]: "flush p [] = []"
  by (simp add: flush_def)

lemma openTag_report:
  assumes "core w ts p b st" "tagged n as st" "env_lower env n \<noteq> js_lit ''script''"
  shows "\<exists>f. openTag env False st = js_bind (report env (sp_handler st) (flush p b @ [OnOpenTag n as])) (\<lambda>h. Inr (f h)) \<and>
    (\<forall>h. sp_handler (f h) = h \<and> core True (n # ts) (pre_depth n p) [] (f h) \<and> sp_state (f h) = TEXT)"
proof (intro exI conjI allI)
  let ?tag = "\<lparr>tag_name = n, tag_attributes = as, tag_isSelfClosing = False\<rparr>"
  let ?f = "\<lambda>h. st\<lparr>sp_tag := None, sp_sawRoot := True, sp_tags := ?tag # sp_tags st, sp_handler := h, sp_textNode := [],
    sp_preTags := pre_depth n p, sp_state := TEXT, sp_tagName := [], sp_attribName := [], sp_attribValue := []\<rparr>"
  show "openTag env False st = js_bind (report env (sp_handler st) (flush p b @ [OnOpenTag n as])) (\<lambda>h. Inr (?f h))"
    using assms coreD [OF assms(1)]
    by (auto simp: openTag_def tagged_def closetext_if_exist_report pre_depth_def js_bind_def Let_def split: sum.splits)
  fix h
  show "sp_handler (?f h) = h" "core True (n # ts) (pre_depth n p) [] (?f h)" "sp_state (?f h) = TEXT"
    using coreD [OF assms(1)] by (simp_all add: core_def)
qed

lemma reads_bracket_close:
  assumes "drop i chunk = 62 # rest" "core w ts p b st" "tagged n as (if sp_state st = OPEN_TAG then newTag env st else st)"
    and "sp_state st \<in> {ATTRIB, OPEN_TAG}" "env_lower env n \<noteq> js_lit ''script''"
  shows "reads env chunk i st (flush p b @ [OnOpenTag n as]) (Suc i)
    (\<lambda>st'. core True (n # ts) (pre_depth n p) [] st' \<and> sp_state st' = TEXT)" (is "reads _ _ _ _ _ _ ?Q")
proof -
  note c = coreD [OF assms(2)] and d = drop_eq_Cons [OF assms(1)]
  let ?s = "advance 62 (st\<lparr>sp_c := [62]\<rparr>)"
  let ?st = "if sp_state st = OPEN_TAG then newTag env ?s else ?s"
  have t: "tagged n as ?st" "core w ts p b ?st" "sp_handler ?st = sp_handler st" using assms(2,3) c by (auto simp: tagged_def newTag_def Let_def)
  obtain f where f: "openTag env False ?st = js_bind (report env (sp_handler ?st) (flush p b @ [OnOpenTag n as])) (\<lambda>h. Inr (f h))"
    "\<And>h. sp_handler (f h) = h \<and> core True (n # ts) (pre_depth n p) [] (f h) \<and> sp_state (f h) = TEXT"
    using openTag_report [OF t(2,1) assms(5)] by blast
  have "parse_step env chunk i st = js_bind (openTag env False ?st) (\<lambda>st. Inr (Suc i, st))"
    using assms(4) d c by (auto simp: char_simps step_open_tag_def step_attrib_def sax_space_def nameBody_def nameStart_def)
  then have "parse_step env chunk i st = js_bind (report env (sp_handler st) (flush p b @ [OnOpenTag n as])) (\<lambda>h. Inr (Suc i, f h))"
    using f(1) t(3) by (simp add: js_bind_def split: sum.splits)
  from reads_emit [OF _ this, of "[]" "Suc i" ?Q] show ?thesis using d f(2) by (simp add: reads_done)
qed

lemma show_attribute_pair: "show_attribute (a, v) = 32 # a @ 61 # 34 # escape v @ [34]"
  by (simp add: show_attribute_def)

lemma reads_attributes:
  fixes st :: "'h SAXParser"
  assumes "env_lower env n \<noteq> js_lit ''script''"
  shows "drop i chunk = concat (map show_attribute as) @ 62 # rest \<Longrightarrow> core w ts p b st \<Longrightarrow>
    sp_state st \<in> {ATTRIB, OPEN_TAG} \<Longrightarrow> tagged n bs (if sp_state st = OPEN_TAG then newTag env st else st) \<Longrightarrow>
    attributes_ok env (bs @ as) \<Longrightarrow>
    reads env chunk i st (flush p b @ [OnOpenTag n (bs @ as)]) (i + length (concat (map show_attribute as)) + 1)
      (\<lambda>st'. core True (n # ts) (pre_depth n p) [] st' \<and> sp_state st' = TEXT)"
proof (induction as arbitrary: i st b bs)
  case Nil
  then have "reads env chunk i st (flush p b @ [OnOpenTag n bs]) (Suc i)
      (\<lambda>st'. core True (n # ts) (pre_depth n p) [] st' \<and> sp_state st' = TEXT)"
    by (intro reads_bracket_close [OF _ Nil.prems(2,4,3) assms]) simp
  then show ?case by simp
next
  case (Cons x as)
  obtain a v where x: "x = (a, v)" by (cases x)
  let ?s = "concat (map show_attribute as)"
  have d1: "drop i chunk = 32 # a @ [61, 34] @ escape v @ [34] @ ?s @ 62 # rest"
    using Cons.prems(1) x by (simp add: show_attribute_pair)
  have d2: "drop (Suc i) chunk = a @ [61, 34] @ escape v @ [34] @ ?s @ 62 # rest" using drop_eq_Cons [OF d1] by simp
  have d3: "drop (Suc i + length a + length (escape v) + 3) chunk = ?s @ 62 # rest"
    using drop_append_eq [of "Suc i" chunk "a @ [61, 34] @ escape v @ [34]"] d2 by (simp add: add_ac numeral_eq_Suc)
  let ?s1 = "advance 32 (st\<lparr>sp_c := [32]\<rparr>)"
  let ?st = "if sp_state st = OPEN_TAG then newTag env ?s1\<lparr>sp_state := ATTRIB\<rparr> else ?s1"
  have st: "core w ts p b ?st" "sp_state ?st = ATTRIB" "tagged n bs ?st"
    using Cons.prems(2,3,4) coreD [OF Cons.prems(2)] by (auto simp: tagged_def newTag_def Let_def)
  have ok: "name_ok env a" "a \<notin> fst ` set bs" "a \<noteq> js_lit ''__proto__''" using Cons.prems(5) x by (auto simp: attributes_ok_def)
  have 1: "reads env chunk (Suc i) ?st (flush p b) (Suc i + length a + length (escape v) + 3)
      (\<lambda>st'. core w ts p [] st' \<and> sp_state st' = ATTRIB \<and> tagged n (bs @ [(a, v)]) st')"
    by (rule reads_attribute [OF d2 st ok])
  have 2: "reads env chunk (Suc i) ?st (flush p b @ flush p [] @ [OnOpenTag n ((bs @ [(a, v)]) @ as)])
      (Suc i + length a + length (escape v) + 3 + length ?s + 1)
      (\<lambda>st'. core True (n # ts) (pre_depth n p) [] st' \<and> sp_state st' = TEXT)"
    by (rule reads_seq [OF 1], elim conjE, rule Cons.IH [OF d3]) (use Cons.prems x in auto)
  moreover have "i + length (concat (map show_attribute (x # as))) + 1 = Suc i + length a + length (escape v) + 3 + length ?s + 1"
    by (simp add: x show_attribute_pair)
  moreover have "parse_step env chunk i st = Inr (Suc i, ?st)"
    using Cons.prems(2,3) coreD [OF Cons.prems(2)] drop_eq_Cons [OF d1]
    by (auto simp: char_simps step_attrib_def step_open_tag_def sax_space_def nameBody_def nameStart_def)
  moreover have "sp_handler ?st = sp_handler st" by (simp add: newTag_def Let_def)
  ultimately have "reads env chunk i st (flush p b @ [OnOpenTag n ((bs @ [(a, v)]) @ as)]) (i + length (concat (map show_attribute (x # as))) + 1)
      (\<lambda>st'. core True (n # ts) (pre_depth n p) [] st' \<and> sp_state st' = TEXT)"
    using drop_eq_Cons [OF d1] by (intro reads_step [of i chunk env st ?st]) simp_all
  then show ?case by (simp add: x)
qed

lemma reads_open:
  fixes st :: "'h SAXParser"
  assumes d: "drop i chunk = n @ concat (map show_attribute as) @ 62 # rest"
    and st: "core w ts p b st" "sp_state st = OPEN_WAKA" and ok: "name_ok env n" "n \<noteq> js_lit ''script''" "attributes_ok env as"
  shows "reads env chunk i st (flush p b @ [OnOpenTag n as]) (i + length n + length (concat (map show_attribute as)) + 1)
      (\<lambda>st'. core True (n # ts) (pre_depth n p) [] st' \<and> sp_state st' = TEXT)" (is "reads _ _ _ _ ?es ?j ?Q")
proof -
  obtain c s where n: "n = c # s" "nameStart c" "list_all nameBody s" using ok(1) by (cases n) (auto simp: name_ok_def)
  have lower: "env_lower env n = n" using ok(1) by (simp add: name_ok_def)
  have d1: "drop i chunk = c # s @ concat (map show_attribute as) @ 62 # rest" using d n by simp
  have d2: "drop (Suc i) chunk = s @ concat (map show_attribute as) @ 62 # rest" using drop_eq_Cons [OF d1] by simp
  note d3 = drop_append_eq [OF d2]
  let ?st = "advance c (st\<lparr>sp_c := [c]\<rparr>)\<lparr>sp_state := OPEN_TAG, sp_tagName := [c]\<rparr>"
  have rest: "reads env chunk (Suc i + length s) st' (flush p b @ [OnOpenTag n ([] @ as)])
      (Suc i + length s + length (concat (map show_attribute as)) + 1) ?Q"
    if st': "core w ts p b st'" "sp_state st' = OPEN_TAG" "sp_tagName st' = n" for st'
    by (rule reads_attributes [OF _ d3 st'(1)])
      (use st' coreD [OF st'(1)] lower ok in \<open>auto simp: tagged_def newTag_def Let_def\<close>)
  have "reads env chunk (Suc i) ?st ?es ?j ?Q"
    by (rule reads_then [OF reads_tag_name [OF n(3) d2]]) (use st n rest in auto)
  then show ?thesis
    by (intro reads_char [OF d1])
      (use st n nameStart_special [OF n(2)] drop_eq_Cons [OF d1] in \<open>simp add: parse_step_def step_open_waka_def Let_def\<close>)
qed

lemma closeTag_report:
  assumes "core True (n # ts) (pre_depth n p) b st" "sp_tagName st = n" "n \<noteq> []" "env_lower env n = n"
  shows "\<exists>f. closeTag env st = js_bind (report env (sp_handler st) (flush (pre_depth n p) b @ [OnCloseTag n])) (\<lambda>h. Inr (f h)) \<and>
    (\<forall>h. sp_handler (f h) = h \<and> core True ts p [] (f h\<lparr>sp_closedRoot := False\<rparr>) \<and> sp_closedRoot (f h) = (ts = []) \<and> sp_state (f h) = TEXT)"
proof -
  note c = coreD [OF assms(1)]
  obtain t tags where tags: "sp_tags st = t # tags" "tag_name t = n" "map tag_name tags = ts" using c by auto
  let ?f = "\<lambda>h. st\<lparr>sp_tag := Some t, sp_tags := tags, sp_handler := h, sp_textNode := [], sp_preTags := p, sp_closedRoot := (ts = []),
    sp_tagName := [], sp_attribValue := [], sp_attribName := [], sp_state := TEXT\<rparr>"
  have "closeTag env st = js_bind (report env (sp_handler st) (flush (pre_depth n p) b @ [OnCloseTag n])) (\<lambda>h. Inr (?f h))"
    using c tags assms(2-)
    by (auto simp: closeTag_def closetext_if_exist_report pre_depth_def js_bind_def Let_def split: sum.splits)
  moreover have "core True ts p [] (?f h\<lparr>sp_closedRoot := False\<rparr>)" for h using c tags by (simp add: core_def)
  ultimately show ?thesis by (intro exI [of _ ?f]) simp
qed

lemma reads_close:
  fixes st :: "'h SAXParser"
  assumes d: "drop i chunk = 60 # 47 # n @ 62 # rest" and st: "core True (n # ts) (pre_depth n p) b st" "sp_state st = TEXT" and ok: "name_ok env n"
  shows "reads env chunk i st (flush (pre_depth n p) b @ [OnCloseTag n]) (i + length n + 3)
    (\<lambda>st'. core True ts p [] (st'\<lparr>sp_closedRoot := False\<rparr>) \<and> sp_closedRoot st' = (ts = []) \<and> sp_state st' = TEXT)"
    (is "reads _ _ _ _ ?es ?j ?Q")
proof -
  obtain c s where n: "n = c # s" "nameStart c" "list_all nameBody s" using ok by (cases n) (auto simp: name_ok_def)
  have lower: "env_lower env n = n" using ok by (simp add: name_ok_def)
  have d1: "drop (Suc i) chunk = 47 # n @ 62 # rest" using drop_eq_Cons [OF d] by simp
  have d2: "drop (Suc (Suc i)) chunk = c # s @ 62 # rest" using drop_eq_Cons [OF d1] n by simp
  have d3: "drop (Suc (Suc (Suc i))) chunk = s @ 62 # rest" using drop_eq_Cons [OF d2] by simp
  note d4 = drop_append_eq [OF d3]
  have last: "reads env chunk (Suc (Suc (Suc i)) + length s) st' ?es ?j ?Q"
    if st': "core True (n # ts) (pre_depth n p) b st' \<and> sp_state st' = CLOSE_TAG \<and> sp_tagName st' = n" for st' :: "'h SAXParser"
  proof -
    let ?st = "advance 62 (st'\<lparr>sp_c := [62]\<rparr>)"
    obtain f where f: "closeTag env ?st = js_bind (report env (sp_handler ?st) ?es) (\<lambda>h. Inr (f h))"
      "\<And>h. sp_handler (f h) = h \<and> ?Q (f h)"
      using closeTag_report [of n ts p b ?st env] st' n(1) lower by (simp del: report_simps) blast
    have "parse_step env chunk (Suc (Suc (Suc i)) + length s) st' =
        js_bind (report env (sp_handler st') ?es) (\<lambda>h. Inr (Suc (Suc (Suc (Suc i)) + length s), f h))"
      using st' f(1) n drop_eq_Cons [OF d4] by (simp add: char_simps step_close_tag_def js_bind_def split: sum.splits)
    from reads_emit [OF _ this, of "[]" _ ?Q] show ?thesis using f(2) n drop_eq_Cons [OF d4] by (simp add: reads_done)
  qed
  have name: "reads env chunk (Suc (Suc (Suc i))) st' ?es ?j ?Q"
    if "core True (n # ts) (pre_depth n p) b st'" "sp_state st' = CLOSE_TAG" "sp_tagName st' = [c]" for st' :: "'h SAXParser"
    by (rule reads_then [OF reads_close_name [OF n(3) d3 that(1,2)]]) (use that n last in auto)
  have first: "reads env chunk (Suc (Suc i)) st' ?es ?j ?Q"
    if "core True (n # ts) (pre_depth n p) b st'" "sp_state st' = CLOSE_TAG" "sp_tagName st' = []" for st' :: "'h SAXParser"
    by (rule reads_char [OF d2])
      (use that n nameStart_special [OF n(2)] drop_eq_Cons [OF d2] name in \<open>simp add: char_simps step_close_tag_def\<close>)
  have slash: "reads env chunk (Suc i) st' ?es ?j ?Q"
    if "core True (n # ts) (pre_depth n p) b st'" "sp_state st' = OPEN_WAKA" for st' :: "'h SAXParser"
    by (rule reads_char [OF d1])
      (use that drop_eq_Cons [OF d1] first in \<open>simp add: parse_step_def step_open_waka_def Let_def sax_space_def nameStart_def\<close>)
  show ?thesis by (rule reads_text_bracket [OF d st slash])
qed

text \<open>An element, given that the parser reads the markup inside of it.\<close>

lemma reads_element:
  fixes st :: "'h SAXParser"
  assumes d: "drop i chunk = n @ concat (map show_attribute as) @ [62] @ s @ [60, 47] @ n @ [62] @ rest"
    and st: "core w ts p b st" "sp_state st = OPEN_WAKA" and ok: "name_ok env n" "n \<noteq> js_lit ''script''" "attributes_ok env as"
    and inner: "\<And>i st. drop i chunk = s @ [60, 47] @ n @ [62] @ rest \<Longrightarrow> core True (n # ts) (pre_depth n p) [] st \<Longrightarrow> sp_state st = TEXT \<Longrightarrow>
      reads env chunk i st es (i + length s) (\<lambda>st'. core True (n # ts) (pre_depth n p) b' st' \<and> sp_state st' = TEXT)"
  shows "reads env chunk i st (flush p b @ OnOpenTag n as # es @ flush (pre_depth n p) b' @ [OnCloseTag n])
    (i + length (n @ concat (map show_attribute as) @ [62] @ s @ [60, 47] @ n @ [62]))
    (\<lambda>st'. core True ts p [] (st'\<lparr>sp_closedRoot := False\<rparr>) \<and> sp_closedRoot st' = (ts = []) \<and> sp_state st' = TEXT)" (is "reads _ _ _ _ _ _ ?Q")
proof -
  let ?a = "concat (map show_attribute as)"
  have d1: "drop i chunk = n @ ?a @ 62 # s @ [60, 47] @ n @ [62] @ rest" using d by simp
  have d2: "drop (i + length n + length ?a + 1) chunk = s @ [60, 47] @ n @ [62] @ rest"
    using drop_append_eq [of i chunk "n @ ?a @ [62]"] d by (simp add: add_ac)
  have d3: "drop (i + length n + length ?a + 1 + length s) chunk = 60 # 47 # n @ 62 # rest"
    using drop_append_eq [OF d2] by simp
  have "reads env chunk i st ((flush p b @ [OnOpenTag n as]) @ es @ flush (pre_depth n p) b' @ [OnCloseTag n])
      (i + length n + length ?a + 1 + length s + length n + 3) ?Q"
    by (rule reads_seq [OF reads_open [OF d1 st ok]], elim conjE, rule reads_seq [OF inner [OF d2]], assumption+, elim conjE,
      rule reads_close [OF d3 _ _ ok(1)])
  moreover have "i + length (n @ ?a @ [62] @ s @ [60, 47] @ n @ [62]) = i + length n + length ?a + 1 + length s + length n + 3" by simp
  ultimately show ?thesis by (simp only: append_assoc append_Cons append_Nil)
qed

lemma reads_markup:
  fixes st :: "'h SAXParser"
  shows "markup_ok env m \<Longrightarrow> drop i chunk = show_markup m @ d # rest \<Longrightarrow> core True ts p b st \<Longrightarrow> sp_state st = TEXT \<Longrightarrow> ts \<noteq> [] \<Longrightarrow>
    reads env chunk i st (fst (events p b m)) (i + length (show_markup m)) (\<lambda>st'. core True ts p (snd (events p b m)) st' \<and> sp_state st' = TEXT)"
  and "list_all (markup_ok env) ms \<Longrightarrow> drop i chunk = concat (map show_markup ms) @ d # rest \<Longrightarrow> core True ts p b st \<Longrightarrow> sp_state st = TEXT \<Longrightarrow> ts \<noteq> [] \<Longrightarrow>
    reads env chunk i st (fst (events_list p b ms)) (i + length (concat (map show_markup ms)))
      (\<lambda>st'. core True ts p (snd (events_list p b ms)) st' \<and> sp_state st' = TEXT)"
proof (induction p b m and p b ms arbitrary: i st ts d rest and i st ts d rest rule: events_events_list.induct)
  case (1 p b s)
  then show ?case using reads_text [of i chunk s d rest ts p b st env] by simp
next
  case (2 p b n as ms)
  obtain es b' where ev: "events_list (pre_depth n p) [] ms = (es, b')" by (cases "events_list (pre_depth n p) [] ms")
  let ?s = "concat (map show_markup ms)"
  have d0: "drop i chunk = 60 # n @ concat (map show_attribute as) @ [62] @ ?s @ [60, 47] @ n @ [62] @ d # rest" using "2.prems"(2) by simp
  have d1: "drop (Suc i) chunk = n @ concat (map show_attribute as) @ [62] @ ?s @ [60, 47] @ n @ [62] @ d # rest"
    using drop_eq_Cons [OF d0] by simp
  have inner: "reads env chunk k s1 es (k + length ?s) (\<lambda>st'. core True (n # ts) (pre_depth n p) b' st' \<and> sp_state st' = TEXT)"
    if "drop k chunk = ?s @ [60, 47] @ n @ [62] @ d # rest" "core True (n # ts) (pre_depth n p) [] s1" "sp_state s1 = TEXT"
    for k and s1 :: "'h SAXParser"
    using "2.IH" [of k 60 "47 # n @ [62] @ d # rest" "n # ts" s1] that "2.prems"(1) ev by simp
  have "reads env chunk (Suc i) s1 (flush p b @ OnOpenTag n as # es @ flush (pre_depth n p) b' @ [OnCloseTag n])
      (i + length (show_markup (Element n as ms))) (\<lambda>st'. core True ts p [] st' \<and> sp_state st' = TEXT)"
    if "core True ts p b s1" "sp_state s1 = OPEN_WAKA" for s1 :: "'h SAXParser"
  proof -
    have ok: "name_ok env n" "n \<noteq> js_lit ''script''" "attributes_ok env as" using "2.prems"(1) by simp_all
    have "reads env chunk (Suc i) s1 (flush p b @ OnOpenTag n as # es @ flush (pre_depth n p) b' @ [OnCloseTag n])
        (Suc i + length (n @ concat (map show_attribute as) @ [62] @ ?s @ [60, 47] @ n @ [62]))
        (\<lambda>st'. core True ts p [] st' \<and> sp_state st' = TEXT)"
      by (rule reads_conseq, rule reads_element [OF d1 that ok inner]) (use "2.prems"(5) in \<open>auto simp: core_def\<close>)
    then show ?thesis by simp
  qed
  then show ?case
    using reads_text_bracket [OF d0 "2.prems"(3,4)] ev by simp
next
  case (3 p b)
  then show ?case by (simp add: reads_done)
next
  case (4 p b m ms)
  obtain es b1 where ev: "events p b m = (es, b1)" by (cases "events p b m")
  obtain es' b2 where ev': "events_list p b1 ms = (es', b2)" by (cases "events_list p b1 ms")
  let ?s = "concat (map show_markup ms)"
  obtain x xs where x: "?s @ d # rest = x # xs" by (cases "?s @ d # rest") auto
  have d0: "drop i chunk = show_markup m @ x # xs" using "4.prems"(2) x by simp
  have d1: "drop (i + length (show_markup m)) chunk = ?s @ d # rest" using drop_append_eq [OF d0] x by simp
  have 1: "reads env chunk i st es (i + length (show_markup m)) (\<lambda>st'. core True ts p b1 st' \<and> sp_state st' = TEXT)"
    using "4.IH"(1) [OF _ d0 "4.prems"(3-5)] "4.prems"(1) ev by simp
  have "reads env chunk i st (es @ es') (i + length (show_markup m) + length ?s) (\<lambda>st'. core True ts p b2 st' \<and> sp_state st' = TEXT)"
    by (rule reads_seq [OF 1], elim conjE) (use "4.IH"(2) [OF ev [symmetric] refl _ d1] "4.prems"(1,5) ev' in simp)
  then show ?case using ev ev' by (simp add: add.assoc)
qed

section \<open>Parsing what was printed\<close>

lemma reads_finish:
  assumes "reads env chunk i st es (length chunk) Q" "\<And>st. Q st \<Longrightarrow> P (st\<lparr>sp_c := []\<rparr>)"
  shows "case report env (sp_handler st) es of
      Inl e \<Rightarrow> runs env chunk i st (Inl e)
    | Inr h \<Rightarrow> \<exists>st'. runs env chunk i st (Inr st') \<and> sp_handler st' = h \<and> P st'"
proof (cases "report env (sp_handler st) es")
  case (Inr h)
  then obtain st' where st': "sp_handler st' = h" "Q st'" "\<And>r. runs env chunk (length chunk) st' r \<Longrightarrow> runs env chunk i st r"
    using assms(1) by (auto simp: reads_def)
  have "runs env chunk i st (Inr (st'\<lparr>sp_c := []\<rparr>))" by (rule st'(3), rule runs.finish) simp
  then show ?thesis using Inr st'(1) assms(2) [OF st'(2)] by (auto intro!: exI [of _ "st'\<lparr>sp_c := []\<rparr>"])
qed (use assms(1) in \<open>simp add: reads_def\<close>)

lemma runs_document:
  assumes "markup_ok env (Element n as ms)"
  shows "case report env h (fst (events 0 [] (Element n as ms))) of
      Inl e \<Rightarrow> runs env (show_markup (Element n as ms)) 0 (SAXParser_new h False) (Inl e)
    | Inr h' \<Rightarrow> \<exists>st. runs env (show_markup (Element n as ms)) 0 (SAXParser_new h False) (Inr st) \<and>
        sp_handler st = h' \<and> sp_closedRoot st \<and> sp_state st = TEXT \<and> sp_textNode st = []"
proof -
  let ?s = "concat (map show_markup ms)" and ?c = "show_markup (Element n as ms)" and ?st = "SAXParser_new h False"
  obtain es b' where ev: "events_list (pre_depth n 0) [] ms = (es, b')" by (cases "events_list (pre_depth n 0) [] ms")
  let ?es = "flush 0 [] @ OnOpenTag n as # es @ flush (pre_depth n 0) b' @ [OnCloseTag n]"
  let ?Q = "\<lambda>st. core True [] 0 [] (st\<lparr>sp_closedRoot := False\<rparr>) \<and> sp_closedRoot st = ([] = ([] :: jsstring list)) \<and> sp_state st = TEXT"
  have ok: "name_ok env n" "n \<noteq> js_lit ''script''" "attributes_ok env as" "list_all (markup_ok env) ms" using assms by simp_all
  have d0: "drop 0 ?c = 60 # n @ concat (map show_attribute as) @ [62] @ ?s @ [60, 47] @ n @ [62] @ []" by simp
  have d1: "drop (Suc 0) ?c = n @ concat (map show_attribute as) @ [62] @ ?s @ [60, 47] @ n @ [62] @ []" by simp
  have inner: "reads env ?c k s1 es (k + length ?s) (\<lambda>st'. core True [n] (pre_depth n 0) b' st' \<and> sp_state st' = TEXT)"
    if "drop k ?c = ?s @ [60, 47] @ n @ [62] @ []" "core True [n] (pre_depth n 0) [] s1" "sp_state s1 = TEXT" for k s1
    using reads_markup(2) [OF ok(4), of k ?c 60 "47 # n @ [62]" "[n]" "pre_depth n 0" "[]" s1] that ev by simp
  have "reads env ?c (Suc 0) s1 ?es (Suc 0 + length (n @ concat (map show_attribute as) @ [62] @ ?s @ [60, 47] @ n @ [62])) ?Q"
    if "core False [] 0 [] s1" "sp_state s1 = OPEN_WAKA" for s1
    by (rule reads_element [OF d1 that ok(1-3) inner])
  moreover have "core False [] 0 [] ?st" "sp_state ?st = BEGIN" by (simp_all add: core_def SAXParser_new_def)
  ultimately have "reads env ?c 0 ?st ?es (length ?c) ?Q"
    by (intro reads_char [OF d0]) (simp add: parse_step_def sax_step_def step_begin_def)
  moreover have "fst (events 0 [] (Element n as ms)) = ?es" "sp_handler ?st = h" using ev by (simp_all add: SAXParser_new_def)
  ultimately show ?thesis
    using reads_finish [of env ?c 0 ?st ?es ?Q "\<lambda>st. sp_closedRoot st \<and> sp_state st = TEXT \<and> sp_textNode st = []"]
    by (simp only:) (simp add: core_def del: report_simps)
qed

lemma SAXParser_parse_show_eq:
  assumes "markup_ok env (Element n as ms)" "length (show_markup (Element n as ms)) < fuel"
  shows "map_sum id sp_handler (SAXParser_parse env fuel (show_markup (Element n as ms)) (SAXParser_new h False)) =
    report env h (fst (events 0 [] (Element n as ms)))"
proof -
  let ?c = "show_markup (Element n as ms)" and ?st = "SAXParser_new h False"
  have loop: "runs env ?c 0 ?st r \<Longrightarrow> SAXParser_parse env fuel ?c ?st = js_bind r (sax_end env)" for r
    using runs_sax_loop [of env ?c 0 ?st r fuel] assms(2) by (simp add: SAXParser_parse_def SAXParser_new_def)
  have fin: "sp_closedRoot st \<Longrightarrow> sp_state st = TEXT \<Longrightarrow> sp_textNode st = [] \<Longrightarrow> map_sum id sp_handler (sax_end env st) = Inr (sp_handler st)" for st
    by (simp add: sax_end_def closetext_def textopts_def)
  show ?thesis
    using runs_document [OF assms(1), of h] loop fin by (auto split: sum.splits simp del: events.simps show_markup.simps)
qed

text \<open>
  C12.  Parsing the text of well-formed markup reports the events of its tree to the handler, in this
  order and no others: attributes and entities are decoded, white space is joined outside of \<^verbatim>\<open>pre\<close>; the
  parse returns when the handler does, and an exception of the handler is the result.
\<close>

theorem SAXParser_parse_show:
  assumes "markup_ok env (Element n as ms)" "length (show_markup (Element n as ms)) < fuel"
  shows "map_sum id sp_handler (SAXParser_parse env fuel (show_markup (Element n as ms)) (SAXParser_new h False)) =
    report env h (fst (events 0 [] (Element n as ms)))"
  by (rule SAXParser_parse_show_eq [OF assms])

theorem SAXParser_parse_show_witness:
  "map_sum id sp_handler (SAXParser_parse event_log 100 (js_lit ''<hit n='' @ [34] @ js_lit ''x&amp;y'' @ [34] @ js_lit ''>a  &lt; b<pre>c  d</pre></hit>'') (SAXParser_new [] False)) =
    Inr [OnOpenTag (js_lit ''hit'') [(js_lit ''n'', js_lit ''x&y'')], OnText (js_lit ''a < b''), OnOpenTag (js_lit ''pre'') [],
      OnText (js_lit ''c  d''), OnCloseTag (js_lit ''pre''), OnCloseTag (js_lit ''hit'')]"
proof -
  let ?m = "Element (js_lit ''hit'') [(js_lit ''n'', js_lit ''x&y'')] [Plain (js_lit ''a  < b''), Element (js_lit ''pre'') [] [Plain (js_lit ''c  d'')]]"
  have "markup_ok event_log ?m"
    by (simp add: name_ok_def attributes_ok_def event_log_def plain_host_def js_lit_def nameStart_def nameBody_def)
  moreover have "length (show_markup ?m) < 100"
    by (simp add: show_attribute_def escape_def escape_char_def js_lit_def)
  moreover have "report event_log [] (fst (events 0 [] ?m)) =
      Inr [OnOpenTag (js_lit ''hit'') [(js_lit ''n'', js_lit ''x&y'')], OnText (js_lit ''a < b''), OnOpenTag (js_lit ''pre'') [],
        OnText (js_lit ''c  d''), OnCloseTag (js_lit ''pre''), OnCloseTag (js_lit ''hit'')]"
    by (simp add: event_log_def flush_def pre_depth_def textopts_def white_space_def js_lit_def)
  ultimately show ?thesis
    using SAXParser_parse_show [of event_log "js_lit ''hit''" "[(js_lit ''n'', js_lit ''x&y'')]"
      "[Plain (js_lit ''a  < b''), Element (js_lit ''pre'') [] [Plain (js_lit ''c  d'')]]" 100 "[]"]
    by (simp add: show_attribute_def escape_def escape_char_def js_lit_def)
qed

end
