(* ===== verification/Style.thy ===== *)
theory Style
  imports Markup
begin

text \<open>
  \<^verbatim>\<open>_HTMLHandler\<close> and \<^verbatim>\<open>Style\<close>, which turn the marked-up text of the front end into HTML, into a text with escape
  sequences for a terminal, or into plain text.  \<^verbatim>\<open>convert\<close> is the parser with this handler; on well-formed
  markup it is a rendering of the tree.
\<close>

section \<open>The handler\<close>

text \<open>The tags of a style with the texts that open and close them.\<close>

type_synonym styles = "(jsstring \<times> jsstring \<times> jsstring) list"

record HTMLHandler =
  hh_text :: "jsstring list"
  hh_escape :: bool
  hh_styles :: styles

definition HTMLHandler_new :: "styles \<Rightarrow> bool \<Rightarrow> HTMLHandler" where
  "HTMLHandler_new styles esc = \<lparr>hh_text = [], hh_escape = esc, hh_styles = styles\<rparr>"

definition replace_all :: "nat \<Rightarrow> jsstring \<Rightarrow> jsstring \<Rightarrow> jsstring" where
  "replace_all c s str = concat (map (\<lambda>x. if x = c then s else [x]) str)"

definition escapeHTML :: "jsstring \<Rightarrow> jsstring" where
  "escapeHTML str = replace_all 62 (js_lit ''&gt;'') (replace_all 60 (js_lit ''&lt;'') (replace_all 34 (js_lit ''&quot;'')
    (replace_all 38 (js_lit ''&amp;'') (replace_all 10 (js_lit ''<br/>'') str))))"

text \<open>
  A tag without a style is \<^verbatim>\<open>undefined\<close>, and reading its elements throws.  A name that every object inherits
  gives a value whose elements are \<^verbatim>\<open>undefined\<close>, which \<^verbatim>\<open>join\<close> writes as nothing.
\<close>

definition inherited_members :: "jsstring list" where
  "inherited_members = inherited_entities @ map js_lit
    [''__defineGetter__'', ''__defineSetter__'', ''__lookupGetter__'', ''__lookupSetter__'', ''__proto__'']"

definition style_of :: "styles \<Rightarrow> jsstring \<Rightarrow> (jsstring \<times> jsstring) js" where
  "style_of styles tagname = (case map_of styles tagname of
      Some s \<Rightarrow> Inr s
    | None \<Rightarrow> if tagname \<in> set inherited_members then Inr ([], []) else Inl (Throw ''TypeError''))"

definition append_text :: "HTMLHandler \<Rightarrow> jsstring \<Rightarrow> HTMLHandler" where
  "append_text h s = h\<lparr>hh_text := hh_text h @ [s]\<rparr>"

fun HTMLHandler_handle :: "sax_event \<Rightarrow> HTMLHandler \<Rightarrow> HTMLHandler js" where
  "HTMLHandler_handle (OnOpenTag tagname attributes) h = js_bind (style_of (hh_styles h) tagname) (\<lambda>s. Inr (append_text h (fst s)))"
| "HTMLHandler_handle (OnCloseTag tagname) h = js_bind (style_of (hh_styles h) tagname) (\<lambda>s. Inr (append_text h (snd s)))"
| "HTMLHandler_handle (OnText text) h = Inr (append_text h (if hh_escape h then escapeHTML text else text))"

definition HTMLHandler_result :: "HTMLHandler \<Rightarrow> jsstring" where
  "HTMLHandler_result h = concat (hh_text h)"

section \<open>Styles\<close>

definition quoted :: "string \<Rightarrow> jsstring" where
  "quoted s = [34] @ js_lit s @ [34]"

definition style_console :: styles where
  "style_console =
    [(js_lit ''title'', [27] @ js_lit ''[32m'' @ [27] @ js_lit ''[4m'', [27] @ js_lit ''[39m'' @ [27] @ js_lit ''[0m''),
     (js_lit ''url'', [27] @ js_lit ''[34m'', [27] @ js_lit ''[39m''),
     (js_lit ''hit'', [27] @ js_lit ''[4m'', [27] @ js_lit ''[0m''),
     (js_lit ''del'', [27] @ js_lit ''[9m'', [27] @ js_lit ''[0m''),
     (js_lit ''summary'', [27] @ js_lit ''[90m'', [27] @ js_lit ''[39m'')]"

definition style_html :: styles where
  "style_html =
    [(js_lit ''title'', js_lit ''<span class='' @ quoted ''title'' @ js_lit ''>'', js_lit ''</span>''),
     (js_lit ''url'', js_lit ''<span class='' @ quoted ''url'' @ js_lit ''>'', js_lit ''</span>''),
     (js_lit ''hit'', js_lit ''<span class='' @ quoted ''hit'' @ js_lit ''>'', js_lit ''</span>''),
     (js_lit ''del'', js_lit ''<del>'', js_lit ''</del>''),
     (js_lit ''summary'', js_lit ''<span class='' @ quoted ''reuslt'' @ js_lit ''>'', js_lit ''</span>'')]"

definition style_ignore :: styles where
  "style_ignore = [(js_lit ''tilte'', [], []), (js_lit ''url'', [], []), (js_lit ''hit'', [], []), (js_lit ''del'', [], []), (js_lit ''summary'', [], [])]"

record Style =
  sty_styles :: styles
  sty_escapeHTML :: bool

definition Style_new :: "string \<Rightarrow> Style" where
  "Style_new mode = \<lparr>sty_styles = (if mode = ''console'' then style_console else if mode = ''html'' then style_html else style_ignore),
    sty_escapeHTML = (mode = ''html'')\<rparr>"

definition html_env :: "text_host \<Rightarrow> HTMLHandler sax_env" where
  "html_env host = \<lparr>env_handle = HTMLHandler_handle, env_host = host\<rparr>"

definition Style_convert :: "text_host \<Rightarrow> nat \<Rightarrow> Style \<Rightarrow> jsstring \<Rightarrow> jsstring js" where
  "Style_convert host fuel style source =
    js_bind (SAXParser_parse (html_env host) fuel source (SAXParser_new (HTMLHandler_new (sty_styles style) (sty_escapeHTML style)) False))
      (\<lambda>parser. Inr (HTMLHandler_result (sp_handler parser)))"

section \<open>Converting markup\<close>

text \<open>The text of one event in a style.\<close>

fun render_event :: "styles \<Rightarrow> bool \<Rightarrow> sax_event \<Rightarrow> jsstring" where
  "render_event styles esc (OnText text) = (if esc then escapeHTML text else text)"
| "render_event styles esc (OnOpenTag n as) = (case map_of styles n of Some s \<Rightarrow> fst s | None \<Rightarrow> [])"
| "render_event styles esc (OnCloseTag n) = (case map_of styles n of Some s \<Rightarrow> snd s | None \<Rightarrow> [])"

fun styled :: "styles \<Rightarrow> markup \<Rightarrow> bool" where
  "styled styles (Plain s) = True"
| "styled styles (Element n as ms) \<longleftrightarrow> map_of styles n \<noteq> None \<and> list_all (styled styles) ms"

fun event_styled :: "styles \<Rightarrow> sax_event \<Rightarrow> bool" where
  "event_styled styles (OnText text) = True"
| "event_styled styles (OnOpenTag n as) \<longleftrightarrow> map_of styles n \<noteq> None"
| "event_styled styles (OnCloseTag n) \<longleftrightarrow> map_of styles n \<noteq> None"

lemma flush_styled: "list_all (event_styled styles) (flush p b)"
  by (simp add: flush_def)

lemma events_styled:
  "styled styles m \<Longrightarrow> list_all (event_styled styles) (fst (events p b m))"
  "list_all (styled styles) ms \<Longrightarrow> list_all (event_styled styles) (fst (events_list p b ms))"
  by (induction p b m and p b ms rule: events_events_list.induct) (auto simp: flush_styled split: prod.splits)

lemma report_html:
  "list_all (event_styled (hh_styles h)) es \<Longrightarrow>
    report (html_env host) h es = Inr (h\<lparr>hh_text := hh_text h @ map (render_event (hh_styles h) (hh_escape h)) es\<rparr>)"
proof (induction es arbitrary: h)
  case (Cons e es)
  then have "HTMLHandler_handle e h = Inr (append_text h (render_event (hh_styles h) (hh_escape h) e))"
    by (cases e) (auto simp: style_of_def)
  then show ?case using Cons by (simp add: html_env_def append_text_def)
qed simp

lemma Style_convert_show:
  assumes "markup_ok (html_env host) (Element n as ms)" "styled (sty_styles style) (Element n as ms)"
    and "length (show_markup (Element n as ms)) < fuel"
  shows "Style_convert host fuel style (show_markup (Element n as ms)) =
    Inr (concat (map (render_event (sty_styles style) (sty_escapeHTML style)) (fst (events 0 [] (Element n as ms)))))"
proof -
  let ?m = "Element n as ms" and ?h = "HTMLHandler_new (sty_styles style) (sty_escapeHTML style)"
  let ?p = "SAXParser_parse (html_env host) fuel (show_markup ?m) (SAXParser_new ?h False)"
  have "map_sum id sp_handler ?p = Inr (?h\<lparr>hh_text := map (render_event (sty_styles style) (sty_escapeHTML style)) (fst (events 0 [] ?m))\<rparr>)"
    using SAXParser_parse_show_eq [OF assms(1,3), of ?h] report_html [of ?h "fst (events 0 [] ?m)" host] events_styled(1) [OF assms(2), of 0 "[]"]
    by (simp add: HTMLHandler_new_def del: events.simps show_markup.simps)
  then show ?thesis
    by (cases ?p) (auto simp: Style_convert_def HTMLHandler_result_def simp del: events.simps show_markup.simps)
qed

text \<open>
  C14.  Converting well-formed markup whose tags have a style gives the texts of the events of its tree,
  one after the other: the texts that open and close the tags, and the text between them, escaped in
  the style \<^verbatim>\<open>html\<close>.
\<close>

theorem Style_convert_renders:
  assumes "markup_ok (html_env host) (Element n as ms)" "styled (sty_styles style) (Element n as ms)"
    and "length (show_markup (Element n as ms)) < fuel"
  shows "Style_convert host fuel style (show_markup (Element n as ms)) =
    Inr (concat (map (render_event (sty_styles style) (sty_escapeHTML style)) (fst (events 0 [] (Element n as ms)))))"
  by (rule Style_convert_show [OF assms])

theorem Style_convert_renders_witness:
  "Style_convert plain_host 50 (Style_new ''html'') (js_lit ''<summary>a  <hit>b &lt; c</hit></summary>'') =
    Inr (js_lit ''<span class='' @ quoted ''reuslt'' @ js_lit ''>a <span class='' @ quoted ''hit'' @ js_lit ''>b &lt; c</span></span>'')"
proof -
  let ?ms = "[Plain (js_lit ''a  ''), Element (js_lit ''hit'') [] [Plain (js_lit ''b < c'')]]"
  have "markup_ok (html_env plain_host) (Element (js_lit ''summary'') [] ?ms)"
    by (simp add: name_ok_def attributes_ok_def html_env_def plain_host_def js_lit_def nameStart_def nameBody_def)
  moreover have "styled (sty_styles (Style_new ''html'')) (Element (js_lit ''summary'') [] ?ms)"
    by (simp add: Style_new_def style_html_def js_lit_def)
  moreover have "length (show_markup (Element (js_lit ''summary'') [] ?ms)) < 50"
    by (simp add: escape_def escape_char_def js_lit_def)
  ultimately show ?thesis
    using Style_convert_renders [of plain_host "js_lit ''summary''" "[]" ?ms "Style_new ''html''" 50]
    by (simp add: Style_new_def style_html_def escape_def escape_char_def flush_def pre_depth_def textopts_def white_space_def
      escapeHTML_def replace_all_def js_lit_def quoted_def)
qed

text \<open>
  A tag without a style is an exception, whatever is in it: markup whose outermost tag has no style
  in the table, such as \<^verbatim>\<open>title\<close> in the style \<^verbatim>\<open>ignore\<close>, whose table has the key \<^verbatim>\<open>tilte\<close>, cannot be converted.
\<close>

theorem Style_convert_without_style:
  assumes "markup_ok (html_env host) (Element n as ms)" "map_of (sty_styles style) n = None" "n \<notin> set inherited_members"
    and "length (show_markup (Element n as ms)) < fuel"
  shows "Style_convert host fuel style (show_markup (Element n as ms)) = Inl (Throw ''TypeError'')"
proof -
  let ?m = "Element n as ms" and ?h = "HTMLHandler_new (sty_styles style) (sty_escapeHTML style)"
  let ?p = "SAXParser_parse (html_env host) fuel (show_markup ?m) (SAXParser_new ?h False)"
  have "map_sum id sp_handler ?p = Inl (Throw ''TypeError'')"
    unfolding SAXParser_parse_show_eq [OF assms(1,4)]
    using assms(2,3) by (simp add: html_env_def HTMLHandler_new_def style_of_def split: prod.splits)
  then show ?thesis by (cases ?p) (auto simp: Style_convert_def simp del: show_markup.simps)
qed

theorem Style_convert_without_style_witness:
  "Style_convert plain_host 30 (Style_new ''ignore'') (js_lit ''<title>a</title>'') = Inl (Throw ''TypeError'')"
  using Style_convert_without_style [of plain_host "js_lit ''title''" "[]" "[Plain (js_lit ''a'')]" "Style_new ''ignore''" 30]
  by (simp add: name_ok_def attributes_ok_def html_env_def plain_host_def js_lit_def nameStart_def nameBody_def Style_new_def style_ignore_def
    inherited_members_def inherited_entities_def escape_def escape_char_def)

section \<open>Converting returns\<close>

interpretation html: sax_handler "html_env host" for host
proof
  fix e h
  show "sends (\<lambda>h'. True) (env_handle (html_env host) e h)"
    by (cases e) (auto simp: html_env_def style_of_def split: option.splits)
qed

text \<open>
  Converting returns a text or throws, whatever the source, if no angle bracket in it is directly
  followed by white space; one step of the parser for every character is enough.
\<close>

theorem Style_convert_returns:
  assumes "no_loose_bracket source" "length source < fuel"
  shows "(\<exists>text. Style_convert host fuel style source = Inr text) \<or> (\<exists>message. Style_convert host fuel style source = Inl (Throw message))"
proof (rule sends_cases)
  show "sends (\<lambda>_. True) (Style_convert host fuel style source)"
    using html.parse_returns [OF assms, of host "HTMLHandler_new (sty_styles style) (sty_escapeHTML style)" False]
    by (simp add: Style_convert_def)
qed

theorem Style_convert_returns_witness:
  "(\<exists>text. Style_convert plain_host 20 (Style_new ''html'') (js_lit ''<hit>a <b</hit>'') = Inr text) \<or>
   (\<exists>message. Style_convert plain_host 20 (Style_new ''html'') (js_lit ''<hit>a <b</hit>'') = Inl (Throw message))"
proof (rule Style_convert_returns)
  show "no_loose_bracket (js_lit ''<hit>a <b</hit>'')"
    by (auto simp: no_loose_bracket_def js_lit_def sax_space_def nth_Cons less_Suc_eq split: nat.splits)
qed (simp add: js_lit_def)

section \<open>Escaping\<close>

lemma set_replace_all: "set (replace_all c s t) \<subseteq> set s \<union> (set t - {c})"
  by (auto simp: replace_all_def)

lemma replace_all_append: "replace_all c s (t @ u) = replace_all c s t @ replace_all c s u"
  by (simp add: replace_all_def)

text \<open>Escaped text is text: the parser reads it back, apart from line ends.\<close>

lemma escapeHTML_append: "escapeHTML (s @ t) = escapeHTML s @ escapeHTML t"
  by (simp add: escapeHTML_def replace_all_append)

lemma escapeHTML_char:
  "escapeHTML [c] = (if c = 10 then js_lit ''&lt;br/&gt;'' else if c = 38 then js_lit ''&amp;'' else if c = 34 then js_lit ''&quot;''
    else if c = 60 then js_lit ''&lt;'' else if c = 62 then js_lit ''&gt;'' else [c])"
  by (simp add: escapeHTML_def replace_all_def js_lit_def)

lemma escapeHTML_concat: "escapeHTML s = concat (map (\<lambda>c. escapeHTML [c]) s)"
proof (induction s)
  case (Cons c s)
  then show ?case using escapeHTML_append [of "[c]" s] by simp
qed (simp add: escapeHTML_def replace_all_def)

text \<open>
  C17.  Text in the style \<^verbatim>\<open>html\<close> cannot open or close a tag or an attribute value: escaped text has no
  angle bracket, no double quote and no line end.  But the line ends are replaced first, so that the
  brackets of the \<^verbatim>\<open><br/>\<close> put in their place are escaped as well and it is shown as text.
\<close>

theorem escapeHTML_safe:
  "set (escapeHTML s) \<inter> {60, 62, 34, 10} = {} \<and> escapeHTML (s @ [10] @ t) = escapeHTML s @ js_lit ''&lt;br/&gt;'' @ escapeHTML t"
proof
  have "set (escapeHTML [c]) \<inter> {60, 62, 34, 10} = {}" for c by (simp add: escapeHTML_char js_lit_def)
  then show "set (escapeHTML s) \<inter> {60, 62, 34, 10} = {}" by (subst escapeHTML_concat) auto
  show "escapeHTML (s @ [10] @ t) = escapeHTML s @ js_lit ''&lt;br/&gt;'' @ escapeHTML t"
    by (simp add: escapeHTML_append escapeHTML_char del: append_Cons append_Nil)
qed

section \<open>Loose brackets\<close>

lemma sax_diverges_step:
  "i < length chunk \<Longrightarrow> parse_step env chunk i st = Inr (j, st') \<Longrightarrow> (\<And>fuel. sax_loop env fuel chunk j st' = Inl Diverge) \<Longrightarrow>
    sax_loop env fuel chunk i st = Inl Diverge"
  by (cases fuel) simp_all

text \<open>A loose bracket in a word of a query: the front end puts the word between two tags as it is.\<close>

lemma Style_convert_loose:
  assumes "n = [n1, n2, n3]" "nameStart n1" "nameBody n2" "nameBody n3" "map_of style_html n = Some texts" "th_lower host n = n"
    and "60 \<notin> set v" "38 \<notin> set v" "\<not> sax_space c" "\<not> nameStart c" "c \<notin> {33, 47, 63}"
  shows "Style_convert host fuel (Style_new ''html'') ([60] @ n @ [62] @ v @ [60, 32, c] @ rest) = Inl Diverge"
proof -
  let ?u = "[60] @ n @ [62] @ v" and ?h = "HTMLHandler_new style_html True" and ?env = "html_env host"
  let ?chunk = "?u @ [60, 32, c] @ rest" and ?st = "SAXParser_new ?h False"
  have chars: "?chunk ! 0 = 60" "?chunk ! 1 = n1" "?chunk ! 2 = n2" "?chunk ! 3 = n3" "?chunk ! 4 = 62" "5 \<le> length ?u"
    by (simp_all add: assms(1))
  have bodies: "\<not> nameBody 60" "\<not> nameBody 38" by (simp_all add: nameBody_def nameStart_def)
  have first: "\<not> sax_space n1" "n1 \<noteq> 33" using assms(2) by (auto simp: nameStart_def sax_space_def)
  let ?I = "\<lambda>q n st. core False [] 0 [] st \<and> sp_state st = q \<and> sp_tagName st = n \<and> sp_handler st = ?h"
  have "\<exists>st. parse_step ?env ?chunk 0 ?st = Inr (1, st) \<and> ?I OPEN_WAKA [] st"
    using chars(1) by (simp add: char_simps step_begin_def SAXParser_new_def core_def)
  then obtain st1 where 1: "parse_step ?env ?chunk 0 ?st = Inr (1, st1)" "?I OPEN_WAKA [] st1" by blast
  have "\<exists>st. parse_step ?env ?chunk 1 st1 = Inr (2, st) \<and> ?I OPEN_TAG [n1] st"
    using chars(2) 1(2) first assms(2) by (simp add: char_simps step_open_waka_def)
  then obtain st2 where 2: "parse_step ?env ?chunk 1 st1 = Inr (2, st2)" "?I OPEN_TAG [n1] st2" by blast
  have "\<exists>st. parse_step ?env ?chunk 2 st2 = Inr (3, st) \<and> ?I OPEN_TAG [n1, n2] st"
    using chars(3) 2(2) assms(3) by (simp add: char_simps step_open_tag_def)
  then obtain st3 where 3: "parse_step ?env ?chunk 2 st2 = Inr (3, st3)" "?I OPEN_TAG [n1, n2] st3" by blast
  have "\<exists>st. parse_step ?env ?chunk 3 st3 = Inr (4, st) \<and> ?I OPEN_TAG n st"
    using chars(4) 3(2) assms(1,4) by (simp add: char_simps step_open_tag_def)
  then obtain st4 where 4: "parse_step ?env ?chunk 3 st3 = Inr (4, st4)" "?I OPEN_TAG n st4" by blast
  let ?s = "newTag ?env (advance 62 (st4\<lparr>sp_c := [62]\<rparr>))"
  have tag: "core False [] 0 [] ?s" "tagged n [] ?s" "env_lower ?env n \<noteq> js_lit ''script''" "sp_handler ?s = ?h"
    using 4(2) coreD [of False "[]" 0 "[]" st4] assms(1,6) by (auto simp: newTag_def tagged_def html_env_def js_lit_def)
  obtain f where f: "openTag ?env False ?s = js_bind (report ?env (sp_handler ?s) (flush 0 [] @ [OnOpenTag n []])) (\<lambda>h. Inr (f h))"
    "\<forall>h. sp_handler (f h) = h \<and> core True [n] (pre_depth n 0) [] (f h) \<and> sp_state (f h) = TEXT"
    using openTag_report [OF tag(1,2,3)] by blast
  have "\<exists>h. report ?env ?h [OnOpenTag n []] = Inr h"
    using assms(5) by (simp add: html_env_def HTMLHandler_new_def style_of_def)
  then obtain h where "openTag ?env False ?s = Inr (f h)" using f(1) tag(4) by auto
  then have 5: "parse_step ?env ?chunk 4 st4 = Inr (5, f h)"
    using chars(5) 4(2) by (simp add: char_simps step_open_tag_def nameBody_def nameStart_def)
  have "core True [n] (pre_depth n 0) [] (f h)" "sp_state (f h) = TEXT" using f(2) by simp_all
  moreover have "60 \<notin> set (drop 2 ?u)" "38 \<notin> set (drop 2 ?u)"
    using assms(1,3,4,7,8) bodies by auto
  ultimately have "loose ?u c 5 (f h)"
    using assms(9-) chars(6) by (auto simp: loose_def dest: coreD)
  from loose_diverges [OF refl this] have "sax_loop ?env fuel ?chunk 5 (f h) = Inl Diverge" for fuel .
  then have "sax_loop ?env fuel ?chunk 0 ?st = Inl Diverge"
    using chars(6)
    by (intro sax_diverges_step [OF _ 1(1)] sax_diverges_step [OF _ 2(1)] sax_diverges_step [OF _ 3(1)] sax_diverges_step [OF _ 4(1)]
      sax_diverges_step [OF _ 5]) auto
  then show ?thesis by (simp add: Style_convert_def Style_new_def SAXParser_parse_def SAXParser_new_def)
qed

end
