(* ===== verification/Search_Page.thy ===== *)
theory Search_Page
  imports Style Oktavia
begin

text \<open>
  \<^verbatim>\<open>OktaviaSearch\<close>, the class behind the search box of the documentation: it loads an index, runs a query
  string through the engine, ranks the documents found, and delivers them page by page with their
  hits marked up, or proposals when nothing was found.

  The static fields (the current object and a stemmer set before there is one) are a record of their
  own.  The callback of a search is what \<^verbatim>\<open>search\<close> returns besides the object.  The search units of a
  result live in the store of \<^verbatim>\<open>Search_Result\<close>, which is a field here.  The constructor creates the
  engine, so the branches of \<^verbatim>\<open>search\<close> and \<^verbatim>\<open>loadIndex\<close> for an object without one do not occur and are left
  out, and so is \<^verbatim>\<open>_currentFolderDepth\<close>, which nothing reads.
\<close>

section \<open>Strings\<close>

text \<open>\<^verbatim>\<open>indexOf\<close>, and \<^verbatim>\<open>replace\<close> of the first match by a text.\<close>

fun string_index :: "jsstring \<Rightarrow> jsstring \<Rightarrow> nat option" where
  "string_index [] w = (if w = [] then Some 0 else None)"
| "string_index (c # s) w = (if take (length w) (c # s) = w then Some 0 else map_option Suc (string_index s w))"

text \<open>In the replacement, \<^verbatim>\<open>$\<close> and one of the characters \<^verbatim>\<open>$ & ` '\<close> stand for a part of the string.\<close>

fun expand :: "jsstring \<Rightarrow> jsstring \<Rightarrow> jsstring \<Rightarrow> jsstring \<Rightarrow> jsstring" where
  "expand bef mat aft (a # b # r) =
    (if a = 36 \<and> b = 36 then 36 # expand bef mat aft r
     else if a = 36 \<and> b = 38 then mat @ expand bef mat aft r
     else if a = 36 \<and> b = 96 then bef @ expand bef mat aft r
     else if a = 36 \<and> b = 39 then aft @ expand bef mat aft r
     else a # expand bef mat aft (b # r))"
| "expand bef mat aft r = r"

definition replace_match :: "jsstring \<Rightarrow> jsstring \<Rightarrow> jsstring \<Rightarrow> jsstring" where
  "replace_match s w r = (case string_index s w of
      None \<Rightarrow> s
    | Some i \<Rightarrow> take i s @ expand (take i s) w (drop (i + length w) s) r @ drop (i + length w) s)"

text \<open>The pattern of two or more line breaks in a row, whose first match becomes two.\<close>

definition line_break :: jsstring where
  "line_break = js_lit ''<br/>''"

fun skip_breaks :: "nat \<Rightarrow> jsstring \<Rightarrow> jsstring" where
  "skip_breaks 0 s = s"
| "skip_breaks (Suc n) s = (if take 5 s = line_break then skip_breaks n (drop 5 s) else s)"

definition join_breaks :: "jsstring \<Rightarrow> jsstring" where
  "join_breaks s = (case string_index s (line_break @ line_break) of
      None \<Rightarrow> s
    | Some i \<Rightarrow> take i s @ line_break @ line_break @ skip_breaks (length s) (drop i s))"

section \<open>The search object\<close>

record result_entry =
  re_title :: jsstring
  re_url :: "jsstring option"
  re_content :: jsstring
  re_score :: int

record proposal_entry =
  pe_options :: jsstring
  pe_label :: jsstring
  pe_count :: nat

record OktaviaSearch =
  os_queries :: "Query list option"
  os_highlight :: jsstring
  os_result :: "nat list option"
  os_proposals :: "Proposal list option"
  os_oktavia :: Oktavia
  os_entriesPerPage :: nat
  os_currentPage :: int
  os_store :: unit_store

record search_static =
  st_instance :: "OktaviaSearch option"
  st_stemmer :: "(jsstring \<Rightarrow> jsstring) option"

definition OktaviaSearch_new :: "nat \<Rightarrow> OktaviaSearch" where
  "OktaviaSearch_new entriesPerPage = \<lparr>os_queries = None, os_highlight = [], os_result = None, os_proposals = None,
    os_oktavia = Oktavia_new, os_entriesPerPage = entriesPerPage, os_currentPage = 1, os_store = []\<rparr>"

definition OktaviaSearch_create :: "search_static \<Rightarrow> nat \<Rightarrow> search_static" where
  "OktaviaSearch_create static entriesPerPage = static\<lparr>st_instance := Some (OktaviaSearch_new entriesPerPage)\<rparr>"

definition OktaviaSearch_setStemmer :: "search_static \<Rightarrow> (jsstring \<Rightarrow> jsstring) \<Rightarrow> search_static" where
  "OktaviaSearch_setStemmer static stemmer = (case st_instance static of
      Some this \<Rightarrow> static\<lparr>st_instance := Some (this\<lparr>os_oktavia := Oktavia_setStemmer (os_oktavia this) stemmer\<rparr>)\<rparr>
    | None \<Rightarrow> static\<lparr>st_stemmer := Some stemmer\<rparr>)"

definition OktaviaSearch_loadIndex :: "(jsstring \<Rightarrow> jsstring) option \<Rightarrow> OktaviaSearch \<Rightarrow> jsstring \<Rightarrow> OktaviaSearch js" where
  "OktaviaSearch_loadIndex stemmer this index =
    (let okt = (case stemmer of Some stemmer \<Rightarrow> Oktavia_setStemmer (os_oktavia this) stemmer | None \<Rightarrow> os_oktavia this)
     in js_bind (Oktavia_load okt (Binary_base64decode index)) (\<lambda>okt. Inr (this\<lparr>os_oktavia := okt\<rparr>)))"

section \<open>Searching\<close>

text \<open>The score of a unit: the loop over its positions.\<close>

definition position_score :: "Oktavia \<Rightarrow> int \<Rightarrow> Position \<Rightarrow> int js" where
  "position_score okt score position =
    js_bind (Oktavia_wordPositionType okt (p_position position)) (\<lambda>t.
      let score = (if t \<noteq> 0 then score + 10 else score + 1)
      in Inr (if p_stemmed position then score else score + 2))"

definition score_unit :: "Oktavia \<Rightarrow> unit_store \<Rightarrow> nat \<Rightarrow> unit_store js" where
  "score_unit okt h a =
    js_bind (js_at h a) (\<lambda>unit.
    js_bind (js_fold (position_score okt) 0 (map snd (su_positions unit))) (\<lambda>score.
    js_put h a (unit\<lparr>su_score := score\<rparr>)))"

definition sortResult :: "Oktavia \<Rightarrow> unit_store \<Rightarrow> SearchSummary \<Rightarrow> (unit_store \<times> nat list) js" where
  "sortResult okt h summary = (case s_result summary of
      None \<Rightarrow> Inl (Throw ''TypeError'')
    | Some r \<Rightarrow>
        js_bind (js_fold (score_unit okt) h (r_units r)) (\<lambda>h.
        js_bind (SearchSummary_getSortedResult h summary) (\<lambda>sorted. Inr (h, sorted))))"

text \<open>\<^verbatim>\<open>Math.ceil\<close> of a quotient; without entries on a page the number of pages is not finite.\<close>

definition pages :: "nat \<Rightarrow> nat \<Rightarrow> nat js" where
  "pages n entries = (if entries = 0 then Inl Undef else Inr ((n + entries - 1) div entries))"

definition OktaviaSearch_search ::
  "(jsstring \<Rightarrow> jsstring) \<Rightarrow> OktaviaSearch \<Rightarrow> jsstring \<Rightarrow> (OktaviaSearch \<times> nat \<times> nat) js" where
  "OktaviaSearch_search toLowerCase this queryString =
    (let (queryParser, queries) = QueryStringParser_parse QueryStringParser_new queryString
     in js_bind (QueryStringParser_highlight queryParser) (\<lambda>highlight.
        js_bind (Oktavia_search toLowerCase (os_oktavia this) [] queries) (\<lambda>(h, summary).
        js_bind (SearchSummary_size summary) (\<lambda>size.
        js_bind (if 0 < size then js_bind (sortResult (os_oktavia this) h summary) (\<lambda>(h, result). Inr (h, result, []))
                 else if 1 < length queries then js_bind (SearchSummary_getProposal h summary) (\<lambda>(h, proposals). Inr (h, [], proposals))
                 else Inr (h, [], [])) (\<lambda>(h, result, proposals).
        js_bind (pages (length result) (os_entriesPerPage this)) (\<lambda>total.
        Inr (this\<lparr>os_queries := Some queries, os_highlight := highlight, os_result := Some result, os_proposals := Some proposals,
          os_currentPage := 1, os_store := h\<rparr>, length result, total)))))))"

section \<open>Pages\<close>

text \<open>Before the first search the result is \<^verbatim>\<open>null\<close>, and reading its length throws.\<close>

definition the_result :: "OktaviaSearch \<Rightarrow> nat list js" where
  "the_result this = (case os_result this of None \<Rightarrow> Inl (Throw ''TypeError'') | Some result \<Rightarrow> Inr result)"

definition OktaviaSearch_resultSize :: "OktaviaSearch \<Rightarrow> nat js" where
  "OktaviaSearch_resultSize this = js_bind (the_result this) (\<lambda>result. Inr (length result))"

definition OktaviaSearch_totalPages :: "OktaviaSearch \<Rightarrow> nat js" where
  "OktaviaSearch_totalPages this = js_bind (the_result this) (\<lambda>result. pages (length result) (os_entriesPerPage this))"

definition OktaviaSearch_currentPage :: "OktaviaSearch \<Rightarrow> int" where
  "OktaviaSearch_currentPage this = os_currentPage this"

definition OktaviaSearch_setCurrentPage :: "OktaviaSearch \<Rightarrow> int \<Rightarrow> OktaviaSearch" where
  "OktaviaSearch_setCurrentPage this page = this\<lparr>os_currentPage := page\<rparr>"

definition OktaviaSearch_hasPrevPage :: "OktaviaSearch \<Rightarrow> bool" where
  "OktaviaSearch_hasPrevPage this \<longleftrightarrow> os_currentPage this \<noteq> 1"

definition OktaviaSearch_hasNextPage :: "OktaviaSearch \<Rightarrow> bool js" where
  "OktaviaSearch_hasNextPage this =
    js_bind (the_result this) (\<lambda>result.
    js_bind (pages (length result) (os_entriesPerPage this)) (\<lambda>total. Inr (os_currentPage this \<noteq> int total)))"

definition OktaviaSearch_pageIndexes :: "OktaviaSearch \<Rightarrow> jsstring list js" where
  "OktaviaSearch_pageIndexes this =
    js_bind (the_result this) (\<lambda>result.
    js_bind (pages (length result) (os_entriesPerPage this)) (\<lambda>n.
      let total = int n; current = os_currentPage this
      in Inr (if total < 10 then map decimal_int [1..total]
         else if current \<le> 5 then map decimal_int [1..7] @ [js_lit ''...'', decimal_int total]
         else if total - 5 \<le> current then [js_lit ''1'', js_lit ''...''] @ map decimal_int [total - 8..total]
         else [js_lit ''1'', js_lit ''...''] @ map decimal_int [current - 3..current + 3] @ [js_lit ''...'', decimal_int total])))"

section \<open>The results of a page\<close>

definition metadata_getInformation :: "metadata \<Rightarrow> int \<Rightarrow> jsstring js" where
  "metadata_getInformation m index = (case m of
      MSection s \<Rightarrow> Section_getInformation s index
    | MSplitter s \<Rightarrow> Inr (Splitter_getInformation s index)
    | MTable _ \<Rightarrow> Inr []
    | MBlock _ \<Rightarrow> Inr [])"

definition metadata_getContent :: "Oktavia \<Rightarrow> metadata \<Rightarrow> int \<Rightarrow> jsstring js" where
  "metadata_getContent okt m index = (case m of
      MSection s \<Rightarrow> Metadata_getContent okt s index
    | MSplitter s \<Rightarrow> Metadata_getContent okt s index
    | MTable s \<Rightarrow> Metadata_getContent okt s index
    | MBlock s \<Rightarrow> Metadata_getContent okt s index)"

text \<open>
  One round of the loop that marks up the hits, from the last to the first; \<^verbatim>\<open>hit\<close> is the converted
  markup with an asterisk in the place of the word.
\<close>

definition mark_hit :: "jsstring \<Rightarrow> int \<Rightarrow> int \<Rightarrow> jsstring \<Rightarrow> Position \<Rightarrow> jsstring" where
  "mark_hit hit st0 stop content pos =
    (let p = int (p_position pos); w = int (length (p_word pos))
     in if p + w < stop then
          js_slice content 0 (p - st0) @ replace_match hit (js_lit ''*'') (js_slice content (p - st0) (p + w - st0)) @
          js_slice content (p + w - st0) (int (length content))
        else content)"

definition mark_hits :: "jsstring \<Rightarrow> int \<Rightarrow> int \<Rightarrow> jsstring \<Rightarrow> Position list \<Rightarrow> jsstring" where
  "mark_hits hit st0 stop content positions = foldl (mark_hit hit st0 stop) content (rev positions)"

text \<open>The text of a result: \<^verbatim>\<open>title\<close> is the first part of the information, \<^verbatim>\<open>250\<close> the number of characters shown.\<close>

definition result_text :: "jsstring \<Rightarrow> jsstring \<Rightarrow> jsstring \<Rightarrow> Position \<Rightarrow> Position list \<Rightarrow> jsstring" where
  "result_text hit title content first positions =
    (let cut = (string_index content title = Some 1);
         st0 = (if cut then int (length title) + 2 else 0);
         content = (if cut then js_slice content (int (length title) + 2) (int (length content)) else content);
         split = (st0 + 250 - int (length (p_word first)) < int (p_position first));
         stop = (if split then int (p_position first) + 125 else st0 + 250);
         content = mark_hits hit st0 stop content positions;
         text = (if split then js_slice content 0 125 @ js_lit '' ...'' @ line_break @ js_slice content (- 125) (stop - st0)
           else js_slice content 0 (stop - st0) @ js_lit '' ...'' @ line_break)
     in join_breaks (replace_match text [Oktavia_eob] [32]))"

definition result_entry_of :: "jsstring \<Rightarrow> OktaviaSearch \<Rightarrow> metadata \<Rightarrow> SearchUnit \<Rightarrow> result_entry js" where
  "result_entry_of hit this metadata unit =
    js_bind (metadata_getInformation metadata (int (su_id unit))) (\<lambda>information.
      let info = split_at Oktavia_eob information
      in js_bind (metadata_getContent (os_oktavia this) metadata (int (su_id unit))) (\<lambda>content.
         case SearchUnit_getPositions unit of
           [] \<Rightarrow> Inl (Throw ''TypeError'')
         | first # positions \<Rightarrow> Inr \<lparr>re_title = hd info, re_url = (if 1 < length info then Some (info ! 1) else None),
             re_content = result_text hit (hd info) content first (first # positions), re_score = su_score unit\<rparr>))"

definition page_range :: "OktaviaSearch \<Rightarrow> nat list \<Rightarrow> int list" where
  "page_range this result =
    (let e = int (os_entriesPerPage this)
     in [(os_currentPage this - 1) * e..min (os_currentPage this * e) (int (length result)) - 1])"

text \<open>The markup of a hit is converted for every hit; it is the same each time.\<close>

definition OktaviaSearch_getResult ::
  "text_host \<Rightarrow> nat \<Rightarrow> OktaviaSearch \<Rightarrow> result_entry list js" where
  "OktaviaSearch_getResult host fuel this =
    js_bind (the_result this) (\<lambda>result.
    js_bind (Style_convert host fuel (Style_new ''html'') (js_lit ''<hit>*</hit>'')) (\<lambda>hit.
    js_fold (\<lambda>results i.
      if i < 0 then Inl (Throw ''TypeError'')
      else js_bind (js_at result (nat i)) (\<lambda>a. js_bind (js_at (os_store this) a) (\<lambda>unit.
        case Oktavia_getPrimaryMetadata (os_oktavia this) of
          None \<Rightarrow> Inl (Throw ''TypeError'')
        | Some metadata \<Rightarrow> js_bind (result_entry_of hit this metadata unit) (\<lambda>entry. Inr (results @ [entry])))))
      [] (page_range this result)))"

section \<open>Proposals\<close>

definition proposal_entry_of ::
  "text_host \<Rightarrow> nat \<Rightarrow> Query list \<Rightarrow> Proposal \<Rightarrow> proposal_entry js" where
  "proposal_entry_of host fuel queries proposal =
    js_bind (js_fold (\<lambda>(label, option) j.
        let word = Query_toString (queries ! j); style = Style_new ''html''
        in if j \<noteq> pr_omit proposal
           then js_bind (Style_convert host fuel style (js_lit ''<hit>'' @ word @ js_lit ''</hit>'')) (\<lambda>s. Inr (label @ [s], option @ [word]))
           else js_bind (Style_convert host fuel style (js_lit ''<del>'' @ word @ js_lit ''</del>'')) (\<lambda>s. Inr (label @ [s], option)))
      ([], []) [0..<length queries])
      (\<lambda>(label, option). Inr \<lparr>pe_options = join [32] option, pe_label = join (js_lit ''&nbsp;'') label, pe_count = pr_expect proposal\<rparr>)"

definition OktaviaSearch_getHighlight :: "OktaviaSearch \<Rightarrow> jsstring" where
  "OktaviaSearch_getHighlight this = os_highlight this"

definition OktaviaSearch_getProposals ::
  "text_host \<Rightarrow> nat \<Rightarrow> OktaviaSearch \<Rightarrow> proposal_entry list js" where
  "OktaviaSearch_getProposals host fuel this = (case os_queries this of
      None \<Rightarrow> Inl (Throw ''TypeError'')
    | Some queries \<Rightarrow>
        if 1 < length queries then
          (case os_proposals this of
             None \<Rightarrow> Inl (Throw ''TypeError'')
           | Some proposals \<Rightarrow> js_fold (\<lambda>results proposal.
               if 0 < pr_expect proposal
               then js_bind (proposal_entry_of host fuel queries proposal) (\<lambda>entry. Inr (results @ [entry]))
               else Inr results) [] proposals)
        else Inr [])"

section \<open>Properties of the pages\<close>

lemma pages_Inr: "0 < e \<Longrightarrow> pages n e = Inr ((n + e - 1) div e)"
  by (simp add: pages_def)

lemma decimal_int_1: "decimal_int 1 = js_lit ''1''"
  by (simp add: decimal_int_def decimal.simps js_lit_def)

text \<open>
  The page navigation is short and never loses the reader: on every page of a result it has at
  most eleven entries, among them the first page, the last page and the current one.
\<close>

theorem OktaviaSearch_pageIndexes_navigates:
  assumes "os_result this = Some result" "0 < os_entriesPerPage this" "OktaviaSearch_totalPages this = Inr last_page"
    and "1 \<le> os_currentPage this" "os_currentPage this \<le> int last_page"
  shows "\<exists>ps. OktaviaSearch_pageIndexes this = Inr ps \<and> length ps \<le> 11 \<and>
    {js_lit ''1'', decimal_int (os_currentPage this), decimal_int (int last_page)} \<subseteq> set ps"
proof -
  let ?c = "os_currentPage this" and ?t = "int last_page"
  have eq: "pages (length result) (os_entriesPerPage this) = Inr last_page"
    using assms(1,3) by (simp add: OktaviaSearch_totalPages_def the_result_def)
  consider "?t < 10" | "\<not> ?t < 10" "?c \<le> 5" | "\<not> ?t < 10" "\<not> ?c \<le> 5" "?t - 5 \<le> ?c" | "\<not> ?t < 10" "\<not> ?c \<le> 5" "\<not> ?t - 5 \<le> ?c"
    by blast
  then show ?thesis
    using assms(1,4,5) eq
    by cases (auto simp: OktaviaSearch_pageIndexes_def the_result_def Let_def decimal_int_1 [symmetric])
qed

theorem OktaviaSearch_pageIndexes_navigates_witness:
  "\<exists>ps. OktaviaSearch_pageIndexes ((OktaviaSearch_new 10)\<lparr>os_result := Some [0..<200], os_currentPage := 9\<rparr>) = Inr ps \<and> length ps \<le> 11 \<and>
    {js_lit ''1'', decimal_int 9, decimal_int 20} \<subseteq> set ps"
  using OktaviaSearch_pageIndexes_navigates [of "(OktaviaSearch_new 10)\<lparr>os_result := Some [0..<200], os_currentPage := 9\<rparr>" "[0..<200]" 20]
  by (simp add: OktaviaSearch_new_def OktaviaSearch_totalPages_def the_result_def pages_def)

lemma upto_append: "i \<le> j \<Longrightarrow> j \<le> k \<Longrightarrow> [i..j - 1] @ [j..k - 1] = [i..k - 1 :: int]"
  using upto_split1 [of i j "k - 1"] by (cases "j = k") auto

lemma page_ranges:
  assumes "0 < e"
  shows "concat (map (\<lambda>k. [(k - 1) * int e..min (k * int e) (int n) - 1]) [1..int m]) = [0..min (int m * int e) (int n) - 1]"
proof (induction m)
  case (Suc m)
  have "[1..int (Suc m)] = [1..int m] @ [int m + 1]" using upto_rec2 [of 1 "int (Suc m)"] by (simp add: add.commute)
  moreover have "[0..min (int m * int e) (int n) - 1] @ [int m * int e..min ((int m + 1) * int e) (int n) - 1] =
      [0..min ((int m + 1) * int e) (int n) - 1]"
  proof (cases "int n \<le> int m * int e")
    case True
    moreover have "int m * int e \<le> (int m + 1) * int e" by (simp add: distrib_right)
    ultimately show ?thesis using assms by (auto simp: min_def distrib_right)
  next
    case False
    then show ?thesis using upto_append [of 0 "int m * int e" "min ((int m + 1) * int e) (int n)"] by (simp add: min_def distrib_right)
  qed
  ultimately show ?case using Suc by (simp add: add.commute)
qed simp

text \<open>
  C16.  The pages of a result, one after the other, show every entry of it once and in the order of the
  result.
\<close>

theorem OktaviaSearch_pages_partition:
  assumes "os_result this = Some result" "0 < os_entriesPerPage this" "OktaviaSearch_totalPages this = Inr last_page"
  shows "concat (map (\<lambda>page. page_range (OktaviaSearch_setCurrentPage this page) result) [1..int last_page]) = [0..int (length result) - 1]"
proof -
  let ?e = "os_entriesPerPage this" and ?n = "length result"
  have eq: "last_page = (?n + ?e - 1) div ?e" using assms by (simp add: OktaviaSearch_totalPages_def the_result_def pages_Inr)
  have "?n \<le> last_page * ?e"
    unfolding eq using assms(2) div_mult_mod_eq [of "?n + ?e - 1" ?e] mod_less_divisor [OF assms(2), of "?n + ?e - 1"] by linarith
  then have "min (int last_page * int ?e) (int ?n) = int ?n" by (simp add: min_def flip: of_nat_mult)
  then show ?thesis
    using page_ranges [OF assms(2), of ?n last_page] by (simp add: page_range_def OktaviaSearch_setCurrentPage_def Let_def)
qed

theorem OktaviaSearch_pages_partition_witness:
  "concat (map (\<lambda>page. page_range (OktaviaSearch_setCurrentPage ((OktaviaSearch_new 2)\<lparr>os_result := Some [7, 8, 9]\<rparr>) page) [7, 8, 9]) [1..2]) = [0, 1, 2]"
proof -
  have "OktaviaSearch_totalPages ((OktaviaSearch_new 2)\<lparr>os_result := Some [7, 8, 9]\<rparr>) = Inr 2"
    by (simp add: OktaviaSearch_new_def OktaviaSearch_totalPages_def the_result_def pages_def)
  then show ?thesis
    using OktaviaSearch_pages_partition [of "(OktaviaSearch_new 2)\<lparr>os_result := Some [7, 8, 9]\<rparr>" "[7, 8, 9]" 2]
    by (simp add: OktaviaSearch_new_def upto.simps [of 0 2] upto.simps [of 1 2])
qed

text \<open>
  There is a next page exactly before the last one; but a search without results, which has no
  pages, claims to have a next page.
\<close>

theorem OktaviaSearch_hasNextPage_result:
  assumes "os_result this = Some result" "0 < os_entriesPerPage this" "OktaviaSearch_totalPages this = Inr last_page"
  shows "(result \<noteq> [] \<longrightarrow> os_currentPage this \<le> int last_page \<longrightarrow> OktaviaSearch_hasNextPage this = Inr (os_currentPage this < int last_page)) \<and>
    (result = [] \<longrightarrow> os_currentPage this = 1 \<longrightarrow> OktaviaSearch_hasNextPage this = Inr True)"
  using assms by (auto simp: OktaviaSearch_hasNextPage_def OktaviaSearch_totalPages_def the_result_def pages_Inr)

theorem OktaviaSearch_hasNextPage_result_witness:
  "OktaviaSearch_hasNextPage ((OktaviaSearch_new 10)\<lparr>os_result := Some []\<rparr>) = Inr True \<and>
   OktaviaSearch_hasNextPage ((OktaviaSearch_new 2)\<lparr>os_result := Some [7, 8, 9], os_currentPage := 2\<rparr>) = Inr False"
  using OktaviaSearch_hasNextPage_result [of "(OktaviaSearch_new 10)\<lparr>os_result := Some []\<rparr>" "[]" 0]
    OktaviaSearch_hasNextPage_result [of "(OktaviaSearch_new 2)\<lparr>os_result := Some [7, 8, 9], os_currentPage := 2\<rparr>" "[7, 8, 9]" 2]
  by (simp add: OktaviaSearch_new_def OktaviaSearch_totalPages_def the_result_def pages_def)

section \<open>Marking the hits\<close>

lemma string_index_char: "c \<notin> set s \<Longrightarrow> string_index (s @ c # t) [c] = Some (length s)"
  by (induction s) auto

lemma expand_plain: "36 \<notin> set r \<Longrightarrow> expand bef mat aft r = r"
  by (induction bef mat aft r rule: expand.induct) auto

lemma replace_match_hit: "42 \<notin> set opn \<Longrightarrow> 36 \<notin> set w \<Longrightarrow> replace_match (opn @ 42 # cls) (js_lit ''*'') w = opn @ w @ cls"
  using string_index_char [of 42 opn cls] by (simp add: replace_match_def js_lit_def expand_plain)

lemma js_slice_nat: "i \<le> j \<Longrightarrow> j \<le> length s \<Longrightarrow> js_slice s (int i) (int j) = take (j - i) (drop i s)"
  by (simp add: js_slice_def slice_index_def)

lemma js_slice_negative:
  "0 < i \<Longrightarrow> i \<le> length s \<Longrightarrow> slice_index s (- int i) = length s - i"
  by (simp add: slice_index_def nat_diff_distrib)

text \<open>
  A text in which the spans \<^verbatim>\<open>(p, w)\<close>, from left to right, are put between two texts, from the index \<^verbatim>\<open>k\<close> on.
\<close>

fun marked_text :: "jsstring \<Rightarrow> jsstring \<Rightarrow> jsstring \<Rightarrow> nat \<Rightarrow> (nat \<times> nat) list \<Rightarrow> jsstring" where
  "marked_text opn cls content k [] = drop k content"
| "marked_text opn cls content k ((p, w) # spans) =
    take (p - k) (drop k content) @ opn @ take w (drop p content) @ cls @ marked_text opn cls content (p + w) spans"

fun spans_ok :: "nat \<Rightarrow> nat \<Rightarrow> (nat \<times> nat) list \<Rightarrow> bool" where
  "spans_ok k n [] \<longleftrightarrow> k \<le> n"
| "spans_ok k n ((p, w) # spans) \<longleftrightarrow> k \<le> p \<and> spans_ok (p + w) n spans"

definition span :: "nat \<Rightarrow> Position \<Rightarrow> nat \<times> nat" where
  "span offset pos = (p_position pos - offset, length (p_word pos))"

lemma spans_ok_le: "spans_ok k n spans \<Longrightarrow> k \<le> n"
  by (induction k n spans rule: spans_ok.induct) auto

lemma mark_hits_Cons: "mark_hits hit st0 stop content (x # xs) = mark_hit hit st0 stop (mark_hits hit st0 stop content xs) x"
  by (simp add: mark_hits_def)

lemma mark_hit_span:
  assumes "42 \<notin> set opn" "36 \<notin> set content" "offset \<le> p_position pos" "int (p_position pos) + int (length (p_word pos)) < stop"
    and "span offset pos = (p, w)" "p + w \<le> length content"
  shows "mark_hit (opn @ 42 # cls) (int offset) stop (take (p + w) content @ rest) pos =
    take p content @ opn @ take w (drop p content) @ cls @ rest"
proof -
  let ?c = "take (p + w) content @ rest"
  have pos: "int (p_position pos) - int offset = int p" "int (p_position pos) + int (length (p_word pos)) - int offset = int (p + w)"
    using assms(3,5) by (auto simp: span_def)
  have "js_slice ?c 0 (int p) = take p content" using js_slice_nat [of 0 p ?c] assms(6) by (simp add: min_def)
  moreover have "js_slice ?c (int p) (int (p + w)) = take w (drop p content)"
    using js_slice_nat [of p "p + w" ?c] assms(6) by (simp add: drop_take)
  moreover have "js_slice ?c (int (p + w)) (int (length ?c)) = rest"
    using js_slice_nat [of "p + w" "length ?c" ?c] assms(6) by simp
  moreover have "36 \<notin> set (take w (drop p content))" using assms(2) by (meson in_set_dropD in_set_takeD)
  ultimately show ?thesis
    using assms(4) pos replace_match_hit [OF assms(1)] by (simp add: mark_hit_def Let_def del: of_nat_add)
qed

lemma mark_hits_spans:
  assumes "42 \<notin> set opn" "36 \<notin> set content"
  shows "list_all (\<lambda>pos. offset \<le> p_position pos \<and> int (p_position pos) + int (length (p_word pos)) < stop) positions \<Longrightarrow>
    spans_ok k (length content) (map (span offset) positions) \<Longrightarrow>
    mark_hits (opn @ 42 # cls) (int offset) stop content positions = take k content @ marked_text opn cls content k (map (span offset) positions)"
proof (induction positions arbitrary: k)
  case (Cons pos positions)
  obtain p w where pw: "span offset pos = (p, w)" by (cases "span offset pos")
  have ok: "k \<le> p" "spans_ok (p + w) (length content) (map (span offset) positions)" using Cons.prems(2) pw by simp_all
  have "mark_hits (opn @ 42 # cls) (int offset) stop content positions = take (p + w) content @ marked_text opn cls content (p + w) (map (span offset) positions)"
    using Cons.IH [OF _ ok(2)] Cons.prems(1) by simp
  moreover have "take p content = take k content @ take (p - k) (drop k content)" using ok(1) by (metis le_add_diff_inverse take_add)
  ultimately show ?case
    using mark_hit_span [OF assms _ _ pw spans_ok_le [OF ok(2)]] Cons.prems(1) pw by (simp add: mark_hits_Cons)
qed (simp add: mark_hits_def)

lemma mark_hits_filter:
  "mark_hits hit st0 stop content positions =
    mark_hits hit st0 stop content (filter (\<lambda>pos. int (p_position pos) + int (length (p_word pos)) < stop) positions)"
  by (induction positions) (simp_all add: mark_hits_def mark_hit_def)

text \<open>The markup of a hit in the results.\<close>

definition hit_open :: jsstring where
  "hit_open = js_lit ''<span class='' @ quoted ''hit'' @ js_lit ''>''"

definition hit_close :: jsstring where
  "hit_close = js_lit ''</span>''"

lemma convert_hit:
  assumes "th_lower host (js_lit ''hit'') = js_lit ''hit''" "12 < fuel"
  shows "Style_convert host fuel (Style_new ''html'') (js_lit ''<hit>*</hit>'') = Inr (hit_open @ 42 # hit_close)"
proof -
  let ?ms = "[Plain (js_lit ''*'')]"
  have "markup_ok (html_env host) (Element (js_lit ''hit'') [] ?ms)"
    using assms(1) by (simp add: name_ok_def attributes_ok_def html_env_def js_lit_def nameStart_def nameBody_def)
  moreover have "styled (sty_styles (Style_new ''html'')) (Element (js_lit ''hit'') [] ?ms)"
    by (simp add: Style_new_def style_html_def js_lit_def)
  ultimately show ?thesis
    using Style_convert_show [of host "js_lit ''hit''" "[]" ?ms "Style_new ''html''" fuel] assms(2)
    by (simp add: Style_new_def style_html_def escape_def escape_char_def flush_def pre_depth_def textopts_def white_space_def
      escapeHTML_def replace_all_def js_lit_def quoted_def hit_open_def hit_close_def)
qed

lemma hit_open_plain: "42 \<notin> set hit_open"
  by (simp add: hit_open_def js_lit_def quoted_def)

text \<open>
  C15.  Hits are marked up where they are: for hits in order that do not overlap and lie behind the
  part that was cut off, the text of a result has the markup around exactly the hits that end before
  the limit, and is the content of the document elsewhere.  (The text must not contain a dollar sign,
  which \<^verbatim>\<open>replace\<close> would interpret.)
\<close>

theorem mark_hits_correct:
  assumes "36 \<notin> set content" "list_all (\<lambda>pos. offset \<le> p_position pos) positions"
    and "shown = map (span offset) (filter (\<lambda>pos. int (p_position pos) + int (length (p_word pos)) < stop) positions)"
    and "spans_ok 0 (length content) shown"
  shows "mark_hits (hit_open @ 42 # hit_close) (int offset) stop content positions = marked_text hit_open hit_close content 0 shown"
proof -
  let ?ps = "filter (\<lambda>pos. int (p_position pos) + int (length (p_word pos)) < stop) positions"
  have "list_all (\<lambda>pos. offset \<le> p_position pos \<and> int (p_position pos) + int (length (p_word pos)) < stop) ?ps"
    using assms(2) by (auto simp: list_all_iff)
  from mark_hits_spans [OF hit_open_plain assms(1) this, of 0] show ?thesis
    using assms(3,4) by (subst mark_hits_filter) simp
qed

definition sample_position :: "nat \<Rightarrow> jsstring \<Rightarrow> Position" where
  "sample_position p w = \<lparr>p_word = w, p_position = p, p_stemmed = False\<rparr>"

theorem mark_hits_correct_witness:
  "mark_hits (hit_open @ 42 # hit_close) 0 250 (js_lit ''a cat and a cat'') [sample_position 2 (js_lit ''cat''), sample_position 12 (js_lit ''cat'')] =
    js_lit ''a '' @ hit_open @ js_lit ''cat'' @ hit_close @ js_lit '' and a '' @ hit_open @ js_lit ''cat'' @ hit_close"
  using mark_hits_correct [of "js_lit ''a cat and a cat''" 0 "[sample_position 2 (js_lit ''cat''), sample_position 12 (js_lit ''cat'')]" "[(2, 3), (12, 3)]" 250]
  by (simp add: js_lit_def sample_position_def span_def)

text \<open>
  C39.  A hit in the title, which is cut off the content, is not skipped: its position relative to the rest
  is negative, and \<^verbatim>\<open>slice\<close> counts it from the end, so that as many characters are marked up at that
  distance from the end of the text, whatever they are.
\<close>

theorem mark_hit_in_title:
  assumes "36 \<notin> set content" "p_position pos + length (p_word pos) < offset" "int offset \<le> stop" "offset - p_position pos \<le> length content"
    and "k = length content - (offset - p_position pos)" "w = length (p_word pos)"
  shows "mark_hit (hit_open @ 42 # hit_close) (int offset) stop content pos =
    take k content @ hit_open @ take w (drop k content) @ hit_close @ drop (k + w) content"
proof -
  let ?a = "offset - p_position pos" and ?b = "offset - (p_position pos + length (p_word pos))"
  have i: "int (p_position pos) - int offset = - int ?a" "int (p_position pos) + int (length (p_word pos)) - int offset = - int ?b"
    using assms(2) by simp_all
  have idx: "slice_index content (- int ?a) = k" "slice_index content (- int ?b) = k + w"
    using assms(2,4,5,6) js_slice_negative [of ?a content] js_slice_negative [of ?b content] by auto
  have "slice_index content 0 = 0" "slice_index content (int (length content)) = length content" by (simp_all add: slice_index_def)
  moreover have "36 \<notin> set (take w (drop k content))" using assms(1) by (meson in_set_dropD in_set_takeD)
  ultimately have slices: "js_slice content 0 (- int ?a) = take k content"
    "replace_match (hit_open @ 42 # hit_close) (js_lit ''*'') (js_slice content (- int ?a) (- int ?b)) = hit_open @ take w (drop k content) @ hit_close"
    "js_slice content (- int ?b) (int (length content)) = drop (k + w) content"
    using idx replace_match_hit [OF hit_open_plain, of "take w (drop k content)" hit_close] by (simp_all add: js_slice_def)
  have "int (p_position pos) + int (length (p_word pos)) < stop" using assms(2,3) by simp
  then show ?thesis by (simp only: mark_hit_def Let_def if_True i slices append_assoc)
qed

theorem mark_hit_in_title_witness:
  "mark_hit (hit_open @ 42 # hit_close) 6 256 (js_lit ''a dog and a fox'') (sample_position 1 (js_lit ''cat'')) =
    js_lit ''a dog and '' @ hit_open @ js_lit ''a f'' @ hit_close @ js_lit ''ox''"
  using mark_hit_in_title [of "js_lit ''a dog and a fox''" "sample_position 1 (js_lit ''cat'')" 6 256]
  by (simp add: js_lit_def sample_position_def)

section \<open>Proposals and loose brackets\<close>

lemma proposal_entry_loose:
  assumes "th_lower host (js_lit ''hit'') = js_lit ''hit''" "th_lower host (js_lit ''del'') = js_lit ''del''"
    and "Query_toString q = v @ [60, 32, c] @ rest" "60 \<notin> set v" "38 \<notin> set v" "\<not> sax_space c" "\<not> nameStart c" "c \<notin> {33, 47, 63}"
  shows "proposal_entry_of host fuel (q # queries) pr = Inl Diverge"
proof -
  have loose: "Style_convert host fuel (Style_new ''html'') ([60] @ js_lit n @ [62] @ v @ [60, 32, c] @ rest @ t) = Inl Diverge" if "n \<in> {''hit'', ''del''}" for n t
    using that Style_convert_loose [OF _ _ _ _ _ _ assms(4-), of "js_lit n"] assms(1,2)
    by (auto simp: js_lit_def style_html_def nameBody_def nameStart_def)
  have "Style_convert host fuel (Style_new ''html'') (js_lit ''<hit>'' @ Query_toString q @ js_lit ''</hit>'') = Inl Diverge"
      "Style_convert host fuel (Style_new ''html'') (js_lit ''<del>'' @ Query_toString q @ js_lit ''</del>'') = Inl Diverge"
    using assms(3) loose [of "''hit''" "js_lit ''</hit>''"] loose [of "''del''" "js_lit ''</del>''"] by (simp_all add: js_lit_def)
  moreover have "[0..<length (q # queries)] = 0 # [1..<length (q # queries)]" by (simp add: upt_conv_Cons del: upt_Suc)
  ultimately show ?thesis unfolding proposal_entry_of_def by (simp add: Let_def del: upt_Suc)
qed

text \<open>
  C38.  The words of a query are put into the markup of a proposal as they are.  Take a search for at
  least two queries of which the first, as it is printed, has an opening bracket, then a space and then a
  character that is not white space and starts neither a name nor a declaration, a closing tag or an
  instruction, with no bracket or ampersand before; for example the phrase \<^verbatim>\<open>a < 5\<close>.  If one of the
  proposals expects hits, whichever query it leaves out, the list of proposals is never delivered.
  (The case mapping of the host must keep the names of the two tags.)
\<close>

theorem OktaviaSearch_getProposals_loose_bracket:
  assumes "th_lower host (js_lit ''hit'') = js_lit ''hit''" "th_lower host (js_lit ''del'') = js_lit ''del''"
    and "os_queries this = Some (q # q' # queries)" "os_proposals this = Some proposals" "\<exists>pr \<in> set proposals. 0 < pr_expect pr"
    and "Query_toString q = v @ [60, 32, c] @ rest" "60 \<notin> set v" "38 \<notin> set v" "\<not> sax_space c" "\<not> nameStart c" "c \<notin> {33, 47, 63}"
  shows "OktaviaSearch_getProposals host fuel this = Inl Diverge"
proof -
  note entry = proposal_entry_loose [OF assms(1,2,6-)]
  have "js_fold (\<lambda>results proposal. if 0 < pr_expect proposal
      then js_bind (proposal_entry_of host fuel (q # q' # queries) proposal) (\<lambda>entry. Inr (results @ [entry])) else Inr results) acc proposals = Inl Diverge" for acc
    using assms(5) by (induction proposals arbitrary: acc) (auto simp: entry)
  then show ?thesis using assms(3,4) by (simp add: OktaviaSearch_getProposals_def)
qed

theorem OktaviaSearch_getProposals_loose_bracket_witness:
  "OktaviaSearch_getProposals plain_host 1000 ((OktaviaSearch_new 10)\<lparr>
      os_queries := Some (snd (QueryStringParser_parse QueryStringParser_new ([34] @ js_lit ''a < 5'' @ [34] @ js_lit '' cat''))),
      os_proposals := Some [\<lparr>pr_omit = 1, pr_expect = 0\<rparr>, \<lparr>pr_omit = 0, pr_expect = 3\<rparr>]\<rparr>) = Inl Diverge"
proof -
  have parse: "snd (QueryStringParser_parse QueryStringParser_new ([34] @ js_lit ''a < 5'' @ [34] @ js_lit '' cat'')) =
      [\<lparr>q_word = js_lit ''a < 5'', q_or = False, q_not = False, q_raw = True\<rparr>, \<lparr>q_word = js_lit ''cat'', q_or = False, q_not = False, q_raw = False\<rparr>]"
    by (simp add: QueryStringParser_parse_def QueryStringParser_new_def parse_char_def parse_end_def push_query_def slice_def isSpace_def
      js_lit_def word_OR_def Let_def)
  show ?thesis unfolding parse
    by (rule OktaviaSearch_getProposals_loose_bracket [of plain_host _ "\<lparr>q_word = js_lit ''a < 5'', q_or = False, q_not = False, q_raw = True\<rparr>" _ _
        "[\<lparr>pr_omit = 1, pr_expect = 0\<rparr>, \<lparr>pr_omit = 0, pr_expect = 3\<rparr>]" "[34, 97, 32]" 53 "[34]"])
      (simp_all add: Query_toString_def js_lit_def sax_space_def nameStart_def plain_host_def)
qed

section \<open>A search through the front end\<close>

text \<open>The positions of all units in a store are below a bound.\<close>

definition store_within :: "nat \<Rightarrow> unit_store \<Rightarrow> bool" where
  "store_within n h \<longleftrightarrow> (\<forall>u \<in> set h. \<forall>x \<in> set (su_positions u). p_position (snd x) < n)"

lemma js_fold_keeps:
  assumes "\<And>acc x acc'. x \<in> set xs \<Longrightarrow> I acc \<Longrightarrow> f acc x = Inr acc' \<Longrightarrow> I acc'"
  shows "I acc \<Longrightarrow> js_fold f acc xs = Inr acc' \<Longrightarrow> I acc'"
  using assms by (induction xs arbitrary: acc) (auto simp: js_bind_eq_Inr)

lemma set_obj_set: "set (obj_set k v m) \<subseteq> insert (k, v) (set m)"
  by (induction k v m rule: obj_set.induct) auto

lemma addPosition_within:
  assumes "\<forall>x \<in> set (su_positions u). p_position (snd x) < n" "position < n"
  shows "\<forall>x \<in> set (su_positions (SearchUnit_addPosition u word position stemmed)). p_position (snd x) < n"
proof (cases "obj_get (su_positions u) position")
  case None
  then show ?thesis using assms set_obj_set [of position _ "su_positions u"] by (fastforce simp: SearchUnit_addPosition_def)
next
  case (Some pos)
  then have "(position, pos) \<in> set (su_positions u)" by (simp add: obj_get_def map_of_SomeD)
  then have "p_position pos < n" using assms(1) by fastforce
  then show ?thesis using Some assms set_obj_set [of position _ "su_positions u"] by (fastforce simp: SearchUnit_addPosition_def Let_def)
qed

lemma store_within_put: "store_within n h \<Longrightarrow> \<forall>x \<in> set (su_positions u). p_position (snd x) < n \<Longrightarrow> js_put h a u = Inr h' \<Longrightarrow> store_within n h'"
  using set_update_subset_insert [of h a u] by (auto simp: store_within_def js_put_def split: if_splits)

lemma store_within_at: "store_within n h \<Longrightarrow> js_at h a = Inr u \<Longrightarrow> \<forall>x \<in> set (su_positions u). p_position (snd x) < n"
  by (auto simp: store_within_def js_at_def split: if_splits)

lemma getSearchUnit_within:
  "store_within n h \<Longrightarrow> SingleResult_getSearchUnit h r k = Inr (h', r', a) \<Longrightarrow> store_within n h'"
  by (auto simp: SingleResult_getSearchUnit_def store_within_def SearchUnit_new_def js_bind_eq_Inr split: option.splits)

lemma unit_step_within:
  assumes "store_within n h" "js_at h a = Inr u" "su_positions u' = su_positions u" "position < n"
    and "js_put h a (SearchUnit_addPosition u' word position stemmed) = Inr h'"
  shows "store_within n h'"
proof (rule store_within_put [OF assms(1) _ assms(5)])
  show "\<forall>x \<in> set (su_positions (SearchUnit_addPosition u' word position stemmed)). p_position (snd x) < n"
    using store_within_at [OF assms(1,2)] assms(3) by (intro addPosition_within [OF _ assms(4)]) simp
qed

lemma group_position_within:
  assumes "store_within n (fst hr)" "position < n" "group_position sectionOf startOf word stemmed hr position = Inr hr'"
  shows "store_within n (fst hr')"
proof -
  obtain h r h' r' where hr: "hr = (h, r)" "hr' = (h', r')" by (cases hr; cases hr')
  obtain index y where 1: "SingleResult_getSearchUnit h r index = Inr y"
    and 2: "(\<lambda>(h, result, a). js_bind (js_at h a) (\<lambda>unit.
      js_bind (if su_startPosition unit < 0 then js_bind (startOf index) (\<lambda>p. Inr (unit\<lparr>su_startPosition := int p\<rparr>)) else Inr unit) (\<lambda>unit.
      if int position < su_startPosition unit then Inl Undef
      else js_bind (js_put h a (SearchUnit_addPosition unit word (nat (int position - su_startPosition unit)) stemmed)) (\<lambda>h.
        Inr (h, result))))) y = Inr (h', r')"
    using assms(3) by (auto simp: hr group_position_def js_bind_eq_Inr [of "sectionOf position"] js_bind_eq_Inr [of "SingleResult_getSearchUnit h r _"])
  obtain h1 r1 a where y: "y = (h1, r1, a)" by (cases y)
  obtain u where u: "js_at h1 a = Inr u" using 2 y by (auto simp: js_bind_eq_Inr [of "js_at h1 a"])
  define v where "v = (if su_startPosition u < 0 then js_bind (startOf index) (\<lambda>p. Inr (u\<lparr>su_startPosition := int p\<rparr>)) else Inr u)"
  obtain u' where u': "v = Inr u'" and 3: "(if int position < su_startPosition u' then Inl Undef
      else js_bind (js_put h1 a (SearchUnit_addPosition u' word (nat (int position - su_startPosition u')) stemmed)) (\<lambda>h. Inr (h, r1))) = Inr (h', r')"
    using 2 y u by (auto simp: v_def [symmetric] js_bind_eq_Inr [of v])
  have keep: "su_positions u' = su_positions u" "0 \<le> su_startPosition u'" using u' by (auto simp: v_def js_bind_eq_Inr split: if_splits)
  have put: "js_put h1 a (SearchUnit_addPosition u' word (nat (int position - su_startPosition u')) stemmed) = Inr h'"
    using 3 by (auto simp: js_bind_eq_Inr split: if_splits)
  have "store_within n h1" using getSearchUnit_within [of n h r index h1 r1 a] 1 y assms(1) hr by simp
  moreover have "nat (int position - su_startPosition u') < n" using assms(2) keep(2) by linarith
  ultimately show ?thesis using unit_step_within [OF _ u keep(1) _ put] hr by simp
qed

lemma add_all_within:
  "\<forall>x \<in> set ys. p_position (snd x) < n \<Longrightarrow> \<forall>x \<in> set (su_positions u). p_position (snd x) < n \<Longrightarrow>
    \<forall>x \<in> set (su_positions (foldl (\<lambda>u (k, pos). SearchUnit_addPosition u (p_word pos) (p_position pos) (p_stemmed pos)) u ys)). p_position (snd x) < n"
proof (induction ys arbitrary: u)
  case (Cons y ys)
  obtain k pos where y: "y = (k, pos)" by (cases y)
  have "\<forall>x \<in> set (su_positions (SearchUnit_addPosition u (p_word pos) (p_position pos) (p_stemmed pos))). p_position (snd x) < n"
    using Cons.prems y by (intro addPosition_within) simp_all
  from Cons.IH [OF _ this] show ?case using Cons.prems(1) y by simp
qed simp

lemma merge_units_within:
  assumes "store_within n h" "merge_units h a b = Inr h'"
  shows "store_within n h'"
proof -
  obtain l r where "js_at h a = Inr l" "js_at h b = Inr r" "js_put h a (SearchUnit_merge l r) = Inr h'"
    using assms(2) by (auto simp: merge_units_def js_bind_eq_Inr)
  moreover from this have "\<forall>x \<in> set (su_positions (SearchUnit_merge l r)). p_position (snd x) < n"
    unfolding SearchUnit_merge_def by (intro add_all_within store_within_at [OF assms(1)])
  ultimately show ?thesis using store_within_put [OF assms(1)] by blast
qed

lemma orMerge_within:
  assumes "store_within n h" "SingleResult_orMerge h this result rhs = Inr (h', r)"
  shows "store_within n h'"
proof -
  have "store_within n (fst (h', r))"
  proof (rule js_fold_keeps [where I = "\<lambda>hr. store_within n (fst hr)", OF _ _ assms(2) [unfolded SingleResult_orMerge_def]])
    fix hr i hr'
    assume keep: "store_within n (fst hr)" and step: "(case hr of (h, result) \<Rightarrow> \<lambda>i. js_bind (js_at (r_unitIds rhs) i) (\<lambda>id.
        js_bind (js_at (r_units rhs) i) (\<lambda>rhsSection. case index_of (r_unitIds result) id of
            None \<Rightarrow> Inr (h, push_unit result id rhsSection)
          | Some k \<Rightarrow> js_bind (js_at (r_units result) k) (\<lambda>lhsSection.
              js_bind (merge_units h lhsSection rhsSection) (\<lambda>h. Inr (h, result)))))) i = Inr hr'"
    obtain h1 result where hr: "hr = (h1, result)" by (cases hr)
    have "fst hr' = h1 \<or> (\<exists>a b. merge_units h1 a b = Inr (fst hr'))"
      using step unfolding hr by (cases "js_at (r_unitIds rhs) i"; cases "index_of (r_unitIds result) (projr (js_at (r_unitIds rhs) i))")
        (auto simp: js_bind_eq_Inr simp del: index_of_None)
    then show "store_within n (fst hr')" using keep merge_units_within hr by auto
  qed (simp add: assms(1))
  then show ?thesis by simp
qed

lemma SingleResult_merge_within: "store_within n h \<Longrightarrow> SingleResult_merge h this rhs = Inr (h', r) \<Longrightarrow> store_within n h'"
  by (auto simp: SingleResult_merge_def Let_def js_bind_eq_Inr orMerge_within split: if_splits)

lemma mergeResults_within:
  assumes "store_within n h" "mergeResults h rs = Inr (h', r)"
  shows "store_within n h'"
proof (cases rs)
  case (Cons x xs)
  then obtain r1 where run: "js_fold (\<lambda>(h, rhs) r. SingleResult_merge h rhs r) (h, x) xs = Inr (h', r1)"
    using assms(2) by (auto simp: mergeResults_def js_bind_eq_Inr)
  have "store_within n (fst (h', r1))"
    by (rule js_fold_keeps [where I = "\<lambda>hr. store_within n (fst hr)", OF _ _ run]) (use assms(1) SingleResult_merge_within in \<open>auto split: prod.splits\<close>)
  then show ?thesis by simp
qed (use assms in \<open>simp add: mergeResults_def\<close>)

lemma hits_less: "answerable toLower stem docs q \<Longrightarrow> p \<in> hits toLower stem docs q \<Longrightarrow> p < length (doc_text docs)"
  using occurrences_less by (auto simp: hits_def answerable_def findable_def split: if_splits)

lemma searchQuery_within:
  assumes e: "engine toLower stem key docs M d okt" and q: "answerable toLower stem docs q"
    and h: "store_within (length (doc_text docs)) h" and run: "Oktavia_searchQuery toLower okt h q = Inr (h', r)"
  shows "store_within (length (doc_text docs)) h'"
proof -
  obtain s where md: "Oktavia_getPrimaryMetadata okt = Some (MSection s)" and okt: "searchable okt (doc_text docs) M d"
    using e by (auto simp: engine_def)
  have w: "findable (doc_text docs) (q_word q)" using q by (simp add: answerable_def)
  obtain ps where ps: "Oktavia_rawSearch toLower okt (q_word q) False = Inr ps" "set ps = occurrences (q_word q) (doc_text docs)"
    using rawSearch_exact [OF okt findable_lookup [OF e w], of toLower] by blast
  obtain qs where qs: "(if q_raw q then Inr ps
      else js_bind (Oktavia_rawSearch toLower okt (q_word q) True) (\<lambda>stems. Inr (ps @ stems))) = Inr qs" "set qs = hits toLower stem docs q"
    using rawSearch_stems [OF e q] ps(2) by (cases "q_raw q") (auto simp: hits_def)
  have "Section_grouping s h (SingleResult_query (q_word q) (q_or q) (q_not q)) qs (q_word q) (\<not> q_raw q) = Inr (h', r)"
    using run ps(1) qs(1) md by (simp add: Oktavia_searchQuery_def metadata_grouping_def)
  note fold = this [unfolded Section_grouping_def]
  have "store_within (length (doc_text docs)) (fst (h', r))"
  proof (rule js_fold_keeps [where I = "\<lambda>hr. store_within (length (doc_text docs)) (fst hr)", OF _ _ fold])
    fix hr p hr'
    assume p: "p \<in> set qs" "store_within (length (doc_text docs)) (fst hr)"
      "group_position (\<lambda>position. Section_getSectionIndex s (int position)) (\<lambda>index. Metadata_getStartPosition s (int index)) (q_word q) (\<not> q_raw q) hr p = Inr hr'"
    then show "store_within (length (doc_text docs)) (fst hr')" using hits_less [OF q, of p] qs(2) group_position_within [OF p(2) _ p(3)] by simp
  qed (simp add: h)
  then show ?thesis by simp
qed

lemma engine_search_ok:
  assumes e: "engine toLower stem key docs M d okt" and qs: "qs \<noteq> []" "\<forall>q \<in> set qs. answerable toLower stem docs q"
  shows "\<exists>h s r. Oktavia_search toLower okt [] qs = Inr (h, s) \<and> s_result s = Some r \<and> result_ok h r \<and> store_ok h
    \<and> set (r_unitIds r) = eval_queries (\<lambda>q. stretch (doc_tails docs) ` hits toLower stem docs q) qs
    \<and> store_within (length (doc_text docs)) h \<and> length (s_sourceResults s) = length qs \<and> (\<forall>r \<in> set (s_sourceResults s). result_ok h r)"
proof -
  let ?D = "\<lambda>q r. set (r_unitIds r) = stretch (doc_tails docs) ` hits toLower stem docs q \<and> r_or r = q_or q \<and> r_not r = q_not q"
  let ?n = "length (doc_text docs)"
  obtain h rs where rs: "js_fold (\<lambda>(h, summary) query.
        js_bind (Oktavia_searchQuery toLower okt h query) (\<lambda>(h, result). Inr (h, SearchSummary_addQuery summary result)))
      ([], SearchSummary_new) qs = Inr (h, \<lparr>s_sourceResults = rs, s_result = None\<rparr>)"
    "store_ok h" "list_all2 ?D qs rs" "\<forall>r \<in> set rs. result_ok h r"
    using search_fold [OF e qs(2)] by blast
  have "store_within ?n (fst (h, \<lparr>s_sourceResults = rs, s_result = None\<rparr>))"
  proof (rule js_fold_keeps [where I = "\<lambda>hs. store_within ?n (fst hs)", OF _ _ rs(1)])
    fix hs q hs'
    assume q: "q \<in> set qs" "store_within ?n (fst hs)" and step: "(case hs of (h, summary) \<Rightarrow> \<lambda>query.
        js_bind (Oktavia_searchQuery toLower okt h query) (\<lambda>(h, result). Inr (h, SearchSummary_addQuery summary result))) q = Inr hs'"
    obtain r where "Oktavia_searchQuery toLower okt (fst hs) q = Inr (fst hs', r)"
      using step by (cases hs) (auto simp: js_bind_eq_Inr)
    then show "store_within ?n (fst hs')" using searchQuery_within [OF e _ q(2)] qs(2) q(1) by blast
  qed (simp add: store_within_def)
  then have within: "store_within ?n h" by simp
  have "rs \<noteq> []" using rs(3) qs(1) by auto
  from mergeResults_correct [OF this rs(4,2)] obtain h' r where
    r: "mergeResults h rs = Inr (h', Some r)" "result_ok h' r" "store_ok h'" "map su_id h' = map su_id h" "r_unitIds r = eval_ids rs" by blast
  have "\<forall>r \<in> set rs. result_ok h' r" using rs(4) r(4) result_ok_cong by blast
  moreover have "store_within ?n h'" using mergeResults_within [OF within r(1)] .
  ultimately show ?thesis
    using rs(1) r eval_queries_ids [OF rs(3) qs(1)] list_all2_lengthD [OF rs(3)]
    by (intro exI [of _ h'] exI [of _ "\<lparr>s_sourceResults = rs, s_result = Some r\<rparr>"] exI [of _ r])
      (auto simp: Oktavia_search_def SearchSummary_mergeResult_def)
qed

subsection \<open>Ranking\<close>

text \<open>
  What a hit is worth.  The code of a character is its number in the order in which the characters
  first appear in the text.  A hit counts ten if it is at position 0 or the code of the character
  before it is not the code of a letter, a digit or an underscore, and one otherwise; it counts two
  more if it was found by its exact word.
\<close>

definition text_code :: "jsstring \<Rightarrow> nat \<Rightarrow> nat" where
  "text_code t c = 3 + length (takeWhile (\<lambda>x. x \<noteq> c) (drop 3 (foldl add_new initial_chars t)))"

definition prominent :: "jsstring \<Rightarrow> nat \<Rightarrow> bool" where
  "prominent t p \<longleftrightarrow> p = 0 \<or> \<not> word_char (text_code t (t ! (p - 1)))"

definition hit_score :: "jsstring \<Rightarrow> Position \<Rightarrow> int" where
  "hit_score t pos = (if prominent t (p_position pos) then 10 else 1) + (if p_stemmed pos then 0 else 2)"

definition unit_score :: "jsstring \<Rightarrow> SearchUnit \<Rightarrow> int" where
  "unit_score t u = (\<Sum>pos \<leftarrow> map snd (su_positions u). hit_score t pos)"

lemma white_not_word: "white_space c \<Longrightarrow> \<not> word_char c"
  by (auto simp: white_space_def word_char_def)

lemma takeWhile_index: "distinct xs \<Longrightarrow> i < length xs \<Longrightarrow> length (takeWhile (\<lambda>x. x \<noteq> xs ! i) xs) = i"
  by (induction xs arbitrary: i) (auto simp: nth_Cons split: nat.splits)

lemma text_code_table:
  assumes "tables_ok codes (foldl add_new initial_chars t)" "obj_get codes c = Some k" "3 \<le> c"
  shows "text_code t c = k"
proof -
  obtain rest where rest: "foldl add_new initial_chars t = initial_chars @ rest" "distinct rest"
    "3 \<le> k \<and> k < length (foldl add_new initial_chars t) \<and> foldl add_new initial_chars t ! k = c"
    using assms by (auto simp: tables_ok_def)
  then have "k - 3 < length rest" "rest ! (k - 3) = c" by (auto simp: initial_chars_def nth_append numeral_3_eq_3)
  then show ?thesis using takeWhile_index [OF rest(2), of "k - 3"] rest(1,3) by (simp add: text_code_def initial_chars_def)
qed

lemma wordPositionType_value:
  assumes e: "searchable okt t M d" "foldl add_new initial_chars t = ok_compressCode2utf16 okt" "\<forall>c \<in> set t. 3 \<le> c"
    and p: "p < length t" "(length t + d - 2) div d * d \<le> length t"
  shows "\<exists>x. Oktavia_wordPositionType okt p = Inr x \<and> (x \<noteq> 0 \<longleftrightarrow> prominent t p)"
proof (cases "p = 0")
  case False
  let ?codes = "ok_utf162compressCode okt" and ?c = "t ! (p - 1)"
  have "(p - 1 + 1 + d - 2) div d * d \<le> (length t + d - 2) div d * d" using p(1) by (intro mult_le_mono1 div_le_mono) simp
  then have "(p - 1 + 1 + d - 2) div d * d \<le> length t" using p(2) by (rule le_trans)
  then have "FMIndex_getSubstring (ok_fmindex okt) (p - 1) 1 = Inr (encode ?codes (take 1 (drop (p - 1) t)))"
    using False p(1) by (intro getSubstring_codes [OF e(1)]) simp_all
  moreover have "take 1 (drop (p - 1) t) = [?c]" using False p(1) by (simp add: take_Suc_conv_app_nth)
  moreover have "?c \<in> set t" using p(1) by simp
  then obtain k where k: "obj_get ?codes ?c = Some k" "3 \<le> ?c" using e(1,3) by (auto simp: searchable_def covers_def)
  moreover have "text_code t ?c = k" using text_code_table [of ?codes t] e(1,2) k by (simp add: searchable_def)
  ultimately have "FMIndex_getSubstring (ok_fmindex okt) (p - 1) 1 = Inr [text_code t ?c]" by (simp add: encode_def)
  moreover have "text_code t ?c \<noteq> 1" by (simp add: text_code_def)
  ultimately show ?thesis
    using False white_not_word [of "text_code t ?c"] by (auto simp: Oktavia_wordPositionType_def prominent_def Oktavia_eob_def)
qed (simp add: Oktavia_wordPositionType_def prominent_def)

definition scored :: "jsstring \<Rightarrow> unit_store \<Rightarrow> nat \<Rightarrow> unit_store" where
  "scored t h a = h[a := (h ! a)\<lparr>su_score := unit_score t (h ! a)\<rparr>]"

lemma position_scores:
  assumes "\<forall>pos \<in> set ps. \<exists>x. Oktavia_wordPositionType okt (p_position pos) = Inr x \<and> (x \<noteq> 0 \<longleftrightarrow> prominent t (p_position pos))"
  shows "js_fold (position_score okt) score ps = Inr (score + (\<Sum>pos \<leftarrow> ps. hit_score t pos))"
  using assms
proof (induction ps arbitrary: score)
  case (Cons pos ps)
  then have "position_score okt score pos = Inr (score + hit_score t pos)" by (auto simp: position_score_def hit_score_def Let_def)
  then show ?case using Cons by simp
qed simp

lemma score_unit_scored:
  assumes "\<And>p. p < n \<Longrightarrow> \<exists>x. Oktavia_wordPositionType okt p = Inr x \<and> (x \<noteq> 0 \<longleftrightarrow> prominent t p)" "store_within n h" "a < length h"
  shows "score_unit okt h a = Inr (scored t h a)"
proof -
  have "\<forall>x \<in> set (su_positions (h ! a)). p_position (snd x) < n" using store_within_at [OF assms(2), of a] assms(3) by simp
  then have "js_fold (position_score okt) 0 (map snd (su_positions (h ! a))) = Inr (unit_score t (h ! a))"
    using position_scores [of "map snd (su_positions (h ! a))" okt t 0] assms(1) by (auto simp: unit_score_def)
  then show ?thesis using assms(3) by (simp add: score_unit_def scored_def)
qed

lemma scored_keeps: "a < length h \<Longrightarrow> map su_id (scored t h a) = map su_id h"
  "a < length h \<Longrightarrow> map su_positions (scored t h a) = map su_positions h"
  by (simp_all add: scored_def map_update) (metis length_map list_update_id nth_map)+

lemma store_within_positions: "map su_positions h' = map su_positions h \<Longrightarrow> store_within n h' = store_within n h"
proof -
  have "store_within n h \<longleftrightarrow> (\<forall>ps \<in> set (map su_positions h). \<forall>x \<in> set ps. p_position (snd x) < n)" for h
    by (simp add: store_within_def)
  then show "map su_positions h' = map su_positions h \<Longrightarrow> store_within n h' = store_within n h" by metis
qed

lemma score_units:
  assumes "\<And>p. p < n \<Longrightarrow> \<exists>x. Oktavia_wordPositionType okt p = Inr x \<and> (x \<noteq> 0 \<longleftrightarrow> prominent t p)"
  shows "store_within n h \<Longrightarrow> \<forall>a \<in> set us. a < length h \<Longrightarrow>
    \<exists>h'. js_fold (score_unit okt) h us = Inr h' \<and> map su_id h' = map su_id h \<and> map su_positions h' = map su_positions h \<and>
      (\<forall>a < length h. a \<in> set us \<or> su_score (h ! a) = unit_score t (h ! a) \<longrightarrow> su_score (h' ! a) = unit_score t (h' ! a))"
proof (induction us arbitrary: h)
  case (Cons a us)
  let ?h = "scored t h a"
  have a: "a < length h" using Cons.prems by simp
  note keep = scored_keeps [OF a, of t]
  have len: "length ?h = length h" by (simp add: scored_def)
  obtain h' where h': "js_fold (score_unit okt) ?h us = Inr h'" "map su_id h' = map su_id ?h" "map su_positions h' = map su_positions ?h"
    "\<forall>b < length ?h. b \<in> set us \<or> su_score (?h ! b) = unit_score t (?h ! b) \<longrightarrow> su_score (h' ! b) = unit_score t (h' ! b)"
    using Cons.IH [of ?h] Cons.prems store_within_positions [OF keep(2), of n] len by auto
  have "su_score (?h ! b) = unit_score t (?h ! b)" if "b < length h" "b = a \<or> su_score (h ! b) = unit_score t (h ! b)" for b
    using that by (cases "b = a") (auto simp: scored_def unit_score_def)
  then have "\<forall>b < length h. b \<in> set (a # us) \<or> su_score (h ! b) = unit_score t (h ! b) \<longrightarrow> su_score (h' ! b) = unit_score t (h' ! b)"
    using h'(4) len by auto
  then show ?case using h'(1-3) keep score_unit_scored [OF assms Cons.prems(1) a] by simp
qed auto

lemma sortResult_returns:
  assumes "\<And>p. p < n \<Longrightarrow> \<exists>x. Oktavia_wordPositionType okt p = Inr x \<and> (x \<noteq> 0 \<longleftrightarrow> prominent t p)"
    and "store_within n h" "s_result summary = Some r" "result_ok h r"
  shows "\<exists>h' result. sortResult okt h summary = Inr (h', result) \<and> mset result = mset (r_units r) \<and> map su_id h' = map su_id h
    \<and> sorted_wrt (\<lambda>a b. su_score (h' ! b) \<le> su_score (h' ! a)) result
    \<and> (\<forall>a \<in> set result. su_score (h' ! a) = unit_score t (h' ! a))"
proof -
  have units: "\<forall>a \<in> set (r_units r). a < length h"
    using result_ok_nth [OF assms(4)] assms(4) by (auto simp: in_set_conv_nth result_ok_def)
  obtain h' where h': "js_fold (score_unit okt) h (r_units r) = Inr h'" "map su_id h' = map su_id h"
    "\<forall>a < length h. a \<in> set (r_units r) \<or> su_score (h ! a) = unit_score t (h ! a) \<longrightarrow> su_score (h' ! a) = unit_score t (h' ! a)"
    using score_units [OF assms(1,2) units] by blast
  let ?s = "sort_key (\<lambda>u. - su_score (h' ! u)) (r_units r)"
  have "sorted_wrt (\<lambda>a b. su_score (h' ! b) \<le> su_score (h' ! a)) ?s"
    using sorted_sort_key [of "\<lambda>u. - su_score (h' ! u)" "r_units r"] by (simp add: sorted_map)
  then show ?thesis using h' units assms(3) by (intro exI [of _ h'] exI [of _ ?s]) (simp add: sortResult_def SearchSummary_getSortedResult_def)
qed

subsection \<open>From the query string to the ranked documents\<close>

lemma parser_queries: "qp_queries (fst (QueryStringParser_parse p s)) = snd (QueryStringParser_parse p s)"
  by (simp add: QueryStringParser_parse_def Let_def)

lemma highlight_returns:
  assumes "\<forall>q \<in> set (snd (QueryStringParser_parse p s)). well_formed (q_word q)"
  shows "\<exists>link. QueryStringParser_highlight (fst (QueryStringParser_parse p s)) = Inr link"
  using highlight_fold [OF assms, of "[]"] by (auto simp: QueryStringParser_highlight_def parser_queries)

lemma getProposal_returns:
  assumes "store_ok h" "2 \<le> length (s_sourceResults s)" "\<forall>r \<in> set (s_sourceResults s). result_ok h r"
  shows "\<exists>h' proposals. SearchSummary_getProposal h s = Inr (h', proposals)"
  using getProposal_fold [OF assms(3,1,2)] by (auto simp: SearchSummary_getProposal_def)

lemma result_ids:
  assumes "result_ok h r" "mset result = mset (r_units r)" "map su_id h' = map su_id h"
  shows "mset (map (\<lambda>a. su_id (h' ! a)) result) = mset (r_unitIds r)"
proof -
  have "map (\<lambda>a. su_id (h' ! a)) (r_units r) = r_unitIds r"
  proof (rule nth_equalityI)
    fix i assume i: "i < length (map (\<lambda>a. su_id (h' ! a)) (r_units r))"
    then have i': "i < length (r_unitIds r)" using assms(1) by (simp add: result_ok_def)
    note ok = result_ok_nth [OF assms(1) i']
    have "length h' = length h" using assms(3) by (metis length_map)
    then have "su_id (h' ! (r_units r ! i)) = su_id (h ! (r_units r ! i))" using ok(2) assms(3) by (metis nth_map)
    then show "map (\<lambda>a. su_id (h' ! a)) (r_units r) ! i = r_unitIds r ! i" using ok i by simp
  qed (use assms(1) in \<open>simp add: result_ok_def\<close>)
  then show ?thesis using assms(2) by (metis mset_map)
qed

lemma search_engine:
  assumes e: "engine toLower stem key docs M d okt" and chars: "\<forall>c \<in> set (doc_text docs). 3 \<le> c" and page: "0 < n" and d: "(length (doc_text docs) + d - 2) div d * d \<le> length (doc_text docs)"
    and qs: "qs = snd (QueryStringParser_parse QueryStringParser_new queryString)" "qs \<noteq> []"
      "\<forall>q \<in> set qs. answerable toLower stem docs q \<and> well_formed (q_word q)"
    and D: "D = eval_queries (\<lambda>q. stretch (doc_tails docs) ` hits toLower stem docs q) qs"
  shows "\<exists>this result. OktaviaSearch_search toLower ((OktaviaSearch_new n)\<lparr>os_oktavia := okt\<rparr>) queryString =
      Inr (this, card D, (card D + n - 1) div n)
    \<and> os_result this = Some result \<and> os_entriesPerPage this = n \<and> os_currentPage this = 1
    \<and> mset (map (\<lambda>a. su_id (os_store this ! a)) result) = mset_set D
    \<and> sorted_wrt (\<lambda>a b. su_score (os_store this ! b) \<le> su_score (os_store this ! a)) result
    \<and> (\<forall>a \<in> set result. su_score (os_store this ! a) = unit_score (doc_text docs) (os_store this ! a))"
proof -
  let ?p = "QueryStringParser_parse QueryStringParser_new queryString"
  obtain link where link: "QueryStringParser_highlight (fst ?p) = Inr link" using highlight_returns qs(1,3) by blast
  obtain h s r where s: "Oktavia_search toLower okt [] qs = Inr (h, s)" "s_result s = Some r" "result_ok h r" "store_ok h" "set (r_unitIds r) = D"
    "store_within (length (doc_text docs)) h" "length (s_sourceResults s) = length qs" "\<forall>r \<in> set (s_sourceResults s). result_ok h r"
    using engine_search_ok [OF e qs(2)] qs(3) D by blast
  have ids: "mset (r_unitIds r) = mset_set D" "length (r_units r) = card D"
    using s(3,5) by (auto simp: result_ok_def mset_set_set distinct_card)
  show ?thesis
  proof (cases "0 < length (r_units r)")
    case True
    have "\<exists>x. Oktavia_wordPositionType okt p = Inr x \<and> (x \<noteq> 0 \<longleftrightarrow> prominent (doc_text docs) p)" if "p < length (doc_text docs)" for p
      using e by (intro wordPositionType_value [where M = M, OF _ _ chars that d]) (simp_all add: engine_def)
    from sortResult_returns [OF this s(6,2,3)] obtain h' result where r: "sortResult okt h s = Inr (h', result)"
      "mset result = mset (r_units r)" "map su_id h' = map su_id h" "sorted_wrt (\<lambda>a b. su_score (h' ! b) \<le> su_score (h' ! a)) result"
      "\<forall>a \<in> set result. su_score (h' ! a) = unit_score (doc_text docs) (h' ! a)" by blast
    have "length result = card D" using r(2) ids(2) by (metis size_mset)
    then show ?thesis
      using True s(1,2) r link page qs(1) result_ids [OF s(3) r(2,3)] ids(1)
      by (simp add: OktaviaSearch_search_def OktaviaSearch_new_def SearchSummary_size_def pages_def split_beta)
  next
    case False
    have "finite D" using s(5) by (metis List.finite_set)
    then have "D = {}" using False ids(2) by simp
    moreover have "\<exists>h' proposals. (if 1 < length qs then SearchSummary_getProposal h s else Inr (h, [])) = Inr (h', proposals)"
      using getProposal_returns [OF s(4) _ s(8)] s(7) by auto
    ultimately show ?thesis
      using False s(1,2) link page qs(1)
      by (auto simp: OktaviaSearch_search_def OktaviaSearch_new_def SearchSummary_size_def pages_def split_beta split: if_splits)
  qed
qed

text \<open>
  C1.  The search box: on documents that were indexed, stored and loaded again, a query string delivers
  exactly the documents it asks for, each once, and reports their number and the number of pages; a
  query string that asks for none delivers an empty result.  The documents are ranked by their score,
  which is the sum of what the hits recorded for them are worth.

  The conditions: the documents are not empty and have characters from 3 on only, no stem of a word is the
  name of a member that every object inherits, and the sizes are within those of the file format.  Every
  query is answerable: all characters of its word occur in the documents and the last one is not the
  character that appears last in them for the first time, which the index never finds; the same holds
  for the registered words with its stem, unless the query is quoted; and its word is well-formed
  UTF-16.  The last sample of the index lies in the text, since the ranking reads characters of it.
\<close>

theorem OktaviaSearch_search_correct:
  assumes "docs \<noteq> []" "docs_ok toLower stem docs" "docs_small toLower stem key docs" "0 < n"
    and "(length (doc_text docs) + cache_range density - 2) div cache_range density * cache_range density \<le> length (doc_text docs)"
    and "qs = snd (QueryStringParser_parse QueryStringParser_new queryString)" "qs \<noteq> []"
    and "\<forall>q \<in> set qs. answerable toLower stem docs q \<and> well_formed (q_word q)"
    and "D = eval_queries (\<lambda>q. stretch (doc_tails docs) ` hits toLower stem docs q) qs"
  shows "\<exists>this result. js_bind (index_documents toLower stem key docs density) (\<lambda>okt. js_bind (Oktavia_dump okt) (\<lambda>data.
      js_bind (Oktavia_load (Oktavia_setStemmer Oktavia_new stem) data) (\<lambda>okt'.
      OktaviaSearch_search toLower ((OktaviaSearch_new n)\<lparr>os_oktavia := okt'\<rparr>) queryString))) = Inr (this, card D, (card D + n - 1) div n)
    \<and> os_result this = Some result \<and> os_currentPage this = 1 \<and> OktaviaSearch_totalPages this = Inr ((card D + n - 1) div n)
    \<and> mset (map (\<lambda>a. su_id (os_store this ! a)) result) = mset_set D
    \<and> sorted_wrt (\<lambda>a b. su_score (os_store this ! b) \<le> su_score (os_store this ! a)) result
    \<and> (\<forall>a \<in> set result. su_score (os_store this ! a) = unit_score (doc_text docs) (os_store this ! a))"
proof -
  have chars: "\<forall>c \<in> set (doc_text docs). 3 \<le> c" using assms(2) by (auto simp: docs_ok_def doc_text_def)
  obtain okt where okt: "index_documents toLower stem key docs density = Inr okt"
    "engine toLower stem key docs (length (ok_compressCode2utf16 okt)) (cache_range density) okt" "fresh_engine key docs okt"
    using index_documents_engine [OF assms(1,2)] by blast
  obtain data okt' where load: "Oktavia_dump okt = Inr data" "Oktavia_load (Oktavia_setStemmer Oktavia_new stem) data = Inr okt'"
    "engine toLower stem key docs (2 ^ ceil_log2 (length (ok_compressCode2utf16 okt))) (cache_range density) okt'"
    using engine_dump_load [OF okt(2,3) cache_range_bound docs_storable [OF okt(2) assms(3)]] by blast
  obtain this result where r: "OktaviaSearch_search toLower ((OktaviaSearch_new n)\<lparr>os_oktavia := okt'\<rparr>) queryString = Inr (this, card D, (card D + n - 1) div n)"
    "os_result this = Some result" "os_entriesPerPage this = n" "os_currentPage this = 1"
    "mset (map (\<lambda>a. su_id (os_store this ! a)) result) = mset_set D"
    "sorted_wrt (\<lambda>a b. su_score (os_store this ! b) \<le> su_score (os_store this ! a)) result"
    "\<forall>a \<in> set result. su_score (os_store this ! a) = unit_score (doc_text docs) (os_store this ! a)"
    using search_engine [OF load(3) chars assms(4-9)] by blast
  have "length result = size (mset_set D)" using r(5) by (metis length_map size_mset)
  then have "OktaviaSearch_totalPages this = Inr ((card D + n - 1) div n)"
    using r(2,3) assms(4) by (simp add: OktaviaSearch_totalPages_def the_result_def pages_def)
  then show ?thesis using okt(1) load(1,2) r by (intro exI [of _ this] exI [of _ result]) simp
qed

lemma parse_example: "snd (QueryStringParser_parse QueryStringParser_new (js_lit ''ba'')) = [example_query]"
  by (simp add: QueryStringParser_parse_def QueryStringParser_new_def parse_char_def parse_end_def push_query_def slice_def isSpace_def
    js_lit_def word_OR_def example_query_def Let_def)

theorem OktaviaSearch_search_correct_witness:
  "\<exists>this result. js_bind (index_documents (\<lambda>s. s) example_stem [75] example_docs 100) (\<lambda>okt. js_bind (Oktavia_dump okt) (\<lambda>data.
      js_bind (Oktavia_load (Oktavia_setStemmer Oktavia_new example_stem) data) (\<lambda>okt'.
      OktaviaSearch_search (\<lambda>s. s) ((OktaviaSearch_new 10)\<lparr>os_oktavia := okt'\<rparr>) (js_lit ''ba'')))) = Inr (this, 2, 1)
    \<and> os_result this = Some result \<and> mset (map (\<lambda>a. su_id (os_store this ! a)) result) = {#0, 1#}"
proof -
  have "answerable (\<lambda>s. s) example_stem example_docs example_query \<and> well_formed (q_word example_query)"
    using example_answerable by (simp add: example_query_def)
  moreover have "eval_queries (\<lambda>q. stretch (doc_tails example_docs) ` hits (\<lambda>s. s) example_stem example_docs q) [example_query] = {0, 1}"
    by (simp add: eval_queries_def example_hits)
  moreover have "(length (doc_text example_docs) + cache_range 100 - 2) div cache_range 100 * cache_range 100 \<le> length (doc_text example_docs)"
    by (simp add: example_range)
  ultimately obtain this result where r: "js_bind (index_documents (\<lambda>s. s) example_stem [75] example_docs 100) (\<lambda>okt. js_bind (Oktavia_dump okt) (\<lambda>data.
      js_bind (Oktavia_load (Oktavia_setStemmer Oktavia_new example_stem) data) (\<lambda>okt'.
      OktaviaSearch_search (\<lambda>s. s) ((OktaviaSearch_new 10)\<lparr>os_oktavia := okt'\<rparr>) (js_lit ''ba'')))) =
        Inr (this, card {0 :: nat, 1}, (card {0 :: nat, 1} + 10 - 1) div 10)"
    "os_result this = Some result" "mset (map (\<lambda>a. su_id (os_store this ! a)) result) = mset_set {0, 1}"
    using OktaviaSearch_search_correct [OF example_docs_ok example_docs_small, of 10 100 "[example_query]" "js_lit ''ba''" "{0, 1}"] parse_example
    by (metis (no_types, lifting) empty_set list.simps(15) not_Cons_self2 singletonD zero_less_numeral)
  have "card {0 :: nat, 1} = 2" "mset_set {0 :: nat, 1} = {#0, 1#}" by simp_all
  then show ?thesis using r by (intro exI [of _ this] exI [of _ result]) simp
qed

lemma search_unbuilt: "FMIndex_search FMIndex_new w = Inr []"
  by (simp add: FMIndex_search_def FMIndex_getRows_def FMIndex_new_def split: list.splits)

text \<open>
  C40.  A search before the index is loaded is not kept until it is: the engine of the constructor counts as
  there, has no metadata, and the search throws.
\<close>

theorem OktaviaSearch_search_before_load:
  assumes "queries = snd (QueryStringParser_parse QueryStringParser_new queryString)" "queries \<noteq> []"
    and "\<forall>q \<in> set queries. well_formed (q_word q)"
  shows "OktaviaSearch_search toLower (OktaviaSearch_new n) queryString = Inl (Throw ''TypeError'')"
proof -
  let ?p = "QueryStringParser_parse QueryStringParser_new queryString"
  obtain q qs where q: "queries = q # qs" using assms(2) by (cases queries) auto
  obtain link where link: "QueryStringParser_highlight (fst ?p) = Inr link" using highlight_returns assms(1,3) by blast
  have exact: "Oktavia_rawSearch toLower Oktavia_new (q_word q) False = Inr []"
    by (simp add: Oktavia_rawSearch_def Oktavia_new_def search_unbuilt Oktavia_convertToCompressionCode_def)
  have "Oktavia_rawSearch toLower Oktavia_new (q_word q) True \<in> {Inr [], Inl (Throw ''TypeError'')}"
    by (auto simp: Oktavia_rawSearch_def Oktavia_new_def split: option.splits nat.splits)
  then have "Oktavia_searchQuery toLower Oktavia_new [] q = Inl (Throw ''TypeError'')"
    using exact by (auto simp: Oktavia_searchQuery_def Oktavia_getPrimaryMetadata_def Oktavia_new_def)
  then have "Oktavia_search toLower Oktavia_new [] queries = Inl (Throw ''TypeError'')" by (simp add: Oktavia_search_def q)
  then show ?thesis using link assms(1) by (simp add: OktaviaSearch_search_def OktaviaSearch_new_def split_beta)
qed

theorem OktaviaSearch_search_before_load_witness:
  "OktaviaSearch_search (\<lambda>s. s) (OktaviaSearch_new 10) (js_lit ''ba'') = Inl (Throw ''TypeError'')"
  using OktaviaSearch_search_before_load [of "[example_query]" "js_lit ''ba''" "\<lambda>s. s" 10] parse_example by (simp add: example_query_def)

end
