(* ===== verification/Spec2Isabelle.thy ===== *)
theory Spec2Isabelle
  imports English_Search Digest_Server Sha256_Blocks Search_Page
begin

text \<open>
  A verification of the JavaScript programs that come with the vhttp server: the Oktavia full-text
  search engine, which indexes and searches the documentation in the browser, and the service
  worker \<^verbatim>\<open>cache-digest.js\<close>, which tells the server what a browser has in its cache.

  \<^bold>\<open>The search engine.\<close>  The source modelled is the compiled engine
  \<^verbatim>\<open>src/misc/oktavia/lib/oktavia-english-search.js\<close>; the classes are those of \<^verbatim>\<open>src/misc/oktavia/src/*.jsx\<close>.
  A text is added to \<^verbatim>\<open>Oktavia\<close>, which gives every character a small code, registers words under
  their stems and keeps metadata (sections, splitters, tables, blocks) as bit vectors over the text.
  \<^verbatim>\<open>build\<close> sorts the suffixes of the coded text (\<^verbatim>\<open>SAIS\<close>), transforms it (\<^verbatim>\<open>BurrowsWheelerTransform\<close>),
  stores it in a \<^verbatim>\<open>WaveletMatrix\<close> of \<^verbatim>\<open>BitVector\<close>s and adds the counts and samples of the \<^verbatim>\<open>FMIndex\<close>.  A
  query string is parsed (\<^verbatim>\<open>QueryStringParser\<close>), every query is searched in the index, its positions are
  grouped into documents, and the results are merged and ranked (\<^verbatim>\<open>SearchSummary\<close>).  \<^verbatim>\<open>dump\<close> and \<^verbatim>\<open>load\<close>
  store an engine as a string (\<^verbatim>\<open>Binary\<close>).

  \<^item> \<^verbatim>\<open>JS_Prelude\<close>: results of calls (\<^verbatim>\<open>Throw\<close> an exception, \<^verbatim>\<open>Undef\<close> a value outside the model, \<^verbatim>\<open>Diverge\<close>
    a loop without end), arrays, objects with integer keys, ranks and bit fields.
  \<^item> \<^verbatim>\<open>Bit_Vector\<close>, \<^verbatim>\<open>Wavelet_Matrix\<close>: the succinct structures; \<^verbatim>\<open>get\<close>, \<^verbatim>\<open>rank\<close>, \<^verbatim>\<open>select\<close> and
    \<^verbatim>\<open>rank_less_than\<close> compute their specifications on what was set or built.
  \<^item> \<^verbatim>\<open>Suffix_Array\<close>: \<^verbatim>\<open>OArray\<close>, \<^verbatim>\<open>SAIS\<close> with the sequence and the array it sorts in one store, and the
    transform.  \<^verbatim>\<open>Induced_Sorting\<close> is the theory of induced sorting, a locale for one pass over the
    buckets that is interpreted for the pass from the left and the pass from the right, and the order of
    the reduced text; \<^verbatim>\<open>Suffix_Sorting\<close> shows that every loop of \<^verbatim>\<open>SAIS\<close> does its part and that the
    result is the suffix array.
  \<^item> \<^verbatim>\<open>Backward_Search\<close>: suffix arrays, the last-to-first mapping and backward search on lists;
    \<^verbatim>\<open>FM_Index\<close>: the index refines them, search finds the occurrences, every walk ends.
  \<^item> \<^verbatim>\<open>Binary_Util\<close>: the number, string and map formats with a locale of codecs, and base64;
    \<^verbatim>\<open>Index_Storage\<close>: bit vectors, matrices and indexes through dump and load.
  \<^item> \<^verbatim>\<open>Query_Parser\<close>: the parser as a machine over characters and its round trip with printing;
    \<^verbatim>\<open>Search_Result\<close>: units, results and summaries over a store in which units are shared.
  \<^item> \<^verbatim>\<open>Code_Table\<close>, \<^verbatim>\<open>Metadata\<close>, \<^verbatim>\<open>Oktavia\<close>: the tables of codes, the metadata, and the engine composed of
    all of the above; the properties from documents and queries to the documents found, also after
    storing and loading.
  \<^item> \<^verbatim>\<open>Stemmer\<close>: \<^verbatim>\<open>BaseStemmer\<close>, the machine of the Snowball stemmers; its table look-up finds the longest
    entry, by a locale for reading ahead of or behind the cursor.  \<^verbatim>\<open>English_Stemmer\<close>: the tables and
    routines of \<^verbatim>\<open>EnglishStemmer\<close>; every word gets a stem that is not longer.  \<^verbatim>\<open>Stem_Cache\<close>: what the
    object remembers does not matter, so stemming is a function of the word.  \<^verbatim>\<open>English_Search\<close>: the
    engine with this stemmer.
  \<^item> \<^verbatim>\<open>Sax_Parser\<close>: \<^verbatim>\<open>SAXParser\<close>, one definition for each case of its state machine, for any handler; a locale
    \<^verbatim>\<open>sax_handler\<close> for handlers that return or throw; a chunk without a loose bracket is read to its end, and
    a loose bracket makes the parser run forever.  \<^verbatim>\<open>Markup\<close>: trees of markup, their text and their events;
    parsing the text reports the events.
  \<^item> \<^verbatim>\<open>Style\<close>: the handler that replaces tags by the texts of a style, interpreted as a \<^verbatim>\<open>sax_handler\<close>, and
    what \<^verbatim>\<open>convert\<close> makes of well-formed markup.
  \<^item> \<^verbatim>\<open>Search_Page\<close>: \<^verbatim>\<open>OktaviaSearch\<close>, the object behind the search box: loading the index, searching and
    ranking, paging, the texts of the results with their hits marked up, and proposals.  Here the
    chain is closed: what a query string typed by a user delivers on documents that were indexed,
    stored and loaded.

  \<^bold>\<open>The service worker.\<close>  \<^verbatim>\<open>Cache_Digest\<close> models \<^verbatim>\<open>src/misc/cache-digest.js/cache-digest.js\<close>: freshness of
  responses, the Golomb-coded digest of the URLs in the cache, and the handler of requests, as a
  step relation in which requests are on their way while others are handled.  \<^verbatim>\<open>Sha256\<close> models its
  hash function and states the standard beside it, and \<^verbatim>\<open>Sha256_Blocks\<close> shows that it is SHA-256.  \<^verbatim>\<open>Digest_Server\<close> models
  the reader of digests in the server (\<^verbatim>\<open>src/lib/http2/cache_digests.c\<close>, \<^verbatim>\<open>src/deps/golombset/golombset.h\<close>,
  the base64 decoder of \<^verbatim>\<open>src/lib/common/string.c\<close>) and shows that it reads what the worker wrote.

  \<^bold>\<open>Conventions.\<close>  Strings are lists of character codes; JavaScript numbers are natural numbers or
  integers where the source keeps them in range, 32-bit words where it works on bits, and rationals
  for the density of the samples.  The truncation \<^verbatim>\<open>| 0\<close> of the source is the identity below \<^verbatim>\<open>2 ^ 31\<close> and
  is left out; conversions that matter are written out.  Reading behind the end of an array of numbers
  in a bit operation gives zero, as \<^verbatim>\<open>undefined\<close> does there; elsewhere it is the error \<^verbatim>\<open>Undef\<close>.  Loops that
  might not end have fuel: the walk through the index has one more than the size of the index, the
  recursion of \<^verbatim>\<open>SAIS\<close> one more than the length of the text, the loops of the stemmer the length of the
  word and the size of a table, the loop of the SAX parser any number above the length of the
  chunk.  Running out is the error \<^verbatim>\<open>Diverge\<close>, and the
  theorems state results, so they show that the fuel is enough.

  \<^bold>\<open>Arguments.\<close>  Code outside of the program is an argument of the definitions that use it: the
  lower-case mapping of the host and the stemmer in \<^verbatim>\<open>Oktavia\<close>, the case mappings, the texts of
  built-in functions and the digits of numbers from \<^verbatim>\<open>2 ^ 53\<close> on in \<^verbatim>\<open>Sax_Parser\<close>, \<^verbatim>\<open>Style\<close> and
  \<^verbatim>\<open>Search_Page\<close>, the hash function (modelled in \<^verbatim>\<open>Sha256\<close>) and \<^verbatim>\<open>Date.parse\<close> in \<^verbatim>\<open>Cache_Digest\<close>, the hash of
  the server in \<^verbatim>\<open>Digest_Server\<close>.

  \<^bold>\<open>Not modelled.\<close>  Console output; the stemmers of other languages, which are generated by the same
  compiler and come with a copy of the same engine each; the parsers of input formats of the indexer
  (HTML, text, CSV), which exist in JSX only; the user interface scripts, the documentation template
  and the command line tools, which are file and DOM access around what is modelled; the server in C
  apart from the reader of digests; vendored and generated code.\<close>

end
